(* ===== verification/Prelude.thy ===== *)
theory Prelude
  imports Main "HOL-Library.Word"
begin

text \<open>
  Shared vocabulary of the development: the machine types of the i386 build, the outcome of a
  C call, and the generic facts on words, masks and lists that the components use.

  A C function that can fail to return is modelled with the type \<open>outcome\<close>: \<open>Ret x\<close> is a
  normal return, \<open>Trap\<close> an access outside an object or a division by zero (undefined in C,
  a fault on the machine), and \<open>Hang\<close> a loop that is never left, such as the
  \<^verbatim>\<open>while (1)\<close> that ends every failed check of the kernel.
\<close>

unbundle bit_operations_syntax

named_theorems outcome_simps \<open>rewriting of outcomes\<close>
named_theorems bm_simps \<open>rewriting of bitmap queries after updates\<close>

type_synonym u8 = "8 word"
type_synonym u16 = "16 word"
type_synonym u32 = "32 word"
type_synonym u64 = "64 word"

section \<open>Outcomes of C calls\<close>

datatype 'a outcome = Ret 'a | Trap | Hang

definition obind :: "'a outcome \<Rightarrow> ('a \<Rightarrow> 'b outcome) \<Rightarrow> 'b outcome" where
  "obind m f = (case m of Ret x \<Rightarrow> f x | Trap \<Rightarrow> Trap | Hang \<Rightarrow> Hang)"

lemma obind_simps [simp, outcome_simps]:
  "obind (Ret x) f = f x" "obind Trap f = Trap" "obind Hang f = Hang"
  by (simp_all add: obind_def)

lemma obind_eq_Ret: "obind m f = Ret y \<longleftrightarrow> (\<exists>x. m = Ret x \<and> f x = Ret y)"
  by (cases m) auto

lemma obind_cong [fundef_cong]:
  "m = m' \<Longrightarrow> (\<And>x. m' = Ret x \<Longrightarrow> f x = f' x) \<Longrightarrow> obind m f = obind m' f'"
  by (cases m') auto

text \<open>A loop defined by \<^theory_text>\<open>partial_function (option)\<close> is \<open>None\<close> when it is never left.\<close>

definition of_loop :: "'a outcome option \<Rightarrow> 'a outcome" where
  "of_loop m = (case m of None \<Rightarrow> Hang | Some r \<Rightarrow> r)"

lemma of_loop_simps [simp, outcome_simps]: "of_loop None = Hang" "of_loop (Some r) = r"
  by (simp_all add: of_loop_def)

section \<open>Masks of one bit\<close>

text \<open>\<open>push_bit n 1\<close>, the source's \<^verbatim>\<open>1 << n\<close>, is simplified to \<open>2 ^ n\<close>.\<close>

lemma and_mask_eq_0 [simp]: "(w :: 'a::len word) AND 2 ^ n = 0 \<longleftrightarrow> \<not> bit w n"
  by (simp add: and_exp_eq_0_iff_not_bit)

lemma bit_or_mask: "bit ((w :: 'a::len word) OR 2 ^ n) m \<longleftrightarrow> bit w m \<or> (m = n \<and> n < LENGTH('a))"
  by (auto simp: bit_simps dest: bit_imp_le_length)

lemma bit_andnot_mask: "bit ((w :: 'a::len word) AND NOT (2 ^ n)) m \<longleftrightarrow> bit w m \<and> m \<noteq> n"
  by (auto simp: bit_simps dest: bit_imp_le_length)

text \<open>
  The loop \<^verbatim>\<open>for (; mask; mask = mask << 1)\<close> ends: \<open>shifts_left\<close> counts the shifts that
  are left before the mask becomes 0.
\<close>

definition shifts_left :: "'a::len word \<Rightarrow> nat" where
  "shifts_left w = (LEAST k. push_bit k w = 0)"

lemma shifts_left_step: "w \<noteq> 0 \<Longrightarrow> shifts_left w = Suc (shifts_left (push_bit 1 (w :: 'a::len word)))"
proof -
  assume nz: "w \<noteq> 0"
  have "push_bit LENGTH('a) w = 0" by (rule bit_word_eqI) (simp add: bit_simps)
  moreover have "\<not> push_bit 0 w = 0" using nz by simp
  ultimately have "(LEAST k. push_bit k w = 0) = Suc (LEAST k. push_bit (Suc k) w = 0)"
    by (rule Least_Suc)
  then show ?thesis unfolding shifts_left_def by (simp add: push_bit_push_bit)
qed

section \<open>Words as counters\<close>

lemma unat_Suc_word: "(b :: 'a::len word) < c \<Longrightarrow> unat (b + 1) = Suc (unat b)"
  by unat_arith

lemma unat_of_nat_eq: "n < 2 ^ LENGTH('a) \<Longrightarrow> unat (of_nat n :: 'a::len word) = n"
  by (simp add: unat_of_nat take_bit_nat_eq_self)

lemma unat_u32_less: "unat (w :: u32) < 4294967296"
  using unsigned_less [of w] by simp

lemma word_divmod_eq: "(b :: 'a::len word) div d = c div d \<Longrightarrow> b mod d = c mod d \<Longrightarrow> b = c"
  by (metis div_mult_mod_eq)

lemma unat_mod_less: "unat ((b :: 'a::len word) mod d) < unat d" if "d \<noteq> 0"
  using that by (simp add: unat_mod) (metis neq0_conv unat_0_iff mod_less_divisor)

section \<open>Lists\<close>

lemma find_upt_Some:
  "find P [a..<b] = Some n \<longleftrightarrow> a \<le> n \<and> n < b \<and> P n \<and> (\<forall>m. a \<le> m \<and> m < n \<longrightarrow> \<not> P m)"
proof -
  have "find P [a..<b] = Some n \<longleftrightarrow> (\<exists>i < b - a. P (a + i) \<and> n = a + i \<and> (\<forall>j < i. \<not> P (a + j)))"
    by (auto simp: find_Some_iff)
  also have "\<dots> \<longleftrightarrow> a \<le> n \<and> n < b \<and> P n \<and> (\<forall>m. a \<le> m \<and> m < n \<longrightarrow> \<not> P m)"
    by (auto simp: le_iff_add)
  finally show ?thesis .
qed

lemma find_upt_None: "find P [a..<b] = None \<longleftrightarrow> (\<forall>n. a \<le> n \<and> n < b \<longrightarrow> \<not> P n)"
  by (auto simp: find_None_iff)

lemma find_upt_skip:
  assumes "\<And>m. a \<le> m \<Longrightarrow> m < c \<Longrightarrow> \<not> P m" and "a \<le> c"
  shows "find P [a..<b] = find P [c..<b]"
proof (cases "find P [c..<b]")
  case None
  then have "find P [a..<b] = None" using assms unfolding find_upt_None by (metis not_le)
  with None show ?thesis by simp
next
  case (Some n)
  then have "find P [a..<b] = Some n" using assms unfolding find_upt_Some by (metis le_trans not_le)
  with Some show ?thesis by simp
qed

end
