(* ===== verification/Bitmap.thy ===== *)
theory Bitmap
  imports Prelude
begin

text \<open>
  The interface of a page bitmap, stated once for the three allocators of mm/ that keep one
  (page.c, bootmem.c, free-pages.c): setting and clearing one bit change that bit and no other,
  and a bit number past the array is a trap. Every range loop over such an interface sets, or
  clears, exactly the bits of the range, and running from a bit past its end changes nothing.
\<close>

locale bitmap =
  fixes cap :: u32
    and setb :: "'bm \<Rightarrow> u32 \<Rightarrow> 'bm outcome"
    and clrb :: "'bm \<Rightarrow> u32 \<Rightarrow> 'bm outcome"
    and busy :: "'bm \<Rightarrow> u32 \<Rightarrow> bool"
  assumes setb_Ret: "b < cap \<Longrightarrow> \<exists>bm'. setb bm b = Ret bm' \<and> (\<forall>c. busy bm' c \<longleftrightarrow> c = b \<or> busy bm c)"
    and clrb_Ret: "b < cap \<Longrightarrow> \<exists>bm'. clrb bm b = Ret bm' \<and> (\<forall>c. busy bm' c \<longleftrightarrow> c \<noteq> b \<and> busy bm c)"
    and setb_Trap: "\<not> b < cap \<Longrightarrow> setb bm b = Trap"
    and clrb_Trap: "\<not> b < cap \<Longrightarrow> clrb bm b = Trap"
begin

lemma set_then_clear:
  assumes "b < cap" and "\<not> busy bm b"
  shows "\<exists>bm1 bm2. setb bm b = Ret bm1 \<and> clrb bm1 b = Ret bm2 \<and> (\<forall>c. busy bm2 c \<longleftrightarrow> busy bm c)"
proof -
  obtain bm1 where 1: "setb bm b = Ret bm1" "\<forall>c. busy bm1 c \<longleftrightarrow> c = b \<or> busy bm c"
    using setb_Ret [OF assms(1)] by blast
  obtain bm2 where 2: "clrb bm1 b = Ret bm2" "\<forall>c. busy bm2 c \<longleftrightarrow> c \<noteq> b \<and> busy bm1 c"
    using clrb_Ret [OF assms(1)] by blast
  show ?thesis using 1 2 assms(2) by auto
qed

end

text \<open>
  A range operation repeats a bit operation from \<open>b\<close> to \<open>e\<close>, both included, with the loop
  \<^verbatim>\<open>for (; bit <= end_bit; bit++)\<close>.
\<close>

locale bitmap_range = bitmap cap setb clrb busy
  for cap :: u32 and setb clrb :: "'bm \<Rightarrow> u32 \<Rightarrow> 'bm outcome" and busy +
  fixes setr :: "'bm \<Rightarrow> u32 \<Rightarrow> u32 \<Rightarrow> 'bm outcome"
    and clrr :: "'bm \<Rightarrow> u32 \<Rightarrow> u32 \<Rightarrow> 'bm outcome"
  assumes setr_rec: "setr bm b e = (if b \<le> e then obind (setb bm b) (\<lambda>bm'. setr bm' (b + 1) e) else Ret bm)"
    and clrr_rec: "clrr bm b e = (if b \<le> e then obind (clrb bm b) (\<lambda>bm'. clrr bm' (b + 1) e) else Ret bm)"
begin

lemma setr_Ret:
  "e < cap \<Longrightarrow> \<exists>bm'. setr bm b e = Ret bm' \<and> (\<forall>c. busy bm' c \<longleftrightarrow> (b \<le> c \<and> c \<le> e) \<or> busy bm c)"
proof (induction "unat e + 1 - unat b" arbitrary: b bm)
  case 0
  then have "\<not> b \<le> e" by (simp add: word_le_nat_alt)
  then show ?case using setr_rec by fastforce
next
  case (Suc k)
  then have be: "b \<le> e" and "b < cap" by (auto simp: word_le_nat_alt word_less_nat_alt)
  then obtain bm1 where 1: "setb bm b = Ret bm1" "\<forall>c. busy bm1 c \<longleftrightarrow> c = b \<or> busy bm c"
    using setb_Ret by blast
  have u: "unat (b + 1) = Suc (unat b)" using \<open>b < cap\<close> by (rule unat_Suc_word)
  then have "k = unat e + 1 - unat (b + 1)" using Suc.hyps(2) by simp
  from Suc.hyps(1) [OF this Suc.prems, of bm1] obtain bm2 where
    2: "setr bm1 (b + 1) e = Ret bm2" "\<forall>c. busy bm2 c \<longleftrightarrow> (b + 1 \<le> c \<and> c \<le> e) \<or> busy bm1 c"
    by blast
  have "(b \<le> c) = (c = b \<or> b + 1 \<le> c)" for c
    using u by (auto simp: word_le_nat_alt word_unat_eq_iff)
  then show ?case using setr_rec [of bm b e] be 1 2 by auto
qed

lemma clrr_Ret:
  "e < cap \<Longrightarrow> \<exists>bm'. clrr bm b e = Ret bm' \<and> (\<forall>c. busy bm' c \<longleftrightarrow> \<not> (b \<le> c \<and> c \<le> e) \<and> busy bm c)"
proof (induction "unat e + 1 - unat b" arbitrary: b bm)
  case 0
  then have "\<not> b \<le> e" by (simp add: word_le_nat_alt)
  then show ?case using clrr_rec by fastforce
next
  case (Suc k)
  then have be: "b \<le> e" and "b < cap" by (auto simp: word_le_nat_alt word_less_nat_alt)
  then obtain bm1 where 1: "clrb bm b = Ret bm1" "\<forall>c. busy bm1 c \<longleftrightarrow> c \<noteq> b \<and> busy bm c"
    using clrb_Ret by blast
  have u: "unat (b + 1) = Suc (unat b)" using \<open>b < cap\<close> by (rule unat_Suc_word)
  then have "k = unat e + 1 - unat (b + 1)" using Suc.hyps(2) by simp
  from Suc.hyps(1) [OF this Suc.prems, of bm1] obtain bm2 where
    2: "clrr bm1 (b + 1) e = Ret bm2" "\<forall>c. busy bm2 c \<longleftrightarrow> \<not> (b + 1 \<le> c \<and> c \<le> e) \<and> busy bm1 c"
    by blast
  have "(b \<le> c) = (c = b \<or> b + 1 \<le> c)" for c
    using u by (auto simp: word_le_nat_alt word_unat_eq_iff)
  then show ?case using clrr_rec [of bm b e] be 1 2 by auto
qed

text \<open>Clearing the range that was set gives the bitmap back when the range was free.\<close>

lemma setr_clrr:
  assumes "e < cap" and "\<forall>c. b \<le> c \<and> c \<le> e \<longrightarrow> \<not> busy bm c"
  shows "\<exists>bm1 bm2. setr bm b e = Ret bm1 \<and> clrr bm1 b e = Ret bm2 \<and> (\<forall>c. busy bm2 c \<longleftrightarrow> busy bm c)"
proof -
  obtain bm1 where 1: "setr bm b e = Ret bm1" "\<forall>c. busy bm1 c \<longleftrightarrow> (b \<le> c \<and> c \<le> e) \<or> busy bm c"
    using setr_Ret [OF assms(1)] by blast
  obtain bm2 where 2: "clrr bm1 b e = Ret bm2" "\<forall>c. busy bm2 c \<longleftrightarrow> \<not> (b \<le> c \<and> c \<le> e) \<and> busy bm1 c"
    using clrr_Ret [OF assms(1)] by blast
  show ?thesis using 1 2 assms(2) by auto
qed

end

end
