(* ===== verification/Multiboot.thy ===== *)
theory Multiboot
  imports Prelude
begin

text \<open>
  The multiboot records of arch/i386/include/multiboot.h, as far as the kernel reads them, the
  drive record of sysinfo.h, and the RAM map that arch/i386/lib/sysinfo.c keeps and mm/page.c
  reads.
\<close>

record ram_map_t =
  saddr :: u32
  len :: u32

record multiboot_info =
  mi_flags :: u32
  mem_lower :: u32
  mem_upper :: u32
  boot_device :: u32
  cmdline :: u32
  mmap_length :: u32
  mmap_addr :: u32
  drives_length :: u32
  drives_addr :: u32
  boot_loader_name :: u32

record multiboot_mmap_entry =
  mm_size :: u32
  mm_addr :: u64
  mm_len :: u64
  mm_type :: u32

record bios_drive_info =
  drive_size :: u32
  drive_no :: u8
  drive_mode :: u8
  drive_cylinders :: u16
  drive_heads :: u8
  drive_sectors :: u8
  start_port_array :: u32

definition MULTIBOOT_INFO_MEMORY :: u32 where "MULTIBOOT_INFO_MEMORY = 0x1"
definition MULTIBOOT_INFO_BOOTDEV :: u32 where "MULTIBOOT_INFO_BOOTDEV = 0x2"
definition MULTIBOOT_INFO_CMDLINE :: u32 where "MULTIBOOT_INFO_CMDLINE = 0x4"
definition MULTIBOOT_INFO_MEM_MAP :: u32 where "MULTIBOOT_INFO_MEM_MAP = 0x20"
definition MULTIBOOT_INFO_DRIVE_INFO :: u32 where "MULTIBOOT_INFO_DRIVE_INFO = 0x80"
definition MULTIBOOT_INFO_BOOT_LOADER_NAME :: u32 where "MULTIBOOT_INFO_BOOT_LOADER_NAME = 0x200"
definition MULTIBOOT_MEMORY_AVAILABLE :: u32 where "MULTIBOOT_MEMORY_AVAILABLE = 1"

text \<open>The packed sizes of an entry of the memory map and of a drive record.\<close>

definition sizeof_mmap_entry :: nat where "sizeof_mmap_entry = 24"
definition sizeof_drive_info :: nat where "sizeof_drive_info = 14"

end
