(* ===== verification/PageAlloc.thy ===== *)
theory PageAlloc
  imports Bitmap Multiboot
begin

text \<open>
  The physical page allocator, mm/page.c, and kmalloc of mm/heap.c. One bit per page frame of
  the 4 GiB address space, 1 for busy, in the array \<^verbatim>\<open>free_bm\<close> of 32768 words. The array is
  a function from its index to the word; an index past the array is the outcome \<open>Trap\<close>.
\<close>

type_synonym bitmap_t = "nat \<Rightarrow> u32"

section \<open>Constants and macros\<close>

definition PAGE_SIZE :: u32 where "PAGE_SIZE = 4096"
definition NUM_FRAMES :: u32 where "NUM_FRAMES = 1048576"
definition UINT_CNT :: nat where "UINT_CNT = 32768"
definition LAST_BIT_NO :: u32 where "LAST_BIT_NO = NUM_FRAMES - 1"

definition GET_PAGENO :: "u32 \<Rightarrow> u32" where "GET_PAGENO a = a div PAGE_SIZE"
definition PAGENO_TO_ADDR :: "u32 \<Rightarrow> u32" where "PAGENO_TO_ADDR b = b * PAGE_SIZE"

section \<open>Bits\<close>

definition fp_setbit :: "bitmap_t \<Rightarrow> u32 \<Rightarrow> bitmap_t outcome" where
  "fp_setbit bm b =
     (let index = unat b div 32; offset = unat b mod 32; msk = push_bit offset 1
      in if index < UINT_CNT then Ret (bm(index := bm index OR msk)) else Trap)"

definition fp_clearbit :: "bitmap_t \<Rightarrow> u32 \<Rightarrow> bitmap_t outcome" where
  "fp_clearbit bm b =
     (let index = unat b div 32; offset = unat b mod 32; msk = push_bit offset 1
      in if index < UINT_CNT then Ret (bm(index := bm index AND NOT msk)) else Trap)"

definition fp_getbit :: "bitmap_t \<Rightarrow> u32 \<Rightarrow> bool outcome" where
  "fp_getbit bm b =
     (let index = unat b div 32; offset = unat b mod 32; msk = push_bit offset 1
      in if index < UINT_CNT then Ret (bm index AND msk \<noteq> 0 \<and> bm index AND msk \<noteq> 0) else Trap)"

text \<open>The abstract bitmap: which page frames are busy.\<close>

definition busyn :: "bitmap_t \<Rightarrow> nat \<Rightarrow> bool" where
  "busyn bm n \<longleftrightarrow> bit (bm (n div 32)) (n mod 32)"

definition page_busy :: "bitmap_t \<Rightarrow> u32 \<Rightarrow> bool" where
  "page_busy bm b = busyn bm (unat b)"

lemma index_in_range [simp]: "unat (b :: u32) div 32 < UINT_CNT \<longleftrightarrow> b < NUM_FRAMES"
  by (simp add: UINT_CNT_def NUM_FRAMES_def word_less_nat_alt div_less_iff_less_mult)

lemma same_bit: "(unat (c :: u32) div 32 = unat b div 32 \<and> unat c mod 32 = unat b mod 32) \<longleftrightarrow> c = b"
  by (metis div_mult_mod_eq word_unat_eq_iff)

lemma busyn_set:
  "busyn (bm(unat b div 32 := bm (unat b div 32) OR 2 ^ (unat b mod 32))) (unat c) \<longleftrightarrow> c = (b::u32) \<or> busyn bm (unat c)"
  using same_bit [of c b] by (auto simp: busyn_def bit_or_mask simp del: word_unat_eq_iff)

lemma busyn_clr:
  "busyn (bm(unat b div 32 := bm (unat b div 32) AND NOT (2 ^ (unat b mod 32)))) (unat c) \<longleftrightarrow> c \<noteq> (b::u32) \<and> busyn bm (unat c)"
  using same_bit [of c b] by (auto simp: busyn_def bit_andnot_mask)

lemma fp_getbit_eq: "fp_getbit bm b = (if b < NUM_FRAMES then Ret (page_busy bm b) else Trap)"
  by (simp add: fp_getbit_def Let_def page_busy_def busyn_def)

interpretation fp: bitmap NUM_FRAMES fp_setbit fp_clearbit page_busy
  by unfold_locales
    (auto simp: fp_setbit_def fp_clearbit_def Let_def page_busy_def busyn_set busyn_clr)

section \<open>Ranges\<close>

lemma fp_setbit_RetD: "fp_setbit bm b = Ret bm' \<Longrightarrow> unat (b + 1) = Suc (unat b)"
  by (auto simp: fp_setbit_def Let_def intro!: unat_Suc_word split: if_splits)

lemma fp_clearbit_RetD: "fp_clearbit bm b = Ret bm' \<Longrightarrow> unat (b + 1) = Suc (unat b)"
  by (auto simp: fp_clearbit_def Let_def intro!: unat_Suc_word split: if_splits)

function fp_setbit_range :: "bitmap_t \<Rightarrow> u32 \<Rightarrow> u32 \<Rightarrow> bitmap_t outcome" where
  "fp_setbit_range bm b e =
     (if b \<le> e then obind (fp_setbit bm b) (\<lambda>bm'. fp_setbit_range bm' (b + 1) e) else Ret bm)"
  by pat_completeness auto
termination
  by (relation "measure (\<lambda>(bm, b, e). unat e + 1 - unat b)")
    (auto simp: fp_setbit_RetD word_le_nat_alt)

function fp_clearbit_range :: "bitmap_t \<Rightarrow> u32 \<Rightarrow> u32 \<Rightarrow> bitmap_t outcome" where
  "fp_clearbit_range bm b e =
     (if b \<le> e then obind (fp_clearbit bm b) (\<lambda>bm'. fp_clearbit_range bm' (b + 1) e) else Ret bm)"
  by pat_completeness auto
termination
  by (relation "measure (\<lambda>(bm, b, e). unat e + 1 - unat b)")
    (auto simp: fp_clearbit_RetD word_le_nat_alt)

declare fp_setbit_range.simps [simp del] fp_clearbit_range.simps [simp del]

interpretation fpr: bitmap_range NUM_FRAMES fp_setbit fp_clearbit page_busy fp_setbit_range fp_clearbit_range
  by unfold_locales (rule fp_setbit_range.simps fp_clearbit_range.simps)+

section \<open>The first free bit\<close>

text \<open>
  The inner loop of \<^verbatim>\<open>find_first_free\<close> walks the mask over one word and ends when the mask is
  shifted out; the outer loop steps the word index. \<open>None\<close> is the return value 1, no free bit.
\<close>

function ff_word :: "u32 \<Rightarrow> u32 \<Rightarrow> nat \<Rightarrow> bool \<times> nat" where
  "ff_word w msk i =
     (if msk \<noteq> 0
      then if w AND msk = 0 then (True, i) else ff_word w (push_bit 1 msk) (i + 1)
      else (False, i))"
  by pat_completeness auto
termination
  by (relation "measure (\<lambda>(w, msk, i). shifts_left msk)") (simp_all add: shifts_left_step del: push_bit_of_1)

function ff_words :: "bitmap_t \<Rightarrow> nat \<Rightarrow> u32 \<Rightarrow> nat \<Rightarrow> nat option outcome" where
  "ff_words bm index msk i =
     (if i < unat NUM_FRAMES
      then if index < UINT_CNT
           then case ff_word (bm index) msk i of
                  (found, i') \<Rightarrow> if found then Ret (Some i') else ff_words bm (index + 1) 1 i'
           else Trap
      else Ret None)"
  by pat_completeness auto
termination
  by (relation "measure (\<lambda>(bm, index, msk, i). UINT_CNT - index)") auto

declare ff_word.simps [simp del] ff_words.simps [simp del]

definition find_first_free :: "bitmap_t \<Rightarrow> u32 \<Rightarrow> u32 option outcome" where
  "find_first_free bm from_bit =
     (let index = unat from_bit div 32; offset = unat from_bit mod 32; msk = push_bit offset 1
      in obind (ff_words bm index msk (unat from_bit)) (\<lambda>r. Ret (map_option of_nat r)))"

lemma ff_word_find:
  "k \<le> 32 \<Longrightarrow> ff_word w (2 ^ k) i =
     (case find (\<lambda>n. \<not> bit w n) [k..<32] of Some n \<Rightarrow> (True, i + (n - k)) | None \<Rightarrow> (False, i + (32 - k)))"
proof (induction "32 - k" arbitrary: k i)
  case 0
  then show ?case by (auto simp: ff_word.simps [of w 4294967296])
next
  case (Suc d)
  then have k: "k < 32" and d: "d = 32 - Suc k" by auto
  have IH: "ff_word w (2 ^ Suc k) (Suc i) =
     (case find (\<lambda>n. \<not> bit w n) [Suc k..<32] of Some n \<Rightarrow> (True, Suc i + (n - Suc k)) | None \<Rightarrow> (False, Suc i + (32 - Suc k)))"
    using Suc.hyps(1) [OF d, of "Suc i"] k by (simp del: power_Suc)
  have nz: "(2::u32) ^ k \<noteq> 0" and sh: "push_bit 1 (2 ^ k :: u32) = 2 ^ Suc k"
    using k by (simp_all add: exp_eq_zero_iff push_bit_eq_mult)
  show ?case
  proof (cases "bit w k")
    case False
    with k nz show ?thesis by (simp add: ff_word.simps [of w "2 ^ k"] upt_rec [of k])
  next
    case True
    then have "ff_word w (2 ^ k) i = ff_word w (2 ^ Suc k) (i + 1)"
      using nz sh by (subst ff_word.simps) (simp add: mult.commute)
    moreover have "find (\<lambda>n. \<not> bit w n) [k..<32] = find (\<lambda>n. \<not> bit w n) [Suc k..<32]"
      using True k by (simp add: upt_rec [of k])
    moreover have "Suc k \<le> n" if "find (\<lambda>n. \<not> bit w n) [Suc k..<32] = Some n" for n
      using that by (simp add: find_upt_Some)
    ultimately show ?thesis using k by (auto simp: IH split: option.splits simp del: power_Suc)
  qed
qed

lemma ff_words_find:
  "k < 32 \<Longrightarrow> ff_words bm index (2 ^ k) (32 * index + k) =
     Ret (find (\<lambda>n. \<not> busyn bm n) [32 * index + k..<unat NUM_FRAMES])"
proof (induction "UINT_CNT - index" arbitrary: index k)
  case 0
  then show ?case by (subst ff_words.simps) (auto simp: UINT_CNT_def NUM_FRAMES_def)
next
  case (Suc d)
  let ?free = "\<lambda>n. \<not> busyn bm n"
  have j: "index < UINT_CNT" and N: "32 * index + k < unat NUM_FRAMES" and d: "d = UINT_CNT - (index + 1)"
    using Suc.hyps(2) Suc.prems by (auto simp: UINT_CNT_def NUM_FRAMES_def)
  have dm: "busyn bm (32 * index + n) = bit (bm index) n" if "n < 32" for n
    using that by (simp add: busyn_def)
  show ?case
  proof (cases "find (\<lambda>n. \<not> bit (bm index) n) [k..<32]")
    case (Some n)
    then have n: "k \<le> n" "n < 32" "\<not> bit (bm index) n" "\<forall>m. k \<le> m \<and> m < n \<longrightarrow> bit (bm index) m"
      by (auto simp: find_upt_Some)
    have "busyn bm m" if "32 * index + k \<le> m" "m < 32 * index + n" for m
    proof -
      from that have "k \<le> m - 32 * index" "m - 32 * index < n" by arith+
      with n(2,4) dm [of "m - 32 * index"] that show ?thesis by simp
    qed
    then have "find ?free [32 * index + k..<unat NUM_FRAMES] = Some (32 * index + n)"
      using n dm [of n] j by (auto simp: find_upt_Some UINT_CNT_def NUM_FRAMES_def)
    with Some j N n Suc.prems show ?thesis by (subst ff_words.simps) (simp add: ff_word_find)
  next
    case None
    then have n: "\<forall>m. k \<le> m \<and> m < 32 \<longrightarrow> bit (bm index) m" by (auto simp: find_upt_None)
    have "\<not> ?free m" if "32 * index + k \<le> m" "m < 32 * (index + 1)" for m
    proof -
      from that have "k \<le> m - 32 * index" "m - 32 * index < 32" by arith+
      with n dm [of "m - 32 * index"] that show ?thesis by simp
    qed
    then have "find ?free [32 * index + k..<unat NUM_FRAMES] = find ?free [32 * (index + 1)..<unat NUM_FRAMES]"
      using Suc.prems by (intro find_upt_skip) auto
    moreover have "ff_words bm index (2 ^ k) (32 * index + k) = ff_words bm (index + 1) (2 ^ 0) (32 * (index + 1) + 0)"
      using None j N Suc.prems by (subst ff_words.simps) (simp add: ff_word_find add.commute)
    ultimately show ?thesis using Suc.hyps(1) [OF d, of 0] by simp
  qed
qed

text \<open>The reference definition: the least free page number from \<open>from_bit\<close> on.\<close>

definition first_free :: "bitmap_t \<Rightarrow> u32 \<Rightarrow> nat option" where
  "first_free bm from_bit = find (\<lambda>n. \<not> busyn bm n) [unat from_bit..<unat NUM_FRAMES]"

lemma find_first_free_eq: "find_first_free bm from_bit = Ret (map_option of_nat (first_free bm from_bit))"
proof -
  have "unat from_bit mod 32 < 32" by simp
  then have "ff_words bm (unat from_bit div 32) (2 ^ (unat from_bit mod 32)) (unat from_bit) =
    Ret (find (\<lambda>n. \<not> busyn bm n) [unat from_bit..<unat NUM_FRAMES])"
    using ff_words_find [of "unat from_bit mod 32" bm "unat from_bit div 32"] by simp
  then show ?thesis by (simp add: find_first_free_def first_free_def)
qed

section \<open>A range of free bits\<close>

text \<open>
  The inner loop \<^verbatim>\<open>for (b = first_free_bit + 1, i = 0; i < remaining_bits; i++, b++)\<close> stops
  at the first busy bit and yields \<open>i\<close>; it reads past the array when the run reaches its end.
\<close>

function scan_run :: "bitmap_t \<Rightarrow> u32 \<Rightarrow> u32 \<Rightarrow> u32 \<Rightarrow> u32 outcome" where
  "scan_run bm remaining_bits b i =
     (if i < remaining_bits
      then obind (fp_getbit bm b) (\<lambda>busy. if busy then Ret i else scan_run bm remaining_bits (b + 1) (i + 1))
      else Ret i)"
  by pat_completeness auto
termination
  by (relation "measure (\<lambda>(bm, r, b, i). unat r - unat i)")
    (auto simp: unat_Suc_word word_less_nat_alt)

declare scan_run.simps [simp del]

text \<open>
  The search loop. The value \<open>None\<close> of the \<^theory_text>\<open>partial_function\<close> is a loop that is never
  left, and \<open>Ret None\<close> is the return value 1.
\<close>

partial_function (option) ffr_loop :: "bitmap_t \<Rightarrow> u32 \<Rightarrow> u32 \<Rightarrow> u32 option outcome option" where
  "ffr_loop bm remaining_bits l_start_bit =
     (if l_start_bit + remaining_bits \<le> LAST_BIT_NO
      then case find_first_free bm l_start_bit of
             Ret (Some first_free_bit) \<Rightarrow>
               (case scan_run bm remaining_bits (first_free_bit + 1) 0 of
                  Ret i \<Rightarrow> if i = remaining_bits then Some (Ret (Some first_free_bit))
                          else ffr_loop bm remaining_bits (first_free_bit + i)
                | Trap \<Rightarrow> Some Trap | Hang \<Rightarrow> Some Hang)
           | Ret None \<Rightarrow> Some (Ret None)
           | Trap \<Rightarrow> Some Trap | Hang \<Rightarrow> Some Hang
      else Some (Ret None))"

definition find_free_bits_range :: "bitmap_t \<Rightarrow> u32 \<Rightarrow> u32 option outcome" where
  "find_free_bits_range bm count = of_loop (ffr_loop bm (count - 1) 0)"

section \<open>The allocator's interface\<close>

definition NULL :: u32 where "NULL = 0"

definition get_free_pages :: "bitmap_t \<Rightarrow> u32 \<Rightarrow> (u32 \<times> bitmap_t) outcome" where
  "get_free_pages bm count =
     obind (find_free_bits_range bm count) (\<lambda>r. case r of
         None \<Rightarrow> Ret (NULL, bm)
       | Some start_bit \<Rightarrow>
           obind (fp_setbit_range bm start_bit (start_bit + count - 1))
             (\<lambda>bm'. Ret (PAGENO_TO_ADDR start_bit, bm')))"

definition free_page :: "bitmap_t \<Rightarrow> u32 \<Rightarrow> bitmap_t outcome" where
  "free_page bm ptr = (if ptr \<noteq> NULL then fp_clearbit bm (GET_PAGENO ptr) else Ret bm)"

definition kmalloc :: "bitmap_t \<Rightarrow> u32 \<Rightarrow> (u32 \<times> bitmap_t) outcome" where
  "kmalloc bm sz = (let page_cnt = sz div PAGE_SIZE + 1 in get_free_pages bm page_cnt)"

definition kfree :: "bitmap_t \<Rightarrow> u32 \<Rightarrow> bitmap_t" where
  "kfree bm ptr = bm"

section \<open>Initialisation\<close>

text \<open>
  \<open>kstart\<close> and \<open>kend\<close> are the linker script's \<^verbatim>\<open>__start_\<close> and \<^verbatim>\<open>__end_\<close>. The loop runs
  over the RAM map in order, and clears the bits of the pages that hold RAM.
\<close>

definition init_region :: "u32 \<Rightarrow> u32 \<Rightarrow> ram_map_t \<Rightarrow> bitmap_t \<Rightarrow> bitmap_t outcome" where
  "init_region kstart kend s bm =
     (let next_block_addr = saddr s + len s
      in if saddr s \<le> kstart \<and> kend < next_block_addr
         then obind (if saddr s \<noteq> kstart
                     then fp_clearbit_range bm (GET_PAGENO (saddr s)) (GET_PAGENO (kstart - 1))
                     else Ret bm)
                (\<lambda>bm'. if next_block_addr \<noteq> kend
                       then fp_clearbit_range bm' (GET_PAGENO (kend + PAGE_SIZE)) (GET_PAGENO (next_block_addr - 1))
                       else Ret bm')
         else fp_clearbit_range bm (GET_PAGENO (saddr s)) (GET_PAGENO (next_block_addr - 1)))"

fun init_regions :: "u32 \<Rightarrow> u32 \<Rightarrow> ram_map_t list \<Rightarrow> bitmap_t \<Rightarrow> bitmap_t outcome" where
  "init_regions kstart kend [] bm = Ret bm"
| "init_regions kstart kend (s # ss) bm = obind (init_region kstart kend s bm) (init_regions kstart kend ss)"

definition init_page_allocator :: "u32 \<Rightarrow> u32 \<Rightarrow> ram_map_t list \<Rightarrow> bitmap_t \<Rightarrow> bitmap_t outcome" where
  "init_page_allocator kstart kend nodes bm =
     init_regions kstart kend nodes (\<lambda>x. if x < UINT_CNT then NOT 0 else bm x)"

section \<open>What the search loop does\<close>

lemma NUM_FRAMES_unat [simp]: "unat NUM_FRAMES = 1048576"
  by (simp add: NUM_FRAMES_def)

lemma unat_page [simp]: "n \<le> 1048576 \<Longrightarrow> unat (of_nat n :: u32) = n"
  by (simp add: unat_of_nat)

lemma unat_page_add: "n \<le> 1048576 \<Longrightarrow> unat r \<le> 1048576 \<Longrightarrow> unat (of_nat n + r :: u32) = n + unat r"
  by (simp add: unat_word_ariths)

lemma fp_getbit_of_nat:
  "n \<le> 1048576 \<Longrightarrow> fp_getbit bm (of_nat n) = (if n < 1048576 then Ret (busyn bm n) else Trap)"
  by (simp add: fp_getbit_eq page_busy_def word_less_nat_alt)

lemma scan_run_find:
  "i \<le> unat r \<Longrightarrow> Suc f + i \<le> 1048576 \<Longrightarrow>
   scan_run bm r (of_nat (Suc f + i)) (of_nat i) =
     (case find (\<lambda>j. 1048576 \<le> Suc f + j \<or> busyn bm (Suc f + j)) [i..<unat r] of
        None \<Rightarrow> Ret r | Some j \<Rightarrow> if Suc f + j < 1048576 then Ret (of_nat j) else Trap)"
proof (induction "unat r - i" arbitrary: i)
  case 0
  then have "i = unat r" by simp
  then show ?case by (simp add: scan_run.simps)
next
  case (Suc d)
  then have i: "i < unat r" and d: "d = unat r - Suc i" by auto
  have less: "(of_nat i :: u32) < r"
    using i Suc.prems by (simp add: word_less_nat_alt)
  show ?case
  proof (cases "Suc f + i < 1048576 \<and> \<not> busyn bm (Suc f + i)")
    case True
    then have "scan_run bm r (of_nat (Suc f + i)) (of_nat i) = scan_run bm r (of_nat (Suc f + Suc i)) (of_nat (Suc i))"
      using less by (subst scan_run.simps) (simp add: fp_getbit_of_nat add.commute del: of_nat_add of_nat_Suc, simp add: ac_simps)
    then show ?thesis using Suc.hyps(1) [OF d] True i by (simp add: upt_rec [of i])
  next
    case False
    then show ?thesis using less i Suc.prems
      by (subst scan_run.simps) (simp add: fp_getbit_of_nat upt_rec [of i] del: of_nat_add of_nat_Suc)
  qed
qed

text \<open>\<open>run_len bm f\<close> is the number of free pages in a row from page \<open>f\<close> on.\<close>

definition run_len :: "bitmap_t \<Rightarrow> nat \<Rightarrow> nat" where
  "run_len bm f = (case find (busyn bm) [f..<1048576] of None \<Rightarrow> 1048576 - f | Some n \<Rightarrow> n - f)"

lemma run_len_free: "f \<le> m \<Longrightarrow> m < f + run_len bm f \<Longrightarrow> \<not> busyn bm m"
  by (auto simp: run_len_def find_upt_None find_upt_Some split: option.splits)

lemma run_len_end: "f \<le> 1048576 \<Longrightarrow> f + run_len bm f = 1048576 \<or> (f + run_len bm f < 1048576 \<and> busyn bm (f + run_len bm f))"
  by (auto simp: run_len_def find_upt_None find_upt_Some split: option.splits)

lemma run_len_pos: "f < 1048576 \<Longrightarrow> \<not> busyn bm f \<Longrightarrow> 0 < run_len bm f"
  using run_len_end [of f bm] by (cases "run_len bm f") auto

lemma first_free_Some: "first_free bm l = Some f \<longleftrightarrow>
    unat l \<le> f \<and> f < 1048576 \<and> \<not> busyn bm f \<and> (\<forall>m. unat l \<le> m \<and> m < f \<longrightarrow> busyn bm m)"
  by (auto simp: first_free_def find_upt_Some)

lemma first_free_None: "first_free bm l = None \<longleftrightarrow> (\<forall>n. unat l \<le> n \<and> n < 1048576 \<longrightarrow> busyn bm n)"
  by (simp add: first_free_def find_upt_None)

lemma scan_from_free:
  assumes "f < 1048576" and "\<not> busyn bm f"
  shows "scan_run bm r (of_nat f + 1) 0 =
    (if unat r < run_len bm f then Ret r
     else if f + run_len bm f < 1048576 then Ret (of_nat (run_len bm f - 1)) else Trap)"
proof -
  let ?n = "run_len bm f"
  have n: "0 < ?n" using assms by (rule run_len_pos)
  have e: "f + ?n = 1048576 \<or> (f + ?n < 1048576 \<and> busyn bm (f + ?n))"
    using assms(1) by (intro run_len_end) simp
  have "find (\<lambda>j. 1048576 \<le> Suc f + j \<or> busyn bm (Suc f + j)) [0..<unat r] =
      (if unat r < ?n then None else Some (?n - 1))"
    using n e run_len_free [of f _ bm] by (auto simp: find_upt_None find_upt_Some)
  then show ?thesis
    using scan_run_find [of 0 r f bm] assms(1) n by (auto simp: add.commute)
qed

text \<open>
  A run of free pages that is too short is scanned again and again: the loop restarts at its
  last page, finds that page free and its successor busy, and is back where it was.
\<close>

lemma ffr_loop_stuck:
  assumes "l + 1 < 1048576" and "\<not> busyn bm l" and "busyn bm (l + 1)"
    and "0 < r" and "of_nat l + r \<le> LAST_BIT_NO"
  shows "ffr_loop bm r (of_nat l) = None"
proof (rule ccontr)
  assume "ffr_loop bm r (of_nat l) \<noteq> None"
  then obtain y where y: "ffr_loop bm r (of_nat l) = Some y" by blast
  have run: "run_len bm l = 1"
    using run_len_free [of l "l + 1" bm] run_len_pos [of l bm] assms by (cases "1 < run_len bm l") auto
  have "first_free bm (of_nat l) = Some l" using assms by (auto simp: first_free_Some)
  then have ff: "find_first_free bm (of_nat l) = Ret (Some (of_nat l))" by (simp add: find_first_free_eq)
  have sc: "scan_run bm r (of_nat l + 1) 0 = Ret 0"
    using scan_from_free [of l bm r] assms run by (auto simp: word_less_nat_alt)
  have "bm' = bm \<longrightarrow> r' = r \<longrightarrow> l' = of_nat l \<longrightarrow> False" if "ffr_loop bm' r' l' = Some y'" for bm' r' l' y'
    using that
  proof (rule ffr_loop.raw_induct [rotated])
    fix g bm' r' l' y'
    assume IH: "\<And>bm' r' l' y'. g bm' r' l' = Some y' \<Longrightarrow> bm' = bm \<longrightarrow> r' = r \<longrightarrow> l' = of_nat l \<longrightarrow> False"
      and eq: "(if l' + r' \<le> LAST_BIT_NO
       then case find_first_free bm' l' of
              Ret None \<Rightarrow> Some (Ret None)
            | Ret (Some b) \<Rightarrow>
                (case scan_run bm' r' (b + 1) 0 of
                   Ret i \<Rightarrow> if i = r' then Some (Ret (Some b)) else g bm' r' (b + i)
                 | Trap \<Rightarrow> Some Trap | Hang \<Rightarrow> Some Hang)
            | Trap \<Rightarrow> Some Trap | Hang \<Rightarrow> Some Hang
       else Some (Ret None)) = Some y'"
    show "bm' = bm \<longrightarrow> r' = r \<longrightarrow> l' = of_nat l \<longrightarrow> False"
      using eq IH [of bm r "of_nat l" y'] ff sc assms(4,5) by (auto split: if_splits)
  qed
  then show False using y by blast
qed

lemma find_free_bits_range_total:
  "find_free_bits_range bm count =
     (if count = 0 \<or> 1048576 < unat count then Ret None
      else case first_free bm 0 of None \<Rightarrow> Ret None
      | Some f \<Rightarrow>
          if unat count \<le> run_len bm f then Ret (Some (of_nat f))
          else if f + run_len bm f = 1048576 then Trap
          else if f + run_len bm f + unat count \<le> 1048577 then Hang
          else Ret None)"
proof (cases "count = 0 \<or> 1048576 < unat count")
  case True
  then have "\<not> count - 1 \<le> LAST_BIT_NO"
    by (auto simp: LAST_BIT_NO_def NUM_FRAMES_def word_le_nat_alt unat_sub_if')
  with True show ?thesis by (simp add: find_free_bits_range_def ffr_loop.simps [of bm _ 0])
next
  case False
  then have c: "unat (count - 1) = unat count - 1" "0 < unat count" "unat count \<le> 1048576"
    by (auto simp: unat_sub_if' word_le_nat_alt Suc_le_eq unat_gt_0)
  then have le: "0 + (count - 1) \<le> LAST_BIT_NO"
    by (simp add: LAST_BIT_NO_def NUM_FRAMES_def word_le_nat_alt)
  show ?thesis
  proof (cases "first_free bm 0")
    case None
    with False le show ?thesis
      by (simp add: find_free_bits_range_def ffr_loop.simps [of bm _ 0] find_first_free_eq)
  next
    case (Some f)
    let ?n = "run_len bm f" and ?r = "count - 1"
    from Some have f: "f < 1048576" "\<not> busyn bm f" by (auto simp: first_free_Some)
    have n: "0 < ?n" using f by (rule run_len_pos)
    note unfold1 = find_free_bits_range_def ffr_loop.simps [of bm _ 0] find_first_free_eq Some scan_from_free [OF f]
    consider "unat count \<le> ?n" | "?n < unat count" "f + ?n = 1048576" | "?n < unat count" "f + ?n < 1048576" "busyn bm (f + ?n)"
      using run_len_end [of f bm] f by force
    then show ?thesis
    proof cases
      case 1
      then have "unat ?r < ?n" using c n by auto
      with 1 False le show ?thesis by (simp add: unfold1 Some)
    next
      case 2
      then have "\<not> unat ?r < ?n" using c by auto
      with 2 False le show ?thesis by (simp add: unfold1 Some)
    next
      case 3
      let ?l = "f + ?n - 1"
      have l: "?l + 1 < 1048576" "\<not> busyn bm ?l" "busyn bm (?l + 1)" "0 < ?r"
        using 3 n run_len_free [of f ?l bm] c by (auto simp: word_less_nat_alt)
      have "of_nat (?n - 1) \<noteq> ?r" and "of_nat f + of_nat (?n - 1) = (of_nat ?l :: u32)"
        using 3 c n f unat_page [of "?n - 1"] by (auto simp flip: of_nat_add simp: unat_page simp del: unat_page)
      then have step: "find_free_bits_range bm count = of_loop (ffr_loop bm ?r (of_nat ?l))"
        using le 3 c by (simp add: unfold1)
      have wrap: "of_nat ?l + ?r \<le> LAST_BIT_NO \<longleftrightarrow> f + ?n + unat count \<le> 1048577"
        using unat_page_add [of ?l ?r] l(1) c n by (auto simp: LAST_BIT_NO_def NUM_FRAMES_def word_le_nat_alt)
      show ?thesis
      proof (cases "f + ?n + unat count \<le> 1048577")
        case True
        then have "ffr_loop bm ?r (of_nat ?l) = None" using l wrap by (intro ffr_loop_stuck) auto
        with True 3 False Some step show ?thesis by simp
      next
        case False
        then have "ffr_loop bm ?r (of_nat ?l) = Some (Ret None)" using wrap by (subst ffr_loop.simps) simp
        with False 3 \<open>\<not> (count = 0 \<or> _)\<close> Some step show ?thesis by simp
      qed
    qed
  qed
qed

section \<open>Properties of the allocator\<close>

lemma setbit_range_run:
  assumes "f + unat count \<le> 1048576" and "0 < count"
  shows "\<exists>bm'. fp_setbit_range bm (of_nat f) (of_nat f + count - 1) = Ret bm' \<and>
    (\<forall>c. page_busy bm' c \<longleftrightarrow> (f \<le> unat c \<and> unat c < f + unat count) \<or> page_busy bm c)"
proof -
  have "0 < unat count" using assms(2) by (simp add: word_less_nat_alt)
  then have u: "unat (of_nat f + count - 1) = f + unat count - 1" "unat (of_nat f :: u32) = f"
    using assms unat_page_add [of f count] by (simp_all add: unat_sub_if' word_le_nat_alt)
  then have "of_nat f + count - 1 < NUM_FRAMES"
    using assms \<open>0 < unat count\<close> by (simp add: word_less_nat_alt)
  from fpr.setr_Ret [OF this, of bm "of_nat f"] show ?thesis
    using u \<open>0 < unat count\<close> by (auto simp: word_le_nat_alt)
qed

lemma get_free_pages_run:
  assumes "0 < count" and "first_free bm 0 = Some f" and "unat count \<le> run_len bm f"
  shows "\<exists>bm'. get_free_pages bm count = Ret (PAGENO_TO_ADDR (of_nat f), bm') \<and>
    (\<forall>c. page_busy bm' c \<longleftrightarrow> (f \<le> unat c \<and> unat c < f + unat count) \<or> page_busy bm c)"
proof -
  have f: "f < 1048576" using assms(2) by (simp add: first_free_Some)
  then have "f + unat count \<le> 1048576" using assms(3) run_len_end [of f bm] by auto
  moreover from this have "\<not> 1048576 < unat count" by simp
  moreover have "count \<noteq> 0" using assms(1) by auto
  ultimately show ?thesis
    using setbit_range_run [of f count bm] assms
    by (auto simp: get_free_pages_def find_free_bits_range_total)
qed

lemma get_free_pages_Ret_cases:
  assumes "get_free_pages bm count = Ret (p, bm')"
  obtains (null) "p = NULL" "bm' = bm"
  | (run) f where "0 < count" "first_free bm 0 = Some f" "unat count \<le> run_len bm f" "p = PAGENO_TO_ADDR (of_nat f)"
proof (cases "find_free_bits_range bm count")
  case (Ret r)
  show ?thesis
  proof (cases r)
    case None
    with assms Ret show ?thesis by (intro null) (simp_all add: get_free_pages_def)
  next
    case (Some b)
    then obtain f where "count \<noteq> 0" "first_free bm 0 = Some f" "unat count \<le> run_len bm f" "b = of_nat f"
      using Ret unfolding find_free_bits_range_total by (auto split: if_splits option.splits)
    moreover have "p = PAGENO_TO_ADDR b"
      using assms Ret Some by (auto simp: get_free_pages_def obind_eq_Ret)
    ultimately show ?thesis by (intro run [of f]) (auto simp: word_neq_0_conv)
  qed
qed (use assms in \<open>simp_all add: get_free_pages_def\<close>)

lemma PAGENO_roundtrip: "n < 1048576 \<Longrightarrow> GET_PAGENO (PAGENO_TO_ADDR (of_nat n)) = of_nat n"
  by (rule word_unat_eq_iff [THEN iffD2])
    (simp add: GET_PAGENO_def PAGENO_TO_ADDR_def PAGE_SIZE_def unat_div unat_word_ariths)

text \<open>find_first_free returns the least free page number not below its second argument,
  and the error value exactly when every page from there on is busy; it never reads outside the
  bitmap.\<close>

theorem find_first_free_least:
  "find_first_free bm from_bit =
     Ret (map_option of_nat (find (\<lambda>n. \<not> page_busy bm (of_nat n)) [unat from_bit..<1048576]))"
proof -
  have "find (\<lambda>n. \<not> page_busy bm (of_nat n)) [unat from_bit..<1048576] = first_free bm from_bit"
    unfolding first_free_def by (intro find_cong) (auto simp: page_busy_def)
  then show ?thesis by (simp add: find_first_free_eq)
qed

lemma get_free_pages_block:
  assumes "get_free_pages bm count = Ret (p, bm')" and "p \<noteq> NULL"
  shows "unat p mod 4096 = 0 \<and> unat p div 4096 + unat count \<le> 1048576 \<and>
    (\<forall>c. page_busy bm' c \<longleftrightarrow> (unat p div 4096 \<le> unat c \<and> unat c < unat p div 4096 + unat count) \<or> page_busy bm c) \<and>
    (\<forall>n. unat p div 4096 \<le> n \<and> n < unat p div 4096 + unat count \<longrightarrow> \<not> page_busy bm (of_nat n))"
  using assms(1)
proof (cases rule: get_free_pages_Ret_cases)
  case null
  with assms(2) show ?thesis by simp
next
  case (run f)
  have f: "f < 1048576" using run(2) by (simp add: first_free_Some)
  have p: "unat p = f * 4096" using f run(4) by (simp add: PAGENO_TO_ADDR_def PAGE_SIZE_def unat_word_ariths)
  have n: "f + unat count \<le> 1048576" using run(3) run_len_end [of f bm] f by auto
  have "\<not> busyn bm n" if "f \<le> n" "n < f + unat count" for n
    using run(3) that by (intro run_len_free [of f]) auto
  then show ?thesis
    using get_free_pages_run [OF run(1-3)] assms(1) p n by (auto simp: page_busy_def)
qed

text \<open>C1. When get_free_pages returns a non-NULL address, the address is page aligned, the count
  pages from it were all free and inside the address space, they are now busy, and no other page
  changed.\<close>

theorem get_free_pages_safe:
  assumes "get_free_pages bm count = Ret (p, bm')" and "p \<noteq> NULL"
  shows "unat p mod 4096 = 0 \<and> unat p div 4096 + unat count \<le> 1048576 \<and>
    (\<forall>c. page_busy bm' c \<longleftrightarrow> (unat p div 4096 \<le> unat c \<and> unat c < unat p div 4096 + unat count) \<or> page_busy bm c) \<and>
    (\<forall>n. unat p div 4096 \<le> n \<and> n < unat p div 4096 + unat count \<longrightarrow> \<not> page_busy bm (of_nat n))"
  using assms by (rule get_free_pages_block)

text \<open>A request that the first run of free pages can satisfy is served, with the first page
  of that run.\<close>

theorem get_free_pages_served:
  assumes "0 < count" and "first_free bm 0 = Some f" and "unat count \<le> run_len bm f"
  shows "\<exists>bm'. get_free_pages bm count = Ret (of_nat (f * 4096), bm')"
  using get_free_pages_run [OF assms] by (auto simp: PAGENO_TO_ADDR_def PAGE_SIZE_def)

text \<open>C38. A request for more pages than the first free run holds, when that run is ended by a busy
  page and the request still fits below the last page, is never answered: get_free_pages loops
  for ever, whatever free runs follow.\<close>

theorem get_free_pages_short_run_hangs:
  assumes "first_free bm 0 = Some f" and "run_len bm f < unat count"
    and "f + run_len bm f + unat count \<le> 1048577" and "f + run_len bm f \<noteq> 1048576"
  shows "get_free_pages bm count = Hang"
proof -
  have "count \<noteq> 0" and "unat count \<le> 1048576"
    using assms run_len_pos [of f bm] by (auto simp: first_free_Some)
  with assms show ?thesis by (simp add: get_free_pages_def find_free_bits_range_total)
qed

text \<open>When the first free run reaches the last page frame and is shorter than the request,
  the search reads the bitmap past its end.\<close>

theorem get_free_pages_end_of_memory_traps:
  assumes "first_free bm 0 = Some f" and "run_len bm f < unat count" and "unat count \<le> 1048576"
    and "f + run_len bm f = 1048576"
  shows "get_free_pages bm count = Trap"
proof -
  have "count \<noteq> 0" using assms(2) by auto
  with assms show ?thesis by (simp add: get_free_pages_def find_free_bits_range_total)
qed

text \<open>A request for one page always returns: the lowest free page, or NULL with the bitmap
  unchanged when no page is free.\<close>

theorem get_one_page_total:
  "case first_free bm 0 of
     None \<Rightarrow> get_free_pages bm 1 = Ret (NULL, bm)
   | Some f \<Rightarrow> \<exists>bm'. get_free_pages bm 1 = Ret (of_nat (f * 4096), bm') \<and>
       (\<forall>c. page_busy bm' c \<longleftrightarrow> c = of_nat f \<or> page_busy bm c)"
proof (cases "first_free bm 0")
  case None
  then show ?thesis by (simp add: get_free_pages_def find_free_bits_range_total)
next
  case (Some f)
  then have f: "f < 1048576" "0 < run_len bm f" by (auto simp: first_free_Some intro: run_len_pos)
  then have "(f \<le> unat c \<and> unat c < f + 1) = (c = of_nat f)" for c :: u32
    by (auto simp: word_unat_eq_iff)
  with Some f show ?thesis
    using get_free_pages_run [of 1 bm f] by (auto simp: PAGENO_TO_ADDR_def PAGE_SIZE_def)
qed

text \<open>When page frame 0 is free, a request that fits the run at page 0 returns the NULL pointer,
  which callers take for failure, and yet marks its pages busy.\<close>

theorem get_free_pages_page_zero_is_NULL:
  assumes "\<not> page_busy bm 0" and "0 < count" and "unat count \<le> run_len bm 0"
  shows "\<exists>bm'. get_free_pages bm count = Ret (NULL, bm') \<and> page_busy bm' 0"
proof -
  have "first_free bm 0 = Some 0" using assms(1) by (simp add: first_free_Some page_busy_def)
  then show ?thesis
    using get_free_pages_run [of count bm 0] assms(2,3)
    by (auto simp: PAGENO_TO_ADDR_def NULL_def word_less_nat_alt)
qed

text \<open>C39. Freeing the page that a one-page request returned gives back the bitmap from before the
  request, and freeing NULL changes nothing.\<close>

theorem free_page_undoes_get:
  assumes "get_free_pages bm 1 = Ret (p, bm')"
  shows "free_page bm NULL = Ret bm \<and>
    (p \<noteq> NULL \<longrightarrow> (\<exists>bm''. free_page bm' p = Ret bm'' \<and> page_busy bm'' = page_busy bm))"
  using assms
proof (cases rule: get_free_pages_Ret_cases)
  case null
  then show ?thesis by (simp add: free_page_def)
next
  case (run f)
  then have f: "f < 1048576" "\<not> busyn bm f" by (auto simp: first_free_Some)
  have pg: "GET_PAGENO p = of_nat f" using run(4) f(1) by (simp add: PAGENO_roundtrip)
  have bm': "page_busy bm' c \<longleftrightarrow> (f \<le> unat c \<and> unat c < f + 1) \<or> page_busy bm c" for c
    using get_free_pages_run [OF run(1-3)] assms by auto
  have "of_nat f < NUM_FRAMES" using f(1) by (simp add: word_less_nat_alt)
  from fp.clrb_Ret [OF this, of bm'] obtain bm'' where
    bm'': "fp_clearbit bm' (of_nat f) = Ret bm''" "\<forall>c. page_busy bm'' c \<longleftrightarrow> c \<noteq> of_nat f \<and> page_busy bm' c"
    by blast
  have "page_busy bm'' c = page_busy bm c" for c
    using bm''(2) bm' [of c] f by (auto simp: page_busy_def word_unat_eq_iff)
  then show ?thesis using bm''(1) pg by (auto simp: free_page_def)
qed

section \<open>Initialisation\<close>

lemma GET_PAGENO_less [simp]: "GET_PAGENO a < NUM_FRAMES"
proof -
  have "unat a < 4294967296" using unsigned_less [of a] by simp
  then show ?thesis
    by (simp add: GET_PAGENO_def PAGE_SIZE_def word_less_nat_alt unat_div div_less_iff_less_mult)
qed

text \<open>The pages that the initialisation frees for one entry of the RAM map.\<close>

definition region_pages :: "u32 \<Rightarrow> u32 \<Rightarrow> ram_map_t \<Rightarrow> u32 \<Rightarrow> bool" where
  "region_pages kstart kend s c =
     (if saddr s \<le> kstart \<and> kend < saddr s + len s
      then (saddr s \<noteq> kstart \<and> GET_PAGENO (saddr s) \<le> c \<and> c \<le> GET_PAGENO (kstart - 1)) \<or>
           (GET_PAGENO (kend + PAGE_SIZE) \<le> c \<and> c \<le> GET_PAGENO (saddr s + len s - 1))
      else GET_PAGENO (saddr s) \<le> c \<and> c \<le> GET_PAGENO (saddr s + len s - 1))"

lemma init_region_Ret:
  "\<exists>bm'. init_region kstart kend s bm = Ret bm' \<and>
     (\<forall>c. page_busy bm' c \<longleftrightarrow> \<not> region_pages kstart kend s c \<and> page_busy bm c)"
proof -
  have clr: "\<exists>bm'. fp_clearbit_range bm b (GET_PAGENO e) = Ret bm' \<and>
      (\<forall>c. page_busy bm' c \<longleftrightarrow> \<not> (b \<le> c \<and> c \<le> GET_PAGENO e) \<and> page_busy bm c)" for bm b e
    by (rule fpr.clrr_Ret) simp
  let ?n = "saddr s + len s"
  show ?thesis
  proof (cases "saddr s \<le> kstart \<and> kend < ?n")
    case True
    obtain bm1 where "(if saddr s \<noteq> kstart then fp_clearbit_range bm (GET_PAGENO (saddr s)) (GET_PAGENO (kstart - 1)) else Ret bm) = Ret bm1"
      and "\<forall>c. page_busy bm1 c \<longleftrightarrow> \<not> (saddr s \<noteq> kstart \<and> GET_PAGENO (saddr s) \<le> c \<and> c \<le> GET_PAGENO (kstart - 1)) \<and> page_busy bm c"
      using clr [of bm "GET_PAGENO (saddr s)" "kstart - 1"] by (cases "saddr s = kstart") auto
    moreover obtain bm2 where "fp_clearbit_range bm1 (GET_PAGENO (kend + PAGE_SIZE)) (GET_PAGENO (?n - 1)) = Ret bm2"
      and "\<forall>c. page_busy bm2 c \<longleftrightarrow> \<not> (GET_PAGENO (kend + PAGE_SIZE) \<le> c \<and> c \<le> GET_PAGENO (?n - 1)) \<and> page_busy bm1 c"
      using clr [of bm1 "GET_PAGENO (kend + PAGE_SIZE)" "?n - 1"] by blast
    moreover have "?n \<noteq> kend" using True by auto
    ultimately show ?thesis
      unfolding init_region_def region_pages_def Let_def if_P [OF True] by auto
  next
    case False
    show ?thesis
      using clr [of bm "GET_PAGENO (saddr s)" "?n - 1"]
      unfolding init_region_def region_pages_def Let_def if_not_P [OF False] by blast
  qed
qed

lemma init_regions_Ret:
  "\<exists>bm'. init_regions kstart kend nodes bm = Ret bm' \<and>
     (\<forall>c. page_busy bm' c \<longleftrightarrow> (\<forall>s\<in>set nodes. \<not> region_pages kstart kend s c) \<and> page_busy bm c)"
proof (induction nodes arbitrary: bm)
  case (Cons s nodes)
  obtain bm1 where 1: "init_region kstart kend s bm = Ret bm1"
    "\<forall>c. page_busy bm1 c \<longleftrightarrow> \<not> region_pages kstart kend s c \<and> page_busy bm c"
    using init_region_Ret by blast
  show ?case using Cons.IH [of bm1] 1 by auto
qed simp

text \<open>C10. init_page_allocator returns for every RAM map, and afterwards a page frame is free
  exactly when some entry of the map frees it: whatever the bitmap held before is forgotten.\<close>

theorem init_page_allocator_total:
  "\<exists>bm'. init_page_allocator kstart kend nodes bm = Ret bm' \<and>
     (\<forall>c. c < NUM_FRAMES \<and> \<not> page_busy bm' c \<longleftrightarrow>
          c < NUM_FRAMES \<and> list_ex (\<lambda>s. region_pages kstart kend s c) nodes)"
proof -
  have "page_busy (\<lambda>x. if x < UINT_CNT then NOT 0 else bm x) c" if "c < NUM_FRAMES" for c
    using that index_in_range [of c] by (simp add: page_busy_def busyn_def bit_simps)
  then show ?thesis
    using init_regions_Ret [of kstart kend nodes "\<lambda>x. if x < UINT_CNT then NOT 0 else bm x"]
    by (auto simp: init_page_allocator_def list_ex_iff)
qed

lemma pageno_mono: "a \<le> b \<Longrightarrow> GET_PAGENO a \<le> GET_PAGENO b"
  by (simp add: GET_PAGENO_def PAGE_SIZE_def word_le_nat_alt unat_div div_le_mono)

lemma pageno_before_aligned:
  assumes "unat a mod 4096 = 0" and "0 < a"
  shows "GET_PAGENO (a - 1) < GET_PAGENO a"
proof -
  have a: "0 < unat a" using assms(2) by (simp add: word_less_nat_alt)
  then obtain k where k: "unat a = 4096 * Suc k"
    using assms(1) by (cases "unat a div 4096") (auto simp: mod_eq_0_iff_dvd elim!: dvdE)
  have "unat (a - 1) = unat a - 1" using a by (simp add: unat_sub_if' word_le_nat_alt Suc_le_eq)
  also have "\<dots> = 4096 * k + 4095" using k by simp
  finally show ?thesis
    using k by (simp add: GET_PAGENO_def PAGE_SIZE_def word_less_nat_alt unat_div)
qed

lemma pageno_next: "unat a + 4096 < 4294967296 \<Longrightarrow> GET_PAGENO a < GET_PAGENO (a + PAGE_SIZE)"
  by (simp add: GET_PAGENO_def PAGE_SIZE_def word_less_nat_alt unat_div unat_word_ariths)

definition image_apart :: "u32 \<Rightarrow> u32 \<Rightarrow> ram_map_t list \<Rightarrow> bool" where
  "image_apart kstart kend nodes \<longleftrightarrow>
     unat kstart mod 4096 = 0 \<and> 0 < kstart \<and> kstart \<le> kend \<and> unat kend + 4096 < 4294967296 \<and>
     (\<forall>s \<in> set nodes. (saddr s \<le> kstart \<and> kend < saddr s + len s) \<or>
        GET_PAGENO kend < GET_PAGENO (saddr s) \<or> GET_PAGENO (saddr s + len s - 1) < GET_PAGENO kstart)"

lemma image_not_region:
  assumes "image_apart kstart kend nodes" and "GET_PAGENO kstart \<le> c" and "c \<le> GET_PAGENO kend" and "s \<in> set nodes"
  shows "\<not> region_pages kstart kend s c"
proof -
  have a: "unat kstart mod 4096 = 0" "0 < kstart" "unat kend + 4096 < 4294967296"
    "(saddr s \<le> kstart \<and> kend < saddr s + len s) \<or> GET_PAGENO kend < GET_PAGENO (saddr s) \<or> GET_PAGENO (saddr s + len s - 1) < GET_PAGENO kstart"
    using assms(1,4) by (simp_all add: image_apart_def)
  have below: "GET_PAGENO (kstart - 1) < GET_PAGENO kstart" using a(1,2) by (rule pageno_before_aligned)
  have above: "GET_PAGENO kend < GET_PAGENO (kend + PAGE_SIZE)" using a(3) by (rule pageno_next)
  show ?thesis
    using a(4) assms(2,3) below above unfolding region_pages_def
    by (auto dest: order_trans order_le_less_trans)
qed

text \<open>After initialisation no page of the kernel image is free, when the image starts on a page
  boundary and every entry of the RAM map either holds the whole image or touches none of its
  pages.\<close>

theorem kernel_pages_stay_busy:
  assumes "init_page_allocator kstart kend nodes bm = Ret bm'" and "image_apart kstart kend nodes"
    and "GET_PAGENO kstart \<le> c" and "c \<le> GET_PAGENO kend"
  shows "page_busy bm' c"
proof -
  have "\<not> region_pages kstart kend s c" if "s \<in> set nodes" for s
    using image_not_region [OF assms(2-4) that] .
  moreover have "c < NUM_FRAMES" using assms(4) GET_PAGENO_less [of kend] by (rule order_le_less_trans)
  moreover obtain bm1 where "init_page_allocator kstart kend nodes bm = Ret bm1"
    "\<forall>c. page_busy bm1 c \<longleftrightarrow> (\<forall>s\<in>set nodes. \<not> region_pages kstart kend s c) \<and> page_busy (\<lambda>x. if x < UINT_CNT then NOT 0 else bm x) c"
    unfolding init_page_allocator_def using init_regions_Ret by blast
  ultimately show ?thesis
    using assms(1) index_in_range [of c] by (auto simp: page_busy_def busyn_def bit_simps)
qed

text \<open>An entry of the RAM map that ends inside a page has that whole page freed: with the usual
  entry of a PC, 0 to 0x9FBFF, the frame 0x9F becomes free although its last quarter is not RAM.\<close>

theorem init_frees_partial_page:
  "\<exists>bm'. init_page_allocator 0x100000 0x10FFFF [\<lparr>saddr = 0, len = 0x9FC00\<rparr>] bm = Ret bm' \<and>
     \<not> page_busy bm' 0x9F \<and> GET_PAGENO 0x9FC00 = 0x9F"
proof -
  have "region_pages 0x100000 0x10FFFF \<lparr>saddr = 0, len = 0x9FC00\<rparr> 0x9F"
    by (simp add: region_pages_def GET_PAGENO_def PAGE_SIZE_def)
  moreover have "(0x9F :: u32) < NUM_FRAMES" and "GET_PAGENO 0x9FC00 = 0x9F"
    by (simp_all add: NUM_FRAMES_def GET_PAGENO_def PAGE_SIZE_def)
  ultimately show ?thesis
    using init_regions_Ret [of "0x100000" "0x10FFFF" "[\<lparr>saddr = 0, len = 0x9FC00\<rparr>]" "\<lambda>x. if x < UINT_CNT then NOT 0 else bm x"]
    by (auto simp: init_page_allocator_def)
qed

section \<open>kmalloc\<close>

lemma kmalloc_page_cnt:
  "unat (sz div PAGE_SIZE + 1) = unat sz div 4096 + 1"
proof -
  have "unat sz < 4294967296" using unsigned_less [of sz] by simp
  then have "unat sz div 4096 < 1048576" by (simp add: div_less_iff_less_mult)
  moreover have "unat (sz div PAGE_SIZE) = unat sz div 4096" by (simp add: PAGE_SIZE_def unat_div)
  ultimately show ?thesis by (simp add: unat_word_ariths)
qed

text \<open>The block that kmalloc returns is larger than the size asked for, is made of pages that
  were free, and lies inside the address space; kfree gives nothing back.\<close>

theorem kmalloc_safe:
  assumes "kmalloc bm sz = Ret (p, bm')" and "p \<noteq> NULL"
  shows "\<exists>n. unat sz < n * 4096 \<and> unat p div 4096 + n \<le> 1048576 \<and> kfree bm' p = bm' \<and>
    (\<forall>m. unat p div 4096 \<le> m \<and> m < unat p div 4096 + n \<longrightarrow> \<not> page_busy bm (of_nat m) \<and> page_busy bm' (of_nat m))"
proof -
  let ?c = "sz div PAGE_SIZE + 1"
  have "get_free_pages bm ?c = Ret (p, bm')" using assms(1) by (simp add: kmalloc_def)
  then show ?thesis
  proof (cases rule: get_free_pages_Ret_cases)
    case null
    with assms(2) show ?thesis by simp
  next
    case (run f)
    have f: "f < 1048576" using run(2) by (simp add: first_free_Some)
    have p: "unat p div 4096 = f" using f run(4) by (simp add: PAGENO_TO_ADDR_def PAGE_SIZE_def unat_word_ariths)
    have n: "f + unat ?c \<le> 1048576" using run(3) run_len_end [of f bm] f by auto
    have free: "\<not> page_busy bm (of_nat m)" if "f \<le> m" "m < f + unat ?c" for m
      using run(3) that n run_len_free [of f m bm] by (simp add: page_busy_def)
    have "page_busy bm' (of_nat m)" if "f \<le> m" "m < f + unat ?c" for m
      using get_free_pages_run [OF run(1-3)] assms(1) that n by (auto simp: kmalloc_def)
    moreover have "unat sz < unat ?c * 4096" unfolding kmalloc_page_cnt by simp
    ultimately show ?thesis
      using p n free by (intro exI [of _ "unat ?c"]) (simp add: kfree_def)
  qed
qed

section \<open>Witnesses\<close>

text \<open>The bitmap in which only page \<open>n\<close> is free.\<close>

definition one_free :: "nat \<Rightarrow> bitmap_t" where
  "one_free n = (\<lambda>i. if i = n div 32 then NOT (2 ^ (n mod 32)) else NOT 0)"

lemma busyn_one_free [simp]: "busyn (one_free n) m \<longleftrightarrow> m \<noteq> n"
proof -
  have "m div 32 = n div 32 \<and> m mod 32 = n mod 32 \<longleftrightarrow> m = n" by (metis div_mult_mod_eq)
  then show ?thesis by (auto simp: busyn_def one_free_def bit_simps)
qed

lemma page_busy_one_free [simp]: "page_busy (one_free n) c \<longleftrightarrow> unat c \<noteq> n"
  by (simp add: page_busy_def)

lemma one_free_first [simp]: "n < 1048576 \<Longrightarrow> first_free (one_free n) 0 = Some n"
  by (simp add: first_free_Some)

lemma one_free_run [simp]: "n < 1048576 \<Longrightarrow> run_len (one_free n) n = 1"
  using run_len_free [of n "n + 1" "one_free n"] run_len_pos [of n "one_free n"]
  by (cases "1 < run_len (one_free n) n") auto

lemma one_free_get: "0 < n \<Longrightarrow> n < 1048576 \<Longrightarrow> \<exists>bm'. get_free_pages (one_free n) 1 = Ret (of_nat (n * 4096), bm')"
  using get_free_pages_run [of 1 "one_free n" n] by (auto simp: PAGENO_TO_ADDR_def PAGE_SIZE_def)

theorem get_free_pages_safe_witness:
  "\<exists>bm'. get_free_pages (one_free 5) 1 = Ret (20480, bm') \<and> page_busy bm' 5 \<and> \<not> page_busy (one_free 5) 5"
proof -
  obtain bm' where g: "get_free_pages (one_free 5) 1 = Ret (20480, bm')" using one_free_get [of 5] by auto
  have "(20480 :: u32) \<noteq> NULL" by (simp add: NULL_def)
  from get_free_pages_safe [OF g this] g show ?thesis by auto
qed

theorem get_free_pages_served_witness: "\<exists>bm'. get_free_pages (one_free 7) 1 = Ret (28672, bm')"
  using get_free_pages_served [of 1 "one_free 7" 7] by simp

theorem get_free_pages_short_run_hangs_witness: "get_free_pages (one_free 5) 2 = Hang"
  using get_free_pages_short_run_hangs [of "one_free 5" 5 2] by simp

theorem get_free_pages_end_of_memory_traps_witness: "get_free_pages (one_free 1048575) 2 = Trap"
  using get_free_pages_end_of_memory_traps [of "one_free 1048575" 1048575 2] by simp

theorem get_free_pages_page_zero_is_NULL_witness: "\<exists>bm'. get_free_pages (one_free 0) 1 = Ret (NULL, bm') \<and> page_busy bm' 0"
  using get_free_pages_page_zero_is_NULL [of "one_free 0" 1] by (simp add: page_busy_def)

theorem free_page_undoes_get_witness:
  "\<exists>bm' bm''. get_free_pages (one_free 5) 1 = Ret (20480, bm') \<and> free_page bm' 20480 = Ret bm'' \<and> \<not> page_busy bm'' 5"
proof -
  obtain bm' where g: "get_free_pages (one_free 5) 1 = Ret (20480, bm')" using one_free_get [of 5] by auto
  from free_page_undoes_get [OF g] obtain bm'' where "free_page bm' 20480 = Ret bm''" "page_busy bm'' = page_busy (one_free 5)"
    by (auto simp: NULL_def)
  with g show ?thesis by auto
qed

theorem kernel_pages_stay_busy_witness:
  "\<exists>bm'. init_page_allocator 0x100000 0x10FFFF [\<lparr>saddr = 0x100000, len = 0x700000\<rparr>] (\<lambda>_. 0) = Ret bm' \<and> page_busy bm' 0x10F"
proof -
  let ?s = "\<lparr>saddr = 0x100000, len = 0x700000\<rparr>"
  obtain bm' where i: "init_page_allocator 0x100000 0x10FFFF [?s] (\<lambda>_. 0) = Ret bm'"
    unfolding init_page_allocator_def using init_regions_Ret by blast
  have "page_busy bm' 0x10F"
    by (rule kernel_pages_stay_busy [OF i]) (simp_all add: image_apart_def GET_PAGENO_def PAGE_SIZE_def)
  with i show ?thesis by blast
qed

theorem kmalloc_safe_witness:
  "\<exists>bm'. kmalloc (one_free 5) 100 = Ret (20480, bm') \<and>
    (\<exists>n::nat. 100 < n * 4096 \<and> 20480 div 4096 + n \<le> 1048576)"
proof -
  obtain bm' where g: "kmalloc (one_free 5) 100 = Ret (20480, bm')"
    using one_free_get [of 5] by (auto simp: kmalloc_def PAGE_SIZE_def)
  have "(20480 :: u32) \<noteq> NULL" by (simp add: NULL_def)
  from kmalloc_safe [OF g this] g show ?thesis by auto
qed

end
