(* ===== verification/CString.thy ===== *)
theory CString
  imports Prelude
begin

text \<open>
  The memory and string routines of lib/libc/string.c, over a flat memory of 2^32 bytes with
  pointers that wrap, as the kernel has it without paging. \<^verbatim>\<open>char\<close> is signed on i386. A loop
  with a \<^verbatim>\<open>size_t\<close> bound is a recursion on the iterations that are left; a loop that ends only
  at a NUL byte is a \<^theory_text>\<open>partial_function (option)\<close>, \<open>None\<close> when no NUL is ever met.
\<close>

type_synonym mem = "u32 \<Rightarrow> u8"

section \<open>The routines\<close>

fun memcmp_loop :: "mem \<Rightarrow> u32 \<Rightarrow> u32 \<Rightarrow> nat \<Rightarrow> int" where
  "memcmp_loop m a1 a2 0 = 0"
| "memcmp_loop m a1 a2 (Suc k) =
     (let diff = sint (m a1) - sint (m a2)
      in if diff \<noteq> 0 then diff else memcmp_loop m (a1 + 1) (a2 + 1) k)"

definition memcmp :: "mem \<Rightarrow> u32 \<Rightarrow> u32 \<Rightarrow> u32 \<Rightarrow> int" where
  "memcmp m s1 s2 n = memcmp_loop m s1 s2 (unat n)"

fun memset_loop :: "mem \<Rightarrow> u32 \<Rightarrow> u8 \<Rightarrow> nat \<Rightarrow> mem" where
  "memset_loop m p c 0 = m"
| "memset_loop m p c (Suc k) = memset_loop (m(p := c)) (p + 1) c k"

definition memset :: "mem \<Rightarrow> u32 \<Rightarrow> u32 \<Rightarrow> u32 \<Rightarrow> mem" where
  "memset m s c n = memset_loop m s (ucast c) (unat n)"

fun memcpy_loop :: "mem \<Rightarrow> u32 \<Rightarrow> u32 \<Rightarrow> nat \<Rightarrow> mem" where
  "memcpy_loop m d s 0 = m"
| "memcpy_loop m d s (Suc k) = memcpy_loop (m(d := m s)) (d + 1) (s + 1) k"

definition memcpy :: "mem \<Rightarrow> u32 \<Rightarrow> u32 \<Rightarrow> u32 \<Rightarrow> mem" where
  "memcpy m dest src n = memcpy_loop m dest src (unat n)"

text \<open>The loop of \<^verbatim>\<open>memmove\<close> runs down to \<open>src\<close> and is left after the copy of its byte.\<close>

function memmove_loop :: "mem \<Rightarrow> u32 \<Rightarrow> u32 \<Rightarrow> u32 \<Rightarrow> mem" where
  "memmove_loop m src d s =
     (let m' = m(d := m s) in if s = src then m' else memmove_loop m' src (d - 1) (s - 1))"
  by pat_completeness auto
termination
proof (relation "measure (\<lambda>(m, src, d, s). unat (s - src))", goal_cases)
  case (2 m src d s x)
  then have "s - src \<noteq> 0" by simp
  then have "unat (s - src - 1) < unat (s - src)" by unat_arith
  then show ?case by (simp add: algebra_simps)
qed simp

declare memmove_loop.simps [simp del]

definition memmove :: "mem \<Rightarrow> u32 \<Rightarrow> u32 \<Rightarrow> u32 \<Rightarrow> mem" where
  "memmove m dest src n =
     (if src < dest \<and> dest < src + n then memmove_loop m src (dest + n - 1) (src + n - 1) else m)"

partial_function (option) strcmp :: "mem \<Rightarrow> u32 \<Rightarrow> u32 \<Rightarrow> int option" where
  "strcmp m s1 s2 =
     (if m s1 = 0 then Some 0
      else if sint (m s1) - sint (m s2) \<noteq> 0 then Some (sint (m s1) - sint (m s2))
      else strcmp m (s1 + 1) (s2 + 1))"

fun strncmp_loop :: "mem \<Rightarrow> u32 \<Rightarrow> u32 \<Rightarrow> nat \<Rightarrow> int" where
  "strncmp_loop m s1 s2 0 = 0"
| "strncmp_loop m s1 s2 (Suc k) =
     (let diff = sint (m s1) - sint (m s2)
      in if diff \<noteq> 0 then diff
         else if m s1 = 0 then 0
         else strncmp_loop m (s1 + 1) (s2 + 1) k)"

definition strncmp :: "mem \<Rightarrow> u32 \<Rightarrow> u32 \<Rightarrow> u32 \<Rightarrow> int" where
  "strncmp m s1 s2 n = strncmp_loop m s1 s2 (unat n)"

partial_function (option) strcpy :: "mem \<Rightarrow> u32 \<Rightarrow> u32 \<Rightarrow> mem option" where
  "strcpy m dest src =
     (if (m(dest := m src)) src = 0 then Some (m(dest := m src))
      else strcpy (m(dest := m src)) (dest + 1) (src + 1))"

text \<open>
  \<^verbatim>\<open>while (n--)\<close> leaves \<open>n\<close> at the largest \<^verbatim>\<open>size_t\<close> when it ends because \<open>n\<close> was 0. The
  first loop returns the memory, the destination pointer and the value left in \<open>n\<close>.
\<close>

fun strncpy_loop :: "mem \<Rightarrow> u32 \<Rightarrow> u32 \<Rightarrow> nat \<Rightarrow> mem \<times> u32 \<times> u32" where
  "strncpy_loop m dest src 0 = (m, dest, 0 - 1)"
| "strncpy_loop m dest src (Suc k) =
     (let m' = m(dest := m src)
      in if m' src = 0 then (m', dest, of_nat k) else strncpy_loop m' (dest + 1) (src + 1) k)"

definition strncpy :: "mem \<Rightarrow> u32 \<Rightarrow> u32 \<Rightarrow> u32 \<Rightarrow> mem" where
  "strncpy m dest src n =
     (case strncpy_loop m dest src (unat n) of (m', dest', n') \<Rightarrow> memset_loop m' dest' 0 (unat n'))"

partial_function (option) str_end :: "mem \<Rightarrow> u32 \<Rightarrow> u32 option" where
  "str_end m d = (if m d = 0 then Some d else str_end m (d + 1))"

definition strcat :: "mem \<Rightarrow> u32 \<Rightarrow> u32 \<Rightarrow> mem option" where
  "strcat m dest src = Option.bind (str_end m dest) (\<lambda>d. strcpy m d src)"

fun strncat_loop :: "mem \<Rightarrow> u32 \<Rightarrow> u32 \<Rightarrow> nat \<Rightarrow> mem \<times> u32 \<times> u32" where
  "strncat_loop m dest src 0 = (m, dest, src)"
| "strncat_loop m dest src (Suc k) =
     (let m' = m(dest := m src)
      in if m' src = 0 then (m', dest, src) else strncat_loop m' (dest + 1) (src + 1) k)"

definition strncat :: "mem \<Rightarrow> u32 \<Rightarrow> u32 \<Rightarrow> u32 \<Rightarrow> mem option" where
  "strncat m dest src n = Option.bind (str_end m dest) (\<lambda>d.
     case strncat_loop m d src (unat n) of (m', dest', src') \<Rightarrow>
       Some (if m' src' = 0 then m'(dest' := 0) else m'))"

partial_function (option) strlen_loop :: "mem \<Rightarrow> u32 \<Rightarrow> u32 \<Rightarrow> u32 option" where
  "strlen_loop m s i = (if m s = 0 then Some i else strlen_loop m (s + 1) (i + 1))"

definition strlen :: "mem \<Rightarrow> u32 \<Rightarrow> u32 option" where
  "strlen m s = strlen_loop m s 0"

section \<open>Regions and strings in memory\<close>

definition in_reg :: "u32 \<Rightarrow> nat \<Rightarrow> u32 \<Rightarrow> bool" where
  "in_reg p k a \<longleftrightarrow> unat (a - p) < k"

lemma in_reg_0 [simp]: "\<not> in_reg p 0 a"
  by (simp add: in_reg_def)

lemma in_reg_Suc: "in_reg p (Suc k) a \<longleftrightarrow> a = p \<or> in_reg (p + 1) k a"
proof (cases "a = p")
  case False
  then have "a - p \<noteq> 0" by simp
  then have "unat (a - p) = Suc (unat (a - p - 1))" by unat_arith
  then show ?thesis using False by (simp add: in_reg_def algebra_simps)
qed (simp add: in_reg_def)

lemma in_reg_before: "k < 4294967296 \<Longrightarrow> \<not> in_reg (p + 1) k p"
  by (simp add: in_reg_def unsigned_minus_1_eq_mask mask_eq_exp_minus_1)

lemma in_reg_start [simp]: "0 < k \<Longrightarrow> in_reg p k p"
  by (simp add: in_reg_def)

lemma in_reg_offset: "i < k \<Longrightarrow> k \<le> 4294967296 \<Longrightarrow> in_reg p k (p + of_nat i)"
  by (simp add: in_reg_def unat_of_nat)

lemma memset_loop_eq: "memset_loop m p c k = (\<lambda>a. if in_reg p k a then c else m a)"
  by (induction k arbitrary: m p) (auto simp: in_reg_Suc)

lemma memcpy_loop_eq:
  "k \<le> 4294967296 \<Longrightarrow> (\<And>a. \<not> (in_reg d k a \<and> in_reg s k a)) \<Longrightarrow>
   memcpy_loop m d s k = (\<lambda>a. if in_reg d k a then m (s + (a - d)) else m a)"
proof (induction k arbitrary: m d s)
  case (Suc k)
  have dis: "\<not> (in_reg (d + 1) k a \<and> in_reg (s + 1) k a)" for a
    using Suc.prems(2) [of a] by (auto simp: in_reg_Suc)
  have s: "\<not> in_reg (s + 1) k d" using Suc.prems(2) [of d] by (simp add: in_reg_Suc)
  have off: "in_reg (d + 1) k a \<Longrightarrow> s + (a - d) \<noteq> d" for a
  proof
    assume a: "in_reg (d + 1) k a" and e: "s + (a - d) = d"
    from e have "d - s = a - d" by (metis add_diff_cancel_left')
    then have "d - (s + 1) = a - (d + 1)" by (simp flip: diff_diff_eq)
    with a s show False by (simp add: in_reg_def)
  qed
  have IH: "memcpy_loop (m(d := m s)) (d + 1) (s + 1) k =
      (\<lambda>a. if in_reg (d + 1) k a then (m(d := m s)) (s + 1 + (a - (d + 1))) else (m(d := m s)) a)"
    using Suc.prems(1) by (intro Suc.IH dis) simp
  have "s + 1 + (a - (d + 1)) = s + (a - d)" for a by simp
  then show ?case
    unfolding memcpy_loop.simps IH using Suc.prems(1) off by (auto simp: in_reg_Suc in_reg_before)
qed simp

fun cstr :: "mem \<Rightarrow> u32 \<Rightarrow> u8 list \<Rightarrow> bool" where
  "cstr m p [] \<longleftrightarrow> m p = 0"
| "cstr m p (c # cs) \<longleftrightarrow> m p = c \<and> c \<noteq> 0 \<and> cstr m (p + 1) cs"

fun store :: "mem \<Rightarrow> u32 \<Rightarrow> u8 list \<Rightarrow> mem" where
  "store m p [] = m"
| "store m p (b # bs) = store (m(p := b)) (p + 1) bs"

lemma cstr_upd: "\<not> in_reg p (Suc (length cs)) a \<Longrightarrow> cstr (m(a := b)) p cs \<longleftrightarrow> cstr m p cs"
  by (induction cs arbitrary: p) (auto simp: in_reg_Suc)

lemma store_outside: "\<not> in_reg p (length bs) a \<Longrightarrow> store m p bs a = m a"
  by (induction bs arbitrary: m p) (auto simp: in_reg_Suc)

lemma cstr_store:
  "length cs < 4294967296 \<Longrightarrow> 0 \<notin> set cs \<Longrightarrow> cstr (store m p (cs @ [0])) p cs"
proof (induction cs arbitrary: m p)
  case (Cons c cs)
  then have "store (m(p := c)) (p + 1) (cs @ [0]) p = c"
    by (subst store_outside) (simp_all add: in_reg_before)
  with Cons show ?case by auto
qed simp

lemma strlen_loop_cstr: "cstr m p cs \<Longrightarrow> strlen_loop m p i = Some (i + of_nat (length cs))"
  by (induction cs arbitrary: p i) (auto simp: strlen_loop.simps [of m p for p] algebra_simps)

lemma str_end_cstr: "cstr m p cs \<Longrightarrow> str_end m p = Some (p + of_nat (length cs))"
  by (induction cs arbitrary: p) (auto simp: str_end.simps [of m p for p] algebra_simps)

lemma strcpy_cstr:
  "cstr m src cs \<Longrightarrow> (\<And>a. \<not> (in_reg dest (Suc (length cs)) a \<and> in_reg src (Suc (length cs)) a)) \<Longrightarrow>
   strcpy m dest src = Some (store m dest (cs @ [0]))"
proof (induction cs arbitrary: m dest src)
  case Nil
  then show ?case by (subst strcpy.simps) auto
next
  case (Cons c cs)
  have ne: "src \<noteq> dest" using Cons.prems(2) [of dest] by (auto simp: in_reg_def)
  have dis: "\<not> (in_reg (dest + 1) (Suc (length cs)) a \<and> in_reg (src + 1) (Suc (length cs)) a)" for a
    using Cons.prems(2) [of a] by (auto simp: in_reg_Suc)
  have "\<not> in_reg (src + 1) (Suc (length cs)) dest"
    using Cons.prems(2) [of dest] by (auto simp: in_reg_Suc)
  then have "cstr (m(dest := c)) (src + 1) cs" using Cons.prems(1) by (simp add: cstr_upd)
  from Cons.IH [OF this dis] show ?case using ne Cons.prems(1) by (subst strcpy.simps) (auto simp: fun_upd_def)
qed

lemma sint_eq [simp]: "sint (a :: u8) = sint b \<longleftrightarrow> a = b"
  by (rule word_eq_iff_signed [symmetric])

lemma sint_eq_0 [simp]: "sint (a :: u8) = 0 \<longleftrightarrow> a = 0"
  using sint_eq [of a 0] by simp

lemma sint_diff_zero [simp]: "sint (a :: u8) - sint b = 0 \<longleftrightarrow> a = b"
  by (metis right_minus_eq sint_eq)

text \<open>\<open>starts_with a b\<close>: the string \<open>a\<close> is a prefix of \<open>b\<close>.\<close>

fun starts_with :: "u8 list \<Rightarrow> u8 list \<Rightarrow> bool" where
  "starts_with [] bs = True"
| "starts_with (a # as) [] = False"
| "starts_with (a # as) (b # bs) = (a = b \<and> starts_with as bs)"

lemma starts_with_append: "starts_with as bs \<longleftrightarrow> (\<exists>cs. bs = as @ cs)"
  by (induction as bs rule: starts_with.induct) auto

lemma strcmp_cstr:
  "cstr m s1 as \<Longrightarrow> cstr m s2 bs \<Longrightarrow> \<exists>d. strcmp m s1 s2 = Some d \<and> (d = 0 \<longleftrightarrow> starts_with as bs)"
proof (induction as bs arbitrary: s1 s2 rule: starts_with.induct)
  case (2 a as)
  then show ?case by (subst strcmp.simps) auto
next
  case (3 a as b bs)
  then show ?case by (cases "a = b") (auto simp: strcmp.simps [of m s1])
qed (subst strcmp.simps, simp)

lemma strncmp_loop_cstr:
  "cstr m s1 as \<Longrightarrow> cstr m s2 bs \<Longrightarrow> strncmp_loop m s1 s2 k = 0 \<longleftrightarrow> take k as = take k bs"
proof (induction k arbitrary: s1 s2 as bs)
  case (Suc k)
  then show ?case by (cases as; cases bs) (auto simp: Let_def)
qed simp

lemma memcmp_loop_zero:
  "k \<le> 4294967296 \<Longrightarrow> memcmp_loop m p q k = 0 \<longleftrightarrow> (\<forall>i < k. m (p + of_nat i) = m (q + of_nat i))"
proof (induction k arbitrary: p q)
  case (Suc k)
  have "(\<forall>i < Suc k. m (p + of_nat i) = m (q + of_nat i)) \<longleftrightarrow>
    m p = m q \<and> (\<forall>i < k. m (p + 1 + of_nat i) = m (q + 1 + of_nat i))"
    by (subst All_less_Suc2) (simp add: algebra_simps)
  then show ?case using Suc by (auto simp: Let_def)
qed simp

lemma unat_add_of_nat: "unat (w :: u32) + n < 4294967296 \<Longrightarrow> unat (w + of_nat n) = unat w + n"
  by (simp add: unat_word_ariths unat_of_nat)

lemma memmove_loop_eq:
  assumes "unat (d0 - src) + k < 4294967296" and "src \<noteq> d0"
  shows "memmove_loop m src (d0 + of_nat k) (src + of_nat k) =
    (\<lambda>a. if in_reg d0 (Suc k) a then m (src + (a - d0)) else m a)"
  using assms(1)
proof (induction k arbitrary: m)
  case 0
  show ?case by (subst memmove_loop.simps) (auto simp: Let_def in_reg_Suc)
next
  case (Suc k)
  let ?m = "m(d0 + of_nat (Suc k) := m (src + of_nat (Suc k)))"
  have nz: "(of_nat (Suc k) :: u32) \<noteq> 0" using unat_add_of_nat [of 0 "Suc k"] Suc.prems by (auto simp del: of_nat_Suc)
  have clob: "src + (a - d0) \<noteq> d0 + of_nat (Suc k)" if "in_reg d0 (Suc k) a" for a
  proof
    assume "src + (a - d0) = d0 + of_nat (Suc k)"
    then have e: "a - d0 = (d0 - src) + of_nat (Suc k)" by (simp add: algebra_simps)
    have "unat (a - d0) = unat (d0 - src) + Suc k"
      unfolding e using Suc.prems by (intro unat_add_of_nat) simp
    with that show False by (simp add: in_reg_def)
  qed
  have last: "in_reg d0 (Suc (Suc k)) a \<longleftrightarrow> a = d0 + of_nat (Suc k) \<or> in_reg d0 (Suc k) a" for a
  proof -
    have "unat (a - d0) = Suc k \<longleftrightarrow> a - d0 = of_nat (Suc k)"
      using unat_add_of_nat [of 0 "Suc k"] Suc.prems by (auto simp: word_unat_eq_iff simp del: of_nat_Suc)
    also have "\<dots> \<longleftrightarrow> a = d0 + of_nat (Suc k)" by (simp only: diff_eq_eq add.commute)
    finally show ?thesis by (auto simp: in_reg_def less_Suc_eq)
  qed
  have "memmove_loop m src (d0 + of_nat (Suc k)) (src + of_nat (Suc k)) = memmove_loop ?m src (d0 + of_nat k) (src + of_nat k)"
    using nz by (subst memmove_loop.simps) (simp add: Let_def)
  also have "\<dots> = (\<lambda>a. if in_reg d0 (Suc k) a then ?m (src + (a - d0)) else ?m a)"
    using Suc.prems by (intro Suc.IH) simp
  finally show ?case using clob last by (auto simp: fun_eq_iff)
qed

section \<open>Properties\<close>

text \<open>Memcpy between regions that do not overlap copies every byte and changes nothing else.\<close>

theorem memcpy_copies:
  assumes "\<And>a. \<not> (in_reg dest (unat n) a \<and> in_reg src (unat n) a)"
  shows "memcpy m dest src n = (\<lambda>a. if in_reg dest (unat n) a then m (src + (a - dest)) else m a)"
  unfolding memcpy_def using unat_u32_less [of n] by (intro memcpy_loop_eq assms) simp

text \<open>Memmove of a region onto one that starts inside it and lies above copies every byte, as it
  was before the call, and changes nothing else.\<close>

theorem memmove_up_copies:
  assumes "src < dest" and "dest < src + n" and "unat dest + unat n \<le> 4294967296"
  shows "memmove m dest src n = (\<lambda>a. if in_reg dest (unat n) a then m (src + (a - dest)) else m a)"
proof -
  have n: "0 < unat n" using assms(1,2) by (cases "n = 0") (auto simp: unat_gt_0)
  have e: "of_nat (unat n - 1) = n - 1" using n by (simp add: of_nat_diff)
  have "unat (dest - src) \<le> unat dest"
    using assms(1) by (simp add: unat_sub_if' word_less_nat_alt)
  then have "unat (dest - src) + (unat n - 1) < 4294967296" using assms(3) n by linarith
  from memmove_loop_eq [OF this, of m] show ?thesis
    using assms n unfolding e memmove_def by (auto simp: add_diff_eq)
qed

text \<open>When the destination does not start inside the source region, memmove copies nothing and
  leaves the memory as it was, also for two regions that do not overlap at all.\<close>

theorem memmove_otherwise_copies_nothing:
  assumes "dest \<le> src \<or> src + n \<le> dest"
  shows "memmove m dest src n = m"
  using assms by (auto simp: memmove_def)

text \<open>Strcpy into a region apart from the source string makes the destination hold the same
  string, NUL included, and strlen then measures it; bytes outside the destination keep their
  values.\<close>

theorem strcpy_strlen:
  assumes "cstr m src cs" and "length cs < 4294967295"
    and "\<And>a. \<not> (in_reg dest (Suc (length cs)) a \<and> in_reg src (Suc (length cs)) a)"
  shows "\<exists>m'. strcpy m dest src = Some m' \<and> cstr m' dest cs \<and>
    strlen m' dest = Some (of_nat (length cs)) \<and>
    (\<forall>a. \<not> in_reg dest (Suc (length cs)) a \<longrightarrow> m' a = m a)"
proof -
  have nz: "0 \<notin> set cs" using assms(1) by (induction cs arbitrary: src) auto
  have c: "cstr (store m dest (cs @ [0])) dest cs" using assms(2) nz by (intro cstr_store) auto
  then show ?thesis
    using strcpy_cstr [OF assms(1,3)] strlen_loop_cstr [OF c, of 0] by (auto simp: strlen_def store_outside)
qed

text \<open>Strcmp returns 0 whenever its first string is a prefix of the second, equal or not.\<close>

theorem strcmp_zero_iff_prefix:
  assumes "cstr m s1 as" and "cstr m s2 bs"
  shows "\<exists>d. strcmp m s1 s2 = Some d \<and> (d = 0 \<longleftrightarrow> (\<exists>cs. bs = as @ cs))"
  using strcmp_cstr [OF assms] by (simp add: starts_with_append)

text \<open>Strncmp returns 0 exactly when the two strings agree on their first n characters.\<close>

theorem strncmp_zero_iff:
  assumes "cstr m s1 as" and "cstr m s2 bs"
  shows "strncmp m s1 s2 n = 0 \<longleftrightarrow> take (unat n) as = take (unat n) bs"
  unfolding strncmp_def using assms by (rule strncmp_loop_cstr)

text \<open>Memcmp returns 0 exactly when the two regions hold the same bytes.\<close>

theorem memcmp_zero_iff:
  "memcmp m p q n = 0 \<longleftrightarrow> (\<forall>i < unat n. m (p + of_nat i) = m (q + of_nat i))"
  unfolding memcmp_def using unat_u32_less [of n] by (intro memcmp_loop_zero) simp

lemma strncpy_loop_no_NUL:
  "k < 4294967296 \<Longrightarrow> (\<And>i. i < k \<Longrightarrow> m (src + of_nat i) \<noteq> 0) \<Longrightarrow>
   (\<And>a. \<not> (in_reg dest k a \<and> in_reg src k a)) \<Longrightarrow>
   \<exists>m'. strncpy_loop m dest src k = (m', dest + of_nat k, - 1) \<and> (\<forall>a. \<not> in_reg dest k a \<longrightarrow> m' a = m a) \<and>
     (0 < k \<longrightarrow> m' (dest + of_nat (k - 1)) = m (src + of_nat (k - 1)))"
proof (induction k arbitrary: m dest src)
  case (Suc k)
  let ?m = "m(dest := m src)"
  have src: "m src \<noteq> 0" and ne: "\<not> in_reg (src + 1) k dest"
    using Suc.prems(2) [of 0] Suc.prems(3) [of dest] by (auto simp: in_reg_Suc)
  have nzs: "?m (src + 1 + of_nat i) \<noteq> 0" if "i < k" for i
  proof -
    have "src + 1 + of_nat i \<noteq> dest" using ne in_reg_offset [of i k "src + 1"] that Suc.prems(1) by auto
    then show ?thesis using Suc.prems(2) [of "Suc i"] that by (simp add: algebra_simps)
  qed
  have dis: "\<not> (in_reg (dest + 1) k a \<and> in_reg (src + 1) k a)" for a
    using Suc.prems(3) [of a] by (auto simp: in_reg_Suc)
  obtain m' where m': "strncpy_loop ?m (dest + 1) (src + 1) k = (m', dest + 1 + of_nat k, - 1)"
      "\<forall>a. \<not> in_reg (dest + 1) k a \<longrightarrow> m' a = ?m a" "0 < k \<longrightarrow> m' (dest + 1 + of_nat (k - 1)) = ?m (src + 1 + of_nat (k - 1))"
    using Suc.IH [where m = ?m and src = "src + 1" and dest = "dest + 1", OF Suc_lessD [OF Suc.prems(1)] nzs dis] by blast
  have step: "strncpy_loop m dest src (Suc k) = strncpy_loop ?m (dest + 1) (src + 1) k" using src by (simp add: Let_def)
  have "m' (dest + of_nat k) = m (src + of_nat k)"
  proof (cases k)
    case 0
    with m'(2) show ?thesis by simp
  next
    case (Suc j)
    have "src + 1 + of_nat j \<noteq> dest" using ne in_reg_offset [of j k "src + 1"] Suc Suc.prems(1) by auto
    with m'(3) Suc show ?thesis by (simp add: algebra_simps)
  qed
  then show ?case unfolding step using m'(1,2) by (auto simp: in_reg_Suc algebra_simps)
qed simp

text \<open>Strncpy of a source with no NUL in its first n bytes, n not 0, does not stop at n bytes: it
  writes zeros over the whole address space but the byte that holds the last character copied.\<close>

theorem strncpy_unterminated_wipes_memory:
  assumes "0 < n" and "\<And>i. i < unat n \<Longrightarrow> m (src + of_nat i) \<noteq> 0"
    and "\<And>a. \<not> (in_reg dest (unat n) a \<and> in_reg src (unat n) a)"
  shows "strncpy m dest src n = (\<lambda>a. if a = dest + n - 1 then m (src + n - 1) else 0)"
proof -
  have n: "0 < unat n" "of_nat (unat n - 1) = n - 1" "unat n < 4294967296"
    using assms(1) unat_u32_less [of n] by (auto simp: word_less_nat_alt of_nat_diff)
  obtain m' where m': "strncpy_loop m dest src (unat n) = (m', dest + of_nat (unat n), - 1)"
      "m' (dest + of_nat (unat n - 1)) = m (src + of_nat (unat n - 1))"
    using strncpy_loop_no_NUL [of "unat n" m src dest] assms(2,3) n by blast
  have reg: "in_reg (dest + n) 4294967295 a \<longleftrightarrow> a \<noteq> dest + n - 1" for a
  proof -
    have "unat (a - (dest + n)) < 4294967295 \<longleftrightarrow> a - (dest + n) \<noteq> - 1"
      using unat_u32_less [of "a - (dest + n)"]
      by (auto simp: word_unat_eq_iff unsigned_minus_1_eq_mask mask_eq_exp_minus_1)
    also have "\<dots> \<longleftrightarrow> a \<noteq> dest + n - 1" by (simp add: diff_eq_eq)
    finally show ?thesis by (simp add: in_reg_def)
  qed
  have u: "unat (- 1 :: u32) = 4294967295" by (simp add: unsigned_minus_1_eq_mask mask_eq_exp_minus_1)
  have st: "strncpy m dest src n = memset_loop m' (dest + of_nat (unat n)) 0 (unat (- 1 :: u32))"
    unfolding strncpy_def m'(1) by (simp only: prod.case)
  have nn: "of_nat (unat n) = n" by simp
  have last: "m' (dest + n - 1) = m (src + n - 1)" using m'(2) n by (simp add: add_diff_eq)
  show ?thesis
  proof (rule ext)
    fix a
    show "strncpy m dest src n a = (if a = dest + n - 1 then m (src + n - 1) else 0)"
      unfolding st nn memset_loop_eq u reg using last by simp
  qed
qed

text \<open>Strncat of a source that has no NUL in its first n + 1 bytes copies n bytes behind the
  destination string and writes no terminating NUL.\<close>

theorem strncat_leaves_unterminated:
  assumes "cstr m dest ds" and "\<And>i. i \<le> unat n \<Longrightarrow> m (src + of_nat i) \<noteq> 0"
    and "\<And>a. \<not> (in_reg (dest + of_nat (length ds)) (unat n) a \<and> in_reg src (Suc (unat n)) a)"
  shows "\<exists>m'. strncat m dest src n = Some m' \<and>
    (\<forall>a. \<not> in_reg (dest + of_nat (length ds)) (unat n) a \<longrightarrow> m' a = m a)"
proof -
  have loop: "k < 4294967296 \<Longrightarrow> (\<And>i. i \<le> k \<Longrightarrow> m (src + of_nat i) \<noteq> 0) \<Longrightarrow>
      (\<And>a. \<not> (in_reg d k a \<and> in_reg src (Suc k) a)) \<Longrightarrow>
      \<exists>m' d' s'. strncat_loop m d src k = (m', d', s') \<and> m' s' \<noteq> 0 \<and> (\<forall>a. \<not> in_reg d k a \<longrightarrow> m' a = m a)" for k d src m
  proof (induction k arbitrary: m d src)
    case 0
    from 0(2) [of 0] show ?case by simp
  next
    case (Suc k)
    let ?m = "m(d := m src)"
    have src: "m src \<noteq> 0" and ne: "\<not> in_reg (src + 1) (Suc k) d"
      using Suc.prems(2) [of 0] Suc.prems(3) [of d] by (auto simp: in_reg_Suc [of _ "Suc k"])
    have nzs: "?m (src + 1 + of_nat i) \<noteq> 0" if "i \<le> k" for i
    proof -
      have "src + 1 + of_nat i \<noteq> d" using ne in_reg_offset [of i "Suc k" "src + 1"] that Suc.prems(1) by auto
      then show ?thesis using Suc.prems(2) [of "Suc i"] that by (simp add: algebra_simps)
    qed
    have dis: "\<not> (in_reg (d + 1) k a \<and> in_reg (src + 1) (Suc k) a)" for a
      using Suc.prems(3) [of a] by (auto simp: in_reg_Suc [of _ k] in_reg_Suc [of _ "Suc k"])
    show ?case
      using Suc.IH [where m = ?m and src = "src + 1" and d = "d + 1", OF Suc_lessD [OF Suc.prems(1)] nzs dis] src
      by (auto simp: in_reg_Suc [of d] Let_def fun_upd_def)
  qed
  show ?thesis
    using loop [of "unat n" m src "dest + of_nat (length ds)"] unat_u32_less [of n] assms str_end_cstr [OF assms(1)]
    by (auto simp: strncat_def)
qed

section \<open>Witnesses\<close>

text \<open>A memory with the strings ab at 100 and abc at 200, zero elsewhere.\<close>

definition two_strings :: mem where
  "two_strings = (\<lambda>_. 0)(100 := 97, 101 := 98, 200 := 97, 201 := 98, 202 := 99)"

lemma two_strings_cstr: "cstr two_strings 100 [97, 98]" "cstr two_strings 200 [97, 98, 99]"
  by (simp_all add: two_strings_def)

lemma in_reg_apart: "unat (q - p) \<ge> k \<Longrightarrow> unat (p - q) \<ge> j \<Longrightarrow> \<not> (in_reg p k a \<and> in_reg q j a)"
proof
  assume "k \<le> unat (q - p)" "j \<le> unat (p - q)" "in_reg p k a \<and> in_reg q j a"
  then have "unat (a - p) < unat (q - p)" "unat (a - q) < unat (p - q)" by (auto simp: in_reg_def)
  then show False by unat_arith
qed

theorem memcpy_copies_witness:
  "memcpy two_strings 300 200 4 = (\<lambda>a. if in_reg 300 4 a then two_strings (200 + (a - 300)) else two_strings a)"
proof -
  have "\<not> (in_reg 300 (unat (4 :: u32)) a \<and> in_reg 200 (unat (4 :: u32)) a)" for a
    by (rule in_reg_apart) simp_all
  from memcpy_copies [OF this] show ?thesis by simp
qed

theorem memmove_up_copies_witness: "memmove two_strings 201 200 3 203 = 99"
  using memmove_up_copies [of 200 201 3 two_strings] by (simp add: in_reg_def two_strings_def)

theorem memmove_otherwise_copies_nothing_witness: "memmove two_strings 300 200 4 = two_strings"
  by (rule memmove_otherwise_copies_nothing) simp

theorem strcpy_strlen_witness:
  "\<exists>m'. strcpy two_strings 300 200 = Some m' \<and> cstr m' 300 [97, 98, 99] \<and> strlen m' 300 = Some 3"
proof -
  have dis: "\<not> (in_reg 300 (Suc (length [97, 98, 99 :: u8])) a \<and> in_reg 200 (Suc (length [97, 98, 99 :: u8])) a)" for a
    by (rule in_reg_apart) simp_all
  show ?thesis using strcpy_strlen [OF two_strings_cstr(2) _ dis] by auto
qed

theorem strcmp_zero_iff_prefix_witness: "strcmp two_strings 100 200 = Some 0"
  using strcmp_zero_iff_prefix [OF two_strings_cstr] by auto

theorem strncmp_zero_iff_witness: "strncmp two_strings 100 200 2 = 0 \<and> strncmp two_strings 100 200 3 \<noteq> 0"
  using strncmp_zero_iff [OF two_strings_cstr, of 2] strncmp_zero_iff [OF two_strings_cstr, of 3] by simp

lemma two_strings_chars: "i < 2 \<Longrightarrow> two_strings (200 + of_nat i) \<noteq> 0"
  by (auto simp: two_strings_def less_2_cases_iff)

theorem strncpy_unterminated_wipes_memory_witness:
  "strncpy two_strings 300 200 2 = (\<lambda>a. if a = 301 then 98 else 0)"
proof -
  have dis: "\<not> (in_reg 300 (unat (2 :: u32)) a \<and> in_reg 200 (unat (2 :: u32)) a)" for a
    by (rule in_reg_apart) simp_all
  have "two_strings 201 = 98" by (simp add: two_strings_def)
  then show ?thesis
    using strncpy_unterminated_wipes_memory [OF _ _ dis, of two_strings] two_strings_chars
    by (simp cong: if_cong)
qed

theorem strncat_leaves_unterminated_witness: "\<exists>m'. strncat two_strings 100 200 1 = Some m' \<and> m' 103 = 0"
proof -
  have "\<not> (in_reg (100 + of_nat (length [97, 98 :: u8])) (unat (1 :: u32)) a \<and> in_reg 200 (Suc (unat (1 :: u32))) a)" for a
    by (rule in_reg_apart) simp_all
  moreover have "two_strings (200 + of_nat i) \<noteq> 0" if "i \<le> unat (1 :: u32)" for i
    using that two_strings_chars [of i] by simp
  ultimately show ?thesis
    using strncat_leaves_unterminated [OF two_strings_cstr(1), of 1 200] by (auto simp: in_reg_def two_strings_def)
qed

end
