(* ===== verification/Keyboard.thy ===== *)
theory Keyboard
  imports Prelude
begin

text \<open>
  The keyboard driver, arch/i386/kernel/kbd-handler.c: the ring of raw scan bytes that the
  interrupt handler fills, the state machine that turns scan bytes of set 2 into key events, the
  key tables with their binary search, and read_key, which joins them. The byte that
  \<^verbatim>\<open>read_byte_from_dat_buf\<close> (assembly) reads from the controller is an argument of \<open>kbd_isr\<close>.
\<close>

section \<open>A bounded ring of bytes\<close>

text \<open>
  What the driver needs of its buffer, for any buffer: a push appends, dropping the oldest entry
  of a full buffer, and the reader takes entries from the front.
\<close>

locale ring_buffer =
  fixes cap :: nat
    and push :: "'b \<Rightarrow> 's \<Rightarrow> 's"
    and front :: "'s \<Rightarrow> 'b"
    and pop :: "'s \<Rightarrow> 's"
    and contents :: "'s \<Rightarrow> 'b list"
    and inv :: "'s \<Rightarrow> bool"
  assumes cap_pos: "0 < cap"
    and inv_push: "inv s \<Longrightarrow> inv (push b s)"
    and contents_push: "inv s \<Longrightarrow>
      contents (push b s) = (if length (contents s) < cap then contents s @ [b] else tl (contents s) @ [b])"
    and contents_cap: "inv s \<Longrightarrow> length (contents s) \<le> cap"
    and front_pop: "inv s \<Longrightarrow> contents s \<noteq> [] \<Longrightarrow> inv (pop s) \<and> contents s = front s # contents (pop s)"
begin

lemma inv_pushes: "inv s \<Longrightarrow> inv (fold push bs s)"
  by (induction bs arbitrary: s) (auto intro: inv_push)

lemma contents_pushes:
  "inv s \<Longrightarrow> contents (fold push bs s) =
    drop (length (contents s) + length bs - cap) (contents s @ bs)"
proof (induction bs arbitrary: s)
  case Nil
  then show ?case using contents_cap [of s] by simp
next
  case (Cons b bs)
  have "contents (fold push bs (push b s)) =
      drop (length (contents (push b s)) + length bs - cap) (contents (push b s) @ bs)"
    using Cons.prems by (intro Cons.IH inv_push)
  moreover have "contents s \<noteq> []" if "\<not> length (contents s) < cap" using that cap_pos by auto
  ultimately show ?case
    using Cons.prems contents_cap [of s] contents_push [of s b]
    by (cases "contents s") (auto simp: Suc_diff_le simp del: drop_append)
qed

end

section \<open>The buffer\<close>

definition KBD_BUFFER_SIZE :: nat where "KBD_BUFFER_SIZE = 10"

datatype kstate = STATE_INIT | STATE_BASIC_BREAK_EXPEC | STATE_BASIC_BREAK_ES | STATE_EXT_MAKE_ES
  | STATE_EXT_BREAK_EXPEC | STATE_EXT_BREAK_ES_1 | STATE_EXT_BREAK_ES_2 | STATE_IGNORE

text \<open>The static variables of the driver; \<open>sm_state\<close> is the state machine's static \<^verbatim>\<open>state\<close>.\<close>

record kbd =
  key_buffer :: "u8 list"
  head :: nat
  tail :: nat
  sm_state :: kstate

definition kbd_isr :: "u8 \<Rightarrow> kbd \<Rightarrow> kbd" where
  "kbd_isr b s =
     (let buf = (key_buffer s)[head s := b];
          h = head s + 1;
          h = (if KBD_BUFFER_SIZE = h then 0 else h);
          t = (if h = tail s then tail s + 1 else tail s);
          t = (if KBD_BUFFER_SIZE = t then 0 else t)
      in s\<lparr>key_buffer := buf, head := h, tail := t\<rparr>)"

definition flush_kbd_buffer :: "kbd \<Rightarrow> kbd" where
  "flush_kbd_buffer s = s\<lparr>head := 0, tail := 0\<rparr>"

text \<open>The step of the reader over one byte: \<^verbatim>\<open>tail++; tail = tail % KBD_BUFFER_SIZE\<close>.\<close>

definition kbd_front :: "kbd \<Rightarrow> u8" where "kbd_front s = key_buffer s ! tail s"

definition kbd_pop :: "kbd \<Rightarrow> kbd" where
  "kbd_pop s = s\<lparr>tail := (tail s + 1) mod KBD_BUFFER_SIZE\<rparr>"

definition kbd_inv :: "kbd \<Rightarrow> bool" where
  "kbd_inv s \<longleftrightarrow> length (key_buffer s) = 10 \<and> head s < 10 \<and> tail s < 10"

definition kbd_queue :: "kbd \<Rightarrow> u8 list" where
  "kbd_queue s = map (\<lambda>i. key_buffer s ! ((tail s + i) mod 10)) [0..<(head s + 10 - tail s) mod 10]"

text \<open>Arithmetic modulo the buffer size, without \<open>mod\<close>.\<close>

lemma mod10: "(x :: nat) < 20 \<Longrightarrow> x mod 10 = (if x < 10 then x else x - 10)"
  by (simp add: mod_if)

lemma kbd_queue_cap: "length (kbd_queue s) \<le> 9"
proof -
  have "(x :: nat) mod 10 < 10" for x by simp
  from this [of "head s + 10 - tail s"] show ?thesis by (simp add: kbd_queue_def)
qed

lemma kbd_queue_empty: "kbd_inv s \<Longrightarrow> kbd_queue s = [] \<longleftrightarrow> tail s = head s"
proof -
  assume i: "kbd_inv s"
  then have lt: "head s + 10 - tail s < 20" unfolding kbd_inv_def by arith
  have "(head s + 10 - tail s) mod 10 = 0 \<longleftrightarrow> tail s = head s"
    unfolding mod10 [OF lt] using i by (auto simp: kbd_inv_def)
  then show ?thesis by (simp add: kbd_queue_def)
qed

lemma kbd_isr_inv: "kbd_inv s \<Longrightarrow> kbd_inv (kbd_isr b s)"
  by (auto simp: kbd_inv_def kbd_isr_def Let_def KBD_BUFFER_SIZE_def)

lemma kbd_isr_queue:
  assumes "kbd_inv s"
  shows "kbd_queue (kbd_isr b s) =
    (if length (kbd_queue s) < 9 then kbd_queue s @ [b] else tl (kbd_queue s) @ [b])"
proof -
  define h t buf n where "h = head s" "t = tail s" "buf = key_buffer s" "n = (h + 10 - t) mod 10"
  note defs = this
  have lt: "h < 10" "t < 10" "length buf = 10" using assms by (auto simp: kbd_inv_def defs)
  have n: "n < 10" "(t + n) mod 10 = h" using lt by (auto simp: defs(4) mod10)
  have skip: "buf[h := b] ! ((t + i) mod 10) = buf ! ((t + i) mod 10)" if "i < n" for i
  proof -
    have "(t + i) mod 10 \<noteq> (t + n) mod 10" using that n(1) lt by (simp add: mod10) arith
    then show ?thesis using n(2) by simp
  qed
  have hit: "buf[h := b] ! ((t + n) mod 10) = b" using n(2) lt by simp
  define h' t' where "h' = (if 10 = h + 1 then 0 else h + 1)" "t' = (if 10 = t + 1 then 0 else t + 1)"
  note defs' = this
  have isr: "kbd_isr b s = s\<lparr>key_buffer := buf[h := b], head := h', tail := if h' = t then t' else t\<rparr>"
    using lt by (auto simp: kbd_isr_def Let_def KBD_BUFFER_SIZE_def defs(1-3) [symmetric] defs')
  show ?thesis
  proof (cases "n < 9")
    case True
    have h': "h' \<noteq> t" and n': "(h' + 10 - t) mod 10 = Suc n"
      using True lt n by (auto simp: defs(4) defs' mod10 split: if_splits)
    have "kbd_queue (kbd_isr b s) = map (\<lambda>i. buf[h := b] ! ((t + i) mod 10)) [0..<Suc n]"
      unfolding isr using h' by (simp add: kbd_queue_def n' del: upt_Suc)
    also have "\<dots> = map (\<lambda>i. buf ! ((t + i) mod 10)) [0..<n] @ [b]"
      using skip hit by simp
    finally show ?thesis using True by (simp add: kbd_queue_def defs)
  next
    case False
    then have n9: "n = 9" using n by simp
    have h': "h' = t" and t': "(t + 10 - t') mod 10 = 9"
      using n9 lt n by (auto simp: defs(4) defs' mod10 split: if_splits)
    have t'': "(t' + i) mod 10 = (t + Suc i) mod 10" for i by (simp add: defs')
    have s19: "[1..<10] = map Suc [0..<9]" by (simp add: upt_rec)
    have "kbd_queue (kbd_isr b s) = map (\<lambda>i. buf[h := b] ! ((t + Suc i) mod 10)) [0..<9]"
      unfolding isr using h' by (simp add: kbd_queue_def t' t'')
    also have "\<dots> = map (\<lambda>i. buf[h := b] ! ((t + i) mod 10)) [1..<10]"
      unfolding s19 by (simp add: o_def)
    also have "[1..<10] = [1..<9] @ [9 :: nat]" by (simp add: upt_rec)
    also have "map (\<lambda>i. buf[h := b] ! ((t + i) mod 10)) ([1..<9] @ [9]) = map (\<lambda>i. buf ! ((t + i) mod 10)) [1..<9] @ [b]"
      using skip hit n9 by simp
    also have "\<dots> = tl (kbd_queue s) @ [b]"
      using n9 by (simp add: kbd_queue_def defs map_tl [symmetric] del: map_tl)
    finally show ?thesis using n9 by (simp add: kbd_queue_def defs)
  qed
qed

interpretation kbd: ring_buffer 9 kbd_isr kbd_front kbd_pop kbd_queue kbd_inv
proof (unfold_locales, goal_cases)
  case (5 s)
  then have lt: "head s < 10" "tail s < 10" "tail s \<noteq> head s" by (auto simp: kbd_inv_def kbd_queue_empty)
  then have n: "(head s + 10 - tail s) mod 10 = Suc ((head s + 10 - (tail s + 1) mod 10) mod 10)"
    by (auto simp: mod10 split: if_splits)
  have "kbd_queue s = key_buffer s ! tail s # map (\<lambda>i. key_buffer s ! ((tail s + Suc i) mod 10)) [0..<(head s + 10 - (tail s + 1) mod 10) mod 10]"
    unfolding kbd_queue_def n map_upt_Suc using lt by simp
  then show ?case
    using 5(1) by (simp add: kbd_front_def kbd_pop_def kbd_inv_def kbd_queue_def KBD_BUFFER_SIZE_def mod_simps)
qed (simp_all add: kbd_isr_inv kbd_isr_queue kbd_queue_cap)

section \<open>The state machine\<close>

text \<open>
  The out parameters of \<^verbatim>\<open>keyboard_state_machine\<close>: \<open>ev_o\<close> is 0 when the byte was ignored.
\<close>

record key_event =
  ev_o :: int
  ev_make :: bool
  ev_repeat :: bool
  ev_basic :: bool

definition no_event :: key_event where
  "no_event = \<lparr>ev_o = 0, ev_make = False, ev_repeat = False, ev_basic = False\<rparr>"

fun keyboard_state_machine :: "kstate \<Rightarrow> u8 \<Rightarrow> key_event \<times> kstate" where
  "keyboard_state_machine STATE_INIT i =
     (if i = 0xF0 then (no_event, STATE_IGNORE)
      else if i = 0xE0 then (no_event, STATE_EXT_MAKE_ES)
      else (no_event\<lparr>ev_o := uint i, ev_make := True, ev_basic := True\<rparr>, STATE_BASIC_BREAK_EXPEC))"
| "keyboard_state_machine STATE_BASIC_BREAK_EXPEC i =
     (if i = 0xF0 then (no_event, STATE_BASIC_BREAK_ES)
      else (no_event\<lparr>ev_o := uint i, ev_make := True, ev_repeat := True, ev_basic := True\<rparr>,
            STATE_BASIC_BREAK_EXPEC))"
| "keyboard_state_machine STATE_BASIC_BREAK_ES i =
     (if i = 0xE0 then (no_event, STATE_IGNORE)
      else if i = 0xF0 then (no_event, STATE_IGNORE)
      else (no_event\<lparr>ev_o := uint i, ev_make := False, ev_basic := True\<rparr>, STATE_INIT))"
| "keyboard_state_machine STATE_EXT_MAKE_ES i =
     (if i = 0xE0 then (no_event, STATE_IGNORE)
      else if i = 0xF0 then (no_event, STATE_IGNORE)
      else (no_event\<lparr>ev_o := uint i, ev_make := True, ev_basic := False\<rparr>, STATE_EXT_BREAK_EXPEC))"
| "keyboard_state_machine STATE_EXT_BREAK_EXPEC i =
     (if i = 0xE0 then (no_event, STATE_EXT_BREAK_ES_1)
      else if i = 0xF0 then (no_event, STATE_IGNORE)
      else (no_event, STATE_INIT))"
| "keyboard_state_machine STATE_EXT_BREAK_ES_1 i =
     (if i = 0xF0 then (no_event, STATE_EXT_BREAK_ES_2)
      else if i = 0xE0 then (no_event, STATE_IGNORE)
      else (no_event\<lparr>ev_o := uint i, ev_make := True, ev_repeat := False, ev_basic := False\<rparr>,
            STATE_EXT_BREAK_EXPEC))"
| "keyboard_state_machine STATE_EXT_BREAK_ES_2 i =
     (if i = 0xF0 then (no_event, STATE_IGNORE)
      else if i = 0xE0 then (no_event, STATE_IGNORE)
      else (no_event\<lparr>ev_o := uint i, ev_make := False, ev_basic := False\<rparr>, STATE_INIT))"
| "keyboard_state_machine STATE_IGNORE i = (no_event, STATE_INIT)"

fun run_machine :: "kstate \<Rightarrow> u8 list \<Rightarrow> key_event list \<times> kstate" where
  "run_machine q [] = ([], q)"
| "run_machine q (i # is) =
     (case keyboard_state_machine q i of (e, q') \<Rightarrow>
        case run_machine q' is of (es, q'') \<Rightarrow> ((if ev_o e \<noteq> 0 then e # es else es), q''))"

section \<open>Key tables and their search\<close>

record keymap =
  scan_code :: int
  keyval :: int

definition km :: "int \<Rightarrow> int \<Rightarrow> keymap" where
  "km s v = \<lparr>scan_code = s, keyval = v\<rparr>"

definition basic_keymap :: "keymap list" where
  "basic_keymap = [
    km 0x01 0x101, km 0x03 0x103, km 0x04 0x104, km 0x05 0x105, km 0x06 0x106, km 0x07 0x107,
    km 0x09 0x109, km 0x0A 0x10A, km 0x0B 0x10B, km 0x0C 0x10C, km 0x0D 9, km 0x0E 96, km 0x11 0x111,
    km 0x12 0x112, km 0x15 81, km 0x16 49, km 0x1A 90, km 0x1B 83, km 0x1C 65, km 0x1D 87,
    km 0x1E 50, km 0x21 67, km 0x22 88, km 0x23 68, km 0x24 69, km 0x25 52, km 0x26 51, km 0x29 32,
    km 0x2A 86, km 0x2B 70, km 0x2C 84, km 0x2D 82, km 0x2E 53, km 0x31 78, km 0x32 66, km 0x33 72,
    km 0x34 71, km 0x35 89, km 0x36 54, km 0x3A 77, km 0x3B 74, km 0x3C 85, km 0x3D 55, km 0x3E 56,
    km 0x41 44, km 0x42 75, km 0x43 73, km 0x44 79, km 0x45 48, km 0x46 57, km 0x49 46, km 0x4A 47,
    km 0x4B 76, km 0x4C 59, km 0x4D 80, km 0x4E 45, km 0x52 39, km 0x54 91, km 0x55 61,
    km 0x58 0x158, km 0x59 0x159, km 0x5A 10, km 0x5B 93, km 0x5D 92, km 0x66 8, km 0x69 0x169,
    km 0x6B 0x16B, km 0x6C 0x16C, km 0x70 0x170, km 0x71 0x171, km 0x72 0x172, km 0x73 0x173,
    km 0x74 0x174, km 0x75 0x175, km 0x76 0x176, km 0x77 0x177, km 0x78 0x178, km 0x79 0x179,
    km 0x7A 0x17A, km 0x7B 0x17B, km 0x7C 0x17C, km 0x7D 0x17D, km 0x83 0x183]"

definition extended_keymap :: "keymap list" where
  "extended_keymap = [
    km 0x10 0x210, km 0x11 0x211, km 0x14 0x214, km 0x15 0x215, km 0x18 0x218, km 0x1F 0x21F,
    km 0x20 0x220, km 0x21 0x221, km 0x23 0x223, km 0x27 0x227, km 0x28 0x228, km 0x2B 0x22B,
    km 0x2F 0x22F, km 0x30 0x230, km 0x32 0x232, km 0x34 0x234, km 0x37 0x237, km 0x38 0x238,
    km 0x3A 0x23A, km 0x3B 0x23B, km 0x3F 0x23F, km 0x40 0x240, km 0x48 0x248, km 0x4A 0x24A,
    km 0x4D 0x24D, km 0x50 0x250, km 0x5A 0x25A, km 0x5E 0x25E, km 0x69 0x269, km 0x6B 0x26B,
    km 0x6C 0x26C, km 0x70 0x270, km 0x71 0x271, km 0x72 0x272, km 0x74 0x274, km 0x75 0x275,
    km 0x7A 0x27A, km 0x7D 0x27D]"

text \<open>
  The search loop. The value is the index found, or \<open>None\<close>; an index outside the table is a
  trap, and \<open>None\<close> of the \<^theory_text>\<open>partial_function\<close> a loop that is not left.
\<close>

partial_function (option) bs_loop :: "int \<Rightarrow> keymap list \<Rightarrow> nat \<Rightarrow> nat \<Rightarrow> nat option outcome option" where
  "bs_loop code m min_index max_index =
     (let median_index = (min_index + max_index) div 2
      in if length m \<le> median_index then Some Trap
         else if median_index = min_index
         then if scan_code (m ! median_index) = code then Some (Ret (Some median_index))
              else if length m \<le> median_index + 1 then Some Trap
              else if scan_code (m ! (median_index + 1)) = code then Some (Ret (Some (median_index + 1)))
              else Some (Ret None)
         else if scan_code (m ! median_index) < code then bs_loop code m median_index max_index
         else bs_loop code m min_index median_index)"

definition binary_search_key :: "int \<Rightarrow> keymap list \<Rightarrow> int option outcome" where
  "binary_search_key code m =
     (let keymap_length = length m
      in if keymap_length = 0 then Trap
         else if code < scan_code (m ! 0) \<or> scan_code (m ! (keymap_length - 1)) < code then Ret None
         else obind (of_loop (bs_loop code m 0 (keymap_length - 1)))
                (\<lambda>r. Ret (map_option (\<lambda>k. keyval (m ! k)) r)))"

section \<open>Reading a key\<close>

text \<open>
  The parse loop of read_key: it takes bytes from the ring until the machine reports a make. It
  returns the last event; when the ring ran empty this is an ignored one. \<open>None\<close> is a loop that
  is not left.
\<close>

partial_function (option) parse_loop :: "kbd \<Rightarrow> (key_event \<times> kbd) option" where
  "parse_loop s =
     (if tail s \<noteq> head s
      then case keyboard_state_machine (sm_state s) (key_buffer s ! tail s) of
             (e, q) \<Rightarrow>
               if ev_repeat e then Some (e, s\<lparr>sm_state := q, tail := (tail s + 1) mod KBD_BUFFER_SIZE\<rparr>)
               else if ev_make e then Some (e, s\<lparr>sm_state := q, tail := (tail s + 1) mod KBD_BUFFER_SIZE\<rparr>)
               else parse_loop (s\<lparr>sm_state := q, tail := (tail s + 1) mod KBD_BUFFER_SIZE\<rparr>)
      else Some (no_event, s))"

text \<open>
  The result: the return value, the key, \<open>None\<close> when it is not written or is the uninitialised
  \<^verbatim>\<open>val\<close>, and the printable flag.
\<close>

record read_result =
  ret :: int
  key :: "int option"
  printable :: bool

definition read_key_of :: "key_event \<Rightarrow> read_result outcome" where
  "read_key_of e =
     (if ev_make e \<or> ev_repeat e
      then if ev_basic e
           then obind (binary_search_key (ev_o e) basic_keymap) (\<lambda>r. case r of
                  Some val \<Rightarrow> Ret \<lparr>ret = 0, key = Some val, printable = (val AND 0x100 = 0)\<rparr>
                | None \<Rightarrow> Ret \<lparr>ret = - 1, key = None, printable = True\<rparr>)
           else obind (binary_search_key (ev_o e) extended_keymap) (\<lambda>r. case r of
                  Some val \<Rightarrow> Ret \<lparr>ret = 0, key = Some val, printable = (val AND 0x200 = 0)\<rparr>
                | None \<Rightarrow> Ret \<lparr>ret = - 1, key = None, printable = True\<rparr>)
      else Ret \<lparr>ret = - 1, key = None, printable = True\<rparr>)"

definition read_key :: "kbd \<Rightarrow> (read_result \<times> kbd) outcome" where
  "read_key s = (case parse_loop s of
       None \<Rightarrow> Hang
     | Some (e, s') \<Rightarrow> obind (read_key_of e) (\<lambda>r. Ret (r, s')))"

section \<open>The search finds what the table holds\<close>

definition keymap_lookup :: "keymap list \<Rightarrow> int \<Rightarrow> int option" where
  "keymap_lookup m = map_of (map (\<lambda>k. (scan_code k, keyval k)) m)"

definition keymap_sorted :: "keymap list \<Rightarrow> bool" where
  "keymap_sorted m \<longleftrightarrow> sorted_wrt (<) (map scan_code m)"

lemma keymap_sorted_less:
  "keymap_sorted m \<Longrightarrow> i < length m \<Longrightarrow> j < length m \<Longrightarrow> scan_code (m ! i) < scan_code (m ! j) \<longleftrightarrow> i < j"
proof -
  assume m: "keymap_sorted m" "i < length m" "j < length m"
  have up: "a < b \<Longrightarrow> b < length m \<Longrightarrow> scan_code (m ! a) < scan_code (m ! b)" for a b
    using m(1) by (auto simp: keymap_sorted_def sorted_wrt_iff_nth_less)
  show ?thesis using up [of i j] up [of j i] m by (cases i j rule: linorder_cases) auto
qed

lemma keymap_lookup_nth:
  assumes "keymap_sorted m" and "i < length m"
  shows "keymap_lookup m (scan_code (m ! i)) = Some (keyval (m ! i))"
proof -
  have "distinct (map fst (map (\<lambda>k. (scan_code k, keyval k)) m))"
    using assms(1) by (auto simp: keymap_sorted_def strict_sorted_iff o_def)
  moreover have "(scan_code (m ! i), keyval (m ! i)) \<in> set (map (\<lambda>k. (scan_code k, keyval k)) m)"
    using nth_mem [OF assms(2)] by force
  ultimately show ?thesis unfolding keymap_lookup_def by (simp add: map_of_eq_Some_iff)
qed

lemma keymap_lookup_None: "keymap_lookup m c = None \<longleftrightarrow> (\<forall>i < length m. scan_code (m ! i) \<noteq> c)"
proof -
  have "keymap_lookup m c = None \<longleftrightarrow> c \<notin> scan_code ` set m"
    unfolding keymap_lookup_def by (simp add: map_of_eq_None_iff image_image)
  then show ?thesis by (auto simp: set_conv_nth)
qed

text \<open>
  The loop, between two indices that hold the code if any index does: it is left, stays inside the
  table, and finds the index.
\<close>

lemma bs_loop_right:
  assumes "(lo + hi) div 2 < length m" and "(lo + hi) div 2 \<noteq> lo" and "scan_code (m ! ((lo + hi) div 2)) < code"
  shows "bs_loop code m lo hi = bs_loop code m ((lo + hi) div 2) hi"
  using assms bs_loop.simps [of code m lo hi] by (simp only: Let_def if_False not_less [symmetric] if_True) simp

lemma bs_loop_left:
  assumes "(lo + hi) div 2 < length m" and "(lo + hi) div 2 \<noteq> lo" and "\<not> scan_code (m ! ((lo + hi) div 2)) < code"
  shows "bs_loop code m lo hi = bs_loop code m lo ((lo + hi) div 2)"
  using assms bs_loop.simps [of code m lo hi] by (simp only: Let_def if_False not_less [symmetric] if_True) simp

lemma bs_loop_last:
  assumes "lo + 1 < length m"
  shows "bs_loop code m lo (lo + 1) =
    (if scan_code (m ! lo) = code then Some (Ret (Some lo))
     else if scan_code (m ! (lo + 1)) = code then Some (Ret (Some (lo + 1))) else Some (Ret None))"
proof -
  have "(lo + (lo + 1)) div 2 = lo" by arith
  then show ?thesis
    using assms bs_loop.simps [of code m lo "lo + 1"] by (simp only: Let_def) simp
qed

definition bs_found :: "int \<Rightarrow> keymap list \<Rightarrow> nat option \<Rightarrow> bool" where
  "bs_found code m r = (case r of None \<Rightarrow> (\<forall>i < length m. scan_code (m ! i) \<noteq> code)
     | Some i \<Rightarrow> i < length m \<and> scan_code (m ! i) = code)"

lemma bs_loop_finds:
  assumes "keymap_sorted m" and "lo < hi" and "hi < length m"
    and "\<And>i. i < length m \<Longrightarrow> scan_code (m ! i) = code \<Longrightarrow> lo \<le> i \<and> i \<le> hi"
  shows "\<exists>r. bs_loop code m lo hi = Some (Ret r) \<and> bs_found code m r"
  using assms(2-4)
proof (induction "hi - lo" arbitrary: lo hi rule: less_induct)
  case less
  let ?d = "(lo + hi) div 2"
  have d: "lo \<le> ?d" "?d < hi" "?d < length m" using less.prems by auto
  show ?case
  proof (cases "?d = lo")
    case True
    then have hi: "hi = lo + 1" using less.prems(1) by arith
    then have "i = lo \<or> i = lo + 1" if "i < length m" "scan_code (m ! i) = code" for i
      using less.prems(3) [OF that] by auto
    then show ?thesis using less.prems(2) unfolding hi bs_loop_last [OF less.prems(2) [unfolded hi]] bs_found_def
      by auto
  next
    case False
    show ?thesis
    proof (cases "scan_code (m ! ?d) < code")
      case True
      have "?d \<le> i \<and> i \<le> hi" if "i < length m" "scan_code (m ! i) = code" for i
        using less.prems(3) [OF that] keymap_sorted_less [OF assms(1) d(3) that(1)] that(2) True by auto
      with d less.prems(2) False show ?thesis
        unfolding bs_loop_right [OF d(3) False True] by (intro less.hyps) auto
    next
      case ge: False
      have "lo \<le> i \<and> i \<le> ?d" if "i < length m" "scan_code (m ! i) = code" for i
        using less.prems(3) [OF that] keymap_sorted_less [OF assms(1) d(3) that(1)] that(2) ge by auto
      with d False show ?thesis
        unfolding bs_loop_left [OF d(3) False ge] by (intro less.hyps) auto
    qed
  qed
qed

lemma binary_search_key_lookup:
  assumes "keymap_sorted m" and "2 \<le> length m"
  shows "binary_search_key code m = Ret (keymap_lookup m code)"
proof (cases "code < scan_code (m ! 0) \<or> scan_code (m ! (length m - 1)) < code")
  case True
  have "\<not> scan_code (m ! i) < scan_code (m ! 0)" "\<not> scan_code (m ! (length m - 1)) < scan_code (m ! i)" if "i < length m" for i
    using that assms(2) keymap_sorted_less [OF assms(1) that, of 0] keymap_sorted_less [OF assms(1) _ that, of "length m - 1"]
    by (cases "m = []"; simp)+
  then have "\<forall>i < length m. scan_code (m ! i) \<noteq> code" using True by blast
  then have "keymap_lookup m code = None" by (simp add: keymap_lookup_None)
  then show ?thesis using True assms(2) by (auto simp: binary_search_key_def Let_def)
next
  case False
  have "\<exists>r. bs_loop code m 0 (length m - 1) = Some (Ret r) \<and> bs_found code m r"
    using assms by (intro bs_loop_finds) auto
  then obtain r where r: "bs_loop code m 0 (length m - 1) = Some (Ret r)" "bs_found code m r" by blast
  from r(2) have "keymap_lookup m code = map_option (\<lambda>k. keyval (m ! k)) r"
    using keymap_lookup_nth [OF assms(1)] by (cases r) (auto simp: keymap_lookup_None bs_found_def)
  then show ?thesis using False r(1) assms(2) by (auto simp: binary_search_key_def Let_def)
qed

lemma basic_keymap_sorted: "keymap_sorted basic_keymap" "length basic_keymap = 83"
  by (simp_all add: keymap_sorted_def basic_keymap_def km_def)

lemma extended_keymap_sorted: "keymap_sorted extended_keymap" "length extended_keymap = 38"
  by (simp_all add: keymap_sorted_def extended_keymap_def km_def)

lemma both_tables_lookup:
  "binary_search_key code basic_keymap = Ret (keymap_lookup basic_keymap code)"
  "binary_search_key code extended_keymap = Ret (keymap_lookup extended_keymap code)"
  using basic_keymap_sorted extended_keymap_sorted by (simp_all add: binary_search_key_lookup)

text \<open>
  On both key tables the binary search of the driver returns, without reading outside the
  table, exactly what the table holds for the scan code: its key value, or a failure when the code
  has no entry.
\<close>

theorem binary_search_key_is_lookup:
  "binary_search_key code basic_keymap = Ret (keymap_lookup basic_keymap code) \<and>
   binary_search_key code extended_keymap = Ret (keymap_lookup extended_keymap code)"
  by (simp add: both_tables_lookup)

section \<open>The buffer between the interrupt and the reader\<close>

text \<open>
  The interrupt handler keeps the buffer well formed whatever bytes arrive, and the reader
  finds the last nine bytes that were not read yet, in the order of their arrival: a full buffer
  drops its oldest byte, never the newest.
\<close>

theorem kbd_isr_keeps_newest:
  assumes "kbd_inv s"
  shows "kbd_inv (fold kbd_isr bs s) \<and>
    kbd_queue (fold kbd_isr bs s) = drop (length (kbd_queue s) + length bs - 9) (kbd_queue s @ bs)"
  using kbd.inv_pushes [OF assms] kbd.contents_pushes [OF assms] by blast

definition kbd_boot :: kbd where
  "kbd_boot = \<lparr>key_buffer = replicate 10 0, head = 0, tail = 0, sm_state = STATE_INIT\<rparr>"

lemma kbd_boot_inv: "kbd_inv kbd_boot" "kbd_queue kbd_boot = []" "sm_state kbd_boot = STATE_INIT"
  by (simp_all add: kbd_inv_def kbd_boot_def kbd_queue_def)

theorem kbd_isr_keeps_newest_witness:
  "kbd_queue (fold kbd_isr [1, 2, 3, 4, 5, 6, 7, 8, 9, 10, 11] kbd_boot) = [3, 4, 5, 6, 7, 8, 9, 10, 11]"
  using kbd_isr_keeps_newest [OF kbd_boot_inv(1), of "[1, 2, 3, 4, 5, 6, 7, 8, 9, 10, 11]"]
  by (simp add: kbd_boot_inv)

section \<open>Decoding key strokes\<close>

text \<open>
  What the keyboard sends: a key stroke is the make code, a number of repetitions while the key is
  held, and the break code; \<open>stroke_events\<close> is what the driver should report.
\<close>

datatype stroke = Basic u8 nat | Extended u8 nat

fun stroke_code :: "stroke \<Rightarrow> u8" where
  "stroke_code (Basic c n) = c" | "stroke_code (Extended c n) = c"

fun stroke_bytes :: "stroke \<Rightarrow> u8 list" where
  "stroke_bytes (Basic c n) = c # replicate n c @ [0xF0, c]"
| "stroke_bytes (Extended c n) = [0xE0, c] @ concat (replicate n [0xE0, c]) @ [0xE0, 0xF0, c]"

definition event :: "u8 \<Rightarrow> bool \<Rightarrow> bool \<Rightarrow> bool \<Rightarrow> key_event" where
  "event c mk rep bas = \<lparr>ev_o = uint c, ev_make = mk, ev_repeat = rep, ev_basic = bas\<rparr>"

fun stroke_events :: "stroke \<Rightarrow> key_event list" where
  "stroke_events (Basic c n) = event c True False True # replicate n (event c True True True) @ [event c False False True]"
| "stroke_events (Extended c n) = event c True False False # replicate n (event c True False False) @ [event c False False False]"

lemma run_machine_append:
  "run_machine q (xs @ ys) = (case run_machine q xs of (es, q') \<Rightarrow>
     case run_machine q' ys of (fs, q'') \<Rightarrow> (es @ fs, q''))"
  by (induction xs arbitrary: q) (auto split: prod.splits)

definition plain_code :: "u8 \<Rightarrow> bool" where
  "plain_code c \<longleftrightarrow> c \<noteq> 0 \<and> c \<noteq> 0xE0 \<and> c \<noteq> 0xF0"

lemma uint_eq_0: "uint (c :: u8) = 0 \<longleftrightarrow> c = 0"
  by (simp add: uint_0_iff)

lemma run_repeats:
  assumes "plain_code c"
  shows "run_machine STATE_BASIC_BREAK_EXPEC (replicate n c) = (replicate n (event c True True True), STATE_BASIC_BREAK_EXPEC)"
    and "run_machine STATE_EXT_BREAK_EXPEC (concat (replicate n [0xE0, c])) = (replicate n (event c True False False), STATE_EXT_BREAK_EXPEC)"
  using assms by (induction n) (auto simp: plain_code_def no_event_def event_def uint_eq_0)

lemma run_stroke:
  assumes "plain_code (stroke_code k)"
  shows "run_machine STATE_INIT (stroke_bytes k) = (stroke_events k, STATE_INIT)"
  using assms run_repeats [OF assms]
  by (cases k) (auto simp: plain_code_def no_event_def event_def uint_eq_0 run_machine_append)

text \<open>
  C37. The state machine decodes every sequence of complete key strokes: from the initial state, the
  bytes of any strokes whose codes are none of 0, 0xE0 and 0xF0 produce exactly the make, repeat
  and break events of those strokes, in order, and lead back to the initial state.
\<close>

theorem keyboard_state_machine_decodes:
  assumes "\<forall>k \<in> set ks. plain_code (stroke_code k)"
  shows "run_machine STATE_INIT (concat (map stroke_bytes ks)) = (concat (map stroke_events ks), STATE_INIT)"
  using assms by (induction ks) (auto simp: run_machine_append run_stroke)

theorem keyboard_state_machine_decodes_witness:
  "run_machine STATE_INIT [0x1C, 0x1C, 0xF0, 0x1C, 0xE0, 0x75, 0xE0, 0xF0, 0x75] =
    ([event 0x1C True False True, event 0x1C True True True, event 0x1C False False True,
      event 0x75 True False False, event 0x75 False False False], STATE_INIT)"
  using keyboard_state_machine_decodes [of "[Basic 0x1C 1, Extended 0x75 0]"]
  by (simp add: plain_code_def del: run_machine.simps)

text \<open>
  An extended key that is pressed while a basic key is held is misread: in the state that
  follows the make of a basic key the prefix 0xE0 is itself reported as a repeated basic key with
  code 0xE0, and the code after it as a repeated basic key too.
\<close>

theorem extended_key_misread_while_basic_held:
  assumes "plain_code c"
  shows "run_machine STATE_BASIC_BREAK_EXPEC [0xE0, c] =
    ([event 0xE0 True True True, event c True True True], STATE_BASIC_BREAK_EXPEC)"
  using assms by (auto simp: plain_code_def no_event_def event_def uint_eq_0)

theorem extended_key_misread_while_basic_held_witness:
  "run_machine STATE_BASIC_BREAK_EXPEC [0xE0, 0x75] =
    ([event 0xE0 True True True, event 0x75 True True True], STATE_BASIC_BREAK_EXPEC)"
  by (rule extended_key_misread_while_basic_held) (simp add: plain_code_def)

section \<open>Reading keys from the buffer\<close>

text \<open>
  The contract of the reader, over the queue of bytes: it consumes bytes up to the first make, and
  decodes it with the table the event selects.
\<close>

fun first_make :: "kstate \<Rightarrow> u8 list \<Rightarrow> key_event \<times> kstate \<times> u8 list" where
  "first_make q [] = (no_event, q, [])"
| "first_make q (b # bs) = (case keyboard_state_machine q b of
     (e, q') \<Rightarrow> if ev_make e then (e, q', bs) else first_make q' bs)"

definition decode_event :: "key_event \<Rightarrow> read_result" where
  "decode_event e =
     (if \<not> ev_make e then \<lparr>ret = - 1, key = None, printable = True\<rparr>
      else case keymap_lookup (if ev_basic e then basic_keymap else extended_keymap) (ev_o e) of
        None \<Rightarrow> \<lparr>ret = - 1, key = None, printable = True\<rparr>
      | Some v \<Rightarrow> \<lparr>ret = 0, key = Some v, printable = (v AND (if ev_basic e then 0x100 else 0x200) = 0)\<rparr>)"

lemma repeat_is_make: "keyboard_state_machine q b = (e, q') \<Longrightarrow> ev_repeat e \<Longrightarrow> ev_make e"
  by (cases q) (auto simp: no_event_def split: if_splits)

lemma read_key_of_decodes: "(ev_repeat e \<Longrightarrow> ev_make e) \<Longrightarrow> read_key_of e = Ret (decode_event e)"
  by (auto simp: read_key_of_def decode_event_def both_tables_lookup split: option.splits)


lemma parse_loop_first_make:
  assumes "kbd_inv s"
  shows "\<exists>e s'. parse_loop s = Some (e, s') \<and> kbd_inv s' \<and> (ev_repeat e \<longrightarrow> ev_make e) \<and>
    first_make (sm_state s) (kbd_queue s) = (e, sm_state s', kbd_queue s')"
  using assms
proof (induction "kbd_queue s" arbitrary: s)
  case Nil
  then show ?case using kbd_queue_empty [OF Nil.prems]
    by (subst parse_loop.simps) (simp add: no_event_def)
next
  case (Cons b bs)
  then have ne: "tail s \<noteq> head s" using kbd_queue_empty [OF Cons.prems] by auto
  obtain e q where eq: "keyboard_state_machine (sm_state s) b = (e, q)" by fastforce
  define s' where "s' = s\<lparr>sm_state := q, tail := (tail s + 1) mod KBD_BUFFER_SIZE\<rparr>"
  have pop: "kbd_inv (kbd_pop s)" "b # bs = kbd_front s # kbd_queue (kbd_pop s)"
    using kbd.front_pop [OF Cons.prems] Cons.hyps(2) by (metis list.distinct(1))+
  have s': "kbd_inv s'" "kbd_queue s' = bs" "sm_state s' = q"
    using pop by (simp_all add: s'_def kbd_inv_def kbd_queue_def kbd_pop_def)
  have "b = key_buffer s ! tail s" using pop(2) by (simp add: kbd_front_def)
  then have step: "parse_loop s = (if ev_make e then Some (e, s') else parse_loop s')"
    using ne eq repeat_is_make [OF eq] by (subst parse_loop.simps) (auto simp: s'_def)
  show ?case
  proof (cases "ev_make e")
    case True
    then show ?thesis using step s' eq by (auto simp: Cons.hyps(2) [symmetric])
  next
    case False
    then show ?thesis
      using Cons.hyps(1) [of s'] step s' eq by (auto simp: Cons.hyps(2) [symmetric])
  qed
qed

lemma read_key_first_make:
  assumes "kbd_inv s"
  shows "\<exists>e s'. first_make (sm_state s) (kbd_queue s) = (e, sm_state s', kbd_queue s') \<and>
    read_key s = Ret (decode_event e, s') \<and> kbd_inv s'"
proof -
  obtain e s' where "parse_loop s = Some (e, s')" "kbd_inv s'" "ev_repeat e \<longrightarrow> ev_make e"
    "first_make (sm_state s) (kbd_queue s) = (e, sm_state s', kbd_queue s')"
    using parse_loop_first_make [OF assms] by blast
  then show ?thesis by (auto simp: read_key_def read_key_of_decodes)
qed

text \<open>
  C7. Reading a key refines its contract over the queue of received bytes: on every well-formed
  buffer read_key returns (its loop is left, no table is read out of bounds), consumes exactly the
  bytes up to the first make, leaves a well-formed buffer, and reports the decoded event: the key
  and whether it is printable, or -1 when no make was received or the code has no entry.
\<close>

theorem read_key_refines_queue:
  assumes "kbd_inv s"
  shows "\<exists>e s'. first_make (sm_state s) (kbd_queue s) = (e, sm_state s', kbd_queue s') \<and>
    read_key s = Ret (decode_event e, s') \<and> kbd_inv s'"
  using assms by (rule read_key_first_make)

theorem read_key_refines_queue_witness:
  "\<exists>s'. read_key (fold kbd_isr [0xF0, 0x1C, 0x1C] kbd_boot) = Ret (\<lparr>ret = 0, key = Some 65, printable = True\<rparr>, s')"
proof -
  have i: "kbd_inv (fold kbd_isr [0xF0, 0x1C, 0x1C] kbd_boot)" by (intro kbd.inv_pushes kbd_boot_inv)
  have q: "kbd_queue (fold kbd_isr [0xF0, 0x1C, 0x1C] kbd_boot) = [0xF0, 0x1C, 0x1C]"
    "sm_state (fold kbd_isr [0xF0, 0x1C, 0x1C] kbd_boot) = STATE_INIT"
    using kbd.contents_pushes [OF kbd_boot_inv(1), of "[0xF0, 0x1C, 0x1C]"]
    by (simp_all add: kbd_boot_inv) (simp add: kbd_boot_def kbd_isr_def Let_def)
  have l: "keymap_lookup basic_keymap 28 = Some 65" by (simp add: keymap_lookup_def basic_keymap_def km_def)
  have p: "(65 :: int) AND 0x100 = 0" by simp
  show ?thesis using read_key_refines_queue [OF i] l p unfolding q
    by (auto simp: decode_event_def no_event_def)
qed

end
