(* ===== verification/Clib.thy ===== *)
theory Clib
  imports Keyboard "HOL-Library.Multiset"
begin

text \<open>
  arch/i386/kernel/clib.c: the bubble sort with its swap, and getc, which waits on the keyboard.
  Array elements are compared and moved only, so the C \<^verbatim>\<open>int\<close> is an integer.
\<close>

section \<open>Bubble sort\<close>

definition swap_int :: "nat \<Rightarrow> nat \<Rightarrow> int list \<Rightarrow> int list" where
  "swap_int element1 element2 a = (let t = a ! element1; a = a[element1 := a ! element2] in a[element2 := t])"

definition bubble_pass :: "nat \<Rightarrow> int list \<Rightarrow> int list" where
  "bubble_pass last_pair a = fold (\<lambda>j a. if a ! j > a ! (j + 1) then swap_int j (j + 1) a else a) [0..<last_pair] a"

definition bubble_sort :: "int list \<Rightarrow> int list \<Rightarrow> nat \<Rightarrow> int list outcome" where
  "bubble_sort input_array output_array elements =
     (if length input_array < elements \<or> length output_array < elements then Trap
      else let output_array = take elements input_array @ drop elements output_array;
               last_pair = elements - 1
           in Ret (fold (\<lambda>i a. bubble_pass last_pair a) [0..<last_pair] output_array))"

text \<open>A pass over a list, by recursion.\<close>

fun bubble :: "int list \<Rightarrow> int list" where
  "bubble (x # y # zs) = (if x > y then y # bubble (x # zs) else x # bubble (y # zs))"
| "bubble [x] = [x]"
| "bubble [] = []"

lemma bubble_length [simp]: "length (bubble xs) = length xs"
  by (induction xs rule: bubble.induct) auto

lemma bubble_mset [simp]: "mset (bubble xs) = mset xs"
  by (induction xs rule: bubble.induct) auto

lemma bubble_ne [simp]: "bubble xs = [] \<longleftrightarrow> xs = []"
  by (metis bubble_length length_0_conv)

lemma fold_bubble:
  assumes "xs \<noteq> []"
  shows "fold (\<lambda>j a. if a ! j > a ! (j + 1) then swap_int j (j + 1) a else a)
      [length pre..<length pre + length xs - 1] (pre @ xs @ post) = pre @ bubble xs @ post"
  using assms
proof (induction xs arbitrary: pre rule: bubble.induct)
  case (1 x y zs)
  have u: "[length pre..<length pre + length (x # y # zs) - 1] =
      length pre # [length (pre @ [w])..<length (pre @ [w]) + length (v # zs) - 1]" for w v
    by (subst upt_conv_Cons) simp_all
  show ?case
  proof (cases "x > y")
    case True
    then have "swap_int (length pre) (length pre + 1) (pre @ (x # y # zs) @ post) = (pre @ [y]) @ (x # zs) @ post"
      by (simp add: swap_int_def Let_def list_update_append nth_append)
    then show ?thesis using 1(1) [of "pre @ [y]"] True unfolding u [of y x] by (simp add: nth_append del: upt_Suc)
  next
    case False
    then show ?thesis using 1(2) [of "pre @ [x]"] unfolding u [of x y] by (simp add: nth_append del: upt_Suc)
  qed
qed simp_all

lemma bubble_pass_bubble: "xs \<noteq> [] \<Longrightarrow> bubble_pass (length xs - 1) (xs @ post) = bubble xs @ post"
  using fold_bubble [of xs "[]" post] by (simp add: bubble_pass_def)

lemma bubble_last_max: "xs \<noteq> [] \<Longrightarrow> \<forall>x \<in> set xs. x \<le> last (bubble xs)"
  by (induction xs rule: bubble.induct) auto

lemma bubble_sorted_tail:
  "xs \<noteq> [] \<Longrightarrow> sorted ys \<Longrightarrow> \<forall>x \<in> set xs. \<forall>y \<in> set ys. x \<le> y \<Longrightarrow> bubble (xs @ ys) = bubble xs @ ys"
proof (induction xs rule: bubble.induct)
  case (2 x)
  have "bubble (x # ys) = x # ys" if "sorted (x # ys)" using that by (induction ys arbitrary: x) auto
  then show ?case using 2 by auto
qed auto

text \<open>After \<open>i\<close> passes the last \<open>i\<close> elements are in place.\<close>

definition tail_sorted :: "nat \<Rightarrow> int list \<Rightarrow> bool" where
  "tail_sorted i xs \<longleftrightarrow> (\<exists>a b. xs = a @ b \<and> length b = i \<and> sorted b \<and> (\<forall>x \<in> set a. \<forall>y \<in> set b. x \<le> y))"

lemma tail_sorted_bubble:
  assumes "tail_sorted i xs" and "i < length xs"
  shows "tail_sorted (Suc i) (bubble xs)"
proof -
  obtain a b where ab: "xs = a @ b" "length b = i" "sorted b" "\<forall>x \<in> set a. \<forall>y \<in> set b. x \<le> y"
    using assms(1) unfolding tail_sorted_def by blast
  then have a: "a \<noteq> []" using assms(2) by auto
  define c where "c = bubble a"
  have c: "c \<noteq> []" "set c = set a" "\<forall>x \<in> set c. x \<le> last c"
    using a bubble_last_max [OF a] by (auto simp: c_def simp flip: set_mset_mset)
  have "bubble xs = butlast c @ last c # b"
    using bubble_sorted_tail [OF a ab(3,4)] c(1) by (simp add: ab(1) c_def)
  moreover have "sorted (last c # b)" using ab(3,4) c last_in_set [OF c(1)] by auto
  moreover have "\<forall>x \<in> set (butlast c). \<forall>y \<in> set (last c # b). x \<le> y" using ab(4) c by (auto dest: in_set_butlastD)
  ultimately show ?thesis using ab(2) unfolding tail_sorted_def by (metis length_Cons)
qed

lemma passes:
  "i \<le> length xs \<Longrightarrow> \<exists>ys. fold (\<lambda>i a. bubble_pass (length xs - 1) a) [0..<i] (xs @ post) = ys @ post \<and>
     length ys = length xs \<and> mset ys = mset xs \<and> tail_sorted i ys"
proof (induction i)
  case 0
  then show ?case by (auto simp: tail_sorted_def)
next
  case (Suc i)
  then obtain ys where ys: "fold (\<lambda>i a. bubble_pass (length xs - 1) a) [0..<i] (xs @ post) = ys @ post"
    "length ys = length xs" "mset ys = mset xs" "tail_sorted i ys" by auto
  have ne: "ys \<noteq> []" using Suc.prems ys(2) by auto
  show ?case
    using ys bubble_pass_bubble [OF ne, of post] tail_sorted_bubble [OF ys(4)] Suc.prems
    by (intro exI [of _ "bubble ys"]) auto
qed

text \<open>
  bubble_sort stores in the first elements of its output a sorted permutation of the elements
  of its input, and leaves the rest of the output as it was.
\<close>

theorem bubble_sort_sorts:
  assumes "n \<le> length xs" and "n \<le> length out"
  shows "\<exists>ys. bubble_sort xs out n = Ret (ys @ drop n out) \<and> sorted ys \<and> mset ys = mset (take n xs)"
proof -
  let ?xs = "take n xs"
  have l: "length ?xs = n" using assms by simp
  obtain ys where ys: "fold (\<lambda>i a. bubble_pass (n - 1) a) [0..<n - 1] (?xs @ drop n out) = ys @ drop n out"
    "length ys = n" "mset ys = mset ?xs" "tail_sorted (n - 1) ys"
    using passes [of "n - 1" ?xs "drop n out"] l assms(1) by auto
  obtain a b where ab: "ys = a @ b" "length b = n - 1" "sorted b" "\<forall>x \<in> set a. \<forall>y \<in> set b. x \<le> y"
    using ys(4) unfolding tail_sorted_def by blast
  have "length a \<le> 1" using ab(1,2) ys(2) by auto
  then have "sorted ys" using ab by (cases a) auto
  then show ?thesis using ys assms by (simp add: bubble_sort_def)
qed

theorem bubble_sort_sorts_witness:
  "\<exists>ys. bubble_sort [3, -1, 2] [0, 0, 0, 9] 3 = Ret (ys @ [9]) \<and> sorted ys \<and> mset ys = {#3, -1, 2#}"
  using bubble_sort_sorts [of 3 "[3, -1, 2]" "[0, 0, 0, 9]"] by simp

section \<open>getc\<close>

text \<open>
  getc polls read_key. The bytes that the keyboard interrupt delivers before each poll are the
  argument; \<open>Ret None\<close> says that getc is still polling when they are used up.
\<close>

fun getc :: "u8 list list \<Rightarrow> kbd \<Rightarrow> (u8 \<times> kbd) option outcome" where
  "getc [] s = Ret None"
| "getc (b # bs) s =
     obind (read_key (fold kbd_isr b s)) (\<lambda>(r, s).
       if ret r = 0 \<and> printable r
       then Ret (case key r of Some ch \<Rightarrow> Some (word_of_int ch, s) | None \<Rightarrow> None)
       else getc bs s)"

lemma read_key_total:
  assumes "kbd_inv s"
  shows "\<exists>e s'. first_make (sm_state s) (kbd_queue s) = (e, sm_state s', kbd_queue s') \<and>
    read_key s = Ret (decode_event e, s') \<and> kbd_inv s'"
proof -
  obtain e s' where "parse_loop s = Some (e, s')" "kbd_inv s'" "ev_repeat e \<longrightarrow> ev_make e"
    "first_make (sm_state s) (kbd_queue s) = (e, sm_state s', kbd_queue s')"
    using parse_loop_first_make [OF assms] by blast
  then show ?thesis by (auto simp: read_key_def read_key_of_decodes)
qed

lemma getc_idle:
  assumes "kbd_inv s" and "kbd_queue s = []"
  shows "\<exists>s'. getc (replicate n [] @ bs) s = getc bs s' \<and> kbd_inv s' \<and> kbd_queue s' = [] \<and> sm_state s' = sm_state s"
  using assms
proof (induction n arbitrary: s)
  case (Suc n)
  then obtain s' where "read_key s = Ret (decode_event no_event, s')" "kbd_inv s'" "kbd_queue s' = []" "sm_state s' = sm_state s"
    using read_key_total [OF Suc.prems(1)] by auto
  then show ?case using Suc.IH [of s'] by (auto simp: decode_event_def no_event_def)
qed auto

text \<open>
  Getc waits for a key and returns it: from the idle state, after any number of polls without
  input, the make code of a printable key of the basic table is returned as its character, and the
  buffer is empty and well formed again.
\<close>

theorem getc_returns_typed_key:
  assumes "kbd_inv s" and "kbd_queue s = []" and "sm_state s = STATE_INIT" and "plain_code c"
    and "keymap_lookup basic_keymap (uint c) = Some ch" and "ch AND 0x100 = 0"
  shows "\<exists>s'. getc (replicate n [] @ [c] # bs) s = Ret (Some (word_of_int ch, s')) \<and> kbd_inv s' \<and> kbd_queue s' = []"
proof -
  obtain t where t: "getc (replicate n [] @ [c] # bs) s = getc ([c] # bs) t" "kbd_inv t" "kbd_queue t = []" "sm_state t = STATE_INIT"
    using getc_idle [OF assms(1,2)] assms(3) by metis
  have q: "kbd_inv (kbd_isr c t)" "kbd_queue (kbd_isr c t) = [c]" "sm_state (kbd_isr c t) = STATE_INIT"
    using t kbd_isr_inv kbd_isr_queue by (auto simp: kbd_isr_def Let_def)
  define e where "e = no_event\<lparr>ev_o := uint c, ev_make := True, ev_basic := True\<rparr>"
  have "first_make STATE_INIT [c] = (e, STATE_BASIC_BREAK_EXPEC, [])"
    using assms(4) by (simp add: plain_code_def e_def)
  then obtain s' where s': "read_key (kbd_isr c t) = Ret (decode_event e, s')" "kbd_inv s'" "kbd_queue s' = []"
    using read_key_total [OF q(1)] q by auto
  have "decode_event e = \<lparr>ret = 0, key = Some ch, printable = True\<rparr>"
    using assms(5,6) by (simp add: decode_event_def e_def)
  then show ?thesis using t(1) s' by simp
qed

theorem getc_returns_typed_key_witness: "\<exists>s'. getc [[], [], [0x1C]] kbd_boot = Ret (Some (65, s'))"
proof -
  have k: "keymap_lookup basic_keymap 28 = Some 65" by (simp add: keymap_lookup_def basic_keymap_def km_def)
  have p: "(65 :: int) AND 0x100 = 0" by simp
  from getc_returns_typed_key [OF kbd_boot_inv, of "0x1C" 65 "Suc (Suc 0)" "[]"] show ?thesis
    using k p by (auto simp: plain_code_def simp del: getc.simps)
qed

end
