(* ===== verification/Stdlib.thy ===== *)
theory Stdlib
  imports Prelude
begin

text \<open>
  Number parsing, lib/libc/stdlib.c, with the character classes of include/ganoid/ctype.h: atoi,
  the base detection, and simple_strtoull with its callers. A pointer into a C string is the list
  of the characters from there up to the terminator, so \<open>deref []\<close> is the terminating zero. Values
  are kept at the width of the C types, 32 bits for \<^verbatim>\<open>int\<close> and 64 for \<^verbatim>\<open>unsigned long long\<close>.
\<close>

section \<open>Character classes\<close>

abbreviation ascii :: "char \<Rightarrow> nat" where "ascii c \<equiv> of_char c"

definition deref :: "string \<Rightarrow> char" where
  "deref s = (case s of [] \<Rightarrow> CHR 0x00 | c # _ \<Rightarrow> c)"

definition isdigit :: "char \<Rightarrow> bool" where
  "isdigit c \<longleftrightarrow> 48 \<le> ascii c \<and> ascii c \<le> 57"

definition ishexchar :: "char \<Rightarrow> bool" where
  "ishexchar c \<longleftrightarrow> 65 \<le> ascii c \<and> ascii c \<le> 70"

definition isxdigit :: "char \<Rightarrow> bool" where
  "isxdigit c \<longleftrightarrow> isdigit c \<or> ishexchar c"

definition isspace :: "char \<Rightarrow> bool" where
  "isspace c \<longleftrightarrow> c = CHR '' ''"

text \<open>The macros take a signed \<^verbatim>\<open>char\<close>; the disjunctions are the source's.\<close>

definition isupper :: "int \<Rightarrow> bool" where
  "isupper c \<longleftrightarrow> c \<ge> 65 \<or> c \<le> 90"

definition islower :: "int \<Rightarrow> bool" where
  "islower c \<longleftrightarrow> c \<ge> 97 \<or> c \<le> 122"

definition toupper :: "int \<Rightarrow> int" where
  "toupper c = (if islower c then c AND NOT 0x20 else c)"

definition tolower :: "int \<Rightarrow> int" where
  "tolower c = (if isupper c then c OR 0x20 else c)"

lemma deref_simps [simp]: "deref [] = CHR 0x00" "deref (c # s) = c"
  by (simp_all add: deref_def)

lemma nul_no_digit [simp]: "\<not> isdigit CHR 0x00" "\<not> ishexchar CHR 0x00" "\<not> isxdigit CHR 0x00" "\<not> isspace CHR 0x00"
  by (simp_all add: isdigit_def ishexchar_def isxdigit_def isspace_def)

lemma isdigit_chars: "isdigit c \<longleftrightarrow> c \<in> set ''0123456789''"
proof
  assume "isdigit c"
  then have "48 \<le> ascii c" "ascii c \<le> 57" by (simp_all add: isdigit_def)
  then have "ascii c = ascii CHR ''0'' \<or> ascii c = ascii CHR ''1'' \<or> ascii c = ascii CHR ''2'' \<or> ascii c = ascii CHR ''3'' \<or>
    ascii c = ascii CHR ''4'' \<or> ascii c = ascii CHR ''5'' \<or> ascii c = ascii CHR ''6'' \<or> ascii c = ascii CHR ''7'' \<or>
    ascii c = ascii CHR ''8'' \<or> ascii c = ascii CHR ''9''"
    by (simp del: of_char_eq_iff) presburger
  then show "c \<in> set ''0123456789''" unfolding of_char_eq_iff by simp
qed (auto simp: isdigit_def)

section \<open>Decimal numbers: atoi\<close>

text \<open>The loop that counts the digits at the start of the string.\<close>

fun digit_run :: "string \<Rightarrow> nat" where
  "digit_run [] = 0"
| "digit_run (c # s) = (if c = CHR 0x00 then 0 else if isdigit c then Suc (digit_run s) else 0)"

text \<open>The backward loop: \<open>k\<close> is the index of \<^verbatim>\<open>nptr\<close>, \<open>i\<close> the digits that are left.\<close>

fun atoi_loop :: "string \<Rightarrow> nat \<Rightarrow> nat \<Rightarrow> u32 \<Rightarrow> u32 \<Rightarrow> u32 outcome" where
  "atoi_loop s 0 k t val = Ret val"
| "atoi_loop s (Suc i) k t val =
     (if length s \<le> k then Trap
      else if \<not> isdigit (s ! k) then Hang
      else atoi_loop s i (k - 1) (t * 10) (val + (of_nat (ascii (s ! k)) AND 0x0F) * t))"

definition atoi :: "string \<Rightarrow> u32 outcome" where
  "atoi s =
     (let (flag, p) = (if deref s = CHR ''+'' then (False, 1)
                       else if deref s = CHR ''-'' then (True, 1) else (False, 0));
          i = digit_run (drop p s)
      in obind (atoi_loop s i (p + i - 1) 1 0) (\<lambda>val. Ret (if flag then NOT val + 1 else val)))"

section \<open>Numbers in any base: simple_strtoull\<close>

definition detect_base :: "string \<Rightarrow> int \<times> string" where
  "detect_base s =
     (if deref s = CHR 0x00 then (- 1, s)
      else if deref s = CHR ''0''
      then let s = tl s
           in if deref s = CHR ''x''
              then let s = tl s in if isxdigit (deref s) then (16, s) else (- 1, s)
              else if isdigit (deref s) then (8, s) else (- 1, s)
      else (- 1, s))"

definition hex_process :: "string \<Rightarrow> int \<times> string" where
  "hex_process s =
     (if deref s = CHR 0x00 then (- 1, s)
      else let s = (if deref s = CHR ''0''
                    then let s = tl s in if deref s = CHR ''x'' then tl s else s
                    else s)
           in if isxdigit (deref s) then (0, s) else (- 1, s))"

definition is_correct_digit :: "char \<Rightarrow> int \<Rightarrow> bool" where
  "is_correct_digit d base =
     (if base = 10 then isdigit d
      else if base = 16 then isxdigit d
      else if base = 2 then d = CHR ''0'' \<or> d = CHR ''1''
      else isdigit d \<and> int (ascii d) - 0x30 < base)"

text \<open>The loops stop at the terminator: it is no digit of any base, no space and no zero.\<close>

fun strto_loop :: "int \<Rightarrow> u32 \<Rightarrow> u64 \<Rightarrow> string \<Rightarrow> u64 \<times> string" where
  "strto_loop base mul num [] = (num, [])"
| "strto_loop base mul num (c # s) =
     (if is_correct_digit c base
      then let digit = (of_nat (ascii c) :: u32);
               digit = (if base = 16
                        then if ishexchar c then digit - 65 + 10 else digit - 0x30
                        else digit - 0x30)
           in strto_loop base (word_of_int base) (num * ucast mul + ucast digit) s
      else (num, c # s))"

text \<open>
  The result is the number and what is stored through \<^verbatim>\<open>endptr\<close>, \<open>None\<close> when nothing is stored.
\<close>

definition simple_strtoull :: "string option \<Rightarrow> int \<Rightarrow> u64 \<times> string option" where
  "simple_strtoull nptr base = (case nptr of
     None \<Rightarrow> (0, None)
   | Some s \<Rightarrow>
      if base > 36 \<or> base < 0 \<or> base = 1 then (0, None)
      else
        let s = dropWhile isspace s;
            (neg_sign, s) = (if deref s = CHR ''+'' then (False, tl s)
                             else if deref s = CHR ''-'' then (True, tl s) else (False, s));
            (base, s) = (if base = 0 then detect_base s else (base, s))
        in if base = - 1 then (0, None)
           else let (err, s) = (if base = 16 then hex_process s else (0, s))
                in if err \<noteq> 0 then (0, None)
                   else let s = dropWhile (\<lambda>c. c = CHR ''0'') s;
                            (num, s) = strto_loop base 1 0 s
                        in (if neg_sign then NOT num + 1 else num, Some s))"

definition simple_strtoul :: "string option \<Rightarrow> int \<Rightarrow> u32 \<times> string option" where
  "simple_strtoul nptr base = (case simple_strtoull nptr base of (n, e) \<Rightarrow> (ucast n, e))"

section \<open>What the digits mean\<close>

text \<open>The value of a digit, and of a list of digits by Horner's rule, over the integers.\<close>

definition digit_val :: "char \<Rightarrow> int" where
  "digit_val c = (if ishexchar c then int (ascii c) - 55 else int (ascii c) - 48)"

definition horner :: "int \<Rightarrow> string \<Rightarrow> int" where
  "horner base ds = foldl (\<lambda>n c. n * base + digit_val c) 0 ds"

lemma horner_snoc [simp]: "horner b (ds @ [c]) = horner b ds * b + digit_val c"
  by (simp add: horner_def)

lemma horner_Nil [simp]: "horner b [] = 0"
  by (simp add: horner_def)

lemma isdigit_val: "isdigit c \<Longrightarrow> digit_val c = int (ascii c) - 48 \<and> \<not> ishexchar c"
  by (simp add: digit_val_def isdigit_def ishexchar_def)

lemma isdigit_low: "isdigit c \<Longrightarrow> (of_nat (ascii c) :: u32) AND 0x0F = word_of_int (digit_val c)"
proof -
  assume d: "isdigit c"
  define n where "n = ascii c"
  have n: "48 \<le> n" "n \<le> 57" using d by (simp_all add: isdigit_def n_def)
  then have "n = 48 \<or> n = 49 \<or> n = 50 \<or> n = 51 \<or> n = 52 \<or> n = 53 \<or> n = 54 \<or> n = 55 \<or> n = 56 \<or> n = 57" by presburger
  then have "(of_nat n :: u32) AND 0x0F = word_of_int (int n - 48)" by auto
  then show ?thesis using isdigit_val [OF d] by (simp add: n_def)
qed

lemma digit_run_append:
  "\<forall>c \<in> set ds. isdigit c \<Longrightarrow> \<not> isdigit (deref r) \<Longrightarrow> digit_run (ds @ r) = length ds"
proof (induction ds)
  case Nil
  then show ?case by (cases r) auto
qed (auto simp: isdigit_def)

text \<open>The value that the digits \<open>ds\<close> contribute when the last one has weight \<open>t\<close>.\<close>

lemma atoi_loop_digits:
  assumes "\<forall>c \<in> set ds. isdigit c"
  shows "atoi_loop (pre @ ds @ r) (length ds) (length pre + length ds - 1) t val =
    Ret (val + t * word_of_int (horner 10 ds))"
  using assms
proof (induction ds arbitrary: r t val rule: rev_induct)
  case Nil
  then show ?case by simp
next
  case (snoc c ds)
  have nth: "(pre @ (ds @ [c]) @ r) ! (length pre + length ds) = c" by (simp add: nth_append)
  have "atoi_loop (pre @ (ds @ [c]) @ r) (length (ds @ [c])) (length pre + length (ds @ [c]) - 1) t val =
     atoi_loop (pre @ ds @ (c # r)) (length ds) (length pre + length ds - 1) (t * 10) (val + word_of_int (digit_val c) * t)"
    using snoc.prems nth by (simp add: isdigit_low)
  also have "\<dots> = Ret (val + word_of_int (digit_val c) * t + t * 10 * word_of_int (horner 10 ds))"
    using snoc.prems by (intro snoc.IH) simp
  also have "val + word_of_int (digit_val c) * t + t * 10 * word_of_int (horner 10 ds) =
     val + t * word_of_int (horner 10 (ds @ [c]))"
    by (simp add: algebra_simps)
  finally show ?case .
qed

lemma atoi_digits:
  assumes "sg \<in> {'''', ''+'', ''-''}" and "\<forall>c \<in> set ds. isdigit c" and "\<not> isdigit (deref r)"
    and "ds \<noteq> []"
  shows "atoi (sg @ ds @ r) = Ret (word_of_int ((if sg = ''-'' then - 1 else 1) * horner 10 ds))"
proof -
  have run: "digit_run (ds @ r) = length ds" using assms by (intro digit_run_append)
  obtain c ds' where ds: "ds = c # ds'" "isdigit c" using assms by (cases ds) auto
  then have c: "c \<noteq> CHR ''+''" "c \<noteq> CHR ''-''" by (auto simp: isdigit_def)
  have neg: "NOT (w :: u32) + 1 = - w" for w by (simp add: not_eq_complement)
  from assms(1) consider "sg = ''''" | "sg = ''+''" | "sg = ''-''" by auto
  then show ?thesis
  proof cases
    case 1
    then show ?thesis using atoi_loop_digits [OF assms(2), of "[]" r 1 0] run c
      by (simp add: atoi_def Let_def ds)
  qed (use atoi_loop_digits [OF assms(2), of sg r 1 0] run in \<open>simp_all add: atoi_def Let_def neg\<close>)
qed

text \<open>
  Atoi returns, for an optional sign, digits and a rest that starts with no digit, the signed
  value of the digits modulo 2^32, and it neither reads outside the string nor reaches its
  \<^verbatim>\<open>something is wrong\<close> loop.
\<close>

theorem atoi_value:
  assumes "sg \<in> {'''', ''+'', ''-''}" and "\<forall>c \<in> set ds. isdigit c" and "\<not> isdigit (deref r)"
    and "ds \<noteq> []"
  shows "atoi (sg @ ds @ r) = Ret (word_of_int ((if sg = ''-'' then - 1 else 1) * horner 10 ds))"
  using assms by (rule atoi_digits)

theorem atoi_value_witness: "atoi ''-120 kB'' = Ret (word_of_int (- 120))"
  using atoi_value [of "''-''" "''120''" "'' kB''"] by (simp add: isdigit_def horner_def digit_val_def ishexchar_def)

section \<open>simple_strtoull\<close>

lemma ucast_wi: "0 \<le> x \<Longrightarrow> x < 2 ^ 32 \<Longrightarrow> ucast (word_of_int x :: u32) = (word_of_int x :: u64)"
  by (simp add: unsigned_of_int take_bit_int_eq_self)

lemma correct_digit_val:
  assumes "is_correct_digit c b" and "2 \<le> b"
  shows "0 \<le> digit_val c" "digit_val c < 2 ^ 32"
    "(if b = 16 then if ishexchar c then (of_nat (ascii c) :: u32) - 65 + 10 else of_nat (ascii c) - 0x30
      else of_nat (ascii c) - 0x30) = word_of_int (digit_val c)"
  using assms unfolding is_correct_digit_def isxdigit_def isdigit_def digit_val_def ishexchar_def
  by (auto split: if_splits)

lemma strto_loop_digits:
  assumes "\<forall>c \<in> set ds. is_correct_digit c b" and "\<not> is_correct_digit (deref r) b" and "2 \<le> b" "b \<le> 36"
    and "x = 0 \<or> m = word_of_int b"
  shows "strto_loop b m (word_of_int x) (ds @ r) = (word_of_int (foldl (\<lambda>n c. n * b + digit_val c) x ds), r)"
  using assms(1,5)
proof (induction ds arbitrary: m x)
  case Nil
  then show ?case using assms(2) by (cases r) auto
next
  case (Cons c ds)
  note d = correct_digit_val [OF _ assms(3), of c]
  have "word_of_int x * ucast m = (word_of_int (x * b) :: u64)"
    using Cons.prems(2) assms(3,4) by (auto simp: ucast_wi)
  then have step: "strto_loop b m (word_of_int x) (c # ds @ r) =
      strto_loop b (word_of_int b) (word_of_int (x * b + digit_val c)) (ds @ r)"
    using Cons.prems(1) d ucast_wi [of "digit_val c"]
    by (simp del: of_int_mult of_int_of_nat_eq add: Let_def)
  then show ?case using Cons.IH [of "x * b + digit_val c" "word_of_int b"] Cons.prems by simp
qed

lemma horner_zeros:
  "foldl (\<lambda>n c. n * b + digit_val c) 0 (dropWhile (\<lambda>c. c = CHR ''0'') ds) = horner b ds"
proof (induction ds)
  case (Cons c ds)
  then show ?case by (auto simp: horner_def digit_val_def ishexchar_def)
qed simp

lemma zero_correct: "2 \<le> b \<Longrightarrow> is_correct_digit CHR ''0'' b"
  by (simp add: is_correct_digit_def isdigit_def isxdigit_def)

lemma dropWhile_zeros:
  assumes "\<not> is_correct_digit (deref r) b" and "2 \<le> b"
  shows "dropWhile (\<lambda>c. c = CHR ''0'') (ds @ r) = dropWhile (\<lambda>c. c = CHR ''0'') ds @ r"
proof -
  have "dropWhile (\<lambda>c. c = CHR ''0'') r = r" using assms zero_correct by (cases r) auto
  then show ?thesis by (induction ds) auto
qed

lemma strto_tail:
  assumes "\<forall>c \<in> set ds. is_correct_digit c b" and "\<not> is_correct_digit (deref r) b" and "2 \<le> b" "b \<le> 36"
  shows "strto_loop b 1 0 (dropWhile (\<lambda>c. c = CHR ''0'') (ds @ r)) = (word_of_int (horner b ds), r)"
  using strto_loop_digits [where x = 0 and m = 1, OF _ assms(2-4), of "dropWhile (\<lambda>c. c = CHR ''0'') ds"] assms(1)
  by (auto simp: dropWhile_zeros [OF assms(2,3)] horner_zeros dest: set_dropWhileD)

lemma correct_no_sign:
  "is_correct_digit c b \<Longrightarrow> c \<noteq> CHR ''+'' \<and> c \<noteq> CHR ''-'' \<and> \<not> isspace c \<and> c \<noteq> CHR ''x'' \<and> c \<noteq> CHR 0x00"
  by (auto simp: is_correct_digit_def isdigit_def isxdigit_def ishexchar_def isspace_def split: if_splits)

lemma strtoull_front:
  assumes "\<forall>c \<in> set sp. isspace c" and "sg \<in> {'''', ''+'', ''-''}" and "is_correct_digit (deref s) b'"
  shows "dropWhile isspace (sp @ sg @ s) = sg @ s"
    and "(if deref (sg @ s) = CHR ''+'' then (False, tl (sg @ s))
          else if deref (sg @ s) = CHR ''-'' then (True, tl (sg @ s)) else (False, sg @ s)) = (sg = ''-'', s)"
proof -
  have s: "deref s \<noteq> CHR ''+''" "deref s \<noteq> CHR ''-''" "\<not> isspace (deref s)"
    using correct_no_sign [OF assms(3)] by auto
  have "dropWhile isspace (sg @ s) = sg @ s"
    using assms(2) s(3) by (cases s) (auto simp: isspace_def)
  then show "dropWhile isspace (sp @ sg @ s) = sg @ s" using assms(1) by (induction sp) auto
  show "(if deref (sg @ s) = CHR ''+'' then (False, tl (sg @ s))
          else if deref (sg @ s) = CHR ''-'' then (True, tl (sg @ s)) else (False, sg @ s)) = (sg = ''-'', s)"
    using assms(2) s(1,2) by auto
qed

lemma strtoull_digits:
  assumes "2 \<le> b" and "b \<le> 36" and "b \<noteq> 16" and "\<forall>c \<in> set sp. isspace c" and "sg \<in> {'''', ''+'', ''-''}"
    and "\<forall>c \<in> set ds. is_correct_digit c b" and "\<not> is_correct_digit (deref r) b" and "ds \<noteq> []"
  shows "simple_strtoull (Some (sp @ sg @ ds @ r)) b =
    (word_of_int ((if sg = ''-'' then - 1 else 1) * horner b ds), Some r)"
proof -
  have "is_correct_digit (deref (ds @ r)) b" using assms(6,8) by (cases ds) auto
  note front = strtoull_front [OF assms(4,5) this]
  have neg: "NOT (w :: u64) + 1 = - w" for w by (simp add: not_eq_complement)
  show ?thesis
    using assms(1-3) unfolding simple_strtoull_def
    by (simp only: option.case Let_def front prod.case) (simp add: strto_tail [OF assms(6,7,1,2)] neg)
qed

text \<open>
  For every base from 2 to 36 but 16, simple_strtoull skips spaces, takes an optional sign and
  the longest run of digits of the base, and returns their signed value modulo 2^64, storing the
  rest of the string through endptr. (Of the digits beyond 9 none is accepted: base 36 still reads
  decimal digits only.)
\<close>

theorem simple_strtoull_value:
  assumes "2 \<le> b" and "b \<le> 36" and "b \<noteq> 16" and "\<forall>c \<in> set sp. isspace c" and "sg \<in> {'''', ''+'', ''-''}"
    and "\<forall>c \<in> set ds. is_correct_digit c b" and "\<not> is_correct_digit (deref r) b" and "ds \<noteq> []"
  shows "simple_strtoull (Some (sp @ sg @ ds @ r)) b =
    (word_of_int ((if sg = ''-'' then - 1 else 1) * horner b ds), Some r)"
  using assms by (rule strtoull_digits)

theorem simple_strtoull_value_witness:
  "simple_strtoull (Some ''  -0755;'') 8 = (word_of_int (- 493), Some '';'')"
  using simple_strtoull_value [of 8 "''  ''" "''-''" "''0755''" "'';''"]
  by (simp add: is_correct_digit_def isdigit_def isspace_def horner_def digit_val_def ishexchar_def)

lemma strtoull_hex_digits:
  assumes "\<forall>c \<in> set sp. isspace c" and "sg \<in> {'''', ''+'', ''-''}" and "px \<in> {'''', ''0x''}"
    and "\<forall>c \<in> set ds. isxdigit c" and "\<not> isxdigit (deref r)" and "ds \<noteq> []" and "px = '''' \<longrightarrow> ds \<noteq> ''0''"
  shows "simple_strtoull (Some (sp @ sg @ px @ ds @ r)) 16 =
    (word_of_int ((if sg = ''-'' then - 1 else 1) * horner 16 ds), Some r)"
proof -
  have x: "is_correct_digit c 16 = isxdigit c" for c by (simp add: is_correct_digit_def)
  obtain c ds' where ds: "ds = c # ds'" "isxdigit c" using assms(4,6) by (cases ds) auto
  have "isxdigit CHR ''0''" by (simp add: isxdigit_def isdigit_def)
  then have "is_correct_digit (deref (px @ ds @ r)) 16" using assms(3) ds by (auto simp: x)
  note front = strtoull_front [OF assms(1,2) this]
  have c: "c \<noteq> CHR ''x''" "c \<noteq> CHR 0x00" using correct_no_sign [of c 16] ds by (auto simp: x)
  have ds2: "ds' = [] \<longrightarrow> px \<noteq> '''' \<or> c \<noteq> CHR ''0''" using assms(7) ds by auto
  have c2: "isxdigit (hd ds') \<and> hd ds' \<noteq> CHR ''x''" if "ds' \<noteq> []"
    using assms(4) correct_no_sign [of "hd ds'" 16] that ds(1) by (auto simp: x)
  have hex: "hex_process (px @ ds @ r) = (0, if px = ''0x'' \<or> c \<noteq> CHR ''0'' then ds @ r else ds' @ r)"
    using assms(3) ds c ds2 c2 by (cases ds') (auto simp: hex_process_def Let_def)
  have tail: "strto_loop 16 1 0 (dropWhile (\<lambda>c. c = CHR ''0'') (if px = ''0x'' \<or> c \<noteq> CHR ''0'' then ds @ r else ds' @ r)) =
      (word_of_int (horner 16 ds), r)"
    using strto_tail [of ds 16 r] assms(4,5) by (auto simp: x ds(1))
  have neg: "NOT (w :: u64) + 1 = - w" for w by (simp add: not_eq_complement)
  show ?thesis
    unfolding simple_strtoull_def
    by (simp only: option.case Let_def front prod.case hex tail) (simp add: hex tail neg del: dropWhile.simps)
qed

text \<open>
  In base 16 the digits may follow a prefix 0x and the value is again the signed value modulo
  2^64, for upper case digits, unless the number is a single 0 without prefix.
\<close>

theorem simple_strtoull_hex:
  assumes "\<forall>c \<in> set sp. isspace c" and "sg \<in> {'''', ''+'', ''-''}" and "px \<in> {'''', ''0x''}"
    and "\<forall>c \<in> set ds. isxdigit c" and "\<not> isxdigit (deref r)" and "ds \<noteq> []" and "px = '''' \<longrightarrow> ds \<noteq> ''0''"
  shows "simple_strtoull (Some (sp @ sg @ px @ ds @ r)) 16 =
    (word_of_int ((if sg = ''-'' then - 1 else 1) * horner 16 ds), Some r)"
  using assms by (rule strtoull_hex_digits)

theorem simple_strtoull_hex_witness:
  "simple_strtoull (Some ''0x1F '') 16 = (31, Some '' '')"
  using simple_strtoull_hex [of "''''" "''''" "''0x''" "''1F''" "'' ''"]
  by (simp add: isxdigit_def ishexchar_def isdigit_def horner_def digit_val_def)

text \<open>
  With base 0 (detect the base) a plain decimal number is not recognised: the result is 0 and
  nothing is stored through endptr, although the C function reads it in base 10.
\<close>

theorem simple_strtoull_base0_rejects_decimal:
  assumes "isdigit c" and "c \<noteq> CHR ''0''"
  shows "simple_strtoull (Some (c # s)) 0 = (0, None)"
proof -
  have "is_correct_digit c 10" using assms(1) by (simp add: is_correct_digit_def)
  from correct_no_sign [OF this] have "dropWhile isspace (c # s) = c # s" "c \<noteq> CHR ''+''" "c \<noteq> CHR ''-''" by auto
  then show ?thesis using assms(2) by (auto simp: simple_strtoull_def detect_base_def Let_def)
qed

theorem simple_strtoull_base0_rejects_decimal_witness: "simple_strtoull (Some ''42'') 0 = (0, None)"
  using simple_strtoull_base0_rejects_decimal [of "CHR ''4''" "''2''"] by (simp add: isdigit_def)

text \<open>The case macros change every character: their range tests are always true.\<close>

lemma toupper_clears_bit: "toupper c = c AND NOT 0x20" "tolower c = c OR 0x20"
  by (auto simp: toupper_def tolower_def islower_def isupper_def)

end
