(* ===== verification/Vsprintf.thy ===== *)
theory Vsprintf
  imports Stdlib "HOL-Library.Signed_Division"
begin

text \<open>
  Formatted output, lib/libc/vsprintf.c, and its user lib/utils.c: itoa, the parts of the format
  parser, realize_string, vsprintf with sprintf and printk, and print_human_readable_size. Strings
  are lists of characters without the terminator; the output buffer is the text written so far,
  and the variable arguments are a list of integers and strings. A write outside
  \<^verbatim>\<open>str[100]\<close> of realize_string or \<^verbatim>\<open>pbuf[1000]\<close> of printk is a trap.
\<close>

section \<open>itoa\<close>

definition carray :: string where "carray = ''0123456789ABCDEF''"

text \<open>\<^verbatim>\<open>for (i = 1; uvalue /= base; i++)\<close>, which is not left in base 1.\<close>

partial_function (option) itoa_count :: "u32 \<Rightarrow> u32 \<Rightarrow> nat \<Rightarrow> nat outcome option" where
  "itoa_count base uvalue i =
     (let uvalue = uvalue div base in if uvalue = 0 then Some (Ret i) else itoa_count base uvalue (i + 1))"

text \<open>\<^verbatim>\<open>for (j = i, div = 1; j; j--, div *= base)\<close>.\<close>

primrec itoa_div :: "u32 \<Rightarrow> nat \<Rightarrow> u32 \<Rightarrow> u32" where
  "itoa_div base 0 d = d"
| "itoa_div base (Suc j) d = itoa_div base j (d * base)"

text \<open>The digit loop; \<^verbatim>\<open>div\<close> is a signed \<^verbatim>\<open>long\<close>, and index 16 of the array its terminator.\<close>

partial_function (option) itoa_digits :: "u32 \<Rightarrow> u32 \<Rightarrow> u32 \<Rightarrow> string \<Rightarrow> string outcome option" where
  "itoa_digits base dv abs_value s =
     (if dv = 0 then Some (Ret s)
      else let d = abs_value div dv
           in if 16 < unat d then Some Trap
              else itoa_digits base (word_of_int (sint dv sdiv sint base)) (abs_value - d * dv)
                     (s @ [(carray @ [CHR 0x00]) ! unat d]))"

definition itoa_zeros :: "u32 \<Rightarrow> nat \<Rightarrow> nat" where
  "itoa_zeros fieldwidth no_of_digits =
     (if sint fieldwidth > 0
      then if sint (fieldwidth - of_nat no_of_digits) < 0 then 0
           else nat (sint (fieldwidth - of_nat no_of_digits))
      else 0)"

definition itoa_dots :: "u32 \<Rightarrow> nat \<Rightarrow> nat" where
  "itoa_dots fieldwidth no_of_digits =
     (if sint fieldwidth < 0
      then if sint (- fieldwidth - of_nat no_of_digits) < 0 then 0
           else nat (sint (- fieldwidth - of_nat no_of_digits))
      else 0)"

definition itoa :: "u32 \<Rightarrow> u32 \<Rightarrow> bool \<Rightarrow> u32 \<Rightarrow> string outcome" where
  "itoa v base unsignedvalue fieldwidth =
     (let neg = (v AND 0x80000000 \<noteq> 0 \<and> base \<noteq> 16 \<and> base \<noteq> 2 \<and> \<not> unsignedvalue);
          str = (if neg then ''-'' else '''');
          abs_value = (if neg then NOT v + 1 else v)
      in if base = 0 then Trap
         else obind (of_loop (itoa_count base abs_value 1)) (\<lambda>no_of_digits.
              obind (of_loop (itoa_digits base (itoa_div base (no_of_digits - 1) 1) abs_value
                               (str @ replicate (itoa_zeros fieldwidth no_of_digits) CHR ''0'')))
                (\<lambda>s. Ret (s @ replicate (itoa_dots fieldwidth no_of_digits) CHR ''.''))))"

section \<open>The format parser\<close>

definition ZEROPAD :: u32 where "ZEROPAD = 1"
definition PLUS :: u32 where "PLUS = 4"
definition SPACE :: u32 where "SPACE = 8"
definition LEFT :: u32 where "LEFT = 16"
definition SPECIAL :: u32 where "SPECIAL = 32"

fun uptonext :: "string \<Rightarrow> string \<Rightarrow> int \<times> string \<times> string" where
  "uptonext buf [] = (- 1, buf, [])"
| "uptonext buf (c # fmt) = (if c = CHR ''%'' then (0, buf, c # fmt) else uptonext (buf @ [c]) fmt)"

fun getflags :: "u32 \<Rightarrow> string \<Rightarrow> u32 \<times> string" where
  "getflags flags [] = (flags, [])"
| "getflags flags (c # fmt) =
     (if c = CHR ''-'' then getflags (flags OR LEFT) fmt
      else if c = CHR ''+'' then getflags (flags OR PLUS) fmt
      else if c = CHR '' '' then getflags (flags OR SPACE) fmt
      else if c = CHR ''#'' then getflags (flags OR SPECIAL) fmt
      else if c = CHR ''0'' then getflags (flags OR ZEROPAD) fmt
      else (flags, c # fmt))"

fun get_value_loop :: "string \<Rightarrow> nat \<Rightarrow> nat \<Rightarrow> u32 \<Rightarrow> u32 \<Rightarrow> u32" where
  "get_value_loop s 0 k t val = val"
| "get_value_loop s (Suc i) k t val =
     get_value_loop s i (k - 1) (t * 10) (val + (of_nat (ascii (s ! k)) AND 0x0F) * t)"

definition get_value :: "string \<Rightarrow> u32 \<times> string" where
  "get_value fmt = (let i = digit_run fmt in (get_value_loop fmt i (i - 1) 1 0, drop i fmt))"

definition get_lengthmodifier :: "string \<Rightarrow> char option \<times> string" where
  "get_lengthmodifier fmt = (if deref fmt = CHR ''l'' then (Some (deref fmt), tl fmt) else (None, fmt))"

definition get_conv_specifier :: "string \<Rightarrow> char option" where
  "get_conv_specifier fmt =
     (if deref fmt \<in> {CHR ''d'', CHR ''i''} then Some CHR ''d''
      else if deref fmt \<in> set ''ouxXpcs'' then Some (deref fmt)
      else None)"

section \<open>vsprintf\<close>

text \<open>
  An argument of the wrong kind, or a missing one, is undefined in C: a trap. (An integer
  conversion of a string argument would print its address, which the model does not have.)
\<close>

datatype vararg = VInt u32 | VStr string

definition str_buf :: "nat \<Rightarrow> string outcome \<Rightarrow> string outcome" where
  "str_buf off r = obind r (\<lambda>s. if off + length s < 100 then Ret (takeWhile (\<lambda>c. c \<noteq> CHR 0x00) s) else Trap)"

definition realize_string :: "string \<Rightarrow> u32 \<Rightarrow> char option \<Rightarrow> vararg list \<Rightarrow> (string \<times> vararg list) outcome" where
  "realize_string buf fieldwidth conv vl =
     (case conv of
        None \<Rightarrow> Hang
      | Some c \<Rightarrow>
         if c = CHR ''s'' then (case vl of VStr s # vl \<Rightarrow> Ret (buf @ s, vl) | _ \<Rightarrow> Trap)
         else if c = CHR ''d'' then (case vl of
             VInt v # vl \<Rightarrow> obind (str_buf 0 (itoa v 10 False fieldwidth)) (\<lambda>s. Ret (buf @ s, vl)) | _ \<Rightarrow> Trap)
         else if c = CHR ''p'' then (case vl of
             VInt v # vl \<Rightarrow> obind (str_buf 2 (itoa v 16 True fieldwidth)) (\<lambda>s. Ret (buf @ ''0x'' @ s, vl)) | _ \<Rightarrow> Trap)
         else if c = CHR ''x'' then (case vl of
             VInt v # vl \<Rightarrow> obind (str_buf 0 (itoa v 16 True fieldwidth)) (\<lambda>s. Ret (buf @ s, vl)) | _ \<Rightarrow> Trap)
         else if c = CHR ''u'' then (case vl of
             VInt v # vl \<Rightarrow> obind (str_buf 0 (itoa v 10 True fieldwidth)) (\<lambda>s. Ret (buf @ s, vl)) | _ \<Rightarrow> Trap)
         else if c = CHR ''c'' then (case vl of
             VInt v # vl \<Rightarrow> Ret (buf @ [char_of (unat v)], vl) | _ \<Rightarrow> Trap)
         else Hang)"

text \<open>The field width: digits, an argument, or what the last conversion left.\<close>

definition field_width :: "string \<Rightarrow> u32 \<Rightarrow> vararg list \<Rightarrow> (u32 \<times> string \<times> vararg list) outcome" where
  "field_width fmt fieldwidth vl =
     (if isdigit (deref fmt) then (case get_value fmt of (v, fmt) \<Rightarrow> Ret (v, fmt, vl))
      else if deref fmt = CHR ''*'' then (case vl of VInt v # vl \<Rightarrow> Ret (v, tl fmt, vl) | _ \<Rightarrow> Trap)
      else Ret (fieldwidth, fmt, vl))"

definition precision_field :: "string \<Rightarrow> string" where
  "precision_field fmt = (if deref fmt = CHR ''.'' then snd (get_value (tl fmt)) else fmt)"

lemma uptonext_shorter: "length (snd (snd (uptonext buf fmt))) \<le> length fmt"
  by (induction buf fmt rule: uptonext.induct) auto

lemma getflags_shorter: "length (snd (getflags fl fmt)) \<le> length fmt"
  by (induction fl fmt rule: getflags.induct) auto

lemma field_width_shorter: "field_width fmt fw vl = Ret (fw', fmt', vl') \<Longrightarrow> length fmt' \<le> length fmt"
  by (auto simp: field_width_def get_value_def Let_def split: if_splits list.splits vararg.splits)

lemma precision_shorter: "length (precision_field fmt) \<le> length fmt"
  by (auto simp: precision_field_def get_value_def Let_def)

lemma lengthmodifier_shorter: "length (snd (get_lengthmodifier fmt)) \<le> length fmt"
  by (auto simp: get_lengthmodifier_def)

text \<open>
  The conversion loop. The result is the text in the buffer and the arguments that were not used.
\<close>

function vsprintf_loop :: "u32 \<Rightarrow> u32 \<Rightarrow> string \<Rightarrow> string \<Rightarrow> vararg list \<Rightarrow> (string \<times> vararg list) outcome" where
  "vsprintf_loop flags fieldwidth buf fmt vl =
     (case uptonext buf fmt of (r, buf, fmt) \<Rightarrow>
      if r \<noteq> 0 then Ret (buf, vl)
      else let fmt = tl fmt
           in if fmt = [] then Ret (buf, vl)
              else case getflags flags fmt of (flags, fmt) \<Rightarrow>
                obind (field_width fmt fieldwidth vl) (\<lambda>(fieldwidth, fmt, vl).
                  let fieldwidth = (if flags AND LEFT \<noteq> 0 then - fieldwidth else fieldwidth);
                      fmt = precision_field fmt;
                      fmt = snd (get_lengthmodifier fmt)
                  in obind (realize_string buf fieldwidth (get_conv_specifier fmt) vl) (\<lambda>(buf, vl).
                       vsprintf_loop flags 0 buf (tl fmt) vl)))"
  by pat_completeness auto

lemma uptonext_rest: "uptonext buf fmt = (0, buf', fmt') \<Longrightarrow> \<exists>r. fmt' = CHR ''%'' # r \<and> length r < length fmt"
  by (induction buf fmt rule: uptonext.induct) (auto split: if_splits)

lemma conversion_shorter:
  assumes "(0, buf', fmt1) = uptonext buf fmt" and "(fl', fmt2) = getflags fl (tl fmt1)"
    and "field_width fmt2 fw vl = Ret (fw', fmt3, vl')"
  shows "length (snd (get_lengthmodifier (precision_field fmt3))) - Suc 0 < length fmt"
proof -
  obtain r where r: "fmt1 = CHR ''%'' # r" "length r < length fmt" using uptonext_rest [OF assms(1) [symmetric]] by blast
  have "length fmt2 \<le> length r" using getflags_shorter [of fl r] assms(2) r(1) by (metis list.sel(3) snd_conv)
  then show ?thesis
    using r(2) field_width_shorter [OF assms(3)] precision_shorter [of fmt3] lengthmodifier_shorter [of "precision_field fmt3"]
    by linarith
qed

termination vsprintf_loop
  by (relation "measure (\<lambda>(flags, fw, buf, fmt, vl). length fmt)") (auto dest: conversion_shorter)

declare vsprintf_loop.simps [simp del]

definition vsprintf :: "string \<Rightarrow> vararg list \<Rightarrow> (string \<times> int) outcome" where
  "vsprintf fmt vl =
     obind (vsprintf_loop 0 (- 1) [] fmt vl) (\<lambda>(buf, _).
       let end_of_buf = drop (length buf) (buf @ [CHR 0x00])
       in Ret (buf, int (length (takeWhile (\<lambda>c. c \<noteq> CHR 0x00) end_of_buf))))"

definition sprintf :: "string \<Rightarrow> vararg list \<Rightarrow> (string \<times> int) outcome" where
  "sprintf fmt vl = vsprintf fmt vl"

text \<open>printk gives the text it passes to the console, and its return value.\<close>

definition printk :: "string \<Rightarrow> vararg list \<Rightarrow> (string \<times> int) outcome" where
  "printk fmt vl =
     obind (vsprintf fmt vl) (\<lambda>(pbuf, retval).
       if length pbuf < 1000 then Ret (takeWhile (\<lambda>c. c \<noteq> CHR 0x00) pbuf, retval) else Trap)"

definition print_human_readable_size :: "u32 \<Rightarrow> (string \<times> int) outcome" where
  "print_human_readable_size sz =
     (let KB = 1024; MB = 1048576; GB = 1073741824
      in if sz < KB then printk ''%d bytes\<newline>'' [VInt sz]
         else if sz < MB then printk ''%d KB\<newline>'' [VInt (sz div KB)]
         else if sz < GB then printk ''%d MB\<newline>'' [VInt (sz div MB)]
         else printk ''%d GB\<newline>'' [VInt (sz div GB)])"

section \<open>The digits that itoa writes\<close>

text \<open>The number of digits of \<open>n\<close> in base \<open>b\<close>, and its last \<open>k\<close> digits.\<close>

fun ndigits :: "nat \<Rightarrow> nat \<Rightarrow> nat" where
  "ndigits b n = (if b < 2 \<or> n < b then 1 else Suc (ndigits b (n div b)))"

declare ndigits.simps [simp del]

primrec digs :: "nat \<Rightarrow> nat \<Rightarrow> nat \<Rightarrow> string" where
  "digs b 0 n = []"
| "digs b (Suc j) n = carray ! (n div b ^ j) # digs b j (n mod b ^ j)"

lemma ndigits_bounds:
  assumes "2 \<le> b"
  shows "n < b ^ ndigits b n" "1 \<le> ndigits b n" "ndigits b n = 1 \<or> b ^ (ndigits b n - 1) \<le> n"
proof -
  have "n < b ^ ndigits b n \<and> 1 \<le> ndigits b n \<and> (ndigits b n = 1 \<or> b ^ (ndigits b n - 1) \<le> n)"
    using assms
  proof (induction b n rule: ndigits.induct)
    case (1 b n)
    show ?case
    proof (cases "n < b")
      case True
      then show ?thesis by (subst (1 2 3 4) ndigits.simps) simp
    next
      case False
      then have e: "ndigits b n = Suc (ndigits b (n div b))" using 1(2) by (subst ndigits.simps) simp
      have IH: "n div b < b ^ ndigits b (n div b)" "1 \<le> ndigits b (n div b)"
        "ndigits b (n div b) = 1 \<or> b ^ (ndigits b (n div b) - 1) \<le> n div b"
        using 1 False by auto
      have "n < b ^ Suc (ndigits b (n div b))"
        using IH(1) 1(2) by (simp add: div_less_iff_less_mult mult.commute)
      moreover have "b ^ ndigits b (n div b) \<le> n"
      proof (cases "ndigits b (n div b) = 1")
        case True
        then show ?thesis using False by simp
      next
        case F: False
        then have "b * b ^ (ndigits b (n div b) - 1) \<le> b * (n div b)" using IH(3) by simp
        also have "\<dots> \<le> n" by simp
        also have "b * b ^ (ndigits b (n div b) - 1) = b ^ ndigits b (n div b)"
          using IH(2) by (cases "ndigits b (n div b)") auto
        finally show ?thesis .
      qed
      ultimately show ?thesis by (simp add: e)
    qed
  qed
  then show "n < b ^ ndigits b n" "1 \<le> ndigits b n" "ndigits b n = 1 \<or> b ^ (ndigits b n - 1) \<le> n" by auto
qed

lemma unat_div_word: "unat ((w :: u32) div b) = unat w div unat b"
  by (simp add: unat_div)

lemma itoa_count_digits:
  assumes "2 \<le> unat base"
  shows "itoa_count base w i = Some (Ret (i + ndigits (unat base) (unat w) - 1))"
proof (induction "unat w" arbitrary: w i rule: less_induct)
  case less
  have z: "w div base = 0 \<longleftrightarrow> unat w < unat base"
    using assms by (simp add: word_unat_eq_iff unat_div_word Euclidean_Rings.div_eq_0_iff)
  show ?case
  proof (cases "unat w < unat base")
    case True
    then show ?thesis using z assms by (subst itoa_count.simps, subst ndigits.simps) (simp add: Let_def)
  next
    case False
    have lt: "unat (w div base) < unat w" using False assms by (simp add: unat_div_word)
    have "itoa_count base w i = itoa_count base (w div base) (i + 1)"
      using False z by (subst itoa_count.simps) (simp add: Let_def)
    also have "\<dots> = Some (Ret (i + ndigits (unat base) (unat w) - 1))"
      unfolding less [OF lt] using False assms
      by (subst (2) ndigits.simps) (simp add: unat_div_word)
    finally show ?thesis .
  qed
qed

lemma itoa_div_power: "itoa_div base j d = d * base ^ j"
  by (induction j arbitrary: d) (simp_all add: algebra_simps)

lemma carray_nth: "d < 16 \<Longrightarrow> carray ! d \<noteq> CHR 0x00 \<and> isxdigit (carray ! d) \<and> digit_val (carray ! d) = int d"
proof -
  assume "d < 16"
  then have "d \<in> set [0..<16]" by simp
  then show ?thesis by (simp add: upt_rec carray_def isxdigit_def isdigit_def ishexchar_def digit_val_def) auto
qed

lemma sint_small: "n < 2 ^ 31 \<Longrightarrow> sint (of_nat n :: u32) = int n"
  by (simp add: signed_of_nat signed_take_bit_int_eq_self)

lemma carray_length: "length carray = 16"
  by (simp add: carray_def)

lemma itoa_digits_step:
  assumes "b \<le> 16" "2 \<le> b" "b ^ j < 2 ^ 31" "n < b ^ Suc j" "n < 2 ^ 32"
  shows "itoa_digits (of_nat b) (of_nat (b ^ j)) (of_nat n) s =
    itoa_digits (of_nat b) (of_nat (b ^ j div b)) (of_nat (n mod b ^ j)) (s @ [carray ! (n div b ^ j)])"
proof -
  define B where "B = b ^ j"
  have B: "0 < B" "B < 2 ^ 31" "n < B * b" using assms by (simp_all add: B_def mult.commute)
  have db: "n div B < b" using B by (simp add: less_mult_imp_div_less mult.commute)
  have uB: "unat (of_nat B :: u32) = B" "unat (of_nat n :: u32) = n" using B assms(5) by (simp_all add: unat_of_nat take_bit_nat_eq_self)
  have d: "unat ((of_nat n :: u32) div of_nat B) = n div B" by (simp add: unat_div_word uB)
  have nz: "(of_nat B :: u32) \<noteq> 0" using uB(1) B(1) by (metis neq0_conv unat_0)
  have dv: "(of_nat n :: u32) div of_nat B = of_nat (n div B)"
  proof -
    have "n div B \<le> n" by simp
    then have "n div B < 2 ^ 32" using assms(5) by linarith
    then show ?thesis by (simp add: word_unat_eq_iff d unat_of_nat take_bit_nat_eq_self)
  qed
  have sub: "(of_nat n :: u32) - of_nat (n div B) * of_nat B = of_nat (n mod B)"
  proof -
    have "(of_nat n :: u32) = of_nat (n mod B) + of_nat (n div B) * of_nat B"
      unfolding of_nat_mult [symmetric] of_nat_add [symmetric] by simp
    then show ?thesis by (simp only: diff_eq_eq)
  qed
  have "sint (of_nat b :: u32) = int b" using assms(1) by (intro sint_small) simp
  then have sd: "word_of_int (sint (of_nat B :: u32) sdiv sint (of_nat b :: u32)) = (of_nat (B div b) :: u32)"
    using B(2) by (simp add: sint_small signed_divide_int_def sgn_if zdiv_int [symmetric])
  have ar: "(carray @ [CHR 0x00]) ! (n div B) = carray ! (n div B)"
    using db assms(1) carray_length by (simp add: nth_append)
  show ?thesis unfolding B_def [symmetric]
    using nz db assms(1) d [unfolded dv] by (subst itoa_digits.simps) (simp add: Let_def ar sd dv sub)
qed

lemma itoa_digits_digs:
  assumes "b \<le> 16" "2 \<le> b" "b ^ j < 2 ^ 31" "n < b ^ Suc j" "n < 2 ^ 32"
  shows "itoa_digits (of_nat b) (of_nat (b ^ j)) (of_nat n) s = Some (Ret (s @ digs b (Suc j) n))"
  using assms(3-5)
proof (induction j arbitrary: n s)
  case 0
  have b1: "1 div b = 0" using assms by simp
  show ?case
    using itoa_digits_step [OF assms(1,2) 0] b1 by (simp add: itoa_digits.simps [of _ 0])
next
  case (Suc j)
  have m: "n mod b ^ Suc j < b ^ Suc j" using assms by simp
  have "n mod b ^ Suc j \<le> n" by simp
  then have m': "n mod b ^ Suc j < 2 ^ 32" using Suc.prems(3) by linarith
  have "b ^ j \<le> b ^ Suc j" using assms by simp
  then have j: "b ^ j < 2 ^ 31" using Suc.prems(1) by linarith
  have "b ^ Suc j div b = b ^ j" using assms by simp
  then show ?case
    unfolding itoa_digits_step [OF assms(1,2) Suc.prems] using Suc.IH [OF j m m'] by simp
qed

lemma digs_properties:
  assumes "b \<le> 16" "2 \<le> b"
  shows "n < b ^ k \<Longrightarrow> (\<forall>c \<in> set (digs b k n). \<exists>d < b. c = carray ! d) \<and> length (digs b k n) = k \<and>
    foldl (\<lambda>x c. x * int b + digit_val c) x (digs b k n) = x * int b ^ k + int n"
proof (induction k arbitrary: n x)
  case 0
  then show ?case by simp
next
  case (Suc k)
  have d: "n div b ^ k < b" using Suc.prems assms by (simp add: less_mult_imp_div_less mult.commute)
  have m: "n mod b ^ k < b ^ k" using assms by simp
  have v: "digit_val (carray ! (n div b ^ k)) = int (n div b ^ k)" using carray_nth [of "n div b ^ k"] d assms by simp
  have "int n = int (n div b ^ k) * int b ^ k + int (n mod b ^ k)"
    by (metis div_mult_mod_eq of_nat_add of_nat_mult of_nat_power)
  then have "foldl (\<lambda>x c. x * int b + digit_val c) x (digs b (Suc k) n) = x * int b ^ Suc k + int n"
    using Suc.IH [OF m, of "x * int b + int (n div b ^ k)"] by (simp add: v algebra_simps)
  then show ?case using Suc.IH [OF m] d by auto
qed

lemma digs_horner: "b \<le> 16 \<Longrightarrow> 2 \<le> b \<Longrightarrow> n < b ^ k \<Longrightarrow> horner (int b) (digs b k n) = int n"
  using digs_properties [of b n k 0] by (simp add: horner_def)

lemma digs_xdigit: "b \<le> 16 \<Longrightarrow> 2 \<le> b \<Longrightarrow> n < b ^ k \<Longrightarrow> \<forall>c \<in> set (digs b k n). isxdigit c \<and> c \<noteq> CHR 0x00"
proof
  fix c
  assume a: "b \<le> 16" "2 \<le> b" "n < b ^ k" "c \<in> set (digs b k n)"
  then obtain d where "d < b" "c = carray ! d" using digs_properties [of b n k 0] by blast
  then show "isxdigit c \<and> c \<noteq> CHR 0x00" using carray_nth [of d] a(1) by simp
qed

lemma carray_decimal: "d < 10 \<Longrightarrow> isdigit (carray ! d)"
proof -
  assume "d < 10"
  then have "d \<in> set [0..<10]" by simp
  then show ?thesis by (simp add: upt_rec carray_def isdigit_def) auto
qed

lemma digs_decimal: "n < 10 ^ k \<Longrightarrow> \<forall>c \<in> set (digs 10 k n). isdigit c"
  using digs_properties [of 10 n k 0] carray_decimal by fastforce

section \<open>What itoa writes\<close>

text \<open>
  The text of a number: sign, padding zeros up to a positive width, digits, and dots up to a
  negative width.
\<close>

definition padded :: "nat \<Rightarrow> nat \<Rightarrow> u32 \<Rightarrow> string" where
  "padded b n fw = replicate (itoa_zeros fw (ndigits b n)) CHR ''0'' @ digs b (ndigits b n) n"

definition number_text :: "nat \<Rightarrow> bool \<Rightarrow> nat \<Rightarrow> u32 \<Rightarrow> string" where
  "number_text b neg n fw =
     (if neg then ''-'' else []) @ padded b n fw @ replicate (itoa_dots fw (ndigits b n)) CHR ''.''"

lemma itoa_text:
  fixes v :: u32 and uns :: bool
  assumes "b = 10 \<or> b = 16" and "base = of_nat b"
  defines neg_def: "neg \<equiv> bit v 31 \<and> b = 10 \<and> \<not> uns"
  shows "itoa v base uns fw = Ret (number_text b neg (unat (if neg then - v else v)) fw)"
proof -
  have b: "b \<le> 16" "2 \<le> b" "unat base = b" using assms(1,2) by auto
  define w where "w = (if neg then - v else v)"
  define k where "k = ndigits b (unat w)"
  have sgn: "v AND 0x80000000 \<noteq> 0 \<longleftrightarrow> bit v 31" using and_mask_eq_0 [of v 31] by simp
  have nb: "neg \<longleftrightarrow> v AND 0x80000000 \<noteq> 0 \<and> base \<noteq> 16 \<and> base \<noteq> 2 \<and> \<not> uns"
    unfolding sgn neg_def using assms(1,2) by auto
  have w: "(if neg then NOT v + 1 else v) = w" by (simp add: w_def not_eq_complement)
  have count: "itoa_count base w (Suc 0) = Some (Ret k)"
    using itoa_count_digits [of base w 1] b by (simp add: k_def)
  have k: "unat w < b ^ k" "1 \<le> k" "k = 1 \<or> b ^ (k - 1) \<le> unat w"
    unfolding k_def using ndigits_bounds [of b "unat w"] b by auto
  have ub: "unat w < 4294967296" by (rule unat_u32_less)
  have small: "b ^ (k - 1) < 2 ^ 31"
  proof (cases "k = 1")
    case False
    then have le: "b ^ (k - 1) < 4294967296" using k(3) ub by linarith
    from assms(1) show ?thesis
    proof
      assume 10: "b = 10"
      have "k - 1 < 10"
      proof (rule ccontr)
        assume "\<not> k - 1 < 10"
        then have "(10 :: nat) ^ 10 \<le> 10 ^ (k - 1)" by (intro power_increasing) auto
        then show False using le 10 by simp
      qed
      then have "(10 :: nat) ^ (k - 1) \<le> 10 ^ 9" by (intro power_increasing) auto
      then show ?thesis using 10 by simp
    next
      assume 16: "b = 16"
      have "k - 1 < 8"
      proof (rule ccontr)
        assume "\<not> k - 1 < 8"
        then have "(16 :: nat) ^ 8 \<le> 16 ^ (k - 1)" by (intro power_increasing) auto
        then show False using le 16 by simp
      qed
      then have "(16 :: nat) ^ (k - 1) \<le> 16 ^ 7" by (intro power_increasing) auto
      then show ?thesis using 16 by simp
    qed
  qed simp
  have base: "base \<noteq> 0" using b(2,3) by auto
  have "itoa_div base (k - 1) 1 = of_nat (b ^ (k - 1))" by (simp add: itoa_div_power assms(2))
  moreover have "itoa_digits base (of_nat (b ^ (k - 1))) w s = Some (Ret (s @ digs b k (unat w)))" for s
    using itoa_digits_digs [OF b(1,2) small, of "unat w" s] k ub by (simp add: assms(2))
  ultimately show ?thesis
    using base unfolding itoa_def nb [symmetric] w Let_def
    by (auto simp: count number_text_def padded_def w_def [symmetric] k_def [symmetric])
qed

lemma itoa_zeros_bound: "itoa_zeros fw k = 0 \<or> (sint fw > 0 \<and> k < 2 ^ 31 \<longrightarrow> int (itoa_zeros fw k) = sint fw - int k)"
proof (cases "sint fw > 0 \<and> k < 2 ^ 31")
  case True
  have "sint (fw - of_nat k) = sint fw - int k"
    using True sint_lt [of fw] sint_small [of k]
    by (simp add: sint_word_ariths signed_take_bit_int_eq_self)
  then show ?thesis by (auto simp: itoa_zeros_def)
qed auto

lemma pad_horner: "horner b (replicate n CHR ''0'' @ ds) = horner b ds"
  by (induction n) (simp_all add: horner_def digit_val_def ishexchar_def)

lemma dots_end: "\<not> isxdigit (deref (replicate n CHR ''.''))" "\<not> isdigit (deref (replicate n CHR ''.''))"
  by (cases n; simp add: isxdigit_def isdigit_def ishexchar_def)+

lemma digs_nonempty: "digs b (ndigits b n) n \<noteq> []"
  by (subst ndigits.simps) auto

lemma padded_decimal:
  "\<forall>c \<in> set (padded 10 n fw). isdigit c" "padded 10 n fw \<noteq> []" "horner 10 (padded 10 n fw) = int n"
proof -
  have n: "n < 10 ^ ndigits 10 n" by (rule ndigits_bounds) simp
  show "\<forall>c \<in> set (padded 10 n fw). isdigit c" using digs_decimal [OF n] by (auto simp: padded_def isdigit_def)
  show "padded 10 n fw \<noteq> []" by (simp add: padded_def digs_nonempty)
  show "horner 10 (padded 10 n fw) = int n" using digs_horner [of 10 n] n by (simp add: padded_def pad_horner)
qed

lemma decimal_reads_back:
  "atoi (number_text 10 neg n fw) = Ret (word_of_int ((if neg then - 1 else 1) * int n))"
  unfolding number_text_def
  using atoi_digits [where sg = "if neg then ''-'' else []", OF _ padded_decimal(1) dots_end(2) padded_decimal(2)]
  by (simp add: padded_decimal(3))

lemma unsigned_decimal_reads_back:
  "fst (simple_strtoull (Some (number_text 10 False n fw)) 10) = word_of_int (int n)"
proof -
  have d: "is_correct_digit c 10 = isdigit c" for c by (simp add: is_correct_digit_def)
  show ?thesis
    unfolding number_text_def
    using strtoull_digits [of 10 "[]" "[]", OF _ _ _ _ _ _ _ padded_decimal(2)] padded_decimal dots_end(2)
    by (simp add: d)
qed

lemma hex_reads_back:
  "fst (simple_strtoull (Some (number_text 16 False n fw)) 16) = word_of_int (int n)"
proof -
  define k where "k = ndigits 16 n"
  define ds where "ds = padded 16 n fw"
  have n: "n < 16 ^ k" unfolding k_def by (rule ndigits_bounds) simp
  have t: "number_text 16 False n fw = ds @ replicate (itoa_dots fw k) CHR ''.''"
    by (simp add: number_text_def ds_def k_def)
  have "isxdigit CHR ''0''" by (simp add: isxdigit_def isdigit_def)
  moreover have "\<forall>c \<in> set (digs 16 k n). isxdigit c" using digs_xdigit [OF _ _ n] by simp
  ultimately have ds1: "\<forall>c \<in> set ds. isxdigit c" by (auto simp: ds_def padded_def k_def [symmetric])
  have ds2: "ds \<noteq> []" by (simp add: ds_def padded_def digs_nonempty)
  have ds3: "horner 16 ds = int n"
    using digs_horner [OF _ _ n] by (simp add: ds_def padded_def pad_horner k_def [symmetric])
  note ds = ds1 ds2 ds3
  show ?thesis
  proof (cases "ds = ''0''")
    case True
    then have "n = 0" using ds(3) by (simp add: horner_def digit_val_def ishexchar_def)
    moreover have "hex_process (ds @ replicate m CHR ''.'') = (- 1, replicate m CHR ''.'')" for m
      using dots_end(1) [of m] unfolding True by (cases m) (simp_all add: hex_process_def)
    ultimately show ?thesis unfolding t True by (simp add: simple_strtoull_def Let_def isspace_def)
  next
    case False
    then show ?thesis
      using strtoull_hex_digits [of "[]" "[]" "[]" ds, OF _ _ _ ds(1) dots_end(1) ds(2)] ds(3) by (simp add: t)
  qed
qed

text \<open>
  Printing and parsing agree: for every 32-bit value and every field width, positive or
  negative, itoa returns a text that reads back as the value, by atoi for signed decimals and by
  simple_strtoull for unsigned decimals and hexadecimals.
\<close>

theorem itoa_roundtrip:
  "(\<exists>s. itoa v 10 False fw = Ret s \<and> atoi s = Ret v) \<and>
   (\<exists>s. itoa v 10 True fw = Ret s \<and> fst (simple_strtoull (Some s) 10) = ucast v) \<and>
   (\<exists>s. itoa v 16 True fw = Ret s \<and> fst (simple_strtoull (Some s) 16) = ucast v)"
proof (intro conjI)
  have uv: "(word_of_int (int (unat v)) :: u64) = ucast v"
    by (rule trans [OF of_int_of_nat_eq of_nat_unat])
  show "\<exists>s. itoa v 10 False fw = Ret s \<and> atoi s = Ret v"
    using itoa_text [of 10 10 v False fw] by (auto simp: decimal_reads_back)
  show "\<exists>s. itoa v 10 True fw = Ret s \<and> fst (simple_strtoull (Some s) 10) = ucast v"
    using itoa_text [of 10 10 v True fw] unsigned_decimal_reads_back [of "unat v" fw, unfolded uv] by simp
  show "\<exists>s. itoa v 16 True fw = Ret s \<and> fst (simple_strtoull (Some s) 16) = ucast v"
    using itoa_text [of 16 16 v True fw] hex_reads_back [of "unat v" fw, unfolded uv] by simp
qed

section \<open>What vsprintf renders\<close>

text \<open>
  The contract of vsprintf, over a format given as pieces: literal text, and conversions with an
  optional decimal width. A width pads numbers with zeros after the sign; the other conversions
  ignore it.
\<close>

datatype conv = ConvD u32 | ConvU u32 | ConvX u32 | ConvP u32 | ConvC u32 | ConvS string

datatype piece = Lit string | Conv string conv

fun letter :: "conv \<Rightarrow> char" where
  "letter (ConvD v) = CHR ''d''" | "letter (ConvU v) = CHR ''u''" | "letter (ConvX v) = CHR ''x''"
| "letter (ConvP v) = CHR ''p''" | "letter (ConvC v) = CHR ''c''" | "letter (ConvS s) = CHR ''s''"

fun conv_arg :: "conv \<Rightarrow> vararg" where
  "conv_arg (ConvD v) = VInt v" | "conv_arg (ConvU v) = VInt v" | "conv_arg (ConvX v) = VInt v"
| "conv_arg (ConvP v) = VInt v" | "conv_arg (ConvC v) = VInt v" | "conv_arg (ConvS s) = VStr s"

definition digits_of :: "nat \<Rightarrow> nat \<Rightarrow> nat \<Rightarrow> string" where
  "digits_of b w n = replicate (w - ndigits b n) CHR ''0'' @ digs b (ndigits b n) n"

definition signed_digits :: "nat \<Rightarrow> u32 \<Rightarrow> string" where
  "signed_digits w v = (if sint v < 0 then ''-'' @ digits_of 10 w (nat (- sint v)) else digits_of 10 w (nat (sint v)))"

fun conv_text :: "nat \<Rightarrow> conv \<Rightarrow> string" where
  "conv_text w (ConvD v) = signed_digits w v"
| "conv_text w (ConvU v) = digits_of 10 w (unat v)"
| "conv_text w (ConvX v) = digits_of 16 w (unat v)"
| "conv_text w (ConvP v) = ''0x'' @ digits_of 16 w (unat v)"
| "conv_text w (ConvC v) = [char_of (unat v)]"
| "conv_text w (ConvS s) = s"

definition width_of :: "string \<Rightarrow> nat" where "width_of ws = nat (horner 10 ws)"

fun piece_ok :: "piece \<Rightarrow> bool" where
  "piece_ok (Lit s) = (CHR ''%'' \<notin> set s)"
| "piece_ok (Conv ws c) = ((\<forall>d \<in> set ws. isdigit d) \<and> (ws \<noteq> [] \<longrightarrow> hd ws \<noteq> CHR ''0'') \<and> width_of ws < 97)"

fun piece_fmt :: "piece \<Rightarrow> string" where
  "piece_fmt (Lit s) = s" | "piece_fmt (Conv ws c) = ''%'' @ ws @ [letter c]"

fun piece_args :: "piece \<Rightarrow> vararg list" where
  "piece_args (Lit s) = []" | "piece_args (Conv ws c) = [conv_arg c]"

fun piece_text :: "piece \<Rightarrow> string" where
  "piece_text (Lit s) = s" | "piece_text (Conv ws c) = conv_text (width_of ws) c"

lemma ndigits_le_10: "10 \<le> b \<Longrightarrow> ndigits b (unat (v :: u32)) \<le> 10"
proof (rule ccontr)
  assume b: "10 \<le> b" and "\<not> ndigits b (unat v) \<le> 10"
  then have k: "10 \<le> ndigits b (unat v) - 1" "b ^ (ndigits b (unat v) - 1) \<le> unat v"
    using ndigits_bounds(3) [of b "unat v"] by auto
  have "(10 :: nat) ^ 10 \<le> b ^ 10" using b by (intro power_mono) auto
  also have "\<dots> \<le> b ^ (ndigits b (unat v) - 1)" using k(1) b by (intro power_increasing) auto
  finally show False using k(2) unat_u32_less [of v] by simp
qed

lemma no_zeros_dots: "fw = 0 \<or> fw = - 1 \<Longrightarrow> 1 \<le> k \<Longrightarrow> k \<le> 10 \<Longrightarrow> itoa_zeros fw k = 0 \<and> itoa_dots fw k = 0"
proof -
  assume a: "fw = 0 \<or> fw = - 1" "1 \<le> k" "k \<le> 10"
  have "k \<in> set [1..<11]" using a by simp
  then show ?thesis using a(1) by (simp add: upt_rec itoa_zeros_def itoa_dots_def) auto
qed

lemma width_zeros: "w < 97 \<Longrightarrow> 0 < w \<Longrightarrow> k \<le> 10 \<Longrightarrow> itoa_zeros (of_nat w) k = w - k \<and> itoa_dots (of_nat w) k = 0"
proof -
  assume a: "w < 97" "0 < w" "k \<le> 10"
  have w: "sint (of_nat w :: u32) = int w" "sint (of_nat k :: u32) = int k" using a by (intro sint_small; simp)+
  then have "sint (of_nat w - of_nat k :: u32) = int w - int k"
    using a by (simp add: sint_word_ariths signed_take_bit_int_eq_self)
  then show ?thesis using a w by (auto simp: itoa_zeros_def itoa_dots_def)
qed

definition width_word :: "nat \<Rightarrow> u32 \<Rightarrow> bool" where
  "width_word w fw \<longleftrightarrow> (w = 0 \<and> (fw = 0 \<or> fw = - 1)) \<or> (0 < w \<and> fw = of_nat w)"

lemma number_text_width:
  assumes "width_word w fw" and "w < 97" and "10 \<le> b"
  shows "number_text b neg (unat (v :: u32)) fw = (if neg then ''-'' else []) @ digits_of b w (unat v)"
proof -
  have k: "1 \<le> ndigits b (unat v)" "ndigits b (unat v) \<le> 10"
    using ndigits_bounds [of b "unat v"] ndigits_le_10 assms(3) by auto
  then show ?thesis
    using assms(1,2) width_zeros [of w "ndigits b (unat v)"] no_zeros_dots [of fw "ndigits b (unat v)"]
    by (auto simp: width_word_def number_text_def padded_def digits_of_def)
qed

lemma digits_of_props:
  assumes "w < 97" and "b = 10 \<or> b = 16"
  shows "length (digits_of b w (unat (v :: u32))) < 97" and "\<forall>c \<in> set (digits_of b w (unat v)). c \<noteq> CHR 0x00"
proof -
  have b: "b \<le> 16" "2 \<le> b" "10 \<le> b" using assms(2) by auto
  have n: "unat v < b ^ ndigits b (unat v)" using b(2) by (rule ndigits_bounds)
  show "length (digits_of b w (unat v)) < 97"
    using digs_properties [OF b(1,2) n, of 0] ndigits_le_10 [OF b(3), of v] assms(1) unfolding digits_of_def length_append length_replicate
    by linarith
  show "\<forall>c \<in> set (digits_of b w (unat v)). c \<noteq> CHR 0x00"
  proof
    fix c
    assume "c \<in> set (digits_of b w (unat v))"
    then have "c = CHR ''0'' \<or> c \<in> set (digs b (ndigits b (unat v)) (unat v))" by (auto simp: digits_of_def)
    then show "c \<noteq> CHR 0x00" using digs_xdigit [OF b(1,2) n] by blast
  qed
qed

lemma str_buf_text: "off + length s < 100 \<Longrightarrow> \<forall>c \<in> set s. c \<noteq> CHR 0x00 \<Longrightarrow> str_buf off (Ret s) = Ret s"
  by (simp add: str_buf_def)

lemma sint_unat: "sint (v :: u32) = int (unat v) - (if bit v 31 then 4294967296 else 0)"
proof -
  have t: "take_bit 32 (uint v) = uint v" using unsigned_less [of v, where ?'a = int] by (simp add: take_bit_int_eq_self)
  have "sint v = signed_take_bit 31 (uint v)" by (simp add: sint_uint)
  also have "\<dots> = uint v - 2 ^ 32 * of_bool (bit (uint v) 31)"
    using signed_take_bit_eq_take_bit_minus [of 31 "uint v"] t by simp
  finally show ?thesis by (simp add: bit_uint_iff)
qed

lemma unat_sint: "bit (v :: u32) 31 \<Longrightarrow> nat (- sint v) = unat (- v)" "\<not> bit v 31 \<Longrightarrow> nat (sint v) = unat v"
proof -
  assume b: "bit v 31"
  then have "v \<noteq> 0" by auto
  then have "unat (- v) = 4294967296 - unat v"
    using unat_sub_if' [of 0 v] by (simp add: unat_eq_zero)
  then show "nat (- sint v) = unat (- v)" using b unfolding sint_unat by (simp del: of_nat_unat add: nat_diff_distrib')
next
  assume "\<not> bit v 31"
  then show "nat (sint v) = unat v" unfolding sint_unat by simp
qed

lemma bit31_sint: "bit (v :: u32) 31 \<longleftrightarrow> sint v < 0"
  using unat_u32_less [of v] unfolding sint_unat by (auto simp del: of_nat_unat)

lemma realize_conv:
  assumes "width_word w fw" and "w < 97"
  shows "realize_string buf fw (Some (letter c)) (conv_arg c # vl) = Ret (buf @ conv_text w c, vl)"
proof (cases c)
  case (ConvD v)
  let ?neg = "bit v 31"
  have t: "itoa v 10 False fw = Ret (number_text 10 ?neg (unat (if ?neg then - v else v)) fw)"
    using itoa_text [of 10 10 v False fw] by simp
  have d: "number_text 10 ?neg (unat (if ?neg then - v else v)) fw = signed_digits w v"
    using number_text_width [OF assms] bit31_sint [of v] unat_sint [of v] by (simp add: signed_digits_def)
  have "str_buf 0 (Ret (signed_digits w v)) = Ret (signed_digits w v)"
    using digits_of_props [OF assms(2), of 10 v] digits_of_props [OF assms(2), of 10 "- v"] bit31_sint [of v] unat_sint [of v]
    by (intro str_buf_text) (auto simp: signed_digits_def)
  then show ?thesis using ConvD t d by (simp add: realize_string_def)
next
  case (ConvU v)
  have "itoa v 10 True fw = Ret (digits_of 10 w (unat v))"
    using itoa_text [of 10 10 v True fw] number_text_width [OF assms] by simp
  moreover have "str_buf 0 (Ret (digits_of 10 w (unat v))) = Ret (digits_of 10 w (unat v))"
    using digits_of_props [OF assms(2), of 10 v] by (intro str_buf_text) auto
  ultimately show ?thesis using ConvU by (simp add: realize_string_def)
next
  case (ConvX v)
  have "itoa v 16 True fw = Ret (digits_of 16 w (unat v))"
    using itoa_text [of 16 16 v True fw] number_text_width [OF assms] by simp
  moreover have "str_buf 0 (Ret (digits_of 16 w (unat v))) = Ret (digits_of 16 w (unat v))"
    using digits_of_props [OF assms(2), of 16 v] by (intro str_buf_text) auto
  ultimately show ?thesis using ConvX by (simp add: realize_string_def)
next
  case (ConvP v)
  have "itoa v 16 True fw = Ret (digits_of 16 w (unat v))"
    using itoa_text [of 16 16 v True fw] number_text_width [OF assms] by simp
  moreover have "str_buf 2 (Ret (digits_of 16 w (unat v))) = Ret (digits_of 16 w (unat v))"
    using digits_of_props [OF assms(2), of 16 v] by (intro str_buf_text) auto
  ultimately show ?thesis using ConvP by (simp add: realize_string_def)
qed (simp_all add: realize_string_def)

lemma get_value_loop_atoi: "atoi_loop s i k t val = Ret x \<Longrightarrow> get_value_loop s i k t val = x"
  by (induction s i k t val rule: atoi_loop.induct) (auto split: if_splits)

lemma get_value_digits:
  assumes "\<forall>c \<in> set ds. isdigit c" and "\<not> isdigit (deref r)"
  shows "get_value (ds @ r) = (word_of_int (horner 10 ds), r)"
  using get_value_loop_atoi [OF atoi_loop_digits [OF assms(1), of "[]" r 1 0, simplified]] digit_run_append [OF assms]
  by (simp add: get_value_def Let_def)

lemma uptonext_lit: "CHR ''%'' \<notin> set lit \<Longrightarrow> uptonext buf (lit @ r) = uptonext (buf @ lit) r"
  by (induction lit arbitrary: buf) auto

lemma vsprintf_loop_lit:
  assumes "CHR ''%'' \<notin> set lit"
  shows "vsprintf_loop fl fw buf (lit @ r) vl = vsprintf_loop fl fw (buf @ lit) r vl"
  using uptonext_lit [OF assms] vsprintf_loop.simps [of fl fw buf "lit @ r" vl] vsprintf_loop.simps [of fl fw "buf @ lit" r vl]
  by simp

lemma letter_class:
  "\<not> isdigit (letter c)" "letter c \<notin> set ''-+ #0*.l''" "get_conv_specifier (letter c # r) = Some (letter c)"
  by (cases c; simp add: isdigit_def get_conv_specifier_def)+

lemma getflags_width:
  assumes "\<forall>d \<in> set ws. isdigit d" and "ws \<noteq> [] \<longrightarrow> hd ws \<noteq> CHR ''0''"
  shows "getflags fl (ws @ letter c # r) = (fl, ws @ letter c # r)"
proof (cases ws)
  case Nil
  then show ?thesis using letter_class(2) [of c] by simp
next
  case (Cons d ds)
  then have "isdigit d" "d \<noteq> CHR ''0''" using assms by auto
  then have "d \<notin> set ''-+ #0''" by (auto simp: isdigit_def)
  then show ?thesis using Cons by simp
qed

lemma horner_nonneg: "\<forall>d \<in> set ws. isdigit d \<Longrightarrow> 0 \<le> horner 10 ws"
  by (induction ws rule: rev_induct) (auto simp: isdigit_val isdigit_def)

lemma horner_pos: "\<forall>d \<in> set ws. isdigit d \<Longrightarrow> ws \<noteq> [] \<Longrightarrow> hd ws \<noteq> CHR ''0'' \<Longrightarrow> 0 < horner 10 ws"
proof (induction ws rule: rev_induct)
  case (snoc d ws)
  have v: "0 \<le> digit_val d" using snoc.prems by (auto simp: isdigit_val isdigit_def)
  show ?case
  proof (cases ws)
    case Nil
    then have d: "isdigit d" "d \<noteq> CHR ''0''" using snoc.prems by auto
    have "ascii (CHR ''0'') = 48" by simp
    then have "ascii d \<noteq> 48" using d(2) of_char_eq_iff [of d "CHR ''0''", where ?'a = nat] by simp
    then show ?thesis using Nil d by (simp add: isdigit_val isdigit_def horner_def)
  next
    case (Cons x xs)
    then show ?thesis using snoc v horner_snoc [of 10 "x # xs" d] by simp
  qed
qed simp

lemma width_word_digits:
  assumes "\<forall>d \<in> set ws. isdigit d" and "ws \<noteq> [] \<longrightarrow> hd ws \<noteq> CHR ''0''" and "ws \<noteq> []"
  shows "width_word (width_of ws) (word_of_int (horner 10 ws))"
  using horner_pos [OF assms(1,3)] assms(2,3) by (simp add: width_word_def width_of_def)

lemma field_width_conv:
  assumes "\<forall>d \<in> set ws. isdigit d" and "ws \<noteq> [] \<longrightarrow> hd ws \<noteq> CHR ''0''" and "fw = 0 \<or> fw = - 1"
  shows "\<exists>fw'. field_width (ws @ letter c # r) fw vl = Ret (fw', letter c # r, vl) \<and> width_word (width_of ws) fw'"
proof (cases ws)
  case Nil
  then show ?thesis using letter_class [of c] assms(3) by (simp add: field_width_def width_word_def width_of_def)
next
  case (Cons d ds)
  then have "isdigit (deref (ws @ letter c # r))" using assms(1) by simp
  moreover have "get_value (ws @ letter c # r) = (word_of_int (horner 10 ws), letter c # r)"
    using assms(1) letter_class [of c] by (intro get_value_digits) auto
  ultimately show ?thesis
    using width_word_digits [OF assms(1,2)] Cons by (simp add: field_width_def del: get_value_def)
qed

lemma vsprintf_loop_conv:
  assumes "piece_ok (Conv ws c)" and "fw = 0 \<or> fw = - 1"
  shows "vsprintf_loop 0 fw buf (''%'' @ ws @ letter c # r) (conv_arg c # vl) =
    vsprintf_loop 0 0 (buf @ conv_text (width_of ws) c) r vl"
proof -
  have ok: "\<forall>d \<in> set ws. isdigit d" "ws \<noteq> [] \<longrightarrow> hd ws \<noteq> CHR ''0''" "width_of ws < 97" using assms(1) by auto
  obtain fw' where fw': "field_width (ws @ letter c # r) fw (conv_arg c # vl) = Ret (fw', letter c # r, conv_arg c # vl)"
    "width_word (width_of ws) fw'" using field_width_conv [OF ok(1,2) assms(2)] by blast
  have p: "precision_field (letter c # r) = letter c # r" "snd (get_lengthmodifier (letter c # r)) = letter c # r"
    using letter_class(2) [of c] by (auto simp: precision_field_def get_lengthmodifier_def)
  show ?thesis
    using vsprintf_loop.simps [of 0 fw buf "''%'' @ ws @ letter c # r" "conv_arg c # vl"]
    by (simp add: getflags_width [OF ok(1,2)] fw'(1) p letter_class(3) realize_conv [OF fw'(2) ok(3)] Let_def)
qed

lemma vsprintf_loop_pieces:
  assumes "\<forall>p \<in> set ps. piece_ok p" and "fw = 0 \<or> fw = - 1"
  shows "vsprintf_loop 0 fw buf (concat (map piece_fmt ps)) (concat (map piece_args ps) @ vl) =
    Ret (buf @ concat (map piece_text ps), vl)"
  using assms
proof (induction ps arbitrary: buf fw)
  case Nil
  then show ?case by (simp add: vsprintf_loop.simps)
next
  case (Cons p ps)
  show ?case
  proof (cases p)
    case (Lit s)
    then show ?thesis using Cons by (simp add: vsprintf_loop_lit)
  next
    case (Conv ws c)
    then show ?thesis
      using Cons vsprintf_loop_conv [of ws c fw buf "concat (map piece_fmt ps)" "concat (map piece_args ps) @ vl"]
      by simp
  qed
qed

text \<open>
  C8. For every format of literal text and the conversions d, u, x, p, c and s, each with an
  optional width below 97, and the matching arguments, vsprintf returns and writes exactly the
  rendered text: numbers in decimal or upper case hexadecimal, padded with zeros between sign and
  digits up to the width. Its return value is 0, not the number of characters.
\<close>

theorem vsprintf_renders:
  assumes "\<forall>p \<in> set ps. piece_ok p"
  shows "vsprintf (concat (map piece_fmt ps)) (concat (map piece_args ps)) = Ret (concat (map piece_text ps), 0)"
  using vsprintf_loop_pieces [OF assms, of "- 1" "[]" "[]"] by (simp add: vsprintf_def)

theorem vsprintf_renders_witness:
  "vsprintf ''x=%5d, %s'' [VInt (- 42), VStr ''ok''] = Ret (''x=-00042, ok'', 0)"
proof -
  have "ndigits 10 42 = 2" by (simp add: ndigits.simps)
  moreover have "digs 10 2 42 = ''42''" by (simp add: numeral_2_eq_2 carray_def)
  moreover have "replicate 3 CHR ''0'' = ''000''" by (simp add: numeral_3_eq_3)
  ultimately have "signed_digits 5 (- 42 :: u32) = ''-00042''"
    by (simp add: signed_digits_def digits_of_def)
  moreover have "width_of ''5'' = 5" by (simp add: width_of_def horner_def digit_val_def ishexchar_def)
  ultimately show ?thesis
    using vsprintf_renders [of "[Lit ''x='', Conv ''5'' (ConvD (- 42)), Lit '', '', Conv [] (ConvS ''ok'')]"]
    by (simp add: isdigit_def width_of_def)
qed

section \<open>Formats that vsprintf does not survive\<close>

lemma conversion_start:
  assumes "CHR ''%'' \<notin> set lit" and "c \<notin> set ''-+ #0''"
  shows "vsprintf_loop fl fw [] (lit @ ''%'' @ c # r) vl =
    obind (field_width (c # r) fw vl) (\<lambda>(fieldwidth, fmt, vl).
      let fieldwidth = (if fl AND LEFT \<noteq> 0 then - fieldwidth else fieldwidth);
          fmt = snd (get_lengthmodifier (precision_field fmt))
      in obind (realize_string lit fieldwidth (get_conv_specifier fmt) vl) (\<lambda>(buf, vl).
           vsprintf_loop fl 0 buf (tl fmt) vl))"
  using assms(2) unfolding vsprintf_loop_lit [OF assms(1)] append_Nil
  by (subst vsprintf_loop.simps) (simp add: Let_def)

text \<open>
  A conversion that vsprintf does not know ends in an endless loop: this includes the escaped
  percent sign, octal, and the upper case X that its parser accepts.
\<close>

theorem vsprintf_unknown_conversion_hangs:
  assumes "CHR ''%'' \<notin> set lit" and "c \<notin> set ''-+ #0123456789*.ldiuxpcs''"
  shows "vsprintf (lit @ ''%'' @ c # r) vl = Hang"
proof -
  have d: "\<not> isdigit c" using isdigit_chars [of c] assms(2) by auto
  have s: "c \<notin> set ''-+ #0''" using assms(2) by auto
  have r: "realize_string lit fw (get_conv_specifier (c # r)) vl = Hang" for fw
    using assms(2) by (auto simp: realize_string_def get_conv_specifier_def)
  have "vsprintf_loop 0 (- 1) [] (lit @ ''%'' @ c # r) vl = Hang"
    unfolding conversion_start [OF assms(1) s] using assms(2) d
    by (simp add: field_width_def precision_field_def get_lengthmodifier_def Let_def r)
  then show ?thesis by (simp add: vsprintf_def)
qed

theorem vsprintf_unknown_conversion_hangs_witness: "vsprintf ''100%%'' [] = Hang"
  using vsprintf_unknown_conversion_hangs [of "''100''" "CHR ''%''" "[]" "[]"] by simp

text \<open>
  A field width of 100 or more makes the d conversion write beyond the 100 bytes of the
  conversion buffer on the stack.
\<close>

theorem vsprintf_wide_field_overflows:
  assumes "CHR ''%'' \<notin> set lit" and "\<forall>d \<in> set ws. isdigit d" and "hd ws \<noteq> CHR ''0''"
    and "100 \<le> horner 10 ws" and "horner 10 ws < 2 ^ 31"
  shows "vsprintf (lit @ ''%'' @ ws @ ''d'' @ r) (VInt v # vl) = Trap"
proof -
  define fw where "fw = (word_of_int (horner 10 ws) :: u32)"
  define neg where "neg = bit v 31"
  define n where "n = unat (if neg then - v else v)"
  define k where "k = ndigits 10 n"
  have ws: "ws \<noteq> []" using assms(4) by auto
  then obtain d ds where d: "ws = d # ds" "isdigit d" "d \<noteq> CHR ''0''" using assms(2,3) by (cases ws) auto
  then have s: "d \<notin> set ''-+ #0''" by (auto simp: isdigit_def)
  have "get_value (ws @ CHR ''d'' # r) = (fw, CHR ''d'' # r)"
    unfolding fw_def using assms(2) by (intro get_value_digits) (auto simp: isdigit_def)
  then have f: "field_width (d # ds @ ''d'' @ r) (- 1) (VInt v # vl) = Ret (fw, ''d'' @ r, VInt v # vl)"
    using d by (simp add: field_width_def)
  have k: "k \<le> 10" unfolding k_def n_def by (rule ndigits_le_10) simp
  have sfw: "sint fw = horner 10 ws"
    using assms(4,5) by (simp add: fw_def sint_uint unsigned_of_int take_bit_int_eq_self signed_take_bit_int_eq_self)
  then have "sint (fw - of_nat k) = horner 10 ws - int k"
    using assms(4,5) k by (simp add: sint_word_ariths signed_take_bit_int_eq_self sint_small)
  then have z: "int (itoa_zeros fw k) = horner 10 ws - int k"
    using sfw assms(4) k by (simp add: itoa_zeros_def)
  have "n < 10 ^ k" unfolding k_def by (rule ndigits_bounds) simp
  then have "length (digs 10 k n) = k" using digs_properties [of 10 n k 0] by simp
  then have len: "100 \<le> length (number_text 10 neg n fw)"
    using z assms(4) by (simp add: number_text_def padded_def k_def [symmetric])
  have "itoa v 10 False fw = Ret (number_text 10 neg n fw)"
    using itoa_text [of 10 10 v False fw] by (simp add: neg_def n_def)
  then have "str_buf 0 (itoa v 10 False fw) = Trap" using len by (simp add: str_buf_def)
  then have "vsprintf_loop 0 (- 1) [] (lit @ ''%'' @ d # ds @ ''d'' @ r) (VInt v # vl) = Trap"
    unfolding conversion_start [OF assms(1) s] f
    by (simp add: precision_field_def get_lengthmodifier_def get_conv_specifier_def realize_string_def)
  then show ?thesis using d by (simp add: vsprintf_def)
qed

theorem vsprintf_wide_field_overflows_witness: "vsprintf ''|%100d|'' [VInt 7] = Trap"
  using vsprintf_wide_field_overflows [of "''|''" "''100''" "''|''" 7 "[]"]
  by (simp add: isdigit_def horner_def digit_val_def ishexchar_def)

section \<open>Sizes for humans\<close>

lemma printk_number:
  assumes "CHR ''%'' \<notin> set unit" and "CHR 0x00 \<notin> set unit" and "length unit < 100" and "\<not> bit (v :: u32) 31"
  shows "printk (''%d'' @ unit) [VInt v] = Ret (digits_of 10 0 (unat v) @ unit, 0)"
proof -
  have p: "\<forall>p \<in> set [Conv [] (ConvD v), Lit unit]. piece_ok p" using assms(1) by (simp add: width_of_def)
  have "signed_digits 0 v = digits_of 10 0 (unat v)"
    using assms(4) bit31_sint [of v] unat_sint [of v] by (simp add: signed_digits_def)
  then have "vsprintf_loop 0 (- 1) [] (''%d'' @ unit) [VInt v] = Ret (digits_of 10 0 (unat v) @ unit, [])"
    using vsprintf_loop_pieces [OF p, of "- 1" "[]" "[]"] by (simp add: width_of_def)
  moreover have "length (digits_of 10 0 (unat v)) < 97" "\<forall>c \<in> set (digits_of 10 0 (unat v)). c \<noteq> CHR 0x00"
    using digits_of_props [of 0 10 v] by auto
  moreover from this(2) have "takeWhile (\<lambda>c. c \<noteq> CHR 0x00) (digits_of 10 0 (unat v) @ unit) = digits_of 10 0 (unat v) @ unit"
    using assms(2) by (intro takeWhile_eq_all_conv [THEN iffD2]) auto
  ultimately show ?thesis using assms(3) by (simp add: printk_def vsprintf_def)
qed

text \<open>
  print_human_readable_size prints the size in the largest unit it reaches, rounded down.
\<close>

theorem print_human_readable_size_text:
  "print_human_readable_size sz = Ret (
     if unat sz < 1024 then digits_of 10 0 (unat sz) @ '' bytes\<newline>''
     else if unat sz < 1024 ^ 2 then digits_of 10 0 (unat sz div 1024) @ '' KB\<newline>''
     else if unat sz < 1024 ^ 3 then digits_of 10 0 (unat sz div 1024 ^ 2) @ '' MB\<newline>''
     else digits_of 10 0 (unat sz div 1024 ^ 3) @ '' GB\<newline>'', 0)"
proof -
  have nb: "\<not> bit (w :: u32) 31" if "unat w < 2147483648" for w
    using that sint_ge [of w] unfolding sint_unat by (auto simp del: of_nat_unat)
  have p: "printk (CHR ''%'' # CHR ''d'' # unit) [VInt w] = Ret (digits_of 10 0 (unat w) @ unit, 0)"
    if "unat w < 2147483648" "CHR ''%'' \<notin> set unit" "CHR 0x00 \<notin> set unit" "length unit < 100" for w unit
    using printk_number [OF that(2-4) nb [OF that(1)]] by simp
  have q: "unat (sz div 1024) < 2147483648" "unat (sz div 1048576) < 2147483648" "unat (sz div 1073741824) < 2147483648"
    using unat_u32_less [of sz] by (simp_all add: unat_div_word)
  show ?thesis unfolding print_human_readable_size_def Let_def word_less_nat_alt
    using q by (simp add: p unat_div_word)
qed

text \<open>Printk over a format given as pieces, for the components that print.\<close>

lemma printk_pieces:
  assumes "\<forall>p \<in> set ps. piece_ok p" and "CHR 0x00 \<notin> set (concat (map piece_text ps))"
    and "length (concat (map piece_text ps)) < 1000"
  shows "printk (concat (map piece_fmt ps)) (concat (map piece_args ps)) = Ret (concat (map piece_text ps), 0)"
proof -
  have "takeWhile (\<lambda>c. c \<noteq> CHR 0x00) (concat (map piece_text ps)) = concat (map piece_text ps)"
    using assms(2) by (intro takeWhile_eq_all_conv [THEN iffD2]) auto
  then show ?thesis
    using vsprintf_loop_pieces [OF assms(1), of "- 1" "[]" "[]"] assms(3) by (simp add: printk_def vsprintf_def)
qed

lemma digits_plain:
  "CHR 0x00 \<notin> set (digits_of 10 0 (unat (v :: u32)))" "length (digits_of 10 0 (unat v)) < 97"
  "CHR 0x00 \<notin> set (digits_of 16 0 (unat v))" "length (digits_of 16 0 (unat v)) < 97"
  using digits_of_props [of 0 10 v] digits_of_props [of 0 16 v] by auto

text \<open>Several calls of printk in a row: the text they print.\<close>

fun printks :: "(string \<times> vararg list) list \<Rightarrow> string outcome" where
  "printks [] = Ret []"
| "printks ((fmt, vl) # ps) = obind (printk fmt vl) (\<lambda>(t, _). obind (printks ps) (\<lambda>ts. Ret (t @ ts)))"

text \<open>
  When a call of printk returns: every piece of its format is short. This is what the components
  that print need to know of it.
\<close>

definition prints :: "string \<Rightarrow> vararg list \<Rightarrow> bool" where
  "prints fmt vl \<longleftrightarrow> (\<exists>t. printk fmt vl = Ret t)"

definition short_text :: "string \<Rightarrow> bool" where
  "short_text s \<longleftrightarrow> length s < 100 \<and> CHR 0x00 \<notin> set s"

fun short_piece :: "piece \<Rightarrow> bool" where
  "short_piece (Lit s) = short_text s"
| "short_piece (Conv ws (ConvS s)) = short_text s"
| "short_piece (Conv ws (ConvC v)) = (char_of (unat v) \<noteq> CHR 0x00)"
| "short_piece (Conv ws c) = True"

lemma conv_text_short:
  assumes "w < 97" and "short_piece (Conv ws c)"
  shows "length (conv_text w c) < 100" "CHR 0x00 \<notin> set (conv_text w c)"
proof -
  have d: "length (digits_of b w (unat v)) < 97" "CHR 0x00 \<notin> set (digits_of b w (unat v))" if "b = 10 \<or> b = 16" for b and v :: u32
    using digits_of_props [OF assms(1) that] by auto
  have "length (signed_digits w v) < 100" "CHR 0x00 \<notin> set (signed_digits w v)" for v
    using d [of 10 v] d [of 10 "- v"] bit31_sint [of v] unat_sint [of v] by (auto simp: signed_digits_def)
  then show "length (conv_text w c) < 100" "CHR 0x00 \<notin> set (conv_text w c)"
    using assms(2) d [of 10] d [of 16] by (cases c; force simp: short_text_def intro: less_trans)+
qed

lemma prints_short:
  assumes "\<forall>p \<in> set ps. piece_ok p \<and> short_piece p" and "length ps \<le> 9"
  shows "prints (concat (map piece_fmt ps)) (concat (map piece_args ps))"
proof -
  have p: "length (piece_text p) \<le> 99 \<and> CHR 0x00 \<notin> set (piece_text p)" if "piece_ok p" "short_piece p" for p
  proof (cases p)
    case (Conv ws c)
    then show ?thesis using that conv_text_short [of "width_of ws" ws c] by auto
  qed (use that in \<open>auto simp: short_text_def\<close>)
  have "length (concat (map piece_text ps)) \<le> 99 * length ps \<and> CHR 0x00 \<notin> set (concat (map piece_text ps))"
    using assms(1) p by (induction ps) fastforce+
  then show ?thesis
    using assms printk_pieces [of ps] unfolding prints_def by fastforce
qed

lemma prints_lit: "CHR ''%'' \<notin> set s \<Longrightarrow> short_text s \<Longrightarrow> prints s []"
  using prints_short [of "[Lit s]"] by simp

lemma prints_conv:
  assumes "CHR ''%'' \<notin> set pre \<union> set post" and "short_text pre" and "short_text post"
    and "\<forall>d \<in> set ws. isdigit d" and "ws \<noteq> [] \<longrightarrow> hd ws \<noteq> CHR ''0''" and "width_of ws < 97" and "short_piece (Conv ws c)"
  shows "prints (pre @ ''%'' @ ws @ [letter c] @ post) [conv_arg c]"
  using prints_short [of "[Lit pre, Conv ws c, Lit post]"] assms by simp

lemma printks_prints: "\<forall>(f, v) \<in> set ps. prints f v \<Longrightarrow> \<exists>t. printks ps = Ret t"
proof (induction ps)
  case (Cons p ps)
  obtain f v where p: "p = (f, v)" by fastforce
  with Cons.prems obtain t n where "printk f v = Ret (t, n)" unfolding prints_def by fastforce
  then show ?case using Cons p by auto
qed simp

lemma width_of_simps [simp]: "width_of [] = 0" "width_of ''2'' = 2" "width_of ''4'' = 4" "width_of ''8'' = 8"
  by (simp_all add: width_of_def horner_def digit_val_def ishexchar_def)

end
