(* ===== verification/Ports.thy ===== *)
theory Ports
  imports Prelude
begin

text \<open>
  Port input and output (inb and outb of arch/i386/kernel, assembly): the writes of a run are a
  log, in their order; what a port reads is a function of the writes before it.
\<close>

type_synonym port_log = "(u16 \<times> u8) list"

definition outb :: "u16 \<Rightarrow> u8 \<Rightarrow> port_log \<Rightarrow> port_log" where
  "outb port v log = log @ [(port, v)]"

end
