(* ===== verification/Vga.thy ===== *)
theory Vga
  imports Ports
begin

text \<open>
  The text console, arch/i386/kernel/vga.c: the 80 by 25 cells of video memory, the cursor that
  the driver keeps in two bytes, and the writes to the index and data port of the CRT controller.
  A write outside the 2000 cells of the screen is a trap.
\<close>

record vga =
  vmem :: "u16 list"
  cursor_x :: u8
  cursor_y :: u8
  ports :: port_log

definition max_x :: nat where "max_x = 80"
definition max_y :: nat where "max_y = 25"
definition KTabWidth :: u8 where "KTabWidth = 4"
definition CRTCTRL_ADDR_REG :: u16 where "CRTCTRL_ADDR_REG = 0x3D4"
definition CRTCTRL_CURSORHIGH_INDEX :: u8 where "CRTCTRL_CURSORHIGH_INDEX = 0x0E"
definition CRTCTRL_CURSORLOW_INDEX :: u8 where "CRTCTRL_CURSORLOW_INDEX = 0x0F"

definition ReadRegister :: "(port_log \<Rightarrow> u16 \<Rightarrow> u8) \<Rightarrow> u16 \<Rightarrow> u8 \<Rightarrow> u16 \<Rightarrow> port_log \<Rightarrow> u8 \<times> port_log" where
  "ReadRegister inb aPortAddressIndex aIndex aPortAddressData log =
     (let log = outb aPortAddressIndex aIndex log in (inb log aPortAddressData, log))"

definition WriteRegister :: "u16 \<Rightarrow> u8 \<Rightarrow> u16 \<Rightarrow> u8 \<Rightarrow> port_log \<Rightarrow> port_log" where
  "WriteRegister aPortAddressIndex aIndex aPortAddressData aValue log =
     outb aPortAddressData aValue (outb aPortAddressIndex aIndex log)"

definition move_cursor :: "u8 \<Rightarrow> u8 \<Rightarrow> vga \<Rightarrow> vga" where
  "move_cursor x_pos y_pos s =
     (let vram_offset = (ucast y_pos * 80 + ucast x_pos :: u16);
          log = WriteRegister CRTCTRL_ADDR_REG CRTCTRL_CURSORHIGH_INDEX (CRTCTRL_ADDR_REG + 1)
                  (ucast (drop_bit 8 (vram_offset AND 0xFF00))) (ports s);
          log = WriteRegister CRTCTRL_ADDR_REG CRTCTRL_CURSORLOW_INDEX (CRTCTRL_ADDR_REG + 1)
                  (ucast (vram_offset AND 0xFF)) log
      in s\<lparr>ports := log, cursor_x := x_pos, cursor_y := y_pos\<rparr>)"

definition vattr :: u8 where "vattr = push_bit 4 0 OR 15"

definition vga_clearscreen :: "vga \<Rightarrow> vga" where
  "vga_clearscreen s =
     (let vval = (push_bit 8 (ucast vattr) OR 0x20 :: u16);
          cnt = max_x * max_y;
          m = fold (\<lambda>offset m. m[offset := vval]) [0..<cnt] (vmem s)
      in move_cursor 0 0 (s\<lparr>vmem := m, cursor_x := 0, cursor_y := 0\<rparr>))"

definition vga_init :: "vga \<Rightarrow> vga" where "vga_init = vga_clearscreen"

text \<open>The cast in the fill value of the last row, \<^verbatim>\<open>(u8)(vattr << 8) | ' '\<close>, is the source's.\<close>

definition vga_scroll_up :: "vga \<Rightarrow> vga" where
  "vga_scroll_up s =
     (let vval = (ucast (ucast (push_bit 8 (ucast vattr :: u32)) :: u8) OR 0x20 :: u16);
          m = fold (\<lambda>rows m. fold (\<lambda>col m. m[max_x * rows + col := m ! (max_x * (rows + 1) + col)]) [0..<max_x] m)
                [0..<max_y - 1] (vmem s);
          m = fold (\<lambda>col m. m[max_x * (max_y - 1) + col := vval]) [0..<max_x] m
      in move_cursor 0 (of_nat (max_y - 1)) (s\<lparr>vmem := m, cursor_x := 0, cursor_y := of_nat (max_y - 1)\<rparr>))"

text \<open>A \<^verbatim>\<open>char\<close> is signed: it is extended to an \<^verbatim>\<open>int\<close> before the attribute is added.\<close>

definition vga_putc :: "u8 \<Rightarrow> vga \<Rightarrow> vga outcome" where
  "vga_putc c s =
     (let vval = (push_bit 8 (ucast vattr) OR scast c :: u16);
          s = (if unat (cursor_y s) = max_y then vga_scroll_up s else s);
          location_offset = unat (cursor_y s) * 80 + unat (cursor_x s)
      in if c = 0x0A
         then let y = cursor_y s + 1; s = s\<lparr>cursor_x := 0, cursor_y := y\<rparr>
              in Ret (if unat y \<noteq> max_y then move_cursor 0 y s else s)
         else if c = 0x09
         then let x = cursor_x s + KTabWidth;
                  (x, y) = (if unat x \<ge> 80 then (0, cursor_y s + 1) else (x, cursor_y s));
                  s = s\<lparr>cursor_x := x, cursor_y := y\<rparr>
              in Ret (if unat y \<ge> max_y then vga_scroll_up s else move_cursor x y s)
         else if c = 0x0D
         then let y = cursor_y s + 1 in Ret (move_cursor 0 y (s\<lparr>cursor_x := 0, cursor_y := y\<rparr>))
         else if c = 0x08
         then (if 0 < unat (cursor_x s)
               then let x = cursor_x s - 1 in Ret (move_cursor x (cursor_y s) (s\<lparr>cursor_x := x\<rparr>))
               else Ret s)
         else if length (vmem s) \<le> location_offset then Trap
         else let s = s\<lparr>vmem := (vmem s)[location_offset := vval]\<rparr>;
                  x = cursor_x s + 1;
                  (x, y) = (if unat x = max_x then (0, cursor_y s + 1) else (x, cursor_y s));
                  s = s\<lparr>cursor_x := x, cursor_y := y\<rparr>
              in Ret (if unat y \<noteq> max_y then move_cursor x y s else s))"

fun vga_puts :: "u8 list \<Rightarrow> vga \<Rightarrow> vga outcome" where
  "vga_puts [] s = Ret s"
| "vga_puts (c # cs) s = obind (vga_putc c s) (vga_puts cs)"

section \<open>Scrolling and clearing\<close>

lemma fold_copy_row:
  assumes "n \<le> 80" and "a + 80 + n \<le> length m"
  shows "fold (\<lambda>col m. m[a + col := m ! (a + 80 + col)]) [0..<n] m = take a m @ take n (drop (a + 80) m) @ drop (a + n) m"
  using assms
proof (induction n)
  case (Suc n)
  have l: "length (take a m @ take n (drop (a + 80) m) @ drop (a + n) m) = length m" using Suc.prems by simp
  have r: "(take a m @ take n (drop (a + 80) m) @ drop (a + n) m) ! (a + 80 + n) = m ! (a + 80 + n)"
    using Suc.prems by (simp add: nth_append ac_simps)
  have "drop (a + n) m = m ! (a + n) # drop (a + Suc n) m"
    using Suc.prems by (simp add: Cons_nth_drop_Suc)
  moreover have "take (Suc n) (drop (a + 80) m) = take n (drop (a + 80) m) @ [m ! (a + 80 + n)]"
    using Suc.prems by (simp add: take_Suc_conv_app_nth)
  ultimately show ?case
    using Suc r by (simp add: list_update_append)
qed simp

lemma fold_copy_rows:
  assumes "r \<le> 24" and "length m = 2000"
  shows "fold (\<lambda>rows m. fold (\<lambda>col m. m[80 * rows + col := m ! (80 * (rows + 1) + col)]) [0..<80] m) [0..<r] m =
    take (80 * r) (drop 80 m) @ drop (80 * r) m"
  using assms(1)
proof (induction r)
  case (Suc r)
  let ?m = "take (80 * r) (drop 80 m) @ drop (80 * r) m"
  have "fold (\<lambda>col m. m[80 * r + col := m ! (80 * (r + 1) + col)]) [0..<80] ?m =
    take (80 * r) ?m @ take 80 (drop (80 * r + 80) ?m) @ drop (80 * r + 80) ?m"
    using fold_copy_row [of 80 "80 * r" ?m] Suc.prems assms(2) by (simp add: algebra_simps)
  also have "\<dots> = take (80 * Suc r) (drop 80 m) @ drop (80 * Suc r) m"
    using Suc.prems assms(2) take_add [of "80 * r" 80 "drop 80 m"] by (simp add: algebra_simps min_def)
  finally show ?case using Suc by simp
qed simp

lemma fold_fill:
  "a + n \<le> length m \<Longrightarrow> fold (\<lambda>i m. m[a + i := v]) [0..<n] m = take a m @ replicate n v @ drop (a + n) m"
proof (induction n)
  case (Suc n)
  then have "drop (a + n) m = m ! (a + n) # drop (a + Suc n) m" by (simp add: Cons_nth_drop_Suc)
  then show ?case using Suc by (simp add: list_update_append replicate_append_same [symmetric])
qed simp

lemma scroll_vmem:
  assumes "length (vmem s) = 2000"
  shows "vmem (vga_scroll_up s) = drop 80 (vmem s) @ replicate 80 0x0020"
proof -
  let ?m = "take 1920 (drop 80 (vmem s)) @ drop 1920 (vmem s)"
  have "fold (\<lambda>col m. m[1920 + col := 0x0020]) [0..<80] ?m = take 1920 ?m @ replicate 80 0x0020 @ drop 2000 ?m"
    using fold_fill [of 1920 80 ?m] assms by simp
  then show ?thesis
    using fold_copy_rows [of 24 "vmem s"] assms
    by (simp add: vga_scroll_up_def move_cursor_def Let_def max_x_def max_y_def vattr_def)
qed

section \<open>The invariant of the console\<close>

text \<open>
  What the CRT controller is told: the cursor position in its two registers after a log of port
  writes, with the register that the index port selected.
\<close>

fun crtc_step :: "u16 \<times> u8 \<Rightarrow> u8 \<times> u8 \<times> u8 \<Rightarrow> u8 \<times> u8 \<times> u8" where
  "crtc_step (port, v) (ix, hi, lo) =
     (if port = 0x3D4 then (v, hi, lo)
      else if port = 0x3D5 then (if ix = 0x0E then (ix, v, lo) else if ix = 0x0F then (ix, hi, v) else (ix, hi, lo))
      else (ix, hi, lo))"

definition hw_cursor :: "port_log \<Rightarrow> nat" where
  "hw_cursor log = (case fold crtc_step log (0, 0, 0) of (ix, hi, lo) \<Rightarrow> 256 * unat hi + unat lo)"

definition vga_pos :: "vga \<Rightarrow> nat" where
  "vga_pos s = 80 * unat (cursor_y s) + unat (cursor_x s)"

definition vga_inv :: "vga \<Rightarrow> bool" where
  "vga_inv s \<longleftrightarrow> length (vmem s) = 2000 \<and> unat (cursor_x s) < 80 \<and> unat (cursor_y s) \<le> 25 \<and>
     (unat (cursor_y s) < 25 \<longrightarrow> hw_cursor (ports s) = vga_pos s)"

lemma hi_lo_bytes: "unat (w :: u16) = 256 * unat (ucast (drop_bit 8 (w AND 0xFF00)) :: u8) + unat (ucast (w AND 0xFF) :: u8)"
proof -
  have m: "(0xFF00 :: u16) = push_bit 8 (mask 8)" "(0xFF :: u16) = mask 8"
    by (simp_all add: mask_eq_exp_minus_1)
  have hi: "drop_bit 8 (w AND 0xFF00) = drop_bit 8 w"
    unfolding m(1) by (rule bit_word_eqI) (auto simp: bit_simps dest: bit_imp_le_length)
  have "unat (ucast (drop_bit 8 w) :: u8) = unat w div 256"
    using unsigned_less [of w, where ?'a = nat] by (simp add: unsigned_ucast_eq unsigned_drop_bit_eq drop_bit_eq_div take_bit_eq_mod unat_div)
  moreover have "unat (ucast (w AND 0xFF) :: u8) = unat w mod 256"
    unfolding m(2) by (simp add: unsigned_ucast_eq unsigned_take_bit_eq take_bit_eq_mod unat_mod flip: take_bit_eq_mask)
  ultimately show ?thesis unfolding hi by simp
qed

lemma move_cursor_hw: "hw_cursor (ports (move_cursor x y s)) = 80 * unat y + unat x"
proof -
  define w where "w = (ucast y * 80 + ucast x :: u16)"
  have y: "unat y < 256" "unat x < 256" using unsigned_less [of y, where ?'a = nat] unsigned_less [of x, where ?'a = nat] by auto
  then have w: "unat w = 80 * unat y + unat x"
    by (simp add: w_def unat_word_ariths unsigned_ucast_eq take_bit_nat_eq_self)
  obtain ix hi lo where f: "fold crtc_step (ports s) (0, 0, 0) = (ix, hi, lo)" by (metis prod_cases3)
  show ?thesis
    using hi_lo_bytes [of w] w
    by (simp add: move_cursor_def Let_def w_def [symmetric] hw_cursor_def WriteRegister_def outb_def f
        CRTCTRL_ADDR_REG_def CRTCTRL_CURSORHIGH_INDEX_def CRTCTRL_CURSORLOW_INDEX_def)
qed

lemma move_cursor_fields [simp]:
  "vmem (move_cursor x y s) = vmem s" "cursor_x (move_cursor x y s) = x" "cursor_y (move_cursor x y s) = y"
  by (simp_all add: move_cursor_def Let_def)

lemma move_cursor_inv: "length (vmem s) = 2000 \<Longrightarrow> unat x < 80 \<Longrightarrow> unat y \<le> 25 \<Longrightarrow> vga_inv (move_cursor x y s)"
  by (simp add: vga_inv_def move_cursor_hw vga_pos_def)

lemma scroll_inv: "length (vmem s) = 2000 \<Longrightarrow> vga_inv (vga_scroll_up s) \<and> cursor_x (vga_scroll_up s) = 0 \<and> cursor_y (vga_scroll_up s) = 24"
proof -
  assume l: "length (vmem s) = 2000"
  have "length (vmem (vga_scroll_up s)) = 2000" using scroll_vmem [OF l] l by simp
  then show ?thesis
    unfolding vga_scroll_up_def Let_def max_y_def by (intro conjI move_cursor_inv) simp_all
qed

section \<open>Writing characters\<close>

lemma unat_incr8: "unat (x :: u8) < 255 \<Longrightarrow> unat (x + 1) = unat x + 1"
  by (simp add: unat_word_ariths)

text \<open>The character that the console writes for one that is not a control character.\<close>

definition plain_char :: "u8 \<Rightarrow> bool" where
  "plain_char c \<longleftrightarrow> c \<notin> {0x08, 0x09, 0x0A, 0x0D}"

definition cell :: "u8 \<Rightarrow> u16" where
  "cell c = push_bit 8 (ucast vattr) OR scast c"

text \<open>The screen after the scroll that a write on line 25 starts with.\<close>

definition scrolled :: "vga \<Rightarrow> vga" where
  "scrolled s = (if unat (cursor_y s) = 25 then vga_scroll_up s else s)"

lemma scrolled_inv: "vga_inv s \<Longrightarrow> vga_inv (scrolled s) \<and> unat (cursor_y (scrolled s)) < 25"
  using scroll_inv [of s] by (auto simp: scrolled_def vga_inv_def)

lemma putc_plain:
  assumes "vga_inv s" and "plain_char c"
  shows "\<exists>s'. vga_putc c s = Ret s' \<and> vga_inv s' \<and>
    vmem s' = (vmem (scrolled s))[vga_pos (scrolled s) := cell c] \<and> vga_pos s' = vga_pos (scrolled s) + 1"
proof -
  define t where "t = scrolled s"
  have t: "length (vmem t) = 2000" "unat (cursor_x t) < 80" "unat (cursor_y t) < 25"
    using scrolled_inv [OF assms(1)] by (auto simp: t_def vga_inv_def)
  have pos: "unat (cursor_y t) * 80 + unat (cursor_x t) = vga_pos t" "vga_pos t < 2000"
    using t by (auto simp: vga_pos_def)
  define t1 where "t1 = t\<lparr>vmem := (vmem t)[vga_pos t := cell c]\<rparr>"
  define x where "x = (if unat (cursor_x t) = 79 then 0 else cursor_x t + 1)"
  define y where "y = (if unat (cursor_x t) = 79 then cursor_y t + 1 else cursor_y t)"
  have ux: "unat (cursor_x t + 1) = unat (cursor_x t) + 1" "unat (cursor_y t + 1) = unat (cursor_y t) + 1"
    using t by (intro unat_incr8; simp)+
  have xy: "unat x < 80" "unat y \<le> 25" "80 * unat y + unat x = vga_pos t + 1"
    using t by (auto simp: x_def y_def ux vga_pos_def)
  define s' where "s' = (if unat y \<noteq> 25 then move_cursor x y (t1\<lparr>cursor_x := x, cursor_y := y\<rparr>) else t1\<lparr>cursor_x := x, cursor_y := y\<rparr>)"
  have "vga_putc c s = Ret s'"
    using assms(2) pos t unfolding vga_putc_def Let_def max_y_def scrolled_def [symmetric] t_def [symmetric]
    by (auto simp: plain_char_def s'_def t1_def x_def y_def max_x_def ux cell_def)
  moreover have "vga_inv s'"
  proof (cases "unat y = 25")
    case True
    then show ?thesis using t xy by (simp add: s'_def t1_def vga_inv_def)
  next
    case False
    then show ?thesis using t xy unfolding s'_def by (simp only: if_True not_False_eq_True) (intro move_cursor_inv; simp add: t1_def)
  qed
  moreover have "vmem s' = (vmem t)[vga_pos t := cell c]" by (simp add: s'_def t1_def)
  moreover have "vga_pos s' = vga_pos t + 1" using xy(3) by (simp add: s'_def vga_pos_def)
  ultimately show ?thesis unfolding t_def by blast
qed

lemma putc_control:
  assumes "vga_inv s" and "\<not> plain_char c"
  shows "\<exists>s'. vga_putc c s = Ret s' \<and> vga_inv s'"
proof -
  define t where "t = scrolled s"
  have inv: "vga_inv t" and t: "length (vmem t) = 2000" "unat (cursor_x t) < 80" "unat (cursor_y t) < 25"
    using scrolled_inv [OF assms(1)] by (auto simp: t_def vga_inv_def)
  have u: "unat (cursor_y t + 1) = unat (cursor_y t) + 1" using t by (intro unat_incr8; simp)
  have ut: "unat (cursor_x t + 4) = unat (cursor_x t) + 4" using t by (simp add: unat_word_ariths)
  have st: "(if unat (cursor_y s) = max_y then vga_scroll_up s else s) = t" "(if unat (cursor_y t) = max_y then vga_scroll_up t else t) = t"
    using t by (simp_all add: t_def scrolled_def max_y_def)
  have putc: "vga_putc c s = vga_putc c t" unfolding vga_putc_def st ..
  from assms(2) consider "c = 0x0A" | "c = 0x09" | "c = 0x0D" | "c = 0x08" by (auto simp: plain_char_def)
  then show ?thesis
  proof cases
    case 1
    then show ?thesis unfolding putc using t u
      by (auto simp: vga_putc_def max_y_def Let_def intro!: move_cursor_inv) (simp add: vga_inv_def)
  next
    case 2
    then show ?thesis unfolding putc using t u ut scroll_inv
      by (auto simp: vga_putc_def max_y_def Let_def KTabWidth_def intro!: move_cursor_inv)
  next
    case 3
    then show ?thesis unfolding putc using t u
      by (auto simp: vga_putc_def max_y_def Let_def intro!: move_cursor_inv)
  next
    case 4
    then show ?thesis unfolding putc using t inv
      by (auto simp: vga_putc_def max_y_def Let_def unat_sub_if' intro!: move_cursor_inv)
  qed
qed

lemma putc_inv: "vga_inv s \<Longrightarrow> \<exists>s'. vga_putc c s = Ret s' \<and> vga_inv s'"
  using putc_plain putc_control by (cases "plain_char c") blast+

lemma vga_puts_inv:
  assumes "vga_inv s"
  shows "\<exists>s'. vga_puts cs s = Ret s' \<and> vga_inv s'"
  using assms
proof (induction cs arbitrary: s)
  case (Cons c cs)
  then show ?case using putc_inv [of s c] by (metis obind_simps(1) vga_puts.simps(2))
qed simp

text \<open>
  Whatever bytes are printed, the console never writes outside the screen, keeps its cursor on
  it, and after every string, unless the cursor is waiting for the next line to scroll, the
  hardware cursor is at the position of the driver's.
\<close>

theorem vga_puts_keeps_inv:
  assumes "vga_inv s"
  shows "\<exists>s'. vga_puts cs s = Ret s' \<and> vga_inv s'"
  using assms by (rule vga_puts_inv)

lemma clearscreen_screen:
  "length (vmem s) = 2000 \<Longrightarrow> vmem (vga_clearscreen s) = replicate 2000 0x0F20 \<and> vga_inv (vga_clearscreen s) \<and>
     vga_pos (vga_clearscreen s) = 0"
proof -
  assume l: "length (vmem s) = 2000"
  have "fold (\<lambda>i m. m[i := v]) [0..<2000] (vmem s) = replicate 2000 v" for v
    using fold_fill [of 0 2000 "vmem s" v] l by simp
  then show ?thesis using l unfolding vga_clearscreen_def Let_def max_x_def max_y_def
    by (auto simp: vattr_def vga_pos_def intro!: move_cursor_inv)
qed

definition vga_boot :: vga where
  "vga_boot = \<lparr>vmem = replicate 2000 0, cursor_x = 0, cursor_y = 0, ports = []\<rparr>"

lemma vga_boot_clear: "vga_inv (vga_init vga_boot)" "vga_pos (vga_init vga_boot) = 0" "cursor_y (vga_init vga_boot) = 0"
    "vmem (vga_init vga_boot) = replicate 2000 0x0F20"
  using clearscreen_screen [of vga_boot] by (simp_all add: vga_init_def vga_boot_def) (simp add: vga_clearscreen_def)

theorem vga_puts_keeps_inv_witness: "\<exists>s'. vga_puts [0x48, 0x0D, 0x0D, 0x0A, 0x09, 0x08, 0xFF] (vga_init vga_boot) = Ret s' \<and> vga_inv s'"
  by (rule vga_puts_keeps_inv [OF vga_boot_clear(1)])

text \<open>
  A string without control characters that fits on the rest of the screen appears there: its
  characters fill the cells from the cursor on, in reading order across line ends, with the
  attribute of the console; every other cell keeps its contents and the cursor ends behind it.
\<close>

theorem vga_puts_prints:
  assumes "vga_inv s" and "unat (cursor_y s) < 25" and "\<forall>c \<in> set cs. plain_char c" and "vga_pos s + length cs \<le> 2000"
  shows "\<exists>s'. vga_puts cs s = Ret s' \<and> vga_pos s' = vga_pos s + length cs \<and>
    vmem s' = take (vga_pos s) (vmem s) @ map cell cs @ drop (vga_pos s + length cs) (vmem s)"
  using assms
proof (induction cs arbitrary: s)
  case (Cons c cs)
  have sc: "scrolled s = s" using Cons.prems(2) by (simp add: scrolled_def)
  obtain t where t: "vga_putc c s = Ret t" "vga_inv t" "vmem t = (vmem s)[vga_pos s := cell c]" "vga_pos t = vga_pos s + 1"
    using putc_plain [OF Cons.prems(1), of c] Cons.prems(3) unfolding sc by auto
  have p: "vga_pos s < 2000" "length (vmem s) = 2000" using Cons.prems by (auto simp: vga_inv_def)
  have v: "vmem t = take (vga_pos s) (vmem s) @ cell c # drop (vga_pos s + 1) (vmem s)"
    using p t(3) by (simp add: upd_conv_take_nth_drop)
  show ?case
  proof (cases cs)
    case Nil
    then show ?thesis using t v by simp
  next
    case (Cons d ds)
    then have "unat (cursor_y t) < 25" using t(4) Cons.prems(4) by (simp add: vga_pos_def)
    then obtain u where u: "vga_puts cs t = Ret u" "vga_pos u = vga_pos t + length cs"
      "vmem u = take (vga_pos t) (vmem t) @ map cell cs @ drop (vga_pos t + length cs) (vmem t)"
      using Cons.IH [OF t(2)] Cons.prems t(4) by auto
    then show ?thesis using t(1,4) p by (auto simp: v add.commute)
  qed
qed simp

theorem vga_puts_prints_witness:
  "\<exists>s'. vga_puts [0x47, 0x4F] (vga_init vga_boot) = Ret s' \<and> vmem s' = [0x0F47, 0x0F4F] @ replicate 1998 0x0F20"
  using vga_puts_prints [OF vga_boot_clear(1), of "[0x47, 0x4F]"]
  by (auto simp: vga_boot_clear plain_char_def cell_def vattr_def)

text \<open>
  Printing at the end of a full screen scrolls it: every line moves up by one, the character
  starts the last line, and the rest of that line is filled with 0x0020, whose attribute is black
  on black, where the cleared screen has 0x0F20.
\<close>

theorem vga_putc_scrolls:
  assumes "vga_inv s" and "unat (cursor_y s) = 25" and "plain_char c"
  shows "\<exists>s'. vga_putc c s = Ret s' \<and> vmem s' = drop 80 (vmem s) @ cell c # replicate 79 0x0020 \<and> vga_pos s' = 1921"
proof -
  have l: "length (vmem s) = 2000" using assms(1) by (simp add: vga_inv_def)
  have sc: "scrolled s = vga_scroll_up s" using assms(2) by (simp add: scrolled_def)
  have p: "vga_pos (vga_scroll_up s) = 1920" using scroll_inv [OF l] by (simp add: vga_pos_def)
  have r: "replicate 80 x = x # replicate 79 x" for x :: u16 by (simp add: numeral_eq_Suc)
  show ?thesis
    using putc_plain [OF assms(1,3)] l unfolding sc p scroll_vmem [OF l] by (auto simp: list_update_append r)
qed

theorem vga_putc_scrolls_witness:
  "\<exists>s'. vga_putc 0x41 ((vga_clearscreen vga_boot)\<lparr>cursor_y := 25\<rparr>) = Ret s' \<and> vmem s' = replicate 1920 0x0F20 @ 0x0F41 # replicate 79 0x0020"
proof -
  have "vga_inv ((vga_clearscreen vga_boot)\<lparr>cursor_y := 25\<rparr>)"
    using clearscreen_screen [of vga_boot] by (simp add: vga_boot_def vga_inv_def)
  from vga_putc_scrolls [OF this, of "0x41"] show ?thesis
    using clearscreen_screen [of vga_boot] by (auto simp: plain_char_def cell_def vattr_def vga_boot_def)
qed

end
