(* ===== verification/Descriptors.thy ===== *)
theory Descriptors
  imports Prelude
begin

text \<open>
  The descriptor tables: arch/i386/kernel/gdt.c and idt.c with their headers. The addresses of the
  tables and of the interrupt stubs of vectors.S are parameters; the loads of the processor
  registers (gdt_flush, lidt) are the register records that the functions return. What the
  processor reads in a descriptor, the layout of the i386 manual, is defined apart from the code
  that writes it, so that writing can be checked against reading.
\<close>

section \<open>The global descriptor table\<close>

record segment_descriptor =
  seg_limit_low :: u16
  base_addr_low :: u16
  base_addr_middle :: u8
  flags_1 :: u8
  flags_2 :: u8
  base_addr_high :: u8

record GDTR_val =
  table_limit :: u16
  table_base_addr :: u32

definition DEFAULT_GDT_SIZE :: nat where "DEFAULT_GDT_SIZE = 6"
definition CODE_NO_CONFIRMING_NO_R :: u32 where "CODE_NO_CONFIRMING_NO_R = 8"
definition DATA_EXPAND_UP_RW :: u32 where "DATA_EXPAND_UP_RW = 2"
definition DESC_CODEDATA :: u32 where "DESC_CODEDATA = 1"
definition DESC_SVC :: u32 where "DESC_SVC = 0"
definition GBL_DESC_DEFAULT_OPERATION_SIZE_32BIT :: u32 where "GBL_DESC_DEFAULT_OPERATION_SIZE_32BIT = push_bit 6 1"
definition GBL_DESC_GRANULARITY_4KB :: u32 where "GBL_DESC_GRANULARITY_4KB = push_bit 7 1"
definition GBL_DESC_SEGMENT_PRESENT :: u32 where "GBL_DESC_SEGMENT_PRESENT = push_bit 7 1"

definition zero_segment :: segment_descriptor where
  "zero_segment = \<lparr>seg_limit_low = 0, base_addr_low = 0, base_addr_middle = 0, flags_1 = 0, flags_2 = 0, base_addr_high = 0\<rparr>"

definition add_gdt_entry :: "nat \<Rightarrow> u32 \<Rightarrow> u32 \<Rightarrow> u32 \<Rightarrow> u32 \<Rightarrow> u32 \<Rightarrow> u32 \<Rightarrow> u32 \<Rightarrow> segment_descriptor list \<Rightarrow>
    segment_descriptor list outcome" where
  "add_gdt_entry gdt_index seg_base seg_limit seg_type desc_type desc_priv_level default_operation_size granularity GDT =
     (if length GDT \<le> gdt_index then Trap
      else Ret (GDT[gdt_index :=
        \<lparr>seg_limit_low = ucast (seg_limit AND 0xFFFF),
         base_addr_low = ucast (seg_base AND 0xFFFF),
         base_addr_middle = ucast (drop_bit 16 (seg_base AND 0x00FF0000)),
         flags_1 = ucast (GBL_DESC_SEGMENT_PRESENT OR push_bit 5 desc_priv_level OR push_bit 4 desc_type OR seg_type),
         flags_2 = ucast (granularity OR default_operation_size OR drop_bit 16 (seg_limit AND 0x000F0000)),
         base_addr_high = ucast (drop_bit 24 (seg_base AND 0xFF000000))\<rparr>]))"

definition init_GDT :: "u32 \<Rightarrow> (segment_descriptor list \<times> GDTR_val) outcome" where
  "init_GDT addr_GDT =
     obind (add_gdt_entry 1 0 0xFFFFF CODE_NO_CONFIRMING_NO_R DESC_CODEDATA DESC_SVC
              GBL_DESC_DEFAULT_OPERATION_SIZE_32BIT GBL_DESC_GRANULARITY_4KB (replicate DEFAULT_GDT_SIZE zero_segment)) (\<lambda>GDT.
     obind (add_gdt_entry 2 0 0xFFFFF DATA_EXPAND_UP_RW DESC_CODEDATA DESC_SVC
              GBL_DESC_DEFAULT_OPERATION_SIZE_32BIT GBL_DESC_GRANULARITY_4KB GDT) (\<lambda>GDT.
     Ret (GDT, \<lparr>table_limit = of_nat (8 * DEFAULT_GDT_SIZE), table_base_addr = addr_GDT\<rparr>)))"

text \<open>The base and the limit as print_global_desc_table decodes them.\<close>

definition segment_base_address :: "segment_descriptor \<Rightarrow> u32" where
  "segment_base_address d =
     push_bit 24 (ucast (base_addr_high d)) OR push_bit 16 (ucast (base_addr_middle d)) OR ucast (base_addr_low d)"

definition segment_limit :: "segment_descriptor \<Rightarrow> u32" where
  "segment_limit d = push_bit 16 (ucast (flags_2 d) AND 0x0F) OR ucast (seg_limit_low d)"

text \<open>What the processor reads: the last byte of the segment, and the access byte.\<close>

definition last_byte :: "segment_descriptor \<Rightarrow> u32" where
  "last_byte d = (if bit (flags_2 d) 7 then push_bit 12 (segment_limit d) OR 0xFFF else segment_limit d)"

definition seg_present :: "segment_descriptor \<Rightarrow> bool" where "seg_present d = bit (flags_1 d) 7"
definition seg_dpl :: "segment_descriptor \<Rightarrow> u8" where "seg_dpl d = drop_bit 5 (flags_1 d) AND 3"
definition seg_is_codedata :: "segment_descriptor \<Rightarrow> bool" where "seg_is_codedata d = bit (flags_1 d) 4"
definition seg_type_of :: "segment_descriptor \<Rightarrow> u8" where "seg_type_of d = flags_1 d AND 0xF"

section \<open>The interrupt descriptor table\<close>

record interrupt_descriptor =
  offset_low :: u16
  segment_selector :: u16
  zero_area :: u8
  iflags :: u8
  offset_high :: u16

record IDTR_val =
  idt_limit :: u16
  idt_base_addr :: u32

definition TOTAL_IDT_ENTRIES :: nat where "TOTAL_IDT_ENTRIES = 256"
definition INT_DESC_GATESIZE32BIT :: u32 where "INT_DESC_GATESIZE32BIT = push_bit 3 1"

definition zero_gate :: interrupt_descriptor where
  "zero_gate = \<lparr>offset_low = 0, segment_selector = 0, zero_area = 0, iflags = 0, offset_high = 0\<rparr>"

definition idt_gate :: "u16 \<Rightarrow> u32 \<Rightarrow> u32 \<Rightarrow> u32 \<Rightarrow> interrupt_descriptor" where
  "idt_gate selector segment_offset descriptor_priv_level gate_size =
     \<lparr>offset_low = ucast (segment_offset AND 0x0000FFFF),
      segment_selector = selector,
      zero_area = 0,
      iflags = ucast (0x80 OR push_bit 5 descriptor_priv_level OR gate_size OR 0x07),
      offset_high = ucast (drop_bit 16 (segment_offset AND 0xFFFF0000))\<rparr>"

definition add_idt_entry :: "nat \<Rightarrow> u16 \<Rightarrow> u32 \<Rightarrow> u32 \<Rightarrow> u32 \<Rightarrow> interrupt_descriptor list \<Rightarrow> interrupt_descriptor list outcome" where
  "add_idt_entry idt_index selector segment_offset descriptor_priv_level gate_size IDT =
     (if length IDT \<le> idt_index then Trap
      else Ret (IDT[idt_index := idt_gate selector segment_offset descriptor_priv_level gate_size]))"

text \<open>The calls with the indices from \<open>i\<close> on, the stub of index \<open>i\<close> being \<open>stub i\<close>.\<close>

fun add_idt_entries :: "nat \<Rightarrow> nat \<Rightarrow> (nat \<Rightarrow> u32) \<Rightarrow> interrupt_descriptor list \<Rightarrow> interrupt_descriptor list outcome" where
  "add_idt_entries i 0 stub IDT = Ret IDT"
| "add_idt_entries i (Suc n) stub IDT =
     obind (add_idt_entry i 0x08 (stub i) DESC_SVC INT_DESC_GATESIZE32BIT IDT) (add_idt_entries (i + 1) n stub)"

text \<open>Entries 0 to 38 have a stub of their own; the loop gives the others the stub of vector 20.\<close>

definition init_Interrupt_Descriptor_Table :: "(nat \<Rightarrow> u32) \<Rightarrow> u32 \<Rightarrow> (interrupt_descriptor list \<times> IDTR_val) outcome" where
  "init_Interrupt_Descriptor_Table ISR addr_IDT =
     obind (add_idt_entries 0 39 ISR (replicate TOTAL_IDT_ENTRIES zero_gate)) (\<lambda>IDT.
     obind (add_idt_entries 39 (256 - 39) (\<lambda>_. ISR 20) IDT) (\<lambda>IDT.
     Ret (IDT, \<lparr>idt_limit = of_nat (8 * TOTAL_IDT_ENTRIES) - 1, idt_base_addr = addr_IDT\<rparr>)))"

text \<open>The offset as print_interrupt_desc_table decodes it, and the flags as the processor reads them.\<close>

definition segment_offset :: "interrupt_descriptor \<Rightarrow> u32" where
  "segment_offset d = push_bit 16 (ucast (offset_high d)) OR ucast (offset_low d)"

definition gate_present :: "interrupt_descriptor \<Rightarrow> bool" where "gate_present d = bit (iflags d) 7"
definition gate_type :: "interrupt_descriptor \<Rightarrow> u8" where "gate_type d = iflags d AND 0xF"
definition SYS_32BIT_INT_GATE :: u8 where "SYS_32BIT_INT_GATE = 14"
definition SYS_32BIT_TRAP_GATE :: u8 where "SYS_32BIT_TRAP_GATE = 15"

section \<open>Writing and reading descriptors\<close>

text \<open>The masks of the code, as runs of bits.\<close>

lemma masks_u32:
  "(0xFFFF :: u32) = mask 16" "(0x00FF0000 :: u32) = push_bit 16 (mask 8)" "(0xFF000000 :: u32) = push_bit 24 (mask 8)"
  "(0x000F0000 :: u32) = push_bit 16 (mask 4)" "(0x0F :: u32) = mask 4" "(0xFFFF0000 :: u32) = push_bit 16 (mask 16)"
  by (simp_all add: mask_eq_exp_minus_1)

lemma base_roundtrip:
  "push_bit 24 (ucast (ucast (drop_bit 24 (b AND 0xFF000000)) :: u8)) OR
   push_bit 16 (ucast (ucast (drop_bit 16 (b AND 0x00FF0000)) :: u8)) OR
   ucast (ucast (b AND 0xFFFF) :: u16) = (b :: u32)" (is "?l = _")
proof (rule bit_word_eqI)
  fix n
  assume n: "n < LENGTH(32)"
  show "bit ?l n = bit b n"
    using n unfolding masks_u32 by (cases "n < 16"; cases "n < 24") (auto simp: bit_simps)
qed

lemma limit_roundtrip:
  assumes "granularity AND 0xF = 0" and "op_size AND 0xF = 0"
  shows "push_bit 16 (ucast (ucast (granularity OR op_size OR drop_bit 16 (l AND 0x000F0000)) :: u8) AND 0x0F) OR
    ucast (ucast (l AND 0xFFFF) :: u16) = take_bit 20 (l :: u32)"
proof -
  have g: "\<not> bit granularity n" "\<not> bit op_size n" if "n < 4" for n
    using assms [THEN arg_cong [where f = "\<lambda>w. bit w n"]] that unfolding masks_u32 by (simp_all add: bit_simps)
  show ?thesis unfolding masks_u32 by (rule bit_word_eqI) (auto simp: bit_simps g)
qed

lemma offset_roundtrip:
  "push_bit 16 (ucast (ucast (drop_bit 16 (x AND 0xFFFF0000)) :: u16)) OR ucast (ucast (x AND 0x0000FFFF) :: u16) = (x :: u32)"
  unfolding masks_u32 by (rule bit_word_eqI) (auto simp: bit_simps)

text \<open>The access byte, for all its fields.\<close>

lemma access_byte_table:
  "list_all (\<lambda>s. list_all (\<lambda>t. list_all (\<lambda>p.
    let f = (ucast (GBL_DESC_SEGMENT_PRESENT OR push_bit 5 p OR push_bit 4 t OR s :: u32) :: u8)
    in bit f 7 \<and> ucast (drop_bit 5 f AND 3) = p \<and> (bit f 4 \<longleftrightarrow> t = 1) \<and> ucast (f AND 0xF) = s)
   [0, 1, 2, 3]) [0, 1]) [0, 1, 2, 3, 4, 5, 6, 7, 8, 9, 10, 11, 12, 13, 14, 15]"
  by (simp add: Let_def GBL_DESC_SEGMENT_PRESENT_def)

lemma small_word_cases:
  fixes w :: u32
  shows "w < 2 \<Longrightarrow> w \<in> set [0, 1]" "w < 4 \<Longrightarrow> w \<in> set [0, 1, 2, 3]"
    "w < 16 \<Longrightarrow> w \<in> set [0, 1, 2, 3, 4, 5, 6, 7, 8, 9, 10, 11, 12, 13, 14, 15]"
  by (simp_all add: word_less_nat_alt word_unat_eq_iff) presburger+

lemma access_byte:
  assumes "seg_type < 16" and "desc_type < 2" and "dpl < 4"
    and "f = (ucast (GBL_DESC_SEGMENT_PRESENT OR push_bit 5 dpl OR push_bit 4 desc_type OR seg_type :: u32) :: u8)"
  shows "bit f 7" "ucast (drop_bit 5 f AND 3) = dpl" "bit f 4 \<longleftrightarrow> desc_type = 1" "ucast (f AND 0xF) = seg_type"
  using access_byte_table small_word_cases(3) [OF assms(1)] small_word_cases(1) [OF assms(2)] small_word_cases(2) [OF assms(3)]
  unfolding list_all_iff Let_def assms(4) by blast+

text \<open>
  A segment descriptor that the kernel writes decodes to what it was written for: for every
  index of the table, base, limit below 2^20, type, kind and privilege level, the other entries
  stay, and base, limit, presence, kind, privilege and type of the entry read back unchanged.
\<close>

theorem add_gdt_entry_roundtrip:
  assumes "i < length GDT" and "seg_limit < 0x100000" and "seg_type < 16" and "desc_type < 2" and "dpl < 4"
    and "granularity AND 0xF = 0" and "op_size AND 0xF = 0"
  shows "\<exists>d. add_gdt_entry i seg_base seg_limit seg_type desc_type dpl op_size granularity GDT = Ret (GDT[i := d]) \<and>
    segment_base_address d = seg_base \<and> segment_limit d = seg_limit \<and> seg_present d \<and>
    ucast (seg_dpl d) = dpl \<and> (seg_is_codedata d \<longleftrightarrow> desc_type = 1) \<and> ucast (seg_type_of d) = seg_type"
proof -
  let ?f1 = "ucast (GBL_DESC_SEGMENT_PRESENT OR push_bit 5 dpl OR push_bit 4 desc_type OR seg_type) :: u8"
  have "take_bit 20 seg_limit = seg_limit"
    using assms(2) by (simp add: word_less_nat_alt word_unat_eq_iff unsigned_take_bit_eq take_bit_nat_eq_self)
  then show ?thesis
    using assms(1) base_roundtrip [of seg_base] limit_roundtrip [OF assms(6,7), of seg_limit] access_byte [OF assms(3-5) refl]
    unfolding add_gdt_entry_def segment_base_address_def segment_limit_def seg_present_def seg_dpl_def seg_is_codedata_def seg_type_of_def
    by (intro exI [of _ "\<lparr>seg_limit_low = ucast (seg_limit AND 0xFFFF), base_addr_low = ucast (seg_base AND 0xFFFF),
         base_addr_middle = ucast (drop_bit 16 (seg_base AND 0x00FF0000)), flags_1 = ?f1,
         flags_2 = ucast (granularity OR op_size OR drop_bit 16 (seg_limit AND 0x000F0000)),
         base_addr_high = ucast (drop_bit 24 (seg_base AND 0xFF000000))\<rparr>"])
      (simp only: linorder_not_le [THEN sym] if_False segment_descriptor.select_convs simp_thms)
qed

theorem add_gdt_entry_roundtrip_witness:
  "\<exists>d. add_gdt_entry 1 0x12345678 0xABCDE 2 1 3 0x40 0x80 (replicate 6 zero_segment) = Ret ((replicate 6 zero_segment)[1 := d]) \<and>
    segment_base_address d = 0x12345678 \<and> segment_limit d = 0xABCDE"
  using add_gdt_entry_roundtrip [of 1 "replicate 6 zero_segment" "0xABCDE" 2 1 3 "0x80" "0x40" "0x12345678"] by auto

definition flat_segment :: "segment_descriptor \<Rightarrow> bool" where
  "flat_segment d \<longleftrightarrow> segment_base_address d = 0 \<and> last_byte d = 0xFFFFFFFF \<and>
     seg_present d \<and> seg_dpl d = 0 \<and> seg_is_codedata d"

text \<open>
  The kernel runs in flat segments: init_GDT fills entry 1 with a present ring 0 code segment
  and entry 2 with a present ring 0 writable data segment, both with base 0 and last byte
  0xFFFFFFFF, and leaves the null descriptor and the rest empty. The limit it loads for the table
  is its size, 48, where the last byte is 47.
\<close>

theorem init_GDT_flat:
  "\<exists>c d. init_GDT addr = Ret ([zero_segment, c, d, zero_segment, zero_segment, zero_segment],
        \<lparr>table_limit = 48, table_base_addr = addr\<rparr>) \<and>
     flat_segment c \<and> flat_segment d \<and> seg_type_of c = 8 \<and> seg_type_of d = 2"
proof -
  have r: "replicate 6 z = [z, z, z, z, z, z]" for z :: segment_descriptor by (simp add: numeral_eq_Suc)
  have u: "[a, b, c, x, y, z][2 := d] = [a, b, d, x, y, z]" for a b c d x y z :: segment_descriptor
    by (simp add: numeral_2_eq_2)
  let ?c = "\<lparr>seg_limit_low = 0xFFFF, base_addr_low = 0, base_addr_middle = 0, flags_1 = 0x98, flags_2 = 0xCF, base_addr_high = 0\<rparr>"
  let ?d = "\<lparr>seg_limit_low = 0xFFFF, base_addr_low = 0, base_addr_middle = 0, flags_1 = 0x92, flags_2 = 0xCF, base_addr_high = 0\<rparr>"
  have "init_GDT addr = Ret ([zero_segment, ?c, ?d, zero_segment, zero_segment, zero_segment], \<lparr>table_limit = 48, table_base_addr = addr\<rparr>)"
    by (simp add: init_GDT_def add_gdt_entry_def DEFAULT_GDT_SIZE_def r u CODE_NO_CONFIRMING_NO_R_def DATA_EXPAND_UP_RW_def
        DESC_CODEDATA_def DESC_SVC_def GBL_DESC_DEFAULT_OPERATION_SIZE_32BIT_def GBL_DESC_GRANULARITY_4KB_def GBL_DESC_SEGMENT_PRESENT_def)
  then show ?thesis
    by (intro exI [of _ ?c] exI [of _ ?d])
      (simp add: flat_segment_def segment_base_address_def segment_limit_def last_byte_def seg_present_def seg_dpl_def seg_is_codedata_def seg_type_of_def)
qed

lemma idt_gates:
  "\<exists>IDT. init_Interrupt_Descriptor_Table ISR addr = Ret (IDT, \<lparr>idt_limit = 2047, idt_base_addr = addr\<rparr>) \<and>
     map (\<lambda>d. (gate_present d, segment_selector d, segment_offset d, gate_type d)) IDT =
     map (\<lambda>v. (True, 8, ISR (if v < 39 then v else 20), SYS_32BIT_TRAP_GATE)) [0..<256]"
proof -
  have n: "\<exists>IDT'. add_idt_entries i n stub IDT = Ret IDT' \<and> length IDT' = length IDT \<and>
      (\<forall>v < length IDT. IDT' ! v = (if i \<le> v \<and> v < i + n then idt_gate 8 (stub v) DESC_SVC INT_DESC_GATESIZE32BIT else IDT ! v))"
    if "i + n \<le> length IDT" for i n stub IDT
    using that
  proof (induction n arbitrary: i IDT)
    case (Suc n)
    then show ?case
      using Suc.IH [of "i + 1" "IDT[i := idt_gate 8 (stub i) DESC_SVC INT_DESC_GATESIZE32BIT]"]
      by (auto simp: add_idt_entry_def nth_list_update) (metis le_antisym not_less_eq_eq)
  qed auto
  obtain I1 where I1: "add_idt_entries 0 39 ISR (replicate 256 zero_gate) = Ret I1" "length I1 = 256"
    "\<forall>v < 256. I1 ! v = (if v < 39 then idt_gate 8 (ISR v) DESC_SVC INT_DESC_GATESIZE32BIT else replicate 256 zero_gate ! v)"
    using n [of 0 39 "replicate 256 zero_gate" ISR] by auto
  obtain I2 where I2: "add_idt_entries 39 217 (\<lambda>_. ISR 20) I1 = Ret I2" "length I2 = 256"
    "\<forall>v < 256. I2 ! v = (if 39 \<le> v then idt_gate 8 (ISR 20) DESC_SVC INT_DESC_GATESIZE32BIT else I1 ! v)"
    using n [of 39 217 I1 "\<lambda>_. ISR 20"] I1(2) by auto
  have g: "gate_present (idt_gate 8 a DESC_SVC INT_DESC_GATESIZE32BIT)" "segment_selector (idt_gate 8 a DESC_SVC INT_DESC_GATESIZE32BIT) = 8"
    "segment_offset (idt_gate 8 a DESC_SVC INT_DESC_GATESIZE32BIT) = a"
    "gate_type (idt_gate 8 a DESC_SVC INT_DESC_GATESIZE32BIT) = SYS_32BIT_TRAP_GATE" for a
    using offset_roundtrip [of a]
    by (simp_all add: gate_present_def gate_type_def segment_offset_def idt_gate_def DESC_SVC_def INT_DESC_GATESIZE32BIT_def SYS_32BIT_TRAP_GATE_def)
  have gate: "I2 ! v = idt_gate 8 (ISR (if v < 39 then v else 20)) DESC_SVC INT_DESC_GATESIZE32BIT" if "v < 256" for v
    using that I1(3) I2(3) by auto
  have "init_Interrupt_Descriptor_Table ISR addr = Ret (I2, \<lparr>idt_limit = 2047, idt_base_addr = addr\<rparr>)"
    using I1(1) I2(1) by (simp add: init_Interrupt_Descriptor_Table_def TOTAL_IDT_ENTRIES_def)
  moreover have "map (\<lambda>d. (gate_present d, segment_selector d, segment_offset d, gate_type d)) I2 =
      map (\<lambda>v. (True, 8, ISR (if v < 39 then v else 20), SYS_32BIT_TRAP_GATE)) [0..<256]"
    using I2(2) by (intro nth_equalityI) (simp_all add: gate g del: upt_Suc)
  ultimately show ?thesis by blast
qed


text \<open>
  Every one of the 256 interrupt vectors has a present gate into the kernel code segment, with
  its own stub up to vector 38 and the stub of vector 20 above. All gates are trap gates, not
  interrupt gates: the processor does not mask interrupts when it enters a handler.
\<close>

theorem init_idt_gates:
  "\<exists>IDT. init_Interrupt_Descriptor_Table ISR addr = Ret (IDT, \<lparr>idt_limit = 2047, idt_base_addr = addr\<rparr>) \<and>
     map (\<lambda>d. (gate_present d, segment_selector d, segment_offset d, gate_type d)) IDT =
     map (\<lambda>v. (True, 8, ISR (if v < 39 then v else 20), SYS_32BIT_TRAP_GATE)) [0..<256]"
  by (rule idt_gates)

end
