(* ===== verification/Interrupts.thy ===== *)
theory Interrupts
  imports Ports Vsprintf
begin

text \<open>
  Interrupts and their hardware: the dispatcher of arch/i386/kernel/isr.c, the two interrupt
  controllers of apic.c and the timer of timer.c. A handler is a function pointer, here a value of
  a type parameter; the state the dispatcher leaves is the port log and the handler that it calls.
  The delays between port writes have no effect but time: \<open>delay_count\<close> is the number of
  iterations of the loop.
\<close>

section \<open>The dispatcher\<close>

definition MAX_ISR_NUMBER :: nat where "MAX_ISR_NUMBER = 32 + 16"
definition TIMER_INTERRUPT :: int where "TIMER_INTERRUPT = 0x20"
definition KBD_INTERRUPT :: int where "KBD_INTERRUPT = 0x21"

record 'h isrs =
  isr_handlers :: "'h option list"
  isr_dispatcher_initialized :: bool

definition isrs_boot :: "'h isrs" where
  "isrs_boot = \<lparr>isr_handlers = replicate MAX_ISR_NUMBER None, isr_dispatcher_initialized = False\<rparr>"

definition init_isr_dispatcher :: "'h isrs \<Rightarrow> 'h isrs" where
  "init_isr_dispatcher s =
     s\<lparr>isr_handlers := fold (\<lambda>i hs. hs[i := None]) [0..<MAX_ISR_NUMBER] (isr_handlers s),
       isr_dispatcher_initialized := True\<rparr>"

text \<open>Both checks hang the kernel; the index is not checked.\<close>

definition add_isr_handler :: "int \<Rightarrow> 'h option \<Rightarrow> 'h isrs \<Rightarrow> 'h isrs outcome" where
  "add_isr_handler irq_no isr s =
     (if \<not> isr_dispatcher_initialized s then Hang
      else case isr of
        None \<Rightarrow> Hang
      | Some h \<Rightarrow>
          if irq_no < 0 \<or> int (length (isr_handlers s)) \<le> irq_no then Trap
          else Ret (s\<lparr>isr_handlers := (isr_handlers s)[nat irq_no := Some h]\<rparr>))"

definition isr_handler :: "u32 \<Rightarrow> 'h isrs \<Rightarrow> port_log \<Rightarrow> (port_log \<times> 'h option) outcome" where
  "isr_handler int_no s log =
     (let log = (if 32 \<le> int_no \<and> int_no \<le> 47
                 then outb 0x20 0x20 (if 40 \<le> int_no then outb 0xA0 0x20 log else log)
                 else log)
      in if length (isr_handlers s) \<le> unat int_no then Trap
         else Ret (log, isr_handlers s ! unat int_no))"

section \<open>The interrupt controllers\<close>

definition delay_count :: "u32 \<Rightarrow> nat" where
  "delay_count n = (if n = 0 then 2000000 else unat n)"

definition init_APIC :: "port_log \<Rightarrow> int \<times> port_log" where
  "init_APIC log =
     (let log = outb 0x20 0x11 log;
          log = outb 0xA0 0x11 log;
          log = outb 0x21 0x20 log;
          log = outb 0xA1 0x28 log;
          log = outb 0x21 0x04 log;
          log = outb 0xA1 0x02 log;
          log = outb 0x21 0x01 log;
          log = outb 0xA1 0x01 log;
          log = outb 0x21 0x00 log;
          log = outb 0xA1 0x00 log
      in (0, log))"

text \<open>The two read-outs print what they read; \<open>inb\<close> is the hardware's answer after a log.\<close>

definition read_int_request_reg :: "(port_log \<Rightarrow> u16 \<Rightarrow> u8) \<Rightarrow> port_log \<Rightarrow> (u8 \<times> u8 \<times> port_log \<times> string) outcome" where
  "read_int_request_reg inb log =
     (let log = outb 0x20 0x02 log; m = inb log 0x20;
          log = outb 0xA0 0x02 log; s = inb log 0xA0
      in obind (printk ''M_IRR = %x S_IRR = %x\<newline>'' [VInt (ucast m), VInt (ucast s)]) (\<lambda>(out, _).
         Ret (m, s, log, out)))"

definition read_in_service_reg :: "(port_log \<Rightarrow> u16 \<Rightarrow> u8) \<Rightarrow> port_log \<Rightarrow> (u8 \<times> u8 \<times> port_log \<times> string) outcome" where
  "read_in_service_reg inb log =
     (let log = outb 0x20 0x01 log; m = inb log 0x20;
          log = outb 0xA0 0x01 log; s = inb log 0xA0
      in obind (printk ''M_ISR = %x S_ISR = %x\<newline>'' [VInt (ucast m), VInt (ucast s)]) (\<lambda>(out, _).
         Ret (m, s, log, out)))"

section \<open>The timer\<close>

definition HZ :: u32 where "HZ = 1000"

definition print_timer0_val :: "(port_log \<Rightarrow> u16 \<Rightarrow> nat \<Rightarrow> u8) \<Rightarrow> port_log \<Rightarrow> (string \<times> port_log) outcome" where
  "print_timer0_val inb log =
     (let log = outb 0x43 0x00 log;
          timer_val = (ucast (inb log 0x40 0) :: u32);
          temp = (ucast (inb log 0x40 1) :: u32);
          timer_val = timer_val OR push_bit 8 temp
      in obind (printk ''%d\<newline>'' [VInt timer_val]) (\<lambda>(out, _). Ret (out, log)))"

definition init_timer :: "u32 \<Rightarrow> port_log \<Rightarrow> port_log outcome" where
  "init_timer frequency log =
     (if frequency = 0 then Trap
      else let divisor = 1193180 div frequency;
               log = outb 0x43 0x36 log;
               l = ucast (divisor AND 0xFF);
               h = ucast (drop_bit 8 divisor AND 0xFF)
           in Ret (outb 0x40 h (outb 0x40 l log)))"

text \<open>The tick only asks for a reschedule.\<close>

definition timer_isr :: "u32 \<Rightarrow> u32" where "timer_isr schedule_request = 0x10"

section \<open>Properties of the dispatcher\<close>

definition isrs_inv :: "'h isrs \<Rightarrow> bool" where
  "isrs_inv s \<longleftrightarrow> length (isr_handlers s) = 48"

lemma fold_clear:
  "n \<le> length xs \<Longrightarrow> fold (\<lambda>i hs. hs[i := v]) [0..<n] xs = replicate n v @ drop n xs"
proof (induction n)
  case (Suc n)
  then have "drop n xs = xs ! n # drop (Suc n) xs" by (simp add: Cons_nth_drop_Suc)
  then show ?case using Suc by (simp add: list_update_append replicate_append_same [symmetric])
qed simp

lemma init_isr_dispatcher_empty: "isrs_inv s \<Longrightarrow> isr_handlers (init_isr_dispatcher s) = replicate 48 None"
  using fold_clear [of 48 "isr_handlers s" None] by (simp add: init_isr_dispatcher_def MAX_ISR_NUMBER_def isrs_inv_def)

lemma boot_isrs: "isrs_inv (init_isr_dispatcher isrs_boot)" "isr_dispatcher_initialized (init_isr_dispatcher isrs_boot)"
  unfolding isrs_inv_def by (subst init_isr_dispatcher_empty) (simp_all add: isrs_inv_def isrs_boot_def MAX_ISR_NUMBER_def init_isr_dispatcher_def)

text \<open>The acknowledgements that the controllers expect for a vector.\<close>

definition eoi :: "nat \<Rightarrow> port_log" where
  "eoi v = (if 40 \<le> v \<and> v \<le> 47 then [(0xA0, 0x20), (0x20, 0x20)] else if 32 \<le> v \<and> v < 40 then [(0x20, 0x20)] else [])"

text \<open>
  After registering a handler for an interrupt number in range, that interrupt calls exactly
  that handler and every other one what it called before; each hardware interrupt is acknowledged
  first, at the slave controller from 40 on and at the master always.
\<close>

theorem isr_dispatches_registered:
  assumes "isrs_inv s" and "isr_dispatcher_initialized s" and "0 \<le> irq" and "irq < 48"
  shows "\<exists>s'. add_isr_handler irq (Some h) s = Ret s' \<and> isrs_inv s' \<and>
    (\<forall>v < 48. isr_handler (of_nat v) s' log = Ret (log @ eoi v, if int v = irq then Some h else isr_handlers s ! v))"
proof -
  define s' where "s' = s\<lparr>isr_handlers := (isr_handlers s)[nat irq := Some h]\<rparr>"
  have l: "length (isr_handlers s) = 48" using assms(1) by (simp add: isrs_inv_def)
  have "add_isr_handler irq (Some h) s = Ret s'" using assms l by (simp add: add_isr_handler_def s'_def)
  moreover have "isr_handler (of_nat v) s' log = Ret (log @ eoi v, if int v = irq then Some h else isr_handlers s ! v)"
    if "v < 48" for v
  proof -
    have v: "unat (of_nat v :: u32) = v" using that by (simp add: unat_of_nat take_bit_nat_eq_self)
    have c: "32 \<le> (of_nat v :: u32) \<longleftrightarrow> 32 \<le> v" "(of_nat v :: u32) \<le> 47 \<longleftrightarrow> v \<le> 47" "40 \<le> (of_nat v :: u32) \<longleftrightarrow> 40 \<le> v"
      unfolding word_le_nat_alt v by simp_all
    have "isr_handlers s' ! v = (if int v = irq then Some h else isr_handlers s ! v)"
      using that assms(3,4) l by (auto simp: s'_def nth_list_update)
    then show ?thesis using that l by (auto simp: isr_handler_def v c s'_def eoi_def outb_def Let_def)
  qed
  ultimately show ?thesis using l by (auto simp: isrs_inv_def s'_def)
qed

theorem isr_dispatches_registered_witness:
  "\<exists>s'. add_isr_handler 0x21 (Some ''kbd_isr'') (init_isr_dispatcher isrs_boot) = Ret s' \<and>
     isr_handler 33 s' [] = Ret ([(0x20, 0x20)], Some ''kbd_isr'')"
proof -
  obtain s' where s': "add_isr_handler 0x21 (Some ''kbd_isr'') (init_isr_dispatcher isrs_boot) = Ret s'"
    "\<forall>v < 48. isr_handler (of_nat v) s' [] = Ret ([] @ eoi v, if int v = 0x21 then Some ''kbd_isr'' else isr_handlers (init_isr_dispatcher isrs_boot) ! v)"
    using isr_dispatches_registered [OF boot_isrs, of "0x21" "''kbd_isr''" "[]"] by auto
  then have "isr_handler 33 s' [] = Ret ([(0x20, 0x20)], Some ''kbd_isr'')"
    using s'(2) [rule_format, of 33] by (simp add: eoi_def)
  with s'(1) show ?thesis by blast
qed

section \<open>Properties of the controllers and the timer\<close>

text \<open>
  The 8259 as its data sheet describes it: a write of ICW1 to the command port starts a sequence
  in which the data port takes ICW2 (the vector base), ICW3 and ICW4; afterwards it is the mask.
\<close>

record pic =
  icw :: nat
  vector_base :: u8
  cascade :: u8
  mode :: u8
  irq_mask :: u8

definition pic_reset :: pic where
  "pic_reset = \<lparr>icw = 0, vector_base = 0, cascade = 0, mode = 0, irq_mask = 0xFF\<rparr>"

fun pic_write :: "u16 \<Rightarrow> u16 \<times> u8 \<Rightarrow> pic \<Rightarrow> pic" where
  "pic_write base (port, v) p =
     (if port = base \<and> bit v 4 then p\<lparr>icw := 1\<rparr>
      else if port = base + 1
      then (if icw p = 1 then p\<lparr>vector_base := v, icw := 2\<rparr>
            else if icw p = 2 then p\<lparr>cascade := v, icw := 3\<rparr>
            else if icw p = 3 then p\<lparr>mode := v, icw := 0\<rparr>
            else p\<lparr>irq_mask := v\<rparr>)
      else p)"

text \<open>
  The initialisation of the interrupt controllers, run through the command sequence of the
  8259: master and slave end with their vectors at 32 and 40, the slave on line 2 of the master,
  in 8086 mode, and with no interrupt masked (the comment says all are masked).
\<close>

theorem init_APIC_programs_pics:
  "\<exists>log. init_APIC [] = (0, log) \<and>
     fold (pic_write 0x20) log pic_reset = \<lparr>icw = 0, vector_base = 32, cascade = push_bit 2 1, mode = 1, irq_mask = 0\<rparr> \<and>
     fold (pic_write 0xA0) log pic_reset = \<lparr>icw = 0, vector_base = 40, cascade = 2, mode = 1, irq_mask = 0\<rparr>"
  by (simp add: init_APIC_def outb_def pic_reset_def)

text \<open>
  For every frequency from 19 Hz to 1193180 Hz the timer is programmed with the divisor of its
  input clock, low byte first, and the divisor fits the 16 bits of the counter; below 19 Hz the
  divisor would be cut off.
\<close>

theorem init_timer_divisor:
  assumes "19 \<le> f" and "f \<le> 1193180"
  shows "\<exists>l h. init_timer f [] = Ret [(0x43, 0x36), (0x40, l), (0x40, h)] \<and>
    256 * unat h + unat l = 1193180 div unat f \<and> 0 < 1193180 div unat f"
proof -
  define d where "d = 1193180 div f"
  have ud: "unat d = 1193180 div unat f" by (simp add: d_def unat_div_word)
  have f: "19 \<le> unat f" "unat f \<le> 1193180" using assms by (simp_all add: word_le_nat_alt)
  then have "unat d \<le> 1193180 div 19" unfolding ud by (intro div_le_mono2) auto
  then have d: "unat d < 65536" by simp
  have pos: "0 < 1193180 div unat f" using f by (simp add: div_greater_zero_iff)
  have m: "(0xFF :: u32) = mask 8" by (simp add: mask_eq_exp_minus_1)
  have l: "unat (ucast (d AND 0xFF) :: u8) = unat d mod 256"
    unfolding m by (simp add: unsigned_ucast_eq unsigned_take_bit_eq take_bit_eq_mod unat_mod flip: take_bit_eq_mask)
  have h: "unat (ucast (drop_bit 8 d AND 0xFF) :: u8) = unat d div 256"
    unfolding m using d
    by (simp add: unsigned_ucast_eq unsigned_take_bit_eq take_bit_eq_mod unat_mod drop_bit_eq_div unat_div flip: take_bit_eq_mask)
  have "f \<noteq> 0" using f(1) by auto
  then have "init_timer f [] = Ret [(0x43, 0x36), (0x40, ucast (d AND 0xFF)), (0x40, ucast (drop_bit 8 d AND 0xFF))]"
    by (simp add: init_timer_def outb_def Let_def d_def)
  then show ?thesis using pos unfolding ud [symmetric] by (intro exI conjI) (assumption, simp add: l h)
qed

text \<open>At the tick rate of the kernel the divisor is 1193.\<close>

theorem init_timer_divisor_witness: "\<exists>l h. init_timer HZ [] = Ret [(0x43, 0x36), (0x40, l), (0x40, h)] \<and> 256 * unat h + unat l = 1193"
  using init_timer_divisor [of HZ] by (simp add: HZ_def)


end
