(* ===== verification/Sched.thy ===== *)
theory Sched
  imports Vsprintf
begin

text \<open>
  The scheduler, kernel/sched.c, with the task structures of include/task.h and the idle task of
  kernel/idle.c: the run queue is a doubly linked list through the task structures, which live in
  a tasks from references to structures; a null pointer is \<open>None\<close>. A stack is the list of its
  words. The frame pointer that schedule_pending reads from the processor is its argument.
\<close>

section \<open>Tasks and the run queue\<close>

record task_struct =
  task_name :: string
  stack :: "u32 list"
  esp :: u32
  eip :: u32
  isr_ebp :: u32
  priority :: u32
  pid :: u32
  state :: u32
  prev_task :: "nat option"
  next_task :: "nat option"

record sched =
  tasks :: "nat \<Rightarrow> task_struct"
  head :: "nat option"
  current_task :: nat
  schedule_request :: u32

definition update_task :: "nat \<Rightarrow> (task_struct \<Rightarrow> task_struct) \<Rightarrow> sched \<Rightarrow> sched" where
  "update_task t f s = s\<lparr>tasks := (tasks s)(t := f (tasks s t))\<rparr>"

definition idle_task_s :: task_struct where
  "idle_task_s = \<lparr>task_name = ''idle_task'', stack = replicate 1024 0, esp = 0xDEADBEEF, eip = 0xDEADBEEF, isr_ebp = 0,
     priority = 0, pid = 0, state = 0, prev_task = None, next_task = None\<rparr>"

text \<open>\<open>idle\<close> is the reference of the idle task structure.\<close>

definition add_idle_task_to_run_queue :: "nat \<Rightarrow> nat \<Rightarrow> sched \<Rightarrow> sched outcome" where
  "add_idle_task_to_run_queue idle task s =
     (if head s \<noteq> None then Hang
      else Ret ((update_task task (\<lambda>t. t\<lparr>prev_task := None, next_task := None\<rparr>) (s\<lparr>head := Some task\<rparr>))\<lparr>current_task := idle\<rparr>))"

definition get_next_task :: "nat \<Rightarrow> sched \<Rightarrow> nat option" where
  "get_next_task cur_task s = (case next_task (tasks s cur_task) of None \<Rightarrow> head s | Some n \<Rightarrow> Some n)"

text \<open>The value is the stack pointer that the interrupt return continues with.\<close>

definition schedule_pending :: "u32 \<Rightarrow> sched \<Rightarrow> (u32 \<times> sched) outcome" where
  "schedule_pending ebp s =
     (let s = s\<lparr>schedule_request := 0\<rparr>;
          frame_ptr = ebp + 2 * 4;
          s = update_task (current_task s) (\<lambda>t. t\<lparr>esp := frame_ptr\<rparr>) s
      in case get_next_task (current_task s) s of
           None \<Rightarrow> Trap
         | Some n \<Rightarrow> Ret (esp (tasks s n), s\<lparr>current_task := n\<rparr>))"

definition init_schedular :: "nat \<Rightarrow> sched \<Rightarrow> (int \<times> sched) outcome" where
  "init_schedular idle s = obind (add_idle_task_to_run_queue idle idle (s\<lparr>head := None\<rparr>)) (\<lambda>s. Ret (0, s))"

text \<open>The walk to the last node, which is not left on a cyclic list.\<close>

partial_function (option) last_node :: "(nat \<Rightarrow> task_struct) \<Rightarrow> nat \<Rightarrow> nat option" where
  "last_node st node = (case next_task (st node) of None \<Rightarrow> Some node | Some n \<Rightarrow> last_node st n)"

definition add_task_to_run_queue :: "nat \<Rightarrow> sched \<Rightarrow> (int \<times> sched) outcome" where
  "add_task_to_run_queue task s =
     obind (printk ''Adding %s to run queue ...\<newline>'' [VStr (task_name (tasks s task))]) (\<lambda>_.
     case head s of
       None \<Rightarrow> Hang
     | Some h \<Rightarrow> (case last_node (tasks s) h of
           None \<Rightarrow> Hang
         | Some node \<Rightarrow>
             let s = update_task node (\<lambda>t. t\<lparr>next_task := Some task\<rparr>) s;
                 s = update_task task (\<lambda>t. t\<lparr>prev_task := Some node\<rparr>) s;
                 s = update_task task (\<lambda>t. t\<lparr>next_task := None\<rparr>) s
             in Ret (0, s)))"

partial_function (option) print_tasks_from :: "(nat \<Rightarrow> task_struct) \<Rightarrow> nat option \<Rightarrow> nat \<Rightarrow> string \<Rightarrow> string outcome option" where
  "print_tasks_from st node i out =
     (case node of
        None \<Rightarrow> Some (Ret out)
      | Some n \<Rightarrow> (case printk ''%d: %s\<newline>'' [VInt (of_nat i), VStr (task_name (st n))] of
            Ret (t, _) \<Rightarrow> print_tasks_from st (next_task (st n)) (i + 1) (out @ t)
          | Trap \<Rightarrow> Some Trap
          | Hang \<Rightarrow> Some Hang))"

definition print_all_tasks :: "sched \<Rightarrow> string outcome" where
  "print_all_tasks s =
     obind (printk ''List of all threads...\<newline>'' []) (\<lambda>(out, _). of_loop (print_tasks_from (tasks s) (head s) 1 out))"

text \<open>The idle task prints for ever: \<open>n\<close> rounds of its loop.\<close>

primrec do_idle :: "nat \<Rightarrow> string outcome" where
  "do_idle 0 = Hang"
| "do_idle (Suc n) = obind (printk ''IDLE TASK\<newline>'' []) (\<lambda>_. do_idle n)"

section \<open>The queue that the list represents\<close>

text \<open>\<open>dll st p xs q\<close>: the nodes \<open>xs\<close> form a doubly linked segment from \<open>p\<close> to \<open>q\<close>.\<close>

fun dll :: "(nat \<Rightarrow> task_struct) \<Rightarrow> nat option \<Rightarrow> nat list \<Rightarrow> bool" where
  "dll st p [] = True"
| "dll st p (x # xs) = (prev_task (st x) = p \<and> next_task (st x) = (case xs of [] \<Rightarrow> None | y # _ \<Rightarrow> Some y) \<and> dll st (Some x) xs)"

definition run_queue :: "sched \<Rightarrow> nat list \<Rightarrow> bool" where
  "run_queue s ts \<longleftrightarrow> ts \<noteq> [] \<and> distinct ts \<and> head s = Some (hd ts) \<and> dll (tasks s) None ts \<and> current_task s \<in> set ts"

lemma dll_next: "dll st p xs \<Longrightarrow> i < length xs \<Longrightarrow> next_task (st (xs ! i)) = (if i + 1 < length xs then Some (xs ! (i + 1)) else None)"
proof (induction xs arbitrary: p i)
  case (Cons x xs)
  then show ?case by (cases i; cases xs) auto
qed simp

lemma dll_cong: "(\<And>x. x \<in> set xs \<Longrightarrow> prev_task (st x) = prev_task (st' x) \<and> next_task (st x) = next_task (st' x)) \<Longrightarrow> dll st p xs = dll st' p xs"
  by (induction xs arbitrary: p) auto

lemma dll_last: "dll st p xs \<Longrightarrow> xs \<noteq> [] \<Longrightarrow> last_node st (hd xs) = Some (last xs)"
proof (induction xs arbitrary: p)
  case (Cons x xs)
  then show ?case by (cases xs; subst last_node.simps) auto
qed simp

lemma dll_append:
  assumes "dll st p xs" and "xs \<noteq> []" and "distinct xs" and "t \<notin> set xs"
    and "\<And>x. x \<in> set xs \<Longrightarrow> prev_task (st' x) = prev_task (st x) \<and> next_task (st' x) = (if x = last xs then Some t else next_task (st x))"
    and "prev_task (st' t) = Some (last xs)" and "next_task (st' t) = None"
  shows "dll st' p (xs @ [t])"
  using assms
proof (induction xs arbitrary: p)
  case (Cons x xs)
  show ?case
  proof (cases xs)
    case Nil
    then show ?thesis using Cons.prems by auto
  next
    case (Cons y ys)
    have "dll st' (Some x) (xs @ [t])"
      using Cons.prems Cons by (intro Cons.IH) auto
    then show ?thesis using Cons.prems Cons by (auto split: if_splits)
  qed
qed simp

section \<open>Round robin\<close>

text \<open>
  What a scheduler promises to its tasks: a switch keeps the queue and moves to the next task in
  it, cyclically. Whatever keeps this promise is fair.
\<close>

locale round_robin =
  fixes switch :: "'a \<Rightarrow> 's \<Rightarrow> 's outcome"
    and queue :: "'s \<Rightarrow> 't list \<Rightarrow> bool"
    and current :: "'s \<Rightarrow> 't"
  assumes switch_next: "queue s ts \<Longrightarrow> i < length ts \<Longrightarrow> current s = ts ! i \<Longrightarrow>
      \<exists>s'. switch a s = Ret s' \<and> queue s' ts \<and> current s' = ts ! ((i + 1) mod length ts)"
begin

fun switches :: "'a list \<Rightarrow> 's \<Rightarrow> 's outcome" where
  "switches [] s = Ret s"
| "switches (a # as) s = obind (switch a s) (switches as)"

lemma switches_current:
  "queue s ts \<Longrightarrow> i < length ts \<Longrightarrow> current s = ts ! i \<Longrightarrow>
     \<exists>s'. switches as s = Ret s' \<and> queue s' ts \<and> current s' = ts ! ((i + length as) mod length ts)"
proof (induction as arbitrary: s i)
  case (Cons a as)
  obtain s1 where s1: "switch a s = Ret s1" "queue s1 ts" "current s1 = ts ! ((i + 1) mod length ts)"
    using switch_next [OF Cons.prems] by blast
  have "(i + 1) mod length ts < length ts" using Cons.prems(2) by (intro mod_less_divisor) auto
  from Cons.IH [OF s1(2) this s1(3)] s1(1) show ?case by (auto simp: mod_simps)
qed auto

end

lemma get_next_cyclic:
  assumes "run_queue s ts" and "i < length ts"
  shows "get_next_task (ts ! i) s = Some (ts ! ((i + 1) mod length ts))"
proof (cases "i + 1 < length ts")
  case False
  then have "i + 1 = length ts" using assms(2) by simp
  then show ?thesis using assms dll_next [of "tasks s" None ts i] by (auto simp: get_next_task_def run_queue_def hd_conv_nth)
qed (use assms dll_next [of "tasks s" None ts i] in \<open>auto simp: get_next_task_def run_queue_def\<close>)

lemma update_esp_queue:
  "run_queue s ts \<Longrightarrow> t \<in> set ts \<Longrightarrow>
     run_queue ((update_task c (\<lambda>x. x\<lparr>esp := v\<rparr>) (s\<lparr>schedule_request := 0\<rparr>))\<lparr>current_task := t\<rparr>) ts"
  unfolding run_queue_def update_task_def
  by (auto intro: dll_cong [THEN iffD1, rotated])

text \<open>The effect of a context switch, on the queue and on the saved contexts.\<close>

lemma schedule_pending_step:
  assumes "run_queue s ts" and "i < length ts" and "current_task s = ts ! i"
  defines "t \<equiv> ts ! ((i + 1) mod length ts)"
  shows "\<exists>s'. schedule_pending ebp s = Ret (if t = ts ! i then ebp + 8 else esp (tasks s t), s') \<and> run_queue s' ts \<and>
    current_task s' = t \<and> (\<forall>x. esp (tasks s' x) = (if x = ts ! i then ebp + 8 else esp (tasks s x)))"
proof -
  define s1 where "s1 = update_task (current_task s) (\<lambda>x. x\<lparr>esp := ebp + 8\<rparr>) (s\<lparr>schedule_request := 0\<rparr>)"
  have n: "(i + 1) mod length ts < length ts" using assms(2) by (intro mod_less_divisor) auto
  then have t: "t \<in> set ts" by (simp add: t_def)
  have "current_task s \<in> set ts" using assms(2,3) by simp
  then have q1: "run_queue s1 ts"
    using update_esp_queue [OF assms(1), of "current_task s" "current_task s" "ebp + 8"] by (simp add: s1_def update_task_def)
  have "get_next_task (current_task s1) s1 = Some t"
    using get_next_cyclic [OF q1 assms(2)] assms(3) by (simp add: s1_def update_task_def t_def)
  then have "schedule_pending ebp s = Ret (esp (tasks s1 t), s1\<lparr>current_task := t\<rparr>)"
    by (simp add: schedule_pending_def Let_def s1_def [symmetric] update_task_def) (simp add: s1_def update_task_def)
  moreover have "run_queue (s1\<lparr>current_task := t\<rparr>) ts" using q1 t by (simp add: run_queue_def)
  ultimately show ?thesis using assms(3) by (auto simp: s1_def update_task_def)
qed

definition switch_task :: "u32 \<Rightarrow> sched \<Rightarrow> sched outcome" where
  "switch_task ebp s = obind (schedule_pending ebp s) (\<lambda>(_, s). Ret s)"

interpretation rr: round_robin switch_task run_queue current_task
proof (unfold_locales, goal_cases)
  case (1 s ts i a)
  then show ?case using schedule_pending_step [OF 1, of a] by (auto simp: switch_task_def)
qed

section \<open>Properties of the scheduler\<close>

fun run_switches :: "u32 list \<Rightarrow> sched \<Rightarrow> sched outcome" where
  "run_switches [] s = Ret s"
| "run_switches (e # es) s = obind (switch_task e s) (run_switches es)"

lemma run_switches_rr: "run_switches es s = rr.switches es s"
proof (induction es arbitrary: s)
  case (Cons e es)
  then have "run_switches es = rr.switches es" by blast
  then show ?case by simp
qed simp

text \<open>
  C6. The scheduler is a fair round robin: from any well-formed run queue, any number of context
  switches succeeds, keeps the queue, and after \<open>k\<close> of them the running task is the one \<open>k\<close> places
  further in the queue, cyclically.
\<close>

theorem schedule_round_robin:
  assumes "run_queue s ts" and "i < length ts" and "current_task s = ts ! i"
  shows "\<exists>s'. run_switches ebps s = Ret s' \<and> run_queue s' ts \<and> current_task s' = ts ! ((i + length ebps) mod length ts)"
  unfolding run_switches_rr using rr.switches_current [OF assms] by blast

text \<open>
  The scheduler starts with a run queue that holds the idle task only, which is running.
\<close>

theorem init_schedular_queue:
  "\<exists>s'. init_schedular idle s = Ret (0, s') \<and> run_queue s' [idle] \<and> current_task s' = idle"
  by (simp add: init_schedular_def add_idle_task_to_run_queue_def update_task_def run_queue_def)

text \<open>Two small schedulers, for the witnesses: the idle task alone, and with a second task.\<close>

definition sched_one :: sched where
  "sched_one = \<lparr>tasks = (\<lambda>_. idle_task_s), head = Some 0, current_task = 0, schedule_request = 0x10\<rparr>"

definition sched_two :: sched where
  "sched_two = \<lparr>tasks = (\<lambda>_. idle_task_s)(0 := idle_task_s\<lparr>next_task := Some 1\<rparr>, 1 := idle_task_s\<lparr>prev_task := Some 0\<rparr>),
     head = Some 0, current_task = 0, schedule_request = 0x10\<rparr>"

lemma small_queues: "run_queue sched_one [0]" "run_queue sched_two [0, 1]"
  by (simp_all add: run_queue_def sched_one_def sched_two_def idle_task_s_def)

theorem schedule_round_robin_witness:
  "\<exists>s'. run_switches [0x1000, 0x2000, 0x3000] sched_two = Ret s' \<and> current_task s' = 1"
proof -
  have c: "current_task sched_two = [0, 1] ! 0" by (simp add: sched_two_def)
  from schedule_round_robin [OF small_queues(2) _ c, of "[0x1000, 0x2000, 0x3000]"] show ?thesis
    by (auto simp: mod_Suc simp del: run_switches.simps)
qed

lemma printk_name:
  assumes "CHR ''%'' \<notin> set pre" "CHR ''%'' \<notin> set post" "CHR 0x00 \<notin> set (pre @ name @ post)" "length (pre @ name @ post) < 1000"
  shows "printk (pre @ ''%s'' @ post) [VStr name] = Ret (pre @ name @ post, 0)"
  using printk_pieces [of "[Lit pre, Conv [] (ConvS name), Lit post]"] assms by (simp add: width_of_def)

lemma add_task_queue:
  assumes "run_queue s ts" and "t \<notin> set ts" and "length (task_name (tasks s t)) < 64" and "CHR 0x00 \<notin> set (task_name (tasks s t))"
  shows "\<exists>s'. add_task_to_run_queue t s = Ret (0, s') \<and> run_queue s' (ts @ [t]) \<and> current_task s' = current_task s \<and>
    (\<forall>x. esp (tasks s' x) = esp (tasks s x) \<and> stack (tasks s' x) = stack (tasks s x))"
proof -
  have ts: "ts \<noteq> []" "distinct ts" "head s = Some (hd ts)" "dll (tasks s) None ts" "current_task s \<in> set ts"
    using assms(1) by (simp_all add: run_queue_def)
  let ?n = "last ts"
  have n: "?n \<noteq> t" using ts(1) assms(2) last_in_set by blast
  define s' where "s' = update_task t (\<lambda>x. x\<lparr>next_task := None\<rparr>) (update_task t (\<lambda>x. x\<lparr>prev_task := Some ?n\<rparr>)
     (update_task ?n (\<lambda>x. x\<lparr>next_task := Some t\<rparr>) s))"
  have "printk (''Adding '' @ ''%s'' @ '' to run queue ...\<newline>'') [VStr (task_name (tasks s t))] =
      Ret (''Adding '' @ task_name (tasks s t) @ '' to run queue ...\<newline>'', 0)"
    using assms(3,4) by (intro printk_name) auto
  then have "add_task_to_run_queue t s = Ret (0, s')"
    using ts dll_last [OF ts(4,1)] by (simp add: add_task_to_run_queue_def s'_def Let_def)
  moreover have "dll (tasks s') None (ts @ [t])"
    using n assms(2) by (intro dll_append [OF ts(4,1,2)]) (auto simp: s'_def update_task_def)
  then have "run_queue s' (ts @ [t])"
    using ts assms(2) by (simp add: run_queue_def s'_def update_task_def)
  moreover have "\<forall>x. esp (tasks s' x) = esp (tasks s x) \<and> stack (tasks s' x) = stack (tasks s x)" "current_task s' = current_task s"
    by (auto simp: s'_def update_task_def)
  ultimately show ?thesis by blast
qed

text \<open>
  Adding a task that is not in the queue appends it: the queue keeps its order and its running
  task, the new task comes last, and nothing else of any task changes.
\<close>

theorem add_task_appends:
  assumes "run_queue s ts" and "t \<notin> set ts" and "length (task_name (tasks s t)) < 64" and "CHR 0x00 \<notin> set (task_name (tasks s t))"
  shows "\<exists>s'. add_task_to_run_queue t s = Ret (0, s') \<and> run_queue s' (ts @ [t]) \<and> current_task s' = current_task s \<and>
    (\<forall>x. esp (tasks s' x) = esp (tasks s x) \<and> stack (tasks s' x) = stack (tasks s x))"
  using assms by (rule add_task_queue)

theorem add_task_appends_witness:
  "\<exists>s'. add_task_to_run_queue 1 sched_one = Ret (0, s') \<and> run_queue s' [0, 1]"
  using add_task_appends [OF small_queues(1), of 1] by (auto simp: sched_one_def idle_task_s_def)

section \<open>Contexts survive a round\<close>

text \<open>A sequence of switches, with the stack pointers that they return.\<close>

fun run_schedules :: "u32 list \<Rightarrow> sched \<Rightarrow> (u32 list \<times> sched) outcome" where
  "run_schedules [] s = Ret ([], s)"
| "run_schedules (e # es) s = obind (schedule_pending e s) (\<lambda>(r, s). obind (run_schedules es s) (\<lambda>(rs, s). Ret (r # rs, s)))"

lemma run_schedules_until:
  assumes "run_queue s ts" and "j < length ts" and "current_task s = ts ! j" and "i < length ts"
    and "esp (tasks s (ts ! i)) = v" and "es \<noteq> []" and "(j + length es) mod length ts = i"
    and "\<And>k. k < length es \<Longrightarrow> (j + k) mod length ts \<noteq> i"
  shows "\<exists>rs s'. run_schedules es s = Ret (rs, s') \<and> rs \<noteq> [] \<and> last rs = v \<and> current_task s' = ts ! i"
  using assms
proof (induction es arbitrary: s j)
  case (Cons e es)
  define j' where "j' = (j + 1) mod length ts"
  have j': "j' < length ts" unfolding j'_def using Cons.prems(2) by (intro mod_less_divisor) auto
  have d: "distinct ts" using Cons.prems(1) by (simp add: run_queue_def)
  have ji: "j \<noteq> i" using Cons.prems(8) [of 0] Cons.prems(2) by simp
  then have ne: "ts ! j \<noteq> ts ! i" using d Cons.prems(2,4) by (simp add: nth_eq_iff_index_eq)
  obtain s1 where s1: "schedule_pending e s = Ret (if ts ! j' = ts ! j then e + 8 else esp (tasks s (ts ! j')), s1)"
    "run_queue s1 ts" "current_task s1 = ts ! j'"
    "\<forall>x. esp (tasks s1 x) = (if x = ts ! j then e + 8 else esp (tasks s x))"
    using schedule_pending_step [OF Cons.prems(1,2,3), of e] unfolding j'_def [symmetric] by blast
  show ?case
  proof (cases es)
    case Nil
    then have "j' = i" using Cons.prems(7) by (simp add: j'_def)
    then show ?thesis using s1 ne Nil Cons.prems(5) by auto
  next
    case (Cons e' es')
    have shift: "(j' + k) mod length ts = (j + (k + 1)) mod length ts" for k by (simp add: j'_def mod_simps)
    have "\<exists>rs s'. run_schedules es s1 = Ret (rs, s') \<and> rs \<noteq> [] \<and> last rs = v \<and> current_task s' = ts ! i"
    proof (rule Cons.IH [OF s1(2) j' s1(3) Cons.prems(4)])
      show "esp (tasks s1 (ts ! i)) = v" using s1(4) ne Cons.prems(5) by simp
      show "es \<noteq> []" using Cons by simp
      show "(j' + length es) mod length ts = i" unfolding shift using Cons.prems(7) by simp
      show "(j' + k) mod length ts \<noteq> i" if "k < length es" for k
        unfolding shift using Cons.prems(8) [of "k + 1"] that by simp
    qed
    then show ?thesis using s1(1) by auto
  qed
qed simp

text \<open>
  A task that is switched out gets its context back: when a task of a queue of \<open>n\<close> tasks is
  interrupted with the frame at \<open>ebp\<close>, then the \<open>n\<close>-th switch from there returns the stack pointer
  of exactly that frame, with the same task running, whatever frames the other tasks leave.
\<close>

theorem context_returns_after_round:
  assumes "run_queue s ts" and "i < length ts" and "current_task s = ts ! i" and "length es = length ts - 1"
  shows "\<exists>rs s'. run_schedules (ebp # es) s = Ret (rs, s') \<and> last rs = ebp + 8 \<and> current_task s' = ts ! i"
proof -
  define n where "n = length ts"
  define j where "j = (i + 1) mod n"
  have n: "0 < n" "i < n" "length es = n - 1" using assms by (auto simp: n_def)
  obtain s1 where s1: "schedule_pending ebp s = Ret (if ts ! j = ts ! i then ebp + 8 else esp (tasks s (ts ! j)), s1)"
    "run_queue s1 ts" "current_task s1 = ts ! j" "\<forall>x. esp (tasks s1 x) = (if x = ts ! i then ebp + 8 else esp (tasks s x))"
    using schedule_pending_step [OF assms(1-3), of ebp] unfolding j_def n_def by blast
  show ?thesis
  proof (cases "es = []")
    case True
    then have "j = i" using n by (cases n) (auto simp: j_def)
    then show ?thesis using s1 True by auto
  next
    case False
    have jn: "j < length ts" using n(1) by (simp add: j_def n_def)
    have shift: "(j + k) mod n = (i + (k + 1)) mod n" for k by (simp add: j_def mod_simps)
    have "(j + length es) mod length ts = i"
      unfolding n_def [symmetric] shift using n by simp
    moreover have "(j + k) mod length ts \<noteq> i" if "k < length es" for k
      unfolding n_def [symmetric] shift using that n by (simp add: mod_if) arith
    ultimately have "\<exists>rs s'. run_schedules es s1 = Ret (rs, s') \<and> rs \<noteq> [] \<and> last rs = ebp + 8 \<and> current_task s' = ts ! i"
      using False s1 assms(2) by (intro run_schedules_until [OF s1(2) jn s1(3)]) auto
    then show ?thesis using s1(1) by auto
  qed
qed

theorem context_returns_after_round_witness:
  "\<exists>rs s'. run_schedules [0x1000, 0x2000] sched_two = Ret (rs, s') \<and> last rs = 0x1008"
  using context_returns_after_round [OF small_queues(2), of 0 "[0x2000]" "0x1000"] by (auto simp: sched_two_def)

section \<open>Listing the tasks\<close>

lemma print_tasks_from_names:
  assumes "dll st p ts" and "\<forall>t \<in> set ts. length (task_name (st t)) < 64 \<and> CHR 0x00 \<notin> set (task_name (st t))"
    and "i + length ts < 2 ^ 31"
  shows "print_tasks_from st (case ts of [] \<Rightarrow> None | t # _ \<Rightarrow> Some t) i out =
    Some (Ret (out @ concat (map (\<lambda>(k, t). digits_of 10 0 k @ '': '' @ task_name (st t) @ ''\<newline>'') (enumerate i ts))))"
  using assms
proof (induction ts arbitrary: p i out)
  case Nil
  then show ?case by (simp add: print_tasks_from.simps)
next
  case (Cons t ts)
  have i: "unat (of_nat i :: u32) = i" "sint (of_nat i :: u32) = int i"
    using Cons.prems(3) by (simp_all add: unat_of_nat take_bit_nat_eq_self sint_small)
  have d: "signed_digits 0 (of_nat i :: u32) = digits_of 10 0 i"
    using i(2) by (simp add: signed_digits_def)
  have nz: "CHR 0x00 \<notin> set (digits_of 10 0 i)" "length (digits_of 10 0 i) < 97"
    using digits_of_props [of 0 10 "of_nat i"] i(1) by auto
  have "printk ''%d: %s\<newline>'' [VInt (of_nat i), VStr (task_name (st t))] =
      Ret (digits_of 10 0 i @ '': '' @ task_name (st t) @ ''\<newline>'', 0)"
    using printk_pieces [of "[Conv [] (ConvD (of_nat i)), Lit '': '', Conv [] (ConvS (task_name (st t))), Lit ''\<newline>'']"]
      Cons.prems(2) nz d by (simp add: width_of_def)
  then show ?case
    using Cons.prems Cons.IH [of "Some t" "Suc i" "out @ digits_of 10 0 i @ '': '' @ task_name (st t) @ ''\<newline>''"]
    by (subst print_tasks_from.simps) simp
qed

text \<open>
  print_all_tasks ends and lists the names of the tasks in the order of the queue, numbered
  from 1.
\<close>

theorem print_all_tasks_lists_queue:
  assumes "run_queue s ts" and "\<forall>t \<in> set ts. length (task_name (tasks s t)) < 64 \<and> CHR 0x00 \<notin> set (task_name (tasks s t))"
    and "length ts < 1000000"
  shows "print_all_tasks s = Ret (''List of all threads...\<newline>'' @
    concat (map (\<lambda>(k, t). digits_of 10 0 k @ '': '' @ task_name (tasks s t) @ ''\<newline>'') (enumerate 1 ts)))"
proof -
  have "printk ''List of all threads...\<newline>'' [] = Ret (''List of all threads...\<newline>'', 0)"
    using printk_pieces [of "[Lit ''List of all threads...\<newline>'']"] by simp
  moreover have "head s = (case ts of [] \<Rightarrow> None | t # _ \<Rightarrow> Some t)" "dll (tasks s) None ts"
    using assms(1) by (cases ts; simp add: run_queue_def)+
  ultimately show ?thesis
    using print_tasks_from_names [of "tasks s" None ts 1] assms(2,3) by (simp add: print_all_tasks_def)
qed

theorem print_all_tasks_lists_queue_witness:
  "print_all_tasks sched_two = Ret ''List of all threads...\<newline>1: idle_task\<newline>2: idle_task\<newline>''"
  using print_all_tasks_lists_queue [OF small_queues(2)]
  by (simp add: sched_two_def idle_task_s_def digits_of_def ndigits.simps carray_def)

end
