(* ===== verification/Process.thy ===== *)
theory Process
  imports Sched
begin

text \<open>
  Thread creation, kernel/process.c: the static array of task structures, the stack frame of a new
  thread and its entry in the run queue. Parameters are the build's CONFIG_MAX_CREATE_THREADS, the
  references and stack addresses of the array elements, the address of \<open>hello\<close> and the string at
  an address (the argument of the thread is printed with the s conversion).
\<close>

record proc =
  sched :: sched
  task_struct_array_index :: u32

record thread_env =
  CONFIG_MAX_CREATE_THREADS :: nat
  task_ref :: "nat \<Rightarrow> nat"
  task_addr :: "nat \<Rightarrow> u32"
  stack_addr :: "nat \<Rightarrow> u32"
  hello_addr :: u32
  string_at :: "u32 \<Rightarrow> string"

definition DEFAULT_STACK_SIZE :: nat where "DEFAULT_STACK_SIZE = 4096"

text \<open>
  The macro \<open>_ASSERT(c, ...)\<close> tests \<^verbatim>\<open>!c\<close> without parentheses, so that the condition \<^verbatim>\<open>i < n\<close> becomes
  \<^verbatim>\<open>(!i) < n\<close>, and a true test is a failed check: it is reported, and the kernel loops.
\<close>

definition get_free_task_struct :: "thread_env \<Rightarrow> proc \<Rightarrow> (nat \<times> proc) outcome" where
  "get_free_task_struct env p =
     (let allocated_index = task_struct_array_index p;
          p = p\<lparr>task_struct_array_index := task_struct_array_index p + 1\<rparr>
      in if (if allocated_index = 0 then 1 else 0) < CONFIG_MAX_CREATE_THREADS env then Hang
         else Ret (task_ref env (unat allocated_index), p))"

text \<open>The words of isr_registers_t, from the lowest address.\<close>

definition isr_frame :: "u32 \<Rightarrow> u32 \<Rightarrow> u32 list" where
  "isr_frame fn sptr =
     [0x10, 0x10, 0x10, 0x10,  0, 0, 0, sptr, 0, 0, 0, 0,  0, 0,  fn, 0x08, 0x00200260]"

definition write_words :: "nat \<Rightarrow> u32 list \<Rightarrow> u32 list \<Rightarrow> u32 list" where
  "write_words a ws st = fold (\<lambda>(k, w) st. st[a + k := w]) (enumerate 0 ws) st"

definition kernel_thread :: "thread_env \<Rightarrow> u32 \<Rightarrow> u32 \<Rightarrow> proc \<Rightarrow> (int \<times> proc) outcome" where
  "kernel_thread env fn arg p =
     obind (printk ''Start kernel thread creation\<newline>'' []) (\<lambda>_.
     obind (get_free_task_struct env p) (\<lambda>(t, p).
     obind (printk ''Task struct allocated at: 0x%x\<newline>'' [VInt (task_addr env t)]) (\<lambda>_.
     let s = sched p;
         s = update_task t (\<lambda>x. x\<lparr>task_name := ''X''\<rparr>) s;
         sptr = DEFAULT_STACK_SIZE div 4 - 1;
         s = update_task t (\<lambda>x. x\<lparr>stack := (stack x)[sptr := arg]\<rparr>) s;
         sptr = sptr - 1;
         s = update_task t (\<lambda>x. x\<lparr>stack := (stack x)[sptr := hello_addr env]\<rparr>) s;
         sptr_addr = stack_addr env t + of_nat (4 * sptr)
     in obind (printk ''%s: 0x%x\<newline>'' [VStr (string_at env arg), VInt sptr_addr]) (\<lambda>_.
        let i = sptr - 17;
            s = update_task t (\<lambda>x. x\<lparr>stack := write_words i (isr_frame fn sptr_addr) (stack x)\<rparr>) s;
            s = update_task t (\<lambda>x. x\<lparr>esp := stack_addr env t + of_nat (4 * i)\<rparr>) s
        in obind (add_task_to_run_queue t s) (\<lambda>(_, s). Ret (0, p\<lparr>sched := s\<rparr>))))))"

text \<open>
  The return from interrupt of vectors.S on the words of a stack from the saved stack pointer on:
  four segment registers, the eight registers of popa, the interrupt number and error code that
  are skipped, and the eip, cs and eflags of iret. The rest is the stack of the resumed code.
\<close>

record resumed =
  r_eip :: u32
  r_cs :: u32
  r_ds :: u32
  r_eflags :: u32
  r_stack :: "u32 list"

definition isr_return :: "u32 list \<Rightarrow> resumed option" where
  "isr_return ws =
     (if length ws < 17 then None
      else Some \<lparr>r_eip = ws ! 14, r_cs = ws ! 15, r_ds = ws ! 3, r_eflags = ws ! 16, r_stack = drop 17 ws\<rparr>)"

section \<open>Properties\<close>

lemma start_printk: "printk ''Start kernel thread creation\<newline>'' [] = Ret (''Start kernel thread creation\<newline>'', 0)"
  using printk_pieces [of "[Lit ''Start kernel thread creation\<newline>'']"] by simp

text \<open>
  The check of the array index in thread creation fails for every index when the array has more
  than one element, because the macro negates only the left operand of the comparison: no thread
  can ever be created, kernel_thread ends in the loop of the failed check.
\<close>

theorem kernel_thread_never_creates:
  assumes "2 \<le> CONFIG_MAX_CREATE_THREADS env"
  shows "kernel_thread env fn arg p = Hang"
proof -
  have "get_free_task_struct env p = Hang" using assms by (simp add: get_free_task_struct_def Let_def)
  then show ?thesis by (simp add: kernel_thread_def start_printk)
qed

definition env_of :: "nat \<Rightarrow> thread_env" where
  "env_of n = \<lparr>CONFIG_MAX_CREATE_THREADS = n, task_ref = (\<lambda>i. i + 1), task_addr = (\<lambda>t. 0x100000 + of_nat t * 0x1100),
     stack_addr = (\<lambda>t. 0x100040 + of_nat t * 0x1100), hello_addr = 0x2000, string_at = (\<lambda>_. ''A'')\<rparr>"

theorem kernel_thread_never_creates_witness:
  "kernel_thread (env_of 10) 0x3000 0 \<lparr>sched = sched_one, task_struct_array_index = 0\<rparr> = Hang"
  by (rule kernel_thread_never_creates) (simp add: env_of_def)

lemma write_words_eq:
  "a + length ws \<le> length st \<Longrightarrow> write_words a ws st = take a st @ ws @ drop (a + length ws) st"
proof -
  have "fold (\<lambda>(k, w) st. st[a + k := w]) (enumerate n ws) st = take (a + n) st @ ws @ drop (a + n + length ws) st"
    if "a + n + length ws \<le> length st" for n
    using that
  proof (induction ws arbitrary: n st)
    case (Cons w ws)
    then have "fold (\<lambda>(k, w) st. st[a + k := w]) (enumerate (Suc n) ws) (st[a + n := w]) =
      take (a + Suc n) (st[a + n := w]) @ ws @ drop (a + Suc n + length ws) (st[a + n := w])"
      by (intro Cons.IH) simp
    moreover have "take (Suc (a + n)) (st[a + n := w]) = take (a + n) st @ [w]"
      using Cons.prems by (simp add: take_Suc_conv_app_nth)
    ultimately show ?case by simp
  qed simp
  from this [of 0] show "a + length ws \<le> length st \<Longrightarrow> ?thesis" by (simp add: write_words_def)
qed

text \<open>
  When the array has exactly one element its thread can be created: it is appended to the run
  queue, and the first return from interrupt on its saved stack pointer enters the thread function
  in the kernel code segment with interrupts enabled, with \<open>hello\<close> as its return address and the
  argument above it.
\<close>

theorem kernel_thread_first_frame:
  assumes "CONFIG_MAX_CREATE_THREADS env = 1" and "task_struct_array_index p = 0" and "t = task_ref env 0"
    and "run_queue (sched p) ts" and "t \<notin> set ts" and "length (stack (tasks (sched p) t)) = 1024"
    and "CHR 0x00 \<notin> set (string_at env arg)" and "length (string_at env arg) < 800"
  shows "\<exists>p' k r. kernel_thread env fn arg p = Ret (0, p') \<and> run_queue (sched p') (ts @ [t]) \<and>
    esp (tasks (sched p') t) = stack_addr env t + of_nat (4 * k) \<and>
    isr_return (drop k (stack (tasks (sched p') t))) = Some r \<and>
    r_eip r = fn \<and> r_cs r = 0x08 \<and> r_ds r = 0x10 \<and> bit (r_eflags r) 9 \<and> r_stack r = [hello_addr env, arg]"
proof -
  define sa where "sa = stack_addr env t + of_nat 4088"
  define st where "st = stack (tasks (sched p) t)"
  define st' where "st' = take 1005 st @ isr_frame fn sa @ [hello_addr env, arg]"
  define s0 where "s0 = update_task t (\<lambda>x. x\<lparr>task_name := ''X'', stack := st', esp := stack_addr env t + of_nat 4020\<rparr>) (sched p)"
  have l: "length st = 1024" using assms(6) by (simp add: st_def)
  have fl: "length (isr_frame fn sa) = 17" by (simp add: isr_frame_def)
  have d: "drop 1022 (st[1023 := arg, 1022 := hello_addr env]) = [hello_addr env, arg]"
  proof (rule nth_equalityI)
    fix i
    assume "i < length (drop 1022 (st[1023 := arg, 1022 := hello_addr env]))"
    then have "i = 0 \<or> i = 1" using l by auto
    then show "drop 1022 (st[1023 := arg, 1022 := hello_addr env]) ! i = [hello_addr env, arg] ! i" using l by auto
  qed (use l in simp)
  have w: "write_words 1005 (isr_frame fn sa) (st[1023 := arg, 1022 := hello_addr env]) = st'"
    using l fl d by (subst write_words_eq) (simp_all add: st'_def)
  have p1: "printk ''Task struct allocated at: 0x%x\<newline>'' [VInt v] = Ret (''Task struct allocated at: 0x'' @ digits_of 16 0 (unat v) @ ''\<newline>'', 0)" for v
    using printk_pieces [of "[Lit ''Task struct allocated at: 0x'', Conv [] (ConvX v), Lit ''\<newline>'']"] digits_plain(3,4) [of v]
    by (simp add: width_of_def)
  have p2: "printk ''%s: 0x%x\<newline>'' [VStr (string_at env arg), VInt v] = Ret (string_at env arg @ '': 0x'' @ digits_of 16 0 (unat v) @ ''\<newline>'', 0)" for v
    using printk_pieces [of "[Conv [] (ConvS (string_at env arg)), Lit '': 0x'', Conv [] (ConvX v), Lit ''\<newline>'']"] digits_plain(3,4) [of v] assms(7,8)
    by (simp add: width_of_def)
  have q0: "run_queue s0 ts"
    using assms(4,5) unfolding run_queue_def s0_def update_task_def by (auto intro: dll_cong [THEN iffD1, rotated])
  obtain s1 where s1: "add_task_to_run_queue t s0 = Ret (0, s1)" "run_queue s1 (ts @ [t])"
    "\<forall>x. esp (tasks s1 x) = esp (tasks s0 x) \<and> stack (tasks s1 x) = stack (tasks s0 x)"
    using add_task_queue [OF q0 assms(5)] by (auto simp: s0_def update_task_def)
  have "kernel_thread env fn arg p = Ret (0, p\<lparr>task_struct_array_index := 1, sched := s1\<rparr>)"
  proof -
    have g: "get_free_task_struct env p = Ret (t, p\<lparr>task_struct_array_index := 1\<rparr>)"
      using assms(1-3) by (simp add: get_free_task_struct_def Let_def)
    have n: "DEFAULT_STACK_SIZE div 4 - 1 = 1023" "(1023 :: nat) - 1 = 1022" "(1022 :: nat) - 17 = 1005"
      "stack_addr env t + of_nat (4 * 1022) = sa"
      by (simp_all add: DEFAULT_STACK_SIZE_def sa_def)
    have chain: "update_task t (\<lambda>x. x\<lparr>esp := stack_addr env t + of_nat (4 * 1005)\<rparr>)
        (update_task t (\<lambda>x. x\<lparr>stack := write_words 1005 (isr_frame fn sa) (stack x)\<rparr>)
        (update_task t (\<lambda>x. x\<lparr>stack := (stack x)[1022 := hello_addr env]\<rparr>)
        (update_task t (\<lambda>x. x\<lparr>stack := (stack x)[1023 := arg]\<rparr>)
        (update_task t (\<lambda>x. x\<lparr>task_name := ''X''\<rparr>) (sched p))))) = s0"
      using w by (simp add: update_task_def s0_def st_def)
    have sp: "sched (p\<lparr>task_struct_array_index := 1\<rparr>) = sched p" by simp
    show ?thesis
      unfolding kernel_thread_def start_printk obind_simps prod.case g p1 Let_def n p2
      unfolding sp chain s1(1) obind_simps prod.case ..
  qed
  moreover have "drop 1005 st' = isr_frame fn sa @ [hello_addr env, arg]" using l by (simp add: st'_def)
  then have "isr_return (drop 1005 (stack (tasks s1 t))) =
      Some \<lparr>r_eip = fn, r_cs = 8, r_ds = 0x10, r_eflags = 0x00200260, r_stack = [hello_addr env, arg]\<rparr>"
    using s1(3) by (simp add: s0_def update_task_def isr_return_def isr_frame_def)
  moreover have "esp (tasks s1 t) = stack_addr env t + of_nat (4 * 1005)" using s1(3) by (simp add: s0_def update_task_def)
  ultimately show ?thesis using s1(2)
    by (intro exI [of _ "p\<lparr>task_struct_array_index := 1, sched := s1\<rparr>"] exI [of _ 1005] exI) auto
qed

theorem kernel_thread_first_frame_witness:
  "\<exists>p'. kernel_thread (env_of 1) 0x3000 7 \<lparr>sched = sched_one, task_struct_array_index = 0\<rparr> = Ret (0, p') \<and> run_queue (sched p') [0, 1]"
  using kernel_thread_first_frame [of "env_of 1" "\<lparr>sched = sched_one, task_struct_array_index = 0\<rparr>" 1 "[0]" 7 "0x3000"] small_queues(1)
  by (auto simp: env_of_def sched_one_def idle_task_s_def)


end
