(* ===== verification/Sysinfo.thy ===== *)
theory Sysinfo
  imports Multiboot Vsprintf
begin

text \<open>
  System information, arch/i386/lib/sysinfo.c: the copy of the boot loader's tables, their report
  on the console, the RAM map built from the memory map, and the boot progress lines. The boot
  loader's memory is a parameter: what lies at an address as map entries, drive records, port
  lists and strings.
\<close>

definition ADDR_MAP_NODE_CNT :: nat where "ADDR_MAP_NODE_CNT = 20"
definition DRIVE_INFO_NODE_CNT :: nat where "DRIVE_INFO_NODE_CNT = 20"

record sysinfo =
  mi :: multiboot_info
  mboot_mmap :: "multiboot_mmap_entry list"
  drive_info :: "bios_drive_info list"
  ram_map :: "ram_map_t list"
  ram_nodes_cnt :: nat

record loader_memory =
  mmap_at :: "u32 \<Rightarrow> multiboot_mmap_entry list"
  drives_at :: "u32 \<Rightarrow> bios_drive_info list"
  ports_at :: "u32 \<Rightarrow> u16 list"
  cstring_at :: "u32 \<Rightarrow> string"

section \<open>The RAM map\<close>

definition mask32 :: u64 where "mask32 = 0xFFFFFFFF"

text \<open>One round of the loop over the memory map: its text, and the entry it adds.\<close>

definition mmap_line :: "multiboot_mmap_entry \<Rightarrow> string outcome" where
  "mmap_line e =
     obind (printks [(if mm_type e = MULTIBOOT_MEMORY_AVAILABLE then ''RAM     : '' else ''Reserved: '', []),
                     (''0x%8x '', [VInt (ucast (mm_addr e) AND 0xFFFFFFFF)])]) (\<lambda>a.
     obind (print_human_readable_size (ucast (mm_len e) AND 0xFFFFFFFF)) (\<lambda>(b, _). Ret (a @ b)))"

fun mmap_loop :: "multiboot_mmap_entry list \<Rightarrow> nat \<Rightarrow> ram_map_t list \<Rightarrow> nat \<Rightarrow> (string \<times> ram_map_t list \<times> nat) outcome" where
  "mmap_loop es 0 ram cnt = Ret ([], ram, cnt)"
| "mmap_loop es (Suc n) ram cnt =
     (case es of
        [] \<Rightarrow> Trap
      | e # es \<Rightarrow>
         if mm_type e = MULTIBOOT_MEMORY_AVAILABLE \<and> length ram \<le> cnt then Trap
         else let (ram, cnt) =
                    (if mm_type e = MULTIBOOT_MEMORY_AVAILABLE
                     then (ram[cnt := \<lparr>saddr = ucast (mm_addr e AND mask32), len = ucast (mm_len e AND mask32)\<rparr>], cnt + 1)
                     else (ram, cnt))
              in obind (mmap_line e) (\<lambda>a. obind (mmap_loop es n ram cnt) (\<lambda>(b, r). Ret (a @ b, r))))"

section \<open>The report\<close>

text \<open>\<open>drivestr\<close> has four elements: the comma after the fourth is missing.\<close>

definition drivestr :: "string list" where
  "drivestr = [''1st floppy disk'', ''2nd floppy disk'', ''1st hard disk'', ''2nd hard disk'']"

definition drive_index :: "u32 \<Rightarrow> nat" where
  "drive_index drive = (if drive = 0 then 0 else if drive = 1 then 1 else if drive = 0x80 then 2 else if drive = 0x81 then 3 else 4)"

definition drive_line :: "loader_memory \<Rightarrow> bios_drive_info \<Rightarrow> string outcome" where
  "drive_line lm d =
     printks ([(''%d'', [VInt (ucast (drive_no d))]),
               (if drive_mode d = 0 then '', CHS'' else if drive_mode d = 1 then '', LBA mode'' else '', Unknown mode'', []),
               ('', %d-C'', [VInt (ucast (drive_cylinders d))]),
               ('', %d-H'', [VInt (ucast (drive_heads d))]),
               ('', %d-S'', [VInt (ucast (drive_sectors d))])] @
              map (\<lambda>p. ('', %d'', [VInt (ucast p)])) (takeWhile (\<lambda>p. p \<noteq> 0) (ports_at lm (start_port_array d))) @
              [(''\<newline>'', [])])"

fun drive_lines :: "loader_memory \<Rightarrow> bios_drive_info list \<Rightarrow> nat \<Rightarrow> string outcome" where
  "drive_lines lm ds 0 = Ret []"
| "drive_lines lm ds (Suc n) = (case ds of [] \<Rightarrow> Trap
     | d # ds \<Rightarrow> obind (drive_line lm d) (\<lambda>a. obind (drive_lines lm ds n) (\<lambda>b. Ret (a @ b))))"

text \<open>The report in the order of the function: memory, boot device, command line and map header.\<close>

definition report_memory :: "multiboot_info \<Rightarrow> string outcome" where
  "report_memory m =
     printks ((''Flags: 0x%x\<newline>'', [VInt (mi_flags m)]) # (''Amount of lower memory: '', []) #
       (if mi_flags m AND MULTIBOOT_INFO_MEMORY \<noteq> 0
        then [(''%d KB\<newline>'', [VInt (mem_lower m)]), (''Amount of upper memory: %d KB\<newline>'', [VInt (mem_upper m)])]
        else [(''%s\<newline>'', [VStr ''Not Specified''])]))"

definition report_boot_device :: "multiboot_info \<Rightarrow> string outcome" where
  "report_boot_device m =
     (if mi_flags m AND MULTIBOOT_INFO_BOOTDEV \<noteq> 0
      then let drive = drop_bit 24 (boot_device m AND 0xFF000000)
           in if length drivestr \<le> drive_index drive then Trap
              else printks [(''Bios drive number: %x: '', [VInt drive]),
                            (''%s\<newline>'', [VStr (drivestr ! drive_index drive)]),
                            (''part1: %x\<newline>'', [VInt (drop_bit 16 (boot_device m AND 0x00FF0000))]),
                            (''part2: %x\<newline>'', [VInt (drop_bit 8 (boot_device m AND 0x0000FF00))]),
                            (''part3: %x\<newline>'', [VInt (boot_device m AND 0x000000FF)])]
      else printks [(''Boot device unknown\<newline>'', [])])"

definition report_cmdline :: "loader_memory \<Rightarrow> multiboot_info \<Rightarrow> string outcome" where
  "report_cmdline lm m =
     printks [if mi_flags m AND MULTIBOOT_INFO_CMDLINE \<noteq> 0
              then (''Command line: %s\<newline>'', [VStr (cstring_at lm (cmdline m))])
              else (''Command line data not present\<newline>'', []),
              (''Module information NOT parsed\<newline>'', []),
              (''Symbol table information not parsed\<newline>'', []),
              (''RAM Map: Flags: %x mi.mmap_length: %d\<newline>'', [VInt (mi_flags m), VInt (mmap_length m)])]"

definition report_rest :: "loader_memory \<Rightarrow> multiboot_info \<Rightarrow> string outcome" where
  "report_rest lm m =
     printks ((''ROM configuration table not parsed!\<newline>'', []) #
       (if mi_flags m AND MULTIBOOT_INFO_BOOT_LOADER_NAME \<noteq> 0
        then [(''Bootloader name: %s\<newline>'', [VStr (cstring_at lm (boot_loader_name m))])] else []) @
       [(''APM information not parsed\<newline>'', []), (''VBE information not parsed\<newline>'', [])])"

definition parse_mboot_information :: "loader_memory \<Rightarrow> sysinfo \<Rightarrow> (string \<times> sysinfo) outcome" where
  "parse_mboot_information lm s =
     (let m = mi s; flags = mi_flags m in
      obind (report_memory m) (\<lambda>t1.
      obind (report_boot_device m) (\<lambda>t2.
      obind (report_cmdline lm m) (\<lambda>t3.
      obind (if flags AND MULTIBOOT_INFO_MEM_MAP \<noteq> 0 \<and> mmap_length m \<noteq> 0
             then obind (mmap_loop (mboot_mmap s) (unat (mmap_length m) div sizeof_mmap_entry) (ram_map s) 0)
                    (\<lambda>(t, ram, cnt). Ret (t, s\<lparr>ram_map := ram, ram_nodes_cnt := cnt\<rparr>))
             else Ret ([], s)) (\<lambda>(t4, s).
      obind (if flags AND MULTIBOOT_INFO_DRIVE_INFO \<noteq> 0
             then drive_lines lm (drive_info s) (unat (drives_length m) div sizeof_drive_info)
             else Ret []) (\<lambda>t5.
      obind (report_rest lm m) (\<lambda>t6.
      Ret (t1 @ t2 @ t3 @ t4 @ t5 @ t6, s))))))))"

text \<open>
  The copies of the tables. An incomplete entry at the end of the copied bytes is never read, as
  the loops count complete entries only.
\<close>

definition read_multiboot_information :: "loader_memory \<Rightarrow> multiboot_info \<Rightarrow> sysinfo \<Rightarrow> (string \<times> sysinfo) outcome" where
  "read_multiboot_information lm m s =
     (let s = s\<lparr>mi := m\<rparr>;
          n = unat (mmap_length m) div sizeof_mmap_entry;
          d = unat (drives_length m) div sizeof_drive_info
      in if ADDR_MAP_NODE_CNT * sizeof_mmap_entry < unat (mmap_length m) then Hang
         else if DRIVE_INFO_NODE_CNT * sizeof_drive_info < unat (drives_length m) then Hang
         else let s = (if mmap_addr m \<noteq> 0 then s\<lparr>mboot_mmap := take n (mmap_at lm (mmap_addr m)) @ drop n (mboot_mmap s)\<rparr> else s);
                  s = (if drives_addr m \<noteq> 0 then s\<lparr>drive_info := take d (drives_at lm (drives_addr m)) @ drop d (drive_info s)\<rparr> else s)
              in parse_mboot_information lm s)"

definition get_bios_addr_buffer :: "sysinfo \<Rightarrow> nat \<times> multiboot_mmap_entry list" where
  "get_bios_addr_buffer s = (unat (mmap_length (mi s)) div sizeof_mmap_entry, mboot_mmap s)"

definition get_rammap_ptr :: "sysinfo \<Rightarrow> nat \<times> ram_map_t list" where
  "get_rammap_ptr s = (ram_nodes_cnt s, ram_map s)"

section \<open>Boot progress\<close>

definition KTAB_WIDTH :: nat where "KTAB_WIDTH = 4"
definition SCREEN_WIDTH :: int where "SCREEN_WIDTH = 80"

text \<open>The text of one line, from the input: what fits before the width, a line end or the end.\<close>

fun take_line :: "nat \<Rightarrow> string \<Rightarrow> string \<times> string" where
  "take_line 0 s = ([], s)"
| "take_line (Suc n) [] = ([], [])"
| "take_line (Suc n) (c # s) = (if c = CHR 0x0A then ([], c # s) else case take_line n s of (a, b) \<Rightarrow> (c # a, b))"

lemma take_line_split: "take_line n s = (a, b) \<Longrightarrow> s = a @ b \<and> length a \<le> n"
  by (induction n s arbitrary: a b rule: take_line.induct) (auto split: if_splits prod.splits)

lemma take_line_progress: "take_line (Suc n) s = (a, b) \<Longrightarrow> s \<noteq> [] \<Longrightarrow> b \<noteq> [] \<Longrightarrow> hd b \<noteq> CHR 0x0A \<Longrightarrow> length b < length s"
  by (cases s) (auto dest: take_line_split split: if_splits prod.splits)

function columnize_lines :: "nat \<Rightarrow> nat \<Rightarrow> string \<Rightarrow> string \<Rightarrow> nat \<Rightarrow> string \<times> nat" where
  "columnize_lines left_margin single_line_str_len istr ostr r =
     (if istr = [] \<or> single_line_str_len = 0 then (ostr, r)
      else let margin = replicate (left_margin div KTAB_WIDTH) CHR 0x09 @ replicate (left_margin mod KTAB_WIDTH) CHR '' '';
               (line, rest) = take_line single_line_str_len istr;
               rest' = (if rest \<noteq> [] \<and> hd rest = CHR 0x0A then tl rest else rest)
           in if rest' = [] then (ostr @ margin @ line, length line)
              else columnize_lines left_margin single_line_str_len rest' (ostr @ margin @ line @ [CHR 0x0A]) (length line))"
  by pat_completeness auto
termination
proof (relation "measure (\<lambda>(lm, w, istr, ostr, r). length istr)", goal_cases)
  case (2 left_margin w istr ostr r margin x line rest rest')
  then obtain n where w: "w = Suc n" by (cases w) auto
  have sp: "istr = line @ rest" using 2 take_line_split by auto
  have "length rest' < length istr"
  proof (cases "rest \<noteq> [] \<and> hd rest = CHR 0x0A")
    case True
    then show ?thesis using 2 sp by (cases rest) auto
  next
    case False
    then show ?thesis using 2 take_line_progress [of n istr line rest] by (auto simp: w)
  qed
  then show ?case by simp
qed simp

declare columnize_lines.simps [simp del]

definition columnlize_string :: "string \<Rightarrow> int \<Rightarrow> nat \<Rightarrow> nat \<Rightarrow> char \<Rightarrow> string option" where
  "columnlize_string istr screen_width left_margin right_margin fillbyte =
     (let single_line_str_len = screen_width - int (left_margin + right_margin)
      in if single_line_str_len < 1 then None
         else case columnize_lines left_margin (nat single_line_str_len) istr [] 0 of
                (ostr, r) \<Rightarrow> Some (ostr @ replicate (nat single_line_str_len - r) fillbyte))"

text \<open>A column text that does not fit the 200 bytes of the buffer overruns it.\<close>

definition display_boot_progress :: "string \<Rightarrow> bool \<Rightarrow> string outcome" where
  "display_boot_progress message result =
     (let right_margin = 8; left_margin = 1;
          pstr = (if result then ''FAIL'' else ''OK'')
      in case columnlize_string message SCREEN_WIDTH left_margin right_margin CHR ''.'' of
           None \<Rightarrow> Trap
         | Some column_str \<Rightarrow>
             if 200 \<le> length column_str then Trap
             else printks ((''%s'', [VStr column_str]) # replicate (right_margin - length pstr - 2) (''.'', []) @ [(''[%s]'', [VStr pstr])]))"

section \<open>The RAM map holds the available memory\<close>

definition trunc_entry :: "multiboot_mmap_entry \<Rightarrow> ram_map_t" where
  "trunc_entry e = \<lparr>saddr = ucast (mm_addr e), len = ucast (mm_len e)\<rparr>"

definition available :: "multiboot_mmap_entry list \<Rightarrow> ram_map_t list" where
  "available es = map trunc_entry (filter (\<lambda>e. mm_type e = MULTIBOOT_MEMORY_AVAILABLE) es)"

lemma mask32_trunc: "(ucast (x AND mask32) :: u32) = ucast (x :: u64)"
proof -
  have m: "mask32 = mask 32" by (simp add: mask32_def mask_eq_exp_minus_1)
  show ?thesis unfolding m by (rule bit_word_eqI) (auto simp: bit_simps)
qed

lemma readable_size_returns: "\<exists>t. print_human_readable_size sz = Ret t"
proof -
  have "prints (CHR ''%'' # CHR ''d'' # u) [VInt v]" if "CHR ''%'' \<notin> set u" "short_text u" for u v
    using prints_conv [of "[]" u "[]" "ConvD v"] that by (simp add: short_text_def)
  then have "\<exists>t. printk (CHR ''%'' # CHR ''d'' # u) [VInt v] = Ret t" if "CHR ''%'' \<notin> set u" "short_text u" for u v
    using that unfolding prints_def by blast
  then show ?thesis by (simp add: print_human_readable_size_def Let_def short_text_def)
qed

lemma mmap_line_returns: "\<exists>t. mmap_line e = Ret t"
proof -
  have "prints ''0x%8x '' [VInt v]" for v
    using prints_conv [of "''0x''" "'' ''" "''8''" "ConvX v"] by (simp add: short_text_def isdigit_def)
  moreover have "prints ''RAM     : '' []" "prints ''Reserved: '' []"
    by (intro prints_lit; simp add: short_text_def)+
  ultimately have "\<exists>a. printks [(if mm_type e = MULTIBOOT_MEMORY_AVAILABLE then ''RAM     : '' else ''Reserved: '', []),
      (''0x%8x '', [VInt (ucast (mm_addr e) AND 0xFFFFFFFF)])] = Ret a"
    by (intro printks_prints) simp
  then obtain a where "printks [(if mm_type e = MULTIBOOT_MEMORY_AVAILABLE then ''RAM     : '' else ''Reserved: '', []),
      (''0x%8x '', [VInt (ucast (mm_addr e) AND 0xFFFFFFFF)])] = Ret a" by blast
  moreover obtain b where "print_human_readable_size (ucast (mm_len e) AND 0xFFFFFFFF) = Ret b" using readable_size_returns by blast
  ultimately show ?thesis unfolding mmap_line_def by (cases b) (simp del: printks.simps)
qed

lemma mmap_loop_available:
  assumes "n \<le> length es" and "cnt + n \<le> length ram"
  shows "\<exists>t. mmap_loop es n ram cnt = Ret (t, take cnt ram @ available (take n es) @ drop (cnt + length (available (take n es))) ram,
    cnt + length (available (take n es)))"
  using assms
proof (induction n arbitrary: es ram cnt)
  case 0
  then show ?case by (simp add: available_def)
next
  case (Suc n)
  then obtain e es' where es: "es = e # es'" by (cases es) auto
  obtain l where l: "mmap_line e = Ret l" using mmap_line_returns by blast
  show ?case
  proof (cases "mm_type e = MULTIBOOT_MEMORY_AVAILABLE")
    case True
    let ?ram = "ram[cnt := trunc_entry e]"
    obtain t where t: "mmap_loop es' n ?ram (cnt + 1) =
      Ret (t, take (cnt + 1) ?ram @ available (take n es') @ drop (cnt + 1 + length (available (take n es'))) ?ram,
           cnt + 1 + length (available (take n es')))"
      using Suc.IH [of es' "cnt + 1" ?ram] Suc.prems es by auto
    have "take (cnt + 1) ?ram = take cnt ram @ [trunc_entry e]"
      using Suc.prems by (simp add: take_Suc_conv_app_nth)
    then show ?thesis using t l True Suc.prems
      by (simp add: es mask32_trunc trunc_entry_def [symmetric]) (simp add: available_def)
  next
    case False
    then show ?thesis using Suc.IH [of es' cnt ram] Suc.prems l by (auto simp: es available_def)
  qed
qed

text \<open>
  What the loader must provide, and the arrays of the module: tables within the arrays, a boot
  device that is one of the two floppies or the first two disks, and strings that fit the console
  buffer.
\<close>

definition loader_ok :: "loader_memory \<Rightarrow> multiboot_info \<Rightarrow> sysinfo \<Rightarrow> bool" where
  "loader_ok lm m s \<longleftrightarrow>
     length (mboot_mmap s) = 20 \<and> length (drive_info s) = 20 \<and> length (ram_map s) = 20 \<and>
     unat (mmap_length m) \<le> 480 \<and> unat (drives_length m) \<le> 280 \<and>
     (mmap_addr m \<noteq> 0 \<longrightarrow> unat (mmap_length m) div 24 \<le> length (mmap_at lm (mmap_addr m))) \<and>
     (drives_addr m \<noteq> 0 \<longrightarrow> unat (drives_length m) div 14 \<le> length (drives_at lm (drives_addr m))) \<and>
     (mi_flags m AND MULTIBOOT_INFO_BOOTDEV \<noteq> 0 \<longrightarrow> drive_index (drop_bit 24 (boot_device m AND 0xFF000000)) < 4) \<and>
     short_text (cstring_at lm (cmdline m)) \<and> short_text (cstring_at lm (boot_loader_name m))"

lemma drive_lines_return:
  "n \<le> length ds \<Longrightarrow> \<exists>t. drive_lines lm ds n = Ret t"
proof (induction n arbitrary: ds)
  case (Suc n)
  then obtain d ds' where ds: "ds = d # ds'" by (cases ds) auto
  have c: "prints (pre @ ''%d'' @ post) [VInt v]" if "CHR ''%'' \<notin> set pre \<union> set post" "short_text pre" "short_text post" for pre post v
    using prints_conv [of pre post "[]" "ConvD v"] that by simp
  have "prints ''%d'' [VInt v]" "prints '', %d-C'' [VInt v]" "prints '', %d-H'' [VInt v]" "prints '', %d-S'' [VInt v]" "prints '', %d'' [VInt v]" for v
    using c [of "[]" "[]"] c [of "'', ''" "''-C''"] c [of "'', ''" "''-H''"] c [of "'', ''" "''-S''"] c [of "'', ''" "[]"]
    by (simp_all add: short_text_def)
  moreover have "prints '', CHS'' []" "prints '', LBA mode'' []" "prints '', Unknown mode'' []" "prints ''\<newline>'' []"
    by (intro prints_lit; simp add: short_text_def)+
  ultimately have "\<exists>t. drive_line lm d = Ret t"
    unfolding drive_line_def by (intro printks_prints) auto
  then show ?case using Suc ds by fastforce
qed simp

lemma report_formats:
  "prints ''Flags: 0x%x\<newline>'' [VInt v]" "prints ''%d KB\<newline>'' [VInt v]" "prints ''Amount of upper memory: %d KB\<newline>'' [VInt v]"
  "prints ''Bios drive number: %x: '' [VInt v]" "prints ''part1: %x\<newline>'' [VInt v]" "prints ''part2: %x\<newline>'' [VInt v]"
  "prints ''part3: %x\<newline>'' [VInt v]" "prints ''RAM Map: Flags: %x mi.mmap_length: %d\<newline>'' [VInt v, VInt w]"
  "short_text s \<Longrightarrow> prints ''%s\<newline>'' [VStr s]" "short_text s \<Longrightarrow> prints ''Command line: %s\<newline>'' [VStr s]"
  "short_text s \<Longrightarrow> prints ''Bootloader name: %s\<newline>'' [VStr s]"
  using prints_conv [of "''Flags: 0x''" "''\<newline>''" "[]" "ConvX v"] prints_conv [of "[]" "'' KB\<newline>''" "[]" "ConvD v"]
    prints_conv [of "''Amount of upper memory: ''" "'' KB\<newline>''" "[]" "ConvD v"] prints_conv [of "''Bios drive number: ''" "'': ''" "[]" "ConvX v"]
    prints_conv [of "''part1: ''" "''\<newline>''" "[]" "ConvX v"] prints_conv [of "''part2: ''" "''\<newline>''" "[]" "ConvX v"]
    prints_conv [of "''part3: ''" "''\<newline>''" "[]" "ConvX v"]
    prints_short [of "[Lit ''RAM Map: Flags: '', Conv [] (ConvX v), Lit '' mi.mmap_length: '', Conv [] (ConvD w), Lit ''\<newline>'']"]
    prints_conv [of "[]" "''\<newline>''" "[]" "ConvS s"] prints_conv [of "''Command line: ''" "''\<newline>''" "[]" "ConvS s"]
    prints_conv [of "''Bootloader name: ''" "''\<newline>''" "[]" "ConvS s"]
  by (simp_all add: short_text_def)

lemma report_texts:
  "prints ''Amount of lower memory: '' []" "prints ''Boot device unknown\<newline>'' []" "prints ''Command line data not present\<newline>'' []"
  "prints ''Module information NOT parsed\<newline>'' []" "prints ''Symbol table information not parsed\<newline>'' []"
  "prints ''ROM configuration table not parsed!\<newline>'' []" "prints ''APM information not parsed\<newline>'' []" "prints ''VBE information not parsed\<newline>'' []"
  by (intro prints_lit; simp add: short_text_def)+

lemma reports_return:
  "\<exists>t. report_memory m = Ret t"
  "mi_flags m AND MULTIBOOT_INFO_BOOTDEV \<noteq> 0 \<longrightarrow> drive_index (drop_bit 24 (boot_device m AND 0xFF000000)) < 4 \<Longrightarrow>
     \<exists>t. report_boot_device m = Ret t"
  "short_text (cstring_at lm (cmdline m)) \<Longrightarrow> \<exists>t. report_cmdline lm m = Ret t"
  "short_text (cstring_at lm (boot_loader_name m)) \<Longrightarrow> \<exists>t. report_rest lm m = Ret t"
proof -
  have na: "short_text ''Not Specified''" by (simp add: short_text_def)
  show "\<exists>t. report_memory m = Ret t"
    unfolding report_memory_def by (intro printks_prints) (simp add: report_formats report_texts na)
  show "\<exists>t. report_cmdline lm m = Ret t" if "short_text (cstring_at lm (cmdline m))"
    unfolding report_cmdline_def using that by (intro printks_prints) (simp add: report_formats report_texts)
  show "\<exists>t. report_rest lm m = Ret t" if "short_text (cstring_at lm (boot_loader_name m))"
    unfolding report_rest_def using that by (intro printks_prints) (simp add: report_formats report_texts)
  let ?drive = "drop_bit 24 (boot_device m AND 0xFF000000)"
  assume d: "mi_flags m AND MULTIBOOT_INFO_BOOTDEV \<noteq> 0 \<longrightarrow> drive_index ?drive < 4"
  have s: "short_text (drivestr ! drive_index ?drive)" if "drive_index ?drive < 4"
    using that by (auto simp: drivestr_def drive_index_def short_text_def split: if_splits)
  have n: "length drivestr = 4" by (simp add: drivestr_def)
  show "\<exists>t. report_boot_device m = Ret t"
  proof (cases "mi_flags m AND MULTIBOOT_INFO_BOOTDEV \<noteq> 0")
    case True
    then show ?thesis using d s n unfolding report_boot_device_def Let_def
      by (simp del: printks.simps) (intro printks_prints, simp add: report_formats)
  next
    case False
    then show ?thesis unfolding report_boot_device_def Let_def
      by (simp del: printks.simps) (intro printks_prints, simp add: report_texts)
  qed
qed

lemma parse_returns:
  assumes "unat (mmap_length (mi s)) div 24 \<le> length (mboot_mmap s)" and "unat (mmap_length (mi s)) div 24 \<le> length (ram_map s)"
    and "unat (drives_length (mi s)) div 14 \<le> length (drive_info s)"
    and "mi_flags (mi s) AND MULTIBOOT_INFO_BOOTDEV \<noteq> 0 \<longrightarrow> drive_index (drop_bit 24 (boot_device (mi s) AND 0xFF000000)) < 4"
    and "short_text (cstring_at lm (cmdline (mi s)))" and "short_text (cstring_at lm (boot_loader_name (mi s)))"
  defines "avs \<equiv> available (take (unat (mmap_length (mi s)) div 24) (mboot_mmap s))"
  shows "\<exists>t. parse_mboot_information lm s = Ret (t,
    if mi_flags (mi s) AND MULTIBOOT_INFO_MEM_MAP \<noteq> 0 \<and> mmap_length (mi s) \<noteq> 0
    then s\<lparr>ram_map := avs @ drop (length avs) (ram_map s), ram_nodes_cnt := length avs\<rparr> else s)"
proof -
  obtain t1 t2 t3 t6 where t: "report_memory (mi s) = Ret t1" "report_boot_device (mi s) = Ret t2"
    "report_cmdline lm (mi s) = Ret t3" "report_rest lm (mi s) = Ret t6"
    using reports_return assms(4-6) by metis
  obtain t4 where t4: "mmap_loop (mboot_mmap s) (unat (mmap_length (mi s)) div 24) (ram_map s) 0 =
      Ret (t4, avs @ drop (length avs) (ram_map s), length avs)"
    using mmap_loop_available [of "unat (mmap_length (mi s)) div 24" "mboot_mmap s" 0 "ram_map s"] assms(1,2) by (auto simp: avs_def)
  obtain t5 where t5: "drive_lines lm (drive_info s) (unat (drives_length (mi s)) div 14) = Ret t5"
    using drive_lines_return [OF assms(3)] by blast
  show ?thesis
    unfolding parse_mboot_information_def Let_def t sizeof_mmap_entry_def sizeof_drive_info_def
    by (simp add: t4 t5)
qed

text \<open>
  The memory map that the boot loader reports, and the RAM map of it. Without an address of a memory map
  the entries that the module holds are read, which are zeros at first.
\<close>

definition reported_entries :: "loader_memory \<Rightarrow> multiboot_info \<Rightarrow> sysinfo \<Rightarrow> multiboot_mmap_entry list" where
  "reported_entries lm m s =
     (if mi_flags m AND MULTIBOOT_INFO_MEM_MAP \<noteq> 0 \<and> mmap_length m \<noteq> 0
      then take (unat (mmap_length m) div 24) (if mmap_addr m \<noteq> 0 then mmap_at lm (mmap_addr m) else mboot_mmap s)
      else [])"

definition reported_map :: "loader_memory \<Rightarrow> multiboot_info \<Rightarrow> sysinfo \<Rightarrow> ram_map_t list" where
  "reported_map lm m s = available (reported_entries lm m s)"

lemma reported_map_if: "reported_map lm m s =
  (if mi_flags m AND MULTIBOOT_INFO_MEM_MAP \<noteq> 0 \<and> mmap_length m \<noteq> 0
   then available (take (unat (mmap_length m) div 24) (if mmap_addr m \<noteq> 0 then mmap_at lm (mmap_addr m) else mboot_mmap s))
   else [])"
  by (simp add: reported_map_def reported_entries_def available_def)

lemma multiboot_ram_map:
  assumes "loader_ok lm m s" and "ram_nodes_cnt s = 0"
  defines "avs \<equiv> reported_map lm m s"
  shows "\<exists>t s'. read_multiboot_information lm m s = Ret (t, s') \<and> fst (get_rammap_ptr s') = length avs \<and>
    take (length avs) (snd (get_rammap_ptr s')) = avs \<and> length (ram_map s') = 20"
proof -
  let ?n = "unat (mmap_length m) div 24"
  let ?d = "unat (drives_length m) div 14"
  let ?src = "if mmap_addr m \<noteq> 0 then mmap_at lm (mmap_addr m) else mboot_mmap s"
  have l: "length (mboot_mmap s) = 20" "length (drive_info s) = 20" "length (ram_map s) = 20" "?n \<le> 20" "?d \<le> 20"
    using assms(1) by (auto simp: loader_ok_def)
  have n: "?n \<le> length ?src" "drives_addr m \<noteq> 0 \<Longrightarrow> ?d \<le> length (drives_at lm (drives_addr m))"
    using assms(1) l by (auto simp: loader_ok_def)
  define t where "t = (if mmap_addr m \<noteq> 0 then s\<lparr>mi := m, mboot_mmap := take ?n (mmap_at lm (mmap_addr m)) @ drop ?n (mboot_mmap s)\<rparr>
    else s\<lparr>mi := m\<rparr>)"
  define u where "u = (if drives_addr m \<noteq> 0 then t\<lparr>drive_info := take ?d (drives_at lm (drives_addr m)) @ drop ?d (drive_info t)\<rparr> else t)"
  have mu: "mi u = m" "take ?n (mboot_mmap u) = take ?n ?src" "?n \<le> length (mboot_mmap u)" "length (ram_map u) = 20"
    "?d \<le> length (drive_info u)" "ram_nodes_cnt u = 0"
    using l n assms(2) by (auto simp: u_def t_def)
  have "read_multiboot_information lm m s = parse_mboot_information lm u"
    using assms(1) by (simp add: read_multiboot_information_def Let_def sizeof_mmap_entry_def sizeof_drive_info_def
        ADDR_MAP_NODE_CNT_def DRIVE_INFO_NODE_CNT_def loader_ok_def u_def t_def)
  moreover obtain out where "parse_mboot_information lm u = Ret (out,
      if mi_flags m AND MULTIBOOT_INFO_MEM_MAP \<noteq> 0 \<and> mmap_length m \<noteq> 0
      then u\<lparr>ram_map := avs @ drop (length avs) (ram_map u), ram_nodes_cnt := length avs\<rparr> else u)"
    using parse_returns [of u lm] assms(1) l mu by (auto simp: loader_ok_def avs_def reported_map_if)
  moreover have "length (available (take ?n xs)) \<le> ?n" for xs
    unfolding available_def length_map by (rule le_trans [OF length_filter_le]) simp
  then have "length (available (take ?n xs)) \<le> 20" for xs using l(4) le_trans by blast
  then have "length avs \<le> 20" by (simp add: avs_def reported_map_if)
  ultimately show ?thesis using mu by (auto simp: get_rammap_ptr_def avs_def reported_map_if)
qed

text \<open>
  C9. Reading the boot loader's tables succeeds for every loader that keeps to the arrays of the module, of 20 entries
  of the memory map and 20 drives, that reports one of the four boot drives the module has a name for, when it reports
  one, and whose command line and name have less than 100 characters; no array is overrun whatever the
  entries are. The RAM map, which is empty before, then holds exactly the available entries of the memory map, in
  their order, cut to 32 bits, when the flag of the memory map is set and its length is not 0, and stays empty
  otherwise.
\<close>

theorem read_multiboot_ram_map:
  assumes "loader_ok lm m s" and "ram_nodes_cnt s = 0"
  defines "avs \<equiv> reported_map lm m s"
  shows "\<exists>t s'. read_multiboot_information lm m s = Ret (t, s') \<and> fst (get_rammap_ptr s') = length avs \<and>
    take (length avs) (snd (get_rammap_ptr s')) = avs \<and> length (ram_map s') = 20"
  unfolding avs_def using assms(1,2) by (rule multiboot_ram_map)

definition loader_example :: loader_memory where
  "loader_example = \<lparr>mmap_at = (\<lambda>_. [\<lparr>mm_size = 20, mm_addr = 0, mm_len = 0x9F000, mm_type = 1\<rparr>,
       \<lparr>mm_size = 20, mm_addr = 0x9F000, mm_len = 0x1000, mm_type = 2\<rparr>,
       \<lparr>mm_size = 20, mm_addr = 0x100000, mm_len = 0x7F00000, mm_type = 1\<rparr>]),
     drives_at = (\<lambda>_. []), ports_at = (\<lambda>_. []), cstring_at = (\<lambda>_. ''/boot/ganoid'')\<rparr>"

definition mi_example :: multiboot_info where
  "mi_example = \<lparr>mi_flags = 0x27, mem_lower = 639, mem_upper = 129920, boot_device = 0x8000FFFF, cmdline = 0x1000, mmap_length = 72,
     mmap_addr = 0x2000, drives_length = 0, drives_addr = 0, boot_loader_name = 0\<rparr>"

definition sysinfo_boot :: sysinfo where
  "sysinfo_boot = \<lparr>mi = mi_example, mboot_mmap = replicate 20 \<lparr>mm_size = 0, mm_addr = 0, mm_len = 0, mm_type = 0\<rparr>,
     drive_info = replicate 20 \<lparr>drive_size = 0, drive_no = 0, drive_mode = 0, drive_cylinders = 0, drive_heads = 0, drive_sectors = 0, start_port_array = 0\<rparr>,
     ram_map = replicate 20 \<lparr>saddr = 0, len = 0\<rparr>, ram_nodes_cnt = 0\<rparr>"

lemma loader_example_ok: "loader_ok loader_example mi_example sysinfo_boot"
  by (simp add: loader_ok_def loader_example_def mi_example_def sysinfo_boot_def MULTIBOOT_INFO_BOOTDEV_def drive_index_def short_text_def)

theorem read_multiboot_ram_map_witness:
  "\<exists>t s'. read_multiboot_information loader_example mi_example sysinfo_boot = Ret (t, s') \<and> fst (get_rammap_ptr s') = 2 \<and>
     take 2 (snd (get_rammap_ptr s')) = [\<lparr>saddr = 0, len = 0x9F000\<rparr>, \<lparr>saddr = 0x100000, len = 0x7F00000\<rparr>]"
proof -
  have "reported_map loader_example mi_example sysinfo_boot = [\<lparr>saddr = 0, len = 0x9F000\<rparr>, \<lparr>saddr = 0x100000, len = 0x7F00000\<rparr>]"
    by (simp add: reported_map_if mi_example_def loader_example_def available_def trunc_entry_def MULTIBOOT_MEMORY_AVAILABLE_def
        MULTIBOOT_INFO_MEM_MAP_def)
  moreover have "ram_nodes_cnt sysinfo_boot = 0" by (simp add: sysinfo_boot_def)
  ultimately show ?thesis using read_multiboot_ram_map [OF loader_example_ok] by (auto simp: numeral_2_eq_2)
qed

text \<open>
  A boot device other than the two floppies and the first two disks, a CD drive for example,
  makes the report index past the end of its table of drive names.
\<close>

theorem unknown_boot_device_traps:
  assumes "mi_flags (mi s) AND MULTIBOOT_INFO_BOOTDEV \<noteq> 0" and "drop_bit 24 (boot_device (mi s) AND 0xFF000000) \<notin> {0, 1, 0x80, 0x81}"
  shows "parse_mboot_information lm s = Trap"
proof -
  obtain t1 where "report_memory (mi s) = Ret t1" using reports_return(1) by blast
  moreover have "report_boot_device (mi s) = Trap"
    using assms by (simp add: report_boot_device_def Let_def drive_index_def drivestr_def)
  ultimately show ?thesis by (simp add: parse_mboot_information_def Let_def)
qed

theorem unknown_boot_device_traps_witness:
  "parse_mboot_information loader_example (sysinfo_boot\<lparr>mi := mi_example\<lparr>boot_device := 0xE0FFFFFF\<rparr>\<rparr>) = Trap"
  by (rule unknown_boot_device_traps) (simp_all add: mi_example_def MULTIBOOT_INFO_BOOTDEV_def)

section \<open>Boot progress lines\<close>

lemma take_line_all: "CHR 0x0A \<notin> set s \<Longrightarrow> length s \<le> n \<Longrightarrow> take_line n s = (s, [])"
  by (induction n s rule: take_line.induct) auto

lemma columnlize_one_line:
  assumes "CHR 0x0A \<notin> set msg" and "length msg \<le> 71" and "msg \<noteq> []"
  shows "columnlize_string msg 80 1 8 c = Some ('' '' @ msg @ replicate (71 - length msg) c)"
proof -
  have "columnize_lines (Suc 0) 71 msg [] 0 = ('' '' @ msg, length msg)"
    using assms by (subst columnize_lines.simps) (simp add: take_line_all KTAB_WIDTH_def)
  then show ?thesis by (simp add: columnlize_string_def)
qed

lemma printks_dots: "printks (replicate n (''.'', []) @ ps) = obind (printks ps) (\<lambda>t. Ret (replicate n CHR ''.'' @ t))"
proof (induction n)
  case 0
  then show ?case by (cases "printks ps") auto
next
  case (Suc n)
  have "printk ''.'' [] = Ret (''.'', 0)" using printk_pieces [of "[Lit ''.'']"] by simp
  then show ?case using Suc by (cases "printks ps") auto
qed

lemma boot_progress_line:
  assumes "CHR 0x0A \<notin> set msg" and "CHR 0x00 \<notin> set msg" and "length msg \<le> 71" and "msg \<noteq> []"
  shows "\<exists>t. display_boot_progress msg failed = Ret t \<and> length t = 80 \<and>
    t = '' '' @ msg @ replicate (71 - length msg) CHR ''.'' @ (if failed then ''..[FAIL]'' else ''....[OK]'')"
proof -
  let ?col = "'' '' @ msg @ replicate (71 - length msg) CHR ''.''"
  have col: "columnlize_string msg SCREEN_WIDTH 1 8 CHR ''.'' = Some ?col" "length ?col = 72"
    using columnlize_one_line [OF assms(1,3,4)] assms(3) by (simp_all add: SCREEN_WIDTH_def)
  have p: "printk ''%s'' [VStr ?col] = Ret (?col, 0)"
    using printk_pieces [of "[Conv [] (ConvS ?col)]"] assms(2) col(2) by simp
  have r: "printk ''[%s]'' [VStr s] = Ret (''['' @ s @ '']'', 0)" if "s \<in> {''OK'', ''FAIL''}" for s
    using printk_pieces [of "[Lit ''['', Conv [] (ConvS s), Lit '']'']"] that by auto
  have d: "replicate 4 CHR ''.'' = ''....''" "replicate 2 CHR ''.'' = ''..''" by (simp_all add: numeral_eq_Suc)
  show ?thesis
    unfolding display_boot_progress_def Let_def col(1) option.case
    using col(2) p r d assms(3) by (simp add: printks_dots)
qed

text \<open>
  A boot progress message of one line that fits its column is shown on a line of exactly 80
  characters: one space, the message, dots, and the result in brackets at the right margin.
\<close>

theorem display_boot_progress_line:
  assumes "CHR 0x0A \<notin> set msg" and "CHR 0x00 \<notin> set msg" and "length msg \<le> 71" and "msg \<noteq> []"
  shows "\<exists>t. display_boot_progress msg failed = Ret t \<and> length t = 80 \<and>
    t = '' '' @ msg @ replicate (71 - length msg) CHR ''.'' @ (if failed then ''..[FAIL]'' else ''....[OK]'')"
  using assms by (rule boot_progress_line)

theorem display_boot_progress_line_witness:
  "\<exists>t. display_boot_progress ''Initialize keyboard'' False = Ret t \<and> length t = 80"
  using display_boot_progress_line [of "''Initialize keyboard''" False] by auto

end
