(* ===== verification/Bootmem.thy ===== *)
theory Bootmem
  imports PageAlloc CString
begin

text \<open>
  The boot memory allocator, mm/bootmem.c: a bitmap of page frames, an area of account nodes that
  remember the first and the last page of every block handed out, and the heap
  \<^verbatim>\<open>bm_heap_start\<close> to \<^verbatim>\<open>bm_heap_end\<close> the blocks come from. With \<^verbatim>\<open>GANOID_DEBUG\<close>, which
  types.h defines, the pages of a block are filled with 0 when it is handed out and with the byte
  0xEF when it is freed. The account nodes lie in pages of their own and are kept apart from the
  byte memory here. The file is not in the list of sources of the build.
\<close>

section \<open>State\<close>

record bm_account =
  start_bit :: u32
  end_bit :: u32

record bootmem =
  free_bitmap :: bitmap_t
  bmem :: mem
  acnt :: "bm_account list"
  acnt_i :: u32
  bootmem_init_complete :: bool
  bm_heap_start :: u32
  bm_heap_end :: u32

definition TOTAL_ACNT_NODES :: nat where "TOTAL_ACNT_NODES = 1000"
definition bm_heap_size :: u32 where "bm_heap_size = 4096 * 3000"
definition kdebug_init_val :: u32 where "kdebug_init_val = 0xCAFED00D"

definition GETBIT :: "u32 \<Rightarrow> u32" where "GETBIT a = a div PAGE_SIZE"
definition FROMBIT :: "u32 \<Rightarrow> u32" where "FROMBIT b = b * PAGE_SIZE"

definition ROUND_TO_PAGE_SIZE :: "u32 \<Rightarrow> u32" where
  "ROUND_TO_PAGE_SIZE s = PAGE_SIZE * ((s - 1) div PAGE_SIZE) + PAGE_SIZE"

section \<open>Bits and ranges\<close>

definition bm_setbit :: "bool \<Rightarrow> bootmem \<Rightarrow> u32 \<Rightarrow> bootmem outcome" where
  "bm_setbit init_area s bitno =
     (let index = unat bitno div 32; offset = unat bitno mod 32; msk = push_bit offset 1
      in if index < UINT_CNT
         then let s = s\<lparr>free_bitmap := (free_bitmap s)(index := free_bitmap s index OR msk)\<rparr>
              in Ret (if init_area then s\<lparr>bmem := memset (bmem s) (FROMBIT bitno) 0 PAGE_SIZE\<rparr> else s)
         else Trap)"

definition bm_clearbit :: "bool \<Rightarrow> bootmem \<Rightarrow> u32 \<Rightarrow> bootmem outcome" where
  "bm_clearbit init_area s bitno =
     (let index = unat bitno div 32; offset = unat bitno mod 32; msk = push_bit offset 1
      in if index < UINT_CNT
         then let s = s\<lparr>free_bitmap := (free_bitmap s)(index := free_bitmap s index AND NOT msk)\<rparr>
              in Ret (if init_area then s\<lparr>bmem := memset (bmem s) (FROMBIT bitno) 0xDEADBEEF PAGE_SIZE\<rparr> else s)
         else Trap)"

definition bm_getbit :: "bootmem \<Rightarrow> u32 \<Rightarrow> u32 outcome" where
  "bm_getbit s bitno =
     (let index = unat bitno div 32; offset = unat bitno mod 32; msk = push_bit offset 1
      in if index < UINT_CNT then Ret (free_bitmap s index AND msk) else Trap)"

definition bm_busy :: "bootmem \<Rightarrow> u32 \<Rightarrow> bool" where
  "bm_busy s b = page_busy (free_bitmap s) b"

interpretation bm: bitmap NUM_FRAMES "bm_setbit ia" "bm_clearbit ia" bm_busy for ia
  by unfold_locales
    (auto simp: bm_setbit_def bm_clearbit_def Let_def bm_busy_def page_busy_def busyn_set busyn_clr)

lemma bm_setbit_RetD: "bm_setbit ia s b = Ret s' \<Longrightarrow> unat (b + 1) = Suc (unat b)"
  by (auto simp: bm_setbit_def Let_def intro!: unat_Suc_word split: if_splits)

lemma bm_clearbit_RetD: "bm_clearbit ia s b = Ret s' \<Longrightarrow> unat (b + 1) = Suc (unat b)"
  by (auto simp: bm_clearbit_def Let_def intro!: unat_Suc_word split: if_splits)

function bm_setbit_range :: "bool \<Rightarrow> bootmem \<Rightarrow> u32 \<Rightarrow> u32 \<Rightarrow> bootmem outcome" where
  "bm_setbit_range init_area s i e =
     (if i \<le> e then obind (bm_setbit init_area s i) (\<lambda>s'. bm_setbit_range init_area s' (i + 1) e) else Ret s)"
  by pat_completeness auto
termination
  by (relation "measure (\<lambda>(ia, s, b, e). unat e + 1 - unat b)")
    (auto simp: bm_setbit_RetD word_le_nat_alt)

function bm_clearbit_range :: "bool \<Rightarrow> bootmem \<Rightarrow> u32 \<Rightarrow> u32 \<Rightarrow> bootmem outcome" where
  "bm_clearbit_range init_area s i e =
     (if i \<le> e then obind (bm_clearbit init_area s i) (\<lambda>s'. bm_clearbit_range init_area s' (i + 1) e) else Ret s)"
  by pat_completeness auto
termination
  by (relation "measure (\<lambda>(ia, s, b, e). unat e + 1 - unat b)")
    (auto simp: bm_clearbit_RetD word_le_nat_alt)

declare bm_setbit_range.simps [simp del] bm_clearbit_range.simps [simp del]

interpretation bmr: bitmap_range NUM_FRAMES "bm_setbit ia" "bm_clearbit ia" bm_busy "bm_setbit_range ia" "bm_clearbit_range ia" for ia
  by unfold_locales (rule bm_setbit_range.simps bm_clearbit_range.simps)+

section \<open>The searches\<close>

text \<open>The mask loop ends at the end of the word or behind the heap.\<close>

function bm_ff_word :: "u32 \<Rightarrow> u32 \<Rightarrow> nat \<Rightarrow> nat \<Rightarrow> bool \<times> nat" where
  "bm_ff_word w msk i e =
     (if msk \<noteq> 0 \<and> i \<le> e
      then if w AND msk = 0 then (True, i) else bm_ff_word w (push_bit 1 msk) (i + 1) e
      else (False, i))"
  by pat_completeness auto
termination
  by (relation "measure (\<lambda>(w, msk, i, e). shifts_left msk)") (simp_all add: shifts_left_step del: push_bit_of_1)

function bm_ff_words :: "bitmap_t \<Rightarrow> nat \<Rightarrow> u32 \<Rightarrow> nat \<Rightarrow> nat \<Rightarrow> nat option outcome" where
  "bm_ff_words bm index msk i e =
     (if i \<le> e
      then if index < UINT_CNT
           then case bm_ff_word (bm index) msk i e of
                  (found, i') \<Rightarrow> if found then Ret (Some i') else bm_ff_words bm (index + 1) 1 i' e
           else Trap
      else Ret None)"
  by pat_completeness auto
termination
  by (relation "measure (\<lambda>(bm, index, msk, i, e). UINT_CNT - index)") auto

declare bm_ff_word.simps [simp del] bm_ff_words.simps [simp del]

definition bm_find_first_free :: "bootmem \<Rightarrow> u32 \<Rightarrow> u32 option outcome" where
  "bm_find_first_free s from_bit =
     (let e = GETBIT (bm_heap_end s); index = unat from_bit div 32; offset = unat from_bit mod 32
      in if from_bit > e then Ret None
         else obind (bm_ff_words (free_bitmap s) index (push_bit offset 1) (unat from_bit) (unat e))
                (\<lambda>r. Ret (map_option of_nat r)))"

function bm_scan_run :: "bootmem \<Rightarrow> u32 \<Rightarrow> u32 \<Rightarrow> u32 \<Rightarrow> u32 outcome" where
  "bm_scan_run s remaining_bits b i =
     (if i < remaining_bits \<and> b \<le> GETBIT (bm_heap_end s)
      then obind (bm_getbit s b) (\<lambda>r. if r \<noteq> 0 then Ret i else bm_scan_run s remaining_bits (b + 1) (i + 1))
      else Ret i)"
  by pat_completeness auto
termination
  by (relation "measure (\<lambda>(s, r, b, i). unat r - unat i)")
    (auto simp: unat_Suc_word word_less_nat_alt)

declare bm_scan_run.simps [simp del]

text \<open>
  The search loop of \<^verbatim>\<open>find_free_bits_range\<close>; \<^verbatim>\<open>first_free_bit\<close> and \<^verbatim>\<open>i\<close> keep their values
  when no free bit is found.
\<close>

partial_function (option) bm_ffr_loop :: "bootmem \<Rightarrow> u32 \<Rightarrow> u32 \<Rightarrow> u32 \<Rightarrow> u32 \<Rightarrow> u32 option outcome option" where
  "bm_ffr_loop s remaining_bits l_start_bit first_free_bit i =
     (if l_start_bit + remaining_bits \<le> GETBIT (bm_heap_end s)
      then case bm_find_first_free s l_start_bit of
             Ret (Some f) \<Rightarrow>
               (case bm_scan_run s remaining_bits (f + 1) 0 of
                  Ret i \<Rightarrow> if i = remaining_bits then Some (Ret (Some f))
                          else bm_ffr_loop s remaining_bits (f + i) f i
                | Trap \<Rightarrow> Some Trap | Hang \<Rightarrow> Some Hang)
           | Ret None \<Rightarrow> bm_ffr_loop s remaining_bits (first_free_bit + i) first_free_bit i
           | Trap \<Rightarrow> Some Trap | Hang \<Rightarrow> Some Hang
      else Some (Ret None))"

definition bm_find_free_bits_range :: "bootmem \<Rightarrow> u32 \<Rightarrow> u32 option outcome" where
  "bm_find_free_bits_range s total_bits =
     of_loop (bm_ffr_loop s (total_bits - 1) (GETBIT (bm_heap_start s)) kdebug_init_val kdebug_init_val)"

function bm_scan_all :: "bootmem \<Rightarrow> u32 \<Rightarrow> u32 \<Rightarrow> u32 \<Rightarrow> u32 outcome" where
  "bm_scan_all s total_bits first_free_bit i =
     (if i < total_bits
      then obind (bm_getbit s (first_free_bit + i)) (\<lambda>r. if r \<noteq> 0 then Ret i else bm_scan_all s total_bits first_free_bit (i + 1))
      else Ret i)"
  by pat_completeness auto
termination
  by (relation "measure (\<lambda>(s, r, b, i). unat r - unat i)")
    (auto simp: unat_Suc_word word_less_nat_alt)

declare bm_scan_all.simps [simp del]

definition find_free_bits_range_from :: "bootmem \<Rightarrow> u32 \<Rightarrow> u32 \<Rightarrow> int outcome" where
  "find_free_bits_range_from s total_bits l_start_bit =
     (if l_start_bit + total_bits - 1 \<le> GETBIT (bm_heap_end s)
      then obind (bm_find_first_free s l_start_bit) (\<lambda>r. case r of
             None \<Rightarrow> Ret 1
           | Some f \<Rightarrow>
               if f = l_start_bit
               then obind (bm_scan_all s total_bits f 1) (\<lambda>i. Ret (if i = total_bits then 0 else 1))
               else Ret 1)
      else Ret 1)"

section \<open>Accounts\<close>

text \<open>The result is the index of the node; \<open>None\<close> is \<^verbatim>\<open>NULL\<close>.\<close>

definition search_bit_in_acnt :: "bootmem \<Rightarrow> u32 \<Rightarrow> nat option" where
  "search_bit_in_acnt s b =
     find (\<lambda>n. b \<le> end_bit (acnt s ! n) \<and> b \<ge> start_bit (acnt s ! n)) [0..<length (acnt s)]"

definition search_free_acnt_node :: "bootmem \<Rightarrow> nat option" where
  "search_free_acnt_node s = search_bit_in_acnt s 0"

section \<open>Handing out and freeing\<close>

definition bm_malloc :: "bootmem \<Rightarrow> u32 \<Rightarrow> (u32 \<times> bootmem) outcome" where
  "bm_malloc s sz =
     (if \<not> bootmem_init_complete s then Hang
      else let rsize = ROUND_TO_PAGE_SIZE sz; bits = rsize div PAGE_SIZE
           in case search_free_acnt_node s of
                None \<Rightarrow> Ret (NULL, s)
              | Some n \<Rightarrow>
                  obind (bm_find_free_bits_range s bits) (\<lambda>r. case r of
                    None \<Rightarrow> Ret (NULL, s)
                  | Some st \<Rightarrow>
                      obind (bm_setbit_range True s st (st + bits - 1)) (\<lambda>s.
                        Ret (FROMBIT st,
                             s\<lparr>acnt := (acnt s)[n := \<lparr>start_bit = st, end_bit = st + bits - 1\<rparr>],
                               acnt_i := acnt_i s + 1\<rparr>))))"

definition bm_free :: "bootmem \<Rightarrow> u32 \<Rightarrow> bootmem outcome" where
  "bm_free s ptr =
     (if \<not> bootmem_init_complete s then Hang
      else if ptr = NULL then Ret s
      else case search_bit_in_acnt s (GETBIT ptr) of
             None \<Rightarrow> Hang
           | Some n \<Rightarrow>
               obind (bm_clearbit_range True s (start_bit (acnt s ! n)) (end_bit (acnt s ! n))) (\<lambda>s.
                 Ret (s\<lparr>acnt := (acnt s)[n := \<lparr>start_bit = 0, end_bit = 0\<rparr>], acnt_i := acnt_i s - 1\<rparr>)))"

section \<open>Initialisation\<close>

text \<open>
  The loop over the RAM map, whose nodes bootmem.c takes to have a start and an end address. The
  checks end in an endless loop.
\<close>

fun init_bootmem_nodes :: "u32 \<Rightarrow> u32 \<Rightarrow> (u32 \<times> u32) list \<Rightarrow> bootmem \<Rightarrow> bootmem outcome" where
  "init_bootmem_nodes kstart kend [] s = Ret s"
| "init_bootmem_nodes kstart kend ((start_addr, end_addr) # nodes) s =
     (if start_addr AND 0xFFF \<noteq> 0 then Hang
      else obind (if kstart < end_addr
                  then if \<not> kend \<le> end_addr then Hang
                       else bm_setbit_range False s (GETBIT kstart) (GETBIT kend)
                  else Ret s)
             (init_bootmem_nodes kstart kend nodes))"

text \<open>The function as it is: behind the loop stands \<^verbatim>\<open>while(1) {}\<close>.\<close>

definition init_bootmem_allocator :: "u32 \<Rightarrow> u32 \<Rightarrow> (u32 \<times> u32) list \<Rightarrow> bootmem \<Rightarrow> (int \<times> bootmem) outcome" where
  "init_bootmem_allocator kstart kend nodes s =
     obind (init_bootmem_nodes kstart kend nodes s) (\<lambda>s. Hang)"

text \<open>
  The code behind that endless loop, which would set up the heap and the account nodes. The
  memset leaves the last node as it was found, \<open>stale\<close>.
\<close>

definition init_bootmem_heap :: "u32 \<Rightarrow> bm_account \<Rightarrow> bootmem \<Rightarrow> (int \<times> bootmem) outcome" where
  "init_bootmem_heap kend stale s =
     (let s = s\<lparr>bm_heap_start := ROUND_TO_PAGE_SIZE kend\<rparr>
      in if \<not> (- 1 - bm_heap_start s \<ge> bm_heap_size) then Hang
         else let heap_start_bit = GETBIT (bm_heap_start s);
                  total_heap_req_bits = bm_heap_size div PAGE_SIZE;
                  s = s\<lparr>bm_heap_end := bm_heap_start s + bm_heap_size - 1\<rparr>
              in obind (find_free_bits_range_from s total_heap_req_bits heap_start_bit) (\<lambda>r.
                 if r \<noteq> 0 then Hang
                 else let asize = 8 * TOTAL_ACNT_NODES; abits_req = of_nat (asize div unat PAGE_SIZE + 1)
                      in obind (bm_find_free_bits_range s abits_req) (\<lambda>r. case r of
                           None \<Rightarrow> Hang
                         | Some st \<Rightarrow>
                             obind (bm_setbit_range False s st (st + abits_req - 1)) (\<lambda>s.
                               Ret (0, s\<lparr>acnt := replicate (unat abits_req * unat PAGE_SIZE div 8 - 1) \<lparr>start_bit = 0, end_bit = 0\<rparr> @ [stale],
                                         bootmem_init_complete := True\<rparr>)))))"

section \<open>What the searches find\<close>

lemma GETBIT_less [simp]: "unat (GETBIT a) < 1048576"
proof -
  have "unat a < 4294967296" by (rule unat_u32_less)
  then show ?thesis by (simp add: GETBIT_def PAGE_SIZE_def unat_div div_less_iff_less_mult)
qed

lemma bm_ff_word_find:
  "k \<le> 32 \<Longrightarrow> bm_ff_word w (2 ^ k) i e =
     (case find (\<lambda>n. \<not> bit w n) [k..<min 32 (k + (Suc e - i))] of
        Some n \<Rightarrow> (True, i + (n - k)) | None \<Rightarrow> (False, i + (min 32 (k + (Suc e - i)) - k)))"
proof (induction "32 - k" arbitrary: k i)
  case 0
  then show ?case by (auto simp: bm_ff_word.simps [of w 4294967296])
next
  case (Suc d)
  then have k: "k < 32" and d: "d = 32 - Suc k" by auto
  define h where "h = min 32 (k + (Suc e - i))"
  have "bm_ff_word w (2 ^ k) i e =
     (case find (\<lambda>n. \<not> bit w n) [k..<h] of Some n \<Rightarrow> (True, i + (n - k)) | None \<Rightarrow> (False, i + (h - k)))"
  proof (cases "i \<le> e")
    case False
    then have "h = k" using k by (simp add: h_def)
    then show ?thesis using False by (simp add: bm_ff_word.simps [of w "2 ^ k"])
  next
    case True
    have nz: "(2::u32) ^ k \<noteq> 0" and sh: "push_bit 1 (2 ^ k :: u32) = 2 ^ Suc k"
      using k by (simp_all add: exp_eq_zero_iff push_bit_eq_mult)
    have h: "k < h" "min 32 (Suc k + (Suc e - Suc i)) = h" using True k by (auto simp: h_def)
    have IH: "bm_ff_word w (2 ^ Suc k) (Suc i) e =
       (case find (\<lambda>n. \<not> bit w n) [Suc k..<h] of Some n \<Rightarrow> (True, Suc i + (n - Suc k)) | None \<Rightarrow> (False, Suc i + (h - Suc k)))"
      using Suc.hyps(1) [OF d, of "Suc i", unfolded h(2)] k by simp
    show ?thesis
    proof (cases "bit w k")
      case False
      then have "find (\<lambda>n. \<not> bit w n) [k..<h] = Some k" using h(1) by (auto simp: find_upt_Some)
      then show ?thesis using False True nz by (simp add: bm_ff_word.simps [of w "2 ^ k"])
    next
      case bit: True
      then have "bm_ff_word w (2 ^ k) i e = bm_ff_word w (2 ^ Suc k) (i + 1) e"
        using True nz sh by (subst bm_ff_word.simps) (simp add: mult.commute)
      moreover have "find (\<lambda>n. \<not> bit w n) [k..<h] = find (\<lambda>n. \<not> bit w n) [Suc k..<h]"
        using bit h(1) by (intro find_upt_skip) (auto simp: less_Suc_eq)
      moreover have "Suc k \<le> n" if "find (\<lambda>n. \<not> bit w n) [Suc k..<h] = Some n" for n
        using that by (simp add: find_upt_Some)
      ultimately show ?thesis using h(1) by (auto simp: IH split: option.splits simp del: power_Suc)
    qed
  qed
  then show ?case by (simp only: h_def)
qed

lemma upt_shift: "map ((+) a) [k..<h] = [a + k..<a + h]"
  by (induction h) auto

lemma bm_ff_words_find:
  "k < 32 \<Longrightarrow> e < 1048576 \<Longrightarrow> bm_ff_words bm index (2 ^ k) (32 * index + k) e =
     Ret (find (\<lambda>n. \<not> busyn bm n) [32 * index + k..<Suc e])"
proof (induction "UINT_CNT - index" arbitrary: index k)
  case 0
  then show ?case by (subst bm_ff_words.simps) (auto simp: UINT_CNT_def)
next
  case (Suc d)
  let ?free = "\<lambda>n. \<not> busyn bm n" and ?i = "32 * index + k"
  have j: "index < UINT_CNT" and d: "d = UINT_CNT - (index + 1)" using Suc.hyps(2) by auto
  have dm: "busyn bm (32 * index + n) = bit (bm index) n" if "n < 32" for n
    using that by (simp add: busyn_def)
  show ?case
  proof (cases "?i \<le> e")
    case False
    then show ?thesis by (subst bm_ff_words.simps) simp
  next
    case True
    define h where "h = min 32 (k + (Suc e - ?i))"
    have h: "k < h" "h \<le> 32" "32 * index + h \<le> Suc e" "h = 32 \<or> 32 * index + h = Suc e"
      using True Suc.prems(1) by (auto simp: h_def)
    have "bm_ff_word (bm index) (2 ^ k) ?i e =
        (case find (\<lambda>n. \<not> bit (bm index) n) [k..<h] of Some n \<Rightarrow> (True, ?i + (n - k)) | None \<Rightarrow> (False, ?i + (h - k)))"
      unfolding h_def using Suc.prems(1) by (intro bm_ff_word_find) simp
    moreover have "k \<le> n" if "find (\<lambda>n. \<not> bit (bm index) n) [k..<h] = Some n" for n
      using that by (simp add: find_upt_Some)
    ultimately have w: "bm_ff_words bm index (2 ^ k) ?i e =
        (case find (\<lambda>n. \<not> bit (bm index) n) [k..<h] of Some n \<Rightarrow> Ret (Some (32 * index + n))
         | None \<Rightarrow> bm_ff_words bm (index + 1) 1 (32 * index + h) e)"
      using True j h(1) by (subst bm_ff_words.simps) (auto split: option.split)
    have seg: "find ?free [?i..<32 * index + h] = map_option ((+) (32 * index)) (find (\<lambda>n. \<not> bit (bm index) n) [k..<h])"
    proof -
      have "find ?free (map ((+) (32 * index)) ns) = map_option ((+) (32 * index)) (find (\<lambda>n. \<not> bit (bm index) n) ns)"
        if "set ns \<subseteq> {..<32}" for ns
        using that by (induction ns) (auto simp: dm)
      moreover have "set [k..<h] \<subseteq> {..<32}" using h(2) by auto
      ultimately show ?thesis using upt_shift [of "32 * index" k h] by metis
    qed
    have split: "[?i..<Suc e] = [?i..<32 * index + h] @ [32 * index + h..<Suc e]"
      using h(1,3) upt_add_eq_append [of ?i "32 * index + h" "Suc e - (32 * index + h)"] by simp
    have app: "find P (xs @ ys) = (case find P xs of None \<Rightarrow> find P ys | r \<Rightarrow> r)" for P :: "nat \<Rightarrow> bool" and xs ys
      by (induction xs) auto
    show ?thesis
    proof (cases "find (\<lambda>n. \<not> bit (bm index) n) [k..<h]")
      case (Some n)
      then show ?thesis using w seg unfolding split by (simp add: app)
    next
      case None
      have "bm_ff_words bm (index + 1) 1 (32 * index + h) e = Ret (find ?free [32 * index + h..<Suc e])"
      proof (cases "h = 32")
        case True
        then show ?thesis using Suc.hyps(1) [OF d, of 0] Suc.prems(2) by (simp add: algebra_simps)
      next
        case False
        then show ?thesis using h(4) by (subst bm_ff_words.simps) simp
      qed
      then show ?thesis using None w seg unfolding split by (simp add: app)
    qed
  qed
qed

text \<open>The pages of the heap, and the free runs inside it.\<close>

definition heap_last :: "bootmem \<Rightarrow> nat" where "heap_last s = unat (GETBIT (bm_heap_end s))"

definition bm_first_free :: "bootmem \<Rightarrow> nat \<Rightarrow> nat option" where
  "bm_first_free s l = find (\<lambda>n. \<not> busyn (free_bitmap s) n) [l..<Suc (heap_last s)]"

definition bm_run_len :: "bootmem \<Rightarrow> nat \<Rightarrow> nat" where
  "bm_run_len s f = (case find (busyn (free_bitmap s)) [f..<Suc (heap_last s)] of None \<Rightarrow> Suc (heap_last s) - f | Some n \<Rightarrow> n - f)"

lemma heap_last_less [simp]: "heap_last s < 1048576"
  by (simp add: heap_last_def)

lemma bm_find_first_free_eq: "bm_find_first_free s l = Ret (map_option of_nat (bm_first_free s (unat l)))"
proof (cases "l > GETBIT (bm_heap_end s)")
  case True
  then show ?thesis
    by (simp add: bm_find_first_free_def bm_first_free_def heap_last_def word_less_nat_alt)
next
  case False
  have "bm_ff_words (free_bitmap s) (unat l div 32) (2 ^ (unat l mod 32)) (unat l) (heap_last s) =
      Ret (find (\<lambda>n. \<not> busyn (free_bitmap s) n) [unat l..<Suc (heap_last s)])"
    using bm_ff_words_find [of "unat l mod 32" "heap_last s" "free_bitmap s" "unat l div 32"] by simp
  then show ?thesis using False
    by (simp add: bm_find_first_free_def bm_first_free_def heap_last_def [symmetric] del: upt_Suc)
qed

lemma bm_getbit_of_nat:
  "n < 1048576 \<Longrightarrow> \<exists>r. bm_getbit s (of_nat n) = Ret r \<and> (r \<noteq> 0 \<longleftrightarrow> busyn (free_bitmap s) n)"
  by (simp add: bm_getbit_def Let_def busyn_def UINT_CNT_def div_less_iff_less_mult)

lemma bm_scan_run_find:
  "i \<le> unat r \<Longrightarrow> Suc f + i \<le> 1048576 \<Longrightarrow>
   bm_scan_run s r (of_nat (Suc f + i)) (of_nat i) =
     Ret (case find (\<lambda>j. heap_last s < Suc f + j \<or> busyn (free_bitmap s) (Suc f + j)) [i..<unat r] of
        None \<Rightarrow> r | Some j \<Rightarrow> of_nat j)"
proof (induction "unat r - i" arbitrary: i)
  case 0
  then have "i = unat r" by simp
  then show ?case by (simp add: bm_scan_run.simps)
next
  case (Suc d)
  then have i: "i < unat r" and d: "d = unat r - Suc i" by auto
  have less: "(of_nat i :: u32) < r" using i Suc.prems by (simp add: word_less_nat_alt)
  have le: "(of_nat (Suc f + i) :: u32) \<le> GETBIT (bm_heap_end s) \<longleftrightarrow> Suc f + i \<le> heap_last s"
    using Suc.prems by (simp add: word_le_nat_alt heap_last_def del: of_nat_add of_nat_Suc)
  show ?case
  proof (cases "Suc f + i \<le> heap_last s")
    case False
    then show ?thesis using less le i
      by (subst bm_scan_run.simps) (simp add: upt_rec [of i] del: of_nat_add of_nat_Suc)
  next
    case True
    then have "Suc f + i < 1048576" using heap_last_less [of s] by linarith
    then obtain w where w: "bm_getbit s (of_nat (Suc f + i)) = Ret w" "w \<noteq> 0 \<longleftrightarrow> busyn (free_bitmap s) (Suc f + i)"
      using bm_getbit_of_nat by blast
    have step: "bm_scan_run s r (of_nat (Suc f + i)) (of_nat i) =
        (if w \<noteq> 0 then Ret (of_nat i) else bm_scan_run s r (of_nat (Suc f + Suc i)) (of_nat (Suc i)))"
      using less le True w(1) by (subst bm_scan_run.simps) (simp del: of_nat_add of_nat_Suc, simp add: ac_simps)
    show ?thesis
      using Suc.hyps(1) [OF d] True i w(2) \<open>Suc f + i < 1048576\<close> unfolding step
      by (simp add: upt_rec [of i] del: of_nat_add of_nat_Suc)
  qed
qed

lemma bm_run_len_free: "f \<le> m \<Longrightarrow> m < f + bm_run_len s f \<Longrightarrow> \<not> busyn (free_bitmap s) m"
  unfolding bm_run_len_def by (auto simp: find_upt_None find_upt_Some simp del: upt_Suc split: option.splits)

lemma bm_run_len_end:
  "f \<le> heap_last s \<Longrightarrow> f + bm_run_len s f = Suc (heap_last s) \<or>
     (f + bm_run_len s f \<le> heap_last s \<and> busyn (free_bitmap s) (f + bm_run_len s f))"
  unfolding bm_run_len_def by (auto simp: find_upt_None find_upt_Some simp del: upt_Suc split: option.splits)

lemma bm_run_len_pos: "f \<le> heap_last s \<Longrightarrow> \<not> busyn (free_bitmap s) f \<Longrightarrow> 0 < bm_run_len s f"
  using bm_run_len_end [of f s] by (cases "bm_run_len s f") auto

lemma bm_first_free_Some: "bm_first_free s l = Some f \<longleftrightarrow>
    l \<le> f \<and> f \<le> heap_last s \<and> \<not> busyn (free_bitmap s) f \<and> (\<forall>m. l \<le> m \<and> m < f \<longrightarrow> busyn (free_bitmap s) m)"
  unfolding bm_first_free_def find_upt_Some by auto

lemma bm_scan_from_free:
  assumes "f \<le> heap_last s" and "\<not> busyn (free_bitmap s) f"
  shows "bm_scan_run s r (of_nat f + 1) 0 = Ret (if unat r < bm_run_len s f then r else of_nat (bm_run_len s f - 1))"
proof -
  let ?n = "bm_run_len s f"
  have n: "0 < ?n" using assms by (rule bm_run_len_pos)
  have e: "f + ?n = Suc (heap_last s) \<or> (f + ?n \<le> heap_last s \<and> busyn (free_bitmap s) (f + ?n))"
    using assms(1) by (rule bm_run_len_end)
  have "find (\<lambda>j. heap_last s < Suc f + j \<or> busyn (free_bitmap s) (Suc f + j)) [0..<unat r] =
      (if unat r < ?n then None else Some (?n - 1))"
    using n e bm_run_len_free [of f _ s] by (auto simp: find_upt_None find_upt_Some)
  then show ?thesis
    using bm_scan_run_find [of 0 r f s] assms(1) heap_last_less [of s] by (auto simp: add.commute)
qed

lemma bm_run_len_last:
  assumes "f \<le> heap_last s" and "\<not> busyn (free_bitmap s) f"
  shows "f + bm_run_len s f - 1 \<le> heap_last s \<and> \<not> busyn (free_bitmap s) (f + bm_run_len s f - 1) \<and>
    bm_run_len s (f + bm_run_len s f - 1) = 1"
proof -
  let ?l = "f + bm_run_len s f - 1"
  have n: "0 < bm_run_len s f" using assms by (rule bm_run_len_pos)
  then have l: "?l \<le> heap_last s" "\<not> busyn (free_bitmap s) ?l"
    using bm_run_len_end [OF assms(1)] bm_run_len_free [of f ?l s] by auto
  have next_page: "Suc ?l = f + bm_run_len s f" using n by simp
  have "\<not> 1 < bm_run_len s ?l"
  proof
    assume "1 < bm_run_len s ?l"
    then have "\<not> busyn (free_bitmap s) (Suc ?l)" using bm_run_len_free [of ?l "Suc ?l" s] by simp
    then have "?l = heap_last s" using bm_run_len_end [OF assms(1)] unfolding next_page by auto
    then show False using bm_run_len_end [OF l(1)] \<open>1 < bm_run_len s ?l\<close> by linarith
  qed
  then show ?thesis using l bm_run_len_pos [OF l] by auto
qed

text \<open>As in page.c, the search is stuck at the last page of a free run that is too short.\<close>

lemma bm_ffr_loop_stuck:
  assumes "l \<le> heap_last s" and "\<not> busyn (free_bitmap s) l" and run: "bm_run_len s l = 1"
    and "0 < r" and "of_nat l + r \<le> GETBIT (bm_heap_end s)"
  shows "bm_ffr_loop s r (of_nat l) x y = None"
proof (rule ccontr)
  assume "bm_ffr_loop s r (of_nat l) x y \<noteq> None"
  then obtain v where v: "bm_ffr_loop s r (of_nat l) x y = Some v" by blast
  have "l \<le> 1048576" using assms(1) heap_last_less [of s] by linarith
  then have "unat (of_nat l :: u32) = l" by (rule unat_page)
  then have "bm_first_free s (unat (of_nat l :: u32)) = Some l" using assms by (auto simp: bm_first_free_Some)
  then have ff: "bm_find_first_free s (of_nat l) = Ret (Some (of_nat l))" by (simp add: bm_find_first_free_eq)
  have sc: "bm_scan_run s r (of_nat l + 1) 0 = Ret 0"
    using bm_scan_from_free [of l s r] assms run by (auto simp: word_less_nat_alt)
  have "s' = s \<longrightarrow> r' = r \<longrightarrow> l' = of_nat l \<longrightarrow> False" if "bm_ffr_loop s' r' l' x' y' = Some v'" for s' r' l' x' y' v'
    using that
  proof (rule bm_ffr_loop.raw_induct [rotated])
    fix g s' r' l' x' y' v'
    assume IH: "\<And>s' r' l' x' y' v'. g s' r' l' x' y' = Some v' \<Longrightarrow> s' = s \<longrightarrow> r' = r \<longrightarrow> l' = of_nat l \<longrightarrow> False"
      and eq: "(if l' + r' \<le> GETBIT (bm_heap_end s')
       then case bm_find_first_free s' l' of
              Ret None \<Rightarrow> g s' r' (x' + y') x' y'
            | Ret (Some f) \<Rightarrow>
                (case bm_scan_run s' r' (f + 1) 0 of
                   Ret i \<Rightarrow> if i = r' then Some (Ret (Some f)) else g s' r' (f + i) f i
                 | Trap \<Rightarrow> Some Trap | Hang \<Rightarrow> Some Hang)
            | Trap \<Rightarrow> Some Trap | Hang \<Rightarrow> Some Hang
       else Some (Ret None)) = Some v'"
    show "s' = s \<longrightarrow> r' = r \<longrightarrow> l' = of_nat l \<longrightarrow> False"
      using eq IH [of s r "of_nat l" "of_nat l" 0 v'] ff sc assms(4,5) by (auto split: if_splits)
  qed
  then show False using v by blast
qed

lemma bm_find_free_bits_range_total:
  fixes s count
  defines "h \<equiv> unat (GETBIT (bm_heap_start s))"
  assumes c: "0 < count" "unat count \<le> 1048576"
  shows "bm_find_free_bits_range s count =
     (if heap_last s < h + (unat count - 1) then Ret None
      else case bm_first_free s h of None \<Rightarrow> Ret None
      | Some f \<Rightarrow>
          if unat count \<le> bm_run_len s f then Ret (Some (of_nat f))
          else if f + bm_run_len s f + unat count \<le> heap_last s + 2 then Hang
          else Ret None)"
proof -
  let ?r = "count - 1" and ?e = "GETBIT (bm_heap_end s)"
  have c0: "0 < unat count" using c(1) by (simp add: word_less_nat_alt)
  have c1: "unat ?r = unat count - 1" "unat ?r < 1048576"
    using c c0 by (simp_all add: unat_sub_if' word_le_nat_alt)
  have add: "of_nat n + ?r \<le> ?e \<longleftrightarrow> n + (unat count - 1) \<le> heap_last s" if "n < 1048576" for n
    using that c1 c(2) unat_page_add [of n ?r] by (simp add: word_le_nat_alt heap_last_def)
  have start: "GETBIT (bm_heap_start s) = of_nat h" "h < 1048576" by (simp_all add: h_def)
  have head: "(GETBIT (bm_heap_start s) + ?r \<le> ?e) = (h + (unat count - 1) \<le> heap_last s)"
    using add [OF start(2)] start(1) by simp
  have h_unat: "unat (GETBIT (bm_heap_start s)) = h" by (simp add: h_def)
  show ?thesis
  proof (cases "heap_last s < h + (unat count - 1)")
    case True
    then show ?thesis using head
      by (simp add: bm_find_free_bits_range_def bm_ffr_loop.simps [of s _ "GETBIT (bm_heap_start s)"])
  next
    case False
    then have le: "GETBIT (bm_heap_start s) + ?r \<le> ?e" using head by simp
    show ?thesis
    proof (cases "bm_first_free s h")
      case None
      have "unat (kdebug_init_val + kdebug_init_val + r) = 2516426778 + unat r" if "unat r < 1048576" for r
        using that by (simp add: kdebug_init_val_def unat_word_ariths)
      then have "\<not> kdebug_init_val + kdebug_init_val + ?r \<le> ?e"
        using c1(2) GETBIT_less [of "bm_heap_end s"] by (simp add: word_le_nat_alt not_le del: GETBIT_less)
      then show ?thesis using False None le
        by (simp add: bm_find_free_bits_range_def bm_ffr_loop.simps [of s _ "GETBIT (bm_heap_start s)"]
          bm_ffr_loop.simps [of s _ "2 * kdebug_init_val"] bm_find_first_free_eq h_unat)
    next
      case (Some f)
      then have f: "f \<le> heap_last s" "\<not> busyn (free_bitmap s) f" by (auto simp: bm_first_free_Some)
      let ?n = "bm_run_len s f"
      have n: "0 < ?n" using f by (rule bm_run_len_pos)
      have fin: "f + ?n = Suc (heap_last s) \<or> (f + ?n \<le> heap_last s \<and> busyn (free_bitmap s) (f + ?n))"
        using f(1) by (rule bm_run_len_end)
      have small: "f + ?n \<le> 1048576" using fin heap_last_less [of s] by linarith
      have unfold1: "bm_find_free_bits_range s count =
          (if unat ?r < ?n then Ret (Some (of_nat f))
           else of_loop (if of_nat (?n - 1) = ?r then Some (Ret (Some (of_nat f)))
                  else bm_ffr_loop s ?r (of_nat f + of_nat (?n - 1)) (of_nat f) (of_nat (?n - 1))))"
        using le Some
        by (simp add: bm_find_free_bits_range_def bm_ffr_loop.simps [of s _ "GETBIT (bm_heap_start s)"]
          bm_find_first_free_eq h_unat bm_scan_from_free [OF f])
      show ?thesis
      proof (cases "unat count \<le> ?n")
        case True
        then have "unat ?r < ?n" using c1(1) c0 by linarith
        then show ?thesis using unfold1 False Some True by simp
      next
        case long: False
        let ?l = "f + ?n - 1"
        have ne: "of_nat (?n - 1) \<noteq> ?r"
        proof
          assume "of_nat (?n - 1) = ?r"
          then have "?n - 1 = unat ?r" using small unat_page [of "?n - 1"] by (metis add_leD2 diff_le_self le_trans)
          then show False using long c1 n by simp
        qed
        have l: "of_nat f + of_nat (?n - 1) = (of_nat ?l :: u32)" using n by (simp flip: of_nat_add)
        have "\<not> unat ?r < ?n" using long c1(1) by linarith
        then have step: "bm_find_free_bits_range s count = of_loop (bm_ffr_loop s ?r (of_nat ?l) (of_nat f) (of_nat (?n - 1)))"
          using unfold1 ne l by simp
        have wrap: "of_nat ?l + ?r \<le> ?e \<longleftrightarrow> f + ?n + unat count \<le> heap_last s + 2"
          using add [of ?l] small n c0 by auto
        show ?thesis
        proof (cases "f + ?n + unat count \<le> heap_last s + 2")
          case True
          have "bm_ffr_loop s ?r (of_nat ?l) (of_nat f) (of_nat (?n - 1)) = None"
            using True wrap n long c1 bm_run_len_last [OF f]
            by (intro bm_ffr_loop_stuck) (auto simp: word_less_nat_alt)
          then show ?thesis using step True False Some long by simp
        next
          case no: False
          then have "bm_ffr_loop s ?r (of_nat ?l) (of_nat f) (of_nat (?n - 1)) = Some (Ret None)"
            using wrap by (subst bm_ffr_loop.simps) simp
          then show ?thesis using step no False Some long by simp
        qed
      qed
    qed
  qed
qed

section \<open>Memory effects of the ranges\<close>

text \<open>The bytes of page \<open>b\<close>.\<close>

definition page_of :: "u32 \<Rightarrow> u32" where "page_of a = a div PAGE_SIZE"

lemma in_reg_page: "b < NUM_FRAMES \<Longrightarrow> in_reg (FROMBIT b) 4096 a \<longleftrightarrow> page_of a = b"
proof -
  assume b: "b < NUM_FRAMES"
  then have "unat b < 1048576" by (simp add: word_less_nat_alt)
  then have u: "unat (FROMBIT b) = unat b * 4096" by (simp add: FROMBIT_def PAGE_SIZE_def unat_word_ariths)
  have "page_of a = b \<longleftrightarrow> unat a div 4096 = unat b"
    by (simp add: page_of_def PAGE_SIZE_def word_unat_eq_iff unat_div)
  also have "\<dots> \<longleftrightarrow> unat (FROMBIT b) \<le> unat a \<and> unat a < unat (FROMBIT b) + 4096"
    unfolding u by auto
  also have "\<dots> \<longleftrightarrow> unat (a - FROMBIT b) < 4096"
  proof (cases "unat (FROMBIT b) \<le> unat a")
    case True
    then show ?thesis by (simp add: unat_sub word_le_nat_alt) linarith
  next
    case False
    then have "unat (a - FROMBIT b) = 4294967296 + unat a - unat (FROMBIT b)"
      by (simp add: unat_sub_if' word_le_nat_alt)
    then show ?thesis using False u \<open>unat b < 1048576\<close> by simp
  qed
  finally show ?thesis by (simp add: in_reg_def)
qed

text \<open>Setting or clearing a range changes the bitmap and, with \<open>init_area\<close>, fills its pages.\<close>

definition filled :: "bool \<Rightarrow> u8 \<Rightarrow> u32 \<Rightarrow> u32 \<Rightarrow> mem \<Rightarrow> mem" where
  "filled ia v b e m = (\<lambda>a. if ia \<and> b \<le> page_of a \<and> page_of a \<le> e then v else m a)"

definition same_rest :: "bootmem \<Rightarrow> bootmem \<Rightarrow> bool" where
  "same_rest s s' \<longleftrightarrow> acnt s' = acnt s \<and> acnt_i s' = acnt_i s \<and> bootmem_init_complete s' = bootmem_init_complete s \<and>
     bm_heap_start s' = bm_heap_start s \<and> bm_heap_end s' = bm_heap_end s"

lemma page_fill: "b < NUM_FRAMES \<Longrightarrow> memset m (FROMBIT b) v PAGE_SIZE = (\<lambda>a. if page_of a = b then ucast v else m a)"
  by (simp add: memset_def memset_loop_eq PAGE_SIZE_def in_reg_page)

lemma range_split: "b \<le> e \<Longrightarrow> e < NUM_FRAMES \<Longrightarrow> (b \<le> c \<and> c \<le> e) = (c = b \<or> (b + 1 \<le> c \<and> c \<le> e))"
proof -
  assume "b \<le> e" and "e < NUM_FRAMES"
  then have "unat (b + 1) = Suc (unat b)" by (intro unat_Suc_word [of b NUM_FRAMES]) simp
  then show ?thesis using \<open>b \<le> e\<close> by (auto simp: word_le_nat_alt word_unat_eq_iff)
qed

lemma bm_setbit_range_effect:
  assumes "bm_setbit_range ia s b e = Ret s'" and "e < NUM_FRAMES"
  shows "bmem s' = filled ia 0 b e (bmem s) \<and> same_rest s s'"
  using assms
proof (induction "unat e + 1 - unat b" arbitrary: b s)
  case 0
  then have "\<not> b \<le> e" by (simp add: word_le_nat_alt)
  moreover from this have "\<not> (b \<le> c \<and> c \<le> e)" for c by auto
  ultimately show ?case using "0.prems" by (auto simp: bm_setbit_range.simps [of ia s b] filled_def same_rest_def fun_eq_iff)
next
  case (Suc k)
  then have be: "b \<le> e" by (simp add: word_le_nat_alt)
  then have b: "b < NUM_FRAMES" using Suc.prems(2) by auto
  obtain s1 where s1: "bm_setbit ia s b = Ret s1" "bm_setbit_range ia s1 (b + 1) e = Ret s'"
    using Suc.prems(1) be by (auto simp: bm_setbit_range.simps [of ia s b] obind_eq_Ret)
  have "k = unat e + 1 - unat (b + 1)" using Suc.hyps(2) unat_Suc_word [OF b] by simp
  from Suc.hyps(1) [OF this s1(2) Suc.prems(2)]
  have IH: "bmem s' = filled ia 0 (b + 1) e (bmem s1)" "same_rest s1 s'" by blast+
  have "bmem s1 = (\<lambda>a. if ia \<and> page_of a = b then 0 else bmem s a)" "same_rest s s1"
    using s1(1) b by (auto simp: bm_setbit_def Let_def page_fill same_rest_def split: if_splits)
  then show ?case using IH range_split [OF be Suc.prems(2)] by (auto simp: filled_def same_rest_def fun_eq_iff)
qed

lemma bm_clearbit_range_effect:
  assumes "bm_clearbit_range ia s b e = Ret s'" and "e < NUM_FRAMES"
  shows "bmem s' = filled ia 0xEF b e (bmem s) \<and> same_rest s s'"
  using assms
proof (induction "unat e + 1 - unat b" arbitrary: b s)
  case 0
  then have "\<not> b \<le> e" by (simp add: word_le_nat_alt)
  moreover from this have "\<not> (b \<le> c \<and> c \<le> e)" for c by auto
  ultimately show ?case using "0.prems" by (auto simp: bm_clearbit_range.simps [of ia s b] filled_def same_rest_def fun_eq_iff)
next
  case (Suc k)
  then have be: "b \<le> e" by (simp add: word_le_nat_alt)
  then have b: "b < NUM_FRAMES" using Suc.prems(2) by auto
  obtain s1 where s1: "bm_clearbit ia s b = Ret s1" "bm_clearbit_range ia s1 (b + 1) e = Ret s'"
    using Suc.prems(1) be by (auto simp: bm_clearbit_range.simps [of ia s b] obind_eq_Ret)
  have "k = unat e + 1 - unat (b + 1)" using Suc.hyps(2) unat_Suc_word [OF b] by simp
  from Suc.hyps(1) [OF this s1(2) Suc.prems(2)]
  have IH: "bmem s' = filled ia 0xEF (b + 1) e (bmem s1)" "same_rest s1 s'" by blast+
  have "bmem s1 = (\<lambda>a. if ia \<and> page_of a = b then 0xEF else bmem s a)" "same_rest s s1"
    using s1(1) b by (auto simp: bm_clearbit_def Let_def page_fill same_rest_def split: if_splits)
  then show ?case using IH range_split [OF be Suc.prems(2)] by (auto simp: filled_def same_rest_def fun_eq_iff)
qed

section \<open>Blocks and the invariant\<close>

definition in_use :: "bm_account \<Rightarrow> bool" where "in_use nd \<longleftrightarrow> start_bit nd \<noteq> 0"

definition blocks :: "bootmem \<Rightarrow> (u32 \<times> u32) set" where
  "blocks s = {(start_bit nd, end_bit nd) | nd. nd \<in> set (acnt s) \<and> in_use nd}"

definition node_ok :: "bootmem \<Rightarrow> bm_account \<Rightarrow> bool" where
  "node_ok s nd \<longleftrightarrow>
     (if in_use nd
      then GETBIT (bm_heap_start s) \<le> start_bit nd \<and> start_bit nd \<le> end_bit nd \<and> end_bit nd \<le> GETBIT (bm_heap_end s) \<and>
           (\<forall>c. start_bit nd \<le> c \<and> c \<le> end_bit nd \<longrightarrow> bm_busy s c)
      else end_bit nd = 0)"

definition apart :: "bm_account \<Rightarrow> bm_account \<Rightarrow> bool" where
  "apart a b \<longleftrightarrow> (in_use a \<and> in_use b \<longrightarrow> end_bit a < start_bit b \<or> end_bit b < start_bit a)"

definition bm_inv :: "bootmem \<Rightarrow> bool" where
  "bm_inv s \<longleftrightarrow> bootmem_init_complete s \<and> 0 < GETBIT (bm_heap_start s) \<and>
     (\<forall>nd \<in> set (acnt s). node_ok s nd) \<and>
     (\<forall>m n. m < n \<and> n < length (acnt s) \<longrightarrow> apart (acnt s ! m) (acnt s ! n)) \<and>
     acnt_i s = of_nat (length (filter in_use (acnt s)))"

lemma bm_invD:
  assumes "bm_inv s"
  shows "bootmem_init_complete s" and "0 < GETBIT (bm_heap_start s)"
    and "\<And>n. n < length (acnt s) \<Longrightarrow> node_ok s (acnt s ! n)"
    and "\<And>m n. m < length (acnt s) \<Longrightarrow> n < length (acnt s) \<Longrightarrow> m \<noteq> n \<Longrightarrow> apart (acnt s ! m) (acnt s ! n)"
    and "acnt_i s = of_nat (length (filter in_use (acnt s)))"
proof -
  show "apart (acnt s ! m) (acnt s ! n)" if "m < length (acnt s)" "n < length (acnt s)" "m \<noteq> n" for m n
    using assms that by (cases m n rule: linorder_cases) (auto simp: bm_inv_def apart_def)
qed (use assms in \<open>auto simp: bm_inv_def\<close>)

lemma bm_invI:
  assumes "bootmem_init_complete s" and "0 < GETBIT (bm_heap_start s)"
    and "\<And>n. n < length (acnt s) \<Longrightarrow> node_ok s (acnt s ! n)"
    and "\<And>m n. m < length (acnt s) \<Longrightarrow> n < length (acnt s) \<Longrightarrow> m \<noteq> n \<Longrightarrow> apart (acnt s ! m) (acnt s ! n)"
    and "acnt_i s = of_nat (length (filter in_use (acnt s)))"
  shows "bm_inv s"
  using assms by (auto simp: bm_inv_def in_set_conv_nth)

lemma search_Some:
  "search_bit_in_acnt s b = Some n \<Longrightarrow> n < length (acnt s) \<and> start_bit (acnt s ! n) \<le> b \<and> b \<le> end_bit (acnt s ! n)"
  unfolding search_bit_in_acnt_def find_upt_Some by simp

lemma search_None:
  "search_bit_in_acnt s b = None \<longleftrightarrow> (\<forall>nd \<in> set (acnt s). \<not> (start_bit nd \<le> b \<and> b \<le> end_bit nd))"
  unfolding search_bit_in_acnt_def find_upt_None all_set_conv_all_nth by auto

lemma filter_update_on:
  "n < length xs \<Longrightarrow> \<not> P (xs ! n) \<Longrightarrow> P y \<Longrightarrow> length (filter P (xs[n := y])) = Suc (length (filter P xs))"
proof (induction xs arbitrary: n)
  case (Cons x xs)
  then show ?case by (cases n) auto
qed simp

lemma filter_update_off:
  "n < length xs \<Longrightarrow> P (xs ! n) \<Longrightarrow> \<not> P y \<Longrightarrow> Suc (length (filter P (xs[n := y]))) = length (filter P xs)"
proof (induction xs arbitrary: n)
  case (Cons x xs)
  then show ?case by (cases n) auto
qed simp

lemma blocks_nth: "(b, e) \<in> blocks s \<longleftrightarrow> (\<exists>n < length (acnt s). acnt s ! n = \<lparr>start_bit = b, end_bit = e\<rparr> \<and> b \<noteq> 0)"
proof -
  have "nd = \<lparr>start_bit = b, end_bit = e\<rparr> \<longleftrightarrow> start_bit nd = b \<and> end_bit nd = e" for nd :: bm_account
    by (cases nd) auto
  then show ?thesis by (auto simp: blocks_def in_use_def in_set_conv_nth)
qed

lemma size_zero_hangs_search:
  assumes "bm_first_free s (unat (GETBIT (bm_heap_start s))) = Some f" and "0 < GETBIT (bm_heap_start s)"
  shows "bm_find_free_bits_range s 0 = Hang"
proof -
  let ?e = "GETBIT (bm_heap_end s)" and ?h = "GETBIT (bm_heap_start s)"
  have f: "f \<le> heap_last s" "\<not> busyn (free_bitmap s) f" "unat ?h \<le> f"
    using assms(1) by (auto simp: bm_first_free_Some)
  have minus: "of_nat n + (0 - 1) \<le> ?e" if "0 < n" "n \<le> heap_last s" for n
  proof -
    have "n \<le> 1048576" using that heap_last_less [of s] by linarith
    then have "unat (of_nat n - 1 :: u32) = n - 1" using that by (simp add: unat_sub_if' word_le_nat_alt)
    then show ?thesis using that by (simp add: word_le_nat_alt heap_last_def)
  qed
  let ?l = "f + bm_run_len s f - 1"
  note last = bm_run_len_last [OF f(1,2)]
  have n: "0 < bm_run_len s f" using f(1,2) by (rule bm_run_len_pos)
  have h0: "0 < unat ?h" using assms(2) by (simp add: word_less_nat_alt)
  then have "?h + (0 - 1) \<le> ?e" using minus [of "unat ?h"] f by simp
  moreover have "bm_run_len s f \<le> 1048577" using last heap_last_less [of s] by linarith
  then have "\<not> unat (0 - 1 :: u32) < bm_run_len s f"
    by (simp add: unsigned_minus_1_eq_mask mask_eq_exp_minus_1)
  moreover have "of_nat (bm_run_len s f - 1) \<noteq> (0 - 1 :: u32)"
  proof
    have small: "bm_run_len s f - 1 \<le> 1048576" using last heap_last_less [of s] by linarith
    assume "of_nat (bm_run_len s f - 1) = (0 - 1 :: u32)"
    then have "unat (of_nat (bm_run_len s f - 1) :: u32) = 4294967295"
      by (simp only: unsigned_minus_1_eq_mask mask_eq_exp_minus_1 diff_0) simp
    then show False using small by (simp only: unat_page)
  qed
  moreover have "of_nat f + of_nat (bm_run_len s f - 1) = (of_nat ?l :: u32)" using n by (simp flip: of_nat_add)
  ultimately have "bm_find_free_bits_range s 0 = of_loop (bm_ffr_loop s (0 - 1) (of_nat ?l) (of_nat f) (of_nat (bm_run_len s f - 1)))"
    using assms(1)
    by (simp add: bm_find_free_bits_range_def bm_ffr_loop.simps [of s _ ?h] bm_find_first_free_eq bm_scan_from_free [OF f(1,2)])
  also have "bm_ffr_loop s (0 - 1) (of_nat ?l) (of_nat f) (of_nat (bm_run_len s f - 1)) = None"
    using last minus [of ?l] f h0 n by (intro bm_ffr_loop_stuck) (auto simp: word_gt_0)
  finally show ?thesis by simp
qed

lemma size_zero_none:
  assumes "bm_first_free s (unat (GETBIT (bm_heap_start s))) = None"
  shows "bm_find_free_bits_range s 0 = Ret None"
proof -
  have "unat (2 * kdebug_init_val + (0 - 1)) = 2516426777" by (simp add: kdebug_init_val_def)
  then have "\<not> 2 * kdebug_init_val + (0 - 1) \<le> GETBIT (bm_heap_end s)"
    using GETBIT_less [of "bm_heap_end s"] by (simp add: word_le_nat_alt not_le del: GETBIT_less)
  then show ?thesis using assms
    by (simp add: bm_find_free_bits_range_def bm_ffr_loop.simps [of s _ "GETBIT (bm_heap_start s)"]
      bm_ffr_loop.simps [of s _ "2 * kdebug_init_val"] bm_find_first_free_eq)
qed

text \<open>What a search finds lies in the heap and is free.\<close>

lemma find_free_bits_range_Some:
  assumes "bm_find_free_bits_range s count = Ret (Some st)" and "0 < GETBIT (bm_heap_start s)" and "unat count \<le> 1048576"
  shows "0 < count \<and> GETBIT (bm_heap_start s) \<le> st \<and> st \<le> st + count - 1 \<and> st + count - 1 \<le> GETBIT (bm_heap_end s) \<and>
    unat (st + count - 1) = unat st + unat count - 1 \<and>
    (\<forall>c. st \<le> c \<and> c \<le> st + count - 1 \<longrightarrow> \<not> bm_busy s c)"
proof -
  have c: "0 < count"
  proof (rule ccontr)
    assume "\<not> 0 < count"
    then have "count = 0" by (simp add: word_gt_0)
    with assms(1,2) show False
      using size_zero_none [of s] size_zero_hangs_search [of s]
      by (cases "bm_first_free s (unat (GETBIT (bm_heap_start s)))") auto
  qed
  then have c0: "0 < unat count" by (simp add: word_less_nat_alt)
  obtain f where f: "bm_first_free s (unat (GETBIT (bm_heap_start s))) = Some f" "unat count \<le> bm_run_len s f" "st = of_nat f"
    using assms(1) unfolding bm_find_free_bits_range_total [OF c assms(3)] by (auto split: if_splits option.splits)
  then have f2: "unat (GETBIT (bm_heap_start s)) \<le> f" "f \<le> heap_last s" by (auto simp: bm_first_free_Some)
  have last: "f + unat count \<le> Suc (heap_last s)" using bm_run_len_end [OF f2(2)] f(2) by auto
  have "f \<le> 1048576" using f2(2) heap_last_less [of s] by linarith
  then have u: "unat st = f" using f(3) by simp
  have "unat (st + count) = f + unat count"
    using last \<open>f \<le> 1048576\<close> unat_page_add [of f count] assms(3) f(3) by simp
  then have e: "unat (st + count - 1) = f + unat count - 1"
    using c0 by (simp add: unat_sub_if' word_le_nat_alt)
  moreover have "\<not> bm_busy s c" if "st \<le> c" "c \<le> st + count - 1" for c
    using that u e c0 f(2) bm_run_len_free [of f "unat c" s] by (simp add: bm_busy_def page_busy_def word_le_nat_alt)
  ultimately show ?thesis
    using c c0 f2 last u by (simp add: word_le_nat_alt heap_last_def) linarith
qed

lemma bits_small: "unat (ROUND_TO_PAGE_SIZE sz div PAGE_SIZE) \<le> 1048576"
  using GETBIT_less [of "ROUND_TO_PAGE_SIZE sz"] by (simp add: GETBIT_def)

lemma heap_in_frames: "b \<le> GETBIT a \<Longrightarrow> b < NUM_FRAMES"
  using GETBIT_less [of a] by (auto simp: word_le_nat_alt word_less_nat_alt simp del: GETBIT_less)

definition add_block :: "nat \<Rightarrow> u32 \<Rightarrow> u32 \<Rightarrow> bootmem \<Rightarrow> bootmem \<Rightarrow> bool" where
  "add_block n b e s s' \<longleftrightarrow>
     acnt s' = (acnt s)[n := \<lparr>start_bit = b, end_bit = e\<rparr>] \<and> acnt_i s' = acnt_i s + 1 \<and>
     bootmem_init_complete s' = bootmem_init_complete s \<and>
     bm_heap_start s' = bm_heap_start s \<and> bm_heap_end s' = bm_heap_end s \<and>
     bmem s' = filled True 0 b e (bmem s) \<and> (\<forall>c. bm_busy s' c \<longleftrightarrow> (b \<le> c \<and> c \<le> e) \<or> bm_busy s c)"

lemma bm_malloc_block:
  assumes "bm_malloc s sz = Ret (p, s')" and "p \<noteq> NULL" and "0 < GETBIT (bm_heap_start s)"
  obtains n b e where "search_free_acnt_node s = Some n" and "p = FROMBIT b" and "add_block n b e s s'"
    and "GETBIT (bm_heap_start s) \<le> b" and "b \<le> e" and "e \<le> GETBIT (bm_heap_end s)"
    and "unat e = unat b + unat (ROUND_TO_PAGE_SIZE sz div PAGE_SIZE) - 1"
    and "\<And>c. b \<le> c \<Longrightarrow> c \<le> e \<Longrightarrow> \<not> bm_busy s c"
proof -
  let ?bits = "ROUND_TO_PAGE_SIZE sz div PAGE_SIZE"
  obtain n st s1 where n: "search_free_acnt_node s = Some n"
    and st: "bm_find_free_bits_range s ?bits = Ret (Some st)"
    and s1: "bm_setbit_range True s st (st + ?bits - 1) = Ret s1"
    and p: "p = FROMBIT st"
    and s': "s' = s1\<lparr>acnt := (acnt s1)[n := \<lparr>start_bit = st, end_bit = st + ?bits - 1\<rparr>], acnt_i := acnt_i s1 + 1\<rparr>"
    using assms(1,2) by (auto simp: bm_malloc_def Let_def obind_eq_Ret split: if_splits option.splits)
  note r = find_free_bits_range_Some [OF st assms(3) bits_small]
  have e: "st + ?bits - 1 < NUM_FRAMES" using r by (auto intro: heap_in_frames)
  note eff = bm_setbit_range_effect [OF s1 e]
  have "\<forall>c. bm_busy s1 c \<longleftrightarrow> (st \<le> c \<and> c \<le> st + ?bits - 1) \<or> bm_busy s c"
    using bmr.setr_Ret [OF e, of True s st] s1 by auto
  then have "add_block n st (st + ?bits - 1) s s'"
    using eff s' by (simp add: add_block_def same_rest_def bm_busy_def)
  then show ?thesis using that n p r by blast
qed

lemma add_block_inv:
  assumes "bm_inv s" and "search_free_acnt_node s = Some n" and "add_block n b e s s'"
    and "GETBIT (bm_heap_start s) \<le> b" and "b \<le> e" and "e \<le> GETBIT (bm_heap_end s)"
    and "\<And>c. b \<le> c \<Longrightarrow> c \<le> e \<Longrightarrow> \<not> bm_busy s c"
  shows "bm_inv s' \<and> blocks s' = insert (b, e) (blocks s) \<and> (b, e) \<notin> blocks s"
proof -
  note inv = bm_invD [OF assms(1)] and add = assms(3) [unfolded add_block_def]
  have n: "n < length (acnt s)" "\<not> in_use (acnt s ! n)"
    using search_Some [of s 0 n] assms(2) by (auto simp: search_free_acnt_node_def in_use_def)
  have b0: "b \<noteq> 0" using inv(2) assms(4) by auto
  let ?nd = "\<lparr>start_bit = b, end_bit = e\<rparr>"
  have nth: "acnt s' ! m = (if m = n then ?nd else acnt s ! m)" if "m < length (acnt s)" for m
    using add n that by (simp add: nth_list_update)
  have away: "apart (acnt s ! m) ?nd \<and> apart ?nd (acnt s ! m)" if "m < length (acnt s)" for m
  proof (cases "in_use (acnt s ! m)")
    case True
    then have ok: "start_bit (acnt s ! m) \<le> end_bit (acnt s ! m)"
      "\<And>c. start_bit (acnt s ! m) \<le> c \<Longrightarrow> c \<le> end_bit (acnt s ! m) \<Longrightarrow> bm_busy s c"
      using inv(3) [OF that] by (auto simp: node_ok_def)
    have "end_bit (acnt s ! m) < b \<or> e < start_bit (acnt s ! m)"
    proof (rule ccontr)
      assume "\<not> ?thesis"
      then have "b \<le> end_bit (acnt s ! m)" "start_bit (acnt s ! m) \<le> e" by auto
      moreover have "start_bit (acnt s ! m) \<le> b \<or> b \<le> start_bit (acnt s ! m)" by (rule linear)
      ultimately show False
        using ok(1) ok(2) [of b] ok(2) [of "start_bit (acnt s ! m)"] assms(5,7) assms(7) [of "start_bit (acnt s ! m)"]
        by blast
    qed
    then show ?thesis by (auto simp: apart_def)
  qed (simp add: apart_def)
  have "bm_inv s'"
  proof (rule bm_invI)
    show "node_ok s' (acnt s' ! m)" if "m < length (acnt s')" for m
    proof -
      have m: "m < length (acnt s)" using that add by simp
      show ?thesis using nth [OF m] inv(3) [OF m] add assms(4-6) b0 by (auto simp: node_ok_def in_use_def)
    qed
    show "apart (acnt s' ! m) (acnt s' ! k)" if "m < length (acnt s')" "k < length (acnt s')" "m \<noteq> k" for m k
    proof -
      have mk: "m < length (acnt s)" "k < length (acnt s)" using that add by simp_all
      show ?thesis unfolding nth [OF mk(1)] nth [OF mk(2)]
        using that(3) inv(4) [OF mk that(3)] away [OF mk(1)] away [OF mk(2)] by simp
    qed
    show "acnt_i s' = of_nat (length (filter in_use (acnt s')))"
      using add inv(5) filter_update_on [of n "acnt s" in_use ?nd] n b0 by (simp add: in_use_def)
  qed (use add inv in simp_all)
  moreover have "blocks s' = insert (b, e) (blocks s)"
  proof -
    have free: "x = 0" if "acnt s ! n = \<lparr>start_bit = x, end_bit = y\<rparr>" for x y
      using n(2) that by (simp add: in_use_def)
    have len: "length (acnt s') = length (acnt s)" using add by simp
    have "(x, y) \<in> blocks s' \<longleftrightarrow> (x, y) = (b, e) \<or> (x, y) \<in> blocks s" for x y
    proof
      assume "(x, y) \<in> blocks s'"
      then obtain m where "m < length (acnt s)" "acnt s' ! m = \<lparr>start_bit = x, end_bit = y\<rparr>" "x \<noteq> 0"
        unfolding blocks_nth len by blast
      then show "(x, y) = (b, e) \<or> (x, y) \<in> blocks s"
        using nth [of m] by (cases "m = n") (auto simp: blocks_nth)
    next
      assume "(x, y) = (b, e) \<or> (x, y) \<in> blocks s"
      then show "(x, y) \<in> blocks s'"
      proof
        assume "(x, y) = (b, e)"
        then show ?thesis unfolding blocks_nth len using nth [OF n(1)] n(1) b0 by auto
      next
        assume "(x, y) \<in> blocks s"
        then obtain m where m: "m < length (acnt s)" "acnt s ! m = \<lparr>start_bit = x, end_bit = y\<rparr>" "x \<noteq> 0"
          unfolding blocks_nth by blast
        then have "m \<noteq> n" using free by blast
        then show ?thesis unfolding blocks_nth len using m nth [OF m(1)] by auto
      qed
    qed
    then show ?thesis by auto
  qed
  moreover have "(b, e) \<notin> blocks s"
  proof
    assume "(b, e) \<in> blocks s"
    then obtain m where m: "m < length (acnt s)" "acnt s ! m = ?nd" using blocks_nth by blast
    then have "bm_busy s b" using inv(3) [OF m(1)] b0 assms(5) by (simp add: node_ok_def in_use_def)
    then show False using assms(5,7) by auto
  qed
  ultimately show ?thesis by blast
qed

definition drop_block :: "nat \<Rightarrow> u32 \<Rightarrow> u32 \<Rightarrow> bootmem \<Rightarrow> bootmem \<Rightarrow> bool" where
  "drop_block n b e s s' \<longleftrightarrow>
     acnt s' = (acnt s)[n := \<lparr>start_bit = 0, end_bit = 0\<rparr>] \<and> acnt_i s' = acnt_i s - 1 \<and>
     bootmem_init_complete s' = bootmem_init_complete s \<and>
     bm_heap_start s' = bm_heap_start s \<and> bm_heap_end s' = bm_heap_end s \<and>
     bmem s' = filled True 0xEF b e (bmem s) \<and> (\<forall>c. bm_busy s' c \<longleftrightarrow> \<not> (b \<le> c \<and> c \<le> e) \<and> bm_busy s c)"

lemma block_node:
  assumes "bm_inv s" and "(b, e) \<in> blocks s" and "b \<le> g" and "g \<le> e"
  obtains n where "search_bit_in_acnt s g = Some n" and "n < length (acnt s)"
    and "acnt s ! n = \<lparr>start_bit = b, end_bit = e\<rparr>" and "b \<noteq> 0" and "e < NUM_FRAMES"
    and "0 < g"
proof -
  note inv = bm_invD [OF assms(1)]
  obtain m where m: "m < length (acnt s)" "acnt s ! m = \<lparr>start_bit = b, end_bit = e\<rparr>" "b \<noteq> 0"
    using assms(2) blocks_nth by blast
  have ok: "GETBIT (bm_heap_start s) \<le> b" "e \<le> GETBIT (bm_heap_end s)"
    using inv(3) [OF m(1)] m by (auto simp: node_ok_def in_use_def)
  have g: "0 < g" using m(3) assms(3) by (auto simp: word_gt_0)
  have "search_bit_in_acnt s g \<noteq> None"
    using m assms(3,4) nth_mem [OF m(1)] unfolding search_None
    by (auto intro!: bexI [of _ "\<lparr>start_bit = b, end_bit = e\<rparr>"])
  then obtain n where n: "search_bit_in_acnt s g = Some n" by blast
  note sn = search_Some [OF n]
  have "n = m"
  proof (rule ccontr)
    assume "n \<noteq> m"
    have "in_use (acnt s ! n)" using sn inv(3) [of n] g by (auto simp: node_ok_def split: if_splits)
    then have "end_bit (acnt s ! n) < b \<or> e < start_bit (acnt s ! n)"
      using inv(4) [of n m] sn m \<open>n \<noteq> m\<close> by (simp add: apart_def in_use_def)
    then show False using sn assms(3,4) by auto
  qed
  then show ?thesis using that n m g ok heap_in_frames [OF ok(2)] by blast
qed

lemma bm_free_block:
  assumes "bm_inv s" and "(b, e) \<in> blocks s" and "b \<le> GETBIT p" and "GETBIT p \<le> e"
  obtains n s' where "bm_free s p = Ret s'" and "drop_block n b e s s'" and "n < length (acnt s)"
    and "acnt s ! n = \<lparr>start_bit = b, end_bit = e\<rparr>" and "b \<noteq> 0"
proof -
  obtain n where n: "search_bit_in_acnt s (GETBIT p) = Some n" "n < length (acnt s)"
    "acnt s ! n = \<lparr>start_bit = b, end_bit = e\<rparr>" "b \<noteq> 0" "e < NUM_FRAMES" "0 < GETBIT p"
    using block_node [OF assms] by blast
  obtain s1 where s1: "bm_clearbit_range True s b e = Ret s1"
    "\<forall>c. bm_busy s1 c \<longleftrightarrow> \<not> (b \<le> c \<and> c \<le> e) \<and> bm_busy s c"
    using bmr.clrr_Ret [OF n(5), of True s b] by blast
  note eff = bm_clearbit_range_effect [OF s1(1) n(5)]
  let ?s = "s1\<lparr>acnt := (acnt s1)[n := \<lparr>start_bit = 0, end_bit = 0\<rparr>], acnt_i := acnt_i s1 - 1\<rparr>"
  have "p \<noteq> NULL" using n(6) by (auto simp: NULL_def GETBIT_def)
  then have "bm_free s p = Ret ?s"
    using n s1(1) bm_invD(1) [OF assms(1)] by (simp add: bm_free_def)
  moreover have "drop_block n b e s ?s"
    using eff s1(2) by (simp add: drop_block_def same_rest_def bm_busy_def)
  ultimately show ?thesis using that n by blast
qed

lemma drop_block_inv:
  assumes "bm_inv s" and "drop_block n b e s s'" and n: "n < length (acnt s)"
    and nd: "acnt s ! n = \<lparr>start_bit = b, end_bit = e\<rparr>" and "b \<noteq> 0"
  shows "bm_inv s' \<and> blocks s' = blocks s - {(b, e)}"
proof -
  note inv = bm_invD [OF assms(1)] and drp = assms(2) [unfolded drop_block_def]
  have nth: "acnt s' ! m = (if m = n then \<lparr>start_bit = 0, end_bit = 0\<rparr> else acnt s ! m)" if "m < length (acnt s)" for m
    using drp that by (simp add: nth_list_update)
  have len: "length (acnt s') = length (acnt s)" using drp by simp
  have away: "end_bit (acnt s ! m) < b \<or> e < start_bit (acnt s ! m)"
    if "m < length (acnt s)" "m \<noteq> n" "in_use (acnt s ! m)" for m
    using inv(4) [OF that(1) n that(2)] that(3) nd assms(5) by (simp add: apart_def in_use_def)
  have "bm_inv s'"
  proof (rule bm_invI)
    show "node_ok s' (acnt s' ! m)" if "m < length (acnt s')" for m
    proof (cases "m = n")
      case True
      then show ?thesis using nth [OF n] by (simp add: node_ok_def in_use_def)
    next
      case False
      have m: "m < length (acnt s)" using that len by simp
      have "\<not> (b \<le> c \<and> c \<le> e)" if "in_use (acnt s ! m)" "start_bit (acnt s ! m) \<le> c" "c \<le> end_bit (acnt s ! m)" for c
        using away [OF m False that(1)] that(2,3) by auto
      then show ?thesis using nth [OF m] False inv(3) [OF m] drp by (auto simp: node_ok_def)
    qed
    show "apart (acnt s' ! m) (acnt s' ! k)" if "m < length (acnt s')" "k < length (acnt s')" "m \<noteq> k" for m k
    proof -
      have mk: "m < length (acnt s)" "k < length (acnt s)" using that len by simp_all
      show ?thesis unfolding nth [OF mk(1)] nth [OF mk(2)]
        using inv(4) [OF mk that(3)] by (simp add: apart_def in_use_def)
    qed
    show "acnt_i s' = of_nat (length (filter in_use (acnt s')))"
    proof -
      have c: "Suc (length (filter in_use (acnt s'))) = length (filter in_use (acnt s))"
        using drp filter_update_off [of n "acnt s" in_use "\<lparr>start_bit = 0, end_bit = 0\<rparr>"] n nd assms(5)
        by (simp add: in_use_def)
      have "acnt_i s' = acnt_i s - 1" using drp by blast
      also have "\<dots> = of_nat (length (filter in_use (acnt s')))"
        unfolding inv(5) c [symmetric] by simp
      finally show ?thesis .
    qed
  qed (use drp inv in simp_all)
  moreover have "(x, y) \<in> blocks s' \<longleftrightarrow> (x, y) \<in> blocks s \<and> (x, y) \<noteq> (b, e)" for x y
  proof
    assume "(x, y) \<in> blocks s'"
    then obtain m where m: "m < length (acnt s)" "acnt s' ! m = \<lparr>start_bit = x, end_bit = y\<rparr>" "x \<noteq> 0"
      unfolding blocks_nth len by blast
    then have mn: "m \<noteq> n" "acnt s ! m = \<lparr>start_bit = x, end_bit = y\<rparr>"
      using nth [OF m(1)] by (auto split: if_splits)
    then have "(x, y) \<in> blocks s" unfolding blocks_nth using m by auto
    moreover have "(x, y) \<noteq> (b, e)"
      using away [OF m(1) mn(1)] mn(2) m(3) inv(3) [OF m(1)] by (auto simp: node_ok_def in_use_def)
    ultimately show "(x, y) \<in> blocks s \<and> (x, y) \<noteq> (b, e)" by blast
  next
    assume xy: "(x, y) \<in> blocks s \<and> (x, y) \<noteq> (b, e)"
    then obtain m where m: "m < length (acnt s)" "acnt s ! m = \<lparr>start_bit = x, end_bit = y\<rparr>" "x \<noteq> 0"
      unfolding blocks_nth by blast
    then have "m \<noteq> n" using xy nd by auto
    then show "(x, y) \<in> blocks s'" unfolding blocks_nth len using m nth [OF m(1)] by auto
  qed
  ultimately show ?thesis by auto
qed

section \<open>Properties\<close>

text \<open>
  C11. bm_malloc hands out fresh memory: an address it returns is the first of a block of pages
  inside the heap, as many as the size rounds up to, that were all free and now are busy and hold
  zeros. No other page and no other byte changes, the block is entered in the accounts besides
  those that were there, and the invariant of the accounts is kept.
\<close>

theorem bm_malloc_fresh_block:
  assumes "bm_inv s" and "bm_malloc s sz = Ret (p, s')" and "p \<noteq> NULL"
  shows "\<exists>b e. p = FROMBIT b \<and> GETBIT (bm_heap_start s) \<le> b \<and> b \<le> e \<and> e \<le> GETBIT (bm_heap_end s) \<and>
     unat e = unat b + unat (ROUND_TO_PAGE_SIZE sz div PAGE_SIZE) - 1 \<and>
     (\<forall>c. b \<le> c \<and> c \<le> e \<longrightarrow> \<not> bm_busy s c) \<and>
     (\<forall>c. bm_busy s' c \<longleftrightarrow> (b \<le> c \<and> c \<le> e) \<or> bm_busy s c) \<and>
     bmem s' = filled True 0 b e (bmem s) \<and>
     (b, e) \<notin> blocks s \<and> blocks s' = insert (b, e) (blocks s) \<and> bm_inv s'"
proof -
  obtain n b e where blk: "search_free_acnt_node s = Some n" "p = FROMBIT b" "add_block n b e s s'"
    "GETBIT (bm_heap_start s) \<le> b" "b \<le> e" "e \<le> GETBIT (bm_heap_end s)"
    "unat e = unat b + unat (ROUND_TO_PAGE_SIZE sz div PAGE_SIZE) - 1"
    "\<And>c. b \<le> c \<Longrightarrow> c \<le> e \<Longrightarrow> \<not> bm_busy s c"
    using bm_malloc_block [OF assms(2,3) bm_invD(2) [OF assms(1)]] by blast
  note inv = add_block_inv [OF assms(1) blk(1,3-6,8)]
  then show ?thesis using blk by (auto simp: add_block_def)
qed

text \<open>
  C12. bm_free of any address inside a block that is entered in the accounts frees exactly that
  block: its pages are free and filled with 0xEF, nothing else changes, the block leaves the
  accounts and the invariant is kept.
\<close>

theorem bm_free_frees_block:
  assumes "bm_inv s" and "(b, e) \<in> blocks s" and "b \<le> GETBIT p" and "GETBIT p \<le> e"
  shows "\<exists>s'. bm_free s p = Ret s' \<and> (\<forall>c. bm_busy s' c \<longleftrightarrow> \<not> (b \<le> c \<and> c \<le> e) \<and> bm_busy s c) \<and>
     bmem s' = filled True 0xEF b e (bmem s) \<and> blocks s' = blocks s - {(b, e)} \<and> bm_inv s'"
proof -
  obtain n s' where f: "bm_free s p = Ret s'" "drop_block n b e s s'" "n < length (acnt s)"
    "acnt s ! n = \<lparr>start_bit = b, end_bit = e\<rparr>" "b \<noteq> 0"
    using bm_free_block [OF assms] by blast
  show ?thesis using f drop_block_inv [OF assms(1) f(2-5)] by (auto simp: drop_block_def)
qed

text \<open>Freeing what was just handed out gives back the free pages and the accounts.\<close>

theorem bm_free_undoes_malloc:
  assumes "bm_inv s" and "bm_malloc s sz = Ret (p, s')" and "p \<noteq> NULL"
  shows "\<exists>s''. bm_free s' p = Ret s'' \<and> bm_busy s'' = bm_busy s \<and> blocks s'' = blocks s \<and> bm_inv s''"
proof -
  obtain n b e where blk: "search_free_acnt_node s = Some n" "p = FROMBIT b" "add_block n b e s s'"
    "GETBIT (bm_heap_start s) \<le> b" "b \<le> e" "e \<le> GETBIT (bm_heap_end s)"
    "\<And>c. b \<le> c \<Longrightarrow> c \<le> e \<Longrightarrow> \<not> bm_busy s c"
    using bm_malloc_block [OF assms(2,3) bm_invD(2) [OF assms(1)]] by blast
  note inv = add_block_inv [OF assms(1) blk(1,3-7)]
  have "b < NUM_FRAMES" by (rule heap_in_frames [OF order_trans [OF blk(5,6)]])
  then have gp: "GETBIT p = b"
    using PAGENO_roundtrip [of "unat b"]
    by (simp add: blk(2) GETBIT_def FROMBIT_def GET_PAGENO_def PAGENO_TO_ADDR_def word_less_nat_alt)
  obtain m s'' where f: "bm_free s' p = Ret s''" "drop_block m b e s' s''" "m < length (acnt s')"
    "acnt s' ! m = \<lparr>start_bit = b, end_bit = e\<rparr>" "b \<noteq> 0"
  proof (rule bm_free_block [of s' b e p])
    show "bm_inv s'" "(b, e) \<in> blocks s'" "b \<le> GETBIT p" "GETBIT p \<le> e"
      using inv blk(5) gp by auto
  qed blast
  have "bm_inv s'' \<and> blocks s'' = blocks s' - {(b, e)}"
    using inv drop_block_inv [of s' m b e s''] f(2-5) by blast
  moreover have "bm_busy s'' = bm_busy s"
    using f(2) blk(3,7) by (auto simp: drop_block_def add_block_def fun_eq_iff)
  ultimately show ?thesis using f(1) inv by auto
qed

text \<open>
  A request for 0 bytes, or one that rounds past the end of the address space, asks for 0 pages:
  while a page of the heap is free it is never answered.
\<close>

theorem bm_malloc_zero_hangs:
  assumes "bm_inv s" and "search_free_acnt_node s = Some n" and "ROUND_TO_PAGE_SIZE sz = 0"
    and "GETBIT (bm_heap_start s) \<le> c" and "c \<le> GETBIT (bm_heap_end s)" and "\<not> bm_busy s c"
  shows "bm_malloc s sz = Hang"
proof -
  have "bm_first_free s (unat (GETBIT (bm_heap_start s))) \<noteq> None"
    using assms(4-6) unfolding bm_first_free_def find_upt_None
    by (auto simp: bm_busy_def page_busy_def heap_last_def word_le_nat_alt)
  then obtain f where "bm_first_free s (unat (GETBIT (bm_heap_start s))) = Some f" by blast
  from size_zero_hangs_search [OF this bm_invD(2) [OF assms(1)]]
  show ?thesis using bm_invD(1) [OF assms(1)] assms(2,3) by (simp add: bm_malloc_def)
qed

text \<open>
  init_bootmem_allocator never returns, whatever the RAM map: behind the loop over the map
  stands an endless loop, and before it every failed check is one.
\<close>

theorem init_bootmem_never_returns: "init_bootmem_allocator kstart kend nodes s = Hang"
proof -
  have "init_bootmem_nodes kstart kend nodes s \<noteq> Trap"
  proof (induction nodes arbitrary: s)
    case (Cons nd nodes)
    obtain s' where "bm_setbit_range False s (GETBIT kstart) (GETBIT kend) = Ret s'"
      using bmr.setr_Ret [of "GETBIT kend" False s "GETBIT kstart"] heap_in_frames [of _ kend] by blast
    then show ?case using Cons.IH by (cases nd) auto
  qed simp
  then show ?thesis
    by (cases "init_bootmem_nodes kstart kend nodes s") (simp_all add: init_bootmem_allocator_def)
qed

text \<open>
  The code behind that endless loop would establish the invariant with no block handed out,
  provided the last account node, which its memset leaves out, happens to be zero.
\<close>

theorem init_bootmem_heap_inv:
  assumes "init_bootmem_heap kend \<lparr>start_bit = 0, end_bit = 0\<rparr> s = Ret (r, s')" and "acnt_i s = 0"
    and "0 < GETBIT (ROUND_TO_PAGE_SIZE kend)"
  shows "r = 0 \<and> bm_inv s' \<and> blocks s' = {} \<and> length (acnt s') = 1024"
proof -
  define s1 where "s1 = s\<lparr>bm_heap_start := ROUND_TO_PAGE_SIZE kend, bm_heap_end := ROUND_TO_PAGE_SIZE kend + bm_heap_size - 1\<rparr>"
  obtain st s2 where s2: "bm_find_free_bits_range s1 2 = Ret (Some st)" "bm_setbit_range False s1 st (st + 1) = Ret s2"
    and r: "r = 0" and s': "s' = s2\<lparr>acnt := replicate 1023 \<lparr>start_bit = 0, end_bit = 0\<rparr> @ [\<lparr>start_bit = 0, end_bit = 0\<rparr>], bootmem_init_complete := True\<rparr>"
    using assms(1)
    by (auto simp: init_bootmem_heap_def Let_def s1_def obind_eq_Ret PAGE_SIZE_def TOTAL_ACNT_NODES_def split: if_splits option.splits)
  have h: "0 < GETBIT (bm_heap_start s1)" using assms(3) by (simp add: s1_def)
  have "st + 2 - 1 < NUM_FRAMES"
    using find_free_bits_range_Some [OF s2(1) h] by (auto intro: heap_in_frames)
  then have e: "st + 1 < NUM_FRAMES" by (simp add: add.commute)
  have rest: "same_rest s1 s2" using bm_setbit_range_effect [OF s2(2) e] by blast
  have nodes: "acnt s' = replicate 1024 \<lparr>start_bit = 0, end_bit = 0\<rparr>"
    by (simp add: s' flip: replicate_append_same) (simp add: replicate_append_same numeral_eq_Suc)
  then have "blocks s' = {}" by (auto simp: blocks_def in_use_def)
  moreover have "bm_inv s'"
    using rest h assms(2) nodes
    by (intro bm_invI) (auto simp: same_rest_def s' s1_def node_ok_def apart_def in_use_def filter_replicate)
  ultimately show ?thesis using r nodes by simp
qed

section \<open>Witnesses\<close>

text \<open>A heap of the pages 1 and 2, all free, with two account nodes, and the state after one page
  was handed out.\<close>

definition boot_two :: bootmem where
  "boot_two = \<lparr>free_bitmap = (\<lambda>_. 0), bmem = (\<lambda>_. 7), acnt = replicate 2 \<lparr>start_bit = 0, end_bit = 0\<rparr>, acnt_i = 0,
     bootmem_init_complete = True, bm_heap_start = 4096, bm_heap_end = 12287\<rparr>"

lemma boot_two_inv: "bm_inv boot_two"
  by (rule bm_invI) (auto simp: boot_two_def node_ok_def apart_def in_use_def GETBIT_def PAGE_SIZE_def filter_replicate)

lemma boot_two_free [simp]: "search_free_acnt_node boot_two = Some 0" "\<not> bm_busy boot_two c"
  by (simp_all add: search_free_acnt_node_def search_bit_in_acnt_def boot_two_def bm_busy_def page_busy_def busyn_def numeral_2_eq_2)

lemma boot_two_heap: "bm_heap_start boot_two = 4096" "bm_heap_end boot_two = 12287"
  by (simp_all add: boot_two_def)

lemma boot_two_malloc: "\<exists>s'. bm_malloc boot_two 100 = Ret (4096, s')"
proof -
  have "heap_last boot_two = 2" by (simp add: heap_last_def boot_two_def GETBIT_def PAGE_SIZE_def)
  then have ff: "bm_first_free boot_two 1 = Some 1"
    by (simp add: bm_first_free_Some) (simp add: boot_two_def busyn_def)
  have "1 \<le> bm_run_len boot_two 1"
    using bm_run_len_pos [of 1 boot_two] ff by (simp add: bm_first_free_Some)
  then have "bm_find_free_bits_range boot_two 1 = Ret (Some 1)"
    using ff \<open>heap_last boot_two = 2\<close>
    by (subst bm_find_free_bits_range_total) (simp_all add: boot_two_def GETBIT_def PAGE_SIZE_def)
  moreover obtain s1 where "bm_setbit_range True boot_two 1 1 = Ret s1"
    using bmr.setr_Ret [of 1 True boot_two 1] by (auto simp: NUM_FRAMES_def)
  ultimately show ?thesis
    using bm_invD(1) [OF boot_two_inv] by (simp add: bm_malloc_def ROUND_TO_PAGE_SIZE_def PAGE_SIZE_def FROMBIT_def)
qed

lemma bm_malloc_fresh_block_witness:
  "\<exists>s' b e. bm_malloc boot_two 100 = Ret (FROMBIT b, s') \<and> (b, e) \<in> blocks s' \<and> bm_inv s'"
proof -
  obtain s' where s': "bm_malloc boot_two 100 = Ret (4096, s')" using boot_two_malloc by blast
  show ?thesis using bm_malloc_fresh_block [OF boot_two_inv s'] s' by (auto simp: NULL_def)
qed

definition boot_one :: bootmem where
  "boot_one = boot_two\<lparr>free_bitmap := (\<lambda>_. 2), acnt := [\<lparr>start_bit = 1, end_bit = 1\<rparr>], acnt_i := 1\<rparr>"

lemma boot_one_inv: "bm_inv boot_one"
  by (rule bm_invI)
    (auto simp: boot_one_def boot_two_def node_ok_def apart_def in_use_def GETBIT_def PAGE_SIZE_def bm_busy_def page_busy_def busyn_def)

lemma bm_free_frees_block_witness: "\<exists>s'. bm_free boot_one 5000 = Ret s' \<and> \<not> bm_busy s' 1 \<and> bmem s' 4096 = 0xEF"
proof -
  have "(1, 1) \<in> blocks boot_one" by (simp add: blocks_def boot_one_def in_use_def)
  from bm_free_frees_block [OF boot_one_inv this, of 5000] show ?thesis
    by (auto simp: GETBIT_def PAGE_SIZE_def filled_def page_of_def)
qed

lemma bm_free_undoes_malloc_witness:
  "\<exists>s' s''. bm_malloc boot_two 100 = Ret (4096, s') \<and> bm_free s' 4096 = Ret s'' \<and> blocks s'' = {}"
proof -
  obtain s' where s': "bm_malloc boot_two 100 = Ret (4096, s')" using boot_two_malloc by blast
  have "blocks boot_two = {}" by (simp add: blocks_def boot_two_def in_use_def)
  then show ?thesis using bm_free_undoes_malloc [OF boot_two_inv s'] s' by (auto simp: NULL_def)
qed

lemma bm_malloc_zero_hangs_witness: "bm_malloc boot_two 0 = Hang"
  by (rule bm_malloc_zero_hangs [OF boot_two_inv, of 0 0 1])
    (simp_all add: ROUND_TO_PAGE_SIZE_def PAGE_SIZE_def GETBIT_def boot_two_heap)

lemma bm_scan_all_free:
  "(\<And>n. \<not> busyn (free_bitmap s) n) \<Longrightarrow> i \<le> t \<Longrightarrow> unat f + unat t \<le> 1048576 \<Longrightarrow> bm_scan_all s t f i = Ret t"
proof (induction "unat t - unat i" arbitrary: i)
  case 0
  then have "i = t" by (simp add: word_le_nat_alt word_unat_eq_iff)
  then show ?case by (simp add: bm_scan_all.simps [of s t f t])
next
  case (Suc k)
  then have i: "i < t" by (simp add: word_less_nat_alt)
  have "unat (f + i) < 1048576"
    using i Suc.prems(3) by (simp add: word_less_nat_alt unat_word_ariths)
  then have "bm_getbit s (f + i) = Ret 0"
    using bm_getbit_of_nat [of "unat (f + i)" s] Suc.prems(1) by auto
  then have "bm_scan_all s t f i = bm_scan_all s t f (i + 1)" using i by (subst bm_scan_all.simps) simp
  also have "\<dots> = Ret t"
    using Suc.hyps unat_Suc_word [OF i] i Suc.prems by (intro Suc.hyps(1)) (auto simp: word_less_nat_alt word_le_nat_alt)
  finally show ?case .
qed

definition boot_fresh :: bootmem where
  "boot_fresh = boot_two\<lparr>acnt := [], bootmem_init_complete := False\<rparr>"

lemma init_bootmem_heap_inv_witness:
  "\<exists>s'. init_bootmem_heap 0x100000 \<lparr>start_bit = 0, end_bit = 0\<rparr> boot_fresh = Ret (0, s') \<and> bm_inv s'"
proof -
  define s1 where "s1 = boot_fresh\<lparr>bm_heap_start := 0x100000, bm_heap_end := 0xCB7FFF\<rparr>"
  have free: "\<not> busyn (free_bitmap s1) n" for n by (simp add: s1_def boot_fresh_def boot_two_def busyn_def)
  have last: "heap_last s1 = 3255" by (simp add: heap_last_def s1_def GETBIT_def PAGE_SIZE_def)
  have ff: "bm_first_free s1 256 = Some 256" using free last by (auto simp: bm_first_free_Some)
  have run: "bm_run_len s1 256 = 3000"
    using bm_run_len_end [of 256 s1] free last by auto
  have find: "bm_find_free_bits_range s1 2 = Ret (Some 256)"
    using ff run last by (subst bm_find_free_bits_range_total) (simp_all add: s1_def GETBIT_def PAGE_SIZE_def)
  have "find_free_bits_range_from s1 3000 256 = Ret 0"
    using ff bm_scan_all_free [OF free, of 1 3000 256]
    by (simp add: find_free_bits_range_from_def bm_find_first_free_eq) (simp add: s1_def GETBIT_def PAGE_SIZE_def)
  moreover obtain s2 where "bm_setbit_range False s1 256 257 = Ret s2"
    using bmr.setr_Ret [of 257 False s1 256] by (auto simp: NUM_FRAMES_def)
  moreover have "boot_fresh\<lparr>bm_heap_start := 0x100000, bm_heap_end := 0xCB7FFF\<rparr> = s1" by (simp add: s1_def)
  ultimately obtain s' where s': "init_bootmem_heap 0x100000 \<lparr>start_bit = 0, end_bit = 0\<rparr> boot_fresh = Ret (0, s')"
    using find
    by (simp add: init_bootmem_heap_def Let_def ROUND_TO_PAGE_SIZE_def PAGE_SIZE_def GETBIT_def bm_heap_size_def TOTAL_ACNT_NODES_def)
  moreover have "bm_inv s'"
    using init_bootmem_heap_inv [OF s'] by (simp add: boot_fresh_def boot_two_def ROUND_TO_PAGE_SIZE_def PAGE_SIZE_def GETBIT_def)
  ultimately show ?thesis by blast
qed

end
