(* ===== verification/FreePages.thy ===== *)
theory FreePages
  imports PageAlloc
begin

text \<open>
  The physical page database, mm/free-pages.c: its bit operations on the two bitmaps, pages that
  are RAM and pages that are allocated, and the search for a free page. The rest of the file, the
  range searches and the initialisation, calls these with other argument lists than they have, and
  the file is not built.
\<close>

section \<open>Bits\<close>

definition setbit :: "bitmap_t \<Rightarrow> u32 \<Rightarrow> bitmap_t outcome" where
  "setbit bm bitno =
     (let index = unat bitno div 32; offset = unat bitno mod 32; msk = push_bit offset 1
      in if index < UINT_CNT then Ret (bm(index := bm index OR msk)) else Trap)"

definition clearbit :: "bitmap_t \<Rightarrow> u32 \<Rightarrow> bitmap_t outcome" where
  "clearbit bm bitno =
     (let index = unat bitno div 32; offset = unat bitno mod 32; msk = push_bit offset 1
      in if index < UINT_CNT then Ret (bm(index := bm index AND NOT msk)) else Trap)"

definition getbit :: "bitmap_t \<Rightarrow> u32 \<Rightarrow> u32 outcome" where
  "getbit bm bitno =
     (let index = unat bitno div 32; offset = unat bitno mod 32; msk = push_bit offset 1
      in if index < UINT_CNT then Ret (bm index AND msk) else Trap)"

interpretation fpb: bitmap NUM_FRAMES setbit clearbit page_busy
  by unfold_locales
    (auto simp: setbit_def clearbit_def Let_def page_busy_def busyn_set busyn_clr)

lemma setbit_RetD: "setbit bm b = Ret bm' \<Longrightarrow> unat (b + 1) = Suc (unat b)"
  by (auto simp: setbit_def Let_def intro!: unat_Suc_word split: if_splits)

lemma clearbit_RetD: "clearbit bm b = Ret bm' \<Longrightarrow> unat (b + 1) = Suc (unat b)"
  by (auto simp: clearbit_def Let_def intro!: unat_Suc_word split: if_splits)

function setbit_range :: "bitmap_t \<Rightarrow> u32 \<Rightarrow> u32 \<Rightarrow> bitmap_t outcome" where
  "setbit_range bm i end_bit =
     (if i \<le> end_bit then obind (setbit bm i) (\<lambda>bm'. setbit_range bm' (i + 1) end_bit) else Ret bm)"
  by pat_completeness auto
termination
  by (relation "measure (\<lambda>(bm, b, e). unat e + 1 - unat b)") (auto simp: setbit_RetD word_le_nat_alt)

function clearbit_range :: "bitmap_t \<Rightarrow> u32 \<Rightarrow> u32 \<Rightarrow> bitmap_t outcome" where
  "clearbit_range bm i end_bit =
     (if i \<le> end_bit then obind (clearbit bm i) (\<lambda>bm'. clearbit_range bm' (i + 1) end_bit) else Ret bm)"
  by pat_completeness auto
termination
  by (relation "measure (\<lambda>(bm, b, e). unat e + 1 - unat b)") (auto simp: clearbit_RetD word_le_nat_alt)

declare setbit_range.simps [simp del] clearbit_range.simps [simp del]

interpretation fpbr: bitmap_range NUM_FRAMES setbit clearbit page_busy setbit_range clearbit_range
  by unfold_locales (rule setbit_range.simps clearbit_range.simps)+

section \<open>The search\<close>

function fpd_word :: "u32 \<Rightarrow> u32 \<Rightarrow> nat \<Rightarrow> nat \<Rightarrow> bool \<times> nat" where
  "fpd_word w msk i max_bit =
     (if msk \<noteq> 0 \<and> i \<le> max_bit
      then if w AND msk = 0 then (True, i) else fpd_word w (push_bit 1 msk) (i + 1) max_bit
      else (False, i))"
  by pat_completeness auto
termination
  by (relation "measure (\<lambda>(w, msk, i, e). shifts_left msk)") (simp_all add: shifts_left_step del: push_bit_of_1)

text \<open>
  The outer loop. Its \<^verbatim>\<open>continue\<close> for a word without RAM advances the index of the word and
  not the bit number.
\<close>

function fpd_words :: "bitmap_t \<Rightarrow> bitmap_t \<Rightarrow> nat \<Rightarrow> u32 \<Rightarrow> nat \<Rightarrow> nat \<Rightarrow> nat option outcome" where
  "fpd_words ram_bm alloc_bm index msk i max_bit =
     (if i \<le> max_bit
      then if \<not> index < UINT_CNT then Trap
           else if ram_bm index = 0 then fpd_words ram_bm alloc_bm (index + 1) msk i max_bit
           else case fpd_word (alloc_bm index) msk i max_bit of
                  (found, i') \<Rightarrow> if found then Ret (Some i') else fpd_words ram_bm alloc_bm (index + 1) 1 i' max_bit
      else Ret None)"
  by pat_completeness auto
termination
  by (relation "measure (\<lambda>(ram, bm, index, msk, i, e). UINT_CNT - index)") auto

declare fpd_word.simps [simp del] fpd_words.simps [simp del]

definition fpd_find_first_free :: "bitmap_t \<Rightarrow> bitmap_t \<Rightarrow> u32 \<Rightarrow> u32 \<Rightarrow> u32 option outcome" where
  "fpd_find_first_free ram_bm alloc_bm from_bit max_bit =
     obind (fpd_words ram_bm alloc_bm (unat from_bit div 32) (push_bit (unat from_bit mod 32) 1) (unat from_bit) (unat max_bit))
       (\<lambda>r. Ret (map_option of_nat r))"

section \<open>Properties\<close>

text \<open>
  The search reports a page that is not RAM: when the word of the bitmap that holds the start
  page has no RAM, the answer is the start page itself as soon as the first page of some later word
  with RAM is not allocated.
\<close>

theorem fpd_search_reports_missing_page:
  assumes "unat from_bit mod 32 = 0" and "from_bit \<le> max_bit" and "unat from_bit div 32 < later" and "later < UINT_CNT"
    and "\<forall>w. unat from_bit div 32 \<le> w \<and> w < later \<longrightarrow> ram_bm w = 0"
    and "ram_bm later \<noteq> 0" and "\<not> page_busy alloc_bm (of_nat (32 * later))"
  shows "fpd_find_first_free ram_bm alloc_bm from_bit max_bit = Ret (Some from_bit) \<and> \<not> page_busy ram_bm from_bit"
proof -
  let ?i = "unat from_bit"
  have i: "?i \<le> unat max_bit" using assms(2) by (simp add: word_le_nat_alt)
  have skip: "fpd_words ram_bm alloc_bm (later - d) 1 ?i (unat max_bit) = fpd_words ram_bm alloc_bm later 1 ?i (unat max_bit)"
    if "d \<le> later - ?i div 32" for d
    using that
  proof (induction d)
    case (Suc d)
    have z: "ram_bm (later - Suc d) = 0" using Suc.prems assms(3) assms(5) [rule_format, of "later - Suc d"] by auto
    have n: "later - Suc d + 1 = later - d" "later - Suc d < UINT_CNT" using Suc.prems assms(3,4) by auto
    show ?case
      using Suc.IH Suc.prems z i n by (subst fpd_words.simps) simp
  qed simp
  have "32 * later < 1048576" using assms(4) by (simp add: UINT_CNT_def)
  then have "unat (of_nat (32 * later) :: u32) = 32 * later" by (intro unat_page) simp
  then have "\<not> bit (alloc_bm later) 0" using assms(7) by (simp add: page_busy_def busyn_def)
  then have "alloc_bm later AND 1 = 0" using and_mask_eq_0 [of "alloc_bm later" 0] by simp
  then have "fpd_words ram_bm alloc_bm later 1 ?i (unat max_bit) = Ret (Some ?i)"
    using i assms(4,6) by (subst fpd_words.simps) (simp add: fpd_word.simps)
  moreover have "later - (later - ?i div 32) = ?i div 32" using assms(3) by simp
  ultimately have "fpd_find_first_free ram_bm alloc_bm from_bit max_bit = Ret (Some from_bit)"
    using skip [of "later - ?i div 32"] assms(1) by (simp add: fpd_find_first_free_def)
  moreover have "\<not> page_busy ram_bm from_bit" using assms(3) assms(5) by (simp add: page_busy_def busyn_def)
  ultimately show ?thesis by blast
qed

lemma fpd_search_reports_missing_page_witness:
  "fpd_find_first_free (\<lambda>w. if w = 8 then 0xFFFFFFFF else 0) (\<lambda>_. 0) 0 1000 = Ret (Some 0)"
  using fpd_search_reports_missing_page [of 0 1000 8 "\<lambda>w. if w = 8 then 0xFFFFFFFF else 0" "\<lambda>_. 0"]
  by (simp add: UINT_CNT_def page_busy_def busyn_def)

end
