(* ===== verification/Reports.thy ===== *)
theory Reports
  imports CString Vsprintf Descriptors Interrupts
begin

text \<open>
  Reports on the console: the memory dumps and the fault report of kernel/kdebug.c, panic of
  kernel/panic.c, the processor report of cpu.c, the listings of the descriptor tables in gdt.c and
  idt.c, and the handlers of init.c and process.c that only print. A report is the text it prints;
  one that ends in an endless loop is \<open>Hang\<close>, and its text is a definition of its own.
\<close>

section \<open>Printing pieces\<close>

lemma printks_append: "printks (ps @ qs) = obind (printks ps) (\<lambda>a. obind (printks qs) (\<lambda>b. Ret (a @ b)))"
proof (induction ps)
  case Nil
  then show ?case by (cases "printks qs") auto
next
  case (Cons p ps)
  obtain f v where p: "p = (f, v)" by fastforce
  show ?case
  proof (cases "printk f v")
    case (Ret r)
    then show ?thesis using Cons p by (cases r; cases "printks ps"; cases "printks qs") auto
  qed (simp_all add: p)
qed

lemma printks_const: "printk f v = Ret (t, r) \<Longrightarrow> printks (replicate n (f, v)) = Ret (concat (replicate n t))"
  by (induction n) auto

lemma printks_map:
  "(\<And>x. x \<in> set xs \<Longrightarrow> printks (f x) = Ret (t x)) \<Longrightarrow> printks (concat (map f xs)) = Ret (concat (map t xs))"
  by (induction xs) (auto simp: printks_append)

section \<open>Memory dumps\<close>

datatype dump_width = EDUMP_BYTE | EDUMP_HALFWORD | EDUMP_WORD

definition line_width :: nat where "line_width = 16"

fun elements_per_line :: "dump_width \<Rightarrow> nat" where
  "elements_per_line EDUMP_BYTE = 16" | "elements_per_line EDUMP_HALFWORD = 8" | "elements_per_line EDUMP_WORD = 4"

fun fill :: "dump_width \<Rightarrow> nat" where
  "fill EDUMP_BYTE = 1" | "fill EDUMP_HALFWORD = 3" | "fill EDUMP_WORD = 7"

text \<open>Little endian reads.\<close>

fun read_bytes :: "mem \<Rightarrow> u32 \<Rightarrow> nat \<Rightarrow> u32" where
  "read_bytes m a 0 = 0"
| "read_bytes m a (Suc k) = ucast (m a) OR push_bit 8 (read_bytes m (a + 1) k)"

text \<open>One element: its value or the filler of its width, and the mark or a space.\<close>

fun dump_value :: "mem \<Rightarrow> dump_width \<Rightarrow> bool \<Rightarrow> u32 \<Rightarrow> string \<times> vararg list" where
  "dump_value m EDUMP_BYTE skip a = (if skip then (''xx'', []) else (''%2x'', [VInt (read_bytes m a 1)]))"
| "dump_value m EDUMP_HALFWORD skip a = (if skip then (''xxxx'', []) else (''%4x'', [VInt (read_bytes m a 2)]))"
| "dump_value m EDUMP_WORD skip a = (if skip then (''xxxxxxxx'', []) else (''%8x'', [VInt (read_bytes m a 4)]))"

text \<open>A line from element \<open>j\<close> on: what it prints, whether the mark is out, and whether the end of
  the range was met, which ends the dump.\<close>

fun dump_elements :: "mem \<Rightarrow> dump_width \<Rightarrow> u32 \<Rightarrow> u32 \<Rightarrow> u32 \<Rightarrow> nat \<Rightarrow> bool \<Rightarrow> nat list \<Rightarrow> (string \<times> vararg list) list \<times> bool \<times> bool" where
  "dump_elements m width start_addr end_addr addr_print n point_printed [] = ([], point_printed, False)"
| "dump_elements m width start_addr end_addr addr_print n point_printed (j # js) =
     (let addr = addr_print OR of_nat j; misalign_offset = unat (start_addr AND 0xF)
      in if addr > end_addr then ([], point_printed, True)
         else let skip = (start_addr \<ge> addr + of_nat n);
                  mark = (\<not> point_printed \<and> misalign_offset \<ge> j \<and> misalign_offset < j + n);
                  (ps, pp, stop) = dump_elements m width start_addr end_addr addr_print n (point_printed \<or> mark) js
              in (dump_value m width skip addr # (if mark then ''^'' else '' '', []) # ps, pp, stop))"

fun dump_lines :: "mem \<Rightarrow> dump_width \<Rightarrow> u32 \<Rightarrow> u32 \<Rightarrow> u32 \<Rightarrow> bool \<Rightarrow> nat \<Rightarrow> (string \<times> vararg list) list" where
  "dump_lines m width start_addr end_addr addr_print point_printed 0 = []"
| "dump_lines m width start_addr end_addr addr_print point_printed (Suc i) =
     (let n = line_width div elements_per_line width;
          (ps, pp, stop) = dump_elements m width start_addr end_addr addr_print n point_printed (map ((*) n) [0..<elements_per_line width])
      in (''\<newline>0x%8x: '', [VInt addr_print]) # ps @
         (if stop then [] else dump_lines m width start_addr end_addr (addr_print + 0x10) pp i))"

definition data_dump :: "mem \<Rightarrow> u32 \<Rightarrow> u32 \<Rightarrow> dump_width \<Rightarrow> string outcome" where
  "data_dump m start_addr end_addr width =
     (let n = line_width div elements_per_line width
      in printks ((''**************** Kernel debug data dump ***************\<newline>'', []) #
           replicate 12 ('' '', []) @
           concat (map (\<lambda>i. (''x%x'', [VInt (of_nat i)]) # replicate (fill width) ('' '', [])) (map ((*) n) [0..<elements_per_line width])) @
           dump_lines m width start_addr end_addr (start_addr AND 0xFFFFFFF0) False 10))"

definition data_dump_byte :: "mem \<Rightarrow> u32 \<Rightarrow> string outcome" where
  "data_dump_byte m start_addr = data_dump m start_addr (- 1) EDUMP_BYTE"

definition data_dump_word :: "mem \<Rightarrow> u32 \<Rightarrow> string outcome" where
  "data_dump_word m start_addr = data_dump m start_addr (- 1) EDUMP_WORD"

definition data_dump_halfword :: "mem \<Rightarrow> u32 \<Rightarrow> string outcome" where
  "data_dump_halfword m start_addr = data_dump m start_addr (- 1) EDUMP_HALFWORD"

section \<open>Faults\<close>

definition debug_strings :: "string list" where
  "debug_strings = [''Multiboot returned misaligned RAM address'',
     ''Bootmem allocator could not find enough free space for heap'',
     ''Bootmem allocator could not allocate memory for accounting'',
     ''Multiboot data seems to be corrupted'',
     ''Multiboot could not find enough space for parsing of data'',
     ''Free address received by bootmem allocator is not valid'',
     ''The bootmemory allocator is not initialized yet.'',
     ''The IRQ dispatcher is not initialized yet!'',
     ''NULL pointer is not allowed here'',
     ''NULL'']"

definition display_error_info ::
  "string \<Rightarrow> int \<Rightarrow> string \<Rightarrow> u32 \<Rightarrow> string \<Rightarrow> u32 \<Rightarrow> string \<Rightarrow> u32 \<Rightarrow> string \<Rightarrow> u32 \<Rightarrow> string outcome" where
  "display_error_info cond e n_v1 v1 n_v2 v2 n_v3 v3 file_name line_no =
     (if e < 0 \<or> int (length debug_strings) \<le> e then Trap
      else printks [(''\<newline>\<newline>\<newline>\<newline>\<newline>'', []),
            (''*********************** Ganoid Fault ***********************\<newline>'', []),
            (''File name     : %s\<newline>'', [VStr file_name]),
            (''Line No       : %d\<newline>'', [VInt line_no]),
            (''Check failed  : %s\<newline>'', [VStr cond]),
            (''Fault desc.   : %s\<newline>'', [VStr (debug_strings ! nat e)]),
            (''Value 1       : 0x%8x (%s)\<newline>'', [VInt v1, VStr n_v1]),
            (''Value 2       : 0x%8x (%s)\<newline>'', [VInt v2, VStr n_v2]),
            (''Value 3       : 0x%8x (%s)\<newline>'', [VInt v3, VStr n_v3]),
            (''************************************************************\<newline>'', [])])"

text \<open>What kernel_fault and panic print before they loop for ever.\<close>

definition kernel_fault_text :: "string \<Rightarrow> string outcome" where
  "kernel_fault_text str = obind (printk ''KERN_FAULT: %s\<newline>'' [VStr str]) (\<lambda>(t, _). Ret t)"

definition kernel_fault :: "string \<Rightarrow> string outcome" where
  "kernel_fault str = obind (kernel_fault_text str) (\<lambda>_. Hang)"

definition panic_text :: "string outcome" where
  "panic_text = obind (printk ''PANIC\<newline>'' []) (\<lambda>(t, _). Ret t)"

definition panic :: "string outcome" where
  "panic = obind panic_text (\<lambda>_. Hang)"

section \<open>Processor and descriptor tables\<close>

text \<open>The first 16 bytes of the buffer that the assembly fills.\<close>

definition print_cpuid_info :: "u8 list \<Rightarrow> string outcome" where
  "print_cpuid_info raw_cpu_data_buffer =
     (if length raw_cpu_data_buffer < 16 then Trap
      else printks (map (\<lambda>b. (''%x: %c\<newline>'', [VInt (ucast b), VInt (ucast b)])) (take 16 raw_cpu_data_buffer)))"

definition seg_words :: "segment_descriptor \<Rightarrow> u32 \<times> u32" where
  "seg_words d =
     (ucast (seg_limit_low d) OR push_bit 16 (ucast (base_addr_low d)),
      ucast (base_addr_middle d) OR push_bit 8 (ucast (flags_1 d)) OR push_bit 16 (ucast (flags_2 d)) OR push_bit 24 (ucast (base_addr_high d)))"

text \<open>The listing reads the table at the base the register holds; \<open>table\<close> is what lies there.\<close>

definition print_global_desc_table :: "GDTR_val \<Rightarrow> segment_descriptor list \<Rightarrow> string outcome" where
  "print_global_desc_table gdtr table =
     (let cnt = (unat (table_limit gdtr) + 7) div 8
      in if length table < cnt then Trap
         else printks (concat (map (\<lambda>i. let d = table ! i in
                [(''\<newline>Segment Descriptor No.: %d\<newline>'', [VInt (of_nat i)]),
                 (''Descriptor Address: %x\<newline>'', [VInt (table_base_addr gdtr + of_nat (8 * i))]),
                 (''DWord_H: %8x\<newline>'', [VInt (snd (seg_words d))]),
                 (''DWord_L: %8x\<newline>'', [VInt (fst (seg_words d))]),
                 (''Segment Base Address: %8x\<newline>'', [VInt (segment_base_address d)]),
                 (''Segment Limit: %8x\<newline>'', [VInt (segment_limit d)])]) [0..<cnt])))"

definition gate_words :: "interrupt_descriptor \<Rightarrow> u32 \<times> u32" where
  "gate_words d =
     (ucast (offset_low d) OR push_bit 16 (ucast (segment_selector d)),
      ucast (zero_area d) OR push_bit 8 (ucast (iflags d)) OR push_bit 16 (ucast (offset_high d)))"

definition print_interrupt_desc_table :: "IDTR_val \<Rightarrow> interrupt_descriptor list \<Rightarrow> string outcome" where
  "print_interrupt_desc_table idtr table =
     (let cnt = (unat (idt_limit idtr) + 7) div 8
      in if length table < cnt then Trap
         else printks (concat (map (\<lambda>i. let d = table ! i in
                [(''\<newline>Interrupt Descriptor No.: %d\<newline>'', [VInt (of_nat i)]),
                 (''Descriptor Address: %x\<newline>'', [VInt (idt_base_addr idtr + of_nat (8 * i))]),
                 (''DWord_H: %8x\<newline>'', [VInt (snd (gate_words d))]),
                 (''DWord_L: %8x\<newline>'', [VInt (fst (gate_words d))]),
                 (''Segment selector: %8x\<newline>'', [VInt (ucast (segment_selector d))]),
                 (''Segment offset: %8x\<newline>'', [VInt (segment_offset d)])]) [0..<cnt])))"

definition irq0_handler :: "string outcome" where
  "irq0_handler = obind (printk ''into irq0 handler'' []) (\<lambda>(t, _). Ret t)"

section \<open>What a dump shows\<close>

text \<open>The specification of a byte dump: ten lines of sixteen bytes from the 16 byte boundary below
  the start, bytes below the start as \<^verbatim>\<open>xx\<close>, and a mark behind the byte at the start.\<close>

definition dump_byte_text :: "mem \<Rightarrow> u32 \<Rightarrow> nat \<Rightarrow> string" where
  "dump_byte_text m start i =
     (let a = (start AND 0xFFFFFFF0) + of_nat i
      in (if a < start then ''xx'' else digits_of 16 2 (unat (m a))) @ (if a = start then ''^'' else '' ''))"

definition dump_text :: "mem \<Rightarrow> u32 \<Rightarrow> string" where
  "dump_text m start =
     ''**************** Kernel debug data dump ***************\<newline>'' @ replicate 12 CHR '' '' @
     concat (map (\<lambda>i. ''x'' @ digits_of 16 0 i @ '' '') [0..<16]) @
     concat (map (\<lambda>k. ''\<newline>0x'' @ digits_of 16 8 (unat (start AND 0xFFFFFFF0) + 16 * k) @ '': '' @
        concat (map (\<lambda>j. dump_byte_text m start (16 * k + j)) [0..<16])) [0..<10])"

lemma prints_text:
  assumes "\<forall>p \<in> set ps. piece_ok p \<and> short_piece p" and "length ps \<le> 9"
  shows "printk (concat (map piece_fmt ps)) (concat (map piece_args ps)) = Ret (concat (map piece_text ps), 0)"
proof -
  have p: "length (piece_text p) \<le> 99 \<and> CHR 0x00 \<notin> set (piece_text p)" if "piece_ok p" "short_piece p" for p
  proof (cases p)
    case (Conv ws c)
    then show ?thesis using that conv_text_short [of "width_of ws" ws c] by auto
  qed (use that in \<open>auto simp: short_text_def\<close>)
  have "length (concat (map piece_text ps)) \<le> 99 * length ps \<and> CHR 0x00 \<notin> set (concat (map piece_text ps))"
    using assms(1) p by (induction ps) fastforce+
  then show ?thesis using assms printk_pieces [of ps] by fastforce
qed

lemma dump_prints:
  "printk ''xx'' [] = Ret (''xx'', 0)" "printk ''^'' [] = Ret (''^'', 0)" "printk '' '' [] = Ret ('' '', 0)"
  "printk ''%2x'' [VInt v] = Ret (digits_of 16 2 (unat v), 0)"
  "printk ''\<newline>0x%8x: '' [VInt v] = Ret (''\<newline>0x'' @ digits_of 16 8 (unat v) @ '': '', 0)"
  "printk ''x%x'' [VInt v] = Ret (''x'' @ digits_of 16 0 (unat v), 0)"
  using prints_text [of "[Lit ''xx'']"] prints_text [of "[Lit ''^'']"] prints_text [of "[Lit '' '']"]
    prints_text [of "[Conv ''2'' (ConvX v)]"] prints_text [of "[Lit ''\<newline>0x'', Conv ''8'' (ConvX v), Lit '': '']"]
    prints_text [of "[Lit ''x'', Conv [] (ConvX v)]"]
  by (simp_all add: short_text_def isdigit_def)

lemma line_base: "unat (start AND 0xFFFFFFF0 :: u32) = unat start div 16 * 16" "unat (start AND 0xF :: u32) = unat start mod 16"
proof -
  have m: "(0xF :: u32) = mask 4" "(0xFFFFFFF0 :: u32) = NOT (mask 4)" by (simp_all add: mask_eq_exp_minus_1)
  show mod: "unat (start AND 0xF :: u32) = unat start mod 16"
    unfolding m by (simp add: unsigned_take_bit_eq take_bit_eq_mod unat_mod flip: take_bit_eq_mask)
  have "start AND NOT (mask 4) = push_bit 4 (drop_bit 4 start)"
    by (rule bit_word_eqI) (auto simp: bit_simps)
  moreover have "unat (drop_bit 4 start) = unat start div 16"
    by (simp add: unsigned_drop_bit_eq drop_bit_eq_div unat_div_word)
  moreover have "unat start div 16 * 16 < 4294967296" using unat_u32_less [of start] by linarith
  ultimately show "unat (start AND 0xFFFFFFF0 :: u32) = unat start div 16 * 16"
    unfolding m by (simp add: push_bit_eq_mult unat_word_ariths mult.commute)
qed

lemma or_low_bits: "j < 16 \<Longrightarrow> (of_nat (16 * q) :: u32) OR of_nat j = of_nat (16 * q + j)"
proof -
  assume j: "j < 16"
  have hi: "(of_nat (16 * q) :: u32) = push_bit 4 (of_nat q)" by (simp add: push_bit_eq_mult)
  have "take_bit 4 j = j" using j by (simp add: take_bit_nat_eq_self)
  then have "\<not> bit (of_nat j :: u32) n" if "4 \<le> n" for n
    using that by (metis bit_of_nat_iff bit_take_bit_iff not_le possible_bit_def)
  then have "\<not> bit (push_bit 4 (of_nat q) :: u32) n \<or> \<not> bit (of_nat j :: u32) n" for n
    by (cases "4 \<le> n") (auto simp: bit_simps)
  then have "push_bit 4 (of_nat q) OR of_nat j = push_bit 4 (of_nat q) + (of_nat j :: u32)"
    by (simp add: disjunctive_add)
  then show ?thesis unfolding hi by (simp add: push_bit_eq_mult)
qed

lemma dump_value_byte:
  "printks (dump_value m EDUMP_BYTE skip a # ps) =
     obind (printks ps) (\<lambda>t. Ret ((if skip then ''xx'' else digits_of 16 2 (unat (m a))) @ t))"
proof -
  have "unat (ucast (m a) OR push_bit 8 0 :: u32) = unat (m a)"
    by (simp add: unsigned_ucast_eq take_bit_nat_eq_self order_less_trans [OF unsigned_less])
  then have "unat (read_bytes m a 1) = unat (m a)" by (simp add: One_nat_def)
  then show ?thesis by (cases skip; cases "printks ps") (simp_all add: dump_prints del: read_bytes.simps One_nat_def)
qed

lemma dump_mark: "printks ((if b then ''^'' else '' '', []) # ps) = obind (printks ps) (\<lambda>t. Ret ((if b then ''^'' else '' '') @ t))"
  by (cases b; cases "printks ps") (simp_all add: dump_prints)

lemma dump_elements_byte:
  fixes m start k
  defines "B \<equiv> unat start div 16 * 16" and "mis \<equiv> unat start mod 16"
  assumes "start \<le> 0xFFFFFF00" and "k < 10" and "j \<le> 16"
  shows "\<exists>ps. dump_elements m EDUMP_BYTE start (- 1) (of_nat (B + 16 * k)) 1 (mis < 16 * k + j) [j..<16] = (ps, mis < 16 * k + 16, False) \<and>
     printks ps = Ret (concat (map (\<lambda>j. dump_byte_text m start (16 * k + j)) [j..<16]))"
  using assms(5)
proof (induction "16 - j" arbitrary: j)
  case 0
  then show ?case by simp
next
  case (Suc d)
  have j: "j < 16" and d: "d = 16 - Suc j" using Suc.hyps(2) by auto
  let ?n = "B + 16 * k + j" and ?a = "of_nat (B + 16 * k) OR of_nat j :: u32"
  have B: "B + mis = unat start" "mis < 16" by (simp_all add: B_def mis_def)
  have "unat start \<le> 4294967040" using assms(3) by (simp add: word_le_nat_alt)
  then have n: "?n + 1 < 4294967296" using B assms(4) j by linarith
  have a: "?a = of_nat ?n"
    using or_low_bits [OF j, of "unat start div 16 + k"] by (simp add: B_def algebra_simps)
  have u: "unat (of_nat ?n :: u32) = ?n" "unat (of_nat ?n + of_nat 1 :: u32) = ?n + 1"
  proof -
    show "unat (of_nat ?n :: u32) = ?n" using n by (intro unat_of_nat_eq) simp
    have "(of_nat ?n + of_nat 1 :: u32) = of_nat (?n + 1)" by (rule of_nat_add [symmetric])
    then show "unat (of_nat ?n + of_nat 1 :: u32) = ?n + 1"
      using n by (simp only:) (intro unat_of_nat_eq, simp)
  qed
  have skip: "start \<ge> of_nat ?n + of_nat 1 \<longleftrightarrow> of_nat ?n < start" "of_nat ?n = start \<longleftrightarrow> mis = 16 * k + j"
    unfolding word_le_nat_alt word_less_nat_alt word_unat_eq_iff u using B by auto
  have mark: "(\<not> mis < 16 * k + j \<and> mis \<ge> j \<and> mis < j + 1) \<longleftrightarrow> mis = 16 * k + j" using B(2) assms(4) by auto
  have pp: "(mis < 16 * k + j \<or> mis = 16 * k + j) \<longleftrightarrow> mis < 16 * k + Suc j" by auto
  obtain ps where ps: "dump_elements m EDUMP_BYTE start (- 1) (of_nat (B + 16 * k)) 1 (mis < 16 * k + Suc j) [Suc j..<16] = (ps, mis < 16 * k + 16, False)"
    "printks ps = Ret (concat (map (\<lambda>j. dump_byte_text m start (16 * k + j)) [Suc j..<16]))"
    using Suc.hyps(1) [OF d] j by auto
  let ?v = "dump_value m EDUMP_BYTE (of_nat ?n < start) (of_nat ?n)" and ?s = "(if mis = 16 * k + j then ''^'' else '' '', [] :: vararg list)"
  have e: "dump_elements m EDUMP_BYTE start (- 1) (of_nat (B + 16 * k)) 1 (mis < 16 * k + j) (j # [Suc j..<16]) = (?v # ?s # ps, mis < 16 * k + 16, False)"
    unfolding dump_elements.simps Let_def a line_base(2) mis_def [symmetric] mark pp ps skip by (simp add: not_less)
  have base: "(start AND 0xFFFFFFF0) + of_nat (16 * k + j) = of_nat ?n"
  proof -
    have "unat (of_nat B :: u32) = B" using n by (intro unat_of_nat_eq) simp
    then have "start AND 0xFFFFFFF0 = of_nat B" using line_base(1) [of start] by (simp add: word_unat_eq_iff B_def)
    then show ?thesis by simp
  qed
  have t: "dump_byte_text m start (16 * k + j) =
      (if of_nat ?n < start then ''xx'' else digits_of 16 2 (unat (m (of_nat ?n)))) @ (if mis = 16 * k + j then ''^'' else '' '')"
    unfolding dump_byte_text_def Let_def base skip ..
  have "printks (?v # ?s # ps) = Ret (dump_byte_text m start (16 * k + j) @ concat (map (\<lambda>j. dump_byte_text m start (16 * k + j)) [Suc j..<16]))"
    unfolding t dump_value_byte dump_mark ps(2) by simp
  then show ?case using e j by (simp add: upt_conv_Cons del: dump_elements.simps upt_Suc)
qed

lemma dump_lines_byte:
  assumes "start \<le> 0xFFFFFF00" and "k + i = 10"
  shows "printks (dump_lines m EDUMP_BYTE start (- 1) (of_nat (unat start div 16 * 16 + 16 * k)) (unat start mod 16 < 16 * k) i) =
     Ret (concat (map (\<lambda>k. ''\<newline>0x'' @ digits_of 16 8 (unat (start AND 0xFFFFFFF0) + 16 * k) @ '': '' @
        concat (map (\<lambda>j. dump_byte_text m start (16 * k + j)) [0..<16])) [k..<10]))"
  using assms(2)
proof (induction i arbitrary: k)
  case 0
  then show ?case by simp
next
  case (Suc i)
  let ?B = "unat start div 16 * 16 + 16 * k"
  have k: "k < 10" using Suc.prems by simp
  obtain ps where e: "dump_elements m EDUMP_BYTE start (- 1) (of_nat ?B) 1 (unat start mod 16 < 16 * k) [0..<16] = (ps, unat start mod 16 < 16 * Suc k, False)"
    and ps: "printks ps = Ret (concat (map (\<lambda>j. dump_byte_text m start (16 * k + j)) [0..<16]))"
  proof -
    have s: "16 * k + 16 = 16 * Suc k" by simp
    show ?thesis
      using dump_elements_byte [OF assms(1) k, of 0 m, unfolded add_0_right s, OF le0] that by blast
  qed
  have b: "?B < 2 ^ LENGTH(32)"
  proof -
    have "unat start \<le> 4294967040" using assms(1) by (simp add: word_le_nat_alt)
    moreover have "unat start div 16 * 16 \<le> unat start" by simp
    ultimately show ?thesis using k by simp
  qed
  have u: "unat (of_nat ?B :: u32) = unat (start AND 0xFFFFFFF0) + 16 * k"
    unfolding line_base using b by (rule unat_of_nat_eq)
  have nxt: "(of_nat ?B + 0x10 :: u32) = of_nat (unat start div 16 * 16 + 16 * Suc k)" by simp
  have m: "map ((*) 1) [0..<16] = [0..<16 :: nat]" by (simp add: map_idI)
  have w: "line_width div 16 = 1" "elements_per_line EDUMP_BYTE = 16" by (simp_all add: line_width_def)
  have "dump_lines m EDUMP_BYTE start (- 1) (of_nat ?B) (unat start mod 16 < 16 * k) (Suc i) =
      (''\<newline>0x%8x: '', [VInt (of_nat ?B)]) # ps @
         dump_lines m EDUMP_BYTE start (- 1) (of_nat (unat start div 16 * 16 + 16 * Suc k)) (unat start mod 16 < 16 * Suc k) i"
    unfolding dump_lines.simps Let_def w m e nxt prod.case by simp
  moreover have "printks (dump_lines m EDUMP_BYTE start (- 1) (of_nat (unat start div 16 * 16 + 16 * Suc k)) (unat start mod 16 < 16 * Suc k) i) =
     Ret (concat (map (\<lambda>k. ''\<newline>0x'' @ digits_of 16 8 (unat (start AND 0xFFFFFFF0) + 16 * k) @ '': '' @
        concat (map (\<lambda>j. dump_byte_text m start (16 * k + j)) [0..<16])) [Suc k..<10]))"
    using Suc.prems by (intro Suc.IH) simp
  ultimately show ?case
    unfolding upt_conv_Cons [OF k] by (simp only: printks.simps printks_append dump_prints ps u obind_simps list.map concat.simps prod.case append_assoc)
qed

text \<open>A byte dump of any start address below the last page shows exactly the ten lines of the
  sixteen bytes from the 16 byte boundary on: every line with its own address, every byte with its
  value, the bytes before the start as filler, and the one mark behind the byte asked for.\<close>

theorem data_dump_byte_shows_memory:
  assumes "start \<le> 0xFFFFFF00"
  shows "data_dump_byte m start = Ret (dump_text m start)"
proof -
  have m: "map ((*) 1) [0..<16] = [0..<16 :: nat]" by (simp add: map_idI)
  have w: "line_width div 16 = 1" "elements_per_line EDUMP_BYTE = 16" "fill EDUMP_BYTE = 1" by (simp_all add: line_width_def)
  have b: "(start AND 0xFFFFFFF0 :: u32) = of_nat (unat start div 16 * 16 + 16 * 0)"
    unfolding line_base(1) [symmetric] by simp
  have t: "printk ''**************** Kernel debug data dump ***************\<newline>'' [] =
      Ret (''**************** Kernel debug data dump ***************\<newline>'', 0)"
    using prints_text [of "[Lit ''**************** Kernel debug data dump ***************\<newline>'']"] by (simp add: short_text_def)
  have ls: "printks (dump_lines m EDUMP_BYTE start (- 1) (start AND 0xFFFFFFF0) False 10) =
     Ret (concat (map (\<lambda>k. ''\<newline>0x'' @ digits_of 16 8 (unat (start AND 0xFFFFFFF0) + 16 * k) @ '': '' @
        concat (map (\<lambda>j. dump_byte_text m start (16 * k + j)) [0..<16])) [0..<10]))"
    using dump_lines_byte [OF assms, of 0 10 m] unfolding b [symmetric] by (simp del: dump_lines.simps upt_rec_numeral)
  have hd: "printks (concat (map (\<lambda>i. (''x%x'', [VInt (of_nat i)]) # replicate 1 ('' '', [])) [0..<16])) =
     Ret (concat (map (\<lambda>i. ''x'' @ digits_of 16 0 i @ '' '') [0..<16]))"
  proof (rule printks_map)
    fix x assume "x \<in> set [0..<16::nat]"
    then have "unat (of_nat x :: u32) = x" by (intro unat_of_nat_eq) simp
    then show "printks ((''x%x'', [VInt (of_nat x)]) # replicate 1 ('' '', [])) = Ret (''x'' @ digits_of 16 0 x @ '' '')"
      by (simp add: dump_prints)
  qed
  have sp: "printks (replicate 12 ('' '', [])) = Ret (replicate 12 CHR '' '')"
    using printks_const [OF dump_prints(3), of 12] by (simp add: eval_nat_numeral)
  show ?thesis
    unfolding data_dump_byte_def data_dump_def Let_def w m dump_text_def
    by (simp only: printks.simps printks_append ls hd sp t obind_simps prod.case append_assoc)
qed

theorem data_dump_byte_shows_memory_witness:
  "data_dump_byte (\<lambda>a. ucast a) 0xB8003 = Ret (dump_text (\<lambda>a. ucast a) 0xB8003)"
  by (rule data_dump_byte_shows_memory) simp

section \<open>What a fault report shows\<close>

definition fault_text ::
  "string \<Rightarrow> nat \<Rightarrow> string \<Rightarrow> u32 \<Rightarrow> string \<Rightarrow> u32 \<Rightarrow> string \<Rightarrow> u32 \<Rightarrow> string \<Rightarrow> u32 \<Rightarrow> string" where
  "fault_text cond e n_v1 v1 n_v2 v2 n_v3 v3 file_name line_no =
     ''\<newline>\<newline>\<newline>\<newline>\<newline>*********************** Ganoid Fault ***********************\<newline>'' @
     ''File name     : '' @ file_name @ ''\<newline>'' @
     ''Line No       : '' @ signed_digits 0 line_no @ ''\<newline>'' @
     ''Check failed  : '' @ cond @ ''\<newline>'' @
     ''Fault desc.   : '' @ debug_strings ! e @ ''\<newline>'' @
     ''Value 1       : 0x'' @ digits_of 16 8 (unat v1) @ '' ('' @ n_v1 @ '')\<newline>'' @
     ''Value 2       : 0x'' @ digits_of 16 8 (unat v2) @ '' ('' @ n_v2 @ '')\<newline>'' @
     ''Value 3       : 0x'' @ digits_of 16 8 (unat v3) @ '' ('' @ n_v3 @ '')\<newline>'' @
     ''************************************************************\<newline>''"

lemma fault_prints:
  "printk ''\<newline>\<newline>\<newline>\<newline>\<newline>'' [] = Ret (''\<newline>\<newline>\<newline>\<newline>\<newline>'', 0)"
  "printk ''*********************** Ganoid Fault ***********************\<newline>'' [] =
     Ret (''*********************** Ganoid Fault ***********************\<newline>'', 0)"
  "printk ''************************************************************\<newline>'' [] =
     Ret (''************************************************************\<newline>'', 0)"
  "short_text s \<Longrightarrow> printk ''File name     : %s\<newline>'' [VStr s] = Ret (''File name     : '' @ s @ ''\<newline>'', 0)"
  "printk ''Line No       : %d\<newline>'' [VInt v] = Ret (''Line No       : '' @ signed_digits 0 v @ ''\<newline>'', 0)"
  "short_text s \<Longrightarrow> printk ''Check failed  : %s\<newline>'' [VStr s] = Ret (''Check failed  : '' @ s @ ''\<newline>'', 0)"
  "short_text s \<Longrightarrow> printk ''Fault desc.   : %s\<newline>'' [VStr s] = Ret (''Fault desc.   : '' @ s @ ''\<newline>'', 0)"
  using prints_text [of "[Lit ''\<newline>\<newline>\<newline>\<newline>\<newline>'']"]
    prints_text [of "[Lit ''*********************** Ganoid Fault ***********************\<newline>'']"]
    prints_text [of "[Lit ''************************************************************\<newline>'']"]
    prints_text [of "[Lit ''File name     : '', Conv [] (ConvS s), Lit ''\<newline>'']"]
    prints_text [of "[Lit ''Line No       : '', Conv [] (ConvD v), Lit ''\<newline>'']"]
    prints_text [of "[Lit ''Check failed  : '', Conv [] (ConvS s), Lit ''\<newline>'']"]
    prints_text [of "[Lit ''Fault desc.   : '', Conv [] (ConvS s), Lit ''\<newline>'']"]
  by (simp_all add: short_text_def)

lemma fault_value_prints:
  "short_text s \<Longrightarrow> printk ''Value 1       : 0x%8x (%s)\<newline>'' [VInt v, VStr s] = Ret (''Value 1       : 0x'' @ digits_of 16 8 (unat v) @ '' ('' @ s @ '')\<newline>'', 0)"
  "short_text s \<Longrightarrow> printk ''Value 2       : 0x%8x (%s)\<newline>'' [VInt v, VStr s] = Ret (''Value 2       : 0x'' @ digits_of 16 8 (unat v) @ '' ('' @ s @ '')\<newline>'', 0)"
  "short_text s \<Longrightarrow> printk ''Value 3       : 0x%8x (%s)\<newline>'' [VInt v, VStr s] = Ret (''Value 3       : 0x'' @ digits_of 16 8 (unat v) @ '' ('' @ s @ '')\<newline>'', 0)"
  using prints_text [of "[Lit ''Value 1       : 0x'', Conv ''8'' (ConvX v), Lit '' ('', Conv [] (ConvS s), Lit '')\<newline>'']"]
    prints_text [of "[Lit ''Value 2       : 0x'', Conv ''8'' (ConvX v), Lit '' ('', Conv [] (ConvS s), Lit '')\<newline>'']"]
    prints_text [of "[Lit ''Value 3       : 0x'', Conv ''8'' (ConvX v), Lit '' ('', Conv [] (ConvS s), Lit '')\<newline>'']"]
  by (simp_all add: short_text_def isdigit_def)

lemma debug_strings_short: "\<forall>s \<in> set debug_strings. short_text s"
  by (simp add: debug_strings_def short_text_def)

text \<open>For an error code of the table and names that fit the buffer, the fault report shows the
  file, line, condition, description and the three values with their names, each at its place; an
  error code outside the table makes it read outside \<^verbatim>\<open>debug_strings\<close>.\<close>

theorem display_error_info_reports:
  assumes "\<forall>s \<in> {cond, n_v1, n_v2, n_v3, file_name}. short_text s"
  shows "display_error_info cond e n_v1 v1 n_v2 v2 n_v3 v3 file_name line_no =
     (if 0 \<le> e \<and> e < 10 then Ret (fault_text cond (nat e) n_v1 v1 n_v2 v2 n_v3 v3 file_name line_no) else Trap)"
proof (cases "0 \<le> e \<and> e < 10")
  case True
  then have "debug_strings ! nat e \<in> set debug_strings" by (intro nth_mem) (simp add: debug_strings_def nat_less_iff)
  then have d: "short_text (debug_strings ! nat e)" using debug_strings_short by blast
  have l: "int (length debug_strings) = 10" by (simp add: debug_strings_def)
  have s: "short_text cond" "short_text n_v1" "short_text n_v2" "short_text n_v3" "short_text file_name" using assms by auto
  show ?thesis using True
    unfolding display_error_info_def l fault_text_def
    by (simp add: fault_prints(1-3) fault_prints(5) fault_prints(7) [OF d] fault_prints(6) [OF s(1)] fault_prints(4) [OF s(5)] fault_value_prints(1) [OF s(2)]
        fault_value_prints(2) [OF s(3)] fault_value_prints(3) [OF s(4)])
qed (auto simp: display_error_info_def debug_strings_def)

theorem display_error_info_reports_witness:
  "display_error_info ''isr'' 8 ''(unsigned)isr'' 0 ''0'' 0 ''0'' 0 ''isr.c'' 53 =
     Ret (fault_text ''isr'' 8 ''(unsigned)isr'' 0 ''0'' 0 ''0'' 0 ''isr.c'' 53)"
  using display_error_info_reports [of "''isr''" "''(unsigned)isr''" "''0''" "''0''" "''isr.c''" 8 0 0 0 53]
  by (simp add: short_text_def)

end
