(* ===== verification/Paging.thy ===== *)
theory Paging
  imports Vsprintf
begin

text \<open>
  The first page tables (arch/i386/kernel/paging.c). The addresses of the two tables and of
  \<^verbatim>\<open>dummy_variable\<close>, which the linker places, are arguments; the control registers are values.
  \<open>mmu_walk\<close> is the processor's two level walk with 4 KB pages, against which the tables are read.
\<close>

record paging =
  page_directory :: "u32 list"
  page_table :: "u32 list"
  cr3 :: u32
  cr0 :: u32

text \<open>The sixteen identity entries of the loop, \<^verbatim>\<open>i\<close> from 0x100 to 0x10F, then the video page.\<close>

fun map_low_pages :: "nat list \<Rightarrow> u32 list \<Rightarrow> u32 list" where
  "map_low_pages [] pt = pt"
| "map_low_pages (i # is) pt = map_low_pages is (pt[i := push_bit 12 (of_nat i) OR 0x013])"

definition init_paging :: "u32 \<Rightarrow> u32 \<Rightarrow> u32 \<Rightarrow> u32 \<Rightarrow> (paging \<times> string) outcome" where
  "init_paging page_directory_addr page_table_addr dummy_variable_addr cr0_val =
     (let pd = replicate 1024 0;
          pt = replicate 1024 0;
          page_directory_index = unat (drop_bit 22 (dummy_variable_addr AND 0xFFC00000));
          pd = pd[page_directory_index := (page_table_addr AND 0xFFFFF000) OR 0x1B];
          pt = map_low_pages [0x100..<0x110] pt;
          pt = pt[184 := 0x000B801B]
      in obind (printk ''%x\<newline>'' [VInt page_directory_addr]) (\<lambda>(t, _).
           Ret (\<lparr>page_directory = pd, page_table = pt, cr3 = page_directory_addr, cr0 = cr0_val OR 0x80000000\<rparr>, t)))"

text \<open>The walk: the directory at \<open>cr3\<close>, then the one table at \<open>page_table_addr\<close>. A table anywhere
  else is memory the model does not have.\<close>

definition mmu_walk :: "u32 \<Rightarrow> paging \<Rightarrow> u32 \<Rightarrow> u32 option" where
  "mmu_walk page_table_addr p va =
     (if \<not> bit (cr0 p) 31 then Some va
      else let pde = page_directory p ! unat (drop_bit 22 va) in
        if \<not> bit pde 0 \<or> pde AND 0xFFFFF000 \<noteq> page_table_addr then None
        else let pte = page_table p ! unat (drop_bit 12 va AND 0x3FF) in
          if \<not> bit pte 0 then None else Some ((pte AND 0xFFFFF000) OR (va AND 0xFFF)))"

section \<open>The tables\<close>

lemma map_low_pages_nth:
  "j < length pt \<Longrightarrow> map_low_pages is pt ! j = (if j \<in> set is then push_bit 12 (of_nat j) OR 0x013 else pt ! j)"
  by (induction "is" arbitrary: pt) auto

lemma length_map_low_pages [simp]: "length (map_low_pages is pt) = length pt"
  by (induction "is" arbitrary: pt) auto

text \<open>The page that frame number \<open>f\<close> (the low ten bits) is mapped to: itself, when it is one of the
  sixteen pages from 1 MB on or the video page.\<close>

definition mapped_page :: "nat \<Rightarrow> bool" where
  "mapped_page f \<longleftrightarrow> 0x100 \<le> f \<and> f < 0x110 \<or> f = 0xB8"

definition paging_tables :: "u32 \<Rightarrow> nat \<Rightarrow> paging \<Rightarrow> bool" where
  "paging_tables page_table_addr pdi p \<longleftrightarrow>
     (\<forall>i < 1024. page_directory p ! i = (if i = pdi then page_table_addr OR 0x1B else 0)) \<and>
     (\<forall>j < 1024. page_table p ! j = (if j = 0xB8 then 0xB801B else if 0x100 \<le> j \<and> j < 0x110 then push_bit 12 (of_nat j) OR 0x13 else 0))"

lemma page_mask: "(0xFFFFF000 :: u32) = NOT (mask 12)" "(0xFFF :: u32) = mask 12" "(0x3FF :: u32) = mask 10"
  "(0xFFC00000 :: u32) = NOT (mask 22)"
  by (simp_all add: mask_eq_exp_minus_1)

lemma or_flags:
  assumes "g AND NOT (mask 12) = (0 :: u32)" and "f AND mask 12 = 0"
  shows "(f OR g) AND NOT (mask 12) = f" "bit (f OR g) 0 \<longleftrightarrow> bit g 0"
proof -
  have "(f OR g) AND NOT (mask 12) = f AND NOT (mask 12)"
    using assms(1) by (simp add: bit.conj_disj_distrib2)
  also have "\<dots> = (f AND NOT (mask 12)) OR (f AND mask 12)" by (simp add: assms(2))
  also have "\<dots> = f" by (rule bit_word_eqI) (auto simp: bit_simps)
  finally show "(f OR g) AND NOT (mask 12) = f" .
  have "\<not> bit (f AND mask 12) 0" unfolding assms(2) by simp
  then show "bit (f OR g) 0 \<longleftrightarrow> bit g 0" by (simp add: bit_simps)
qed

lemma init_paging_tables:
  assumes "page_table_addr AND 0xFFF = 0"
  shows "\<exists>p t. init_paging page_directory_addr page_table_addr dummy_variable_addr c = Ret (p, t) \<and>
     paging_tables page_table_addr (unat (drop_bit 22 dummy_variable_addr)) p \<and> cr3 p = page_directory_addr \<and> bit (cr0 p) 31"
proof -
  have "prints ''%x\<newline>'' [VInt page_directory_addr]"
    using prints_conv [of "''''" "''\<newline>''" "''''" "ConvX page_directory_addr"] by (simp add: short_text_def)
  then obtain t n where t: "printk ''%x\<newline>'' [VInt page_directory_addr] = Ret (t, n)" unfolding prints_def by auto
  have d: "drop_bit 22 (dummy_variable_addr AND 0xFFC00000) = drop_bit 22 dummy_variable_addr"
    unfolding page_mask by (rule bit_word_eqI) (auto simp: bit_simps dest: bit_imp_le_length)
  have f: "page_table_addr AND 0xFFFFF000 = page_table_addr"
    using or_flags(1) [of 0 page_table_addr] assms by (simp add: page_mask)
  have b: "bit (c OR 0x80000000) 31" by (simp add: bit_or_iff)
  show ?thesis unfolding init_paging_def Let_def d f t using b
    by (simp add: paging_tables_def nth_list_update map_low_pages_nth del: upt_rec_numeral)
qed

lemma walk_merge: "push_bit 12 (drop_bit 12 va AND 0x3FF) OR (va AND 0xFFF) = (va AND 0x3FFFFF :: u32)"
proof -
  have m: "(0x3FFFFF :: u32) = mask 22" by (simp add: mask_eq_exp_minus_1)
  show ?thesis unfolding page_mask m by (rule bit_word_eqI) (auto simp: bit_simps le_imp_diff_is_add)
qed

lemma pte_frame:
  "(push_bit 12 w OR 0x13) AND 0xFFFFF000 = (push_bit 12 w :: u32)" "bit (push_bit 12 w OR 0x13 :: u32) 0"
proof -
  have z: "(0x13 :: u32) AND NOT (mask 12) = 0" by (simp add: mask_eq_exp_minus_1)
  have w: "push_bit 12 w AND mask 12 = (0 :: u32)" by (rule bit_word_eqI) (auto simp: bit_simps)
  show "(push_bit 12 w OR 0x13) AND 0xFFFFF000 = (push_bit 12 w :: u32)" "bit (push_bit 12 w OR 0x13 :: u32) 0"
    using or_flags [OF z w] unfolding page_mask by simp_all
qed

lemma walk_of_tables:
  assumes t: "paging_tables pt (unat (drop_bit 22 d)) p" and on: "bit (cr0 p) 31" and al: "pt AND 0xFFF = 0"
  shows "mmu_walk pt p va =
     (if drop_bit 22 va = drop_bit 22 d \<and> mapped_page (unat (drop_bit 12 va AND 0x3FF)) then Some (va AND 0x3FFFFF) else None)"
proof -
  let ?j = "unat (drop_bit 12 va AND 0x3FF)"
  have i: "unat (drop_bit 22 va) < 1024"
    using unat_u32_less [of va] by (simp add: unsigned_drop_bit_eq drop_bit_eq_div unat_div_word)
  have j: "?j < 1024"
  proof -
    have "?j = take_bit 10 (unat (drop_bit 12 va))" unfolding page_mask take_bit_eq_mask [symmetric] by (simp add: unsigned_take_bit_eq)
    then show ?thesis using take_bit_nat_less_exp [of 10 "unat (drop_bit 12 va)"] by simp
  qed
  have z: "(0x1B :: u32) AND NOT (mask 12) = 0" by (simp add: mask_eq_exp_minus_1)
  have pde: "(pt OR 0x1B) AND 0xFFFFF000 = pt" "bit (pt OR 0x1B) 0"
    using or_flags [OF z, of pt] al unfolding page_mask by simp_all
  have vid: "(0xB801B :: u32) AND 0xFFFFF000 = push_bit 12 0xB8" "bit (0xB801B :: u32) 0" by simp_all
  have merge: "push_bit 12 (of_nat ?j) OR (va AND 0xFFF) = va AND 0x3FFFFF" using walk_merge [of va] by simp
  show ?thesis
  proof (cases "drop_bit 22 va = drop_bit 22 d")
    case False
    then have "unat (drop_bit 22 va) \<noteq> unat (drop_bit 22 d)" by (simp add: word_unat_eq_iff)
    then have "page_directory p ! unat (drop_bit 22 va) = 0" using t i by (simp add: paging_tables_def)
    then show ?thesis using False on by (simp add: mmu_walk_def)
  next
    case True
    then have e: "page_directory p ! unat (drop_bit 22 va) = pt OR 0x1B" using t i by (simp add: paging_tables_def)
    consider "?j = 0xB8" | "0x100 \<le> ?j \<and> ?j < 0x110" | "\<not> mapped_page ?j" unfolding mapped_page_def by blast
    then show ?thesis
    proof cases
      case 1
      then have "of_nat ?j = (0xB8 :: u32)" by simp
      then have "push_bit 12 0xB8 OR (va AND 0xFFF) = va AND 0x3FFFFF" using merge by (simp only:)
      moreover have "page_table p ! ?j = 0xB801B" using t 1 by (simp add: paging_tables_def)
      ultimately show ?thesis unfolding mmu_walk_def Let_def e pde using 1 True on vid pde by (simp add: mapped_page_def)
    next
      case 2
      have e2: "page_table p ! ?j = push_bit 12 (of_nat ?j) OR 0x13" using t 2 by (simp add: paging_tables_def)
      then show ?thesis unfolding mmu_walk_def Let_def e e2 pte_frame merge using 2 True on pde pte_frame(2) [of "of_nat ?j"] by (simp add: mapped_page_def)
    next
      case 3
      then have "page_table p ! ?j = 0" using t j unfolding paging_tables_def mapped_page_def by metis
      then show ?thesis unfolding mmu_walk_def Let_def e pde using 3 True on pde by simp
    qed
  qed
qed

text \<open>C40. init_paging turns paging on with tables under which exactly the sixteen pages from 1 MB on
  and the video page, of the 4 MB region that holds \<^verbatim>\<open>dummy_variable\<close>, are present; each is mapped
  to its offset in the first 4 MB, so the kernel's own addresses stay as they are when it is linked
  below 4 MB. Every other address faults.\<close>

theorem init_paging_maps_kernel_and_video:
  assumes "page_table_addr AND 0xFFF = 0"
  shows "\<exists>p t. init_paging page_directory_addr page_table_addr dummy_variable_addr c = Ret (p, t) \<and>
     cr3 p = page_directory_addr \<and>
     (\<forall>va. mmu_walk page_table_addr p va =
        (if drop_bit 22 va = drop_bit 22 dummy_variable_addr \<and> mapped_page (unat (drop_bit 12 va AND 0x3FF))
         then Some (va AND 0x3FFFFF) else None))"
  using init_paging_tables [OF assms, where page_directory_addr = page_directory_addr and dummy_variable_addr = dummy_variable_addr and c = c]
    walk_of_tables [OF _ _ assms] by blast

theorem init_paging_maps_kernel_and_video_witness:
  "\<exists>p t. init_paging 0x105000 0x104000 0x106004 0x11 = Ret (p, t) \<and> mmu_walk 0x104000 p 0xB8FA0 = Some 0xB8FA0 \<and>
     mmu_walk 0x104000 p 0x10FFFF = Some 0x10FFFF \<and> mmu_walk 0x104000 p 0x110000 = None"
proof -
  have a: "(0x104000 :: u32) AND 0xFFF = 0" by simp
  obtain p t where p: "init_paging 0x105000 0x104000 0x106004 0x11 = Ret (p, t)"
    and w: "\<And>va. mmu_walk 0x104000 p va =
        (if drop_bit 22 va = drop_bit 22 (0x106004 :: u32) \<and> mapped_page (unat (drop_bit 12 va AND 0x3FF))
         then Some (va AND 0x3FFFFF) else None)"
    using init_paging_maps_kernel_and_video [OF a, where page_directory_addr = "0x105000" and dummy_variable_addr = "0x106004" and c = "0x11"] by blast
  show ?thesis using p by (auto simp: w mapped_page_def)
qed

end
