(* ===== verification/AcpiBase.thy ===== *)
theory AcpiBase
  imports Prelude
begin

text \<open>
  What the models of the ACPI component architecture (lib/acpi/components) share: its status codes
  (include/acpi/acexcep.h), the result of a call that ends with a status, and 64-bit values in two
  halves. A call that returns a status other than AE_OK and stores nothing is \<open>Inl\<close> of the
  status; one that returns AE_OK is \<open>Inr\<close> of what it stores.
\<close>

type_synonym ACPI_STATUS = u32

definition AE_OK :: ACPI_STATUS where "AE_OK = 0"
definition AE_NO_MEMORY :: ACPI_STATUS where "AE_NO_MEMORY = 0x0004"
definition AE_NOT_FOUND :: ACPI_STATUS where "AE_NOT_FOUND = 0x0005"
definition AE_ALREADY_EXISTS :: ACPI_STATUS where "AE_ALREADY_EXISTS = 0x0007"
definition AE_LIMIT :: ACPI_STATUS where "AE_LIMIT = 0x0010"
definition AE_ACQUIRE_DEADLOCK :: ACPI_STATUS where "AE_ACQUIRE_DEADLOCK = 0x0012"
definition AE_NOT_ACQUIRED :: ACPI_STATUS where "AE_NOT_ACQUIRED = 0x0014"
definition AE_ALREADY_ACQUIRED :: ACPI_STATUS where "AE_ALREADY_ACQUIRED = 0x0015"
definition AE_BAD_PARAMETER :: ACPI_STATUS where "AE_BAD_PARAMETER = 0x1001"

section \<open>What a call can return\<close>

text \<open>\<open>returns P m\<close>: if the call returns, its result has \<open>P\<close>.\<close>

named_theorems returns_intros \<open>what a call can return, from its parts\<close>

definition returns :: "('a \<Rightarrow> bool) \<Rightarrow> 'a outcome \<Rightarrow> bool" where
  "returns P m \<longleftrightarrow> (\<forall>x. m = Ret x \<longrightarrow> P x)"

lemma returnsD: "returns P m \<Longrightarrow> m = Ret x \<Longrightarrow> P x"
  by (simp add: returns_def)

lemma returns_done [returns_intros]: "P x \<Longrightarrow> returns P (Ret x)" "returns P Trap" "returns P Hang"
  by (simp_all add: returns_def)

lemma returns_bind: "(\<And>x. m = Ret x \<Longrightarrow> returns P (f x)) \<Longrightarrow> returns P (obind m f)"
  by (auto simp: returns_def obind_eq_Ret)

lemma returns_seq [returns_intros]: "(\<And>x. returns P (f x)) \<Longrightarrow> returns P (obind m f)"
  by (simp add: returns_bind)

section \<open>Halves of a 64-bit value\<close>

definition full64 :: "u32 \<times> u32 \<Rightarrow> u64" where
  "full64 p = push_bit 32 (ucast (fst p)) OR ucast (snd p)"

definition hi32 :: "u64 \<Rightarrow> u32" where "hi32 w = ucast (drop_bit 32 w)"
definition lo32 :: "u64 \<Rightarrow> u32" where "lo32 w = ucast w"

lemma unat_u64_less: "unat (w :: u64) < 18446744073709551616"
  using unsigned_less [of w] by simp

lemma unat_hi32: "unat (hi32 w) = unat w div 4294967296"
proof -
  have "unat w div 4294967296 < 4294967296"
    using unat_u64_less [of w] by (simp add: div_less_iff_less_mult)
  then show ?thesis
    by (simp add: hi32_def unsigned_ucast_eq unsigned_drop_bit_eq drop_bit_eq_div unat_div take_bit_nat_eq_self)
qed

lemma unat_lo32: "unat (lo32 w) = unat w mod 4294967296"
  by (simp add: lo32_def unsigned_ucast_eq take_bit_eq_mod)

lemma unat_full64: "unat (full64 (h, l)) = unat h * 4294967296 + unat l"
proof -
  have "push_bit 32 (ucast h :: u64) OR ucast l = push_bit 32 (ucast h) + ucast l"
    by (rule disjunctive_add [symmetric]) (auto simp: bit_simps dest: bit_imp_le_length)
  moreover have "unat h * 4294967296 + unat l < 18446744073709551616"
    using unat_u32_less [of h] unat_u32_less [of l] by linarith
  moreover have "unat (ucast h :: u64) = unat h" "unat (ucast l :: u64) = unat l"
    using unat_u32_less [of h] unat_u32_less [of l] by (simp_all add: unsigned_ucast_eq take_bit_nat_eq_self)
  ultimately show ?thesis
    by (simp add: full64_def unat_word_ariths push_bit_eq_mult mult.commute)
qed

lemma halves: "full64 (hi32 w, lo32 w) = w"
  by (simp add: word_unat_eq_iff unat_full64 unat_hi32 unat_lo32)

lemma hi32_full64 [simp]: "hi32 (full64 (h, l)) = h" and lo32_full64 [simp]: "lo32 (full64 (h, l)) = l"
  using unat_u32_less [of l] by (simp_all add: word_unat_eq_iff unat_full64 unat_hi32 unat_lo32)

end
