(* ===== verification/AcpiTables.thy ===== *)
theory AcpiTables
  imports AcpiBase CString
begin

text \<open>
  Finding and registering the ACPI tables (lib/acpi/components/tables, called by \<open>init_acpi\<close> of
  arch/i386/kernel/ganoid-acpi.c): the search for the root pointer, the root table, the table
  array, the fixed table (FADT) and the search of the array. Memory is the flat memory of the C
  string routines, a mapped pointer is the physical address. The data of the subsystem (the table
  array, the local copy of the FADT) does not lie in the memory the firmware's tables are in.
  Messages are left out: their output function is disabled in the service layer. The service
  layer (lib/acpi/service-layer/osunixxf.c, include/acpi/platform/acganoid.h) is a record, so that
  the operations are also defined for a complete one.
\<close>

definition AE_SUPPORT :: ACPI_STATUS where "AE_SUPPORT = 0x000F"
definition AE_BAD_SIGNATURE :: ACPI_STATUS where "AE_BAD_SIGNATURE = 0x2001"
definition AE_BAD_CHECKSUM :: ACPI_STATUS where "AE_BAD_CHECKSUM = 0x2003"
definition AE_INVALID_TABLE_LENGTH :: ACPI_STATUS where "AE_INVALID_TABLE_LENGTH = 0x2005"

section \<open>Reading structures\<close>

definition le16 :: "u8 \<Rightarrow> u8 \<Rightarrow> u16" where "le16 b0 b1 = ucast b0 OR push_bit 8 (ucast b1)"
definition le32 :: "u16 \<Rightarrow> u16 \<Rightarrow> u32" where "le32 l h = ucast l OR push_bit 16 (ucast h)"

definition rd16 :: "('a::numeral \<Rightarrow> u8) \<Rightarrow> 'a \<Rightarrow> u16" where "rd16 m p = le16 (m p) (m (p + 1))"
definition rd32 :: "('a::numeral \<Rightarrow> u8) \<Rightarrow> 'a \<Rightarrow> u32" where "rd32 m p = le32 (rd16 m p) (rd16 m (p + 2))"
definition rd64 :: "('a::numeral \<Rightarrow> u8) \<Rightarrow> 'a \<Rightarrow> u64" where "rd64 m p = full64 (rd32 m (p + 4), rd32 m p)"

text \<open>A packed structure: its fields and their sizes, in order.\<close>

type_synonym layout = "(string \<times> nat) list"

primrec ACPI_OFFSET :: "layout \<Rightarrow> string \<Rightarrow> nat" where
  "ACPI_OFFSET [] f = 0"
| "ACPI_OFFSET (x # xs) f = (if fst x = f then 0 else snd x + ACPI_OFFSET xs f)"

definition sizeof :: "layout \<Rightarrow> nat" where "sizeof l = sum_list (map snd l)"

definition ACPI_TABLE_HEADER :: layout where
  "ACPI_TABLE_HEADER =
     [(''Signature'', 4), (''Length'', 4), (''Revision'', 1), (''Checksum'', 1), (''OemId'', 6),
      (''OemTableId'', 8), (''OemRevision'', 4), (''AslCompilerId'', 4), (''AslCompilerRevision'', 4)]"

definition ACPI_TABLE_RSDP :: layout where
  "ACPI_TABLE_RSDP =
     [(''Signature'', 8), (''Checksum'', 1), (''OemId'', 6), (''Revision'', 1), (''RsdtPhysicalAddress'', 4),
      (''Length'', 4), (''XsdtPhysicalAddress'', 8), (''ExtendedChecksum'', 1), (''Reserved'', 3)]"

definition ACPI_GENERIC_ADDRESS :: layout where
  "ACPI_GENERIC_ADDRESS =
     [(''SpaceId'', 1), (''BitWidth'', 1), (''BitOffset'', 1), (''AccessWidth'', 1), (''Address'', 8)]"

definition ACPI_TABLE_FADT :: layout where
  "ACPI_TABLE_FADT =
     [(''Header'', sizeof ACPI_TABLE_HEADER), (''Facs'', 4), (''Dsdt'', 4), (''Model'', 1), (''PreferredProfile'', 1),
      (''SciInterrupt'', 2), (''SmiCommand'', 4), (''AcpiEnable'', 1), (''AcpiDisable'', 1), (''S4BiosRequest'', 1),
      (''PstateControl'', 1), (''Pm1aEventBlock'', 4), (''Pm1bEventBlock'', 4), (''Pm1aControlBlock'', 4),
      (''Pm1bControlBlock'', 4), (''Pm2ControlBlock'', 4), (''PmTimerBlock'', 4), (''Gpe0Block'', 4), (''Gpe1Block'', 4),
      (''Pm1EventLength'', 1), (''Pm1ControlLength'', 1), (''Pm2ControlLength'', 1), (''PmTimerLength'', 1),
      (''Gpe0BlockLength'', 1), (''Gpe1BlockLength'', 1), (''Gpe1Base'', 1), (''CstControl'', 1), (''C2Latency'', 2),
      (''C3Latency'', 2), (''FlushSize'', 2), (''FlushStride'', 2), (''DutyOffset'', 1), (''DutyWidth'', 1),
      (''DayAlarm'', 1), (''MonthAlarm'', 1), (''Century'', 1), (''BootFlags'', 2), (''Reserved'', 1), (''Flags'', 4),
      (''ResetRegister'', sizeof ACPI_GENERIC_ADDRESS), (''ResetValue'', 1), (''Reserved4'', 3), (''XFacs'', 8), (''XDsdt'', 8),
      (''XPm1aEventBlock'', sizeof ACPI_GENERIC_ADDRESS), (''XPm1bEventBlock'', sizeof ACPI_GENERIC_ADDRESS),
      (''XPm1aControlBlock'', sizeof ACPI_GENERIC_ADDRESS), (''XPm1bControlBlock'', sizeof ACPI_GENERIC_ADDRESS),
      (''XPm2ControlBlock'', sizeof ACPI_GENERIC_ADDRESS), (''XPmTimerBlock'', sizeof ACPI_GENERIC_ADDRESS),
      (''XGpe0Block'', sizeof ACPI_GENERIC_ADDRESS), (''XGpe1Block'', sizeof ACPI_GENERIC_ADDRESS),
      (''SleepControl'', sizeof ACPI_GENERIC_ADDRESS), (''SleepStatus'', sizeof ACPI_GENERIC_ADDRESS)]"

lemma table_sizes: "sizeof ACPI_TABLE_HEADER = 36" "sizeof ACPI_TABLE_RSDP = 36" "sizeof ACPI_GENERIC_ADDRESS = 12"
  "sizeof ACPI_TABLE_FADT = 268"
  by (simp_all add: sizeof_def ACPI_TABLE_HEADER_def ACPI_TABLE_RSDP_def ACPI_GENERIC_ADDRESS_def ACPI_TABLE_FADT_def)

text \<open>A field of a structure in memory.\<close>

definition fld :: "layout \<Rightarrow> string \<Rightarrow> u32" where "fld l f = of_nat (ACPI_OFFSET l f)"

lemma header_fields: "fld ACPI_TABLE_HEADER ''Signature'' = 0" "fld ACPI_TABLE_HEADER ''Length'' = 4"
  "fld ACPI_TABLE_HEADER ''Revision'' = 8" "fld ACPI_TABLE_HEADER ''Checksum'' = 9"
  "fld ACPI_TABLE_HEADER ''OemId'' = 10" "fld ACPI_TABLE_HEADER ''OemTableId'' = 16"
  by (simp_all add: fld_def ACPI_TABLE_HEADER_def)

lemma rsdp_fields: "fld ACPI_TABLE_RSDP ''Revision'' = 15" "fld ACPI_TABLE_RSDP ''RsdtPhysicalAddress'' = 16"
  "fld ACPI_TABLE_RSDP ''XsdtPhysicalAddress'' = 24"
  by (simp_all add: fld_def ACPI_TABLE_RSDP_def)

section \<open>The root pointer\<close>

definition ACPI_EBDA_PTR_LOCATION :: u32 where "ACPI_EBDA_PTR_LOCATION = 0x40E"
definition ACPI_EBDA_WINDOW_SIZE :: u32 where "ACPI_EBDA_WINDOW_SIZE = 1024"
definition ACPI_HI_RSDP_WINDOW_BASE :: u32 where "ACPI_HI_RSDP_WINDOW_BASE = 0xE0000"
definition ACPI_HI_RSDP_WINDOW_SIZE :: u32 where "ACPI_HI_RSDP_WINDOW_SIZE = 0x20000"
definition ACPI_RSDP_SCAN_STEP :: nat where "ACPI_RSDP_SCAN_STEP = 16"
definition ACPI_RSDP_CHECKSUM_LENGTH :: u32 where "ACPI_RSDP_CHECKSUM_LENGTH = 20"
definition ACPI_RSDP_XCHECKSUM_LENGTH :: u32 where "ACPI_RSDP_XCHECKSUM_LENGTH = 36"

text \<open>The length is the number of bytes that are left before the end of the buffer.\<close>

primrec checksum_loop :: "mem \<Rightarrow> u32 \<Rightarrow> nat \<Rightarrow> u8 \<Rightarrow> u8" where
  "checksum_loop m Buffer 0 s = s"
| "checksum_loop m Buffer (Suc k) s = checksum_loop m (Buffer + 1) k (s + m Buffer)"

definition AcpiTbChecksum :: "mem \<Rightarrow> u32 \<Rightarrow> u32 \<Rightarrow> u8" where
  "AcpiTbChecksum m Buffer Length = checksum_loop m Buffer (unat Length) 0"

text \<open>The comparison of \<open>strncmp\<close> with a literal, the list of its characters and the final NUL.\<close>

fun strncmp_lit :: "mem \<Rightarrow> u32 \<Rightarrow> u8 list \<Rightarrow> nat \<Rightarrow> int" where
  "strncmp_lit m s1 lit 0 = 0"
| "strncmp_lit m s1 [] (Suc k) = 0"
| "strncmp_lit m s1 (c # lit) (Suc k) =
     (let diff = sint (m s1) - sint c
      in if diff \<noteq> 0 then diff
         else if m s1 = 0 then 0
         else strncmp_lit m (s1 + 1) lit k)"

definition ACPI_SIG_RSDP :: "u8 list" where "ACPI_SIG_RSDP = [0x52, 0x53, 0x44, 0x20, 0x50, 0x54, 0x52, 0x20, 0]"

definition AcpiTbValidateRsdp :: "mem \<Rightarrow> u32 \<Rightarrow> ACPI_STATUS" where
  "AcpiTbValidateRsdp m Rsdp =
     (if strncmp_lit m Rsdp ACPI_SIG_RSDP (length ACPI_SIG_RSDP - 1) \<noteq> 0 then AE_BAD_SIGNATURE
      else if AcpiTbChecksum m Rsdp ACPI_RSDP_CHECKSUM_LENGTH \<noteq> 0 then AE_BAD_CHECKSUM
      else if m (Rsdp + fld ACPI_TABLE_RSDP ''Revision'') \<ge> 2 \<and> AcpiTbChecksum m Rsdp ACPI_RSDP_XCHECKSUM_LENGTH \<noteq> 0
      then AE_BAD_CHECKSUM
      else AE_OK)"

text \<open>\<open>i\<close> is \<^verbatim>\<open>MemRover - StartAddress\<close>.\<close>

function scan_loop :: "mem \<Rightarrow> u32 \<Rightarrow> nat \<Rightarrow> nat \<Rightarrow> u32 option" where
  "scan_loop m StartAddress Length i =
     (if i < Length
      then if AcpiTbValidateRsdp m (StartAddress + of_nat i) = AE_OK then Some (StartAddress + of_nat i)
           else scan_loop m StartAddress Length (i + ACPI_RSDP_SCAN_STEP)
      else None)"
  by pat_completeness auto
termination by (relation "measure (\<lambda>(m, s, n, i). n - i)") (auto simp: ACPI_RSDP_SCAN_STEP_def)

declare scan_loop.simps [simp del]

definition AcpiTbScanMemoryForRsdp :: "mem \<Rightarrow> u32 \<Rightarrow> u32 \<Rightarrow> u32 option" where
  "AcpiTbScanMemoryForRsdp m StartAddress Length = scan_loop m StartAddress (unat Length) 0"

text \<open>A mapping always succeeds, except that the pointer to address 0 is NULL.\<close>

definition AcpiOsMapMemory :: "u32 \<Rightarrow> u32 \<Rightarrow> u32" where "AcpiOsMapMemory addr len = addr"

definition AcpiFindRootPointer :: "mem \<Rightarrow> ACPI_STATUS + u32" where
  "AcpiFindRootPointer m =
     (let PhysicalAddress = push_bit 4 (ucast (rd16 m (AcpiOsMapMemory ACPI_EBDA_PTR_LOCATION 2)) :: u32);
          ebda = (if PhysicalAddress > 0x400
                  then AcpiTbScanMemoryForRsdp m (AcpiOsMapMemory PhysicalAddress ACPI_EBDA_WINDOW_SIZE) ACPI_EBDA_WINDOW_SIZE
                  else None)
      in case ebda of
           Some MemRover \<Rightarrow> Inr (PhysicalAddress + (MemRover - AcpiOsMapMemory PhysicalAddress ACPI_EBDA_WINDOW_SIZE))
         | None \<Rightarrow>
             (let TablePtr = AcpiOsMapMemory ACPI_HI_RSDP_WINDOW_BASE ACPI_HI_RSDP_WINDOW_SIZE
              in case AcpiTbScanMemoryForRsdp m TablePtr ACPI_HI_RSDP_WINDOW_SIZE of
                   Some MemRover \<Rightarrow> Inr (ACPI_HI_RSDP_WINDOW_BASE + (MemRover - TablePtr))
                 | None \<Rightarrow> Inl AE_NOT_FOUND))"

subsection \<open>What the search finds\<close>

definition bytes_sum :: "mem \<Rightarrow> u32 \<Rightarrow> nat \<Rightarrow> u8" where
  "bytes_sum m a n = sum_list (map (\<lambda>i. m (a + of_nat i)) [0..<n])"

lemma checksum_loop_sum: "checksum_loop m a n s = s + bytes_sum m a n"
proof (induction n arbitrary: a s)
  case (Suc n)
  have "bytes_sum m a (Suc n) = m a + bytes_sum m (a + 1) n"
    unfolding bytes_sum_def by (subst upt_conv_Cons, simp, subst map_Suc_upt [symmetric]) (simp add: o_def algebra_simps)
  then show ?case using Suc by (simp add: algebra_simps)
qed (simp add: bytes_sum_def)

lemma strncmp_lit_zero:
  "k \<le> length lit \<Longrightarrow> \<forall>i < k. lit ! i \<noteq> 0 \<Longrightarrow>
   strncmp_lit m a lit k = 0 \<longleftrightarrow> (\<forall>i < k. m (a + of_nat i) = lit ! i)"
proof (induction m a lit k rule: strncmp_lit.induct)
  case (3 m a c lit k)
  have c: "c \<noteq> 0" and r: "\<forall>i < k. lit ! i \<noteq> 0" using "3.prems" by force+
  have "(\<forall>i < Suc k. m (a + of_nat i) = (c # lit) ! i) \<longleftrightarrow> m a = c \<and> (\<forall>i < k. m (a + 1 + of_nat i) = lit ! i)"
    by (subst All_less_Suc2) (simp add: algebra_simps)
  then show ?case using 3 c r by (auto simp: Let_def)
qed simp_all

lemma strncmp_lit_is_strncmp: "cstr m s2 bs \<Longrightarrow> strncmp_lit m s1 (bs @ [0]) k = strncmp_loop m s1 s2 k"
proof (induction bs arbitrary: s1 s2 k)
  case Nil
  then show ?case by (cases k) (auto simp: Let_def)
next
  case (Cons b bs)
  then show ?case by (cases k) (auto simp: Let_def)
qed

definition valid_rsdp :: "mem \<Rightarrow> u32 \<Rightarrow> bool" where
  "valid_rsdp m a = ((\<forall>i < 8. m (a + of_nat i) = ACPI_SIG_RSDP ! i) \<and> bytes_sum m a 20 = 0 \<and>
     (m (a + 15) \<ge> 2 \<longrightarrow> bytes_sum m a 36 = 0))"

lemma validate_rsdp: "AcpiTbValidateRsdp m a = AE_OK \<longleftrightarrow> valid_rsdp m a"
proof -
  have "list_all (\<lambda>i. ACPI_SIG_RSDP ! i \<noteq> 0) [0..<8]" by code_simp
  then have nz: "\<forall>i < 8. ACPI_SIG_RSDP ! i \<noteq> 0" by (simp add: list_all_iff)
  have "strncmp_lit m a ACPI_SIG_RSDP 8 = 0 \<longleftrightarrow> (\<forall>i < 8. m (a + of_nat i) = ACPI_SIG_RSDP ! i)"
    by (rule strncmp_lit_zero [OF _ nz]) (simp add: ACPI_SIG_RSDP_def)
  moreover have "length ACPI_SIG_RSDP - 1 = 8" by (simp add: ACPI_SIG_RSDP_def)
  ultimately show ?thesis
    unfolding AcpiTbValidateRsdp_def valid_rsdp_def AcpiTbChecksum_def checksum_loop_sum rsdp_fields
    by (simp add: AE_OK_def AE_BAD_SIGNATURE_def AE_BAD_CHECKSUM_def ACPI_RSDP_CHECKSUM_LENGTH_def ACPI_RSDP_XCHECKSUM_LENGTH_def)
qed

text \<open>The paragraphs of a window of \<open>n\<close> bytes.\<close>

definition paragraphs :: "u32 \<Rightarrow> nat \<Rightarrow> u32 list" where
  "paragraphs a n = map (\<lambda>k. a + of_nat (16 * k)) [0..<n div 16]"

lemma scan_loop_find:
  "n = 16 * q \<Longrightarrow> k \<le> q \<Longrightarrow> scan_loop m a n (16 * k) = find (valid_rsdp m) (map (\<lambda>k. a + of_nat (16 * k)) [k..<q])"
proof (induction "q - k" arbitrary: k)
  case 0
  then show ?case by (subst scan_loop.simps) simp
next
  case (Suc d)
  then have "k < q" by simp
  then have u: "[k..<q] = k # [Suc k..<q]" by (rule upt_conv_Cons)
  have "scan_loop m a n (16 * Suc k) = find (valid_rsdp m) (map (\<lambda>k. a + of_nat (16 * k)) [Suc k..<q])"
    using Suc by (intro Suc.hyps) simp_all
  then have "scan_loop m a n (16 * k + ACPI_RSDP_SCAN_STEP) = find (valid_rsdp m) (map (\<lambda>k. a + of_nat (16 * k)) [Suc k..<q])"
    by (simp add: ACPI_RSDP_SCAN_STEP_def add.commute)
  then show ?case using \<open>k < q\<close> Suc.prems(1) unfolding u by (subst scan_loop.simps) (simp add: validate_rsdp)
qed

lemma scan_paragraphs: "16 dvd n \<Longrightarrow> scan_loop m a n 0 = find (valid_rsdp m) (paragraphs a n)"
  using scan_loop_find [of n "n div 16" 0 m a] by (simp add: paragraphs_def)

text \<open>The start of the extended BIOS data area, and where a root pointer may be.\<close>

definition ebda :: "mem \<Rightarrow> u32" where "ebda m = ucast (rd16 m 0x40E) * 16"

definition rsdp_places :: "mem \<Rightarrow> u32 list" where
  "rsdp_places m = (if ebda m > 0x400 then paragraphs (ebda m) 1024 else []) @ paragraphs 0xE0000 0x20000"

lemma find_root_pointer:
  "AcpiFindRootPointer m = (case find (valid_rsdp m) (rsdp_places m) of None \<Rightarrow> Inl AE_NOT_FOUND | Some a \<Rightarrow> Inr a)"
proof -
  have e: "push_bit 4 (ucast (rd16 m 0x40E)) = ebda m" by (simp add: ebda_def push_bit_eq_mult)
  have f: "find P (xs @ ys) = (case find P xs of None \<Rightarrow> find P ys | Some a \<Rightarrow> Some a)" for P :: "u32 \<Rightarrow> bool" and xs ys
    by (induction xs) auto
  show ?thesis
    unfolding AcpiFindRootPointer_def AcpiTbScanMemoryForRsdp_def AcpiOsMapMemory_def rsdp_places_def f
    by (auto simp: e scan_paragraphs ACPI_EBDA_PTR_LOCATION_def ACPI_EBDA_WINDOW_SIZE_def ACPI_HI_RSDP_WINDOW_BASE_def
        ACPI_HI_RSDP_WINDOW_SIZE_def Let_def split: option.split)
qed

text \<open>
  C19. The search for the root pointer returns the first paragraph of the extended BIOS data area
  and then of the BIOS window from E0000 to FFFFF that holds a valid root pointer, one with the
  signature, the checksum of 20 bytes and, from revision 2 on, the one of 36 bytes, and AE_NOT_FOUND
  exactly when none does.
\<close>

theorem root_pointer_found:
  "AcpiFindRootPointer m = (case find (valid_rsdp m) (rsdp_places m) of None \<Rightarrow> Inl AE_NOT_FOUND | Some a \<Rightarrow> Inr a)"
  by (rule find_root_pointer)

section \<open>The table array\<close>

record table_desc =
  td_Address :: u32
  td_Pointer :: u32
  td_Length :: u32
  td_Signature :: u32
  td_OwnerId :: u8
  td_Flags :: u8

definition ACPI_TABLE_ORIGIN_MAPPED :: u8 where "ACPI_TABLE_ORIGIN_MAPPED = 1"
definition ACPI_TABLE_ORIGIN_ALLOCATED :: u8 where "ACPI_TABLE_ORIGIN_ALLOCATED = 2"
definition ACPI_TABLE_ORIGIN_OVERRIDE :: u8 where "ACPI_TABLE_ORIGIN_OVERRIDE = 4"
definition ACPI_TABLE_ORIGIN_MASK :: u8 where "ACPI_TABLE_ORIGIN_MASK = 7"

definition ACPI_ROOT_ORIGIN_UNKNOWN :: u8 where "ACPI_ROOT_ORIGIN_UNKNOWN = 0"
definition ACPI_ROOT_ORIGIN_ALLOCATED :: u8 where "ACPI_ROOT_ORIGIN_ALLOCATED = 1"
definition ACPI_ROOT_ALLOW_RESIZE :: u8 where "ACPI_ROOT_ALLOW_RESIZE = 2"
definition ACPI_TABLE_INDEX_DSDT :: u32 where "ACPI_TABLE_INDEX_DSDT = 0"
definition ACPI_TABLE_INDEX_FACS :: u32 where "ACPI_TABLE_INDEX_FACS = 1"
definition ACPI_ROOT_TABLE_SIZE_INCREMENT :: u32 where "ACPI_ROOT_TABLE_SIZE_INCREMENT = 4"

definition ACPI_SIG_DSDT :: u32 where "ACPI_SIG_DSDT = 0x54445344"
definition ACPI_SIG_FADT :: u32 where "ACPI_SIG_FADT = 0x50434146"
definition ACPI_SIG_FACS :: u32 where "ACPI_SIG_FACS = 0x53434146"

record generic_address =
  SpaceId :: u8
  BitWidth :: u8
  BitOffset :: u8
  AccessWidth :: u8
  Address :: u64

text \<open>
  The global data of the subsystem. \<open>Tables\<close> is \<open>None\<close> while the pointer to the array is NULL;
  \<open>FADT\<close> is the local copy, its bytes by their offset.
\<close>

record acpi =
  Tables :: "table_desc list option"
  CurrentTableCount :: u32
  MaxTableCount :: u32
  RootFlags :: u8
  FADT :: "nat \<Rightarrow> u8"
  ReducedHardware :: bool
  XPm1aStatus :: generic_address
  XPm1aEnable :: generic_address
  XPm1bStatus :: generic_address
  XPm1bEnable :: generic_address
  IntegerBitWidth :: u8
  IntegerNybbleWidth :: u8
  IntegerByteWidth :: u8

definition zero_desc :: table_desc where
  "zero_desc = \<lparr>td_Address = 0, td_Pointer = 0, td_Length = 0, td_Signature = 0, td_OwnerId = 0, td_Flags = 0\<rparr>"

text \<open>
  The services of the host: an allocation of zeroed memory, which may not return, and the two ways to
  override a table, the status and what is stored.
\<close>

record host =
  allocate_zeroed :: "u32 \<Rightarrow> u32 outcome"
  table_override :: "u32 \<Rightarrow> ACPI_STATUS \<times> u32"
  physical_override :: "u32 \<Rightarrow> ACPI_STATUS \<times> u32 \<times> u32"

text \<open>
  The one of Ganoid: \<open>acpi_os_allocate_zeroed\<close> prints a message and loops. \<open>AcpiOsTableOverride\<close>
  has no return statement, so its status is some value \<open>eax\<close>, and stores nothing behind the pointer,
  which its caller has set to NULL.
\<close>

definition acpi_os_allocate_zeroed :: "u32 \<Rightarrow> u32 outcome" where "acpi_os_allocate_zeroed sz = Hang"

definition AcpiOsTableOverride :: "ACPI_STATUS \<Rightarrow> u32 \<Rightarrow> ACPI_STATUS \<times> u32" where
  "AcpiOsTableOverride eax ExistingTable = (eax, 0)"

definition AcpiOsPhysicalTableOverride :: "u32 \<Rightarrow> ACPI_STATUS \<times> u32 \<times> u32" where
  "AcpiOsPhysicalTableOverride ExistingTable = (AE_SUPPORT, 0, 0)"

definition ganoid_host :: "ACPI_STATUS \<Rightarrow> host" where
  "ganoid_host eax = \<lparr>allocate_zeroed = acpi_os_allocate_zeroed, table_override = AcpiOsTableOverride eax,
     physical_override = AcpiOsPhysicalTableOverride\<rparr>"

definition AcpiTbDeleteTable :: "table_desc \<Rightarrow> table_desc" where
  "AcpiTbDeleteTable d =
     (if td_Pointer d = 0 then d
      else if td_Flags d AND ACPI_TABLE_ORIGIN_MASK = ACPI_TABLE_ORIGIN_MAPPED \<or>
              td_Flags d AND ACPI_TABLE_ORIGIN_MASK = ACPI_TABLE_ORIGIN_ALLOCATED
      then d\<lparr>td_Pointer := 0\<rparr>
      else d)"

definition AcpiTbTableOverride :: "host \<Rightarrow> mem \<Rightarrow> u32 \<Rightarrow> table_desc \<Rightarrow> u32 \<times> table_desc" where
  "AcpiTbTableOverride os m TableHeader d =
     (let finish = (\<lambda>NewTable NewAddress NewTableLength NewFlags.
            (NewTable, (AcpiTbDeleteTable d)\<lparr>td_Address := NewAddress, td_Pointer := NewTable,
               td_Length := NewTableLength, td_Flags := NewFlags\<rparr>));
          (Status, NewTable) = table_override os TableHeader
      in if Status = AE_OK \<and> NewTable \<noteq> 0
         then finish NewTable NewTable (rd32 m (NewTable + fld ACPI_TABLE_HEADER ''Length'')) ACPI_TABLE_ORIGIN_OVERRIDE
         else let (Status, NewAddress, NewTableLength) = physical_override os TableHeader
           in if Status = AE_OK \<and> NewAddress \<noteq> 0 \<and> NewTableLength \<noteq> 0
              then let NewTable = AcpiOsMapMemory NewAddress NewTableLength
                in if NewTable = 0 then (0, d) else finish NewTable NewAddress NewTableLength ACPI_TABLE_ORIGIN_MAPPED
              else (0, d))"

definition AcpiTbResizeRootTableList :: "host \<Rightarrow> acpi \<Rightarrow> (ACPI_STATUS \<times> acpi) outcome" where
  "AcpiTbResizeRootTableList os s =
     (if RootFlags s AND ACPI_ROOT_ALLOW_RESIZE = 0 then Ret (AE_SUPPORT, s)
      else obind (allocate_zeroed os ((MaxTableCount s + ACPI_ROOT_TABLE_SIZE_INCREMENT) * 20)) (\<lambda>p.
        if p = 0 then Ret (AE_NO_MEMORY, s)
        else let new = replicate (unat (MaxTableCount s + ACPI_ROOT_TABLE_SIZE_INCREMENT)) zero_desc
          in obind (case Tables s of
               None \<Rightarrow> Ret new
             | Some ts \<Rightarrow> if unat (MaxTableCount s) \<le> length ts \<and> unat (MaxTableCount s) \<le> length new
                 then Ret (take (unat (MaxTableCount s)) ts @ drop (unat (MaxTableCount s)) new) else Trap) (\<lambda>ts.
             Ret (AE_OK, s\<lparr>Tables := Some ts, MaxTableCount := MaxTableCount s + ACPI_ROOT_TABLE_SIZE_INCREMENT,
               RootFlags := RootFlags s OR ACPI_ROOT_ORIGIN_ALLOCATED\<rparr>))))"

text \<open>Reading and writing an element of the array.\<close>

definition get_table :: "acpi \<Rightarrow> u32 \<Rightarrow> table_desc outcome" where
  "get_table s i = (case Tables s of None \<Rightarrow> Trap | Some ts \<Rightarrow> if unat i < length ts then Ret (ts ! unat i) else Trap)"

definition put_table :: "u32 \<Rightarrow> table_desc \<Rightarrow> acpi \<Rightarrow> acpi outcome" where
  "put_table i d s = (case Tables s of None \<Rightarrow> Trap
     | Some ts \<Rightarrow> if unat i < length ts then Ret (s\<lparr>Tables := Some (ts[unat i := d])\<rparr>) else Trap)"

definition AcpiUtSetIntegerWidth :: "u8 \<Rightarrow> acpi \<Rightarrow> acpi" where
  "AcpiUtSetIntegerWidth Revision s =
     (if Revision < 2 then s\<lparr>IntegerBitWidth := 32, IntegerNybbleWidth := 8, IntegerByteWidth := 4\<rparr>
      else s\<lparr>IntegerBitWidth := 64, IntegerNybbleWidth := 16, IntegerByteWidth := 8\<rparr>)"

definition AcpiTbInstallTable :: "host \<Rightarrow> mem \<Rightarrow> u32 \<Rightarrow> u32 option \<Rightarrow> u32 \<Rightarrow> acpi \<Rightarrow> acpi outcome" where
  "AcpiTbInstallTable os m addr Signature TableIndex s =
     (if addr = 0 then Ret s
      else let Table = AcpiOsMapMemory addr (of_nat (sizeof ACPI_TABLE_HEADER)) in
        if Table = 0 then Ret s
        else if Signature \<noteq> None \<and> rd32 m Table \<noteq> the Signature then Ret s
        else obind (get_table s TableIndex) (\<lambda>d.
          let d = d\<lparr>td_Address := addr, td_Pointer := 0, td_Length := rd32 m (Table + fld ACPI_TABLE_HEADER ''Length''),
                td_Flags := ACPI_TABLE_ORIGIN_MAPPED, td_Signature := rd32 m Table\<rparr>;
              (Override, d) = AcpiTbTableOverride os m Table d;
              FinalTable = (if Override = 0 then Table else Override)
          in obind (put_table TableIndex d s) (\<lambda>s.
            let s = (if TableIndex = ACPI_TABLE_INDEX_DSDT
                     then AcpiUtSetIntegerWidth (m (FinalTable + fld ACPI_TABLE_HEADER ''Revision'')) s else s)
            in if FinalTable \<noteq> Table then put_table TableIndex (AcpiTbDeleteTable d) s else Ret s)))"

section \<open>The fixed table\<close>

definition ACPI_ADR_SPACE_SYSTEM_IO :: u8 where "ACPI_ADR_SPACE_SYSTEM_IO = 1"
definition ACPI_PM1_REGISTER_WIDTH :: u8 where "ACPI_PM1_REGISTER_WIDTH = 16"
definition ACPI_PM2_REGISTER_WIDTH :: u8 where "ACPI_PM2_REGISTER_WIDTH = 8"
definition ACPI_PM_TIMER_WIDTH :: u8 where "ACPI_PM_TIMER_WIDTH = 32"
definition ACPI_FADT_HW_REDUCED :: u32 where "ACPI_FADT_HW_REDUCED = 0x100000"

definition ACPI_FADT_OFFSET :: "string \<Rightarrow> nat" where "ACPI_FADT_OFFSET f = ACPI_OFFSET ACPI_TABLE_FADT f"

definition ACPI_FADT_V2_SIZE :: u32 where "ACPI_FADT_V2_SIZE = of_nat (ACPI_FADT_OFFSET ''Reserved4'' + 3)"

text \<open>Structures in the local copy.\<close>

definition wr16 :: "nat \<Rightarrow> u16 \<Rightarrow> (nat \<Rightarrow> u8) \<Rightarrow> nat \<Rightarrow> u8" where
  "wr16 p v f = f(p := ucast v, p + 1 := ucast (drop_bit 8 v))"

definition wr32 :: "nat \<Rightarrow> u32 \<Rightarrow> (nat \<Rightarrow> u8) \<Rightarrow> nat \<Rightarrow> u8" where
  "wr32 p v f = wr16 (p + 2) (ucast (drop_bit 16 v)) (wr16 p (ucast v) f)"

definition wr64 :: "nat \<Rightarrow> u64 \<Rightarrow> (nat \<Rightarrow> u8) \<Rightarrow> nat \<Rightarrow> u8" where
  "wr64 p v f = wr32 (p + 4) (hi32 v) (wr32 p (lo32 v) f)"

definition get_gas :: "(nat \<Rightarrow> u8) \<Rightarrow> nat \<Rightarrow> generic_address" where
  "get_gas f p = \<lparr>SpaceId = f p, BitWidth = f (p + 1), BitOffset = f (p + 2), AccessWidth = f (p + 3), Address = rd64 f (p + 4)\<rparr>"

definition put_gas :: "nat \<Rightarrow> generic_address \<Rightarrow> (nat \<Rightarrow> u8) \<Rightarrow> nat \<Rightarrow> u8" where
  "put_gas p g f = wr64 (p + 4) (Address g) (f(p := SpaceId g, p + 1 := BitWidth g, p + 2 := BitOffset g, p + 3 := AccessWidth g))"

text \<open>Every field of the structure is written.\<close>

definition AcpiTbInitGenericAddress :: "u8 \<Rightarrow> u8 \<Rightarrow> u64 \<Rightarrow> generic_address" where
  "AcpiTbInitGenericAddress Space ByteWidth Addr =
     \<lparr>SpaceId = Space, BitWidth = (if ByteWidth > 31 then 255 else ByteWidth * 8), BitOffset = 0, AccessWidth = 0, Address = Addr\<rparr>"

datatype fadt_type = ACPI_FADT_OPTIONAL | ACPI_FADT_REQUIRED | ACPI_FADT_SEPARATE_LENGTH

record fadt_info =
  fi_Address64 :: nat
  fi_Address32 :: nat
  fi_Length :: nat
  fi_DefaultLength :: u8
  fi_Type :: fadt_type

definition fadt_entry :: "string \<Rightarrow> string \<Rightarrow> string \<Rightarrow> u8 \<Rightarrow> fadt_type \<Rightarrow> fadt_info" where
  "fadt_entry x a l w t = \<lparr>fi_Address64 = ACPI_FADT_OFFSET x, fi_Address32 = ACPI_FADT_OFFSET a, fi_Length = ACPI_FADT_OFFSET l,
     fi_DefaultLength = w, fi_Type = t\<rparr>"

definition FadtInfoTable :: "fadt_info list" where
  "FadtInfoTable =
     [fadt_entry ''XPm1aEventBlock'' ''Pm1aEventBlock'' ''Pm1EventLength'' (ACPI_PM1_REGISTER_WIDTH * 2) ACPI_FADT_REQUIRED,
      fadt_entry ''XPm1bEventBlock'' ''Pm1bEventBlock'' ''Pm1EventLength'' (ACPI_PM1_REGISTER_WIDTH * 2) ACPI_FADT_OPTIONAL,
      fadt_entry ''XPm1aControlBlock'' ''Pm1aControlBlock'' ''Pm1ControlLength'' ACPI_PM1_REGISTER_WIDTH ACPI_FADT_REQUIRED,
      fadt_entry ''XPm1bControlBlock'' ''Pm1bControlBlock'' ''Pm1ControlLength'' ACPI_PM1_REGISTER_WIDTH ACPI_FADT_OPTIONAL,
      fadt_entry ''XPm2ControlBlock'' ''Pm2ControlBlock'' ''Pm2ControlLength'' ACPI_PM2_REGISTER_WIDTH ACPI_FADT_SEPARATE_LENGTH,
      fadt_entry ''XPmTimerBlock'' ''PmTimerBlock'' ''PmTimerLength'' ACPI_PM_TIMER_WIDTH ACPI_FADT_REQUIRED,
      fadt_entry ''XGpe0Block'' ''Gpe0Block'' ''Gpe0BlockLength'' 0 ACPI_FADT_SEPARATE_LENGTH,
      fadt_entry ''XGpe1Block'' ''Gpe1Block'' ''Gpe1BlockLength'' 0 ACPI_FADT_SEPARATE_LENGTH]"

text \<open>The body of the loop of the conversion.\<close>

definition expand_address :: "fadt_info \<Rightarrow> (nat \<Rightarrow> u8) \<Rightarrow> nat \<Rightarrow> u8" where
  "expand_address e f =
     (let Address32 = rd32 f (fi_Address32 e)
      in if Address32 \<noteq> 0
         then put_gas (fi_Address64 e) (AcpiTbInitGenericAddress ACPI_ADR_SPACE_SYSTEM_IO (f (fi_Length e)) (ucast Address32)) f
         else f)"

definition AcpiTbConvertFadt :: "(nat \<Rightarrow> u8) \<Rightarrow> nat \<Rightarrow> u8" where
  "AcpiTbConvertFadt f =
     (let o' = ACPI_FADT_OFFSET;
          f = (if rd64 f (o' ''XFacs'') = 0 then wr64 (o' ''XFacs'') (ucast (rd32 f (o' ''Facs''))) f else f);
          f = (if rd64 f (o' ''XDsdt'') = 0 then wr64 (o' ''XDsdt'') (ucast (rd32 f (o' ''Dsdt''))) f else f);
          f = (if rd32 f (ACPI_OFFSET ACPI_TABLE_HEADER ''Length'') \<le> ACPI_FADT_V2_SIZE
               then wr16 (o' ''BootFlags'') 0 (f(o' ''PreferredProfile'' := 0, o' ''PstateControl'' := 0, o' ''CstControl'' := 0)) else f);
          f = wr32 (ACPI_OFFSET ACPI_TABLE_HEADER ''Length'') (of_nat (sizeof ACPI_TABLE_FADT)) f
      in fold expand_address FadtInfoTable f)"

text \<open>The checks of the address and length fields only print; the addresses of the two tables are set.\<close>

definition AcpiTbValidateFadt :: "(nat \<Rightarrow> u8) \<Rightarrow> nat \<Rightarrow> u8" where
  "AcpiTbValidateFadt f =
     (let o' = ACPI_FADT_OFFSET;
          f = (if rd32 f (o' ''Facs'') \<noteq> 0 \<and> rd64 f (o' ''XFacs'') \<noteq> ucast (rd32 f (o' ''Facs''))
               then wr64 (o' ''XFacs'') (ucast (rd32 f (o' ''Facs''))) f else f)
      in if rd32 f (o' ''Dsdt'') \<noteq> 0 \<and> rd64 f (o' ''XDsdt'') \<noteq> ucast (rd32 f (o' ''Dsdt''))
         then wr64 (o' ''XDsdt'') (ucast (rd32 f (o' ''Dsdt''))) f else f)"

definition AcpiGbl_UseDefaultRegisterWidths :: bool where "AcpiGbl_UseDefaultRegisterWidths = True"

definition default_width :: "fadt_info \<Rightarrow> (nat \<Rightarrow> u8) \<Rightarrow> nat \<Rightarrow> u8" where
  "default_width e f =
     (let g = get_gas f (fi_Address64 e)
      in if Address g \<noteq> 0 \<and> fi_DefaultLength e > 0 \<and> fi_DefaultLength e \<noteq> BitWidth g
         then put_gas (fi_Address64 e) (g\<lparr>BitWidth := fi_DefaultLength e\<rparr>) f else f)"

text \<open>The half of an event block that \<open>RegisterNum\<close> selects, written to \<open>target\<close>.\<close>

definition pm1_register :: "(nat \<Rightarrow> u8) \<Rightarrow> string \<Rightarrow> u8 \<Rightarrow> u8 \<Rightarrow> generic_address \<Rightarrow> generic_address" where
  "pm1_register f source RegisterNum ByteWidth target =
     (let Source64 = get_gas f (ACPI_FADT_OFFSET source)
      in if Address Source64 \<noteq> 0
         then AcpiTbInitGenericAddress (SpaceId Source64) ByteWidth (Address Source64 + ucast RegisterNum * ucast ByteWidth)
         else target)"

definition AcpiTbSetupFadtRegisters :: "acpi \<Rightarrow> acpi" where
  "AcpiTbSetupFadtRegisters s =
     (let f = (if AcpiGbl_UseDefaultRegisterWidths then fold default_width FadtInfoTable (FADT s) else FADT s);
          w = drop_bit 4 (BitWidth (get_gas f (ACPI_FADT_OFFSET ''XPm1aEventBlock'')))
      in s\<lparr>FADT := f,
           XPm1aStatus := pm1_register f ''XPm1aEventBlock'' 0 w (XPm1aStatus s),
           XPm1aEnable := pm1_register f ''XPm1aEventBlock'' 1 w (XPm1aEnable s),
           XPm1bStatus := pm1_register f ''XPm1bEventBlock'' 0 w (XPm1bStatus s),
           XPm1bEnable := pm1_register f ''XPm1bEventBlock'' 1 w (XPm1bEnable s)\<rparr>)"

definition AcpiTbCreateLocalFadt :: "mem \<Rightarrow> u32 \<Rightarrow> u32 \<Rightarrow> acpi \<Rightarrow> acpi" where
  "AcpiTbCreateLocalFadt m Table Length s =
     (let n = min (unat Length) (sizeof ACPI_TABLE_FADT);
          f = (\<lambda>i. if i < n then m (Table + of_nat i) else 0);
          s = s\<lparr>ReducedHardware := rd32 f (ACPI_FADT_OFFSET ''Flags'') AND ACPI_FADT_HW_REDUCED \<noteq> 0\<rparr>
      in AcpiTbSetupFadtRegisters (s\<lparr>FADT := AcpiTbValidateFadt (AcpiTbConvertFadt f)\<rparr>))"

definition AcpiTbParseFadt :: "host \<Rightarrow> mem \<Rightarrow> u32 \<Rightarrow> acpi \<Rightarrow> acpi outcome" where
  "AcpiTbParseFadt os m TableIndex s =
     obind (get_table s TableIndex) (\<lambda>d.
     let Length = td_Length d; Table = AcpiOsMapMemory (td_Address d) Length
     in if Table = 0 then Ret s
        else let s = AcpiTbCreateLocalFadt m Table Length s
          in obind (AcpiTbInstallTable os m (ucast (rd64 (FADT s) (ACPI_FADT_OFFSET ''XDsdt''))) (Some ACPI_SIG_DSDT) ACPI_TABLE_INDEX_DSDT s) (\<lambda>s.
             if ReducedHardware s then Ret s
             else AcpiTbInstallTable os m (ucast (rd64 (FADT s) (ACPI_FADT_OFFSET ''XFacs''))) (Some ACPI_SIG_FACS) ACPI_TABLE_INDEX_FACS s))"

section \<open>The root table\<close>

definition AcpiTbVerifyChecksum :: "mem \<Rightarrow> u32 \<Rightarrow> u32 \<Rightarrow> ACPI_STATUS" where
  "AcpiTbVerifyChecksum m Table Length =
     (let ACPI_CHECKSUM_ABORT = False in
      if AcpiTbChecksum m Table Length \<noteq> 0 \<and> ACPI_CHECKSUM_ABORT then AE_BAD_CHECKSUM else AE_OK)"

definition AcpiTbGetRootTableEntry :: "mem \<Rightarrow> u32 \<Rightarrow> u32 \<Rightarrow> u32" where
  "AcpiTbGetRootTableEntry m TableEntry TableEntrySize =
     (if TableEntrySize = 4 then rd32 m TableEntry else ucast (rd64 m TableEntry))"

text \<open>The loop over the entries that are left; a failed resize leaves it.\<close>

primrec fill_entries :: "host \<Rightarrow> mem \<Rightarrow> u32 \<Rightarrow> u32 \<Rightarrow> nat \<Rightarrow> acpi \<Rightarrow> acpi outcome" where
  "fill_entries os m TableEntry TableEntrySize 0 s = Ret s"
| "fill_entries os m TableEntry TableEntrySize (Suc k) s =
     obind (if CurrentTableCount s \<ge> MaxTableCount s then AcpiTbResizeRootTableList os s else Ret (AE_OK, s)) (\<lambda>(Status, s).
     if Status \<noteq> AE_OK then Ret s
     else obind (get_table s (CurrentTableCount s)) (\<lambda>d.
       obind (put_table (CurrentTableCount s) (d\<lparr>td_Address := AcpiTbGetRootTableEntry m TableEntry TableEntrySize\<rparr>) s) (\<lambda>s.
       fill_entries os m (TableEntry + TableEntrySize) TableEntrySize k (s\<lparr>CurrentTableCount := CurrentTableCount s + 1\<rparr>))))"

text \<open>The examination of the headers of the entries from \<open>i\<close> on; it does not change their number.\<close>

primrec install_entries :: "host \<Rightarrow> mem \<Rightarrow> nat \<Rightarrow> nat \<Rightarrow> acpi \<Rightarrow> acpi outcome" where
  "install_entries os m i 0 s = Ret s"
| "install_entries os m i (Suc k) s =
     obind (get_table s (of_nat i)) (\<lambda>d.
     obind (AcpiTbInstallTable os m (td_Address d) None (of_nat i) s) (\<lambda>s.
     obind (get_table s (of_nat i)) (\<lambda>d.
     obind (if td_Signature d = ACPI_SIG_FADT then AcpiTbParseFadt os m (of_nat i) s else Ret s) (\<lambda>s.
     install_entries os m (Suc i) k s))))"

definition AcpiTbParseRootTable :: "host \<Rightarrow> mem \<Rightarrow> u32 \<Rightarrow> acpi \<Rightarrow> (ACPI_STATUS \<times> acpi) outcome" where
  "AcpiTbParseRootTable os m RsdpAddress s =
     (let Rsdp = AcpiOsMapMemory RsdpAddress (of_nat (sizeof ACPI_TABLE_RSDP)) in
      if Rsdp = 0 then Ret (AE_NO_MEMORY, s)
      else
        let Xsdt = rd64 m (Rsdp + fld ACPI_TABLE_RSDP ''XsdtPhysicalAddress'');
            (addr, TableEntrySize) =
              (if m (Rsdp + fld ACPI_TABLE_RSDP ''Revision'') > 1 \<and> Xsdt \<noteq> 0 then (ucast Xsdt, 8)
               else (rd32 m (Rsdp + fld ACPI_TABLE_RSDP ''RsdtPhysicalAddress''), 4));
            Table = AcpiOsMapMemory addr (of_nat (sizeof ACPI_TABLE_HEADER))
        in if Table = 0 then Ret (AE_NO_MEMORY, s)
           else let Length = rd32 m (Table + fld ACPI_TABLE_HEADER ''Length'') in
             if unat Length < sizeof ACPI_TABLE_HEADER then Ret (AE_INVALID_TABLE_LENGTH, s)
             else let Table = AcpiOsMapMemory addr Length in
               if Table = 0 then Ret (AE_NO_MEMORY, s)
               else let Status = AcpiTbVerifyChecksum m Table Length in
                 if Status \<noteq> AE_OK then Ret (Status, s)
                 else
                   let TableCount = (rd32 m (Table + fld ACPI_TABLE_HEADER ''Length'') - of_nat (sizeof ACPI_TABLE_HEADER)) div TableEntrySize
                   in obind (fill_entries os m (Table + of_nat (sizeof ACPI_TABLE_HEADER)) TableEntrySize (unat TableCount)
                               (s\<lparr>CurrentTableCount := 2\<rparr>)) (\<lambda>s.
                      obind (install_entries os m 2 (unat (CurrentTableCount s) - 2) s) (\<lambda>s. Ret (AE_OK, s))))"

section \<open>Start-up\<close>

definition AcpiAllocateRootTable :: "host \<Rightarrow> u32 \<Rightarrow> acpi \<Rightarrow> (ACPI_STATUS \<times> acpi) outcome" where
  "AcpiAllocateRootTable os InitialTableCount s =
     AcpiTbResizeRootTableList os (s\<lparr>MaxTableCount := InitialTableCount, RootFlags := ACPI_ROOT_ALLOW_RESIZE\<rparr>)"

text \<open>The status of the search is not looked at: without a root pointer the result is what the local variable held.\<close>

definition AcpiOsGetRootPointer :: "mem \<Rightarrow> u32 \<Rightarrow> u32" where
  "AcpiOsGetRootPointer m ptr = (case AcpiFindRootPointer m of Inl _ \<Rightarrow> ptr | Inr p \<Rightarrow> p)"

text \<open>\<open>ptr\<close> is the initial content of the variable of \<open>AcpiOsGetRootPointer\<close>.\<close>

definition AcpiInitializeTables ::
  "host \<Rightarrow> mem \<Rightarrow> u32 \<Rightarrow> bool \<Rightarrow> u32 \<Rightarrow> bool \<Rightarrow> acpi \<Rightarrow> (ACPI_STATUS \<times> acpi) outcome" where
  "AcpiInitializeTables os m ptr InitialTableArray InitialTableCount AllowResize s =
     obind (if \<not> InitialTableArray then AcpiAllocateRootTable os InitialTableCount s
       else Ret (AE_OK, s\<lparr>Tables := Some (replicate (unat InitialTableCount) zero_desc), MaxTableCount := InitialTableCount,
         RootFlags := (if AllowResize then ACPI_ROOT_ORIGIN_UNKNOWN OR ACPI_ROOT_ALLOW_RESIZE else ACPI_ROOT_ORIGIN_UNKNOWN)\<rparr>))
     (\<lambda>(Status, s). if Status \<noteq> AE_OK then Ret (Status, s)
       else let RsdpAddress = AcpiOsGetRootPointer m ptr
         in if RsdpAddress = 0 then Ret (AE_NOT_FOUND, s) else AcpiTbParseRootTable os m RsdpAddress s)"

definition ACPI_MAX_INIT_TABLES :: u32 where "ACPI_MAX_INIT_TABLES = 16"

definition init_acpi :: "ACPI_STATUS \<Rightarrow> mem \<Rightarrow> u32 \<Rightarrow> acpi \<Rightarrow> (int \<times> acpi) outcome" where
  "init_acpi eax m ptr s =
     obind (AcpiInitializeTables (ganoid_host eax) m ptr True ACPI_MAX_INIT_TABLES True s) (\<lambda>(Status, s).
     if Status \<noteq> 0 then Ret (- 1, s) else Ret (0, s))"

section \<open>Registering the tables\<close>

text \<open>A host that overrides no table.\<close>

locale table_host =
  fixes os :: host
  assumes no_logical: "snd (table_override os h) = 0"
    and no_physical: "fst (physical_override os h) \<noteq> AE_OK"
begin

lemma no_override: "AcpiTbTableOverride os m h d = (0, d)"
  using no_logical [of h] no_physical [of h]
  by (cases "table_override os h"; cases "physical_override os h") (simp add: AcpiTbTableOverride_def)

end

interpretation ganoid: table_host "ganoid_host eax"
  by unfold_locales
    (simp_all add: ganoid_host_def AcpiOsTableOverride_def AcpiOsPhysicalTableOverride_def AE_SUPPORT_def AE_OK_def)

text \<open>The descriptor of a table whose header is at an address.\<close>

definition installed :: "mem \<Rightarrow> u32 \<Rightarrow> table_desc \<Rightarrow> table_desc" where
  "installed m a d = (if a = 0 then d
     else d\<lparr>td_Address := a, td_Pointer := 0, td_Length := rd32 m (a + 4), td_Flags := ACPI_TABLE_ORIGIN_MAPPED, td_Signature := rd32 m a\<rparr>)"

text \<open>The table array keeps its length and its count, and the entries outside \<open>J\<close>.\<close>

definition tables_step :: "nat set \<Rightarrow> acpi \<Rightarrow> acpi \<Rightarrow> bool" where
  "tables_step J s s' = (\<exists>ts ts'. Tables s = Some ts \<and> Tables s' = Some ts' \<and> length ts' = length ts \<and>
     (\<forall>j. j \<notin> J \<longrightarrow> ts' ! j = ts ! j) \<and> CurrentTableCount s' = CurrentTableCount s \<and> MaxTableCount s' = MaxTableCount s \<and>
     RootFlags s' = RootFlags s)"

lemma tables_step_refl: "Tables s \<noteq> None \<Longrightarrow> tables_step J s s"
  by (auto simp: tables_step_def)

lemma tables_step_trans: "tables_step J s s' \<Longrightarrow> tables_step K s' s'' \<Longrightarrow> J \<subseteq> L \<Longrightarrow> K \<subseteq> L \<Longrightarrow> tables_step L s s''"
  unfolding tables_step_def by (elim exE conjE) (auto, metis subsetD)

lemma tables_stepD:
  "tables_step J s s' \<Longrightarrow> Tables s = Some ts \<Longrightarrow>
   \<exists>ts'. Tables s' = Some ts' \<and> length ts' = length ts \<and> (\<forall>j. j \<notin> J \<longrightarrow> ts' ! j = ts ! j) \<and>
     CurrentTableCount s' = CurrentTableCount s"
  by (auto simp: tables_step_def)

lemma width_tables [simp]: "Tables (AcpiUtSetIntegerWidth r s) = Tables s"
  "CurrentTableCount (AcpiUtSetIntegerWidth r s) = CurrentTableCount s" "MaxTableCount (AcpiUtSetIntegerWidth r s) = MaxTableCount s"
  "RootFlags (AcpiUtSetIntegerWidth r s) = RootFlags s" "FADT (AcpiUtSetIntegerWidth r s) = FADT s"
  "ReducedHardware (AcpiUtSetIntegerWidth r s) = ReducedHardware s"
  by (simp_all add: AcpiUtSetIntegerWidth_def)

context table_host
begin

lemma install_table:
  assumes "Tables s = Some ts" and "unat i < length ts"
  shows "\<exists>s'. AcpiTbInstallTable os m a sig i s = Ret s' \<and> tables_step {unat i} s s' \<and>
    Tables s' = Some (ts[unat i := if sig = None \<or> sig = Some (rd32 m a) then installed m a (ts ! unat i) else ts ! unat i])"
proof -
  have u: "(if i = ACPI_TABLE_INDEX_DSDT then AcpiUtSetIntegerWidth r t else t) = t \<or>
    (if i = ACPI_TABLE_INDEX_DSDT then AcpiUtSetIntegerWidth r t else t) = AcpiUtSetIntegerWidth r t" for r t by simp
  show ?thesis
    using assms u
    by (cases sig) (auto simp: AcpiTbInstallTable_def AcpiOsMapMemory_def no_override get_table_def put_table_def installed_def
        tables_step_def header_fields Let_def)
qed

lemma parse_fadt:
  assumes "Tables s = Some ts" and "unat i < length ts" and "2 \<le> length ts"
  shows "\<exists>s'. AcpiTbParseFadt os m i s = Ret s' \<and> tables_step {0, 1} s s'"
proof -
  have l: "Tables (AcpiTbCreateLocalFadt m t n s) = Some ts" "CurrentTableCount (AcpiTbCreateLocalFadt m t n s) = CurrentTableCount s"
    "MaxTableCount (AcpiTbCreateLocalFadt m t n s) = MaxTableCount s" "RootFlags (AcpiTbCreateLocalFadt m t n s) = RootFlags s" for t n
    using assms(1) by (simp_all add: AcpiTbCreateLocalFadt_def AcpiTbSetupFadtRegisters_def Let_def)
  define t where "t = AcpiTbCreateLocalFadt m (td_Address (ts ! unat i)) (td_Length (ts ! unat i)) s"
  have t: "tables_step {0, 1} s t" and tt: "Tables t = Some ts" using l assms(1) by (auto simp: t_def tables_step_def)
  obtain t1 where t1: "AcpiTbInstallTable os m (ucast (rd64 (FADT t) (ACPI_FADT_OFFSET ''XDsdt''))) (Some ACPI_SIG_DSDT) ACPI_TABLE_INDEX_DSDT t = Ret t1"
    and s1: "tables_step {0, 1} t t1"
    using install_table [OF tt, of ACPI_TABLE_INDEX_DSDT m _ "Some ACPI_SIG_DSDT"] assms(3)
    by (fastforce simp: ACPI_TABLE_INDEX_DSDT_def intro: tables_step_trans tables_step_refl)
  then obtain ts1 where ts1: "Tables t1 = Some ts1" "length ts1 = length ts" using tt tables_stepD by blast
  obtain t2 where t2: "AcpiTbInstallTable os m (ucast (rd64 (FADT t1) (ACPI_FADT_OFFSET ''XFacs''))) (Some ACPI_SIG_FACS) ACPI_TABLE_INDEX_FACS t1 = Ret t2"
    and s2: "tables_step {0, 1} t1 t2"
    using install_table [OF ts1(1), of ACPI_TABLE_INDEX_FACS m _ "Some ACPI_SIG_FACS"] assms(3) ts1
    by (fastforce simp: ACPI_TABLE_INDEX_FACS_def intro: tables_step_trans tables_step_refl)
  show ?thesis
  proof (cases "td_Address (ts ! unat i) = 0")
    case True
    then show ?thesis using assms by (simp add: AcpiTbParseFadt_def get_table_def AcpiOsMapMemory_def tables_step_refl)
  next
    case False
    then have "AcpiTbParseFadt os m i s = Ret (if ReducedHardware t1 then t1 else t2)"
      using assms t1 t2 by (simp add: AcpiTbParseFadt_def get_table_def AcpiOsMapMemory_def t_def Let_def)
    moreover have "tables_step {0, 1} s t1" using t s1 by (rule tables_step_trans) auto
    moreover have "tables_step {0, 1} s t2" using \<open>tables_step {0, 1} s t1\<close> s2 by (rule tables_step_trans) auto
    ultimately show ?thesis by auto
  qed
qed

end

context table_host
begin

lemma install_entries:
  assumes "Tables s = Some ts" and "2 \<le> i" and "i + k \<le> length ts" and "length ts < 4294967296"
  shows "\<exists>s' ts'. install_entries os m i k s = Ret s' \<and> Tables s' = Some ts' \<and> length ts' = length ts \<and>
    (\<forall>j. 2 \<le> j \<longrightarrow> ts' ! j = (if i \<le> j \<and> j < i + k then installed m (td_Address (ts ! j)) (ts ! j) else ts ! j)) \<and>
    CurrentTableCount s' = CurrentTableCount s"
  using assms
proof (induction k arbitrary: i s ts)
  case 0
  then show ?case by auto
next
  case (Suc k)
  have u: "unat (of_nat i :: u32) = i" using Suc.prems by (simp add: unat_of_nat_eq)
  let ?d = "ts ! i"
  let ?ts1 = "ts[i := installed m (td_Address ?d) ?d]"
  obtain s1 where s1: "AcpiTbInstallTable os m (td_Address ?d) None (of_nat i) s = Ret s1" "Tables s1 = Some ?ts1"
    and c1: "CurrentTableCount s1 = CurrentTableCount s"
    using install_table [OF Suc.prems(1), of "of_nat i" m "td_Address ?d" None] Suc.prems u
    by (auto simp: tables_step_def)
  obtain s2 where s2: "(if td_Signature (?ts1 ! i) = ACPI_SIG_FADT then AcpiTbParseFadt os m (of_nat i) s1 else Ret s1) = Ret s2"
    and st: "tables_step {0, 1} s1 s2"
    using parse_fadt [OF s1(2), of "of_nat i" m] Suc.prems s1(2) u
    by (cases "td_Signature (?ts1 ! i) = ACPI_SIG_FADT") (auto intro: tables_step_refl)
  obtain ts2 where ts2: "Tables s2 = Some ts2" "length ts2 = length ts" "\<And>j. 2 \<le> j \<Longrightarrow> ts2 ! j = ?ts1 ! j"
    and c2: "CurrentTableCount s2 = CurrentTableCount s"
    using tables_stepD [OF st s1(2)] c1 by auto
  obtain s' ts' where s': "install_entries os m (Suc i) k s2 = Ret s'" "Tables s' = Some ts'" "length ts' = length ts2"
    "\<And>j. 2 \<le> j \<Longrightarrow> ts' ! j = (if Suc i \<le> j \<and> j < Suc i + k then installed m (td_Address (ts2 ! j)) (ts2 ! j) else ts2 ! j)"
    "CurrentTableCount s' = CurrentTableCount s2"
    using Suc.IH [OF ts2(1), of "Suc i"] Suc.prems ts2(2) by auto
  have g: "get_table s (of_nat i) = Ret ?d" "get_table s1 (of_nat i) = Ret (?ts1 ! i)"
    using Suc.prems s1(2) u by (simp_all add: get_table_def)
  have "install_entries os m i (Suc k) s = Ret s'"
    unfolding install_entries.simps g obind_simps s1 s2 s'(1) ..
  moreover have "ts' ! j = (if i \<le> j \<and> j < i + Suc k then installed m (td_Address (ts ! j)) (ts ! j) else ts ! j)" if "2 \<le> j" for j
    using s'(4) [OF that] ts2(3) [OF that] Suc.prems(3) by (auto simp: nth_list_update)
  ultimately show ?case using s'(2,3,5) ts2(2) c2 by auto
qed

end

text \<open>The addresses in the root table, \<open>k\<close> entries from \<open>p\<close> on.\<close>

definition root_entries :: "mem \<Rightarrow> u32 \<Rightarrow> u32 \<Rightarrow> nat \<Rightarrow> u32 list" where
  "root_entries m p w k = map (\<lambda>j. AcpiTbGetRootTableEntry m (p + of_nat j * w) w) [0..<k]"

lemma root_entries_Suc: "root_entries m p w (Suc k) = AcpiTbGetRootTableEntry m p w # root_entries m (p + w) w k"
  unfolding root_entries_def by (subst upt_conv_Cons, simp, subst map_Suc_upt [symmetric]) (simp add: o_def algebra_simps)

lemma fill_entries:
  assumes "Tables s = Some ts" and "unat (CurrentTableCount s) = c" and "c + k \<le> unat (MaxTableCount s)" and "unat (MaxTableCount s) \<le> length ts"
  shows "\<exists>s' ts'. fill_entries os m p w k s = Ret s' \<and> Tables s' = Some ts' \<and> length ts' = length ts \<and>
    (\<forall>j. ts' ! j = (if c \<le> j \<and> j < c + k then (ts ! j)\<lparr>td_Address := root_entries m p w k ! (j - c)\<rparr> else ts ! j)) \<and>
    unat (CurrentTableCount s') = c + k"
  using assms
proof (induction k arbitrary: c p s ts)
  case 0
  then show ?case by auto
next
  case (Suc k)
  have lt: "CurrentTableCount s < MaxTableCount s" using Suc.prems by (simp add: word_less_nat_alt)
  let ?d = "(ts ! c)\<lparr>td_Address := AcpiTbGetRootTableEntry m p w\<rparr>"
  let ?s = "s\<lparr>Tables := Some (ts[c := ?d]), CurrentTableCount := CurrentTableCount s + 1\<rparr>"
  have cc: "unat (CurrentTableCount ?s) = Suc c" using unat_Suc_word [OF lt] Suc.prems(2) by simp
  obtain s' ts' where s': "fill_entries os m (p + w) w k ?s = Ret s'" "Tables s' = Some ts'" "length ts' = length ts"
    "\<And>j. ts' ! j = (if Suc c \<le> j \<and> j < Suc c + k then (ts[c := ?d] ! j)\<lparr>td_Address := root_entries m (p + w) w k ! (j - Suc c)\<rparr> else ts[c := ?d] ! j)"
    "unat (CurrentTableCount s') = Suc c + k"
    using Suc.IH [of ?s "ts[c := ?d]" "Suc c" "p + w"] Suc.prems(3,4) cc by auto
  have "fill_entries os m p w (Suc k) s = Ret s'"
    using lt Suc.prems s'(1) by (simp add: get_table_def put_table_def not_le [symmetric])
  moreover have "ts' ! j = (if c \<le> j \<and> j < c + Suc k then (ts ! j)\<lparr>td_Address := root_entries m p w (Suc k) ! (j - c)\<rparr> else ts ! j)" for j
  proof (cases "c < j")
    case True
    then have "j - c = Suc (j - Suc c)" by simp
    then show ?thesis using True s'(4) [of j] by (simp add: root_entries_Suc)
  next
    case False
    then show ?thesis using s'(4) [of j] Suc.prems(3,4) by (cases "j = c") (auto simp: root_entries_Suc nth_list_update)
  qed
  ultimately show ?case using s'(2,3,5) by auto
qed

text \<open>The entries of the root table that a root pointer leads to, when there is such a table.\<close>

definition root_table :: "mem \<Rightarrow> u32 \<Rightarrow> u32 list option" where
  "root_table m rsdp =
     (let x = rd64 m (rsdp + 24);
          w = (if m (rsdp + 15) > 1 \<and> x \<noteq> 0 then 8 else 4);
          a = (if w = 8 then ucast x else rd32 m (rsdp + 16));
          len = rd32 m (a + 4)
      in if a = 0 \<or> len < 36 then None else Some (root_entries m (a + 36) w (unat ((len - 36) div w))))"

text \<open>The registered state: the two slots of the fixed table's tables, then every entry of the root table.\<close>

definition registered :: "mem \<Rightarrow> u32 list \<Rightarrow> acpi \<Rightarrow> bool" where
  "registered m as s = (\<exists>ts. Tables s = Some ts \<and> unat (CurrentTableCount s) = length as + 2 \<and>
     (\<forall>j < length as. length as + 2 \<le> length ts \<and> ts ! (j + 2) = installed m (as ! j) zero_desc))"

lemma parse_root_table_eq:
  assumes r: "root_table m rsdp = Some as" and p: "rsdp \<noteq> 0"
  shows "\<exists>p w k. as = root_entries m p w k \<and> (\<forall>s. AcpiTbParseRootTable os m rsdp s =
    obind (fill_entries os m p w k (s\<lparr>CurrentTableCount := 2\<rparr>)) (\<lambda>s.
    obind (install_entries os m 2 (unat (CurrentTableCount s) - 2) s) (\<lambda>s. Ret (AE_OK, s))))"
proof -
  define c where "c \<longleftrightarrow> m (rsdp + 15) > 1 \<and> rd64 m (rsdp + 24) \<noteq> 0"
  define w :: u32 where "w = (if c then 8 else 4)"
  define a :: u32 where "a = (if c then ucast (rd64 m (rsdp + 24)) else rd32 m (rsdp + 16))"
  have r': "a \<noteq> 0 \<and> \<not> rd32 m (a + 4) < 36 \<and> as = root_entries m (a + 36) w (unat ((rd32 m (a + 4) - 36) div w))"
    using r unfolding root_table_def Let_def c_def [symmetric] a_def w_def by (cases c) (auto split: if_splits)
  moreover have "unat (rd32 m (a + 4)) \<ge> 36" using r' by (simp add: word_less_nat_alt not_less)
  moreover have "(if c then (ucast (rd64 m (rsdp + 24)), 8) else (rd32 m (rsdp + 16), 4)) = (a, w)" by (simp add: a_def w_def)
  ultimately have "AcpiTbParseRootTable os m rsdp s =
    obind (fill_entries os m (a + 36) w (unat ((rd32 m (a + 4) - 36) div w)) (s\<lparr>CurrentTableCount := 2\<rparr>)) (\<lambda>s.
    obind (install_entries os m 2 (unat (CurrentTableCount s) - 2) s) (\<lambda>s. Ret (AE_OK, s)))" for s
    using p
    unfolding AcpiTbParseRootTable_def AcpiOsMapMemory_def rsdp_fields header_fields table_sizes Let_def c_def [symmetric]
    by (simp add: AcpiTbVerifyChecksum_def)
  then show ?thesis using r' by blast
qed

context table_host
begin

lemma parse_root_table:
  assumes r: "root_table m rsdp = Some as" and p: "rsdp \<noteq> 0"
    and ts: "Tables s = Some (replicate n zero_desc)" and n: "length as + 2 \<le> n" "unat (MaxTableCount s) = n"
  shows "\<exists>s'. AcpiTbParseRootTable os m rsdp s = Ret (AE_OK, s') \<and> registered m as s'"
proof -
  obtain p w k where as: "as = root_entries m p w k" and eq: "\<And>s. AcpiTbParseRootTable os m rsdp s =
    obind (fill_entries os m p w k (s\<lparr>CurrentTableCount := 2\<rparr>)) (\<lambda>s.
    obind (install_entries os m 2 (unat (CurrentTableCount s) - 2) s) (\<lambda>s. Ret (AE_OK, s)))"
    using parse_root_table_eq [OF r p] by blast
  then have k: "length as = k" by (simp add: root_entries_def)
  have n32: "n < 4294967296" using n(2) unat_u32_less [of "MaxTableCount s"] by simp
  let ?s = "s\<lparr>CurrentTableCount := 2\<rparr>"
  obtain s1 ts1 where s1: "fill_entries os m p w k ?s = Ret s1" "Tables s1 = Some ts1" "length ts1 = n"
    "\<And>j. ts1 ! j = (if 2 \<le> j \<and> j < 2 + k then (replicate n zero_desc ! j)\<lparr>td_Address := as ! (j - 2)\<rparr> else replicate n zero_desc ! j)"
    and c1: "unat (CurrentTableCount s1) = 2 + k"
    using fill_entries [of ?s "replicate n zero_desc" 2 k os m p w] ts n k as by auto
  obtain s2 ts2 where s2: "install_entries os m 2 k s1 = Ret s2" "Tables s2 = Some ts2" "length ts2 = n"
    "\<And>j. 2 \<le> j \<Longrightarrow> ts2 ! j = (if j < 2 + k then installed m (td_Address (ts1 ! j)) (ts1 ! j) else ts1 ! j)"
    and c2: "CurrentTableCount s2 = CurrentTableCount s1"
    using install_entries [OF s1(2), of 2 k m] s1(3) n k n32 by auto
  have e: "ts2 ! (j + 2) = installed m (as ! j) zero_desc" if "j < k" for j
    using s2(4) [of "j + 2"] s1(4) [of "j + 2"] that n k by (auto simp: installed_def zero_desc_def)
  have "AcpiTbParseRootTable os m rsdp s = Ret (AE_OK, s2)" unfolding eq using s1(1) s2(1) c1 by simp
  moreover have "registered m as s2"
    unfolding registered_def using s2(2,3) c1 c2 k n(1) e by auto
  ultimately show ?thesis by blast
qed

end

lemma places_nonzero: "0 \<notin> set (rsdp_places m)"
proof -
  have p: "a + of_nat (16 * k) \<noteq> 0" if "0 < unat a" "unat a \<le> 0x100000" "16 * k < 0x20000" for a :: u32 and k
  proof -
    have "unat (a + of_nat (16 * k)) = unat a + 16 * k"
      using that by (simp add: unat_word_ariths unat_of_nat)
    then show ?thesis using that(1) by auto
  qed
  have "unat (rd16 m 0x40E) < 65536" using unsigned_less [of "rd16 m 0x40E"] by simp
  then have "unat (ebda m) \<le> 0x100000"
    by (simp add: ebda_def unat_word_ariths unsigned_ucast_eq take_bit_nat_eq_self)
  moreover have "0 < unat (ebda m)" if "ebda m > 0x400"
    using that by (metis neq0_conv unat_0_iff word_not_simps(1))
  ultimately show ?thesis
    using p [of "ebda m"] p [of "0xE0000"] unfolding rsdp_places_def paragraphs_def
    by (auto split: if_splits)
qed

lemma init_acpi_registers:
  assumes "AcpiFindRootPointer m = Inr rsdp" and "root_table m rsdp = Some as" and "length as \<le> 14"
  shows "\<exists>s'. init_acpi eax m ptr s = Ret (0, s') \<and> registered m as s'"
proof -
  have "find (valid_rsdp m) (rsdp_places m) = Some rsdp"
    using assms(1) unfolding find_root_pointer by (simp split: option.splits)
  then have "rsdp \<in> set (rsdp_places m)" by (auto simp: find_Some_iff)
  then have nz: "rsdp \<noteq> 0" using places_nonzero by metis
  let ?s = "s\<lparr>Tables := Some (replicate 16 zero_desc), MaxTableCount := 16, RootFlags := ACPI_ROOT_ALLOW_RESIZE\<rparr>"
  obtain s' where "AcpiTbParseRootTable (ganoid_host eax) m rsdp ?s = Ret (AE_OK, s')" "registered m as s'"
    using ganoid.parse_root_table [OF assms(2) nz, of ?s 16] assms(3) by auto
  then show ?thesis
    using assms(1) nz
    by (simp add: init_acpi_def AcpiInitializeTables_def AcpiOsGetRootPointer_def ACPI_MAX_INIT_TABLES_def
        ACPI_ROOT_ORIGIN_UNKNOWN_def AE_OK_def)
qed

text \<open>
  C13. When a root pointer is in memory and leads to a root table of at most 14 tables, init_acpi
  returns 0, and the table array then holds, behind the two slots of DSDT and FACS, one descriptor per
  entry of the root table, in its order, with the address, length and signature of that table.
\<close>

theorem init_acpi_registers_tables:
  assumes "AcpiFindRootPointer m = Inr rsdp" and "root_table m rsdp = Some as" and "length as \<le> 14"
  shows "\<exists>s'. init_acpi eax m ptr s = Ret (0, s') \<and> registered m as s'"
  using assms by (rule init_acpi_registers)

lemma fill_entries_hang:
  assumes "allocate_zeroed os = acpi_os_allocate_zeroed" and "RootFlags s = ACPI_ROOT_ALLOW_RESIZE"
    and "Tables s = Some ts" and "unat (CurrentTableCount s) = c" and "c \<le> unat (MaxTableCount s)"
    and "unat (MaxTableCount s) \<le> length ts" and "unat (MaxTableCount s) < c + k"
  shows "fill_entries os m p w k s = Hang"
  using assms(2-)
proof (induction k arbitrary: c p s ts)
  case (Suc k)
  show ?case
  proof (cases "CurrentTableCount s < MaxTableCount s")
    case True
    let ?s = "s\<lparr>Tables := Some (ts[c := (ts ! c)\<lparr>td_Address := AcpiTbGetRootTableEntry m p w\<rparr>]), CurrentTableCount := CurrentTableCount s + 1\<rparr>"
    have "fill_entries os m (p + w) w k ?s = Hang"
      using Suc.prems True unat_Suc_word [OF True] by (intro Suc.IH [where c = "Suc c" and ts = "ts[c := (ts ! c)\<lparr>td_Address := AcpiTbGetRootTableEntry m p w\<rparr>]"]) (simp_all add: word_less_nat_alt)
    moreover have "c < length ts" using True Suc.prems by (simp add: word_less_nat_alt)
    ultimately show ?thesis using True Suc.prems by (simp add: get_table_def put_table_def not_le [symmetric])
  next
    case False
    then show ?thesis
      using Suc.prems assms(1)
      by (simp add: not_less AcpiTbResizeRootTableList_def acpi_os_allocate_zeroed_def ACPI_ROOT_ALLOW_RESIZE_def)
  qed
qed simp

text \<open>
  C14. With a root table of more than 14 tables init_acpi never returns: the array of 16 is full, and
  the allocation of a larger one is a stub that loops.
\<close>

theorem init_acpi_hangs_on_15_tables:
  assumes "AcpiFindRootPointer m = Inr rsdp" and "root_table m rsdp = Some as" and "14 < length as"
  shows "init_acpi eax m ptr s = Hang"
proof -
  have "find (valid_rsdp m) (rsdp_places m) = Some rsdp"
    using assms(1) unfolding find_root_pointer by (simp split: option.splits)
  then have "rsdp \<in> set (rsdp_places m)" by (auto simp: find_Some_iff)
  then have nz: "rsdp \<noteq> 0" using places_nonzero by metis
  let ?s = "s\<lparr>Tables := Some (replicate 16 zero_desc), MaxTableCount := 16, RootFlags := ACPI_ROOT_ALLOW_RESIZE\<rparr>"
  obtain p w k where as: "as = root_entries m p w k" and eq: "\<And>s. AcpiTbParseRootTable (ganoid_host eax) m rsdp s =
    obind (fill_entries (ganoid_host eax) m p w k (s\<lparr>CurrentTableCount := 2\<rparr>)) (\<lambda>s.
    obind (install_entries (ganoid_host eax) m 2 (unat (CurrentTableCount s) - 2) s) (\<lambda>s. Ret (AE_OK, s)))"
    using parse_root_table_eq [OF assms(2) nz] by blast
  have "14 < k" using assms(3) as by (simp add: root_entries_def)
  then have "fill_entries (ganoid_host eax) m p w k (?s\<lparr>CurrentTableCount := 2\<rparr>) = Hang"
    by (intro fill_entries_hang [where c = 2 and ts = "replicate 16 zero_desc"]) (simp_all add: ganoid_host_def)
  then have "AcpiTbParseRootTable (ganoid_host eax) m rsdp ?s = Hang" unfolding eq by simp
  then show ?thesis
    using assms(1) nz
    by (simp add: init_acpi_def AcpiInitializeTables_def AcpiOsGetRootPointer_def ACPI_MAX_INIT_TABLES_def
        ACPI_ROOT_ORIGIN_UNKNOWN_def AE_OK_def)
qed

text \<open>
  A firmware with an old root pointer at the start of the BIOS window, a root table at 1000 of
  \<open>n\<close> entries, whose first two are an interrupt table and a fixed table that names a DSDT.
\<close>

definition firmware :: "u8 \<Rightarrow> mem" where
  "firmware n = (\<lambda>_. 0)(0xE0000 := 0x52, 0xE0001 := 0x53, 0xE0002 := 0x44, 0xE0003 := 0x20, 0xE0004 := 0x50, 0xE0005 := 0x54,
     0xE0006 := 0x52, 0xE0007 := 0x20, 0xE0008 := 0xD1, 0xE0011 := 0x10,
     0x1004 := 36 + 4 * n, 0x1025 := 0x20, 0x1029 := 0x30,
     0x2000 := 0x41, 0x2001 := 0x50, 0x2002 := 0x49, 0x2003 := 0x43, 0x2004 := 0x40,
     0x3000 := 0x46, 0x3001 := 0x41, 0x3002 := 0x43, 0x3003 := 0x50, 0x3004 := 0x74, 0x3029 := 0x40,
     0x4000 := 0x44, 0x4001 := 0x53, 0x4002 := 0x44, 0x4003 := 0x54, 0x4004 := 0x80)"

lemma All_less_8: "(\<forall>i < (8 :: nat). P i) \<longleftrightarrow> P 0 \<and> P 1 \<and> P 2 \<and> P 3 \<and> P 4 \<and> P 5 \<and> P 6 \<and> P 7"
  by (simp add: numeral_eq_Suc All_less_Suc) blast

lemma firmware_rsdp: "valid_rsdp (firmware n) 0xE0000"
proof -
  have r: "firmware n 0xE000F = 0" by (simp add: firmware_def)
  have "\<forall>i < 8. firmware n (0xE0000 + of_nat i) = ACPI_SIG_RSDP ! i"
    unfolding All_less_8 by (simp add: firmware_def ACPI_SIG_RSDP_def)
  moreover have "bytes_sum (firmware n) 0xE0000 20 = 0"
    by (simp add: bytes_sum_def firmware_def upt_rec)
  ultimately show ?thesis using r by (simp add: valid_rsdp_def)
qed

lemma firmware_pointer: "AcpiFindRootPointer (firmware n) = Inr 0xE0000"
proof -
  have e: "ebda (firmware n) = 0" by (simp add: ebda_def rd16_def le16_def firmware_def)
  have "paragraphs 0xE0000 0x20000 = 0xE0000 # map (\<lambda>k. 0xE0000 + of_nat (16 * k)) [1..<8192]"
    unfolding paragraphs_def by (subst upt_conv_Cons) simp_all
  then show ?thesis unfolding find_root_pointer rsdp_places_def using firmware_rsdp [of n] by (simp add: e)
qed

lemma firmware_words: "rd32 (firmware 2) 0x1004 = 44" "rd32 (firmware 15) 0x1004 = 96" "rd32 (firmware n) 0xE0010 = 0x1000"
  "firmware n 0xE000F = 0" "rd32 (firmware n) 0x1024 = 0x2000" "rd32 (firmware n) 0x1028 = 0x3000"
  by (simp_all add: rd32_def rd16_def le16_def le32_def firmware_def)

lemma firmware_tables: "root_table (firmware 2) 0xE0000 = Some [0x2000, 0x3000]"
  "map_option length (root_table (firmware 15) 0xE0000) = Some 15"
  by (simp_all add: root_table_def firmware_words Let_def root_entries_def upt_rec AcpiTbGetRootTableEntry_def)

definition zero_gas :: generic_address where
  "zero_gas = \<lparr>SpaceId = 0, BitWidth = 0, BitOffset = 0, AccessWidth = 0, Address = 0\<rparr>"

text \<open>The data before the start.\<close>

definition acpi0 :: acpi where
  "acpi0 = \<lparr>Tables = None, CurrentTableCount = 0, MaxTableCount = 0, RootFlags = 0, FADT = (\<lambda>_. 0), ReducedHardware = False,
     XPm1aStatus = zero_gas, XPm1aEnable = zero_gas, XPm1bStatus = zero_gas, XPm1bEnable = zero_gas,
     IntegerBitWidth = 0, IntegerNybbleWidth = 0, IntegerByteWidth = 0\<rparr>"

lemma init_acpi_registers_tables_witness:
  "\<exists>s'. init_acpi 7 (firmware 2) 0xDEAD acpi0 = Ret (0, s') \<and> registered (firmware 2) [0x2000, 0x3000] s'"
  by (rule init_acpi_registers_tables [OF firmware_pointer firmware_tables(1)]) simp

lemma init_acpi_hangs_on_15_tables_witness: "init_acpi 7 (firmware 15) 0xDEAD acpi0 = Hang"
proof -
  obtain as where "root_table (firmware 15) 0xE0000 = Some as" "length as = 15" using firmware_tables(2) by auto
  then show ?thesis using init_acpi_hangs_on_15_tables [OF firmware_pointer] by simp
qed

end
