(* ===== verification/Boot.thy ===== *)
theory Boot
  imports Vga Sysinfo PageAlloc Interrupts Descriptors Keyboard Sched AcpiTables
begin

text \<open>
  The kernel as a whole: kernel_main of arch/i386/kernel/init.c up to the idle loop, and what
  happens afterwards, a sequence of interrupts and of calls that threads make. The state is the
  state of the components side by side. Text goes to the console, port writes to its log. The
  keyboard controller is programmed in assembly (kbd.S): the value init_kbd returns and the bytes it
  and enable_keyboard_int write are arguments. So is the configuration CONFIG_ENABLE_ACPI, under which
  kernel_main also registers the ACPI tables. An interrupt goes through the descriptor table that was written at start-up.
\<close>

section \<open>State\<close>

datatype handler = Kbd_isr | Timer_isr

record kernel =
  console :: vga
  info :: sysinfo
  frames :: bitmap_t
  handlers :: "handler isrs"
  idt :: "interrupt_descriptor list"
  keyboard :: kbd
  acpi_tables :: acpi
  runq :: sched

text \<open>
  The machine and the build. \<open>isr_stubs\<close> are the addresses of the stubs ISR0 to ISR38 of vectors.S, the last
  four fields whether the build has ACPI, the memory its tables are in, and what two unset variables of the
  service layer hold.
\<close>

record platform =
  kstart :: u32
  kend :: u32
  isr_stubs :: "nat \<Rightarrow> u32"
  idt_addr :: u32
  loader :: loader_memory
  mbi :: multiboot_info
  kbd_result :: int
  init_kbd_writes :: port_log
  enable_kbd_writes :: port_log
  idle_ref :: nat
  acpi_enabled :: bool
  acpi_mem :: mem
  acpi_eax :: ACPI_STATUS
  acpi_ptr :: u32

definition kprint :: "string \<Rightarrow> kernel \<Rightarrow> kernel outcome" where
  "kprint t k = obind (vga_puts (map of_char t) (console k)) (\<lambda>c. Ret (k\<lparr>console := c\<rparr>))"

definition set_ports :: "port_log \<Rightarrow> kernel \<Rightarrow> kernel" where
  "set_ports log k = k\<lparr>console := (console k)\<lparr>ports := log\<rparr>\<rparr>"

section \<open>Start-up\<close>

definition progress :: "string \<Rightarrow> bool \<Rightarrow> kernel \<Rightarrow> kernel outcome" where
  "progress msg failed k = obind (display_boot_progress msg failed) (\<lambda>t. kprint t k)"

text \<open>The report of init_page_allocator, one line for each entry of the RAM map.\<close>

definition ram_line :: "nat \<Rightarrow> ram_map_t \<Rightarrow> string outcome" where
  "ram_line i s =
     obind (printk ''%d: Start: 0x%8x End:0x%8x :: Size = '' [VInt (of_nat i), VInt (saddr s), VInt (saddr s + len s - 1)]) (\<lambda>(a, _).
     obind (print_human_readable_size (len s)) (\<lambda>(b, _). Ret (a @ b)))"

fun ram_lines :: "nat \<Rightarrow> ram_map_t list \<Rightarrow> string outcome" where
  "ram_lines i [] = Ret []"
| "ram_lines i (s # ss) = obind (ram_line i s) (\<lambda>a. obind (ram_lines (i + 1) ss) (\<lambda>b. Ret (a @ b)))"

definition ram_report :: "u32 \<Rightarrow> u32 \<Rightarrow> ram_map_t list \<Rightarrow> string outcome" where
  "ram_report ks ke nodes =
     obind (printk ''RAM address map received from multiboot:\<newline>'' []) (\<lambda>(a, _).
     obind (ram_lines 0 nodes) (\<lambda>b.
     obind (printks [(''Area occupied by Ganoid:\<newline>'', []), (''Start: 0x%8x\<newline>'', [VInt ks]), (''End  : 0x%8x\<newline>'', [VInt ke])]) (\<lambda>c.
     Ret (a @ b @ c))))"

definition boot_memory :: "platform \<Rightarrow> kernel \<Rightarrow> kernel outcome" where
  "boot_memory p k =
     obind (read_multiboot_information (loader p) (mbi p) (info k)) (\<lambda>(t, s).
     obind (kprint t (k\<lparr>info := s\<rparr>)) (\<lambda>k.
     obind (progress ''Read multiboot information'' False k) (\<lambda>k.
     let (cnt, ram) = get_rammap_ptr (info k); nodes = take cnt ram in
     obind (ram_report (kstart p) (kend p) nodes) (\<lambda>t.
     obind (kprint t k) (\<lambda>k.
     obind (init_page_allocator (kstart p) (kend p) nodes (frames k)) (\<lambda>bm.
     progress ''Initialize page allocator'' False (k\<lparr>frames := bm\<rparr>)))))))"

definition boot_interrupts :: "platform \<Rightarrow> kernel \<Rightarrow> kernel outcome" where
  "boot_interrupts p k =
     (let k = k\<lparr>handlers := init_isr_dispatcher (handlers k)\<rparr> in
      obind (init_Interrupt_Descriptor_Table (isr_stubs p) (idt_addr p)) (\<lambda>(gates, _).
      let k = k\<lparr>idt := gates\<rparr>; (r, log) = init_APIC (ports (console k)) in
      progress ''Initialize interrupt subsystem'' (r \<noteq> 0) (set_ports log k)))"

definition init_kbd_handler :: "platform \<Rightarrow> kernel \<Rightarrow> (int \<times> kernel) outcome" where
  "init_kbd_handler p k =
     obind (add_isr_handler KBD_INTERRUPT (Some Kbd_isr) (handlers k)) (\<lambda>h.
     let k = k\<lparr>handlers := h\<rparr>;
         k = set_ports (ports (console k) @ init_kbd_writes p) k;
         k = set_ports (ports (console k) @ enable_kbd_writes p) k
     in Ret (kbd_result p, k))"

definition boot_devices :: "platform \<Rightarrow> kernel \<Rightarrow> kernel outcome" where
  "boot_devices p k =
     obind (init_kbd_handler p k) (\<lambda>(r, k).
     obind (progress ''Initialize keyboard'' (r \<noteq> 0) k) (\<lambda>k.
     obind (init_timer HZ (ports (console k))) (\<lambda>log.
     let k = set_ports log k in
     obind (add_isr_handler TIMER_INTERRUPT (Some Timer_isr) (handlers k)) (\<lambda>h. Ret (k\<lparr>handlers := h\<rparr>)))))"

text \<open>The call of init_acpi in a build with ACPI, with its message.\<close>

definition boot_acpi :: "platform \<Rightarrow> kernel \<Rightarrow> kernel outcome" where
  "boot_acpi p k =
     (if acpi_enabled p
      then obind (AcpiInitializeTables (ganoid_host (acpi_eax p)) (acpi_mem p) (acpi_ptr p) True ACPI_MAX_INIT_TABLES True (acpi_tables k)) (\<lambda>(Status, a).
           let k = k\<lparr>acpi_tables := a\<rparr>
           in if Status \<noteq> 0
              then obind (printk ''Error: Unable to early init ACPI tables: %d\<newline>'' [VInt Status]) (\<lambda>(t, _). kprint t k)
              else Ret k)
      else Ret k)"

text \<open>kernel_main up to the call of do_idle, and with \<open>n\<close> rounds of it.\<close>

definition boot :: "platform \<Rightarrow> kernel \<Rightarrow> kernel outcome" where
  "boot p k =
     obind (boot_memory p (k\<lparr>console := vga_init (console k)\<rparr>)) (\<lambda>k.
     obind (boot_interrupts p k) (\<lambda>k.
     obind (boot_devices p k) (\<lambda>k.
     obind (boot_acpi p k) (\<lambda>k.
     obind (init_schedular (idle_ref p) (runq k)) (\<lambda>(r, s).
     progress ''Schedular init'' (r \<noteq> 0) (k\<lparr>runq := s\<rparr>))))))"

definition kernel_main :: "nat \<Rightarrow> platform \<Rightarrow> kernel \<Rightarrow> string outcome" where
  "kernel_main n p k = obind (boot p k) (\<lambda>_. do_idle n)"

section \<open>Start-up reaches the idle loop\<close>

definition quiet :: "port_log \<Rightarrow> bool" where
  "quiet l \<longleftrightarrow> (\<forall>(p, v) \<in> set l. p \<noteq> 0x3D4 \<and> p \<noteq> 0x3D5)"

lemma quiet_simps [simp]: "quiet []" "quiet ((p, v) # l) \<longleftrightarrow> p \<noteq> 0x3D4 \<and> p \<noteq> 0x3D5 \<and> quiet l" "quiet (l @ l') \<longleftrightarrow> quiet l \<and> quiet l'"
  by (auto simp: quiet_def)

lemma quiet_fold: "quiet l \<Longrightarrow> fold crtc_step l s = s"
proof (induction l arbitrary: s)
  case (Cons pv l)
  then show ?case by (cases pv; cases s) auto
qed simp

lemma quiet_vga_inv: "quiet l \<Longrightarrow> vga_inv (c\<lparr>ports := ports c @ l\<rparr>) = vga_inv c"
  by (simp add: vga_inv_def hw_cursor_def quiet_fold vga_pos_def)

lemma kprint_inv:
  assumes "vga_inv (console k)"
  shows "\<exists>c. kprint t k = Ret (k\<lparr>console := c\<rparr>) \<and> vga_inv c"
  using vga_puts_inv [OF assms, of "map of_char t"] by (auto simp: kprint_def)

text \<open>Messages that fit a progress line.\<close>

definition line_message :: "string \<Rightarrow> bool" where
  "line_message msg \<longleftrightarrow> CHR 0x0A \<notin> set msg \<and> CHR 0x00 \<notin> set msg \<and> length msg \<le> 71 \<and> msg \<noteq> []"

lemma progress_inv:
  assumes "vga_inv (console k)" and "line_message msg"
  shows "\<exists>c. progress msg failed k = Ret (k\<lparr>console := c\<rparr>) \<and> vga_inv c"
proof -
  obtain t where "display_boot_progress msg failed = Ret t"
    using boot_progress_line [of msg failed] assms(2) by (auto simp: line_message_def)
  then show ?thesis using kprint_inv [OF assms(1)] by (simp add: progress_def)
qed

lemma messages:
  "line_message ''Read multiboot information''" "line_message ''Initialize page allocator''"
  "line_message ''Initialize interrupt subsystem''" "line_message ''Initialize keyboard''" "line_message ''Schedular init''"
  by (simp_all add: line_message_def)

lemma ram_report_returns: "\<exists>t. ram_report ks ke nodes = Ret t"
proof -
  have h: "\<exists>t n. printk ''%d: Start: 0x%8x End:0x%8x :: Size = '' [VInt i, VInt a, VInt b] = Ret (t, n)" for i a b
    using prints_short [of "[Conv [] (ConvD i), Lit '': Start: 0x'', Conv ''8'' (ConvX a), Lit '' End:0x'', Conv ''8'' (ConvX b), Lit '' :: Size = '']"]
    by (auto simp: prints_def short_text_def isdigit_def)
  have "\<exists>t. ram_line i s = Ret t" for i s
    using h [of "of_nat i" "saddr s" "saddr s + len s - 1"] by (auto simp: ram_line_def print_human_readable_size_text)
  then have l: "\<exists>t. ram_lines i ss = Ret t" for i ss
    by (induction ss arbitrary: i) (simp, metis obind_simps(1) ram_lines.simps(2))
  have "prints ''RAM address map received from multiboot:\<newline>'' []" "prints ''Area occupied by Ganoid:\<newline>'' []"
    by (intro prints_lit; simp add: short_text_def)+
  moreover have "prints ''Start: 0x%8x\<newline>'' [VInt v]" "prints ''End  : 0x%8x\<newline>'' [VInt v]" for v
    using prints_conv [of "''Start: 0x''" "''\<newline>''" "''8''" "ConvX v"] prints_conv [of "''End  : 0x''" "''\<newline>''" "''8''" "ConvX v"]
    by (simp_all add: short_text_def isdigit_def)
  moreover from calculation have "\<exists>t. printks [(''Area occupied by Ganoid:\<newline>'', []), (''Start: 0x%8x\<newline>'', [VInt ks]), (''End  : 0x%8x\<newline>'', [VInt ke])] = Ret t"
    by (intro printks_prints) simp
  ultimately show ?thesis using l [of 0 nodes] by (auto simp: ram_report_def prints_def)
qed

text \<open>
  The machines on which start-up works: the boot loader keeps to the arrays of the kernel, the module data are as they
  are at the entry of kernel_main, the code that is not modelled does not write to the cursor registers of the display, the
  stubs have different addresses, and a build with ACPI finds a root table of at most 14 tables.
\<close>

definition acpi_ok :: "platform \<Rightarrow> bool" where
  "acpi_ok p \<longleftrightarrow> acpi_enabled p \<longrightarrow>
     (case AcpiFindRootPointer (acpi_mem p) of
        Inl _ \<Rightarrow> False
      | Inr rsdp \<Rightarrow> (case root_table (acpi_mem p) rsdp of None \<Rightarrow> False | Some ts \<Rightarrow> length ts \<le> 14))"

definition platform_ok :: "platform \<Rightarrow> kernel \<Rightarrow> bool" where
  "platform_ok p k \<longleftrightarrow>
     loader_ok (loader p) (mbi p) (info k) \<and> ram_nodes_cnt (info k) = 0 \<and> length (vmem (console k)) = 2000 \<and>
     isrs_inv (handlers k) \<and> kbd_inv (keyboard k) \<and> quiet (init_kbd_writes p) \<and> quiet (enable_kbd_writes p) \<and>
     distinct (map (isr_stubs p) [0..<39]) \<and> acpi_ok p"

text \<open>The available entries of the memory map that the boot loader reports, and the RAM map of them.\<close>

definition ram_entries :: "platform \<Rightarrow> kernel \<Rightarrow> multiboot_mmap_entry list" where
  "ram_entries p k = filter (\<lambda>e. mm_type e = MULTIBOOT_MEMORY_AVAILABLE) (reported_entries (loader p) (mbi p) (info k))"

definition ram_of :: "platform \<Rightarrow> kernel \<Rightarrow> ram_map_t list" where
  "ram_of p k = reported_map (loader p) (mbi p) (info k)"

lemma ram_of_entries: "ram_of p k = map trunc_entry (ram_entries p k)"
  by (simp add: ram_of_def ram_entries_def reported_map_def available_def)

definition boot_handlers :: "handler option list" where
  "boot_handlers = (replicate 48 None)[33 := Some Kbd_isr, 32 := Some Timer_isr]"

text \<open>
  The stub whose code starts at an address; it pushes its number. Vectors from 39 on have the gate of ISR20.
\<close>

definition stub_number :: "(nat \<Rightarrow> u32) \<Rightarrow> u32 \<Rightarrow> nat option" where
  "stub_number stubs a = find (\<lambda>n. stubs n = a) [0..<39]"

definition gates_ok :: "platform \<Rightarrow> interrupt_descriptor list \<Rightarrow> bool" where
  "gates_ok p gates \<longleftrightarrow> length gates = 256 \<and>
     (\<forall>v < 256. gate_present (gates ! v) \<and> stub_number (isr_stubs p) (segment_offset (gates ! v)) = Some (if v < 39 then v else 20))"

definition kernel_inv :: "platform \<Rightarrow> kernel \<Rightarrow> bool" where
  "kernel_inv p k \<longleftrightarrow> vga_inv (console k) \<and> gates_ok p (idt k) \<and> isr_handlers (handlers k) = boot_handlers \<and>
     kbd_inv (keyboard k) \<and> (\<exists>ts. run_queue (runq k) ts)"

lemma stub_number_stub:
  assumes "distinct (map (isr_stubs p) [0..<39])" and "n < 39"
  shows "stub_number (isr_stubs p) (isr_stubs p n) = Some n"
proof -
  have d: "inj_on (isr_stubs p) {0..<39}" using assms(1) by (simp add: distinct_map)
  have "isr_stubs p i = isr_stubs p n \<longleftrightarrow> i = n" if "i < 39" for i
    using inj_on_eq_iff [OF d] that assms(2) by simp
  then show ?thesis unfolding stub_number_def using assms(2)
    by (auto simp: find_Some_iff nth_append intro!: exI [of _ n] simp del: upt_Suc)
qed

lemma written_gates:
  assumes "distinct (map (isr_stubs p) [0..<39])"
  shows "\<exists>gates r. init_Interrupt_Descriptor_Table (isr_stubs p) (idt_addr p) = Ret (gates, r) \<and> gates_ok p gates"
proof -
  obtain gates r where g: "init_Interrupt_Descriptor_Table (isr_stubs p) (idt_addr p) = Ret (gates, r)"
    "map (\<lambda>d. (gate_present d, segment_selector d, segment_offset d, gate_type d)) gates =
     map (\<lambda>v. (True, 8, isr_stubs p (if v < 39 then v else 20), SYS_32BIT_TRAP_GATE)) [0..<256]"
    using idt_gates [of "isr_stubs p" "idt_addr p"] by blast
  have l: "length gates = 256" using arg_cong [OF g(2), of length] by simp
  have "gate_present (gates ! v)" "segment_offset (gates ! v) = isr_stubs p (if v < 39 then v else 20)" if "v < 256" for v
    using arg_cong [OF g(2), of "\<lambda>xs. xs ! v"] that l by (simp_all del: upt_Suc)
  then have "gates_ok p gates" using l stub_number_stub [OF assms] by (simp add: gates_ok_def)
  then show ?thesis using g(1) by blast
qed

lemma boot_memory_returns:
  assumes "platform_ok p k" and "vga_inv (console k)"
  shows "\<exists>c s bm. boot_memory p k = Ret (k\<lparr>console := c, info := s, frames := bm\<rparr>) \<and> vga_inv c \<and>
     (\<forall>n. n < NUM_FRAMES \<longrightarrow> (page_busy bm n \<longleftrightarrow> \<not> (\<exists>s \<in> set (ram_of p k). region_pages (kstart p) (kend p) s n)))"
proof -
  have l: "loader_ok (loader p) (mbi p) (info k)" "ram_nodes_cnt (info k) = 0"
    using assms(1) by (simp_all add: platform_ok_def)
  obtain t s where s: "read_multiboot_information (loader p) (mbi p) (info k) = Ret (t, s)"
    "fst (get_rammap_ptr s) = length (ram_of p k)" "take (length (ram_of p k)) (snd (get_rammap_ptr s)) = ram_of p k"
    using multiboot_ram_map [OF l] by (auto simp: ram_of_def)
  obtain ram where g: "get_rammap_ptr s = (length (ram_of p k), ram)" "take (length (ram_of p k)) ram = ram_of p k"
    using s(2,3) by (cases "get_rammap_ptr s") auto
  obtain c1 where c1: "kprint t (k\<lparr>info := s\<rparr>) = Ret (k\<lparr>info := s, console := c1\<rparr>)" "vga_inv c1"
    using kprint_inv [of "k\<lparr>info := s\<rparr>" t] assms(2) by auto
  obtain c2 where c2: "progress ''Read multiboot information'' False (k\<lparr>info := s, console := c1\<rparr>) = Ret (k\<lparr>info := s, console := c2\<rparr>)" "vga_inv c2"
    using progress_inv [OF _ messages(1), of "k\<lparr>info := s, console := c1\<rparr>"] c1(2) by auto
  obtain t2 where t2: "ram_report (kstart p) (kend p) (ram_of p k) = Ret t2" using ram_report_returns by blast
  obtain c3 where c3: "kprint t2 (k\<lparr>info := s, console := c2\<rparr>) = Ret (k\<lparr>info := s, console := c3\<rparr>)" "vga_inv c3"
    using kprint_inv [of "k\<lparr>info := s, console := c2\<rparr>" t2] c2(2) by auto
  let ?bm0 = "\<lambda>x. if x < UINT_CNT then NOT 0 else frames k x"
  obtain bm where bm: "init_regions (kstart p) (kend p) (ram_of p k) ?bm0 = Ret bm"
    "\<And>n. page_busy bm n \<longleftrightarrow> (\<forall>s \<in> set (ram_of p k). \<not> region_pages (kstart p) (kend p) s n) \<and> page_busy ?bm0 n"
    using init_regions_Ret [of "kstart p" "kend p" "ram_of p k" ?bm0] by blast
  have ipa: "init_page_allocator (kstart p) (kend p) (ram_of p k) (frames k) = Ret bm"
    unfolding init_page_allocator_def by (rule bm(1))
  have all: "page_busy ?bm0 n" if "n < NUM_FRAMES" for n
    using that index_in_range [of n] by (simp add: page_busy_def busyn_def bit_simps)
  obtain c4 where c4: "progress ''Initialize page allocator'' False (k\<lparr>info := s, console := c3, frames := bm\<rparr>) =
      Ret (k\<lparr>info := s, frames := bm, console := c4\<rparr>)" "vga_inv c4"
    using progress_inv [OF _ messages(2), of "k\<lparr>info := s, console := c3, frames := bm\<rparr>"] c3(2) by auto
  have "boot_memory p k = Ret (k\<lparr>console := c4, info := s, frames := bm\<rparr>)"
    unfolding boot_memory_def s(1) obind_simps prod.case c1(1) c2(1)
    by (simp add: g t2 c3(1) ipa c4(1))
  then show ?thesis using c4(2) bm(2) all by blast
qed

lemma boot_interrupts_returns:
  assumes "distinct (map (isr_stubs p) [0..<39])" and "vga_inv (console k)"
  shows "\<exists>c gates. boot_interrupts p k = Ret (k\<lparr>console := c, handlers := init_isr_dispatcher (handlers k), idt := gates\<rparr>) \<and> vga_inv c \<and> gates_ok p gates"
proof -
  obtain gates r where g: "init_Interrupt_Descriptor_Table (isr_stubs p) (idt_addr p) = Ret (gates, r)" "gates_ok p gates"
    using written_gates [OF assms(1)] by blast
  have a: "\<exists>l. init_APIC log = (0, log @ l) \<and> quiet l" for log
    by (simp add: init_APIC_def Let_def outb_def)
  obtain l where l: "init_APIC (ports (console k)) = (0, ports (console k) @ l)" "quiet l" using a by blast
  let ?k = "set_ports (ports (console k) @ l) (k\<lparr>handlers := init_isr_dispatcher (handlers k), idt := gates\<rparr>)"
  have "vga_inv (console ?k)" using assms(2) quiet_vga_inv [OF l(2), of "console k"] by (simp add: set_ports_def)
  then obtain c where "progress ''Initialize interrupt subsystem'' False ?k = Ret (?k\<lparr>console := c\<rparr>)" "vga_inv c"
    using progress_inv [OF _ messages(3)] by blast
  moreover have "?k\<lparr>console := c\<rparr> = k\<lparr>console := c, handlers := init_isr_dispatcher (handlers k), idt := gates\<rparr>"
    by (simp add: set_ports_def)
  ultimately have "boot_interrupts p k = Ret (k\<lparr>console := c, handlers := init_isr_dispatcher (handlers k), idt := gates\<rparr>)"
    unfolding boot_interrupts_def Let_def g(1) by (simp add: l(1))
  then show ?thesis using \<open>vga_inv c\<close> g(2) by blast
qed

lemma boot_devices_returns:
  assumes "isr_dispatcher_initialized (handlers k)" and "isr_handlers (handlers k) = replicate 48 None"
    and "vga_inv (console k)" and "quiet (init_kbd_writes p)" and "quiet (enable_kbd_writes p)"
  shows "\<exists>c h. boot_devices p k = Ret (k\<lparr>console := c, handlers := h\<rparr>) \<and> vga_inv c \<and> isr_handlers h = boot_handlers"
proof -
  define h1 where "h1 = (handlers k)\<lparr>isr_handlers := (replicate 48 None)[33 := Some Kbd_isr]\<rparr>"
  have h1: "add_isr_handler KBD_INTERRUPT (Some Kbd_isr) (handlers k) = Ret h1"
    using assms(1,2) by (simp add: add_isr_handler_def KBD_INTERRUPT_def h1_def)
  define k1 where "k1 = set_ports ((ports (console k) @ init_kbd_writes p) @ enable_kbd_writes p) (k\<lparr>handlers := h1\<rparr>)"
  have k1: "init_kbd_handler p k = Ret (kbd_result p, k1)"
    by (simp add: init_kbd_handler_def h1 Let_def k1_def set_ports_def)
  have "vga_inv (console k1)"
    using assms(3) quiet_vga_inv [of "init_kbd_writes p @ enable_kbd_writes p" "console k"] assms(4,5)
    by (simp add: k1_def set_ports_def)
  then obtain c where c: "progress ''Initialize keyboard'' (kbd_result p \<noteq> 0) k1 = Ret (k1\<lparr>console := c\<rparr>)" "vga_inv c"
    using progress_inv [OF _ messages(4)] by blast
  obtain l where l: "init_timer HZ (ports c) = Ret (ports c @ l)" "quiet l"
    by (simp add: init_timer_def HZ_def Let_def outb_def)
  define h2 where "h2 = h1\<lparr>isr_handlers := boot_handlers\<rparr>"
  have h2: "add_isr_handler TIMER_INTERRUPT (Some Timer_isr) h1 = Ret h2"
    using assms(1) by (simp add: add_isr_handler_def TIMER_INTERRUPT_def h1_def h2_def boot_handlers_def)
  have "boot_devices p k = Ret (k\<lparr>console := c\<lparr>ports := ports c @ l\<rparr>, handlers := h2\<rparr>)"
    unfolding boot_devices_def k1 obind_simps prod.case c(1)
    by (simp add: l(1) set_ports_def k1_def h2 Let_def)
  moreover have "vga_inv (c\<lparr>ports := ports c @ l\<rparr>)" using c(2) quiet_vga_inv [OF l(2)] by simp
  moreover have "isr_handlers h2 = boot_handlers" by (simp add: h2_def)
  ultimately show ?thesis by blast
qed

lemma boot_acpi_returns:
  assumes "acpi_ok p"
  shows "\<exists>a. boot_acpi p k = Ret (k\<lparr>acpi_tables := a\<rparr>) \<and>
    (acpi_enabled p \<longrightarrow> (\<exists>rsdp ts. AcpiFindRootPointer (acpi_mem p) = Inr rsdp \<and> root_table (acpi_mem p) rsdp = Some ts \<and>
       registered (acpi_mem p) ts a))"
proof (cases "acpi_enabled p")
  case True
  then obtain rsdp ts where r: "AcpiFindRootPointer (acpi_mem p) = Inr rsdp" "root_table (acpi_mem p) rsdp = Some ts" "length ts \<le> 14"
    using assms by (auto simp: acpi_ok_def split: sum.splits option.splits)
  obtain a where a: "init_acpi (acpi_eax p) (acpi_mem p) (acpi_ptr p) (acpi_tables k) = Ret (0, a)" "registered (acpi_mem p) ts a"
    using init_acpi_registers [OF r] by blast
  have "AcpiInitializeTables (ganoid_host (acpi_eax p)) (acpi_mem p) (acpi_ptr p) True ACPI_MAX_INIT_TABLES True (acpi_tables k) = Ret (0, a)"
    using a(1) by (auto simp: init_acpi_def obind_eq_Ret split: if_splits)
  then show ?thesis using True a(2) r(1,2) by (auto simp: boot_acpi_def)
next
  case False
  then have "boot_acpi p k = Ret (k\<lparr>acpi_tables := acpi_tables k\<rparr>)" by (simp add: boot_acpi_def)
  then show ?thesis using False by blast
qed

lemma boot_returns:
  assumes "platform_ok p k"
  shows "\<exists>k'. boot p k = Ret k' \<and> kernel_inv p k' \<and> run_queue (runq k') [idle_ref p] \<and> current_task (runq k') = idle_ref p \<and>
     keyboard k' = keyboard k \<and>
     (acpi_enabled p \<longrightarrow> (\<exists>rsdp ts. AcpiFindRootPointer (acpi_mem p) = Inr rsdp \<and> root_table (acpi_mem p) rsdp = Some ts \<and>
       registered (acpi_mem p) ts (acpi_tables k'))) \<and>
     (\<forall>n. n < NUM_FRAMES \<longrightarrow> (page_busy (frames k') n \<longleftrightarrow> \<not> (\<exists>s \<in> set (ram_of p k). region_pages (kstart p) (kend p) s n)))"
proof -
  let ?k0 = "k\<lparr>console := vga_init (console k)\<rparr>"
  have i: "isrs_inv (handlers k)" "quiet (init_kbd_writes p)" "quiet (enable_kbd_writes p)" "kbd_inv (keyboard k)"
    "distinct (map (isr_stubs p) [0..<39])" "acpi_ok p"
    using assms by (simp_all add: platform_ok_def)
  have r0: "ram_of p ?k0 = ram_of p k" by (simp add: ram_of_def)
  have "vga_inv (console ?k0)" using assms clearscreen_screen [of "console k"] by (simp add: platform_ok_def vga_init_def)
  moreover have "platform_ok p ?k0" using assms clearscreen_screen [of "console k"] by (simp add: platform_ok_def vga_init_def)
  ultimately obtain c1 s bm where 1: "boot_memory p ?k0 = Ret (?k0\<lparr>console := c1, info := s, frames := bm\<rparr>)" "vga_inv c1"
    "\<forall>n. n < NUM_FRAMES \<longrightarrow> (page_busy bm n \<longleftrightarrow> \<not> (\<exists>s \<in> set (ram_of p k). region_pages (kstart p) (kend p) s n))"
    using boot_memory_returns [of p ?k0] unfolding r0 by blast
  define k1 where "k1 = k\<lparr>console := c1, info := s, frames := bm\<rparr>"
  obtain c2 gates where 2: "boot_interrupts p k1 = Ret (k1\<lparr>console := c2, handlers := init_isr_dispatcher (handlers k), idt := gates\<rparr>)" "vga_inv c2" "gates_ok p gates"
    using boot_interrupts_returns [OF i(5), of k1] 1(2) by (auto simp: k1_def)
  define k2 where "k2 = k1\<lparr>console := c2, handlers := init_isr_dispatcher (handlers k), idt := gates\<rparr>"
  have h: "isr_dispatcher_initialized (handlers k2)" "isr_handlers (handlers k2) = replicate 48 None"
    using init_isr_dispatcher_empty [OF i(1)] by (simp_all add: k2_def init_isr_dispatcher_def)
  obtain c3 h3 where 3: "boot_devices p k2 = Ret (k2\<lparr>console := c3, handlers := h3\<rparr>)" "vga_inv c3" "isr_handlers h3 = boot_handlers"
    using boot_devices_returns [OF h _ i(2,3)] 2(2) by (auto simp: k2_def)
  define k3 where "k3 = k2\<lparr>console := c3, handlers := h3\<rparr>"
  obtain a where a: "boot_acpi p k3 = Ret (k3\<lparr>acpi_tables := a\<rparr>)"
    "acpi_enabled p \<longrightarrow> (\<exists>rsdp ts. AcpiFindRootPointer (acpi_mem p) = Inr rsdp \<and> root_table (acpi_mem p) rsdp = Some ts \<and> registered (acpi_mem p) ts a)"
    using boot_acpi_returns [OF i(6)] by blast
  obtain q where 4: "init_schedular (idle_ref p) (runq k) = Ret (0, q)" "run_queue q [idle_ref p]" "current_task q = idle_ref p"
    using init_schedular_queue by blast
  define k4 where "k4 = k3\<lparr>acpi_tables := a, runq := q\<rparr>"
  obtain c4 where 5: "progress ''Schedular init'' False k4 = Ret (k4\<lparr>console := c4\<rparr>)" "vga_inv c4"
    using progress_inv [OF _ messages(5), of k4 False] 3(2) by (auto simp: k4_def k3_def)
  have "runq k3 = runq k" by (simp add: k3_def k2_def k1_def)
  then have "boot p k = Ret (k4\<lparr>console := c4\<rparr>)"
    using 1(1) 2(1) 3(1) a(1) 4(1) 5(1)
    by (simp add: boot_def k1_def [symmetric] k2_def [symmetric] k3_def [symmetric] k4_def [symmetric])
  then show ?thesis using 1(3) 2(3) 3(3) 4(2,3) 5(2) i(4) a(2) by (auto simp: kernel_inv_def k4_def k3_def k2_def k1_def)
qed

text \<open>
  C3. kernel_main reaches its idle loop: no check fails and no access is out of bounds on the way. This holds on every
  machine whose boot loader reports at most 20 entries of the memory map and 20 drives, one of the four boot drives
  that the kernel has names for when it reports one, and a command line and a loader name of less than 100
  characters; whose screen has 2000 cells; in a kernel whose module data are as they are at its entry, whose
  interrupt stubs have different addresses, and whose keyboard set-up in assembly does not write to the cursor
  registers; and, in a build with ACPI, with a root pointer in memory that leads to a root table of at most 14 tables.
  Then the console is in order, the gate of each vector below 39 leads to its own stub and that of the others to
  the stub of vector 20, vectors 0x20 and 0x21 have the timer and the keyboard for handlers and no
  other number has one, the run queue is the idle task, the ACPI tables are registered in a build with ACPI, and the
  free page frames are exactly those that the available entries of the memory map, cut to 32 bits, free; there are none
  when no memory map is reported under flag 0x20.
\<close>

theorem boot_reaches_idle:
  assumes "platform_ok p k"
  shows "\<exists>k'. boot p k = Ret k' \<and> vga_inv (console k') \<and> gates_ok p (idt k') \<and> isr_handlers (handlers k') = boot_handlers \<and>
     run_queue (runq k') [idle_ref p] \<and> current_task (runq k') = idle_ref p \<and>
     (acpi_enabled p \<longrightarrow> (\<exists>rsdp ts. AcpiFindRootPointer (acpi_mem p) = Inr rsdp \<and> root_table (acpi_mem p) rsdp = Some ts \<and>
       registered (acpi_mem p) ts (acpi_tables k'))) \<and>
     (\<forall>n. n < NUM_FRAMES \<and> \<not> page_busy (frames k') n \<longleftrightarrow>
          n < NUM_FRAMES \<and> list_ex (\<lambda>s. region_pages (kstart p) (kend p) s n) (ram_of p k))"
  using boot_returns [OF assms] by (auto simp: kernel_inv_def list_ex_iff)

definition boot_kernel :: kernel where
  "boot_kernel = \<lparr>console = vga_boot, info = sysinfo_boot, frames = (\<lambda>_. 0), handlers = isrs_boot, idt = [],
     keyboard = kbd_boot, acpi_tables = acpi0, runq = sched_one\<rparr>"

definition boot_platform :: platform where
  "boot_platform = \<lparr>kstart = 0x100000, kend = 0x10FFFF, isr_stubs = (\<lambda>v. 0x101000 + 16 * of_nat v), idt_addr = 0x108000,
     loader = loader_example, mbi = mi_example, kbd_result = 0, init_kbd_writes = [(0x64, 0x20), (0x64, 0x60), (0x60, 0x00)],
     enable_kbd_writes = [(0x64, 0x60), (0x60, 0x01)], idle_ref = 0,
     acpi_enabled = True, acpi_mem = firmware 2, acpi_eax = 7, acpi_ptr = 0xDEAD\<rparr>"

lemma boot_platform_ok: "platform_ok boot_platform boot_kernel"
proof -
  have "distinct (map (isr_stubs boot_platform) [0..<39])"
    by (simp add: boot_platform_def upt_rec)
  moreover have "acpi_ok boot_platform" by (simp add: acpi_ok_def boot_platform_def firmware_pointer firmware_tables(1))
  moreover have "loader_ok (loader boot_platform) (mbi boot_platform) (info boot_kernel)" "ram_nodes_cnt (info boot_kernel) = 0"
    using loader_example_ok by (simp_all add: boot_platform_def boot_kernel_def sysinfo_boot_def)
  ultimately show ?thesis
    using kbd_boot_inv by (simp add: platform_ok_def) (simp add: boot_platform_def boot_kernel_def vga_boot_def isrs_inv_def isrs_boot_def MAX_ISR_NUMBER_def)
qed

theorem boot_reaches_idle_witness:
  "\<exists>k'. boot boot_platform boot_kernel = Ret k' \<and> run_queue (runq k') [0] \<and> vga_inv (console k') \<and>
    (\<exists>ts. registered (firmware 2) ts (acpi_tables k'))"
  using boot_reaches_idle [OF boot_platform_ok] by (auto simp: boot_platform_def)

section \<open>Running\<close>

text \<open>
  An interrupt or exception of a vector, from the gate of the descriptor table to the return: the stub that the gate
  leads to pushes its number, isr_handler acknowledges and calls the handler by that number, and when
  a reschedule is pending the scheduler changes the running task. \<open>b\<close> is what the keyboard data port holds, \<open>ebp\<close> the
  frame pointer in schedule_pending. For seven exceptions the processor pushes an error code below the words of the
  stub; isr_common_stub does not remove it, and its return takes the error code for the instruction pointer. The model
  ends there.
\<close>

definition pushes_error_code :: "nat \<Rightarrow> bool" where
  "pushes_error_code v \<longleftrightarrow> v \<in> set [8, 10, 11, 12, 13, 14, 17]"

definition interrupt :: "platform \<Rightarrow> nat \<Rightarrow> u8 \<Rightarrow> u32 \<Rightarrow> kernel \<Rightarrow> kernel outcome" where
  "interrupt p v b ebp k =
     (if length (idt k) \<le> v \<or> \<not> gate_present (idt k ! v) then Trap
      else case stub_number (isr_stubs p) (segment_offset (idt k ! v)) of
        None \<Rightarrow> Trap
      | Some int_no \<Rightarrow>
          obind (isr_handler (of_nat int_no) (handlers k) (ports (console k))) (\<lambda>(log, h).
          let k = set_ports log k;
              k = (case h of
                     None \<Rightarrow> k
                   | Some Kbd_isr \<Rightarrow> k\<lparr>keyboard := kbd_isr b (keyboard k)\<rparr>
                   | Some Timer_isr \<Rightarrow> k\<lparr>runq := (runq k)\<lparr>schedule_request := timer_isr (schedule_request (runq k))\<rparr>\<rparr>)
          in obind (if schedule_request (runq k) = 0 then Ret k
                    else obind (schedule_pending ebp (runq k)) (\<lambda>(_, s). Ret (k\<lparr>runq := s\<rparr>))) (\<lambda>k.
             if pushes_error_code v then Trap else Ret k)))"

datatype event =
    Irq nat u8 u32
  | Puts "u8 list"
  | Alloc u32 u32
  | Read read_result
  | Spawn nat

inductive kstep :: "platform \<Rightarrow> kernel \<Rightarrow> event \<Rightarrow> kernel \<Rightarrow> bool" for p where
  irq: "interrupt p v b ebp k = Ret k' \<Longrightarrow> kstep p k (Irq v b ebp) k'"
| puts: "vga_puts cs (console k) = Ret c \<Longrightarrow> kstep p k (Puts cs) (k\<lparr>console := c\<rparr>)"
| alloc: "get_free_pages (frames k) n = Ret (a, bm) \<Longrightarrow> kstep p k (Alloc n a) (k\<lparr>frames := bm\<rparr>)"
| read: "read_key (keyboard k) = Ret (r, s) \<Longrightarrow> kstep p k (Read r) (k\<lparr>keyboard := s\<rparr>)"
| spawn: "run_queue (runq k) ts \<Longrightarrow> t \<notin> set ts \<Longrightarrow> length (task_name (tasks (runq k) t)) < 64 \<Longrightarrow>
    CHR 0x00 \<notin> set (task_name (tasks (runq k) t)) \<Longrightarrow> add_task_to_run_queue t (runq k) = Ret (r, s) \<Longrightarrow>
    kstep p k (Spawn t) (k\<lparr>runq := s\<rparr>)"

inductive kruns :: "platform \<Rightarrow> kernel \<Rightarrow> event list \<Rightarrow> kernel \<Rightarrow> bool" for p where
  stop: "kruns p k [] k"
| step: "kstep p k e k' \<Longrightarrow> kruns p k' es k'' \<Longrightarrow> kruns p k (e # es) k''"

inductive_cases alloc_stepE: "kstep p k (Alloc n a) k'"
inductive_simps kruns_simps: "kruns p k [] k'" "kruns p k (e # es) k'"

section \<open>What every run keeps\<close>

lemma schedule_pending_keeps:
  assumes "run_queue s ts"
  shows "\<exists>r s'. schedule_pending ebp s = Ret (r, s') \<and> run_queue s' ts"
proof -
  obtain i where "i < length ts" "current_task s = ts ! i"
    using assms by (auto simp: run_queue_def in_set_conv_nth)
  then show ?thesis using schedule_pending_step [OF assms, of i ebp] by blast
qed

text \<open>Only the seven vectors 32 to 38 of the first controller are acknowledged.\<close>

definition ack :: "nat \<Rightarrow> port_log" where
  "ack v = (if 32 \<le> v \<and> v < 39 then [(0x20, 0x20)] else [])"

lemma quiet_ack: "quiet (ack v)" by (simp add: ack_def)

lemma dispatch:
  assumes "isr_handlers h = boot_handlers" and "n < 39"
  shows "isr_handler (of_nat n) h log = Ret (log @ ack n, if n = 32 then Some Timer_isr else if n = 33 then Some Kbd_isr else None)"
proof -
  have v: "unat (of_nat n :: u32) = n" using assms(2) by (intro unat_of_nat_eq) simp
  have c: "32 \<le> (of_nat n :: u32) \<longleftrightarrow> 32 \<le> n" "(of_nat n :: u32) \<le> 47" "\<not> 40 \<le> (of_nat n :: u32)"
    using assms(2) unfolding word_le_nat_alt v by simp_all
  have "length boot_handlers = 48" "boot_handlers ! n = (if n = 32 then Some Timer_isr else if n = 33 then Some Kbd_isr else None)"
    using assms(2) by (simp_all add: boot_handlers_def nth_list_update)
  then show ?thesis using assms by (auto simp: isr_handler_def v c ack_def outb_def Let_def)
qed

lemma interrupt_after_boot:
  assumes "kernel_inv p k" and "v < 256" and "run_queue (runq k) ts"
  shows "\<exists>k'. interrupt p v b ebp k = (if pushes_error_code v then Trap else Ret k') \<and> kernel_inv p k' \<and>
     frames k' = frames k \<and> run_queue (runq k') ts \<and>
     keyboard k' = (if v = 33 then kbd_isr b (keyboard k) else keyboard k) \<and>
     ports (console k') = ports (console k) @ ack v \<and>
     (if schedule_request (runq k) = 0 \<and> v \<noteq> 32 then runq k' = runq k
      else \<exists>r q. schedule_pending ebp ((runq k)\<lparr>schedule_request := q\<rparr>) = Ret (r, runq k'))"
proof -
  have h: "isr_handlers (handlers k) = boot_handlers" "vga_inv (console k)" "kbd_inv (keyboard k)" "gates_ok p (idt k)"
    using assms(1) by (simp_all add: kernel_inv_def)
  define n where "n = (if v < 39 then v else 20)"
  have n: "n < 39" "n = 32 \<longleftrightarrow> v = 32" "n = 33 \<longleftrightarrow> v = 33" "ack n = ack v" by (auto simp: n_def ack_def)
  have g: "\<not> length (idt k) \<le> v" "gate_present (idt k ! v)" "stub_number (isr_stubs p) (segment_offset (idt k ! v)) = Some n"
    using h(4) assms(2) by (simp_all add: gates_ok_def n_def)
  note d = dispatch [OF h(1) n(1), of "ports (console k)", unfolded n(2-4)]
  let ?k1 = "set_ports (ports (console k) @ ack v) k"
  define k2 where "k2 = (case (if v = 32 then Some Timer_isr else if v = 33 then Some Kbd_isr else None) of
                None \<Rightarrow> ?k1
              | Some Kbd_isr \<Rightarrow> ?k1\<lparr>keyboard := kbd_isr b (keyboard ?k1)\<rparr>
              | Some Timer_isr \<Rightarrow> ?k1\<lparr>runq := (runq ?k1)\<lparr>schedule_request := timer_isr (schedule_request (runq ?k1))\<rparr>\<rparr>)"
  have vi: "vga_inv ((console k)\<lparr>ports := ports (console k) @ ack v\<rparr>)" using h(2) quiet_vga_inv [OF quiet_ack] by simp
  have rq: "run_queue ((runq k)\<lparr>schedule_request := x\<rparr>) ts" for x
    using assms(3) by (simp add: run_queue_def)
  have k2: "vga_inv (console k2)" "isr_handlers (handlers k2) = boot_handlers" "frames k2 = frames k" "run_queue (runq k2) ts"
    "keyboard k2 = (if v = 33 then kbd_isr b (keyboard k) else keyboard k)" "kbd_inv (keyboard k2)" "gates_ok p (idt k2)"
    "runq k2 = (if v = 32 then (runq k)\<lparr>schedule_request := 0x10\<rparr> else runq k)"
    "ports (console k2) = ports (console k) @ ack v"
    using h vi rq assms(3) by (auto simp: k2_def set_ports_def timer_isr_def kbd_isr_inv)
  obtain r s where s: "schedule_pending ebp (runq k2) = Ret (r, s)" "run_queue s ts" using schedule_pending_keeps [OF k2(4)] by blast
  have i: "interrupt p v b ebp k = (if pushes_error_code v then Trap else Ret (if schedule_request (runq k2) = 0 then k2 else k2\<lparr>runq := s\<rparr>))"
    unfolding interrupt_def g(3) option.case d obind_simps prod.case Let_def k2_def [symmetric] using g(1,2) by (simp add: s(1))
  have q: "\<exists>x. runq k2 = (runq k)\<lparr>schedule_request := x\<rparr>"
    by (rule exI [of _ "if v = 32 then 0x10 else schedule_request (runq k)"]) (simp add: k2(8))
  have z: "schedule_request (runq k2) = 0 \<longleftrightarrow> schedule_request (runq k) = 0 \<and> v \<noteq> 32" using k2(8) by auto
  show ?thesis
  proof (cases "schedule_request (runq k2) = 0")
    case True
    then have "runq k2 = runq k" using z k2(8) by simp
    then show ?thesis using True z i k2 by (intro exI [of _ k2]) (auto simp: kernel_inv_def)
  next
    case False
    then have "\<not> (schedule_request (runq k) = 0 \<and> v \<noteq> 32)" using z by simp
    moreover have "\<exists>r x. schedule_pending ebp ((runq k)\<lparr>schedule_request := x\<rparr>) = Ret (r, runq (k2\<lparr>runq := s\<rparr>))"
      using q s(1) by (metis kernel.select_convs(8) kernel.surjective kernel.update_convs(8))
    ultimately show ?thesis using False i k2 s(2) by (intro exI [of _ "k2\<lparr>runq := s\<rparr>"]) (auto simp: kernel_inv_def)
  qed
qed

lemma interrupt_Ret_vector: "kernel_inv p k \<Longrightarrow> interrupt p v b ebp k = Ret k' \<Longrightarrow> v < 256 \<and> \<not> pushes_error_code v"
  by (auto simp: interrupt_def kernel_inv_def gates_ok_def obind_eq_Ret Let_def split: if_splits option.splits)

lemma interrupt_returns:
  assumes "kernel_inv p k" and "v < 256" and "\<not> pushes_error_code v" and "run_queue (runq k) ts"
  shows "\<exists>k'. interrupt p v b ebp k = Ret k' \<and> kernel_inv p k' \<and> frames k' = frames k \<and> run_queue (runq k') ts"
  using interrupt_after_boot [OF assms(1,2,4), of b ebp] assms(3) by auto

lemma get_free_pages_busy: "get_free_pages bm n = Ret (a, bm') \<Longrightarrow> page_busy bm c \<Longrightarrow> page_busy bm' c"
proof (cases "a = NULL")
  case True
  assume r: "get_free_pages bm n = Ret (a, bm')" "page_busy bm c"
  show ?thesis using r(1)
  proof (cases rule: get_free_pages_Ret_cases)
    case null
    then show ?thesis using r(2) by simp
  next
    case (run f)
    then show ?thesis using get_free_pages_run [OF run(1-3)] r by auto
  qed
qed (use get_free_pages_block in blast)

lemma kstep_keeps: "kstep p k e k' \<Longrightarrow> kernel_inv p k \<Longrightarrow> kernel_inv p k' \<and> (\<forall>c. page_busy (frames k) c \<longrightarrow> page_busy (frames k') c)"
proof (induction rule: kstep.induct)
  case (irq v b ebp k k')
  then obtain ts where "run_queue (runq k) ts" by (auto simp: kernel_inv_def)
  then show ?case
    using interrupt_returns [OF irq(2), of v ts b ebp] interrupt_Ret_vector [OF irq(2,1)] irq(1) by auto
next
  case (puts cs k c)
  then show ?case using vga_puts_inv [of "console k" cs] by (auto simp: kernel_inv_def)
next
  case (alloc k n a bm)
  then show ?case using get_free_pages_busy by (auto simp: kernel_inv_def)
next
  case (read k r s)
  then show ?case using read_key_first_make [of "keyboard k"] by (auto simp: kernel_inv_def)
next
  case (spawn k ts t r s)
  then show ?case using add_task_queue [OF spawn(1-4)] by (auto simp: kernel_inv_def)
qed

lemma kruns_keeps: "kruns p k es k' \<Longrightarrow> kernel_inv p k \<Longrightarrow> kernel_inv p k' \<and> (\<forall>c. page_busy (frames k) c \<longrightarrow> page_busy (frames k') c)"
  by (induction rule: kruns.induct) (auto dest: kstep_keeps)


text \<open>The blocks of page frames that a run hands out.\<close>

fun allocated :: "event list \<Rightarrow> nat set list" where
  "allocated [] = []"
| "allocated (Alloc n a # es) =
     (if a = NULL then allocated es else {unat a div 4096..<unat a div 4096 + unat n} # allocated es)"
| "allocated (_ # es) = allocated es"

definition disjoint_sets :: "nat set \<Rightarrow> nat set \<Rightarrow> bool" where
  "disjoint_sets x y \<longleftrightarrow> x \<inter> y = {}"

definition free_frames :: "kernel \<Rightarrow> nat set" where
  "free_frames k = {n. n < 1048576 \<and> \<not> page_busy (frames k) (of_nat n)}"

lemma alloc_block:
  assumes "get_free_pages (frames k) n = Ret (a, bm)" and "a \<noteq> NULL"
  shows "{unat a div 4096..<unat a div 4096 + unat n} \<subseteq> free_frames k"
    "{unat a div 4096..<unat a div 4096 + unat n} \<inter> free_frames (k\<lparr>frames := bm\<rparr>) = {}"
proof -
  note b = get_free_pages_block [OF assms]
  show "{unat a div 4096..<unat a div 4096 + unat n} \<subseteq> free_frames k" using b by (auto simp: free_frames_def)
  have "page_busy bm (of_nat i)" if "unat a div 4096 \<le> i" "i < unat a div 4096 + unat n" for i
  proof -
    have "unat (of_nat i :: u32) = i" using that b by (intro unat_of_nat_eq) simp
    then show ?thesis using b that by auto
  qed
  then show "{unat a div 4096..<unat a div 4096 + unat n} \<inter> free_frames (k\<lparr>frames := bm\<rparr>) = {}"
    by (auto simp: free_frames_def)
qed

lemma kstep_frames: "kstep p k e k' \<Longrightarrow> kernel_inv p k \<Longrightarrow> free_frames k' \<subseteq> free_frames k"
  using kstep_keeps by (fastforce simp: free_frames_def)

lemma allocated_disjoint:
  "kruns p k es k' \<Longrightarrow> kernel_inv p k \<Longrightarrow> sorted_wrt disjoint_sets (allocated es) \<and> (\<forall>S \<in> set (allocated es). S \<subseteq> free_frames k)"
proof (induction rule: kruns.induct)
  case (step k e k' es k'')
  have i: "kernel_inv p k'" "free_frames k' \<subseteq> free_frames k"
    using kstep_keeps [OF step(1,4)] kstep_frames [OF step(1,4)] by blast+
  note ih = step.IH [OF i(1)]
  then have ih': "sorted_wrt disjoint_sets (allocated es)" "\<And>S. S \<in> set (allocated es) \<Longrightarrow> S \<subseteq> free_frames k"
    using i(2) by blast+
  show ?case
  proof (cases e)
    case (Alloc n a)
    then obtain bm where g: "get_free_pages (frames k) n = Ret (a, bm)" "k' = k\<lparr>frames := bm\<rparr>"
      using step(1) by (auto elim: alloc_stepE)
    show ?thesis
    proof (cases "a = NULL")
      case False
      note b = alloc_block [OF g(1) False]
      have "disjoint_sets {unat a div 4096..<unat a div 4096 + unat n} T" if "T \<in> set (allocated es)" for T
        using b(2) that ih g(2) unfolding disjoint_sets_def by blast
      then show ?thesis using ih' b(1) by (simp add: Alloc False)
    qed (use ih' in \<open>simp add: Alloc\<close>)
  qed (use ih' in simp_all)
qed simp

text \<open>
  What a frame has of an entry of the memory map, in the full width of the entry: a byte of it, or all its
  bytes.
\<close>

definition frame_meets :: "multiboot_mmap_entry \<Rightarrow> nat \<Rightarrow> bool" where
  "frame_meets e n \<longleftrightarrow> unat (mm_addr e) < 4096 * (n + 1) \<and> 4096 * n < unat (mm_addr e) + unat (mm_len e)"

definition frame_inside :: "multiboot_mmap_entry \<Rightarrow> nat \<Rightarrow> bool" where
  "frame_inside e n \<longleftrightarrow> unat (mm_addr e) \<le> 4096 * n \<and> 4096 * (n + 1) \<le> unat (mm_addr e) + unat (mm_len e)"

definition whole_pages :: "multiboot_mmap_entry \<Rightarrow> bool" where
  "whole_pages e \<longleftrightarrow> unat (mm_addr e) mod 4096 = 0 \<and> unat (mm_len e) mod 4096 = 0"

definition below_4gib :: "multiboot_mmap_entry \<Rightarrow> bool" where
  "below_4gib e \<longleftrightarrow> 0 < unat (mm_len e) \<and> unat (mm_addr e) + unat (mm_len e) \<le> 4294967296"

lemma region_pages_bounds:
  assumes "image_apart ks ke nodes" and "region_pages ks ke s c"
  shows "GET_PAGENO (saddr s) \<le> c \<and> c \<le> GET_PAGENO (saddr s + len s - 1)"
proof -
  have i: "0 < ks" "ks \<le> ke" "unat ke + 4096 < 4294967296" using assms(1) by (simp_all add: image_apart_def)
  show ?thesis
  proof (cases "saddr s \<le> ks \<and> ke < saddr s + len s")
    case True
    have "ks - 1 \<le> saddr s + len s - 1"
    proof -
      have "ks \<le> saddr s + len s" using True i(2) by (meson le_less_trans less_imp_le)
      then show ?thesis using i(1) by (simp add: word_le_nat_alt word_less_nat_alt unat_sub_if' unat_minus_one)
    qed
    then have u: "GET_PAGENO (ks - 1) \<le> GET_PAGENO (saddr s + len s - 1)" by (rule pageno_mono)
    have "saddr s \<le> ke + PAGE_SIZE"
      using True i(2,3) by (simp add: word_le_nat_alt PAGE_SIZE_def unat_word_ariths)
    then have "GET_PAGENO (saddr s) \<le> GET_PAGENO (ke + PAGE_SIZE)" by (rule pageno_mono)
    then show ?thesis using True u assms(2) unfolding region_pages_def by (auto intro: order_trans)
  next
    case False
    then show ?thesis using assms(2) by (simp only: region_pages_def if_False)
  qed
qed

lemma region_frame_meets:
  assumes "image_apart ks ke nodes" and "region_pages ks ke (trunc_entry e) (of_nat n)" and "below_4gib e" and "n < 1048576"
  shows "frame_meets e n \<and> (whole_pages e \<longrightarrow> frame_inside e n)"
proof -
  let ?a = "unat (mm_addr e)" and ?l = "unat (mm_len e)"
  have l: "0 < ?l" "?a + ?l \<le> 4294967296" using assms(3) by (simp_all add: below_4gib_def)
  have n: "unat (of_nat n :: u32) = n" using assms(4) by (intro unat_of_nat_eq) simp
  have a: "unat (ucast (mm_addr e) :: u32) = ?a"
    using l by (simp add: unsigned_ucast_eq take_bit_nat_eq_self)
  have "(ucast (mm_addr e) + ucast (mm_len e) - 1 :: u32) = of_nat (?a + ?l - 1)"
    using l by (simp add: of_nat_diff)
  then have e: "unat (ucast (mm_addr e) + ucast (mm_len e) - 1 :: u32) = ?a + ?l - 1"
    using l by (simp only:) (intro unat_of_nat_eq, simp)
  have "?a div 4096 \<le> n \<and> n \<le> (?a + ?l - 1) div 4096"
    using region_pages_bounds [OF assms(1,2)] unfolding word_le_nat_alt
    by (simp only: GET_PAGENO_def PAGE_SIZE_def unat_div n trunc_entry_def ram_map_t.select_convs a e) simp
  then have b: "?a < 4096 * (n + 1)" "4096 * n < ?a + ?l" using l(1) by (auto simp: less_eq_div_iff_mult_less_eq div_le_mono)
  then have "?a \<le> 4096 * n \<and> 4096 * (n + 1) \<le> ?a + ?l" if "?a mod 4096 = 0" "?l mod 4096 = 0"
  proof -
    have a: "?a = 4096 * (?a div 4096)" using that(1) by (metis add_0_right mult_div_mod_eq)
    have l: "?l = 4096 * (?l div 4096)" using that(2) by (metis add_0_right mult_div_mod_eq)
    have "4096 * i \<le> 4096 * n \<and> 4096 * (n + 1) \<le> 4096 * i + 4096 * j"
      if "4096 * i < 4096 * (n + 1)" "4096 * n < 4096 * i + 4096 * j" for i j :: nat
    proof -
      have "i < n + 1" using that(1) by (simp only: mult_less_cancel1)
      moreover have "n < i + j" using that(2) by (simp only: distrib_left [symmetric] mult_less_cancel1)
      ultimately have "i \<le> n" "n + 1 \<le> i + j" by simp_all
      then show ?thesis by (simp only: distrib_left [symmetric] mult_le_mono2)
    qed
    from this [of "?a div 4096" "?l div 4096"] b show ?thesis unfolding a [symmetric] l [symmetric] by blast
  qed
  then show ?thesis using b by (simp add: frame_meets_def frame_inside_def whole_pages_def)
qed


text \<open>A run of the example machine: a key, a tick, and three requests for memory. Its first frame is
  frame 0, which the caller takes for a failure.\<close>

lemma example_entries: "ram_entries boot_platform boot_kernel =
  [\<lparr>mm_size = 20, mm_addr = 0, mm_len = 0x9F000, mm_type = 1\<rparr>, \<lparr>mm_size = 20, mm_addr = 0x100000, mm_len = 0x7F00000, mm_type = 1\<rparr>]"
  by (simp add: ram_entries_def reported_entries_def boot_platform_def boot_kernel_def mi_example_def loader_example_def
      MULTIBOOT_MEMORY_AVAILABLE_def MULTIBOOT_INFO_MEM_MAP_def)

lemma example_ram: "ram_of boot_platform boot_kernel = [\<lparr>saddr = 0, len = 0x9F000\<rparr>, \<lparr>saddr = 0x100000, len = 0x7F00000\<rparr>]"
  by (simp add: ram_of_entries example_entries trunc_entry_def)

lemma example_image: "image_apart (kstart boot_platform) (kend boot_platform) (ram_of boot_platform boot_kernel)"
  unfolding example_ram by (simp add: image_apart_def boot_platform_def GET_PAGENO_def PAGE_SIZE_def)

lemma example_low: "list_all below_4gib (ram_entries boot_platform boot_kernel)"
  by (simp add: example_entries below_4gib_def)

lemma alloc_one:
  assumes "f < 1048576" and "\<not> page_busy (frames k) (of_nat f)" and "\<And>n. n < f \<Longrightarrow> page_busy (frames k) (of_nat n)"
  shows "\<exists>bm. kstep p k (Alloc 1 (of_nat (f * 4096))) (k\<lparr>frames := bm\<rparr>) \<and>
     (\<forall>c. page_busy bm c \<longleftrightarrow> c = of_nat f \<or> page_busy (frames k) c)"
proof -
  have u: "unat (of_nat n :: u32) = n" if "n \<le> f" for n using that assms(1) by (intro unat_of_nat_eq) simp
  have n: "page_busy (frames k) (of_nat n) = busyn (frames k) n" if "n \<le> f" for n
    using u [OF that] by (simp add: page_busy_def)
  have ff: "first_free (frames k) 0 = Some f"
    using assms n by (auto simp: first_free_Some)
  then have "1 \<le> run_len (frames k) f" using run_len_pos [of f "frames k"] assms(1,2) n by simp
  then obtain bm where bm: "get_free_pages (frames k) 1 = Ret (of_nat (f * 4096), bm)"
    "\<And>c. page_busy bm c \<longleftrightarrow> (f \<le> unat c \<and> unat c < f + 1) \<or> page_busy (frames k) c"
    using get_free_pages_run [of 1 "frames k" f] ff by (auto simp: PAGENO_TO_ADDR_def PAGE_SIZE_def)
  have "(f \<le> unat c \<and> unat c < f + 1) = (c = of_nat f)" for c :: u32
    using u [of f] by (auto simp: word_unat_eq_iff)
  then show ?thesis using bm kstep.alloc by blast
qed

lemma served_vectors: "\<not> pushes_error_code 32" "\<not> pushes_error_code 33"
  by (simp_all add: pushes_error_code_def)

lemma example_run:
  "\<exists>k0 k'. boot boot_platform boot_kernel = Ret k0 \<and>
     kruns boot_platform k0 [Irq 33 0x1C 0x9000, Irq 32 0 0x9000, Alloc 1 0, Alloc 1 0x1000, Alloc 1 0x2000] k'"
proof -
  let ?p = boot_platform
  obtain k0 where k0: "boot ?p boot_kernel = Ret k0" "kernel_inv ?p k0" "run_queue (runq k0) [0]"
    "\<And>n. n < NUM_FRAMES \<Longrightarrow> page_busy (frames k0) n \<longleftrightarrow> \<not> (\<exists>s \<in> set (ram_of ?p boot_kernel). region_pages 0x100000 0x10FFFF s n)"
    using boot_returns [OF boot_platform_ok] by (auto simp: boot_platform_def)
  have low: "\<not> page_busy (frames k0) (of_nat n)" if "n < 3" for n
  proof -
    have "unat (of_nat n :: u32) = n" using that by (intro unat_of_nat_eq) simp
    then have "(of_nat n :: u32) < NUM_FRAMES" "(of_nat n :: u32) \<le> 0x9E" using that by (simp_all add: word_less_nat_alt word_le_nat_alt)
    then show ?thesis by (simp add: k0(4) example_ram region_pages_def GET_PAGENO_def PAGE_SIZE_def)
  qed
  obtain k1 where k1: "interrupt ?p 33 0x1C 0x9000 k0 = Ret k1" "kernel_inv ?p k1" "frames k1 = frames k0" "run_queue (runq k1) [0]"
    using interrupt_returns [OF k0(2) _ served_vectors(2) k0(3), of "0x1C" "0x9000"] by auto
  obtain k2 where k2: "interrupt ?p 32 0 0x9000 k1 = Ret k2" "frames k2 = frames k0"
    using interrupt_returns [OF k1(2) _ served_vectors(1) k1(4), of 0 "0x9000"] k1(3) by auto
  have f0: "\<not> page_busy (frames k2) 0" "\<not> page_busy (frames k2) 1" "\<not> page_busy (frames k2) 2"
    using low [of 0] low [of 1] low [of 2] k2(2) by simp_all
  obtain b3 where b3: "kstep ?p k2 (Alloc 1 0) (k2\<lparr>frames := b3\<rparr>)" "\<And>c. page_busy b3 c \<longleftrightarrow> c = 0 \<or> page_busy (frames k2) c"
    using alloc_one [of 0 k2 ?p] f0 by auto
  obtain b4 where b4: "kstep ?p (k2\<lparr>frames := b3\<rparr>) (Alloc 1 0x1000) (k2\<lparr>frames := b4\<rparr>)" "\<And>c. page_busy b4 c \<longleftrightarrow> c = 1 \<or> c = 0 \<or> page_busy (frames k2) c"
    using alloc_one [of 1 "k2\<lparr>frames := b3\<rparr>" ?p] f0 b3(2) by auto
  obtain b5 where b5: "kstep ?p (k2\<lparr>frames := b4\<rparr>) (Alloc 1 0x2000) (k2\<lparr>frames := b5\<rparr>)"
  proof -
    have "page_busy b4 (of_nat n)" if "n < 2" for n using that b4(2) by (cases "n = 0") (simp_all add: less_2_cases_iff)
    then show ?thesis using alloc_one [of 2 "k2\<lparr>frames := b4\<rparr>" ?p] f0 b4(2) that by auto
  qed
  have "kruns ?p k0 [Irq 33 0x1C 0x9000, Irq 32 0 0x9000, Alloc 1 0, Alloc 1 0x1000, Alloc 1 0x2000] (k2\<lparr>frames := b5\<rparr>)"
    using k1(1) k2(1) b3(1) b4(1) b5 by (auto intro!: kruns.intros kstep.irq)
  then show ?thesis using k0(1) by blast
qed



section \<open>Threads share the processor\<close>

text \<open>
  How often a run rotates the queue: at each timer interrupt, and at an interrupt of any kind when a
  reschedule is pending, which is the case after start-up.
\<close>

fun turns :: "bool \<Rightarrow> event list \<Rightarrow> nat" where
  "turns pending [] = 0"
| "turns pending (Irq v b ebp # es) = (if pending \<or> v = 32 then Suc (turns False es) else turns False es)"
| "turns pending (_ # es) = turns pending es"

fun spawns :: "event \<Rightarrow> bool" where
  "spawns (Spawn t) = True" | "spawns _ = False"

lemma schedule_pending_request: "schedule_pending ebp s = Ret (r, s') \<Longrightarrow> schedule_request s' = 0"
  by (auto simp: schedule_pending_def Let_def update_task_def split: option.splits)

lemma irq_turn:
  assumes "kernel_inv p k" and "interrupt p v b ebp k = Ret k'"
    and "run_queue (runq k) ts" and "i < length ts" and "current_task (runq k) = ts ! i"
  shows "schedule_request (runq k') = 0 \<and> run_queue (runq k') ts \<and>
     current_task (runq k') = ts ! ((if schedule_request (runq k) \<noteq> 0 \<or> v = 32 then i + 1 else i) mod length ts)"
proof -
  have v: "v < 256" using interrupt_Ret_vector [OF assms(1,2)] by simp
  have k': "run_queue (runq k') ts" "if schedule_request (runq k) = 0 \<and> v \<noteq> 32 then runq k' = runq k
      else \<exists>r q. schedule_pending ebp ((runq k)\<lparr>schedule_request := q\<rparr>) = Ret (r, runq k')"
    using interrupt_after_boot [OF assms(1) v assms(3), of b ebp] assms(2) by (auto split: if_splits)
  show ?thesis
  proof (cases "schedule_request (runq k) = 0 \<and> v \<noteq> 32")
    case False
    then obtain r q where r: "schedule_pending ebp ((runq k)\<lparr>schedule_request := q\<rparr>) = Ret (r, runq k')" using k'(2) by auto
    have "run_queue ((runq k)\<lparr>schedule_request := q\<rparr>) ts" using assms(3) by (simp add: run_queue_def)
    then have "current_task (runq k') = ts ! ((i + 1) mod length ts)"
      using schedule_pending_step [of "(runq k)\<lparr>schedule_request := q\<rparr>" ts i ebp] assms(4,5) r by auto
    then show ?thesis using False k'(1) schedule_pending_request [OF r] by auto
  next
    case True
    then have "runq k' = runq k" using k'(2) by simp
    then show ?thesis using True k'(1) assms(4,5) by simp
  qed
qed

text \<open>
  C4. The processor is shared fairly whatever else happens: in any run from a state with the invariant of C5 that starts
  no new thread, with interrupts of
  other kinds, console output and memory requests in any order between the ticks, the running thread
  after \<open>n\<close> turns is the one \<open>n\<close> places further in the queue. A turn is a timer interrupt, and the first interrupt of
  any kind when a reschedule is already pending: so it is right after start-up, where schedule_request has the
  initial value 0x10, and the first key then rotates the queue too.
\<close>

theorem timer_rotates_threads:
  assumes "kruns p k es k'" and "kernel_inv p k" and "list_all (\<lambda>e. \<not> spawns e) es"
    and "run_queue (runq k) ts" and "i < length ts" and "current_task (runq k) = ts ! i"
  shows "run_queue (runq k') ts \<and> current_task (runq k') = ts ! ((i + turns (schedule_request (runq k) \<noteq> 0) es) mod length ts)"
  using assms
proof (induction arbitrary: i rule: kruns.induct)
  case (step k e k' es k'')
  have n: "\<not> spawns e" "list_all (\<lambda>e. \<not> spawns e) es" using step.prems(2) by simp_all
  let ?P = "schedule_request (runq k) \<noteq> 0" and ?P' = "schedule_request (runq k') \<noteq> 0"
  let ?j = "(i + turns ?P [e]) mod length ts"
  have "?j < length ts" using step.prems(4) by (intro mod_less_divisor) auto
  moreover have "turns ?P (e # es) = turns ?P [e] + turns ?P' es \<and> run_queue (runq k') ts \<and> current_task (runq k') = ts ! ?j"
    using step.hyps(1)
  proof cases
    case (irq v b ebp)
    then show ?thesis using irq_turn [OF step.prems(1) irq(2) step.prems(3,4,5)] step.prems(4) by auto
  next
    case (spawn ts t r s)
    then show ?thesis using n by simp
  qed (use step.prems in simp_all)
  moreover have "kernel_inv p k'" using kstep_keeps [OF step.hyps(1) step.prems(1)] by blast
  ultimately show ?case
    using step.IH [of ?j] n(2) by (simp add: mod_add_left_eq add.assoc)
qed simp

theorem timer_rotates_threads_witness:
  "\<exists>k k'. schedule_request (runq k) = 0x10 \<and> current_task (runq k) = 0 \<and>
    kruns boot_platform k [Irq 33 0x1C 0x9000, Puts [], Irq 33 0x9C 0x9000, Irq 32 0 0x9000] k' \<and> current_task (runq k') = 0"
proof -
  let ?p = boot_platform
  obtain k0 where k0: "kernel_inv ?p k0" using boot_returns [OF boot_platform_ok] by blast
  define k where "k = k0\<lparr>runq := sched_two\<lparr>schedule_request := 0x10\<rparr>\<rparr>"
  have q: "run_queue (runq k) [0, 1]" "current_task (runq k) = 0" "schedule_request (runq k) = 0x10"
    using small_queues(2) by (simp_all add: k_def run_queue_def sched_two_def)
  then have k: "kernel_inv ?p k" using k0 by (auto simp: kernel_inv_def k_def)
  obtain k1 where k1: "interrupt ?p 33 0x1C 0x9000 k = Ret k1" "kernel_inv ?p k1" "run_queue (runq k1) [0, 1]"
    using interrupt_returns [OF k _ served_vectors(2) q(1), of "0x1C" "0x9000"] by auto
  obtain k2 where k2: "interrupt ?p 33 0x9C 0x9000 k1 = Ret k2" "kernel_inv ?p k2" "run_queue (runq k2) [0, 1]"
    using interrupt_returns [OF k1(2) _ served_vectors(2) k1(3), of "0x9C" "0x9000"] by auto
  obtain k3 where k3: "interrupt ?p 32 0 0x9000 k2 = Ret k3"
    using interrupt_returns [OF k2(2) _ served_vectors(1) k2(3), of 0 "0x9000"] by auto
  have "kstep ?p k1 (Puts []) k1" using kstep.puts [of "[]" k1 "console k1"] by simp
  then have r: "kruns ?p k [Irq 33 0x1C 0x9000, Puts [], Irq 33 0x9C 0x9000, Irq 32 0 0x9000] k3"
    using k1(1) k2(1) k3 by (auto intro!: kruns.intros kstep.irq)
  have "current_task (runq k3) = [0, 1] ! ((0 + turns True [Irq 33 0x1C 0x9000, Puts [], Irq 33 0x9C 0x9000, Irq 32 0 0x9000]) mod length [0, 1 :: nat])"
    using timer_rotates_threads [OF r k _ q(1), of 0] q(2,3) by simp
  then show ?thesis using r q(2,3) by auto
qed

end
