(* ===== verification/AcpiMath.thy ===== *)
theory AcpiMath
  imports AcpiBase
begin

text \<open>
  64-bit division for 32-bit machines, lib/acpi/components/utilities/utmath.c. The two macros of the
  platform, ACPI_SHIFT_RIGHT_64 and ACPI_DIV_64_BY_32, are arguments of the operations. Given with
  them are what the instructions \<^verbatim>\<open>shr, rcr\<close> and \<^verbatim>\<open>div\<close> of the i386 do, as the Microsoft
  header writes them (include/acpi/platform/acmsvc.h), and what the header of this kernel defines
  (acganoid.h): a message and no more. The native versions behind \<^verbatim>\<open>#else\<close> are the reference.
\<close>

definition AE_AML_DIVIDE_BY_ZERO :: ACPI_STATUS where "AE_AML_DIVIDE_BY_ZERO = 0x300C"

definition shift_right_64 :: "u32 \<times> u32 \<Rightarrow> u32 \<times> u32" where
  "shift_right_64 p = (drop_bit 1 (fst p), drop_bit 1 (snd p) OR push_bit 31 (fst p AND 1))"

text \<open>The quotient and the remainder; a quotient of more than 32 bits is a divide error.\<close>

definition div_64_by_32 :: "u32 \<Rightarrow> u32 \<Rightarrow> u32 \<Rightarrow> (u32 \<times> u32) outcome" where
  "div_64_by_32 n_hi n_lo d32 =
     (if d32 \<le> n_hi then Trap
      else let n = full64 (n_hi, n_lo) in Ret (ucast (n div ucast d32), ucast (n mod ucast d32)))"

text \<open>
  The macros of this kernel only print. The variables for the quotient and the remainder are not set by it and
  hold anything: \<open>unset\<close> is what the caller reads there, for each call by its operands.
\<close>

definition ganoid_div_64_by_32 :: "(u32 \<Rightarrow> u32 \<Rightarrow> u32 \<Rightarrow> u32 \<times> u32) \<Rightarrow> u32 \<Rightarrow> u32 \<Rightarrow> u32 \<Rightarrow> (u32 \<times> u32) outcome" where
  "ganoid_div_64_by_32 unset n_hi n_lo d32 = Ret (unset n_hi n_lo d32)"

definition ganoid_shift_right_64 :: "u32 \<times> u32 \<Rightarrow> u32 \<times> u32" where
  "ganoid_shift_right_64 p = p"

text \<open>The shifts of the language on 64 bits, which are undefined for a count of 64 and more.\<close>

definition shift_right :: "u64 \<Rightarrow> nat \<Rightarrow> u64 outcome" where
  "shift_right v n = (if n < 64 then Ret (drop_bit n v) else Trap)"

definition shift_left :: "u64 \<Rightarrow> nat \<Rightarrow> u64 outcome" where
  "shift_left v n = (if n < 64 then Ret (push_bit n v) else Trap)"

section \<open>The operations\<close>

definition AcpiUtShortDivide ::
  "(u32 \<Rightarrow> u32 \<Rightarrow> u32 \<Rightarrow> (u32 \<times> u32) outcome) \<Rightarrow> u64 \<Rightarrow> u32 \<Rightarrow> (ACPI_STATUS + u64 \<times> u32) outcome" where
  "AcpiUtShortDivide div64 Dividend Divisor =
     (if Divisor = 0 then Ret (Inl AE_AML_DIVIDE_BY_ZERO)
      else obind (div64 0 (hi32 Dividend) Divisor) (\<lambda>(q_hi, r).
           obind (div64 r (lo32 Dividend) Divisor) (\<lambda>(q_lo, r).
           Ret (Inr (full64 (q_hi, q_lo), r)))))"

text \<open>The loop that shifts both operands until the divisor fits in 32 bits.\<close>

partial_function (option) normalize ::
  "(u32 \<times> u32 \<Rightarrow> u32 \<times> u32) \<Rightarrow> u32 \<times> u32 \<Rightarrow> u32 \<times> u32 \<Rightarrow> ((u32 \<times> u32) \<times> (u32 \<times> u32)) outcome option" where
  "normalize shr nd nn =
     (let nd = shr nd; nn = shr nn
      in if fst nd \<noteq> 0 then normalize shr nd nn else Some (Ret (nd, nn)))"

definition AcpiUtDivide ::
  "(u32 \<times> u32 \<Rightarrow> u32 \<times> u32) \<Rightarrow> (u32 \<Rightarrow> u32 \<Rightarrow> u32 \<Rightarrow> (u32 \<times> u32) outcome) \<Rightarrow> u64 \<Rightarrow> u64 \<Rightarrow> (ACPI_STATUS + u64 \<times> u64) outcome" where
  "AcpiUtDivide shr div64 Dividend Divisor =
     (if Divisor = 0 then Ret (Inl AE_AML_DIVIDE_BY_ZERO)
      else if hi32 Divisor = 0
      then obind (div64 0 (hi32 Dividend) (lo32 Divisor)) (\<lambda>(q_hi, partial1).
           obind (div64 partial1 (lo32 Dividend) (lo32 Divisor)) (\<lambda>(q_lo, r_lo).
           Ret (Inr (full64 (q_hi, q_lo), full64 (0, r_lo)))))
      else obind (of_loop (normalize shr (hi32 Divisor, lo32 Divisor) (hi32 Dividend, lo32 Dividend))) (\<lambda>(nd, nn).
           obind (div64 (fst nn) (snd nn) (snd nd)) (\<lambda>(q, _).
           let partial1 = q * hi32 Divisor;
               partial2 = ucast q * ucast (lo32 Divisor) :: u64;
               partial3 = ucast (hi32 partial2) + ucast partial1 :: u64;
               r = full64 (lo32 partial3, lo32 partial2)
           in if hi32 partial3 = 0
              then let (q, r) =
                         (if lo32 partial3 \<ge> hi32 Dividend
                          then if lo32 partial3 = hi32 Dividend
                               then if lo32 partial2 > lo32 Dividend then (q - 1, r - Divisor) else (q, r)
                               else (q - 1, r - Divisor)
                          else (q, r));
                       r = r - Dividend;
                       h = - hi32 r;
                       l = - lo32 r;
                       h = (if l \<noteq> 0 then h - 1 else h)
                   in Ret (Inr (full64 (0, q), full64 (h, l)))
              else Ret (Inr (full64 (0, q), r)))))"

definition native_ShortDivide :: "u64 \<Rightarrow> u32 \<Rightarrow> ACPI_STATUS + u64 \<times> u32" where
  "native_ShortDivide InDividend Divisor =
     (if Divisor = 0 then Inl AE_AML_DIVIDE_BY_ZERO
      else Inr (InDividend div ucast Divisor, ucast (InDividend mod ucast Divisor)))"

definition native_Divide :: "u64 \<Rightarrow> u64 \<Rightarrow> ACPI_STATUS + u64 \<times> u64" where
  "native_Divide InDividend InDivisor =
     (if InDivisor = 0 then Inl AE_AML_DIVIDE_BY_ZERO
      else Inr (InDividend div InDivisor, InDividend mod InDivisor))"

section \<open>Dividing by 32 bits\<close>

lemma unat_ucast_64: "unat (ucast (w :: u32) :: u64) = unat w"
  using unat_u32_less [of w] by (simp add: unsigned_ucast_eq take_bit_nat_eq_self)

lemma div_64_by_32_nat:
  assumes "h < d"
  shows "\<exists>q r. div_64_by_32 h l d = Ret (q, r) \<and> unat q = (unat h * 4294967296 + unat l) div unat d \<and>
     unat r = (unat h * 4294967296 + unat l) mod unat d"
proof -
  let ?n = "unat h * 4294967296 + unat l"
  have d: "unat h < unat d" "unat d < 4294967296" using assms unat_u32_less [of d] by (simp_all add: word_less_nat_alt)
  then have n: "?n < unat d * 4294967296" using unat_u32_less [of l] by (cases "unat d") auto
  have q: "?n div unat d < 4294967296" using n d by (simp add: div_less_iff_less_mult mult.commute)
  have r: "?n mod unat d < 4294967296" using mod_less_divisor [of "unat d" ?n] d by linarith
  have "unat (full64 (h, l) div ucast d) = ?n div unat d" "unat (full64 (h, l) mod ucast d) = ?n mod unat d"
    by (simp_all add: unat_div unat_mod unat_full64 unat_ucast_64)
  then have "unat (ucast (full64 (h, l) div ucast d) :: u32) = ?n div unat d" "unat (ucast (full64 (h, l) mod ucast d) :: u32) = ?n mod unat d"
    using q r by (simp_all add: unsigned_ucast_eq take_bit_nat_eq_self)
  then show ?thesis using assms by (simp add: div_64_by_32_def Let_def not_le)
qed

lemma split_scale: "(a :: nat) * k = a div d * k * d + a mod d * k"
proof -
  have "a * k = (a div d * d + a mod d) * k" by (simp only: div_mult_mod_eq)
  also have "\<dots> = a div d * k * d + a mod d * k" by (simp only: distrib_right mult.assoc mult.commute [of d k])
  finally show ?thesis .
qed

lemma long_division:
  assumes "d \<noteq> 0"
  shows "\<exists>q1 r1 q2 r2. div_64_by_32 0 (hi32 n) d = Ret (q1, r1) \<and> div_64_by_32 r1 (lo32 n) d = Ret (q2, r2) \<and>
     full64 (q1, q2) = n div ucast d \<and> unat r2 = unat n mod unat d"
proof -
  let ?H = "unat n div 4294967296" and ?L = "unat n mod 4294967296"
  have d: "0 < unat d" using assms by (simp add: unat_gt_0)
  obtain q1 r1 where 1: "div_64_by_32 0 (hi32 n) d = Ret (q1, r1)" "unat q1 = ?H div unat d" "unat r1 = ?H mod unat d"
    using div_64_by_32_nat [of 0 d "hi32 n"] assms by (auto simp: unat_hi32 word_neq_0_conv)
  then have "r1 < d" using d by (simp add: word_less_nat_alt)
  then obtain q2 r2 where 2: "div_64_by_32 r1 (lo32 n) d = Ret (q2, r2)"
    "unat q2 = (?H mod unat d * 4294967296 + ?L) div unat d" "unat r2 = (?H mod unat d * 4294967296 + ?L) mod unat d"
    using div_64_by_32_nat [of r1 d "lo32 n"] 1(3) by (auto simp: unat_lo32)
  have n: "unat n = (?H div unat d * 4294967296) * unat d + (?H mod unat d * 4294967296 + ?L)"
  proof -
    show ?thesis using split_scale [of ?H 4294967296 "unat d"] div_mult_mod_eq [of "unat n" 4294967296] by linarith
  qed
  have "unat n div unat d = ?H div unat d * 4294967296 + (?H mod unat d * 4294967296 + ?L) div unat d"
    using d by (subst n) (simp add: mult.commute [of _ "unat d"])
  moreover have "unat n mod unat d = (?H mod unat d * 4294967296 + ?L) mod unat d"
    by (subst n) (simp add: mult.commute [of _ "unat d"])
  ultimately have "full64 (q1, q2) = n div ucast d \<and> unat r2 = unat n mod unat d"
    using 1(2) 2(2,3) by (simp add: word_unat_eq_iff unat_full64 unat_div unat_ucast_64)
  then show ?thesis using 1(1) 2(1) by blast
qed

lemma short_divide: "AcpiUtShortDivide div_64_by_32 n d = Ret (native_ShortDivide n d)"
proof (cases "d = 0")
  case False
  obtain q1 r1 q2 r2 where l: "div_64_by_32 0 (hi32 n) d = Ret (q1, r1)" "div_64_by_32 r1 (lo32 n) d = Ret (q2, r2)"
    "full64 (q1, q2) = n div ucast d" "unat r2 = unat n mod unat d"
    using long_division [OF False] by blast
  have "0 < unat d" using False by (simp add: unat_gt_0)
  then have "unat n mod unat d < 4294967296" using mod_less_divisor [of "unat d" "unat n"] unat_u32_less [of d] by linarith
  then have "r2 = ucast (n mod ucast d)"
    using l(4) unfolding word_unat_eq_iff [of r2] unsigned_ucast_eq [of "n mod ucast d"] unat_mod unat_ucast_64
    by (simp add: take_bit_nat_eq_self)
  then show ?thesis using False l by (simp add: AcpiUtShortDivide_def native_ShortDivide_def)
qed (simp add: AcpiUtShortDivide_def native_ShortDivide_def)

section \<open>Dividing by 64 bits\<close>

lemma shift_halves: "shift_right_64 (hi32 w, lo32 w) = (hi32 (w div 2), lo32 (w div 2))"
proof -
  have "hi32 (drop_bit 1 w) = drop_bit 1 (hi32 w)"
    unfolding hi32_def by (rule bit_word_eqI) (auto simp: bit_simps dest: bit_imp_le_length)
  moreover have "lo32 (drop_bit 1 w) = drop_bit 1 (lo32 w) OR push_bit 31 (hi32 w AND 1)"
  proof (rule bit_word_eqI)
    fix i assume i: "i < LENGTH(32)"
    show "bit (lo32 (drop_bit 1 w)) i = bit (drop_bit 1 (lo32 w) OR push_bit 31 (hi32 w AND 1)) i"
      using i by (cases "i = 31") (auto simp: lo32_def hi32_def bit_simps bit_1_iff)
  qed
  moreover have "drop_bit 1 w = w div 2" by (simp add: drop_bit_eq_div)
  ultimately show ?thesis by (simp add: shift_right_64_def)
qed

lemma unat_2p: "k < 64 \<Longrightarrow> unat (2 ^ k :: u64) = 2 ^ k"
proof -
  assume "k < 64"
  then have "(2 :: nat) ^ k < 2 ^ 64" by (intro power_strict_increasing) auto
  then have "unat (of_nat (2 ^ k) :: u64) = 2 ^ k" by (intro unat_of_nat_eq) simp
  then show ?thesis by simp
qed

text \<open>The loop ends after as many shifts as the divisor needs, and not before.\<close>

lemma normalize_shifts:
  assumes "hi32 d \<noteq> 0"
  shows "\<exists>s. 1 \<le> s \<and> 2147483648 \<le> unat d div 2 ^ s \<and> unat d div 2 ^ s < 4294967296 \<and>
     normalize shift_right_64 (hi32 d, lo32 d) (hi32 n, lo32 n) =
       Some (Ret ((0, lo32 (d div 2 ^ s)), (hi32 (n div 2 ^ s), lo32 (n div 2 ^ s)))) \<and>
     unat (d div 2 ^ s) = unat d div 2 ^ s \<and> unat (n div 2 ^ s) = unat n div 2 ^ s"
  using assms
proof (induction "unat d" arbitrary: d n rule: less_induct)
  case less
  have big: "4294967296 \<le> unat d"
    using less.prems unat_hi32 [of d] by (metis div_less not_less unat_eq_0)
  have h: "unat (w div 2) = unat w div 2" for w :: u64 by (simp add: unat_div)
  show ?case
  proof (cases "hi32 (d div 2) = 0")
    case True
    have "unat (hi32 (d div 2)) = unat d div 2 div 4294967296" by (simp add: unat_hi32 h)
    then have "unat d div 2 < 4294967296" using True by (simp add: div_eq_0_iff)
    moreover have "2147483648 \<le> unat d div 2" using big by simp
    ultimately show ?thesis using True
      by (intro exI [of _ 1]) (subst normalize.simps, simp add: Let_def shift_halves h)
  next
    case False
    have "unat (d div 2) < unat d" using big by (simp add: h)
    then obtain s where s: "1 \<le> s" "2147483648 \<le> unat (d div 2) div 2 ^ s" "unat (d div 2) div 2 ^ s < 4294967296"
      "normalize shift_right_64 (hi32 (d div 2), lo32 (d div 2)) (hi32 (n div 2), lo32 (n div 2)) =
       Some (Ret ((0, lo32 (d div 2 div 2 ^ s)), (hi32 (n div 2 div 2 ^ s), lo32 (n div 2 div 2 ^ s))))"
      "unat (d div 2 div 2 ^ s) = unat (d div 2) div 2 ^ s" "unat (n div 2 div 2 ^ s) = unat (n div 2) div 2 ^ s"
      using less.hyps [of "d div 2" "n div 2"] False by blast
    have "Suc s < 64"
    proof (rule ccontr)
      assume "\<not> Suc s < 64"
      then have "2 ^ 64 \<le> (2 :: nat) ^ Suc s" by (intro power_increasing) auto
      then have "unat d < 2 ^ Suc s" using unat_u64_less [of d] by simp
      then show False using s(2) by (simp add: h div_mult2_eq [symmetric])
    qed
    then have "unat (2 ^ Suc s :: u64) = 2 ^ Suc s" by (rule unat_2p)
    then have p: "unat (w div 2 ^ Suc s) = unat w div 2 ^ Suc s" for w :: u64 by (simp only: unat_div)
    have e: "w div 2 div 2 ^ s = w div 2 ^ Suc s" if "unat (w div 2 div 2 ^ s) = unat (w div 2) div 2 ^ s" for w :: u64
      using that by (simp only: word_unat_eq_iff p h) (simp add: div_mult2_eq)
    have n: "normalize shift_right_64 (hi32 d, lo32 d) (hi32 n, lo32 n) =
        normalize shift_right_64 (hi32 (d div 2), lo32 (d div 2)) (hi32 (n div 2), lo32 (n div 2))"
      using False by (subst normalize.simps) (simp add: Let_def shift_halves)
    show ?thesis
      using s(2,3) unfolding h div_mult2_eq [symmetric] power_Suc [symmetric]
      by (intro exI [of _ "Suc s"]) (simp only: n s(4) e [OF s(5)] e [OF s(6)] p, simp)
  qed
qed

text \<open>The estimate: the quotient of the shifted operands is the quotient, or one more.\<close>

lemma estimate:
  fixes n d :: nat
  assumes "1 \<le> s" and "2147483648 \<le> d div 2 ^ s" and "n < 18446744073709551616" and "4294967296 \<le> d" and "d < 18446744073709551616"
  shows "n div d \<le> n div 2 ^ s div (d div 2 ^ s)" and "n div 2 ^ s div (d div 2 ^ s) \<le> n div d + 1"
proof -
  define P q D where "P = (2 :: nat) ^ s" and "q = n div d" and "D = d div P"
  have m: "k div c * c \<le> k" "0 < c \<Longrightarrow> k < k div c * c + c" for k c :: nat
    using div_mult_mod_eq [of k c] mod_less_divisor [of c k] by linarith+
  have D: "D * P \<le> d" "d < D * P + P" "2147483648 \<le> D" "0 < D"
    using assms(2) m [where k = d and c = P] by (simp_all add: D_def P_def)
  have q: "q * d \<le> n" "n < q * d + d"
    using m [where k = n and c = d] assms(4) by (simp_all add: q_def)
  have "q * (D * P) \<le> q * d" using D(1) by (rule mult_le_mono2)
  then have lo: "q * D * P \<le> n" using le_trans [OF _ q(1)] by (simp only: mult.assoc)
  then have "q * D \<le> n div P" by (simp add: P_def less_eq_div_iff_mult_less_eq)
  then show "n div d \<le> n div 2 ^ s div (d div 2 ^ s)"
    using D(4) by (simp add: less_eq_div_iff_mult_less_eq q_def D_def P_def)
  have gap: "(q + 1) * (P - 1) \<le> D * P"
  proof (cases "s = 1")
    case True
    have "q * 4294967296 \<le> q * d" using assms(4) by (rule mult_le_mono2)
    then have "q < 4294967296" using q(1) assms(3) by linarith
    then show ?thesis using True D(3) by (simp add: P_def)
  next
    case False
    have P4: "4 \<le> P" using False assms(1) power_increasing [of 2 s "2 :: nat"] by (simp add: P_def)
    have "2147483648 * P \<le> D * P" using D(3) by (rule mult_le_mono1)
    then have "P < 8589934592" using D(1) assms(5) by linarith
    then have s: "s < 33" using power_increasing [of 33 s "2 :: nat"] by (cases "s < 33") (auto simp: P_def)
    have split: "(8589934592 :: nat) = 2 ^ (33 - s) * P"
      using s by (simp add: P_def power_add [symmetric])
    have "q * (2147483648 * P) \<le> q * (D * P)" using \<open>2147483648 * P \<le> D * P\<close> by (rule mult_le_mono2)
    then have "2147483648 * (q * P) < 18446744073709551616"
      using lo assms(3) unfolding mult.left_commute [of q] mult.assoc by linarith
    then have "q * P < 2 ^ (33 - s) * P" unfolding split [symmetric] by linarith
    then have "q + 1 \<le> 2 ^ (33 - s)" by simp
    then have "(q + 1) * P \<le> 2 ^ (33 - s) * P" by (rule mult_le_mono1)
    then have "(q + 1) * P \<le> 8589934592" unfolding split .
    moreover have "2147483648 * 4 \<le> D * P" using D(3) P4 by (rule mult_le_mono)
    moreover have "(q + 1) * (P - 1) \<le> (q + 1) * P" by (intro mult_le_mono2) simp
    ultimately show ?thesis by linarith
  qed
  have "n < (q + 2) * D * P"
  proof -
    have "(q + 1) * d \<le> (q + 1) * (D * P + (P - 1))" using D(2) by (intro mult_le_mono2) linarith
    also have "\<dots> = (q + 1) * (D * P) + (q + 1) * (P - 1)" by (rule add_mult_distrib2)
    also have "\<dots> \<le> (q + 1) * (D * P) + D * P" using gap by simp
    also have "\<dots> = (q + 2) * D * P" by (simp add: algebra_simps)
    finally show ?thesis using q(2) by simp
  qed
  then have "n div P < (q + 2) * D" by (simp add: P_def div_less_iff_less_mult)
  then have "n div P div D < q + 2" using D(4) by (simp add: div_less_iff_less_mult)
  then show "n div 2 ^ s div (d div 2 ^ s) \<le> n div d + 1" by (simp add: q_def D_def P_def)
qed

lemma full64_sum: "full64 (h, l) = ucast h * 4294967296 + ucast l"
  using unat_u32_less [of h] unat_u32_less [of l]
  by (simp add: word_unat_eq_iff unat_full64 unat_word_ariths unat_ucast_64)

lemma unat_neg: "(a :: u32) \<noteq> 0 \<Longrightarrow> unat (- a) = 4294967296 - unat a"
  using unat_sub_if_size [of 0 a] by (simp add: word_size unat_gt_0)

lemma ucast_neg: "ucast (- a) + ucast (a :: u32) = (if a = 0 then 0 else 4294967296 :: u64)"
  using unat_u32_less [of a] unat_u32_less [of "- a"]
  by (simp add: word_unat_eq_iff [where 'a = 64] unat_word_ariths unat_ucast_64 unat_neg)

lemma ucast_neg1: "ucast (- a - 1) + ucast (a :: u32) = (4294967295 :: u64)"
proof -
  have "unat (- a - 1) = 4294967295 - unat a"
  proof -
    have a: "- a - 1 = - 1 - a" by simp
    have "unat (- 1 :: u32) = 4294967295" by (simp add: unsigned_minus_1_eq_mask mask_eq_exp_minus_1)
    then show ?thesis unfolding a using unat_sub_if_size [of "- 1" a] unat_u32_less [of a] by (simp add: word_size)
  qed
  then show ?thesis using unat_u32_less [of a]
    by (simp add: word_unat_eq_iff [where 'a = 64] unat_word_ariths unat_ucast_64)
qed

text \<open>Negation by halves.\<close>

lemma negate_halves: "full64 (if - lo32 x \<noteq> 0 then - hi32 x - 1 else - hi32 x, - lo32 x) = - x"
proof -
  have x: "x = ucast (hi32 x) * 4294967296 + ucast (lo32 x)" using halves [of x] full64_sum by metis
  have "full64 (if - lo32 x \<noteq> 0 then - hi32 x - 1 else - hi32 x, - lo32 x) + x =
     (ucast (if - lo32 x \<noteq> 0 then - hi32 x - 1 else - hi32 x) + ucast (hi32 x)) * 4294967296 + (ucast (- lo32 x) + ucast (lo32 x))"
    unfolding full64_sum by (subst (5) x) (simp only: algebra_simps)
  also have "ucast (if - lo32 x \<noteq> 0 then - hi32 x - 1 else - hi32 x) + ucast (hi32 x) =
      (if lo32 x \<noteq> 0 then 4294967295 else if hi32 x = 0 then 0 else 4294967296 :: u64)"
    by (simp add: ucast_neg ucast_neg1)
  also have "\<dots> * 4294967296 + (ucast (- lo32 x) + ucast (lo32 x)) = 0" unfolding ucast_neg by simp
  finally show ?thesis by (simp add: eq_neg_iff_add_eq_0)
qed

text \<open>Comparing by halves.\<close>

lemma less_halves: "(hi32 b < hi32 a \<or> hi32 a = hi32 b \<and> lo32 b < lo32 a) \<longleftrightarrow> b < a"
proof -
  have "unat a = unat (hi32 a) * 4294967296 + unat (lo32 a)" "unat b = unat (hi32 b) * 4294967296 + unat (lo32 b)"
    using unat_full64 [of "hi32 a" "lo32 a"] unat_full64 [of "hi32 b" "lo32 b"] by (simp_all add: halves)
  then show ?thesis using unat_u32_less [of "lo32 a"] unat_u32_less [of "lo32 b"]
    unfolding word_less_nat_alt word_unat_eq_iff [of "hi32 a"] by linarith
qed

text \<open>The product of the estimate and the divisor, as the code puts it together.\<close>

lemma partial_products:
  assumes "unat q * unat d < 18446744073709551616"
  defines "partial1 \<equiv> q * hi32 d" and "partial2 \<equiv> ucast q * ucast (lo32 d) :: u64"
  defines "partial3 \<equiv> ucast (hi32 partial2) + ucast partial1 :: u64"
  shows "hi32 partial3 = 0" and "full64 (lo32 partial3, lo32 partial2) = ucast q * d"
proof -
  let ?q = "unat q" and ?h = "unat d div 4294967296" and ?l = "unat d mod 4294967296"
  have d: "unat d = ?h * 4294967296 + ?l" by simp
  have e: "?q * unat d = ?q * ?h * 4294967296 + ?q * ?l"
    using arg_cong [OF d, of "(*) ?q"] by (simp only: add_mult_distrib2 mult.assoc)
  have "?q * ?h * 4294967296 \<le> ?q * unat d" unfolding e by simp
  then have h: "?q * ?h < 4294967296" using assms(1) by linarith
  have "?q * ?l \<le> 4294967295 * 4294967295"
    using unat_u32_less [of q] by (intro mult_le_mono) (simp_all add: less_Suc_eq_le [symmetric])
  then have l: "?q * ?l < 18446744073709551616" by linarith
  have p1: "unat partial1 = ?q * ?h" using h by (simp add: partial1_def unat_word_ariths unat_hi32)
  have p2: "unat partial2 = ?q * ?l" using l by (simp add: partial2_def unat_word_ariths unat_ucast_64 unat_lo32)
  have "?q * ?l div 4294967296 + ?q * ?h = ?q * unat d div 4294967296" unfolding e by simp
  then have s: "?q * ?l div 4294967296 + ?q * ?h < 4294967296" using assms(1) by (simp add: div_less_iff_less_mult)
  then have p3: "unat partial3 = ?q * ?l div 4294967296 + ?q * ?h"
    by (simp add: partial3_def unat_word_ariths unat_ucast_64 unat_hi32 p1 p2)
  show "hi32 partial3 = 0" using s p3 by (simp add: word_unat_eq_iff unat_hi32)
  have "(?q * ?l div 4294967296 + ?q * ?h) * 4294967296 + ?q * ?l mod 4294967296 = ?q * unat d"
    unfolding e by (simp add: algebra_simps)
  then show "full64 (lo32 partial3, lo32 partial2) = ucast q * d"
    using s assms(1) by (simp add: word_unat_eq_iff unat_full64 unat_lo32 p2 p3 unat_word_ariths unat_ucast_64)
qed

lemma unat_halves: "unat (hi32 w) * 4294967296 + unat (lo32 w) = unat w"
  using unat_full64 [of "hi32 w" "lo32 w"] by (simp only: halves)

lemma divide_wide:
  assumes "hi32 d \<noteq> 0" and "unat n + unat d < 18446744073709551616"
  shows "AcpiUtDivide shift_right_64 div_64_by_32 n d = Ret (Inr (n div d, n mod d))"
proof -
  have big: "4294967296 \<le> unat d"
    using assms(1) unat_hi32 [of d] by (metis div_less not_less unat_eq_0)
  obtain s where s: "1 \<le> s" "2147483648 \<le> unat d div 2 ^ s" "unat d div 2 ^ s < 4294967296"
    and norm: "normalize shift_right_64 (hi32 d, lo32 d) (hi32 n, lo32 n) =
       Some (Ret ((0, lo32 (d div 2 ^ s)), (hi32 (n div 2 ^ s), lo32 (n div 2 ^ s))))"
    and u: "unat (d div 2 ^ s) = unat d div 2 ^ s" "unat (n div 2 ^ s) = unat n div 2 ^ s"
    using normalize_shifts [OF assms(1)] by blast
  have D: "unat (lo32 (d div 2 ^ s)) = unat d div 2 ^ s" using s(3) by (simp add: unat_lo32 u)
  have "unat n div 2 ^ s \<le> unat n div 2 ^ 1" using s(1) by (intro div_le_mono2 power_increasing) auto
  moreover have "unat n div 2 ^ 1 < 9223372036854775808" using unat_u64_less [of n] by (simp add: div_less_iff_less_mult)
  ultimately have "unat n div 2 ^ s < 9223372036854775808" by (rule order_le_less_trans)
  then have "unat n div 2 ^ s div 4294967296 < 2147483648" by (subst div_less_iff_less_mult) simp_all
  then have "unat (hi32 (n div 2 ^ s)) < unat (lo32 (d div 2 ^ s))"
    unfolding D unat_hi32 u using s(2) by linarith
  then have lt: "hi32 (n div 2 ^ s) < lo32 (d div 2 ^ s)" by (simp only: word_less_nat_alt)
  obtain q r where q: "div_64_by_32 (hi32 (n div 2 ^ s)) (lo32 (n div 2 ^ s)) (lo32 (d div 2 ^ s)) = Ret (q, r)"
    "unat q = unat n div 2 ^ s div (unat d div 2 ^ s)"
    using div_64_by_32_nat [OF lt, of "lo32 (n div 2 ^ s)", unfolded unat_halves D u] by blast
  have est: "unat q = unat n div unat d \<or> unat q = unat n div unat d + 1"
    using estimate [OF s(1,2) unat_u64_less big unat_u64_less, of n] q(2) by linarith
  have low: "unat n div unat d * unat d \<le> unat n" by simp
  have fits: "unat q * unat d < 18446744073709551616"
    using est
  proof
    assume q: "unat q = unat n div unat d"
    show ?thesis unfolding q using low assms(2) by linarith
  next
    assume q: "unat q = unat n div unat d + 1"
    show ?thesis unfolding q add_mult_distrib mult_1 using low assms(2) by linarith
  qed
  note pp = partial_products [OF fits]
  define x where "x = ucast q * d"
  have x: "unat x = unat q * unat d" using fits by (simp add: x_def unat_word_ariths unat_ucast_64)
  have hl: "lo32 (ucast (hi32 (ucast q * ucast (lo32 d) :: u64)) + ucast (q * hi32 d)) = hi32 x"
    "lo32 (ucast q * ucast (lo32 d) :: u64) = lo32 x"
    using arg_cong [OF pp(2), of hi32] arg_cong [OF pp(2), of lo32] by (simp_all add: x_def)
  have main: "AcpiUtDivide shift_right_64 div_64_by_32 n d =
     (let (q, r) = (if n < x then (q - 1, x - d) else (q, x)) in Ret (Inr (full64 (0, q), n - r)))"
  proof -
    have sel: "(if hi32 n \<le> hi32 x then if hi32 x = hi32 n then if lo32 n < lo32 x then A else B else A else B) = (if n < x then A else B)"
      for A B :: "u32 \<times> u64"
      using less_halves [of n x] by (auto simp: not_le not_less)
    have neg: "full64 (if - lo32 (y - n) \<noteq> 0 then - hi32 (y - n) - 1 else - hi32 (y - n), - lo32 (y - n)) = n - y" for y
      unfolding negate_halves by simp
    have "d \<noteq> 0" using big by auto
    then show ?thesis
      unfolding AcpiUtDivide_def Let_def norm of_loop_simps obind_simps prod.case fst_conv snd_conv q(1) pp(1) hl halves sel neg
      using assms(1) by simp
  qed
  show ?thesis
  proof (cases "unat q = unat n div unat d")
    case True
    have e: "x = n div d * d"
      unfolding word_unat_eq_iff [of x] x True using le_less_trans [OF low unat_u64_less] by (simp add: unat_div unat_word_ariths)
    have "\<not> n < x" unfolding word_less_nat_alt x True using low by linarith
    moreover have "n - x = n mod d" unfolding e by (rule minus_div_mult_eq_mod)
    moreover have "full64 (0, q) = n div d" using True by (simp add: word_unat_eq_iff unat_full64 unat_div)
    ultimately show ?thesis unfolding main by simp
  next
    case False
    then have q1: "unat q = unat n div unat d + 1" using est by simp
    have "0 < unat d" using big by linarith
    then have "unat n mod unat d < unat d" by simp
    then have "unat n < unat n div unat d * unat d + unat d"
      using div_mult_mod_eq [of "unat n" "unat d"] by linarith
    then have lt: "n < x" unfolding word_less_nat_alt x q1 add_mult_distrib mult_1 .
    have e: "x - d = n div d * d"
    proof -
      have "unat (n div d + 1) = unat n div unat d + 1"
        using unat_u32_less [of q] q1 by (simp add: unat_div unat_word_ariths)
      then have "ucast q = n div d + 1" using q1 by (simp only: word_unat_eq_iff unat_ucast_64)
      then have "x = n div d * d + d" by (simp add: x_def distrib_right)
      then show ?thesis by simp
    qed
    have "unat (q - 1) = unat n div unat d" using q1 by (simp add: unat_sub_if')
    then have "full64 (0, q - 1) = n div d" by (simp add: word_unat_eq_iff unat_full64 unat_div)
    moreover have "n - (x - d) = n mod d" unfolding e by (rule minus_div_mult_eq_mod)
    ultimately show ?thesis unfolding main using lt by simp
  qed
qed

lemma divide_narrow:
  assumes "hi32 d = 0" and "d \<noteq> 0"
  shows "AcpiUtDivide shr div_64_by_32 n d = Ret (Inr (n div d, n mod d))"
proof -
  have u: "unat (lo32 d) = unat d" using unat_halves [of d] assms(1) by simp
  then have "lo32 d \<noteq> 0" using assms(2) by (simp add: word_unat_eq_iff)
  then obtain q1 r1 q2 r2 where l: "div_64_by_32 0 (hi32 n) (lo32 d) = Ret (q1, r1)" "div_64_by_32 r1 (lo32 n) (lo32 d) = Ret (q2, r2)"
    "full64 (q1, q2) = n div ucast (lo32 d)" "unat r2 = unat n mod unat (lo32 d)"
    using long_division by blast
  have d: "ucast (lo32 d) = d" using u by (simp only: word_unat_eq_iff unat_ucast_64)
  have "full64 (0, r2) = n mod d" using l(4) u by (simp add: word_unat_eq_iff unat_full64 unat_mod)
  then show ?thesis using assms l d by (simp add: AcpiUtDivide_def)
qed

text \<open>The division put together from 32-bit steps is the native one: AcpiUtShortDivide for all
  operands, and AcpiUtDivide for every divisor of 32 bits, and for longer ones when the dividend and the
  divisor together stay below 2 to the 64; a divisor of 0 gives AE_AML_DIVIDE_BY_ZERO in both.\<close>

theorem AcpiUtDivide_is_native:
  assumes "hi32 d = 0 \<or> unat n + unat d < 18446744073709551616"
  shows "AcpiUtShortDivide div_64_by_32 n e = Ret (native_ShortDivide n e) \<and>
     AcpiUtDivide shift_right_64 div_64_by_32 n d = Ret (native_Divide n d)"
proof (cases "d = 0")
  case True
  then show ?thesis using short_divide by (simp add: AcpiUtDivide_def native_Divide_def)
next
  case False
  then show ?thesis
    using assms short_divide divide_narrow [of d shift_right_64 n] divide_wide [of d n]
    by (cases "hi32 d = 0") (simp_all add: native_Divide_def)
qed

theorem AcpiUtDivide_is_native_witness:
  "AcpiUtDivide shift_right_64 div_64_by_32 0x123456789ABCDEF0 0x200000003 = Ret (Inr (0x91A2B3C, 0x7F6E5D3C))"
proof -
  have "unat (0x123456789ABCDEF0 :: u64) + unat (0x200000003 :: u64) < 18446744073709551616" by simp
  then show ?thesis
    using AcpiUtDivide_is_native [of "0x200000003" "0x123456789ABCDEF0" 1] by (simp add: native_Divide_def)
qed

text \<open>Beyond that bound AcpiUtDivide is wrong: when the product of the estimated quotient and the
  divisor does not fit in 64 bits the correction step is skipped. The largest dividend divided by
  0x100000003 gives a quotient that is one too large, and the remainder is not the remainder.\<close>

theorem AcpiUtDivide_overflow:
  "\<exists>r. AcpiUtDivide shift_right_64 div_64_by_32 0xFFFFFFFFFFFFFFFF 0x100000003 = Ret (Inr (0xFFFFFFFE, r)) \<and>
     native_Divide 0xFFFFFFFFFFFFFFFF 0x100000003 = Inr (0xFFFFFFFD, 8) \<and> r \<noteq> 8"
proof -
  have n: "normalize shift_right_64 (1, 3) (0xFFFFFFFF, 0xFFFFFFFF) = Some (Ret ((0, 0x80000001), (0x7FFFFFFF, 0xFFFFFFFF)))"
    by (subst normalize.simps) (simp add: shift_right_64_def Let_def)
  have h: "hi32 0x100000003 = 1" "lo32 0x100000003 = 3" "hi32 0xFFFFFFFFFFFFFFFF = 0xFFFFFFFF" "lo32 0xFFFFFFFFFFFFFFFF = 0xFFFFFFFF"
    by (simp_all add: hi32_def lo32_def)
  have f: "full64 (0x7FFFFFFF, 0xFFFFFFFF) = 0x7FFFFFFFFFFFFFFF" by (simp add: full64_def)
  have q: "div_64_by_32 0x7FFFFFFF 0xFFFFFFFF 0x80000001 = Ret (0xFFFFFFFE, 1)"
    by (simp add: div_64_by_32_def f Let_def)
  have p: "(ucast (0xFFFFFFFE :: u32) * ucast (3 :: u32) :: u64) = 0x2FFFFFFFA" "hi32 0x2FFFFFFFA = 2" "lo32 0x2FFFFFFFA = 0xFFFFFFFA"
    "(ucast (2 :: u32) + ucast (0xFFFFFFFE * 1 :: u32) :: u64) = 0x100000000" "hi32 0x100000000 = 1" "lo32 0x100000000 = 0"
    "full64 (0, 0xFFFFFFFE) = 0xFFFFFFFE" "full64 (0, 0xFFFFFFFA) = 0xFFFFFFFA"
    by (simp_all add: hi32_def lo32_def full64_def)
  have ne: "(0x100000003 :: u64) \<noteq> 0" "(1 :: u32) \<noteq> 0" by simp_all
  have "AcpiUtDivide shift_right_64 div_64_by_32 0xFFFFFFFFFFFFFFFF 0x100000003 = Ret (Inr (0xFFFFFFFE, 0xFFFFFFFA))"
    unfolding AcpiUtDivide_def Let_def h n of_loop_simps obind_simps prod.case fst_conv snd_conv q p
    by (simp only: ne if_False)
  moreover have "native_Divide 0xFFFFFFFFFFFFFFFF 0x100000003 = Inr (0xFFFFFFFD, 8)" by (simp add: native_Divide_def)
  ultimately show ?thesis by auto
qed

text \<open>In this kernel the shift macro only prints a message, so AcpiUtDivide never returns for a
  divisor of more than 32 bits.\<close>

theorem AcpiUtDivide_ganoid_hangs:
  assumes "hi32 d \<noteq> 0"
  shows "AcpiUtDivide ganoid_shift_right_64 div64 n d = Hang"
proof -
  have "shr = ganoid_shift_right_64 \<longrightarrow> fst nd \<noteq> 0 \<longrightarrow> False" if "normalize shr nd nn = Some r" for shr nd nn r
    using that
  proof (rule normalize.raw_induct [rotated])
    fix f shr nd nn r
    assume IH: "\<And>shr nd nn r. f shr nd nn = Some r \<Longrightarrow> shr = ganoid_shift_right_64 \<longrightarrow> fst nd \<noteq> 0 \<longrightarrow> False"
      and eq: "(let nd = shr nd; nn = shr nn in if fst nd \<noteq> 0 then f shr nd nn else Some (Ret (nd, nn))) = Some r"
    show "shr = ganoid_shift_right_64 \<longrightarrow> fst nd \<noteq> 0 \<longrightarrow> False"
    proof (intro impI)
      assume shr: "shr = ganoid_shift_right_64" and nz: "fst nd \<noteq> 0"
      have "f shr nd nn = Some r" using eq nz by (simp add: shr Let_def ganoid_shift_right_64_def)
      then show False using IH shr nz by blast
    qed
  qed
  then have "normalize ganoid_shift_right_64 (hi32 d, lo32 d) nn = None" for nn
    using assms by (metis fst_conv not_None_eq)
  moreover have "d \<noteq> 0" using assms by (auto simp: hi32_def)
  ultimately show ?thesis using assms by (simp add: AcpiUtDivide_def)
qed

theorem AcpiUtDivide_ganoid_hangs_witness: "AcpiUtDivide ganoid_shift_right_64 div_64_by_32 0x200000000 0x100000000 = Hang"
  by (rule AcpiUtDivide_ganoid_hangs) (simp add: hi32_def)

end
