(* ===== verification/AcpiResource.thy ===== *)
theory AcpiResource
  imports AcpiBase
begin

text \<open>
  Raw resource templates (lib/acpi/components/utilities/utresrc.c): the validation of one AML
  resource descriptor and the walk over the descriptors of a template, with the packed layouts of
  include/acpi/amlresrc.h. The bytes are those that can be read from the start of the template on,
  a list; a read behind its end is a trap. \<open>AmlLength\<close> may be less than what is readable.
\<close>

definition AE_AML_INVALID_RESOURCE_TYPE :: ACPI_STATUS where "AE_AML_INVALID_RESOURCE_TYPE = 0x3017"
definition AE_AML_NO_RESOURCE_END_TAG :: ACPI_STATUS where "AE_AML_NO_RESOURCE_END_TAG = 0x301C"
definition AE_AML_BAD_RESOURCE_LENGTH :: ACPI_STATUS where "AE_AML_BAD_RESOURCE_LENGTH = 0x301F"

definition ACPI_RESOURCE_NAME_LARGE :: u8 where "ACPI_RESOURCE_NAME_LARGE = 0x80"
definition ACPI_RESOURCE_NAME_SMALL_MASK :: u8 where "ACPI_RESOURCE_NAME_SMALL_MASK = 0x78"
definition ACPI_RESOURCE_NAME_SMALL_LENGTH_MASK :: u8 where "ACPI_RESOURCE_NAME_SMALL_LENGTH_MASK = 0x07"
definition ACPI_RESOURCE_NAME_END_TAG :: u8 where "ACPI_RESOURCE_NAME_END_TAG = 0x78"
definition ACPI_RESOURCE_NAME_SERIAL_BUS :: u8 where "ACPI_RESOURCE_NAME_SERIAL_BUS = 0x8E"
definition ACPI_RESOURCE_NAME_LARGE_MAX :: u8 where "ACPI_RESOURCE_NAME_LARGE_MAX = 0x8E"
definition AML_RESOURCE_MAX_SERIALBUSTYPE :: u8 where "AML_RESOURCE_MAX_SERIALBUSTYPE = 3"

section \<open>Layouts\<close>

text \<open>The sizes of the fields of a packed structure, in order.\<close>

definition AML_RESOURCE_SMALL_HEADER :: "nat list" where "AML_RESOURCE_SMALL_HEADER = [1]"
definition AML_RESOURCE_LARGE_HEADER :: "nat list" where "AML_RESOURCE_LARGE_HEADER = [1, 2]"
definition AML_RESOURCE_IRQ :: "nat list" where "AML_RESOURCE_IRQ = AML_RESOURCE_SMALL_HEADER @ [2, 1]"
definition AML_RESOURCE_DMA :: "nat list" where "AML_RESOURCE_DMA = AML_RESOURCE_SMALL_HEADER @ [1, 1]"
definition AML_RESOURCE_START_DEPENDENT :: "nat list" where "AML_RESOURCE_START_DEPENDENT = AML_RESOURCE_SMALL_HEADER @ [1]"
definition AML_RESOURCE_END_DEPENDENT :: "nat list" where "AML_RESOURCE_END_DEPENDENT = AML_RESOURCE_SMALL_HEADER"
definition AML_RESOURCE_IO :: "nat list" where "AML_RESOURCE_IO = AML_RESOURCE_SMALL_HEADER @ [1, 2, 2, 1, 1]"
definition AML_RESOURCE_FIXED_IO :: "nat list" where "AML_RESOURCE_FIXED_IO = AML_RESOURCE_SMALL_HEADER @ [2, 1]"
definition AML_RESOURCE_VENDOR_SMALL :: "nat list" where "AML_RESOURCE_VENDOR_SMALL = AML_RESOURCE_SMALL_HEADER"
definition AML_RESOURCE_END_TAG :: "nat list" where "AML_RESOURCE_END_TAG = AML_RESOURCE_SMALL_HEADER @ [1]"
definition AML_RESOURCE_FIXED_DMA :: "nat list" where "AML_RESOURCE_FIXED_DMA = AML_RESOURCE_SMALL_HEADER @ [2, 2, 1]"
definition AML_RESOURCE_MEMORY24 :: "nat list" where "AML_RESOURCE_MEMORY24 = AML_RESOURCE_LARGE_HEADER @ [1, 2, 2, 2, 2]"
definition AML_RESOURCE_VENDOR_LARGE :: "nat list" where "AML_RESOURCE_VENDOR_LARGE = AML_RESOURCE_LARGE_HEADER"
definition AML_RESOURCE_MEMORY32 :: "nat list" where "AML_RESOURCE_MEMORY32 = AML_RESOURCE_LARGE_HEADER @ [1, 4, 4, 4, 4]"
definition AML_RESOURCE_FIXED_MEMORY32 :: "nat list" where "AML_RESOURCE_FIXED_MEMORY32 = AML_RESOURCE_LARGE_HEADER @ [1, 4, 4]"
definition AML_RESOURCE_ADDRESS_COMMON :: "nat list" where "AML_RESOURCE_ADDRESS_COMMON = [1, 1, 1]"
definition AML_RESOURCE_EXTENDED_ADDRESS64 :: "nat list" where
  "AML_RESOURCE_EXTENDED_ADDRESS64 = AML_RESOURCE_LARGE_HEADER @ AML_RESOURCE_ADDRESS_COMMON @ [1, 1, 8, 8, 8, 8, 8, 8]"
definition AML_RESOURCE_ADDRESS64 :: "nat list" where
  "AML_RESOURCE_ADDRESS64 = AML_RESOURCE_LARGE_HEADER @ AML_RESOURCE_ADDRESS_COMMON @ [8, 8, 8, 8, 8]"
definition AML_RESOURCE_ADDRESS32 :: "nat list" where
  "AML_RESOURCE_ADDRESS32 = AML_RESOURCE_LARGE_HEADER @ AML_RESOURCE_ADDRESS_COMMON @ [4, 4, 4, 4, 4]"
definition AML_RESOURCE_ADDRESS16 :: "nat list" where
  "AML_RESOURCE_ADDRESS16 = AML_RESOURCE_LARGE_HEADER @ AML_RESOURCE_ADDRESS_COMMON @ [2, 2, 2, 2, 2]"
definition AML_RESOURCE_EXTENDED_IRQ :: "nat list" where "AML_RESOURCE_EXTENDED_IRQ = AML_RESOURCE_LARGE_HEADER @ [1, 1, 4]"
definition AML_RESOURCE_GENERIC_REGISTER :: "nat list" where
  "AML_RESOURCE_GENERIC_REGISTER = AML_RESOURCE_LARGE_HEADER @ [1, 1, 1, 1, 8]"
definition AML_RESOURCE_GPIO :: "nat list" where
  "AML_RESOURCE_GPIO = AML_RESOURCE_LARGE_HEADER @ [1, 1, 2, 2, 1, 2, 2, 2, 1, 2, 2, 2]"
definition AML_RESOURCE_SERIAL_COMMON :: "nat list" where "AML_RESOURCE_SERIAL_COMMON = [1, 1, 1, 1, 2, 1, 2]"
definition AML_RESOURCE_COMMON_SERIALBUS :: "nat list" where
  "AML_RESOURCE_COMMON_SERIALBUS = AML_RESOURCE_LARGE_HEADER @ AML_RESOURCE_SERIAL_COMMON"

lemmas layouts = AML_RESOURCE_SMALL_HEADER_def AML_RESOURCE_LARGE_HEADER_def AML_RESOURCE_IRQ_def AML_RESOURCE_DMA_def
  AML_RESOURCE_START_DEPENDENT_def AML_RESOURCE_END_DEPENDENT_def AML_RESOURCE_IO_def AML_RESOURCE_FIXED_IO_def
  AML_RESOURCE_VENDOR_SMALL_def AML_RESOURCE_END_TAG_def AML_RESOURCE_FIXED_DMA_def AML_RESOURCE_MEMORY24_def
  AML_RESOURCE_VENDOR_LARGE_def AML_RESOURCE_MEMORY32_def AML_RESOURCE_FIXED_MEMORY32_def AML_RESOURCE_ADDRESS_COMMON_def
  AML_RESOURCE_EXTENDED_ADDRESS64_def AML_RESOURCE_ADDRESS64_def AML_RESOURCE_ADDRESS32_def AML_RESOURCE_ADDRESS16_def
  AML_RESOURCE_EXTENDED_IRQ_def AML_RESOURCE_GENERIC_REGISTER_def AML_RESOURCE_GPIO_def AML_RESOURCE_SERIAL_COMMON_def
  AML_RESOURCE_COMMON_SERIALBUS_def

definition ACPI_AML_SIZE_SMALL :: "nat list \<Rightarrow> u8" where
  "ACPI_AML_SIZE_SMALL r = of_nat (sum_list r - sum_list AML_RESOURCE_SMALL_HEADER)"

definition ACPI_AML_SIZE_LARGE :: "nat list \<Rightarrow> u8" where
  "ACPI_AML_SIZE_LARGE r = of_nat (sum_list r - sum_list AML_RESOURCE_LARGE_HEADER)"

definition AcpiGbl_ResourceAmlSizes :: "u8 list" where
  "AcpiGbl_ResourceAmlSizes =
     [0, 0, 0, 0,
      ACPI_AML_SIZE_SMALL AML_RESOURCE_IRQ,
      ACPI_AML_SIZE_SMALL AML_RESOURCE_DMA,
      ACPI_AML_SIZE_SMALL AML_RESOURCE_START_DEPENDENT,
      ACPI_AML_SIZE_SMALL AML_RESOURCE_END_DEPENDENT,
      ACPI_AML_SIZE_SMALL AML_RESOURCE_IO,
      ACPI_AML_SIZE_SMALL AML_RESOURCE_FIXED_IO,
      ACPI_AML_SIZE_SMALL AML_RESOURCE_FIXED_DMA,
      0, 0, 0,
      ACPI_AML_SIZE_SMALL AML_RESOURCE_VENDOR_SMALL,
      ACPI_AML_SIZE_SMALL AML_RESOURCE_END_TAG,
      0,
      ACPI_AML_SIZE_LARGE AML_RESOURCE_MEMORY24,
      ACPI_AML_SIZE_LARGE AML_RESOURCE_GENERIC_REGISTER,
      0,
      ACPI_AML_SIZE_LARGE AML_RESOURCE_VENDOR_LARGE,
      ACPI_AML_SIZE_LARGE AML_RESOURCE_MEMORY32,
      ACPI_AML_SIZE_LARGE AML_RESOURCE_FIXED_MEMORY32,
      ACPI_AML_SIZE_LARGE AML_RESOURCE_ADDRESS32,
      ACPI_AML_SIZE_LARGE AML_RESOURCE_ADDRESS16,
      ACPI_AML_SIZE_LARGE AML_RESOURCE_EXTENDED_IRQ,
      ACPI_AML_SIZE_LARGE AML_RESOURCE_ADDRESS64,
      ACPI_AML_SIZE_LARGE AML_RESOURCE_EXTENDED_ADDRESS64,
      ACPI_AML_SIZE_LARGE AML_RESOURCE_GPIO,
      0,
      ACPI_AML_SIZE_LARGE AML_RESOURCE_COMMON_SERIALBUS]"

datatype length_type = ACPI_INVALID_RESOURCE | ACPI_FIXED_LENGTH | ACPI_VARIABLE_LENGTH | ACPI_SMALL_VARIABLE_LENGTH

definition AcpiGbl_ResourceTypes :: "length_type list" where
  "AcpiGbl_ResourceTypes =
     [ACPI_INVALID_RESOURCE, ACPI_INVALID_RESOURCE, ACPI_INVALID_RESOURCE, ACPI_INVALID_RESOURCE,
      ACPI_SMALL_VARIABLE_LENGTH, ACPI_FIXED_LENGTH, ACPI_SMALL_VARIABLE_LENGTH, ACPI_FIXED_LENGTH,
      ACPI_FIXED_LENGTH, ACPI_FIXED_LENGTH, ACPI_FIXED_LENGTH,
      ACPI_INVALID_RESOURCE, ACPI_INVALID_RESOURCE, ACPI_INVALID_RESOURCE,
      ACPI_VARIABLE_LENGTH, ACPI_FIXED_LENGTH,
      ACPI_INVALID_RESOURCE, ACPI_FIXED_LENGTH, ACPI_FIXED_LENGTH, ACPI_INVALID_RESOURCE,
      ACPI_VARIABLE_LENGTH, ACPI_FIXED_LENGTH, ACPI_FIXED_LENGTH,
      ACPI_VARIABLE_LENGTH, ACPI_VARIABLE_LENGTH, ACPI_VARIABLE_LENGTH, ACPI_VARIABLE_LENGTH,
      ACPI_FIXED_LENGTH, ACPI_VARIABLE_LENGTH, ACPI_INVALID_RESOURCE, ACPI_VARIABLE_LENGTH]"

section \<open>One descriptor\<close>

definition get8 :: "u8 list \<Rightarrow> nat \<Rightarrow> u8 outcome" where
  "get8 mem p = (if p < length mem then Ret (mem ! p) else Trap)"

definition AcpiUtGetResourceType :: "u8 list \<Rightarrow> nat \<Rightarrow> u8 outcome" where
  "AcpiUtGetResourceType mem aml =
     obind (get8 mem aml) (\<lambda>b.
     Ret (if b AND ACPI_RESOURCE_NAME_LARGE \<noteq> 0 then b else b AND ACPI_RESOURCE_NAME_SMALL_MASK))"

definition AcpiUtGetResourceLength :: "u8 list \<Rightarrow> nat \<Rightarrow> u16 outcome" where
  "AcpiUtGetResourceLength mem aml =
     obind (get8 mem aml) (\<lambda>b.
     if b AND ACPI_RESOURCE_NAME_LARGE \<noteq> 0
     then obind (get8 mem (aml + 1)) (\<lambda>l. obind (get8 mem (aml + 2)) (\<lambda>h. Ret (ucast l OR push_bit 8 (ucast h))))
     else Ret (ucast (b AND ACPI_RESOURCE_NAME_SMALL_LENGTH_MASK)))"

definition AcpiUtGetResourceHeaderLength :: "u8 list \<Rightarrow> nat \<Rightarrow> u8 outcome" where
  "AcpiUtGetResourceHeaderLength mem aml =
     obind (get8 mem aml) (\<lambda>b.
     Ret (of_nat (sum_list (if b AND ACPI_RESOURCE_NAME_LARGE \<noteq> 0 then AML_RESOURCE_LARGE_HEADER else AML_RESOURCE_SMALL_HEADER))))"

definition AcpiUtGetDescriptorLength :: "u8 list \<Rightarrow> nat \<Rightarrow> u32 outcome" where
  "AcpiUtGetDescriptorLength mem aml =
     obind (AcpiUtGetResourceLength mem aml) (\<lambda>l.
     obind (AcpiUtGetResourceHeaderLength mem aml) (\<lambda>h. Ret (ucast l + ucast h)))"

text \<open>The index of the tables that a resource type selects.\<close>

definition resource_index :: "u8 \<Rightarrow> u8 option" where
  "resource_index ResourceType =
     (if ResourceType AND ACPI_RESOURCE_NAME_LARGE \<noteq> 0
      then if ResourceType > ACPI_RESOURCE_NAME_LARGE_MAX then None else Some (ResourceType - 0x70)
      else Some (drop_bit 3 (ResourceType AND ACPI_RESOURCE_NAME_SMALL_MASK)))"

fun length_ok :: "length_type \<Rightarrow> u16 \<Rightarrow> u16 \<Rightarrow> bool" where
  "length_ok ACPI_FIXED_LENGTH len mn = (len = mn)"
| "length_ok ACPI_VARIABLE_LENGTH len mn = (\<not> len < mn)"
| "length_ok ACPI_SMALL_VARIABLE_LENGTH len mn = (\<not> (len > mn \<or> uint len < uint mn - 1))"
| "length_ok ACPI_INVALID_RESOURCE len mn = False"

text \<open>\<^verbatim>\<open>CommonSerialBus.Type\<close> is the byte at offset 5.\<close>

definition AcpiUtValidateResource :: "u8 list \<Rightarrow> nat \<Rightarrow> (ACPI_STATUS + u8) outcome" where
  "AcpiUtValidateResource mem aml =
     obind (get8 mem aml) (\<lambda>ResourceType.
     case resource_index ResourceType of
       None \<Rightarrow> Ret (Inl AE_AML_INVALID_RESOURCE_TYPE)
     | Some ix \<Rightarrow>
         if length AcpiGbl_ResourceTypes \<le> unat ix \<or> length AcpiGbl_ResourceAmlSizes \<le> unat ix then Trap
         else if AcpiGbl_ResourceTypes ! unat ix = ACPI_INVALID_RESOURCE then Ret (Inl AE_AML_INVALID_RESOURCE_TYPE)
         else obind (AcpiUtGetResourceLength mem aml) (\<lambda>ResourceLength.
           if \<not> length_ok (AcpiGbl_ResourceTypes ! unat ix) ResourceLength (ucast (AcpiGbl_ResourceAmlSizes ! unat ix))
           then Ret (Inl AE_AML_BAD_RESOURCE_LENGTH)
           else if ResourceType = ACPI_RESOURCE_NAME_SERIAL_BUS
           then obind (get8 mem (aml + sum_list (take 4 AML_RESOURCE_COMMON_SERIALBUS))) (\<lambda>ty.
             if ty = 0 \<or> ty > AML_RESOURCE_MAX_SERIALBUSTYPE then Ret (Inl AE_AML_INVALID_RESOURCE_TYPE)
             else Ret (Inr ix))
           else Ret (Inr ix)))"

section \<open>The walk\<close>

text \<open>
  The callback gets the bytes from the descriptor on, its length, its offset and its table index, and
  changes the context. The result is the status, the context, and where the end tag is, which is
  stored when there is no callback.
\<close>

type_synonym 'c callback = "'c \<Rightarrow> u8 list \<Rightarrow> u32 \<Rightarrow> u32 \<Rightarrow> u8 \<Rightarrow> ACPI_STATUS \<times> 'c"

lemma header_length: "AcpiUtGetResourceHeaderLength mem aml = Ret h \<Longrightarrow> h = 1 \<or> h = 3"
  by (auto simp: AcpiUtGetResourceHeaderLength_def obind_eq_Ret layouts split: if_splits)

lemma descriptor_length_pos: "AcpiUtGetDescriptorLength mem aml = Ret l \<Longrightarrow> 0 < unat l"
proof -
  assume "AcpiUtGetDescriptorLength mem aml = Ret l"
  then obtain r :: u16 and h where l: "l = ucast r + ucast h" and h: "AcpiUtGetResourceHeaderLength mem aml = Ret h"
    by (force simp: AcpiUtGetDescriptorLength_def obind_eq_Ret)
  have "unat (r :: u16) < 65536" using unsigned_less [of r] by simp
  then have "unat (ucast r + ucast h :: u32) = unat r + unat h"
    using header_length [OF h] by (auto simp: unat_word_ariths unsigned_ucast_eq take_bit_nat_eq_self)
  then show "0 < unat l" unfolding l using header_length [OF h] by auto
qed

definition end_aml :: "u8 list" where "end_aml = [0x79, 0x00]"

function walk_loop :: "u8 list \<Rightarrow> nat \<Rightarrow> 'c callback option \<Rightarrow> 'c \<Rightarrow> nat \<Rightarrow> u32 \<Rightarrow> (ACPI_STATUS \<times> 'c \<times> nat option) outcome" where
  "walk_loop mem len uf ctx aml ofs =
     (if aml < len
      then obind (AcpiUtValidateResource mem aml) (\<lambda>v. case v of
             Inl st \<Rightarrow> Ret (st, ctx, None)
           | Inr ix \<Rightarrow>
               obind (AcpiUtGetDescriptorLength mem aml) (\<lambda>l.
               case (case uf of None \<Rightarrow> (AE_OK, ctx) | Some f \<Rightarrow> f ctx (drop aml mem) l ofs ix) of (st, ctx) \<Rightarrow>
               if st \<noteq> AE_OK then Ret (st, ctx, None)
               else obind (AcpiUtGetResourceType mem aml) (\<lambda>t.
                 if t = ACPI_RESOURCE_NAME_END_TAG
                 then if aml + 1 \<ge> len then Ret (AE_AML_NO_RESOURCE_END_TAG, ctx, None)
                      else Ret (AE_OK, ctx, case uf of None \<Rightarrow> Some aml | Some f \<Rightarrow> None)
                 else walk_loop mem len uf ctx (aml + unat l) (ofs + l))))
      else case uf of
             None \<Rightarrow> Ret (AE_AML_NO_RESOURCE_END_TAG, ctx, None)
           | Some f \<Rightarrow> obind (AcpiUtValidateResource end_aml 0) (\<lambda>v.
               case f ctx end_aml 2 ofs (case v of Inl _ \<Rightarrow> 0 | Inr ix \<Rightarrow> ix) of (st, ctx) \<Rightarrow>
               Ret (if st \<noteq> AE_OK then st else AE_AML_NO_RESOURCE_END_TAG, ctx, None)))"
  by pat_completeness auto
termination
  by (relation "measure (\<lambda>(mem, len, uf, ctx, aml, ofs). len - aml)") (auto dest: descriptor_length_pos)

declare walk_loop.simps [simp del]

definition AcpiUtWalkAmlResources :: "u8 list \<Rightarrow> nat \<Rightarrow> 'c callback option \<Rightarrow> 'c \<Rightarrow> (ACPI_STATUS \<times> 'c \<times> nat option) outcome" where
  "AcpiUtWalkAmlResources mem AmlLength uf ctx =
     (if AmlLength < sum_list AML_RESOURCE_END_TAG then Ret (AE_AML_NO_RESOURCE_END_TAG, ctx, None)
      else walk_loop mem AmlLength uf ctx 0 0)"

text \<open>The position of the end tag in the buffer; an empty buffer is its own end.\<close>

definition AcpiUtGetResourceEndTag :: "u8 list \<Rightarrow> nat \<Rightarrow> (ACPI_STATUS \<times> nat option) outcome" where
  "AcpiUtGetResourceEndTag buffer len =
     (if len = 0 then Ret (AE_OK, Some 0)
      else obind (AcpiUtWalkAmlResources buffer len (None :: unit callback option) ()) (\<lambda>(st, _, tag). Ret (st, tag)))"

section \<open>The walk stays near the buffer\<close>

lemma resource_table_sizes: "length AcpiGbl_ResourceTypes = 31" "length AcpiGbl_ResourceAmlSizes = 31"
  by (simp_all add: AcpiGbl_ResourceTypes_def AcpiGbl_ResourceAmlSizes_def)

text \<open>Every resource type the first byte can select is an index of the tables.\<close>

lemma resource_index_table:
  "list_all (\<lambda>n. case resource_index (of_nat n) of None \<Rightarrow> True | Some ix \<Rightarrow> unat ix < 31) [0..<256]"
  by code_simp

lemma resource_index_bound: "resource_index b = Some ix \<Longrightarrow> unat ix < 31"
proof -
  assume r: "resource_index b = Some ix"
  have "unat b \<in> set [0..<256]" using unsigned_less [of b] by simp
  then have "case resource_index (of_nat (unat b)) of None \<Rightarrow> True | Some ix \<Rightarrow> unat ix < 31"
    using resource_index_table unfolding list_all_iff by blast
  then show ?thesis using r by simp
qed

lemma get8_in: "p < length mem \<Longrightarrow> get8 mem p = Ret (mem ! p)"
  by (simp add: get8_def)

lemma serial_type_offset: "sum_list (take 4 AML_RESOURCE_COMMON_SERIALBUS) = 5"
  by (simp add: layouts)

lemma end_aml_valid: "AcpiUtValidateResource end_aml 0 = Ret (Inr 15)" by code_simp

lemma descriptor_reads:
  assumes "aml + 5 < length mem"
  shows "\<exists>v. AcpiUtValidateResource mem aml = Ret v" "\<exists>l. AcpiUtGetDescriptorLength mem aml = Ret l"
    "\<exists>t. AcpiUtGetResourceType mem aml = Ret t"
proof -
  have g: "get8 mem aml = Ret (mem ! aml)" "get8 mem (aml + 1) = Ret (mem ! (aml + 1))" "get8 mem (aml + 2) = Ret (mem ! (aml + 2))"
    "get8 mem (aml + 5) = Ret (mem ! (aml + 5))"
    using assms by (simp_all add: get8_in)
  obtain r where r: "AcpiUtGetResourceLength mem aml = Ret r"
  proof -
    have "\<exists>r. AcpiUtGetResourceLength mem aml = Ret r"
      unfolding AcpiUtGetResourceLength_def g obind_simps by auto
    then show ?thesis using that by blast
  qed
  then show "\<exists>l. AcpiUtGetDescriptorLength mem aml = Ret l"
    by (simp add: AcpiUtGetDescriptorLength_def AcpiUtGetResourceHeaderLength_def g)
  show "\<exists>t. AcpiUtGetResourceType mem aml = Ret t" by (simp add: AcpiUtGetResourceType_def g)
  show "\<exists>v. AcpiUtValidateResource mem aml = Ret v"
  proof (cases "resource_index (mem ! aml)")
    case (Some ix)
    then have "\<not> 31 \<le> unat ix" using resource_index_bound by (simp add: not_le)
    then show ?thesis using Some by (simp add: AcpiUtValidateResource_def g r serial_type_offset resource_table_sizes)
  qed (simp add: AcpiUtValidateResource_def g)
qed

lemma walk_loop_returns:
  "len + 5 \<le> length mem \<Longrightarrow> \<exists>r. walk_loop mem len uf ctx aml ofs = Ret r"
proof (induction mem len uf ctx aml ofs rule: walk_loop.induct)
  case (1 mem len uf ctx aml ofs)
  note e = end_aml_valid
  show ?case
  proof (cases "aml < len")
    case True
    then have "aml + 5 < length mem" using "1.prems" by simp
    note rd = descriptor_reads [OF this]
    obtain v l t where v: "AcpiUtValidateResource mem aml = Ret v" "AcpiUtGetDescriptorLength mem aml = Ret l"
      "AcpiUtGetResourceType mem aml = Ret t" using rd by blast
    show ?thesis
    proof (cases v)
      case (Inl st)
      then show ?thesis using True v by (subst walk_loop.simps) simp
    next
      case (Inr ix)
      obtain st c where sc: "(case uf of None \<Rightarrow> (AE_OK, ctx) | Some f \<Rightarrow> f ctx (drop aml mem) l ofs ix) = (st, c)" by fastforce
      show ?thesis
      proof (cases "st = AE_OK \<and> t \<noteq> ACPI_RESOURCE_NAME_END_TAG")
        case True
        then have "\<exists>r. walk_loop mem len uf c (aml + unat l) (ofs + l) = Ret r"
          using "1.IH" [OF \<open>aml < len\<close> v(1) Inr v(2) sc [symmetric] _ v(3)] "1.prems" by simp
        then show ?thesis using True \<open>aml < len\<close> v Inr sc by (subst walk_loop.simps) simp
      next
        case False
        then show ?thesis using True v Inr sc by (subst walk_loop.simps) auto
      qed
    qed
  next
    case False
    then show ?thesis using e by (subst walk_loop.simps) (auto split: option.split prod.split)
  qed
qed

section \<open>Templates\<close>

text \<open>
  The specification of a walk: a template is a list of descriptors, each with its table index, and
  an end tag. A descriptor that reads as one on its own reads the same inside the template.
\<close>

definition descriptor :: "u8 list \<times> u8 \<Rightarrow> bool" where
  "descriptor p = (AcpiUtValidateResource (fst p) 0 = Ret (Inr (snd p)) \<and>
     AcpiUtGetDescriptorLength (fst p) 0 = Ret (of_nat (length (fst p))) \<and> length (fst p) < 2 ^ 32 \<and>
     (\<exists>t. AcpiUtGetResourceType (fst p) 0 = Ret t \<and> t \<noteq> ACPI_RESOURCE_NAME_END_TAG))"

definition template :: "(u8 list \<times> u8) list \<Rightarrow> u8 list \<Rightarrow> u8 list" where
  "template ds tag = concat (map fst ds) @ tag"

fun visit :: "'c callback \<Rightarrow> 'c \<Rightarrow> u32 \<Rightarrow> (u8 list \<times> u8) list \<Rightarrow> u8 list \<Rightarrow> ACPI_STATUS \<times> 'c" where
  "visit f ctx ofs [] tag = f ctx tag 2 ofs 15"
| "visit f ctx ofs (d # ds) tag =
     (case f ctx (template (d # ds) tag) (of_nat (length (fst d))) ofs (snd d) of (st, ctx) \<Rightarrow>
      if st \<noteq> AE_OK then (st, ctx) else visit f ctx (ofs + of_nat (length (fst d))) ds tag)"

lemma get8_inside: "get8 d p = Ret b \<Longrightarrow> get8 (pre @ d @ post) (length pre + p) = Ret b"
  by (auto simp: get8_def nth_append split: if_splits)

lemma type_inside: "AcpiUtGetResourceType d 0 = Ret t \<Longrightarrow> AcpiUtGetResourceType (pre @ d @ post) (length pre) = Ret t"
  using get8_inside [of d 0] by (auto simp: AcpiUtGetResourceType_def obind_eq_Ret)

lemma resource_length_inside:
  "AcpiUtGetResourceLength d 0 = Ret l \<Longrightarrow> AcpiUtGetResourceLength (pre @ d @ post) (length pre) = Ret l"
  using get8_inside [of d 0] get8_inside [of d "Suc 0"] get8_inside [of d "Suc (Suc 0)"]
  by (auto simp: AcpiUtGetResourceLength_def obind_eq_Ret split: if_splits)

lemma length_inside:
  assumes "AcpiUtGetDescriptorLength d 0 = Ret l"
  shows "AcpiUtGetDescriptorLength (pre @ d @ post) (length pre) = Ret l"
proof -
  obtain r where r: "AcpiUtGetResourceLength d 0 = Ret r"
    using assms by (auto simp: AcpiUtGetDescriptorLength_def obind_eq_Ret)
  then obtain b where b: "get8 d 0 = Ret b" by (auto simp: AcpiUtGetResourceLength_def obind_eq_Ret)
  show ?thesis
    using assms r b resource_length_inside [OF r, of pre post] get8_inside [OF b, of pre post]
    by (simp add: AcpiUtGetDescriptorLength_def AcpiUtGetResourceHeaderLength_def)
qed

lemma validate_inside:
  assumes "AcpiUtValidateResource d 0 = Ret v"
  shows "AcpiUtValidateResource (pre @ d @ post) (length pre) = Ret v"
proof -
  obtain b where b: "get8 d 0 = Ret b" using assms by (auto simp: AcpiUtValidateResource_def obind_eq_Ret)
  note b' = get8_inside [OF b, of pre post, simplified]
  show ?thesis
  proof (cases "resource_index b")
    case None
    then show ?thesis using assms b b' by (simp add: AcpiUtValidateResource_def)
  next
    case (Some ix)
    show ?thesis
    proof (cases "AcpiGbl_ResourceTypes ! unat ix = ACPI_INVALID_RESOURCE")
      case True
      then show ?thesis using Some assms b b' by (simp add: AcpiUtValidateResource_def split: if_splits)
    next
      case False
      then obtain l where l: "AcpiUtGetResourceLength d 0 = Ret l"
        using Some assms b by (auto simp: AcpiUtValidateResource_def obind_eq_Ret split: if_splits)
      note l' = resource_length_inside [OF l, of pre post]
      let ?p = "sum_list (take 4 AML_RESOURCE_COMMON_SERIALBUS)"
      show ?thesis
        using assms False Some b b' l l' get8_inside [of d ?p _ pre post]
        by (cases "get8 d ?p") (auto simp: AcpiUtValidateResource_def split: if_splits)
    qed
  qed
qed

lemmas inside = validate_inside length_inside type_inside

text \<open>What evaluates the operations on a concrete descriptor.\<close>

lemmas descriptor_eval = AcpiUtValidateResource_def AcpiUtGetResourceLength_def AcpiUtGetDescriptorLength_def
  AcpiUtGetResourceHeaderLength_def AcpiUtGetResourceType_def get8_def resource_index_def
  ACPI_RESOURCE_NAME_LARGE_def ACPI_RESOURCE_NAME_SMALL_MASK_def ACPI_RESOURCE_NAME_SMALL_LENGTH_MASK_def
  ACPI_RESOURCE_NAME_LARGE_MAX_def
  ACPI_RESOURCE_NAME_END_TAG_def ACPI_RESOURCE_NAME_SERIAL_BUS_def AcpiGbl_ResourceTypes_def
  AcpiGbl_ResourceAmlSizes_def ACPI_AML_SIZE_SMALL_def ACPI_AML_SIZE_LARGE_def layouts

lemma end_tag_reads:
  "AcpiUtValidateResource [0x79, c] 0 = Ret (Inr 15)" "AcpiUtGetDescriptorLength [0x79, c] 0 = Ret 2"
  "AcpiUtGetResourceType [0x79, c] 0 = Ret ACPI_RESOURCE_NAME_END_TAG"
  by (simp_all add: descriptor_eval)

lemma walk_step:
  assumes d: "descriptor d" and n: "length pre + length (fst d) < len" and m: "len < 2 ^ 32"
  shows "walk_loop (pre @ fst d @ post) len uf ctx (length pre) ofs =
    (case (case uf of None \<Rightarrow> (AE_OK, ctx) | Some f \<Rightarrow> f ctx (fst d @ post) (of_nat (length (fst d))) ofs (snd d)) of (st, ctx) \<Rightarrow>
     if st \<noteq> AE_OK then Ret (st, ctx, None)
     else walk_loop (pre @ fst d @ post) len uf ctx (length pre + length (fst d)) (ofs + of_nat (length (fst d))))"
proof -
  obtain t where t: "AcpiUtGetResourceType (fst d) 0 = Ret t" "t \<noteq> ACPI_RESOURCE_NAME_END_TAG"
    using d by (auto simp: descriptor_def)
  have v: "AcpiUtValidateResource (fst d) 0 = Ret (Inr (snd d))"
    and l: "AcpiUtGetDescriptorLength (fst d) 0 = Ret (of_nat (length (fst d)))"
    using d by (simp_all add: descriptor_def)
  have u: "unat (of_nat (length (fst d)) :: u32) = length (fst d)" using n m by (simp add: unat_of_nat_eq)
  show ?thesis
    using n t(2) inside(1) [OF v, of pre post] inside(2) [OF l, of pre post] inside(3) [OF t(1), of pre post]
    by (subst walk_loop.simps) (simp add: u split: option.split prod.split)
qed

lemma walk_end:
  assumes "length pre + 1 < len"
  shows "walk_loop (pre @ [0x79, c] @ post) len uf ctx (length pre) ofs =
    (case (case uf of None \<Rightarrow> (AE_OK, ctx) | Some f \<Rightarrow> f ctx ([0x79, c] @ post) 2 ofs 15) of (st, ctx) \<Rightarrow>
     Ret (st, ctx, if st \<noteq> AE_OK then None else case uf of None \<Rightarrow> Some (length pre) | Some f \<Rightarrow> None))"
proof -
  note e = end_tag_reads [of c]
  show ?thesis
    using assms inside(1) [OF e(1), of pre post] inside(2) [OF e(2), of pre post] inside(3) [OF e(3), of pre post]
    by (subst walk_loop.simps) (auto split: option.split prod.split)
qed

lemma walk_visits_from:
  assumes "\<forall>d\<in>set ds. descriptor d" and "len < 2 ^ 32"
    and "len = length pre + length (concat (map fst ds)) + 2"
  shows "walk_loop (pre @ template ds ([0x79, c] @ post)) len (Some f) ctx (length pre) ofs =
    (case visit f ctx ofs ds ([0x79, c] @ post) of (st, ctx) \<Rightarrow> Ret (st, ctx, None))"
  using assms
proof (induction ds arbitrary: pre ctx ofs)
  case Nil
  then show ?case using walk_end [of pre len c post "Some f" ctx ofs]
    by (auto simp: template_def split: prod.split)
next
  case (Cons d ds)
  let ?post = "template ds ([0x79, c] @ post)"
  have t: "template (d # ds) ([0x79, c] @ post) = fst d @ ?post" by (simp add: template_def)
  obtain st ctx' where s: "f ctx (fst d @ ?post) (of_nat (length (fst d))) ofs (snd d) = (st, ctx')" by fastforce
  have "walk_loop ((pre @ fst d) @ ?post) len (Some f) ctx' (length (pre @ fst d)) (ofs + of_nat (length (fst d))) =
    (case visit f ctx' (ofs + of_nat (length (fst d))) ds ([0x79, c] @ post) of (st, ctx) \<Rightarrow> Ret (st, ctx, None))"
    using Cons.prems by (intro Cons.IH) simp_all
  then show ?case
    using Cons.prems walk_step [of d pre len ?post "Some f" ctx ofs] s unfolding t visit.simps
    by simp
qed

lemma walk_finds_end:
  assumes "\<forall>d\<in>set ds. descriptor d" and "len < 2 ^ 32"
    and "len = length pre + length (concat (map fst ds)) + 2"
  shows "walk_loop (pre @ template ds ([0x79, c] @ post)) len None ctx (length pre) ofs =
    Ret (AE_OK, ctx, Some (length pre + length (concat (map fst ds))))"
  using assms
proof (induction ds arbitrary: pre ofs)
  case Nil
  then show ?case using walk_end [of pre len c post None ctx ofs] by (simp add: template_def)
next
  case (Cons d ds)
  let ?post = "template ds ([0x79, c] @ post)"
  have t: "template (d # ds) ([0x79, c] @ post) = fst d @ ?post" by (simp add: template_def)
  have "walk_loop ((pre @ fst d) @ ?post) len None ctx (length (pre @ fst d)) (ofs + of_nat (length (fst d))) =
    Ret (AE_OK, ctx, Some (length (pre @ fst d) + length (concat (map fst ds))))"
    using Cons.prems by (intro Cons.IH) simp_all
  then show ?case
    using Cons.prems walk_step [of d pre len ?post None ctx ofs] unfolding t by simp
qed

text \<open>The descriptor of interrupt 4, a fixed 32-bit memory range, and a vendor descriptor of two bytes.\<close>

definition sample :: "(u8 list \<times> u8) list" where
  "sample = [([0x22, 0x10, 0x00], 4), ([0x86, 9, 0, 1, 0, 0, 0xC0, 0xFE, 0, 0x10, 0, 0], 22), ([0x84, 2, 0, 7, 7], 20)]"

lemma sample_length: "length (concat (map fst sample)) = 20" by (simp add: sample_def)

lemma sample_descriptors: "\<forall>d\<in>set sample. descriptor d"
  unfolding sample_def descriptor_def
  by (simp add: descriptor_eval)

text \<open>
  C35. The walk over a well-formed template, descriptors and an end tag, calls the user function
  once on each descriptor in order, with the bytes from there on, the length, the offset and the table
  index of the descriptor, and last on the end tag; it stops at the first status that is not AE_OK and
  returns that status, AE_OK otherwise.
\<close>

theorem walk_visits_descriptors:
  assumes "\<forall>d\<in>set ds. descriptor d" and "length (concat (map fst ds)) + 2 < 2 ^ 32"
  shows "AcpiUtWalkAmlResources (template ds ([0x79, c] @ post)) (length (concat (map fst ds)) + 2) (Some f) ctx =
    (case visit f ctx 0 ds ([0x79, c] @ post) of (st, ctx) \<Rightarrow> Ret (st, ctx, None))"
  using walk_visits_from [of ds "length (concat (map fst ds)) + 2" "[]"] assms by (simp add: AcpiUtWalkAmlResources_def layouts)

lemma walk_visits_descriptors_witness:
  "\<exists>log. AcpiUtWalkAmlResources (template sample [0x79, 0]) 22 (Some (\<lambda>log b l ofs ix. (AE_OK, log @ [(l, ofs, ix)]))) [] =
     Ret (AE_OK, log, None) \<and> log = [(3, 0, 4), (12, 3, 22), (5, 15, 20), (2, 20, 15)]"
  using walk_visits_descriptors [OF sample_descriptors, of 0 "[]" "\<lambda>log b l ofs ix. (AE_OK, log @ [(l, ofs, ix)])" "[]"]
  by (simp add: sample_length) (simp add: sample_def)

text \<open>
  The end tag search of a well-formed template returns the position just behind its descriptors,
  so that the position and the template determine each other.
\<close>

theorem end_tag_found:
  assumes "\<forall>d\<in>set ds. descriptor d" and "length (concat (map fst ds)) + 2 < 2 ^ 32"
  shows "AcpiUtGetResourceEndTag (template ds ([0x79, c] @ post)) (length (concat (map fst ds)) + 2) =
    Ret (AE_OK, Some (length (concat (map fst ds))))"
  using walk_finds_end [of ds "length (concat (map fst ds)) + 2" "[]" c post "()" 0] assms
  by (simp add: AcpiUtGetResourceEndTag_def AcpiUtWalkAmlResources_def layouts)

lemma end_tag_found_witness: "AcpiUtGetResourceEndTag (template sample [0x79, 0]) 22 = Ret (AE_OK, Some 20)"
  using end_tag_found [OF sample_descriptors, of 0 "[]"] by (simp add: sample_length)

text \<open>
  C36. Whatever bytes the buffer holds, the walk ends and reads no byte that is more than five
  behind the end of the buffer.
\<close>

theorem walk_overreads_at_most_5:
  assumes "len + 5 \<le> length mem"
  shows "\<exists>r. AcpiUtWalkAmlResources mem len uf ctx = Ret r"
  using walk_loop_returns [OF assms, of uf ctx 0 0] by (simp add: AcpiUtWalkAmlResources_def)

lemma walk_overreads_at_most_5_witness:
  "\<exists>r. AcpiUtWalkAmlResources [0x79, 0, 1, 2, 3, 4, 5] 2 (None :: unit callback option) () = Ret r"
  by (rule walk_overreads_at_most_5) simp

text \<open>
  The walk does read behind the buffer: a large descriptor whose tag is the last byte has its
  length read from the two bytes that follow.
\<close>

theorem walk_reads_behind_buffer:
  "AcpiUtWalkAmlResources [0x78, 0x80] 1 (None :: unit callback option) () = Ret (AE_AML_NO_RESOURCE_END_TAG, (), None)
   \<and> AcpiUtWalkAmlResources [0x22, 0x10, 0x00, 0x86] 4 (None :: unit callback option) () = Trap"
  by (simp add: AcpiUtWalkAmlResources_def walk_loop.simps descriptor_eval)

end
