(* ===== verification/AcpiFadt.thy ===== *)
theory AcpiFadt
  imports AcpiTables
begin

text \<open>
  What the conversion of the fixed table (tables/tbfadt.c, modelled in \<open>AcpiTables\<close>) leaves in the local
  copy and in the register structures, from the bytes of the table as the firmware has it.
\<close>

section \<open>Structures in the local copy\<close>

lemma ucast_halves16: "le16 (ucast v) (ucast (drop_bit 8 v)) = v"
  by (rule bit_word_eqI) (auto simp: le16_def bit_simps)

lemma ucast_halves32: "le32 (ucast v) (ucast (drop_bit 16 v)) = v"
  by (rule bit_word_eqI) (auto simp: le32_def bit_simps)

lemma rd16_wr16 [simp]: "rd16 (wr16 p v f) p = v"
  by (simp add: rd16_def wr16_def ucast_halves16)

lemma wr16_other: "i \<noteq> p \<Longrightarrow> i \<noteq> p + 1 \<Longrightarrow> wr16 p v f i = f i"
  by (simp add: wr16_def)

lemma rd16_cong: "f p = g p \<Longrightarrow> f (p + 1) = g (p + 1) \<Longrightarrow> rd16 f p = rd16 g p"
  by (simp add: rd16_def)

lemma rd32_wr32 [simp]: "rd32 (wr32 p v f) p = (v :: u32)"
proof -
  have "rd16 (wr32 p v f) p = ucast v"
    unfolding wr32_def by (subst rd16_cong [of _ p "wr16 p (ucast v) f"]) (simp_all add: wr16_other)
  then show ?thesis by (simp add: rd32_def wr32_def ucast_halves32)
qed

lemma wr32_other: "i < p \<or> p + 4 \<le> i \<Longrightarrow> wr32 p v f i = f i"
  by (auto simp: wr32_def wr16_other)

lemma rd32_cong: "(\<And>i. p \<le> i \<Longrightarrow> i < p + 4 \<Longrightarrow> f i = g i) \<Longrightarrow> rd32 f p = rd32 g (p :: nat)"
  unfolding rd32_def by (intro arg_cong2 [where f = le32] rd16_cong) auto

lemma rd64_wr64 [simp]: "rd64 (wr64 p v f) p = v"
proof -
  have "rd32 (wr64 p v f) p = lo32 v"
    unfolding wr64_def by (subst rd32_cong [of p _ "wr32 p (lo32 v) f"]) (simp_all add: wr32_other)
  then show ?thesis by (simp add: rd64_def wr64_def halves)
qed

lemma wr64_other: "i < p \<or> p + 8 \<le> i \<Longrightarrow> wr64 p v f i = f i"
  by (auto simp: wr64_def wr32_other)

lemma rd64_cong: "(\<And>i. p \<le> i \<Longrightarrow> i < p + 8 \<Longrightarrow> f i = g i) \<Longrightarrow> rd64 f p = rd64 g (p :: nat)"
  unfolding rd64_def by (intro arg_cong [where f = full64] arg_cong2 [where f = Pair] rd32_cong) auto

lemma put_gas_other: "i < p \<or> p + 12 \<le> i \<Longrightarrow> put_gas p g f i = f i"
  by (auto simp: put_gas_def wr64_other)

lemma get_put_gas [simp]: "get_gas (put_gas p g f) p = g"
  by (simp add: get_gas_def put_gas_def wr64_other)

lemma get_gas_cong: "(\<And>i. p \<le> i \<Longrightarrow> i < p + 12 \<Longrightarrow> f i = g i) \<Longrightarrow> get_gas f p = get_gas g p"
  unfolding get_gas_def using rd64_cong [of "p + 4" f g] by auto

section \<open>The loops over the register table\<close>

text \<open>
  The entries of the table of registers from \<open>lo\<close> on: their address structures follow each other and
  lie behind the old address and length fields.
\<close>

fun register_table :: "nat \<Rightarrow> nat \<Rightarrow> fadt_info list \<Rightarrow> bool" where
  "register_table b lo [] = True"
| "register_table b lo (e # es) = (b \<le> lo \<and> lo \<le> fi_Address64 e \<and> fi_Address32 e + 4 \<le> b \<and> fi_Length e < b \<and>
     register_table b (fi_Address64 e + 12) es)"

lemma register_table_ge: "register_table b lo es \<Longrightarrow> e \<in> set es \<Longrightarrow>
  lo \<le> fi_Address64 e \<and> b \<le> fi_Address64 e \<and> fi_Address32 e + 4 \<le> b \<and> fi_Length e < b"
  by (induction es arbitrary: lo) fastforce+

text \<open>The bytes of the structures are all that a loop changes, and each entry's structure is changed once.\<close>

lemma fold_registers:
  assumes "\<And>e f i. i < fi_Address64 e \<or> fi_Address64 e + 12 \<le> i \<Longrightarrow> step e f i = f i"
  shows "register_table b lo es \<Longrightarrow> (\<forall>i < lo. fold step es f i = f i)"
proof (induction es arbitrary: lo f)
  case (Cons e es)
  then show ?case using assms by fastforce
qed simp

lemma fold_register:
  assumes out: "\<And>e f i. i < fi_Address64 e \<or> fi_Address64 e + 12 \<le> i \<Longrightarrow> step e f i = f i"
    and loc: "\<And>e f g. fi_Address32 e + 4 \<le> b \<Longrightarrow> fi_Length e < b \<Longrightarrow> (\<And>i. i < b \<Longrightarrow> f i = g i) \<Longrightarrow>
      get_gas f (fi_Address64 e) = get_gas g (fi_Address64 e) \<Longrightarrow>
      get_gas (step e f) (fi_Address64 e) = get_gas (step e g) (fi_Address64 e)"
  shows "register_table b lo es \<Longrightarrow> e \<in> set es \<Longrightarrow>
    get_gas (fold step es f) (fi_Address64 e) = get_gas (step e f) (fi_Address64 e)"
proof (induction es arbitrary: lo f)
  case (Cons d es)
  show ?case
  proof (cases "e = d")
    case True
    have "register_table b (fi_Address64 d + 12) es" using Cons.prems by simp
    then have "\<forall>i < fi_Address64 d + 12. fold step es (step d f) i = step d f i"
      by (rule fold_registers [of step, rotated]) (rule out)
    then show ?thesis unfolding True fold_simps by (intro get_gas_cong) simp
  next
    case False
    then have e: "e \<in> set es" using Cons.prems by simp
    have r: "register_table b (fi_Address64 d + 12) es" using Cons.prems by simp
    have g: "fi_Address64 d + 12 \<le> fi_Address64 e" "fi_Address32 e + 4 \<le> b" "fi_Length e < b"
      using register_table_ge [OF r e] by auto
    have s: "step d f i = f i" if "i < b \<or> fi_Address64 e \<le> i" for i
      using that Cons.prems g by (intro out) auto
    have "get_gas (fold step es (step d f)) (fi_Address64 e) = get_gas (step e (step d f)) (fi_Address64 e)"
      using r e by (rule Cons.IH)
    also have "\<dots> = get_gas (step e f) (fi_Address64 e)"
      using g s by (intro loc get_gas_cong) auto
    finally show ?thesis by simp
  qed
qed simp

lemma fadt_table: "register_table 94 148 FadtInfoTable"
  by code_simp

section \<open>The converted table\<close>

definition raw_fadt :: "mem \<Rightarrow> u32 \<Rightarrow> u32 \<Rightarrow> nat \<Rightarrow> u8" where
  "raw_fadt m Table Length = (\<lambda>i. if i < min (unat Length) 268 then m (Table + of_nat i) else 0)"

lemma fadt_offsets: "ACPI_FADT_OFFSET ''Facs'' = 36" "ACPI_FADT_OFFSET ''Dsdt'' = 40" "ACPI_FADT_OFFSET ''XFacs'' = 132"
  "ACPI_FADT_OFFSET ''XDsdt'' = 140" "ACPI_FADT_OFFSET ''BootFlags'' = 109" "ACPI_FADT_OFFSET ''PreferredProfile'' = 45"
  "ACPI_FADT_OFFSET ''PstateControl'' = 55" "ACPI_FADT_OFFSET ''CstControl'' = 95" "ACPI_FADT_OFFSET ''Flags'' = 112"
  "ACPI_FADT_OFFSET ''Pm1aEventBlock'' = 56" "ACPI_FADT_OFFSET ''XPm1aEventBlock'' = 148" "ACPI_FADT_OFFSET ''XPm1bEventBlock'' = 160"
  "ACPI_FADT_OFFSET ''Pm1bEventBlock'' = 60" "ACPI_FADT_OFFSET ''Pm1EventLength'' = 88"
  "ACPI_OFFSET ACPI_TABLE_HEADER ''Length'' = 4" "ACPI_FADT_V2_SIZE = 132"
  by code_simp+

lemma expand_other: "i < fi_Address64 e \<or> fi_Address64 e + 12 \<le> i \<Longrightarrow> expand_address e f i = f i"
  by (auto simp: expand_address_def Let_def put_gas_other)

lemma expand_local:
  assumes "fi_Address32 e + 4 \<le> b" and "fi_Length e < b" and "\<And>i. i < b \<Longrightarrow> f i = g i"
    and "get_gas f (fi_Address64 e) = get_gas g (fi_Address64 e)"
  shows "get_gas (expand_address e f) (fi_Address64 e) = get_gas (expand_address e g) (fi_Address64 e)"
proof -
  have "rd32 f (fi_Address32 e) = rd32 g (fi_Address32 e)" using assms(1,3) by (intro rd32_cong) auto
  then show ?thesis using assms(2-4) by (simp add: expand_address_def Let_def)
qed

lemma width_other: "i < fi_Address64 e \<or> fi_Address64 e + 12 \<le> i \<Longrightarrow> default_width e f i = f i"
  by (auto simp: default_width_def Let_def put_gas_other)

lemma width_local: "get_gas f (fi_Address64 e) = get_gas g (fi_Address64 e) \<Longrightarrow>
  get_gas (default_width e f) (fi_Address64 e) = get_gas (default_width e g) (fi_Address64 e)"
  by (simp add: default_width_def Let_def)

lemma default_width_gas: "get_gas (default_width e f) (fi_Address64 e) =
  (let g = get_gas f (fi_Address64 e) in if Address g \<noteq> 0 \<and> fi_DefaultLength e > 0 then g\<lparr>BitWidth := fi_DefaultLength e\<rparr> else g)"
  by (auto simp: default_width_def Let_def)

lemma expand_gas: "get_gas (expand_address e f) (fi_Address64 e) =
  (if rd32 f (fi_Address32 e) \<noteq> 0
   then AcpiTbInitGenericAddress ACPI_ADR_SPACE_SYSTEM_IO (f (fi_Length e)) (ucast (rd32 f (fi_Address32 e)))
   else get_gas f (fi_Address64 e))"
  by (simp add: expand_address_def Let_def)

text \<open>What the conversion and the validation do before and after the loop stays away from the registers.\<close>

lemma convert_fadt:
  "\<exists>f'. AcpiTbConvertFadt f = fold expand_address FadtInfoTable f' \<and>
     (\<forall>i. 56 \<le> i \<and> i < 95 \<or> 148 \<le> i \<longrightarrow> f' i = f i) \<and> (\<forall>i. 36 \<le> i \<and> i < 44 \<longrightarrow> f' i = f i) \<and>
     (\<forall>i. 112 \<le> i \<and> i < 132 \<longrightarrow> f' i = f i) \<and>
     rd64 f' 140 = (if rd64 f 140 = 0 then ucast (rd32 f 40) else rd64 f 140) \<and>
     rd64 f' 132 = (if rd64 f 132 = 0 then ucast (rd32 f 36) else rd64 f 132)"
proof -
  define f1 where "f1 = (if rd64 f 132 = 0 then wr64 132 (ucast (rd32 f 36)) f else f)"
  define f2 where "f2 = (if rd64 f1 140 = 0 then wr64 140 (ucast (rd32 f1 40)) f1 else f1)"
  define f3 where "f3 = (if rd32 f2 4 \<le> 132 then wr16 109 0 (f2(45 := 0, 55 := 0, 95 := 0)) else f2)"
  define f4 where "f4 = wr32 4 268 f3"
  have f1: "f1 i = f i" if "i < 132 \<or> 140 \<le> i" for i using that by (auto simp: f1_def wr64_other)
  have f2: "f2 i = f1 i" if "i < 140 \<or> 148 \<le> i" for i using that by (auto simp: f2_def wr64_other)
  have f4: "f4 i = f2 i" if "56 \<le> i \<and> i < 95 \<or> 36 \<le> i \<and> i < 44 \<or> 112 \<le> i" for i
    using that by (auto simp: f4_def f3_def wr32_other wr16_other)
  have "rd64 f4 140 = rd64 f2 140" "rd64 f4 132 = rd64 f1 132" "rd64 f1 140 = rd64 f 140" "rd32 f1 40 = rd32 f 40"
    using f4 f2 f1 by (auto intro!: rd64_cong rd32_cong)
  then have "rd64 f4 140 = (if rd64 f 140 = 0 then ucast (rd32 f 40) else rd64 f 140)"
    "rd64 f4 132 = (if rd64 f 132 = 0 then ucast (rd32 f 36) else rd64 f 132)"
    by (auto simp: f1_def f2_def)
  moreover have "AcpiTbConvertFadt f = fold expand_address FadtInfoTable f4"
    by (simp add: AcpiTbConvertFadt_def fadt_offsets table_sizes Let_def f4_def f3_def f2_def f1_def)
  moreover have "f4 i = f i" if "56 \<le> i \<and> i < 95 \<or> 36 \<le> i \<and> i < 44 \<or> 112 \<le> i \<and> i < 132 \<or> 148 \<le> i" for i
    using that f4 f2 f1 by auto
  ultimately show ?thesis by blast
qed

lemma validate_other: "i < 132 \<or> 148 \<le> i \<Longrightarrow> AcpiTbValidateFadt f i = f i"
  by (auto simp: AcpiTbValidateFadt_def fadt_offsets Let_def wr64_other)

lemma local_fadt: "FADT (AcpiTbCreateLocalFadt m t n s) =
  fold default_width FadtInfoTable (AcpiTbValidateFadt (AcpiTbConvertFadt (raw_fadt m t n)))"
  by (simp add: AcpiTbCreateLocalFadt_def AcpiTbSetupFadtRegisters_def AcpiGbl_UseDefaultRegisterWidths_def raw_fadt_def
      table_sizes Let_def)

lemma fadt_conversion:
  assumes "e \<in> set FadtInfoTable"
  shows "get_gas (FADT (AcpiTbCreateLocalFadt m t n s)) (fi_Address64 e) =
    (let r = raw_fadt m t n;
         g = (if rd32 r (fi_Address32 e) \<noteq> 0
              then AcpiTbInitGenericAddress ACPI_ADR_SPACE_SYSTEM_IO (r (fi_Length e)) (ucast (rd32 r (fi_Address32 e)))
              else get_gas r (fi_Address64 e))
     in if Address g \<noteq> 0 \<and> fi_DefaultLength e > 0 then g\<lparr>BitWidth := fi_DefaultLength e\<rparr> else g)"
proof -
  let ?r = "raw_fadt m t n"
  have b: "148 \<le> fi_Address64 e" "fi_Address32 e + 4 \<le> 94" "fi_Length e < 94" "56 \<le> fi_Address32 e" "56 \<le> fi_Length e"
  proof -
    show "148 \<le> fi_Address64 e" "fi_Address32 e + 4 \<le> 94" "fi_Length e < 94"
      using register_table_ge [OF fadt_table assms] by auto
    have "list_all (\<lambda>e. 56 \<le> fi_Address32 e \<and> 56 \<le> fi_Length e) FadtInfoTable" by code_simp
    then show "56 \<le> fi_Address32 e" "56 \<le> fi_Length e" using assms by (auto simp: list_all_iff)
  qed
  obtain f' where f': "AcpiTbConvertFadt ?r = fold expand_address FadtInfoTable f'"
    "\<forall>i. 56 \<le> i \<and> i < 95 \<or> 148 \<le> i \<longrightarrow> f' i = ?r i"
    using convert_fadt by blast
  have a: "rd32 f' (fi_Address32 e) = rd32 ?r (fi_Address32 e)" "f' (fi_Length e) = ?r (fi_Length e)"
    "get_gas f' (fi_Address64 e) = get_gas ?r (fi_Address64 e)"
    using f'(2) b by (auto intro!: rd32_cong get_gas_cong)
  have "get_gas (AcpiTbValidateFadt (AcpiTbConvertFadt ?r)) (fi_Address64 e) = get_gas (AcpiTbConvertFadt ?r) (fi_Address64 e)"
    using b by (intro get_gas_cong validate_other) auto
  also have "\<dots> = get_gas (expand_address e f') (fi_Address64 e)"
    unfolding f' by (rule fold_register [of expand_address, OF expand_other expand_local fadt_table assms])
  finally have v: "get_gas (AcpiTbValidateFadt (AcpiTbConvertFadt ?r)) (fi_Address64 e) = get_gas (expand_address e f') (fi_Address64 e)" .
  have "get_gas (FADT (AcpiTbCreateLocalFadt m t n s)) (fi_Address64 e) =
    get_gas (default_width e (AcpiTbValidateFadt (AcpiTbConvertFadt ?r))) (fi_Address64 e)"
    unfolding local_fadt by (rule fold_register [of default_width, OF width_other width_local fadt_table assms])
  then show ?thesis unfolding default_width_gas v expand_gas a by (simp add: Let_def)
qed

text \<open>
  C34. In the converted fixed table every register structure holds the old 32-bit I/O address
  with the length in bits whenever the old address is not zero, and otherwise what the firmware had in the
  structure; and its width is the default of the register, whatever the length field says, when it
  has an address and a default.
\<close>

theorem fadt_registers_converted:
  assumes "e \<in> set FadtInfoTable"
  shows "get_gas (FADT (AcpiTbCreateLocalFadt m t n s)) (fi_Address64 e) =
    (let r = raw_fadt m t n;
         g = (if rd32 r (fi_Address32 e) \<noteq> 0
              then AcpiTbInitGenericAddress ACPI_ADR_SPACE_SYSTEM_IO (r (fi_Length e)) (ucast (rd32 r (fi_Address32 e)))
              else get_gas r (fi_Address64 e))
     in if Address g \<noteq> 0 \<and> fi_DefaultLength e > 0 then g\<lparr>BitWidth := fi_DefaultLength e\<rparr> else g)"
  using assms by (rule fadt_conversion)

text \<open>
  The power management event block 1a of a fixed table, an I/O address, is split into
  two registers of 16 bits, the status register at the address and the enable register 2 behind it,
  whatever length the table states; an address 0 leaves the two as they were.
\<close>

theorem pm1a_event_block_split:
  assumes "a = rd32 (raw_fadt m t n) 56" and "a \<noteq> 0"
  shows "XPm1aStatus (AcpiTbCreateLocalFadt m t n s) = \<lparr>SpaceId = ACPI_ADR_SPACE_SYSTEM_IO, BitWidth = 16, BitOffset = 0, AccessWidth = 0, Address = ucast a\<rparr>
    \<and> XPm1aEnable (AcpiTbCreateLocalFadt m t n s) = \<lparr>SpaceId = ACPI_ADR_SPACE_SYSTEM_IO, BitWidth = 16, BitOffset = 0, AccessWidth = 0, Address = ucast a + 2\<rparr>"
proof -
  let ?s = "AcpiTbCreateLocalFadt m t n s"
  let ?e = "fadt_entry ''XPm1aEventBlock'' ''Pm1aEventBlock'' ''Pm1EventLength'' (ACPI_PM1_REGISTER_WIDTH * 2) ACPI_FADT_REQUIRED"
  have e: "?e \<in> set FadtInfoTable" by (simp add: FadtInfoTable_def)
  have nz: "(ucast a :: u64) \<noteq> 0"
  proof
    assume "(ucast a :: u64) = 0"
    then have "unat (ucast a :: u64) = 0" by simp
    then have "unat a = 0" using unat_u32_less [of a] by (simp add: unsigned_ucast_eq take_bit_nat_eq_self)
    then show False using assms(2) by (simp add: unat_eq_zero)
  qed
  have g: "get_gas (FADT ?s) 148 = \<lparr>SpaceId = ACPI_ADR_SPACE_SYSTEM_IO, BitWidth = 32, BitOffset = 0, AccessWidth = 0, Address = ucast a\<rparr>"
    using fadt_conversion [OF e, of m t n s] assms nz
    by (simp add: fadt_entry_def fadt_offsets ACPI_PM1_REGISTER_WIDTH_def AcpiTbInitGenericAddress_def)
  have s: "XPm1aStatus ?s = pm1_register (FADT ?s) ''XPm1aEventBlock'' 0 (drop_bit 4 (BitWidth (get_gas (FADT ?s) 148))) (XPm1aStatus s)"
    "XPm1aEnable ?s = pm1_register (FADT ?s) ''XPm1aEventBlock'' 1 (drop_bit 4 (BitWidth (get_gas (FADT ?s) 148))) (XPm1aEnable s)"
    by (simp_all add: AcpiTbCreateLocalFadt_def AcpiTbSetupFadtRegisters_def Let_def fadt_offsets)
  show ?thesis
    unfolding s g pm1_register_def fadt_offsets using nz by (simp add: AcpiTbInitGenericAddress_def Let_def g)
qed

text \<open>
  The DSDT and FACS addresses of the converted table are the old 32-bit ones whenever those are not zero,
  even when the table has different 64-bit addresses, and else the 64-bit ones.
\<close>

theorem fadt_old_addresses_win:
  "rd64 (FADT (AcpiTbCreateLocalFadt m t n s)) 140 =
     (let r = raw_fadt m t n in if rd32 r 40 \<noteq> 0 then ucast (rd32 r 40) else rd64 r 140)
   \<and> rd64 (FADT (AcpiTbCreateLocalFadt m t n s)) 132 =
     (let r = raw_fadt m t n in if rd32 r 36 \<noteq> 0 then ucast (rd32 r 36) else rd64 r 132)"
proof -
  let ?r = "raw_fadt m t n"
  define c where "c = AcpiTbConvertFadt ?r"
  obtain f' where f': "c = fold expand_address FadtInfoTable f'" "\<forall>i. 36 \<le> i \<and> i < 44 \<longrightarrow> f' i = ?r i"
    "rd64 f' 140 = (if rd64 ?r 140 = 0 then ucast (rd32 ?r 40) else rd64 ?r 140)"
    "rd64 f' 132 = (if rd64 ?r 132 = 0 then ucast (rd32 ?r 36) else rd64 ?r 132)"
    unfolding c_def using convert_fadt [of ?r] by blast
  have x: "\<forall>i < 148. c i = f' i" unfolding f'(1) using fold_registers [of expand_address, OF expand_other fadt_table] by blast
  have c: "rd64 c 140 = rd64 f' 140" "rd64 c 132 = rd64 f' 132" "rd32 c 40 = rd32 ?r 40" "rd32 c 36 = rd32 ?r 36"
    using x f'(2) by (auto intro!: rd64_cong rd32_cong)
  have v: "rd64 (AcpiTbValidateFadt c) 140 = (if rd32 ?r 40 \<noteq> 0 then ucast (rd32 ?r 40) else rd64 ?r 140)"
    "rd64 (AcpiTbValidateFadt c) 132 = (if rd32 ?r 36 \<noteq> 0 then ucast (rd32 ?r 36) else rd64 ?r 132)"
  proof -
    define d where "d = (if rd32 c 36 \<noteq> 0 \<and> rd64 c 132 \<noteq> ucast (rd32 c 36) then wr64 132 (ucast (rd32 c 36)) c else c)"
    have d: "rd32 d 40 = rd32 c 40" "rd64 d 140 = rd64 c 140"
      by (auto simp: d_def wr64_other intro!: rd32_cong rd64_cong)
    have e: "AcpiTbValidateFadt c = (if rd32 d 40 \<noteq> 0 \<and> rd64 d 140 \<noteq> ucast (rd32 d 40) then wr64 140 (ucast (rd32 d 40)) d else d)"
      by (simp add: AcpiTbValidateFadt_def fadt_offsets d_def Let_def)
    show "rd64 (AcpiTbValidateFadt c) 140 = (if rd32 ?r 40 \<noteq> 0 then ucast (rd32 ?r 40) else rd64 ?r 140)"
      unfolding e using d c f'(3) by auto
    have "rd64 (AcpiTbValidateFadt c) 132 = rd64 d 132"
      unfolding e by (auto simp: wr64_other intro!: rd64_cong)
    then show "rd64 (AcpiTbValidateFadt c) 132 = (if rd32 ?r 36 \<noteq> 0 then ucast (rd32 ?r 36) else rd64 ?r 132)"
      using c f'(4) by (auto simp: d_def)
  qed
  have l: "rd64 (FADT (AcpiTbCreateLocalFadt m t n s)) p = rd64 (AcpiTbValidateFadt c) p" if "p + 8 \<le> 148" for p
    unfolding local_fadt c_def using that fold_registers [of default_width, OF width_other fadt_table]
    by (intro rd64_cong) auto
  show ?thesis using l [of 140] l [of 132] v by (simp add: Let_def)
qed

text \<open>The fixed table of the sample firmware with an event block at port 600, and a power management timer.\<close>

definition fadt_sample :: mem where "fadt_sample = (firmware 2)(0x3039 := 6, 0x3058 := 4, 0x304D := 8, 0x305B := 4)"

lemma fadt_sample_words: "rd32 (raw_fadt fadt_sample 0x3000 0x74) 56 = 0x600" "rd32 (raw_fadt fadt_sample 0x3000 0x74) 76 = 0x800"
  by (simp_all add: rd32_def rd16_def le16_def le32_def raw_fadt_def fadt_sample_def firmware_def)

definition pm_timer_entry :: fadt_info where
  "pm_timer_entry = fadt_entry ''XPmTimerBlock'' ''PmTimerBlock'' ''PmTimerLength'' ACPI_PM_TIMER_WIDTH ACPI_FADT_REQUIRED"

lemma pm_timer_fields: "fi_Address64 pm_timer_entry = 208" "fi_Address32 pm_timer_entry = 76" "fi_DefaultLength pm_timer_entry = 32"
  by code_simp+

lemma fadt_registers_converted_witness:
  "get_gas (FADT (AcpiTbCreateLocalFadt fadt_sample 0x3000 0x74 acpi0)) 208 =
     \<lparr>SpaceId = ACPI_ADR_SPACE_SYSTEM_IO, BitWidth = 32, BitOffset = 0, AccessWidth = 0, Address = 0x800\<rparr>"
proof -
  have "pm_timer_entry \<in> set FadtInfoTable" by (simp add: FadtInfoTable_def pm_timer_entry_def)
  from fadt_registers_converted [OF this, of fadt_sample "0x3000" "0x74" acpi0] show ?thesis
    by (simp add: pm_timer_fields fadt_sample_words AcpiTbInitGenericAddress_def)
qed

lemma pm1a_event_block_split_witness:
  "Address (XPm1aEnable (AcpiTbCreateLocalFadt fadt_sample 0x3000 0x74 acpi0)) = 0x602"
  using pm1a_event_block_split [OF fadt_sample_words(1) [symmetric], of acpi0] by simp

end
