(* ===== verification/AcpiName.thy ===== *)
theory AcpiName
  imports AcpiTables Stdlib
begin

text \<open>
  ACPI names: the conversion between the external form of a path (\<^verbatim>\<open>\_SB.PCI0\<close>) and the form it has in AML
  (namespace/nsutils.c), the parser's reading of a name and of a package length (parser/psargs.c),
  and the check and repair of names (utilities/utmisc.c). A C string is the list of its characters without the
  NUL; a string that is read and not NUL-terminated is a list of the readable bytes.
\<close>

definition AE_BAD_PATHNAME :: ACPI_STATUS where "AE_BAD_PATHNAME = 0x1003"

definition ACPI_NAME_SIZE :: nat where "ACPI_NAME_SIZE = 4"
definition AML_DUAL_NAME_PREFIX :: u8 where "AML_DUAL_NAME_PREFIX = 0x2E"
definition AML_MULTI_NAME_PREFIX_OP :: u8 where "AML_MULTI_NAME_PREFIX_OP = 0x2F"

definition AcpiNsValidRootPrefix :: "u8 \<Rightarrow> bool" where "AcpiNsValidRootPrefix c = (c = 0x5C)"
definition AcpiNsValidPathSeparator :: "u8 \<Rightarrow> bool" where "AcpiNsValidPathSeparator c = (c = 0x2E)"
definition AcpiPsIsPrefixChar :: "u8 \<Rightarrow> bool" where "AcpiPsIsPrefixChar c = (c = 0x5C \<or> c = 0x5E)"

definition AcpiPsIsLeadingChar :: "u8 \<Rightarrow> bool" where
  "AcpiPsIsLeadingChar c = (c = 0x5F \<or> (c \<ge> 0x41 \<and> c \<le> 0x5A))"

text \<open>The macro of the kernel's ctype.h on a signed char, and the result as a char.\<close>

definition ACPI_TOUPPER :: "u8 \<Rightarrow> u8" where "ACPI_TOUPPER c = word_of_int (toupper (sint c))"

section \<open>To the internal form\<close>

record namestring_info =
  NextExternalChar :: "u8 list"
  NameLength :: u32
  NumSegments :: u32
  NumCarats :: u32
  FullyQualified :: bool

text \<open>The character a pointer into a string points at.\<close>

definition char_at :: "u8 list \<Rightarrow> u8" where "char_at s = (case s of [] \<Rightarrow> 0 | c # _ \<Rightarrow> c)"

fun skip_prefix :: "u8 \<Rightarrow> u8 list \<Rightarrow> u32 \<Rightarrow> u8 list \<times> u32" where
  "skip_prefix p [] n = ([], n)"
| "skip_prefix p (c # s) n = (if c = p then skip_prefix p s (n + 1) else (c # s, n))"

fun count_separators :: "u8 list \<Rightarrow> u32 \<Rightarrow> u32" where
  "count_separators [] n = n"
| "count_separators (c # s) n = count_separators s (if AcpiNsValidPathSeparator c then n + 1 else n)"

definition AcpiNsGetInternalNameLength :: "u8 list \<Rightarrow> namestring_info" where
  "AcpiNsGetInternalNameLength ExternalName =
     (let root = AcpiNsValidRootPrefix (char_at ExternalName);
          (rest, carats) = (if root then (fst (skip_prefix 0x5C (tl ExternalName) 0), 0) else skip_prefix 0x5E ExternalName 0);
          segments = (if char_at rest \<noteq> 0 then count_separators rest 1 else 0)
      in \<lparr>NextExternalChar = rest, NameLength = of_nat ACPI_NAME_SIZE * segments + 4 + carats, NumSegments = segments,
          NumCarats = carats, FullyQualified = root\<rparr>)"

text \<open>A write to the buffer of the name.\<close>

definition put8 :: "nat \<Rightarrow> u8 \<Rightarrow> u8 list \<Rightarrow> u8 list outcome" where
  "put8 i c b = (if i < length b then Ret (b[i := c]) else Trap)"

primrec put_carats :: "nat \<Rightarrow> nat \<Rightarrow> u8 list \<Rightarrow> u8 list outcome" where
  "put_carats i 0 b = Ret b"
| "put_carats i (Suc k) b = obind (put8 i 0x5E b) (put_carats (Suc i) k)"

fun build_segment :: "nat \<Rightarrow> u8 list \<Rightarrow> nat \<Rightarrow> u8 list \<Rightarrow> (u8 list \<times> u8 list) outcome" where
  "build_segment 0 ext r b = Ret (ext, b)"
| "build_segment (Suc k) ext r b =
     (if AcpiNsValidPathSeparator (char_at ext) \<or> char_at ext = 0
      then obind (put8 r 0x5F b) (build_segment k ext (Suc r))
      else obind (put8 r (ACPI_TOUPPER (char_at ext)) b) (build_segment k (tl ext) (Suc r)))"

text \<open>The pointer to the external name is \<open>None\<close> behind the terminating NUL. The result has the pointer behind the name.\<close>

fun build_segments :: "nat \<Rightarrow> u8 list option \<Rightarrow> nat \<Rightarrow> u8 list \<Rightarrow> (ACPI_STATUS \<times> nat \<times> u8 list) outcome" where
  "build_segments 0 ext r b = Ret (AE_OK, r, b)"
| "build_segments (Suc n) None r b = Trap"
| "build_segments (Suc n) (Some ext) r b =
     obind (build_segment ACPI_NAME_SIZE ext r b) (\<lambda>(ext, b).
     if \<not> AcpiNsValidPathSeparator (char_at ext) \<and> char_at ext \<noteq> 0 then Ret (AE_BAD_PATHNAME, r, b)
     else build_segments n (if ext = [] then None else Some (tl ext)) (r + ACPI_NAME_SIZE) b)"

definition AcpiNsBuildInternalName :: "namestring_info \<Rightarrow> u8 list \<Rightarrow> (ACPI_STATUS \<times> u8 list) outcome" where
  "AcpiNsBuildInternalName Info b =
     (let n = NumSegments Info in
      obind (if FullyQualified Info then obind (put8 0 0x5C b) (\<lambda>b. Ret (1, b))
             else obind (put_carats 0 (unat (NumCarats Info)) b) (\<lambda>b. Ret (unat (NumCarats Info), b))) (\<lambda>(i, b).
      obind (if n \<le> 1 then Ret (i, b)
             else if n = 2 then obind (put8 i AML_DUAL_NAME_PREFIX b) (\<lambda>b. Ret (i + 1, b))
             else obind (put8 i AML_MULTI_NAME_PREFIX_OP b) (\<lambda>b.
                  obind (put8 (i + 1) (ucast n) b) (\<lambda>b. Ret (i + 2, b)))) (\<lambda>(r, b).
      obind (build_segments (unat n) (Some (NextExternalChar Info)) r b) (\<lambda>(st, r, b).
      if st \<noteq> AE_OK then Ret (st, b)
      else obind (put8 r 0 b) (\<lambda>b. Ret (AE_OK, b))))))"

definition AcpiNsInternalizeName :: "host \<Rightarrow> u8 list \<Rightarrow> (ACPI_STATUS + u8 list) outcome" where
  "AcpiNsInternalizeName os ExternalName =
     (if char_at ExternalName = 0 then Ret (Inl AE_BAD_PARAMETER)
      else let Info = AcpiNsGetInternalNameLength ExternalName in
        obind (allocate_zeroed os (NameLength Info)) (\<lambda>p.
        if p = 0 then Ret (Inl AE_NO_MEMORY)
        else obind (AcpiNsBuildInternalName Info (replicate (unat (NameLength Info)) 0)) (\<lambda>(st, b).
          if st \<noteq> AE_OK then Ret (Inl st) else Ret (Inr b))))"

section \<open>To the external form\<close>

definition read8 :: "u8 list \<Rightarrow> nat \<Rightarrow> u8 outcome" where
  "read8 b i = (if i < length b then Ret (b ! i) else Trap)"

text \<open>The number of carats at the start, of at most \<open>k\<close> characters; \<open>PrefixLength\<close> is that number in every case.\<close>

fun carat_prefix :: "u8 list \<Rightarrow> nat \<Rightarrow> nat \<Rightarrow> nat outcome" where
  "carat_prefix b i 0 = Ret i"
| "carat_prefix b i (Suc k) = obind (read8 b i) (\<lambda>c. if c = 0x5E then carat_prefix b (Suc i) k else Ret i)"

text \<open>\<open>copy_bytes\<close> appends \<open>k\<close> characters from \<open>i\<close> on to what is converted, \<open>copy_names\<close> the names with their separators.\<close>

primrec copy_bytes :: "u8 list \<Rightarrow> nat \<Rightarrow> nat \<Rightarrow> u8 list \<Rightarrow> u8 list outcome" where
  "copy_bytes b i 0 out = Ret out"
| "copy_bytes b i (Suc k) out = obind (read8 b i) (\<lambda>c. copy_bytes b (Suc i) k (out @ [c]))"

primrec copy_names :: "u8 list \<Rightarrow> bool \<Rightarrow> nat \<Rightarrow> nat \<Rightarrow> u8 list \<Rightarrow> u8 list outcome" where
  "copy_names b first i 0 out = Ret out"
| "copy_names b first i (Suc n) out =
     obind (copy_bytes b i 4 (if first then out else out @ [0x2E])) (copy_names b False (i + 4) n)"

text \<open>
  The converted name and its length with the NUL. It is written from its start on, without gaps, to a buffer of that
  length; \<open>converted_fits\<close> below shows that it has exactly this length.
\<close>

definition AcpiNsExternalizeName :: "host \<Rightarrow> u32 \<Rightarrow> u8 list \<Rightarrow> (ACPI_STATUS + u8 list \<times> u32) outcome" where
  "AcpiNsExternalizeName os InternalNameLength b =
     (if InternalNameLength = 0 then Ret (Inl AE_BAD_PARAMETER)
      else obind (read8 b 0) (\<lambda>c0.
        obind (if c0 = 0x5C then Ret 1 else if c0 = 0x5E then carat_prefix b 0 (unat InternalNameLength) else Ret 0) (\<lambda>PrefixLength.
        obind (if PrefixLength < unat InternalNameLength
               then obind (read8 b PrefixLength) (\<lambda>c.
                 if c = AML_MULTI_NAME_PREFIX_OP then obind (read8 b (PrefixLength + 1)) (\<lambda>n. Ret (PrefixLength + 2, unat n))
                 else if c = AML_DUAL_NAME_PREFIX then Ret (PrefixLength + 1, 2)
                 else if c = 0 then Ret (0, 0)
                 else Ret (PrefixLength, 1))
               else Ret (0, 0)) (\<lambda>(NamesIndex, n).
        let RequiredLength = of_nat PrefixLength + 4 * of_nat n + (if n > 0 then of_nat n - 1 else 0) + 1 :: u32
        in if RequiredLength > InternalNameLength then Ret (Inl AE_BAD_PATHNAME)
           else obind (allocate_zeroed os RequiredLength) (\<lambda>p.
             if p = 0 then Ret (Inl AE_NO_MEMORY)
             else obind (copy_bytes b 0 PrefixLength []) (\<lambda>out.
                  obind (copy_names b True NamesIndex n out) (\<lambda>out. Ret (Inr (out, RequiredLength)))))))))"

section \<open>The parser\<close>

text \<open>\<open>aml\<close> is the position of the parser. The results are the start of the name, \<open>None\<close> for NULL, and the new position.\<close>

function skip_prefix_chars :: "u8 list \<Rightarrow> nat \<Rightarrow> nat outcome" where
  "skip_prefix_chars b i =
     (if i < length b then if AcpiPsIsPrefixChar (b ! i) then skip_prefix_chars b (i + 1) else Ret i else Trap)"
  by pat_completeness auto
termination by (relation "measure (\<lambda>(b, i). length b - i)") auto

declare skip_prefix_chars.simps [simp del]

definition AcpiPsGetNextNamestring :: "u8 list \<Rightarrow> nat \<Rightarrow> (nat option \<times> nat) outcome" where
  "AcpiPsGetNextNamestring b aml =
     obind (skip_prefix_chars b aml) (\<lambda>e.
     obind (read8 b e) (\<lambda>c.
     if c = 0 then Ret (if e = aml then None else Some aml, e + 1)
     else if c = AML_DUAL_NAME_PREFIX then Ret (Some aml, e + 1 + 2 * ACPI_NAME_SIZE)
     else if c = AML_MULTI_NAME_PREFIX_OP
     then obind (read8 b (e + 1)) (\<lambda>n. Ret (Some aml, e + 2 + unat n * ACPI_NAME_SIZE))
     else Ret (Some aml, e + ACPI_NAME_SIZE)))"

primrec package_bytes :: "u8 list \<Rightarrow> nat \<Rightarrow> nat \<Rightarrow> u32 \<Rightarrow> u32 outcome" where
  "package_bytes b aml 0 l = Ret l"
| "package_bytes b aml (Suc k) l =
     obind (read8 b (aml + Suc k)) (\<lambda>c. package_bytes b aml k (l OR push_bit (Suc k * 8 - 4) (ucast c)))"

definition AcpiPsGetNextPackageLength :: "u8 list \<Rightarrow> nat \<Rightarrow> (u32 \<times> nat) outcome" where
  "AcpiPsGetNextPackageLength b aml =
     obind (read8 b aml) (\<lambda>c.
     let ByteCount = unat (drop_bit 6 c);
         ByteZeroMask = (if ByteCount = 0 then 0x3F else 0x0F)
     in obind (package_bytes b aml ByteCount 0) (\<lambda>l. Ret (l OR ucast (c AND ByteZeroMask), aml + (ByteCount + 1))))"

definition AcpiPsGetNextPackageEnd :: "u8 list \<Rightarrow> nat \<Rightarrow> (nat \<times> nat) outcome" where
  "AcpiPsGetNextPackageEnd b aml =
     obind (AcpiPsGetNextPackageLength b aml) (\<lambda>(l, aml'). Ret (aml + unat l, aml'))"

section \<open>Valid names\<close>

definition AcpiUtValidAcpiChar :: "u8 \<Rightarrow> nat \<Rightarrow> bool" where
  "AcpiUtValidAcpiChar c i =
     (let s = sint c in
      if \<not> ((s \<ge> 65 \<and> s \<le> 90) \<or> (s \<ge> 48 \<and> s \<le> 57) \<or> s = 95) then s = 33 \<and> i = 3 else True)"

text \<open>The name is the list of its four characters.\<close>

definition AcpiUtValidAcpiName :: "u8 list \<Rightarrow> bool" where
  "AcpiUtValidAcpiName Name = list_all (\<lambda>i. AcpiUtValidAcpiChar (Name ! i) i) [0..<ACPI_NAME_SIZE]"

definition AcpiUtRepairName :: "u8 list \<Rightarrow> u8 list" where
  "AcpiUtRepairName Name = map (\<lambda>i. if AcpiUtValidAcpiChar (Name ! i) i then Name ! i else 0x2A) [0..<ACPI_NAME_SIZE]"

section \<open>Names as lists of segments\<close>

text \<open>
  The specification of a path: absolute, or relative with a number of carats, and its segments. Its external form,
  and its form in AML.
\<close>

datatype path_prefix = Root | Up nat

primrec prefix_chars :: "path_prefix \<Rightarrow> u8 list" where
  "prefix_chars Root = [0x5C]"
| "prefix_chars (Up k) = replicate k 0x5E"

fun join :: "u8 list list \<Rightarrow> u8 list" where
  "join [] = []"
| "join [s] = s"
| "join (s # t # r) = s @ 0x2E # join (t # r)"

definition external :: "path_prefix \<Rightarrow> u8 list list \<Rightarrow> u8 list" where
  "external p segs = prefix_chars p @ join segs"

definition pad4 :: "u8 list \<Rightarrow> u8 list" where
  "pad4 s = map ACPI_TOUPPER s @ replicate (4 - length s) 0x5F"

definition count_bytes :: "nat \<Rightarrow> u8 list" where
  "count_bytes n = (if n \<le> 1 then [] else if n = 2 then [0x2E] else [0x2F, of_nat n])"

definition internal :: "path_prefix \<Rightarrow> u8 list list \<Rightarrow> u8 list" where
  "internal p segs = prefix_chars p @ count_bytes (length segs) @ concat (map pad4 segs)"

definition segment_chars :: "u8 list \<Rightarrow> bool" where
  "segment_chars s \<longleftrightarrow> (\<forall>c \<in> set s. c \<noteq> 0 \<and> c \<noteq> 0x2E \<and> c \<noteq> 0x5C \<and> c \<noteq> 0x5E)"

lemma toupper_clears: "ACPI_TOUPPER c = c AND NOT 0x20"
proof -
  have top: "n = 7" if "n < 8" "7 \<le> n" for n :: nat using that by simp
  show ?thesis
    unfolding ACPI_TOUPPER_def toupper_clears_bit
    by (rule bit_word_eqI) (auto simp: bit_simps bit_sint_iff min_def dest!: top)
qed

lemma char_at_simps [simp]: "char_at [] = 0" "char_at (c # s) = c"
  by (simp_all add: char_at_def)

lemma put8_append [simp]: "length pre = r \<Longrightarrow> put8 r c (pre @ x # rest) = Ret (pre @ c # rest)"
  by (auto simp: put8_def)

lemma build_segment:
  assumes "segment_chars s" and "ext = [] \<or> hd ext = 0x2E" and "length pre = r" and "k \<le> length rest"
  shows "build_segment k (s @ ext) r (pre @ rest) =
    Ret (drop (min k (length s)) s @ ext, pre @ map ACPI_TOUPPER (take k s) @ replicate (k - length s) 0x5F @ drop k rest)"
  using assms
proof (induction k arbitrary: s r pre rest)
  case (Suc k)
  then obtain x rest' where rest: "rest = x # rest'" by (cases rest) auto
  show ?case
  proof (cases s)
    case Nil
    then have "AcpiNsValidPathSeparator (char_at (s @ ext)) \<or> char_at (s @ ext) = 0"
      using Suc.prems(2) by (cases ext) (auto simp: AcpiNsValidPathSeparator_def)
    then show ?thesis
      using Suc.IH [of "[]" "pre @ [0x5F]" "Suc r" rest'] Suc.prems Nil rest by (simp add: segment_chars_def)
  next
    case (Cons c s')
    then have "\<not> (AcpiNsValidPathSeparator c \<or> c = 0)"
      using Suc.prems(1) by (auto simp: segment_chars_def AcpiNsValidPathSeparator_def)
    then show ?thesis
      using Suc.IH [of s' "pre @ [ACPI_TOUPPER c]" "Suc r" rest'] Suc.prems Cons rest by (simp add: segment_chars_def)
  qed
qed simp

lemma build_segments:
  assumes "\<forall>s \<in> set segs. segment_chars s \<and> length s \<le> 4" and "length pre = r" and "4 * length segs \<le> length rest"
  shows "build_segments (length segs) (Some (join segs)) r (pre @ rest) =
    Ret (AE_OK, r + 4 * length segs, pre @ concat (map pad4 segs) @ drop (4 * length segs) rest)"
  using assms
proof (induction segs arbitrary: r pre rest rule: join.induct)
  case (2 s)
  then show ?case
    using build_segment [of s "[]" pre r 4 rest]
    by (simp add: ACPI_NAME_SIZE_def pad4_def AcpiNsValidPathSeparator_def min_def)
next
  case (3 s t segs)
  have b: "build_segment 4 (s @ 0x2E # join (t # segs)) r (pre @ rest) = Ret (0x2E # join (t # segs), pre @ pad4 s @ drop 4 rest)"
    using build_segment [of s "0x2E # join (t # segs)" pre r 4 rest] "3.prems" by (simp add: pad4_def min_def)
  have l: "length (pad4 s) = 4" using "3.prems" by (simp add: pad4_def)
  have "build_segments (length (t # segs)) (Some (join (t # segs))) (r + 4) ((pre @ pad4 s) @ drop 4 rest) =
    Ret (AE_OK, r + 4 + 4 * length (t # segs), (pre @ pad4 s) @ concat (map pad4 (t # segs)) @ drop (4 * length (t # segs)) (drop 4 rest))"
    using "3.prems" l by (intro "3.IH") auto
  then show ?case
    using b by (simp add: ACPI_NAME_SIZE_def AcpiNsValidPathSeparator_def ac_simps)
qed simp

lemma build_segments_long:
  assumes "segment_chars s" and "4 < length s" and "ext = [] \<or> hd ext = 0x2E" and "length pre = r" and "4 \<le> length rest"
  shows "\<exists>b. build_segments (Suc n) (Some (s @ ext)) r (pre @ rest) = Ret (AE_BAD_PATHNAME, r, b)"
proof -
  have "s ! 4 \<in> set s" using assms(2) by simp
  then have "s ! 4 \<noteq> 0 \<and> s ! 4 \<noteq> 0x2E" using assms(1) unfolding segment_chars_def by blast
  moreover have "drop 4 s = s ! 4 # drop 5 s" using assms(2) Cons_nth_drop_Suc [of 4 s] by simp
  ultimately show ?thesis
    using build_segment [of s ext pre r 4 rest] assms by (simp add: ACPI_NAME_SIZE_def min_def AcpiNsValidPathSeparator_def)
qed

lemma skip_prefix_replicate: "(s = [] \<or> hd s \<noteq> p) \<Longrightarrow> skip_prefix p (replicate k p @ s) n = (s, n + of_nat k)"
  by (induction k arbitrary: n) (cases s, auto simp: algebra_simps)

lemma count_separators_append: "count_separators (s @ t) n = count_separators t (count_separators s n)"
  by (induction s n rule: count_separators.induct) auto

lemma count_separators_none: "segment_chars s \<Longrightarrow> count_separators s n = n"
  by (induction s n rule: count_separators.induct) (auto simp: segment_chars_def AcpiNsValidPathSeparator_def)

lemma count_separators_join:
  "\<forall>s \<in> set segs. segment_chars s \<Longrightarrow> segs \<noteq> [] \<Longrightarrow> count_separators (join segs) n = n + of_nat (length segs - 1)"
  by (induction segs arbitrary: n rule: join.induct)
    (auto simp: count_separators_none count_separators_append AcpiNsValidPathSeparator_def)

lemma join_start:
  "\<forall>s \<in> set segs. segment_chars s \<Longrightarrow> join segs = [] \<or> char_at (join segs) \<noteq> 0 \<and> hd (join segs) \<noteq> 0x5C \<and> hd (join segs) \<noteq> 0x5E"
proof (induction segs rule: join.induct)
  case (2 s)
  then show ?case by (cases s) (auto simp: segment_chars_def)
next
  case (3 s t r)
  then show ?case by (cases s) (auto simp: segment_chars_def)
qed simp

lemma join_empty: "join segs = [] \<longleftrightarrow> segs = [] \<or> segs = [[]]"
  by (induction segs rule: join.induct) auto

lemma put8_tl: "length pre = r \<Longrightarrow> rest \<noteq> [] \<Longrightarrow> put8 r c (pre @ rest) = Ret (pre @ c # tl rest)"
  by (cases rest) auto

lemma put_carats_append:
  "length pre = i \<Longrightarrow> k \<le> length rest \<Longrightarrow> put_carats i k (pre @ rest) = Ret (pre @ replicate k 0x5E @ drop k rest)"
proof (induction k arbitrary: i pre rest)
  case (Suc k)
  then obtain x rest' where "rest = x # rest'" by (cases rest) auto
  then show ?case using Suc.IH [of "pre @ [0x5E]" "Suc i" rest'] Suc.prems by simp
qed simp

text \<open>The paths that have an internal form, and the size of the buffer the code reserves for it.\<close>

definition carats :: "path_prefix \<Rightarrow> nat" where "carats p = (case p of Root \<Rightarrow> 0 | Up k \<Rightarrow> k)"

definition path_ok :: "path_prefix \<Rightarrow> u8 list list \<Rightarrow> bool" where
  "path_ok p segs \<longleftrightarrow> (\<forall>s \<in> set segs. segment_chars s \<and> length s \<le> 4) \<and> segs \<noteq> [[]] \<and> external p segs \<noteq> [] \<and>
     4 * length segs + 4 + carats p < 2 ^ 32"

definition name_size :: "path_prefix \<Rightarrow> u8 list list \<Rightarrow> nat" where
  "name_size p segs = 4 * length segs + 4 + carats p"

lemma internal_name_length:
  assumes "\<forall>s \<in> set segs. segment_chars s" and "segs \<noteq> [[]]"
  shows "AcpiNsGetInternalNameLength (external p segs) =
    \<lparr>NextExternalChar = join segs, NameLength = of_nat (name_size p segs), NumSegments = of_nat (length segs),
     NumCarats = of_nat (carats p), FullyQualified = (p = Root)\<rparr>"
proof -
  let ?j = "join segs"
  have j: "?j = [] \<or> hd ?j \<noteq> 0x5C" "?j = [] \<or> hd ?j \<noteq> 0x5E" using join_start [OF assms(1)] by auto
  have n: "(if char_at ?j \<noteq> 0 then count_separators ?j 1 else 0) = of_nat (length segs)"
  proof (cases "segs = []")
    case False
    then have "?j \<noteq> []" using assms(2) join_empty by blast
    then have "char_at ?j \<noteq> 0" using join_start [OF assms(1)] by auto
    then show ?thesis using count_separators_join [OF assms(1) False, of 1] False
      by (cases segs) (simp_all add: algebra_simps)
  qed simp
  have s: "skip_prefix 0x5C ?j 0 = (?j, 0)" "\<And>k. skip_prefix 0x5E (replicate k 0x5E @ ?j) 0 = (?j, of_nat k)"
    using skip_prefix_replicate [OF j(1), of 0 0] skip_prefix_replicate [OF j(2), of _ 0] by simp_all
  have r: "\<not> AcpiNsValidRootPrefix (char_at (replicate k 0x5E @ ?j))" for k
    using j(1) by (cases k; cases ?j) (auto simp: AcpiNsValidRootPrefix_def)
  show ?thesis
  proof (cases p)
    case Root
    then show ?thesis using s n
      by (simp add: external_def AcpiNsGetInternalNameLength_def AcpiNsValidRootPrefix_def Let_def carats_def name_size_def ACPI_NAME_SIZE_def)
  next
    case (Up k)
    then show ?thesis using s n r [of k]
      by (simp add: external_def AcpiNsGetInternalNameLength_def Let_def carats_def name_size_def ACPI_NAME_SIZE_def)
  qed
qed

lemma internal_length: "\<forall>s \<in> set segs. length s \<le> 4 \<Longrightarrow>
  length (internal p segs) = length (prefix_chars p) + length (count_bytes (length segs)) + 4 * length segs"
proof -
  assume "\<forall>s \<in> set segs. length s \<le> 4"
  then have "length (concat (map pad4 segs)) = 4 * length segs" by (induction segs) (auto simp: pad4_def)
  then show ?thesis by (simp add: internal_def)
qed

text \<open>The name always fits into the buffer with its NUL.\<close>

lemma internal_fits: "\<forall>s \<in> set segs. length s \<le> 4 \<Longrightarrow> length (internal p segs) < name_size p segs"
  by (cases p) (auto simp: internal_length name_size_def carats_def count_bytes_def)

lemma build_internal:
  assumes "path_ok p segs" and "length b = name_size p segs"
  shows "AcpiNsBuildInternalName (AcpiNsGetInternalNameLength (external p segs)) b =
    Ret (AE_OK, internal p segs @ 0 # drop (Suc (length (internal p segs))) b)"
proof -
  have ok: "\<forall>s \<in> set segs. segment_chars s" "\<forall>s \<in> set segs. length s \<le> 4" "segs \<noteq> [[]]"
    "4 * length segs + 4 + carats p < 4294967296"
    using assms(1) by (auto simp: path_ok_def)
  let ?n = "length segs" and ?P = "prefix_chars p" and ?C = "count_bytes (length segs)" and ?S = "concat (map pad4 segs)"
  have n32: "unat (of_nat ?n :: u32) = ?n" "unat (of_nat (carats p) :: u32) = carats p"
    using ok(4) by (simp_all add: unat_of_nat_eq)
  have n1: "(of_nat ?n :: u32) \<le> 1 \<longleftrightarrow> ?n \<le> 1" "(of_nat ?n :: u32) = 2 \<longleftrightarrow> ?n = 2"
    using n32(1) by (simp_all add: word_le_nat_alt word_unat_eq_iff)
  have fit: "length (internal p segs) < length b" using internal_fits [OF ok(2)] assms(2) by simp
  then have fit': "length ?P + length ?C + 4 * ?n < length b" using internal_length [OF ok(2)] by simp
  have lp: "length ?P = (if p = Root then 1 else carats p)" by (cases p) (simp_all add: carats_def)
  have step1: "(if p = Root then obind (put8 0 0x5C b) (\<lambda>b. Ret (1, b)) else obind (put_carats 0 (carats p) b) (\<lambda>b. Ret (carats p, b)))
    = Ret (length ?P, ?P @ drop (length ?P) b)"
    using fit' put_carats_append [of "[]" 0 "carats p" b]
    by (cases p) (auto simp: carats_def put8_def, cases b, auto)
  let ?b1 = "drop (length ?P) b"
  have "tl ?b1 = drop (Suc (length ?P)) b" by (simp add: tl_drop drop_Suc)
  then have nz: "?b1 \<noteq> []" "tl ?b1 \<noteq> [] \<or> ?n \<le> 2" using fit' by (auto simp: count_bytes_def split: if_splits)
  have step2: "(if (of_nat ?n :: u32) \<le> 1 then Ret (length ?P, ?P @ ?b1)
      else if (of_nat ?n :: u32) = 2 then obind (put8 (length ?P) AML_DUAL_NAME_PREFIX (?P @ ?b1)) (\<lambda>b. Ret (length ?P + 1, b))
      else obind (put8 (length ?P) AML_MULTI_NAME_PREFIX_OP (?P @ ?b1)) (\<lambda>b. obind (put8 (length ?P + 1) (ucast (of_nat ?n :: u32)) b) (\<lambda>b. Ret (length ?P + 2, b))))
    = Ret (length (?P @ ?C), (?P @ ?C) @ drop (length (?P @ ?C)) b)"
  proof -
    have u: "ucast (of_nat ?n :: u32) = (of_nat ?n :: u8)" by (metis n32(1) of_nat_unat)
    show ?thesis
      unfolding n1 u using nz put8_tl [of "?P @ [0x2F]" "length ?P + 1" "tl ?b1" "of_nat ?n"]
      by (auto simp: count_bytes_def put8_tl AML_DUAL_NAME_PREFIX_def AML_MULTI_NAME_PREFIX_OP_def drop_Suc tl_drop)
  qed
  let ?b2 = "drop (length (?P @ ?C)) b"
  have step3: "build_segments ?n (Some (join segs)) (length (?P @ ?C)) ((?P @ ?C) @ ?b2) =
    Ret (AE_OK, length (?P @ ?C) + 4 * ?n, (?P @ ?C) @ ?S @ drop (4 * ?n) ?b2)"
    using ok fit' by (intro build_segments) auto
  have r: "drop (4 * ?n) ?b2 = drop (length (internal p segs)) b" by (simp add: internal_length [OF ok(2)] ac_simps)
  have l: "length (?P @ ?C) + 4 * ?n = length (internal p segs)" by (simp add: internal_length [OF ok(2)])
  have step4: "put8 (length (internal p segs)) 0 (internal p segs @ drop (length (internal p segs)) b) =
    Ret (internal p segs @ 0 # drop (Suc (length (internal p segs))) b)"
    using fit by (subst put8_tl) (simp_all add: tl_drop drop_Suc)
  have e: "(?P @ ?C) @ ?S @ drop (4 * ?n) ?b2 = internal p segs @ drop (length (internal p segs)) b"
    unfolding r by (simp add: internal_def)
  show ?thesis
    unfolding AcpiNsBuildInternalName_def internal_name_length [OF ok(1,3)] namestring_info.simps Let_def n32
    using step1 step2 step3 step4 unfolding e l by (simp only: obind_simps prod.case) simp
qed

lemma external_start: "path_ok p segs \<Longrightarrow> char_at (external p segs) \<noteq> 0"
  using join_start [of segs] by (cases p; cases "carats p") (auto simp: path_ok_def external_def carats_def)

text \<open>
  The internal form of a path, absolute or with carats, whose segments have at most four
  characters is built without leaving the buffer reserved for it: the prefix, the count byte or bytes
  that two or more segments need, the segments in upper case padded with underscores, and NULs up to the end.
\<close>

theorem internalize_builds_name:
  assumes "path_ok p segs" and "allocate_zeroed os (of_nat (name_size p segs)) = Ret a" and "a \<noteq> 0"
  shows "AcpiNsInternalizeName os (external p segs) =
    Ret (Inr (internal p segs @ replicate (name_size p segs - length (internal p segs)) 0))"
proof -
  have ok: "\<forall>s \<in> set segs. segment_chars s" "\<forall>s \<in> set segs. length s \<le> 4" "segs \<noteq> [[]]" "name_size p segs < 2 ^ 32"
    using assms(1) by (auto simp: path_ok_def name_size_def)
  have u: "unat (of_nat (name_size p segs) :: u32) = name_size p segs" using ok(4) by (simp add: unat_of_nat_eq)
  have l: "NameLength (AcpiNsGetInternalNameLength (external p segs)) = of_nat (name_size p segs)"
    by (simp add: internal_name_length [OF ok(1,3)])
  have d: "0 # drop (Suc (length (internal p segs))) (replicate (name_size p segs) 0) =
    replicate (name_size p segs - length (internal p segs)) (0 :: u8)"
    using internal_fits [OF ok(2), of p]
    by (simp add: replicate_Suc [symmetric] Suc_diff_Suc del: replicate_Suc)
  show ?thesis
    using external_start [OF assms(1)] assms(2,3) build_internal [OF assms(1), of "replicate (name_size p segs) 0"]
    unfolding AcpiNsInternalizeName_def Let_def l u d [symmetric] by simp
qed

text \<open>A path with a segment of more than four characters is refused.\<close>

lemma internalize_long_segment:
  assumes "segment_chars s" and "4 < length s" and "length s < 2 ^ 30" and "allocate_zeroed os 8 = Ret a" and "a \<noteq> 0"
  shows "AcpiNsInternalizeName os s = Ret (Inl AE_BAD_PATHNAME)"
proof -
  have e: "external (Up 0) [s] = s" by (simp add: external_def)
  have l: "AcpiNsGetInternalNameLength s = \<lparr>NextExternalChar = s, NameLength = 8, NumSegments = 1, NumCarats = 0, FullyQualified = False\<rparr>"
    using internal_name_length [of "[s]" "Up 0"] assms(1,2) unfolding e by (cases s) (auto simp: name_size_def carats_def)
  obtain b where "build_segments (Suc 0) (Some s) 0 (replicate 8 0) = Ret (AE_BAD_PATHNAME, 0, b)"
    using build_segments_long [OF assms(1,2), of "[]" "[]" 0 "replicate 8 0" 0] by auto
  moreover have "char_at s \<noteq> 0" using assms(1,2) by (cases s) (auto simp: segment_chars_def)
  ultimately show ?thesis
    using assms(4,5) by (simp add: AcpiNsInternalizeName_def l AcpiNsBuildInternalName_def AE_BAD_PATHNAME_def AE_OK_def)
qed

section \<open>The parser reads back what the conversion builds\<close>

lemma skip_prefix_chars_append:
  assumes "\<forall>c \<in> set ps. AcpiPsIsPrefixChar c" and "\<not> AcpiPsIsPrefixChar c"
  shows "skip_prefix_chars (pre @ ps @ c # rest) (length pre) = Ret (length pre + length ps)"
  using assms
proof (induction ps arbitrary: pre)
  case Nil
  then show ?case by (subst skip_prefix_chars.simps) simp
next
  case (Cons q ps)
  then show ?case using Cons.IH [of "pre @ [q]"] by (subst skip_prefix_chars.simps) simp
qed

lemma read8_append [simp]: "read8 (pre @ c # rest) (length pre) = Ret c" "length pre = i \<Longrightarrow> read8 (pre @ c # rest) i = Ret c"
  by (auto simp: read8_def)

text \<open>A single segment must not start like a prefix: with a letter or an underscore, once converted.\<close>

definition leading_ok :: "u8 list list \<Rightarrow> bool" where
  "leading_ok segs \<longleftrightarrow> (length segs = 1 \<longrightarrow> AcpiPsIsLeadingChar (char_at (pad4 (hd segs))))"

lemma leading_not_special: "AcpiPsIsLeadingChar c \<Longrightarrow> c \<noteq> 0 \<and> c \<noteq> 0x2E \<and> c \<noteq> 0x2F \<and> c \<noteq> 0x5C \<and> c \<noteq> 0x5E"
  by (auto simp: AcpiPsIsLeadingChar_def)

lemma prefix_chars_prefix: "\<forall>c \<in> set (prefix_chars p). AcpiPsIsPrefixChar c"
  by (cases p) (auto simp: AcpiPsIsPrefixChar_def)

text \<open>The length of a name for the parser: the byte that counts three or more segments holds their number modulo 256.\<close>

definition name_end :: "path_prefix \<Rightarrow> u8 list list \<Rightarrow> nat" where
  "name_end p segs = length (prefix_chars p) +
     (let n = length segs in if n = 0 then 1 else if n = 1 then 4 else if n = 2 then 9 else 2 + 4 * (n mod 256))"

text \<open>What follows the prefix of an internal name.\<close>

lemma internal_cases:
  assumes "leading_ok segs"
  obtains "segs = []" "internal p segs = prefix_chars p"
  | s c t where "segs = [s]" "pad4 s = c # t" "AcpiPsIsLeadingChar c" "internal p segs = prefix_chars p @ c # t"
  | s t where "segs = [s, t]" "internal p segs = prefix_chars p @ 0x2E # pad4 s @ pad4 t"
  | "2 < length segs" "internal p segs = prefix_chars p @ 0x2F # of_nat (length segs) # concat (map pad4 segs)"
proof -
  consider "segs = []" | s where "segs = [s]" | s t where "segs = [s, t]" | "2 < length segs"
    by (cases segs rule: join.cases) (auto simp: neq_Nil_conv, metis length_Cons less_Suc_eq_0_disj list.exhaust not_less_eq numeral_2_eq_2 zero_less_Suc)
  then show ?thesis
  proof cases
    case 1
    then show ?thesis using that(1) by (simp add: internal_def count_bytes_def)
  next
    case (2 s)
    moreover have "pad4 s \<noteq> []" by (cases s) (simp_all add: pad4_def)
    then obtain c t where "pad4 s = c # t" by (cases "pad4 s") auto
    ultimately show ?thesis using that(2) assms by (simp add: internal_def count_bytes_def leading_ok_def)
  next
    case (3 s t)
    then show ?thesis using that(3) by (simp add: internal_def count_bytes_def)
  next
    case 4
    then show ?thesis using that(4) by (simp add: internal_def count_bytes_def)
  qed
qed

text \<open>
  C31. The parser reads the internal form of a path, wherever it stands in the AML, as one name that
  starts where the path starts, and goes on right behind its last segment; for a path without segments, behind
  the NUL. With 256 segments or more the count byte has wrapped, and the parser goes on inside the name.
\<close>

theorem parser_reads_internal_name:
  assumes "leading_ok segs"
  shows "AcpiPsGetNextNamestring (pre @ internal p segs @ 0 # rest) (length pre) =
    Ret (if internal p segs = [] then None else Some (length pre), length pre + name_end p segs)"
proof -
  note prefix = skip_prefix_chars_append [OF prefix_chars_prefix [of p]]
  have q: "read8 (pre @ prefix_chars p @ c # r) (length pre + length (prefix_chars p)) = Ret c" for c r
    using read8_append(2) [of "pre @ prefix_chars p"] by simp
  have q1: "read8 (pre @ prefix_chars p @ c # d # r) (length pre + length (prefix_chars p) + 1) = Ret d" for c d r
    using read8_append(2) [of "pre @ prefix_chars p @ [c]"] by simp
  note defs = AcpiPsGetNextNamestring_def name_end_def ACPI_NAME_SIZE_def AML_DUAL_NAME_PREFIX_def AML_MULTI_NAME_PREFIX_OP_def Let_def
  from assms show ?thesis
  proof (cases rule: internal_cases [of segs p])
    case 1
    then show ?thesis using prefix [of 0 pre rest] q [of 0 rest]
      by (simp add: defs AcpiPsIsPrefixChar_def)
  next
    case (2 s c t)
    then show ?thesis using prefix [of c pre "t @ 0 # rest"] q [of c "t @ 0 # rest"] leading_not_special [of c]
      by (simp add: defs AcpiPsIsPrefixChar_def)
  next
    case (3 s t)
    then show ?thesis using prefix [of "0x2E" pre "pad4 s @ pad4 t @ 0 # rest"] q [of "0x2E" "pad4 s @ pad4 t @ 0 # rest"]
      by (simp add: defs AcpiPsIsPrefixChar_def)
  next
    case 4
    let ?t = "concat (map pad4 segs) @ 0 # rest"
    have "unat (of_nat (length segs) :: u8) = length segs mod 256" by (simp add: unat_of_nat)
    then show ?thesis
      using 4 prefix [of "0x2F" pre "of_nat (length segs) # ?t"] q [of "0x2F" "of_nat (length segs) # ?t"] q1 [of "0x2F" "of_nat (length segs)" ?t]
      by (auto simp: defs AcpiPsIsPrefixChar_def)
  qed
qed

section \<open>Back to the external form\<close>

lemma copy_bytes_append:
  "length pre = i \<Longrightarrow> k \<le> length rest \<Longrightarrow> copy_bytes (pre @ rest) i k out = Ret (out @ take k rest)"
proof (induction k arbitrary: i pre rest out)
  case (Suc k)
  then obtain x rest' where "rest = x # rest'" by (cases rest) auto
  then show ?case using Suc.IH [of "pre @ [x]" "Suc i" rest'] Suc.prems by simp
qed simp

lemma copy_names_append:
  "\<forall>s \<in> set segs. length s = 4 \<Longrightarrow> length pre = i \<Longrightarrow>
   copy_names (pre @ concat segs @ rest) False i (length segs) out = Ret (out @ concat (map (\<lambda>s. 0x2E # s) segs))"
proof (induction segs arbitrary: i pre out)
  case (Cons s segs)
  then have "copy_bytes (pre @ (s @ concat segs @ rest)) i 4 (out @ [0x2E]) = Ret ((out @ [0x2E]) @ s)"
    by (subst copy_bytes_append) auto
  then show ?case using Cons.IH [of "pre @ s" "i + 4" "out @ 0x2E # s"] Cons.prems by simp
qed simp

lemma join_dots: "segs \<noteq> [] \<Longrightarrow> join segs = hd segs @ concat (map (\<lambda>s. 0x2E # s) (tl segs))"
  by (induction segs rule: join.induct) auto

lemma copy_all_names:
  assumes "\<forall>s \<in> set segs. length s = 4" and "length pre = i"
  shows "copy_names (pre @ concat segs @ rest) True i (length segs) out = Ret (out @ join segs)"
proof (cases segs)
  case (Cons s t)
  then have "copy_bytes (pre @ (s @ concat t @ rest)) i 4 out = Ret (out @ s)" using assms by (subst copy_bytes_append) auto
  then show ?thesis using copy_names_append [of t "pre @ s" "i + 4" rest "out @ s"] assms join_dots [of segs] Cons by simp
qed simp

lemma carat_prefix_count:
  "c \<noteq> 0x5E \<Longrightarrow> length pre = i \<Longrightarrow> k < n \<Longrightarrow> carat_prefix (pre @ replicate k 0x5E @ c # rest) i n = Ret (i + k)"
proof (induction k arbitrary: i pre n)
  case 0
  then show ?case by (cases n) auto
next
  case (Suc k)
  then obtain n' where "n = Suc n'" by (cases n) auto
  then show ?case using Suc.IH [of "pre @ [0x5E]" "Suc i" n'] Suc.prems by simp
qed

lemma join_length: "\<forall>s \<in> set segs. length s = 4 \<Longrightarrow> length (join segs) = (if segs = [] then 0 else 5 * length segs - 1)"
  by (induction segs rule: join.induct) auto

text \<open>The converted name has exactly the length that is reserved for it without the NUL.\<close>

lemma converted_fits: "\<forall>s \<in> set segs. length s = 4 \<Longrightarrow>
  length (external p segs) = length (prefix_chars p) + 4 * length segs + (if segs = [] then 0 else length segs - 1)"
  by (cases segs) (simp_all add: external_def join_length)

lemma externalize_internal:
  assumes ok: "\<forall>s \<in> set segs. length s \<le> 4" and lead: "leading_ok segs" and ne: "external p segs \<noteq> []"
    and n: "length segs < 256" and fits: "length (external p (map pad4 segs)) < unat len"
    and al: "allocate_zeroed os (of_nat (length (external p (map pad4 segs)) + 1)) = Ret a" "a \<noteq> 0"
  shows "AcpiNsExternalizeName os len (internal p segs @ 0 # rest) =
    Ret (Inr (external p (map pad4 segs), of_nat (length (external p (map pad4 segs)) + 1)))"
proof -
  let ?P = "prefix_chars p" and ?S = "map pad4 segs" and ?E = "external p (map pad4 segs)"
  have four: "\<forall>s \<in> set ?S. length s = 4" using ok by (auto simp: pad4_def)
  have L: "length ?E = length ?P + 4 * length segs + (if segs = [] then 0 else length segs - 1)"
    using converted_fits [OF four, of p] by simp
  have pl: "length ?P < unat len" using L fits by simp
  obtain c t where ct: "internal p segs @ 0 # rest = ?P @ c # t" and c5: "c \<noteq> 0x5C" "c \<noteq> 0x5E"
    and kind: "(if c = 0x2F then obind (read8 (?P @ c # t) (length ?P + 1)) (\<lambda>n. Ret (length ?P + 2, unat n))
        else if c = 0x2E then Ret (length ?P + 1, 2) else if c = 0 then Ret (0, 0) else Ret (length ?P, 1))
      = Ret (if segs = [] then 0 else length ?P + length (count_bytes (length segs)), length segs)"
    using lead
  proof (cases rule: internal_cases [of segs p])
    case 1
    then show ?thesis using that [of 0 rest] by simp
  next
    case (2 s c t)
    then show ?thesis using that [of c "t @ 0 # rest"] leading_not_special [of c] by (simp add: count_bytes_def)
  next
    case (3 s t)
    then show ?thesis using that [of "0x2E" "pad4 s @ pad4 t @ 0 # rest"] by (simp add: count_bytes_def)
  next
    case 4
    have "read8 (?P @ 0x2F # of_nat (length segs) # concat ?S @ 0 # rest) (Suc (length ?P)) = Ret (of_nat (length segs))"
      using read8_append(2) [of "?P @ [0x2F]" "Suc (length ?P)" "of_nat (length segs)" "concat ?S @ 0 # rest"] by simp
    moreover have "unat (of_nat (length segs) :: u8) = length segs" using n by (simp add: unat_of_nat_eq)
    moreover have "segs \<noteq> []" "length (count_bytes (length segs)) = 2" using 4 by (auto simp: count_bytes_def)
    ultimately show ?thesis using that [of "0x2F" "of_nat (length segs) # concat ?S @ 0 # rest"] 4 by simp
  qed
  have c0: "obind (read8 (?P @ c # t) 0) (\<lambda>c0. obind (if c0 = 0x5C then Ret 1
      else if c0 = 0x5E then carat_prefix (?P @ c # t) 0 (unat len) else Ret 0) f) = f (length ?P)" for f :: "nat \<Rightarrow> 'b outcome"
  proof (cases p)
    case Root
    then show ?thesis by (simp add: read8_def)
  next
    case (Up k)
    then show ?thesis
      using carat_prefix_count [of c "[]" 0 k "unat len" t] pl c5 by (cases k) (auto simp: read8_def)
  qed
  have r: "of_nat (length ?P) + 4 * of_nat (length segs) + (if length segs > 0 then of_nat (length segs) - 1 else 0) + 1 =
    (of_nat (length ?E + 1) :: u32)"
    unfolding L by (cases segs) simp_all
  have small: "length ?E + 1 < 2 ^ 32" using fits unat_u32_less [of len] by simp
  have le: "\<not> (of_nat (length ?E + 1) :: u32) > len"
  proof -
    have "unat (of_nat (length ?E + 1) :: u32) = length ?E + 1" using small by (intro unat_of_nat_eq) simp
    then show ?thesis using fits unfolding word_less_nat_alt by simp
  qed
  have nz: "len \<noteq> 0" using pl by auto
  have P: "copy_bytes (?P @ c # t) 0 (length ?P) [] = Ret ?P"
    using copy_bytes_append [of "[]" 0 "length ?P" "?P @ c # t"] by simp
  have N: "copy_names (?P @ c # t) True (if segs = [] then 0 else length ?P + length (count_bytes (length segs))) (length segs) ?P = Ret ?E"
  proof (cases "segs = []")
    case False
    have "?P @ c # t = (?P @ count_bytes (length segs)) @ concat ?S @ 0 # rest" unfolding ct [symmetric] by (simp add: internal_def)
    then show ?thesis
      using False copy_all_names [OF four, of "?P @ count_bytes (length segs)" _ "0 # rest" ?P] by (simp add: external_def)
  qed (simp add: external_def)
  show ?thesis
    unfolding ct AcpiNsExternalizeName_def AML_MULTI_NAME_PREFIX_OP_def AML_DUAL_NAME_PREFIX_def
    by (simp only: read8_append(1) nz pl le al c0 kind r P N Let_def if_False if_True obind_simps prod.case)
qed

text \<open>A host whose allocations succeed.\<close>

definition allocates :: "host \<Rightarrow> bool" where
  "allocates os \<longleftrightarrow> (\<forall>n. \<exists>a. allocate_zeroed os n = Ret a \<and> a \<noteq> 0)"

text \<open>
  C18. Converting a path of at most 255 segments of at most four characters each to its internal form and back
  gives the path with one backslash or its carats, and with each segment padded to four characters by
  underscores after bit 5 of every character has been cleared: that is what the kernel's macro for upper case
  does, lower case letters become upper case by it and digits control characters. Doing that
  to a segment once more changes nothing. The segments have no NUL, dot, backslash or carat in them; the one of a path
  of a single segment must begin with what becomes a letter or an underscore; the path is shorter than
  the address space; and the two allocations succeed.
\<close>

theorem name_roundtrip:
  assumes "path_ok p segs" and "leading_ok segs" and "length segs < 256"
    and "length (external p (map pad4 segs)) < 4294967295" and "allocates os"
  shows "\<exists>b. AcpiNsInternalizeName os (external p segs) = Ret (Inr b) \<and>
    AcpiNsExternalizeName os 0xFFFFFFFF b =
      Ret (Inr (external p (map pad4 segs), of_nat (length (external p (map pad4 segs)) + 1))) \<and>
    list_all (\<lambda>s. pad4 s = map (\<lambda>c. c AND NOT 0x20) s @ replicate (4 - length s) 0x5F \<and> pad4 (pad4 s) = pad4 s) segs"
proof -
  have ok: "\<forall>s \<in> set segs. length s \<le> 4" "external p segs \<noteq> []" using assms(1) by (auto simp: path_ok_def)
  obtain k where k: "name_size p segs - length (internal p segs) = Suc k"
    using internal_fits [OF ok(1), of p] by (cases "name_size p segs - length (internal p segs)") auto
  have p2: "pad4 (pad4 s) = pad4 s" if "length s \<le> 4" for s
    using that by (simp add: pad4_def toupper_clears and.assoc)
  have "AcpiNsInternalizeName os (external p segs) = Ret (Inr (internal p segs @ 0 # replicate k 0))"
    using internalize_builds_name [OF assms(1)] assms(5) unfolding allocates_def k by fastforce
  moreover have "AcpiNsExternalizeName os 0xFFFFFFFF (internal p segs @ 0 # replicate k 0) =
      Ret (Inr (external p (map pad4 segs), of_nat (length (external p (map pad4 segs)) + 1)))"
  proof -
    obtain a where "allocate_zeroed os (of_nat (length (external p (map pad4 segs)) + 1)) = Ret a" "a \<noteq> 0"
      using assms(5) unfolding allocates_def by blast
    then show ?thesis using assms(4) by (intro externalize_internal [OF ok(1) assms(2) ok(2) assms(3)]) auto
  qed
  moreover have "pad4 s = map (\<lambda>c. c AND NOT 0x20) s @ replicate (4 - length s) 0x5F" for s
    by (simp add: pad4_def toupper_clears)
  ultimately show ?thesis using ok(1) p2 unfolding list_all_iff by metis
qed

section \<open>Characters\<close>

lemma digit_table:
  "list_all (\<lambda>n. let c = of_nat n :: u8 in 0x30 \<le> c \<and> c \<le> 0x39 \<longrightarrow> \<not> AcpiUtValidAcpiChar (c AND NOT 0x20) 3) [0..<256]"
  by code_simp

lemma digit_invalid: "0x30 \<le> c \<Longrightarrow> c \<le> 0x39 \<Longrightarrow> \<not> AcpiUtValidAcpiChar (ACPI_TOUPPER c) i"
proof -
  assume c: "0x30 \<le> c" "c \<le> 0x39"
  have "unat c \<in> set [0..<256]" using unsigned_less [of c] by simp
  then have "\<not> AcpiUtValidAcpiChar (ACPI_TOUPPER c) 3"
    using digit_table c unfolding list_all_iff Let_def toupper_clears by (metis of_nat_unat ucast_id)
  then show ?thesis by (auto simp: AcpiUtValidAcpiChar_def Let_def)
qed

text \<open>
  A segment with a digit, such as the one of \<^verbatim>\<open>PCI0\<close>, does not become a valid name: the upper
  case macro of the kernel clears bit 5 of every character, and a digit turns into a control character.
\<close>

theorem internalize_breaks_digits:
  assumes "segment_chars s" and "length s \<le> 4" and "i < length s" and "0x30 \<le> s ! i" and "s ! i \<le> 0x39" and "allocates os"
  shows "\<exists>b. AcpiNsInternalizeName os s = Ret (Inr b) \<and> \<not> AcpiUtValidAcpiName (take 4 b)"
proof -
  have e: "external (Up 0) [s] = s" by (simp add: external_def)
  have ok: "path_ok (Up 0) [s]" using assms(1-3) by (auto simp: path_ok_def e carats_def)
  have b: "internal (Up 0) [s] = pad4 s" by (simp add: internal_def count_bytes_def)
  have l: "length (pad4 s) = 4" using assms(2) by (simp add: pad4_def)
  have "\<exists>b. AcpiNsInternalizeName os s = Ret (Inr b) \<and> take 4 b = pad4 s"
    using internalize_builds_name [OF ok, of os] assms(6) l unfolding allocates_def e b by fastforce
  moreover have "pad4 s ! i = ACPI_TOUPPER (s ! i)" using assms(3) by (simp add: pad4_def nth_append)
  then have "\<not> AcpiUtValidAcpiName (pad4 s)"
    using digit_invalid [OF assms(4,5), of i] assms(2,3) by (auto simp: AcpiUtValidAcpiName_def list_all_iff ACPI_NAME_SIZE_def intro!: bexI [of _ i])
  ultimately show ?thesis by metis
qed

text \<open>
  The repair of a name keeps a valid name as it is, changes every other one, and marks each bad
  character with an asterisk, so that the result is never mistaken for a valid name.
\<close>

theorem repair_marks_bad_characters:
  assumes "length Name = 4"
  shows "(AcpiUtRepairName Name = Name \<longleftrightarrow> (\<forall>i < 4. AcpiUtValidAcpiChar (Name ! i) i \<or> Name ! i = 0x2A))
    \<and> (AcpiUtValidAcpiName (AcpiUtRepairName Name) \<longleftrightarrow> AcpiUtValidAcpiName Name)
    \<and> AcpiUtRepairName (AcpiUtRepairName Name) = AcpiUtRepairName Name"
proof -
  have star: "\<not> AcpiUtValidAcpiChar 0x2A i" for i by (simp add: AcpiUtValidAcpiChar_def)
  have n: "AcpiUtRepairName N ! i = (if AcpiUtValidAcpiChar (N ! i) i then N ! i else 0x2A)" if "i < 4" for N i
    using that by (simp add: AcpiUtRepairName_def ACPI_NAME_SIZE_def)
  have l: "length (AcpiUtRepairName N) = 4" for N by (simp add: AcpiUtRepairName_def ACPI_NAME_SIZE_def)
  have "AcpiUtRepairName Name = Name \<longleftrightarrow> (\<forall>i < 4. AcpiUtRepairName Name ! i = Name ! i)"
    using l assms by (auto simp: list_eq_iff_nth_eq)
  then show ?thesis
    using n l star
    by (auto simp: list_eq_iff_nth_eq AcpiUtValidAcpiName_def list_all_iff ACPI_NAME_SIZE_def)
qed

section \<open>Package lengths\<close>

text \<open>The bits of a package length, as its encoding defines them: 6 bits, or 4 bits and one to three bytes.\<close>

definition package_length :: "u8 list \<Rightarrow> nat" where
  "package_length b =
     (case b of
        [c] \<Rightarrow> unat c mod 64
      | c # bs \<Rightarrow> unat c mod 16 + 16 * (\<Sum>i < length bs. 256 ^ i * unat (bs ! i))
      | [] \<Rightarrow> 0)"

lemma unat_push_or:
  assumes "unat x < 2 ^ n" and "unat w * 2 ^ n < 2 ^ 32" and "n < 32"
  shows "unat (push_bit n (w :: u32) OR x) = unat w * 2 ^ n + unat x"
proof -
  have x: "\<not> bit x k" if "n \<le> k" for k
  proof
    assume "bit x k"
    then have "bit (unat x) k" by (simp add: bit_unsigned_iff)
    then have "2 ^ k \<le> unat x" by (metis bit_nat_iff bit_take_bit_iff leI less_irrefl take_bit_nat_eq_self)
    moreover have "(2 :: nat) ^ n \<le> 2 ^ k" using that by simp
    ultimately show False using assms(1) by linarith
  qed
  then have "push_bit n w OR x = push_bit n w + x"
    by (intro disjunctive_add [symmetric]) (auto simp: bit_simps not_le)
  moreover have "unat (push_bit n w) = unat w * 2 ^ n"
    unfolding unsigned_push_bit_eq using assms(2) by (simp add: push_bit_eq_mult take_bit_nat_eq_self)
  moreover have "unat w * 2 ^ n + unat x < 2 ^ 32"
  proof -
    have "(2 :: nat) ^ 32 = 2 ^ (32 - n) * 2 ^ n" using assms(3) by (simp add: power_add [symmetric])
    then have "unat w < 2 ^ (32 - n)" using assms(2) by (metis mult_less_cancel2)
    then have "(unat w + 1) * 2 ^ n \<le> 2 ^ (32 - n) * 2 ^ n" by (intro mult_right_mono) auto
    then show ?thesis using assms(1) \<open>2 ^ 32 = 2 ^ (32 - n) * 2 ^ n\<close> by simp
  qed
  ultimately show ?thesis by (simp add: unat_word_ariths)
qed

lemma package_parts:
  "unat (push_bit 4 (ucast (b1 :: u8)) OR ucast ((b0 :: u8) AND 0x0F) :: u32) = unat b0 mod 16 + 16 * unat b1"
  "unat (push_bit 12 (ucast (b2 :: u8)) OR (push_bit 4 (ucast b1) OR ucast (b0 AND 0x0F)) :: u32) =
     unat b0 mod 16 + 16 * unat b1 + 4096 * unat b2"
  "unat (push_bit 20 (ucast (b3 :: u8)) OR (push_bit 12 (ucast b2) OR (push_bit 4 (ucast b1) OR ucast (b0 AND 0x0F))) :: u32) =
     unat b0 mod 16 + 16 * unat b1 + 4096 * unat b2 + 1048576 * unat b3"
proof -
  have b8: "unat b < 256" for b :: u8 using unsigned_less [of b] by simp
  have u: "unat (ucast b :: u32) = unat b" "unat b < 256" for b :: u8
    using b8 [of b] by (simp_all add: unsigned_ucast_eq take_bit_nat_eq_self)
  have "b0 AND 0x0F = take_bit 4 b0" by (simp add: take_bit_eq_mask mask_eq_exp_minus_1)
  then have lo: "unat (b0 AND 0x0F) = unat b0 mod 16" by (simp add: take_bit_eq_mod unat_mod)
  show one: "unat (push_bit 4 (ucast b1) OR ucast (b0 AND 0x0F) :: u32) = unat b0 mod 16 + 16 * unat b1"
    using u(2) [of b1] by (subst unat_push_or) (simp_all add: u(1) lo)
  show two: "unat (push_bit 12 (ucast b2) OR (push_bit 4 (ucast b1) OR ucast (b0 AND 0x0F)) :: u32) =
     unat b0 mod 16 + 16 * unat b1 + 4096 * unat b2"
  proof -
    have "unat b0 mod 16 + 16 * unat b1 < 4096" using u(2) [of b1] mod_less_divisor [of 16 "unat b0"] by linarith
    then show ?thesis using u(2) [of b2] by (subst unat_push_or) (simp_all add: u(1) one)
  qed
  show "unat (push_bit 20 (ucast b3) OR (push_bit 12 (ucast b2) OR (push_bit 4 (ucast b1) OR ucast (b0 AND 0x0F))) :: u32) =
     unat b0 mod 16 + 16 * unat b1 + 4096 * unat b2 + 1048576 * unat b3"
  proof -
    have "unat b0 mod 16 + 16 * unat b1 + 4096 * unat b2 < 1048576"
      using u(2) [of b1] u(2) [of b2] mod_less_divisor [of 16 "unat b0"] by linarith
    then show ?thesis using u(2) [of b3] by (subst unat_push_or) (simp_all add: u(1) two)
  qed
qed

lemma mask_parts: "(c :: u8) AND 0x3F = take_bit 6 c" "c AND 0x0F = take_bit 4 c"
  by (simp_all add: take_bit_eq_mask mask_eq_exp_minus_1)

lemma package_length_1:
  assumes "drop_bit 6 c = (0 :: u8)"
  shows "AcpiPsGetNextPackageLength (pre @ c # rest) (length pre) = Ret (ucast (c AND 0x3F), length pre + 1)"
proof -
  have r: "read8 (pre @ c # rest) (length pre) = Ret c" by (rule read8_append)
  show ?thesis unfolding AcpiPsGetNextPackageLength_def r obind_simps Let_def assms by simp
qed

lemma package_length_2:
  assumes "drop_bit 6 c = (1 :: u8)"
  shows "AcpiPsGetNextPackageLength (pre @ c # b1 # rest) (length pre) =
    Ret (push_bit 4 (ucast b1) OR ucast (c AND 0x0F), length pre + 2)"
proof -
  have r: "read8 (pre @ c # b1 # rest) (length pre) = Ret c" "read8 (pre @ c # b1 # rest) (length pre + Suc 0) = Ret b1"
    using read8_append(1) [of pre] read8_append(2) [of "pre @ [c]"] by simp_all
  have one: "unat (1 :: u8) = Suc 0" by simp
  show ?thesis unfolding AcpiPsGetNextPackageLength_def r obind_simps Let_def assms one package_bytes.simps 
    by simp
qed

lemma package_length_3:
  assumes "drop_bit 6 c = (2 :: u8)"
  shows "AcpiPsGetNextPackageLength (pre @ c # b1 # b2 # rest) (length pre) =
    Ret (push_bit 12 (ucast b2) OR (push_bit 4 (ucast b1) OR ucast (c AND 0x0F)), length pre + 3)"
proof -
  have r: "read8 (pre @ c # b1 # b2 # rest) (length pre) = Ret c"
    "read8 (pre @ c # b1 # b2 # rest) (length pre + Suc 0) = Ret b1"
    "read8 (pre @ c # b1 # b2 # rest) (length pre + Suc (Suc 0)) = Ret b2"
    using read8_append(1) [of pre] read8_append(2) [of "pre @ [c]"] read8_append(2) [of "pre @ [c, b1]"] by simp_all
  have two: "unat (2 :: u8) = Suc (Suc 0)" by simp
  show ?thesis unfolding AcpiPsGetNextPackageLength_def r obind_simps Let_def assms two package_bytes.simps
    by (simp add: or.assoc)
qed

lemma package_length_4:
  assumes "drop_bit 6 c = (3 :: u8)"
  shows "AcpiPsGetNextPackageLength (pre @ c # b1 # b2 # b3 # rest) (length pre) =
    Ret (push_bit 20 (ucast b3) OR (push_bit 12 (ucast b2) OR (push_bit 4 (ucast b1) OR ucast (c AND 0x0F))), length pre + 4)"
proof -
  have r: "read8 (pre @ c # b1 # b2 # b3 # rest) (length pre) = Ret c"
    "read8 (pre @ c # b1 # b2 # b3 # rest) (length pre + Suc 0) = Ret b1"
    "read8 (pre @ c # b1 # b2 # b3 # rest) (length pre + Suc (Suc 0)) = Ret b2"
    "read8 (pre @ c # b1 # b2 # b3 # rest) (length pre + Suc (Suc (Suc 0))) = Ret b3"
    using read8_append(1) [of pre] read8_append(2) [of "pre @ [c]"] read8_append(2) [of "pre @ [c, b1]"]
      read8_append(2) [of "pre @ [c, b1, b2]"] by simp_all
  have three: "unat (3 :: u8) = Suc (Suc (Suc 0))" by simp
  show ?thesis unfolding AcpiPsGetNextPackageLength_def r obind_simps Let_def assms three package_bytes.simps
    by (simp add: or.assoc)
qed

lemma package_length_bytes:
  "package_length [c] = unat c mod 64"
  "package_length [c, b1] = unat c mod 16 + 16 * unat b1"
  "package_length [c, b1, b2] = unat c mod 16 + 16 * unat b1 + 4096 * unat b2"
  "package_length [c, b1, b2, b3] = unat c mod 16 + 16 * unat b1 + 4096 * unat b2 + 1048576 * unat b3"
  by (simp_all add: package_length_def lessThan_Suc)

lemma package_length_word: "unat (w :: u32) = n \<Longrightarrow> w = of_nat n"
  by auto

text \<open>
  A package length is decoded to the number its one to four bytes encode, which is below 2 to
  the 28, and the parser goes on behind these bytes.
\<close>

theorem package_length_decoded:
  assumes "enc \<noteq> []" and "length enc = unat (drop_bit 6 (hd enc)) + 1"
  shows "AcpiPsGetNextPackageLength (pre @ enc @ rest) (length pre) = Ret (of_nat (package_length enc), length pre + length enc)
    \<and> package_length enc < 2 ^ 28"
proof -
  obtain c bs where enc: "enc = c # bs" using assms(1) by (cases enc) auto
  have u: "unat b < 256" for b :: u8 using unsigned_less [of b] by simp
  have "unat (drop_bit 6 c) < 4" unfolding unsigned_drop_bit_eq using u [of c]
    by (simp add: drop_bit_eq_div div_less_iff_less_mult take_bit_nat_eq_self)
  moreover have n: "unat (drop_bit 6 c) = length bs" using assms(2) enc by simp
  ultimately have "length bs < 4" by simp
  then consider "bs = []" | b1 where "bs = [b1]" | b1 b2 where "bs = [b1, b2]" | b1 b2 b3 where "bs = [b1, b2, b3]"
    by (auto simp: length_Suc_conv less_Suc_eq numeral_eq_Suc)
  then show ?thesis
  proof cases
    case 1
    have "unat (ucast (c AND 0x3F) :: u32) = unat c mod 64"
      unfolding mask_parts using u [of "take_bit 6 c"]
      by (simp add: unsigned_ucast_eq take_bit_nat_eq_self take_bit_eq_mod unat_mod)
    then have "ucast (c AND 0x3F) = (of_nat (package_length enc) :: u32)"
      using 1 enc package_length_bytes(1) by (intro package_length_word) simp
    moreover have "drop_bit 6 c = 0" unfolding word_unat_eq_iff n using 1 by simp
    moreover have "unat c mod 64 < 64" by simp
    ultimately show ?thesis using 1 enc package_length_1 [of c pre rest] package_length_bytes(1) [of c] by simp
  next
    case (2 b1)
    have "drop_bit 6 c = 1" unfolding word_unat_eq_iff n using 2 by simp
    note v = package_length_2 [OF this, of pre b1 rest]
    show ?thesis
      using v package_length_word [OF package_parts(1) [of b1 c]] 2 enc package_length_bytes(2) [of c b1] u [of b1]
        mod_less_divisor [of 16 "unat c"] by simp
  next
    case (3 b1 b2)
    have "drop_bit 6 c = 2" unfolding word_unat_eq_iff n using 3 by simp
    note v = package_length_3 [OF this, of pre b1 b2 rest]
    show ?thesis
      using v package_length_word [OF package_parts(2) [of b2 b1 c]] 3 enc package_length_bytes(3) [of c b1 b2] u [of b1] u [of b2]
        mod_less_divisor [of 16 "unat c"] by simp
  next
    case (4 b1 b2 b3)
    have "drop_bit 6 c = 3" unfolding word_unat_eq_iff n using 4 by simp
    note v = package_length_4 [OF this, of pre b1 b2 b3 rest]
    show ?thesis
      using v package_length_word [OF package_parts(3) [of b3 b2 b1 c]] 4 enc package_length_bytes(4) [of c b1 b2 b3]
        u [of b1] u [of b2] u [of b3] mod_less_divisor [of 16 "unat c"] by simp
  qed
qed

section \<open>At concrete inputs\<close>

text \<open>The path \<^verbatim>\<open>\_sb.pci\<close>, the relative path \<^verbatim>\<open>^^ec\<close>, and a host whose allocations succeed.\<close>

definition sb_pci :: "u8 list list" where "sb_pci = [[0x5F, 0x73, 0x62], [0x70, 0x63, 0x69]]"

definition test_host :: host where
  "test_host = \<lparr>allocate_zeroed = (\<lambda>_. Ret 0x1000), table_override = (\<lambda>_. (0, 0)), physical_override = (\<lambda>_. (0, 0, 0))\<rparr>"

lemma test_host_allocates: "allocates test_host" "allocate_zeroed test_host n = Ret 0x1000"
  by (simp_all add: allocates_def test_host_def)

lemma sb_pci_ok: "path_ok Root sb_pci" "leading_ok sb_pci" "length sb_pci = 2"
  by (simp_all add: path_ok_def leading_ok_def sb_pci_def segment_chars_def external_def carats_def)

lemma sb_pci_forms:
  "external Root sb_pci = [0x5C, 0x5F, 0x73, 0x62, 0x2E, 0x70, 0x63, 0x69]"
  "internal Root sb_pci = [0x5C, 0x2E, 0x5F, 0x53, 0x42, 0x5F, 0x50, 0x43, 0x49, 0x5F]"
  "name_size Root sb_pci = 12"
  "external Root (map pad4 sb_pci) = [0x5C, 0x5F, 0x53, 0x42, 0x5F, 0x2E, 0x50, 0x43, 0x49, 0x5F]"
  by (simp_all add: external_def internal_def sb_pci_def count_bytes_def name_size_def carats_def pad4_def toupper_clears)

theorem internalize_builds_name_witness:
  "AcpiNsInternalizeName test_host [0x5C, 0x5F, 0x73, 0x62, 0x2E, 0x70, 0x63, 0x69] =
    Ret (Inr [0x5C, 0x2E, 0x5F, 0x53, 0x42, 0x5F, 0x50, 0x43, 0x49, 0x5F, 0, 0])"
proof -
  have a: "(0x1000 :: u32) \<noteq> 0" by simp
  have r: "replicate 2 (0 :: u8) = [0, 0]" by (simp add: numeral_2_eq_2)
  show ?thesis
    using internalize_builds_name [OF sb_pci_ok(1) test_host_allocates(2) a] by (simp add: sb_pci_forms r)
qed

theorem parser_reads_internal_name_witness:
  "AcpiPsGetNextNamestring [0xA0, 0x5C, 0x2E, 0x5F, 0x53, 0x42, 0x5F, 0x50, 0x43, 0x49, 0x5F, 0, 0x70] 1 = Ret (Some 1, 11)"
  using parser_reads_internal_name [OF sb_pci_ok(2), of "[0xA0]" Root "[0x70]"]
  by (simp add: sb_pci_forms name_end_def sb_pci_ok(3))

theorem name_roundtrip_witness:
  "\<exists>b. AcpiNsInternalizeName test_host [0x5C, 0x5F, 0x73, 0x62, 0x2E, 0x70, 0x63, 0x69] = Ret (Inr b) \<and>
    AcpiNsExternalizeName test_host 0xFFFFFFFF b = Ret (Inr ([0x5C, 0x5F, 0x53, 0x42, 0x5F, 0x2E, 0x50, 0x43, 0x49, 0x5F], 11))"
proof -
  have "length sb_pci < 256" "length (external Root (map pad4 sb_pci)) < 4294967295"
    by (simp_all add: sb_pci_ok(3) sb_pci_forms)
  from name_roundtrip [OF sb_pci_ok(1,2) this test_host_allocates(1)] show ?thesis by (auto simp: sb_pci_forms)
qed

theorem internalize_breaks_digits_witness:
  "\<exists>b. AcpiNsInternalizeName test_host [0x50, 0x43, 0x49, 0x30] = Ret (Inr b) \<and> \<not> AcpiUtValidAcpiName (take 4 b)"
  using internalize_breaks_digits [of "[0x50, 0x43, 0x49, 0x30]" 3 test_host] test_host_allocates(1)
  by (simp add: segment_chars_def)

theorem repair_marks_bad_characters_witness:
  "AcpiUtRepairName [0x50, 0x43, 0x49, 0x10] = [0x50, 0x43, 0x49, 0x2A] \<and>
    (AcpiUtRepairName [0x50, 0x43, 0x49, 0x10] = [0x50, 0x43, 0x49, 0x10]
      \<longleftrightarrow> (\<forall>i < 4. AcpiUtValidAcpiChar ([0x50, 0x43, 0x49, 0x10] ! i) i \<or> [0x50, 0x43, 0x49, 0x10] ! i = (0x2A :: u8)))"
proof
  show "AcpiUtRepairName [0x50, 0x43, 0x49, 0x10] = [0x50, 0x43, 0x49, 0x2A]" by code_simp
qed (use repair_marks_bad_characters [of "[0x50, 0x43, 0x49, 0x10]"] in simp)

theorem package_length_decoded_witness:
  "AcpiPsGetNextPackageLength [0x10, 0x45, 0x23, 0x5F] 1 = Ret (0x235, 3)"
proof -
  have "drop_bit 6 (0x45 :: u8) = 1" by code_simp
  moreover have "package_length [0x45, 0x23] = 0x235" by (simp add: package_length_bytes)
  ultimately show ?thesis using package_length_decoded [of "[0x45, 0x23]" "[0x10]" "[0x5F]"] by simp
qed

end
