(* ===== verification/AcpiMutex.thy ===== *)
theory AcpiMutex
  imports AcpiBase
begin

text \<open>
  The locks of the ACPI subsystem: the predefined mutexes (utilities/utmutex.c) and the reader/writer lock
  (utilities/utlock.c), over the mutexes of the operating system. Then the runs of several threads that use the
  predefined mutexes, as an inductive step relation, with and without the rule of acquisition order. The mutexes of
  the operating system and AcpiOsGetThreadId are arguments: their bodies are disabled in the service layer of this
  kernel (osunixxf.c).
\<close>

section \<open>The interface to the operating system\<close>

text \<open>
  The services are an argument, over a state of their own. \<open>os_acquire\<close> waits for ever: it
  hangs when the mutex is never released. A failed creation still stores some handle.
\<close>

record 'o os_locks =
  os_create :: "'o \<Rightarrow> ACPI_STATUS \<times> u32 \<times> 'o"
  os_create_lock :: "'o \<Rightarrow> ACPI_STATUS \<times> u32 \<times> 'o"
  os_delete :: "u32 \<Rightarrow> 'o \<Rightarrow> 'o"
  os_delete_lock :: "u32 \<Rightarrow> 'o \<Rightarrow> 'o"
  os_acquire :: "u32 \<Rightarrow> 'o \<Rightarrow> (ACPI_STATUS \<times> 'o) outcome"
  os_release :: "u32 \<Rightarrow> 'o \<Rightarrow> 'o"

section \<open>The state\<close>

definition ACPI_MAX_MUTEX :: nat where "ACPI_MAX_MUTEX = 7"
definition ACPI_NUM_MUTEX :: nat where "ACPI_NUM_MUTEX = ACPI_MAX_MUTEX + 1"
definition ACPI_MUTEX_NOT_ACQUIRED :: u64 where "ACPI_MUTEX_NOT_ACQUIRED = -1"

definition ACPI_MTX_NAMESPACE :: nat where "ACPI_MTX_NAMESPACE = 1"
definition ACPI_MTX_CACHES :: nat where "ACPI_MTX_CACHES = 4"

record mutex_info =
  Mutex :: u32
  UseCount :: u32
  ThreadId :: u64

record rw_lock =
  WriterMutex :: u32
  ReaderMutex :: u32
  NumReaders :: u32

record locks =
  MutexInfo :: "mutex_info list"
  GpeLock :: u32
  HardwareLock :: u32
  OsiMutex :: u32
  NamespaceRwLock :: rw_lock

section \<open>Creation and deletion\<close>

definition AcpiUtCreateRwLock :: "'o os_locks \<Rightarrow> rw_lock \<Rightarrow> 'o \<Rightarrow> ACPI_STATUS \<times> rw_lock \<times> 'o" where
  "AcpiUtCreateRwLock os l s =
     (let l = l\<lparr>NumReaders := 0\<rparr>;
          (st, h, s) = os_create os s;
          l = l\<lparr>ReaderMutex := h\<rparr>
      in if st \<noteq> AE_OK then (st, l, s)
         else let (st, h, s) = os_create os s in (st, l\<lparr>WriterMutex := h\<rparr>, s))"

definition AcpiUtDeleteRwLock :: "'o os_locks \<Rightarrow> rw_lock \<Rightarrow> 'o \<Rightarrow> rw_lock \<times> 'o" where
  "AcpiUtDeleteRwLock os l s =
     (l\<lparr>NumReaders := 0, ReaderMutex := 0, WriterMutex := 0\<rparr>, os_delete os (WriterMutex l) (os_delete os (ReaderMutex l) s))"

definition AcpiUtCreateMutex :: "'o os_locks \<Rightarrow> nat \<Rightarrow> mutex_info list \<Rightarrow> 'o \<Rightarrow> ACPI_STATUS \<times> mutex_info list \<times> 'o" where
  "AcpiUtCreateMutex os MutexId mi s =
     (if Mutex (mi ! MutexId) = 0
      then let (st, h, s) = os_create os s
           in (st, mi[MutexId := \<lparr>Mutex = h, UseCount = 0, ThreadId = ACPI_MUTEX_NOT_ACQUIRED\<rparr>], s)
      else (AE_OK, mi, s))"

definition AcpiUtDeleteMutex :: "'o os_locks \<Rightarrow> nat \<Rightarrow> mutex_info list \<Rightarrow> 'o \<Rightarrow> mutex_info list \<times> 'o" where
  "AcpiUtDeleteMutex os MutexId mi s =
     (mi[MutexId := (mi ! MutexId)\<lparr>Mutex := 0, ThreadId := ACPI_MUTEX_NOT_ACQUIRED\<rparr>], os_delete os (Mutex (mi ! MutexId)) s)"

text \<open>\<open>n\<close> is the number of mutexes that are left to create or to delete.\<close>

primrec create_mutexes :: "'o os_locks \<Rightarrow> nat \<Rightarrow> nat \<Rightarrow> mutex_info list \<Rightarrow> 'o \<Rightarrow> ACPI_STATUS \<times> mutex_info list \<times> 'o" where
  "create_mutexes os i 0 mi s = (AE_OK, mi, s)"
| "create_mutexes os i (Suc n) mi s =
     (let (st, mi, s) = AcpiUtCreateMutex os i mi s
      in if st \<noteq> AE_OK then (st, mi, s) else create_mutexes os (Suc i) n mi s)"

primrec delete_mutexes :: "'o os_locks \<Rightarrow> nat \<Rightarrow> nat \<Rightarrow> mutex_info list \<Rightarrow> 'o \<Rightarrow> mutex_info list \<times> 'o" where
  "delete_mutexes os i 0 mi s = (mi, s)"
| "delete_mutexes os i (Suc n) mi s = (let (mi, s) = AcpiUtDeleteMutex os i mi s in delete_mutexes os (Suc i) n mi s)"

definition AcpiUtMutexInitialize :: "'o os_locks \<Rightarrow> locks \<Rightarrow> 'o \<Rightarrow> ACPI_STATUS \<times> locks \<times> 'o" where
  "AcpiUtMutexInitialize os g s =
     (let (st, mi, s) = create_mutexes os 0 ACPI_NUM_MUTEX (MutexInfo g) s; g = g\<lparr>MutexInfo := mi\<rparr> in
      if st \<noteq> AE_OK then (st, g, s)
      else let (st, h, s) = os_create_lock os s; g = g\<lparr>GpeLock := h\<rparr> in
      if st \<noteq> AE_OK then (st, g, s)
      else let (st, h, s) = os_create_lock os s; g = g\<lparr>HardwareLock := h\<rparr> in
      if st \<noteq> AE_OK then (st, g, s)
      else let (st, h, s) = os_create os s; g = g\<lparr>OsiMutex := h\<rparr> in
      if st \<noteq> AE_OK then (st, g, s)
      else let (st, l, s) = AcpiUtCreateRwLock os (NamespaceRwLock g) s in (st, g\<lparr>NamespaceRwLock := l\<rparr>, s))"

definition AcpiUtMutexTerminate :: "'o os_locks \<Rightarrow> locks \<Rightarrow> 'o \<Rightarrow> locks \<times> 'o" where
  "AcpiUtMutexTerminate os g s =
     (let (mi, s) = delete_mutexes os 0 ACPI_NUM_MUTEX (MutexInfo g) s;
          s = os_delete os (OsiMutex g) s;
          s = os_delete_lock os (GpeLock g) s;
          s = os_delete_lock os (HardwareLock g) s;
          (l, s) = AcpiUtDeleteRwLock os (NamespaceRwLock g) s
      in (g\<lparr>MutexInfo := mi, NamespaceRwLock := l\<rparr>, s))"

section \<open>Acquiring and releasing\<close>

text \<open>
  \<open>t\<close> is the running thread. The checks of the acquisition order between \<^verbatim>\<open>#ifdef ACPI_MUTEX_DEBUG\<close> and
  \<^verbatim>\<open>#endif\<close> are not compiled into the kernel: acenv.h defines that name for the AcpiExec application only.
\<close>

definition mark_acquired :: "u64 \<Rightarrow> nat \<Rightarrow> mutex_info list \<Rightarrow> mutex_info list" where
  "mark_acquired t MutexId mi =
     mi[MutexId := (mi ! MutexId)\<lparr>UseCount := UseCount (mi ! MutexId) + 1, ThreadId := t\<rparr>]"

definition AcpiUtAcquireMutex :: "'o os_locks \<Rightarrow> u64 \<Rightarrow> nat \<Rightarrow> mutex_info list \<Rightarrow> 'o \<Rightarrow> (ACPI_STATUS \<times> mutex_info list \<times> 'o) outcome" where
  "AcpiUtAcquireMutex os t MutexId mi s =
     (if MutexId > ACPI_MAX_MUTEX then Ret (AE_BAD_PARAMETER, mi, s)
      else obind (os_acquire os (Mutex (mi ! MutexId)) s) (\<lambda>(st, s).
        Ret (st, if st = AE_OK then mark_acquired t MutexId mi else mi, s)))"

definition mark_released :: "nat \<Rightarrow> mutex_info list \<Rightarrow> mutex_info list" where
  "mark_released MutexId mi = mi[MutexId := (mi ! MutexId)\<lparr>ThreadId := ACPI_MUTEX_NOT_ACQUIRED\<rparr>]"

definition AcpiUtReleaseMutex :: "'o os_locks \<Rightarrow> nat \<Rightarrow> mutex_info list \<Rightarrow> 'o \<Rightarrow> ACPI_STATUS \<times> mutex_info list \<times> 'o" where
  "AcpiUtReleaseMutex os MutexId mi s =
     (if MutexId > ACPI_MAX_MUTEX then (AE_BAD_PARAMETER, mi, s)
      else if ThreadId (mi ! MutexId) = ACPI_MUTEX_NOT_ACQUIRED then (AE_NOT_ACQUIRED, mi, s)
      else (AE_OK, mark_released MutexId mi, os_release os (Mutex (mi ! MutexId)) s))"

section \<open>The reader/writer lock\<close>

definition AcpiUtAcquireReadLock :: "'o os_locks \<Rightarrow> rw_lock \<Rightarrow> 'o \<Rightarrow> (ACPI_STATUS \<times> rw_lock \<times> 'o) outcome" where
  "AcpiUtAcquireReadLock os l s =
     obind (os_acquire os (ReaderMutex l) s) (\<lambda>(st, s).
     if st \<noteq> AE_OK then Ret (st, l, s)
     else let l = l\<lparr>NumReaders := NumReaders l + 1\<rparr> in
       obind (if NumReaders l = 1 then os_acquire os (WriterMutex l) s else Ret (st, s)) (\<lambda>(st, s).
       Ret (st, l, os_release os (ReaderMutex l) s)))"

definition AcpiUtReleaseReadLock :: "'o os_locks \<Rightarrow> rw_lock \<Rightarrow> 'o \<Rightarrow> (ACPI_STATUS \<times> rw_lock \<times> 'o) outcome" where
  "AcpiUtReleaseReadLock os l s =
     obind (os_acquire os (ReaderMutex l) s) (\<lambda>(st, s).
     if st \<noteq> AE_OK then Ret (st, l, s)
     else let l = l\<lparr>NumReaders := NumReaders l - 1\<rparr>;
              s = (if NumReaders l = 0 then os_release os (WriterMutex l) s else s)
          in Ret (st, l, os_release os (ReaderMutex l) s))"

definition AcpiUtAcquireWriteLock :: "'o os_locks \<Rightarrow> rw_lock \<Rightarrow> 'o \<Rightarrow> (ACPI_STATUS \<times> 'o) outcome" where
  "AcpiUtAcquireWriteLock os l s = os_acquire os (WriterMutex l) s"

definition AcpiUtReleaseWriteLock :: "'o os_locks \<Rightarrow> rw_lock \<Rightarrow> 'o \<Rightarrow> 'o" where
  "AcpiUtReleaseWriteLock os l s = os_release os (WriterMutex l) s"

section \<open>Several threads\<close>

text \<open>
  The runs of threads that acquire and release the predefined mutexes. Each call is split where the other threads can
  come in between: after the checks of an acquisition, while the thread waits for the mutex of the operating system, and
  after a release has marked the mutex and before the operating system frees it. \<open>taken\<close> are the mutexes of the
  operating system, which it grants to one thread at a time. The code of this kernel does not check the order of the
  acquisitions; \<open>ordered\<close> says whether the threads keep the rule that its comment states, to acquire no mutex
  while holding it or one of a higher number.
\<close>

definition keeps_order :: "u64 \<Rightarrow> nat \<Rightarrow> mutex_info list \<Rightarrow> bool" where
  "keeps_order t i mi \<longleftrightarrow> list_all (\<lambda>j. ThreadId (mi ! j) \<noteq> t) [i..<ACPI_NUM_MUTEX]"

datatype call = Idle | Waiting nat | Releasing nat

record lock_state =
  infos :: "mutex_info list"
  taken :: "nat \<Rightarrow> bool"
  call_of :: "u64 \<Rightarrow> call"

definition lock_start :: "lock_state \<Rightarrow> bool" where
  "lock_start s \<longleftrightarrow> length (infos s) = ACPI_NUM_MUTEX \<and> (\<forall>i < ACPI_NUM_MUTEX. ThreadId (infos s ! i) = ACPI_MUTEX_NOT_ACQUIRED) \<and>
     (\<forall>i. \<not> taken s i) \<and> (\<forall>t. call_of s t = Idle)"

inductive lock_step :: "bool \<Rightarrow> lock_state \<Rightarrow> lock_state \<Rightarrow> bool" for ordered where
  wait: "call_of s t = Idle \<Longrightarrow> t \<noteq> ACPI_MUTEX_NOT_ACQUIRED \<Longrightarrow> i \<le> ACPI_MAX_MUTEX \<Longrightarrow> ordered \<longrightarrow> keeps_order t i (infos s)
    \<Longrightarrow> lock_step ordered s (s\<lparr>call_of := (call_of s)(t := Waiting i)\<rparr>)"
| acquire: "call_of s t = Waiting i \<Longrightarrow> \<not> taken s i
    \<Longrightarrow> lock_step ordered s (s\<lparr>infos := mark_acquired t i (infos s), taken := (taken s)(i := True), call_of := (call_of s)(t := Idle)\<rparr>)"
| release: "call_of s t = Idle \<Longrightarrow> t \<noteq> ACPI_MUTEX_NOT_ACQUIRED \<Longrightarrow> i \<le> ACPI_MAX_MUTEX \<Longrightarrow> ThreadId (infos s ! i) \<noteq> ACPI_MUTEX_NOT_ACQUIRED
    \<Longrightarrow> lock_step ordered s (s\<lparr>infos := mark_released i (infos s), call_of := (call_of s)(t := Releasing i)\<rparr>)"
| free: "call_of s t = Releasing i
    \<Longrightarrow> lock_step ordered s (s\<lparr>taken := (taken s)(i := False), call_of := (call_of s)(t := Idle)\<rparr>)"

inductive lock_reachable :: "bool \<Rightarrow> lock_state \<Rightarrow> bool" for ordered where
  start: "lock_start s \<Longrightarrow> lock_reachable ordered s"
| step: "lock_reachable ordered s \<Longrightarrow> lock_step ordered s s' \<Longrightarrow> lock_reachable ordered s'"

inductive_cases lock_stepE: "lock_step ordered s s'"

definition lock_inv :: "lock_state \<Rightarrow> bool" where
  "lock_inv s \<longleftrightarrow> length (infos s) = ACPI_NUM_MUTEX \<and>
     (\<forall>i < ACPI_NUM_MUTEX. taken s i \<longleftrightarrow> ThreadId (infos s ! i) \<noteq> ACPI_MUTEX_NOT_ACQUIRED \<or> (\<exists>t. call_of s t = Releasing i)) \<and>
     (\<forall>t i. call_of s t = Releasing i \<longrightarrow> i < ACPI_NUM_MUTEX \<and> ThreadId (infos s ! i) = ACPI_MUTEX_NOT_ACQUIRED) \<and>
     (\<forall>t u i. call_of s t = Releasing i \<and> call_of s u = Releasing i \<longrightarrow> t = u) \<and>
     (\<forall>t i. call_of s t = Waiting i \<longrightarrow> i < ACPI_NUM_MUTEX \<and> t \<noteq> ACPI_MUTEX_NOT_ACQUIRED \<and>
        (\<forall>j < ACPI_NUM_MUTEX. i \<le> j \<longrightarrow> ThreadId (infos s ! j) \<noteq> t))"

lemma keeps_order_iff: "keeps_order t i mi \<longleftrightarrow> (\<forall>j < ACPI_NUM_MUTEX. i \<le> j \<longrightarrow> ThreadId (mi ! j) \<noteq> t)"
  by (auto simp: keeps_order_def list_all_iff)

lemma ThreadId_mark:
  "i < length mi \<Longrightarrow> ThreadId (mark_acquired t i mi ! j) = (if j = i then t else ThreadId (mi ! j))"
  "i < length mi \<Longrightarrow> ThreadId (mark_released i mi ! j) = (if j = i then ACPI_MUTEX_NOT_ACQUIRED else ThreadId (mi ! j))"
  "length (mark_acquired t i mi) = length mi" "length (mark_released i mi) = length mi"
  by (auto simp: mark_acquired_def mark_released_def nth_list_update)

lemma ex_call_update:
  "(\<And>i. f t \<noteq> Releasing i) \<Longrightarrow> (\<exists>v. (f(t := x)) v = Releasing i) \<longleftrightarrow> x = Releasing i \<or> (\<exists>v. f v = Releasing i)"
  by (metis fun_upd_apply)

lemma lock_invI:
  assumes "length (infos s) = ACPI_NUM_MUTEX"
    and "\<And>i. i < ACPI_NUM_MUTEX \<Longrightarrow> taken s i \<longleftrightarrow> ThreadId (infos s ! i) \<noteq> ACPI_MUTEX_NOT_ACQUIRED \<or> (\<exists>t. call_of s t = Releasing i)"
    and "\<And>t i. call_of s t = Releasing i \<Longrightarrow> i < ACPI_NUM_MUTEX \<and> ThreadId (infos s ! i) = ACPI_MUTEX_NOT_ACQUIRED"
    and "\<And>t u i. call_of s t = Releasing i \<Longrightarrow> call_of s u = Releasing i \<Longrightarrow> t = u"
    and "\<And>t i. call_of s t = Waiting i \<Longrightarrow> i < ACPI_NUM_MUTEX \<and> t \<noteq> ACPI_MUTEX_NOT_ACQUIRED"
    and "\<And>t i j. call_of s t = Waiting i \<Longrightarrow> j < ACPI_NUM_MUTEX \<Longrightarrow> i \<le> j \<Longrightarrow> ThreadId (infos s ! j) \<noteq> t"
  shows "lock_inv s"
  unfolding lock_inv_def using assms by blast

lemma lock_invD:
  assumes "lock_inv s"
  shows "length (infos s) = ACPI_NUM_MUTEX"
    and "i < ACPI_NUM_MUTEX \<Longrightarrow> taken s i \<longleftrightarrow> ThreadId (infos s ! i) \<noteq> ACPI_MUTEX_NOT_ACQUIRED \<or> (\<exists>t. call_of s t = Releasing i)"
    and "call_of s t = Releasing i \<Longrightarrow> i < ACPI_NUM_MUTEX \<and> ThreadId (infos s ! i) = ACPI_MUTEX_NOT_ACQUIRED"
    and "call_of s t = Releasing i \<Longrightarrow> call_of s u = Releasing i \<Longrightarrow> t = u"
    and "call_of s t = Waiting i \<Longrightarrow> i < ACPI_NUM_MUTEX \<and> t \<noteq> ACPI_MUTEX_NOT_ACQUIRED"
    and "call_of s t = Waiting i \<Longrightarrow> j < ACPI_NUM_MUTEX \<Longrightarrow> i \<le> j \<Longrightarrow> ThreadId (infos s ! j) \<noteq> t"
  using assms unfolding lock_inv_def by blast+

lemma lock_inv_wait:
  assumes "lock_inv s" and "call_of s t = Idle" and "t \<noteq> ACPI_MUTEX_NOT_ACQUIRED" and "i \<le> ACPI_MAX_MUTEX" and "keeps_order t i (infos s)"
  shows "lock_inv (s\<lparr>call_of := (call_of s)(t := Waiting i)\<rparr>)"
proof -
  note I = lock_invD [OF assms(1)] and c = assms(5) [unfolded keeps_order_iff]
  have i: "i < ACPI_NUM_MUTEX" using assms(4) by (simp add: ACPI_NUM_MUTEX_def)
  have e: "(\<exists>v. ((call_of s)(t := Waiting i)) v = Releasing k) \<longleftrightarrow> (\<exists>v. call_of s v = Releasing k)" for k
    using assms(2) by (subst ex_call_update) auto
  show ?thesis (is "lock_inv ?s")
  proof (rule lock_invI)
    show "taken ?s k \<longleftrightarrow> ThreadId (infos ?s ! k) \<noteq> ACPI_MUTEX_NOT_ACQUIRED \<or> (\<exists>v. call_of ?s v = Releasing k)"
      if "k < ACPI_NUM_MUTEX" for k
      using I(2) [OF that] by (simp add: e del: fun_upd_apply)
    show "ThreadId (infos ?s ! j) \<noteq> v" if "call_of ?s v = Waiting k" "j < ACPI_NUM_MUTEX" "k \<le> j" for v k j
      using I(6) [of v k j] that c by (auto split: if_splits)
    show "length (infos ?s) = ACPI_NUM_MUTEX" using I(1) by (simp add: ThreadId_mark)
    show "k < ACPI_NUM_MUTEX \<and> ThreadId (infos ?s ! k) = ACPI_MUTEX_NOT_ACQUIRED" if "call_of ?s v = Releasing k" for v k
      using that I(3) [of v k] by (auto simp: ThreadId_mark split: if_splits)
    show "v = w" if "call_of ?s v = Releasing k" "call_of ?s w = Releasing k" for v w k
      using that I(4) [of v k w] by (auto split: if_splits)
    show "k < ACPI_NUM_MUTEX \<and> v \<noteq> ACPI_MUTEX_NOT_ACQUIRED" if "call_of ?s v = Waiting k" for v k
      using that I(5) [of v k] assms(3) i by (auto split: if_splits)
  qed
qed

lemma lock_inv_acquire:
  assumes "lock_inv s" and "call_of s t = Waiting i" and "\<not> taken s i"
  shows "lock_inv (s\<lparr>infos := mark_acquired t i (infos s), taken := (taken s)(i := True), call_of := (call_of s)(t := Idle)\<rparr>)"
proof -
  note I = lock_invD [OF assms(1)]
  have i: "i < length (infos s)" "i < ACPI_NUM_MUTEX" "t \<noteq> ACPI_MUTEX_NOT_ACQUIRED" using I(1,5) assms(2) by auto
  have r: "call_of s v \<noteq> Releasing i" for v using I(2) [OF i(2)] assms(3) by blast
  have e: "(\<exists>v. ((call_of s)(t := Idle)) v = Releasing k) \<longleftrightarrow> (\<exists>v. call_of s v = Releasing k)" for k
    using assms(2) by (subst ex_call_update) auto
  show ?thesis (is "lock_inv ?s")
  proof (rule lock_invI)
    show "taken ?s k \<longleftrightarrow> ThreadId (infos ?s ! k) \<noteq> ACPI_MUTEX_NOT_ACQUIRED \<or> (\<exists>v. call_of ?s v = Releasing k)"
      if "k < ACPI_NUM_MUTEX" for k
      using I(2) [OF that] i by (simp add: e ThreadId_mark del: fun_upd_apply) (simp add: e)
    show "ThreadId (infos ?s ! j) \<noteq> v" if "call_of ?s v = Waiting k" "j < ACPI_NUM_MUTEX" "k \<le> j" for v k j
      using I(6) [of v k j] that i by (auto simp: ThreadId_mark split: if_splits)
    show "length (infos ?s) = ACPI_NUM_MUTEX" using I(1) by (simp add: ThreadId_mark)
    show "k < ACPI_NUM_MUTEX \<and> ThreadId (infos ?s ! k) = ACPI_MUTEX_NOT_ACQUIRED" if "call_of ?s v = Releasing k" for v k
      using that I(3) [of v k] r [of v] i by (auto simp: ThreadId_mark split: if_splits)
    show "v = w" if "call_of ?s v = Releasing k" "call_of ?s w = Releasing k" for v w k
      using that I(4) [of v k w] r [of v] r [of w] by (auto split: if_splits)
    show "k < ACPI_NUM_MUTEX \<and> v \<noteq> ACPI_MUTEX_NOT_ACQUIRED" if "call_of ?s v = Waiting k" for v k
      using that I(5) [of v k] i by (auto split: if_splits)
  qed
qed

lemma lock_inv_release:
  assumes "lock_inv s" and "call_of s t = Idle" and "t \<noteq> ACPI_MUTEX_NOT_ACQUIRED" and "i \<le> ACPI_MAX_MUTEX"
    and "ThreadId (infos s ! i) \<noteq> ACPI_MUTEX_NOT_ACQUIRED"
  shows "lock_inv (s\<lparr>infos := mark_released i (infos s), call_of := (call_of s)(t := Releasing i)\<rparr>)"
proof -
  note I = lock_invD [OF assms(1)]
  have i: "i < ACPI_NUM_MUTEX" "ThreadId (infos s ! i) \<noteq> ACPI_MUTEX_NOT_ACQUIRED" "i < length (infos s)"
    using assms(4,5) I(1) by (auto simp: ACPI_NUM_MUTEX_def)
  have r: "call_of s v \<noteq> Releasing i" for v using I(3) i(2) by blast
  have e: "(\<exists>v. ((call_of s)(t := Releasing i)) v = Releasing k) \<longleftrightarrow> k = i \<or> (\<exists>v. call_of s v = Releasing k)" for k
    using assms(2) by (subst ex_call_update) auto
  show ?thesis (is "lock_inv ?s")
  proof (rule lock_invI)
    show "taken ?s k \<longleftrightarrow> ThreadId (infos ?s ! k) \<noteq> ACPI_MUTEX_NOT_ACQUIRED \<or> (\<exists>v. call_of ?s v = Releasing k)"
      if "k < ACPI_NUM_MUTEX" for k
      using I(2) [OF that] I(2) [OF i(1)] i by (simp add: e ThreadId_mark del: fun_upd_apply)
    show "ThreadId (infos ?s ! j) \<noteq> v" if "call_of ?s v = Waiting k" "j < ACPI_NUM_MUTEX" "k \<le> j" for v k j
      using I(5) [of v k] I(6) [of v k j] that i by (auto simp: ThreadId_mark split: if_splits)
    show "length (infos ?s) = ACPI_NUM_MUTEX" using I(1) by (simp add: ThreadId_mark)
    show "k < ACPI_NUM_MUTEX \<and> ThreadId (infos ?s ! k) = ACPI_MUTEX_NOT_ACQUIRED" if "call_of ?s v = Releasing k" for v k
      using that I(3) [of v k] r [of v] i by (auto simp: ThreadId_mark split: if_splits)
    show "v = w" if "call_of ?s v = Releasing k" "call_of ?s w = Releasing k" for v w k
      using that I(4) [of v k w] r [of v] r [of w] by (auto split: if_splits)
    show "k < ACPI_NUM_MUTEX \<and> v \<noteq> ACPI_MUTEX_NOT_ACQUIRED" if "call_of ?s v = Waiting k" for v k
      using that I(5) [of v k] i by (auto split: if_splits)
  qed
qed

lemma lock_inv_free:
  assumes "lock_inv s" and "call_of s t = Releasing i"
  shows "lock_inv (s\<lparr>taken := (taken s)(i := False), call_of := (call_of s)(t := Idle)\<rparr>)"
proof -
  note I = lock_invD [OF assms(1)]
  have i: "i < ACPI_NUM_MUTEX" "ThreadId (infos s ! i) = ACPI_MUTEX_NOT_ACQUIRED" using I(3) assms(2) by auto
  have e: "(\<exists>v. ((call_of s)(t := Idle)) v = Releasing k) \<longleftrightarrow> k \<noteq> i \<and> (\<exists>v. call_of s v = Releasing k)" for k
  proof -
    have "call_of s v = Releasing k \<and> v \<noteq> t \<longleftrightarrow> call_of s v = Releasing k \<and> k \<noteq> i" for v
      using assms(2) I(4) [of v i t] by auto
    then show ?thesis by auto
  qed
  show ?thesis (is "lock_inv ?s")
  proof (rule lock_invI)
    show "taken ?s k \<longleftrightarrow> ThreadId (infos ?s ! k) \<noteq> ACPI_MUTEX_NOT_ACQUIRED \<or> (\<exists>v. call_of ?s v = Releasing k)"
      if "k < ACPI_NUM_MUTEX" for k
      using I(2) [OF that] i by (simp add: e del: fun_upd_apply) auto
    show "ThreadId (infos ?s ! j) \<noteq> v" if "call_of ?s v = Waiting k" "j < ACPI_NUM_MUTEX" "k \<le> j" for v k j
      using I(6) [of v k j] that by (auto split: if_splits)
    show "length (infos ?s) = ACPI_NUM_MUTEX" using I(1) by (simp add: ThreadId_mark)
    show "k < ACPI_NUM_MUTEX \<and> ThreadId (infos ?s ! k) = ACPI_MUTEX_NOT_ACQUIRED" if "call_of ?s v = Releasing k" for v k
      using that I(3) [of v k] i by (auto simp: ThreadId_mark split: if_splits)
    show "v = w" if "call_of ?s v = Releasing k" "call_of ?s w = Releasing k" for v w k
      using that I(4) [of v k w] by (auto split: if_splits)
    show "k < ACPI_NUM_MUTEX \<and> v \<noteq> ACPI_MUTEX_NOT_ACQUIRED" if "call_of ?s v = Waiting k" for v k
      using that I(5) [of v k] i by (auto split: if_splits)
  qed
qed

lemma lock_step_inv: "lock_step True s s' \<Longrightarrow> lock_inv s \<Longrightarrow> lock_inv s'"
  by (erule lock_stepE) (auto intro: lock_inv_wait lock_inv_acquire lock_inv_release lock_inv_free simp del: fun_upd_apply)

lemma lock_reachable_inv: "lock_reachable True s \<Longrightarrow> lock_inv s"
proof (induction rule: lock_reachable.induct)
  case (start s)
  then show ?case by (auto simp: lock_start_def lock_inv_def)
qed (rule lock_step_inv)

text \<open>
  The acquisition order excludes a deadlock: as long as the threads keep it, also when one releases a
  mutex that another one has acquired, some waiting thread waits for a mutex that is free, that is just
  being released, or whose owner does not wait itself.
\<close>

theorem mutexes_no_deadlock:
  assumes "lock_reachable True s" and "call_of s t = Waiting i"
  shows "\<exists>u j. call_of s u = Waiting j \<and>
    (\<not> taken s j \<or> (\<exists>v. call_of s v = Releasing j) \<or>
     ThreadId (infos s ! j) \<noteq> ACPI_MUTEX_NOT_ACQUIRED \<and> (\<forall>k. call_of s (ThreadId (infos s ! j)) \<noteq> Waiting k))"
proof -
  have inv: "lock_inv s" by (rule lock_reachable_inv) fact
  let ?W = "{j. \<exists>u. call_of s u = Waiting j}"
  have W: "?W \<subseteq> {..<ACPI_NUM_MUTEX}" "i \<in> ?W" using inv assms(2) by (auto simp: lock_inv_def)
  then have "finite ?W" using finite_subset by blast
  then have m: "Max ?W \<in> ?W" "k \<in> ?W \<Longrightarrow> k \<le> Max ?W" for k using W(2) Max_in [of ?W] Max_ge [of ?W k] by blast+
  obtain u where u: "call_of s u = Waiting (Max ?W)" using m(1) by auto
  define j where "j = Max ?W"
  have j: "call_of s u = Waiting j" "j < ACPI_NUM_MUTEX" "\<And>v k. call_of s v = Waiting k \<Longrightarrow> k \<le> j"
    using u m W unfolding j_def by auto
  have "k > j" if "call_of s v = Waiting k" "ThreadId (infos s ! j) = v" for v k
    using inv that j(2) unfolding lock_inv_def by (metis leI)
  then have "\<forall>k. call_of s (ThreadId (infos s ! j)) \<noteq> Waiting k" using j(3) by (metis not_le)
  then show ?thesis using j(1,2) inv unfolding lock_inv_def by metis
qed

text \<open>
  Nothing in the code keeps the threads to the order. When they do not keep it, two of them come to wait
  for each other: each owns the mutex that the other waits for, and nobody is about to release one.
\<close>

theorem mutexes_deadlock_unordered:
  "\<exists>s. lock_reachable False s \<and> call_of s 1 = Waiting 1 \<and> call_of s 2 = Waiting 0 \<and> taken s 0 \<and> taken s 1 \<and>
    ThreadId (infos s ! 0) = 1 \<and> ThreadId (infos s ! 1) = 2 \<and> (\<forall>t i. call_of s t \<noteq> Releasing i)"
proof -
  define free where "free = \<lparr>Mutex = 1, UseCount = 0, ThreadId = ACPI_MUTEX_NOT_ACQUIRED\<rparr>"
  define at where "at = (\<lambda>c mi tk. \<lparr>infos = mi, taken = (\<lambda>j. j \<in> set tk), call_of = c\<rparr>)"
  define mi0 where "mi0 = replicate 8 free"
  define mi1 where "mi1 = mark_acquired 1 0 mi0"
  define mi2 where "mi2 = mark_acquired 2 1 mi1"
  let ?c = "\<lambda>_ :: u64. Idle"
  have n: "(1 :: u64) \<noteq> ACPI_MUTEX_NOT_ACQUIRED" "(2 :: u64) \<noteq> ACPI_MUTEX_NOT_ACQUIRED" by (simp_all add: ACPI_MUTEX_NOT_ACQUIRED_def)
  have w: "lock_step False (at c mi tk) (at (c(t := Waiting i)) mi tk)" if "c t = Idle" "t = 1 \<or> t = 2" "i \<le> 1" for c t mi tk i
    using lock_step.wait [of "at c mi tk" t i False] that n by (auto simp: at_def ACPI_MAX_MUTEX_def)
  have a: "lock_step False (at c mi tk) (at (c(t := Idle)) (mark_acquired t i mi) (i # tk))" if "c t = Waiting i" "i \<notin> set tk" for c t mi tk i
  proof -
    have e: "(\<lambda>j. j \<in> set tk)(i := True) = (\<lambda>j. j \<in> set (i # tk))" by (rule ext) auto
    show ?thesis using lock_step.acquire [of "at c mi tk" t i False] that by (simp add: at_def e del: fun_upd_apply list.set)
  qed
  have "lock_start (at ?c mi0 [])"
    by (auto simp: lock_start_def at_def mi0_def free_def ACPI_NUM_MUTEX_def ACPI_MAX_MUTEX_def)
  then have "lock_reachable False (at ?c mi0 [])" by (rule lock_reachable.start)
  then have "lock_reachable False (at (?c(1 := Waiting 0)) mi0 [])" by (rule lock_reachable.step) (rule w, simp_all)
  then have "lock_reachable False (at (?c(1 := Waiting 0, 1 := Idle)) mi1 [0])"
    unfolding mi1_def by (rule lock_reachable.step) (rule a, simp_all)
  then have "lock_reachable False (at (?c(1 := Waiting 0, 1 := Idle, 2 := Waiting 1)) mi1 [0])"
    by (rule lock_reachable.step) (rule w, simp_all)
  then have "lock_reachable False (at (?c(1 := Waiting 0, 1 := Idle, 2 := Waiting 1, 2 := Idle)) mi2 [1, 0])"
    unfolding mi2_def by (rule lock_reachable.step) (rule a, simp_all)
  then have "lock_reachable False (at (?c(1 := Waiting 0, 1 := Idle, 2 := Waiting 1, 2 := Idle, 1 := Waiting 1)) mi2 [1, 0])"
    by (rule lock_reachable.step) (rule w, simp_all)
  then have "lock_reachable False (at (?c(1 := Waiting 0, 1 := Idle, 2 := Waiting 1, 2 := Idle, 1 := Waiting 1, 2 := Waiting 0)) mi2 [1, 0])"
    by (rule lock_reachable.step) (rule w, simp_all)
  moreover have "length mi1 = 8" "length mi0 = 8" by (simp_all add: mi1_def mi0_def ThreadId_mark(3))
  then have "ThreadId (mi2 ! 0) = 1" "ThreadId (mi2 ! 1) = 2" by (simp_all add: mi2_def mi1_def ThreadId_mark(1))
  ultimately show ?thesis by (intro exI conjI) (assumption, auto simp: at_def)
qed

text \<open>
  A release does not ask who has acquired the mutex: the call has the number of the mutex only, and frees
  also a mutex under which another thread still works.
\<close>

theorem mutex_released_by_other:
  assumes "i \<le> ACPI_MAX_MUTEX" and "length mi = ACPI_NUM_MUTEX" and "ThreadId (mi ! i) = u" and "u \<noteq> ACPI_MUTEX_NOT_ACQUIRED"
  shows "\<exists>mi'. AcpiUtReleaseMutex os i mi s = (AE_OK, mi', os_release os (Mutex (mi ! i)) s) \<and>
    ThreadId (mi' ! i) = ACPI_MUTEX_NOT_ACQUIRED"
proof -
  have i: "i < length mi" using assms(1,2) by (simp add: ACPI_NUM_MUTEX_def)
  then show ?thesis using assms by (simp add: AcpiUtReleaseMutex_def ThreadId_mark(2) [OF i])
qed

section \<open>Exclusion\<close>

text \<open>What the mutexes of the operating system do, as its interface describes them: \<open>held\<close> are the ones that are taken.\<close>

definition os_mutexes :: "'o os_locks \<Rightarrow> ('o \<Rightarrow> u32 set) \<Rightarrow> bool" where
  "os_mutexes os held \<longleftrightarrow>
     (\<forall>h s. h \<in> held s \<longrightarrow> os_acquire os h s = Hang) \<and>
     (\<forall>h s. h \<notin> held s \<longrightarrow> (\<exists>s'. os_acquire os h s = Ret (AE_OK, s') \<and> held s' = insert h (held s))) \<and>
     (\<forall>h s. held (os_release os h s) = held s - {h})"


section \<open>The reader/writer lock refines its specification\<close>

datatype rw = Free | Reading nat | Writing

definition rw_lock_of :: "('o \<Rightarrow> u32 set) \<Rightarrow> rw_lock \<Rightarrow> 'o \<Rightarrow> rw \<Rightarrow> bool" where
  "rw_lock_of held l s a \<longleftrightarrow> ReaderMutex l \<noteq> WriterMutex l \<and> ReaderMutex l \<notin> held s \<and>
     (case a of
        Free \<Rightarrow> NumReaders l = 0 \<and> WriterMutex l \<notin> held s
      | Reading n \<Rightarrow> 0 < n \<and> n < 2 ^ 32 \<and> NumReaders l = of_nat n \<and> WriterMutex l \<in> held s
      | Writing \<Rightarrow> NumReaders l = 0 \<and> WriterMutex l \<in> held s)"

text \<open>The lock as it is meant: \<open>None\<close> is a call that waits.\<close>

primrec rw_read :: "rw \<Rightarrow> rw option" where
  "rw_read Free = Some (Reading 1)"
| "rw_read (Reading n) = Some (Reading (n + 1))"
| "rw_read Writing = None"

primrec rw_unread :: "rw \<Rightarrow> rw" where
  "rw_unread (Reading n) = (if n = 1 then Free else Reading (n - 1))"
| "rw_unread Free = Free"
| "rw_unread Writing = Writing"

definition rw_write :: "rw \<Rightarrow> rw option" where
  "rw_write a = (if a = Free then Some Writing else None)"

lemma of_nat_u32: "n < 2 ^ 32 \<Longrightarrow> unat (of_nat n :: u32) = n"
  by (rule unat_of_nat_eq) simp

lemma os_mutexes_get:
  assumes "os_mutexes os held" and "h \<notin> held s"
  obtains s' where "os_acquire os h s = Ret (AE_OK, s')" and "held s' = insert h (held s)"
  using assms unfolding os_mutexes_def by blast

lemma os_mutexes_wait: "os_mutexes os held \<Longrightarrow> h \<in> held s \<Longrightarrow> os_acquire os h s = Hang"
  and os_mutexes_put: "os_mutexes os held \<Longrightarrow> held (os_release os h s) = held s - {h}"
  unfolding os_mutexes_def by blast+

lemma rw_acquire_read:
  assumes "os_mutexes os held" and "rw_lock_of held l s a"
  shows "case rw_read a of
      None \<Rightarrow> AcpiUtAcquireReadLock os l s = Hang
    | Some a' \<Rightarrow> a = Reading (2 ^ 32 - 1) \<or> (\<exists>l' s'. AcpiUtAcquireReadLock os l s = Ret (AE_OK, l', s') \<and> rw_lock_of held l' s' a')"
proof -
  let ?R = "ReaderMutex l" and ?W = "WriterMutex l"
  note get = os_mutexes_get [OF assms(1)] and put = os_mutexes_put [OF assms(1)] and wait = os_mutexes_wait [OF assms(1)]
  have m: "?R \<noteq> ?W" "?R \<notin> held s" using assms(2) by (auto simp: rw_lock_of_def)
  obtain s1 where s1: "os_acquire os ?R s = Ret (AE_OK, s1)" "held s1 = insert ?R (held s)" by (rule get [OF m(2)])
  show ?thesis
  proof (cases a)
    case Free
    then have w: "?W \<notin> held s1" "NumReaders l = 0" using assms(2) m s1 by (auto simp: rw_lock_of_def)
    obtain s2 where s2: "os_acquire os ?W s1 = Ret (AE_OK, s2)" "held s2 = insert ?W (held s1)" by (rule get [OF w(1)])
    have "AcpiUtAcquireReadLock os l s = Ret (AE_OK, l\<lparr>NumReaders := 1\<rparr>, os_release os ?R s2)"
      by (simp add: AcpiUtAcquireReadLock_def s1 s2 w)
    moreover have "rw_lock_of held (l\<lparr>NumReaders := 1\<rparr>) (os_release os ?R s2) (Reading 1)"
      using m by (simp add: rw_lock_of_def put s1 s2)
    ultimately show ?thesis using Free by simp
  next
    case (Reading n)
    then have n: "n < 2 ^ 32" "NumReaders l = of_nat n" "0 < n" "?W \<in> held s" using assms(2) by (auto simp: rw_lock_of_def)
    have "NumReaders l + 1 \<noteq> 1" using n of_nat_u32 [OF n(1)] by auto
    then have "AcpiUtAcquireReadLock os l s = Ret (AE_OK, l\<lparr>NumReaders := NumReaders l + 1\<rparr>, os_release os ?R s1)"
      by (simp add: AcpiUtAcquireReadLock_def s1)
    moreover have "rw_lock_of held (l\<lparr>NumReaders := NumReaders l + 1\<rparr>) (os_release os ?R s1) (Reading (n + 1))" if "n \<noteq> 2 ^ 32 - 1"
      using that n m by (simp add: rw_lock_of_def put s1 add.commute)
    ultimately show ?thesis using Reading by auto
  next
    case Writing
    then have "?W \<in> held s1" "NumReaders l = 0" using assms(2) s1 by (auto simp: rw_lock_of_def)
    then show ?thesis using Writing wait s1 by (simp add: AcpiUtAcquireReadLock_def)
  qed
qed

lemma rw_release_read:
  assumes "os_mutexes os held" and "rw_lock_of held l s (Reading n)"
  shows "\<exists>l' s'. AcpiUtReleaseReadLock os l s = Ret (AE_OK, l', s') \<and> rw_lock_of held l' s' (rw_unread (Reading n))"
proof -
  let ?R = "ReaderMutex l" and ?W = "WriterMutex l"
  have m: "?R \<noteq> ?W" "?R \<notin> held s" and n: "n < 2 ^ 32" "NumReaders l = of_nat n" "0 < n" "?W \<in> held s"
    using assms(2) by (auto simp: rw_lock_of_def)
  obtain s1 where s1: "os_acquire os ?R s = Ret (AE_OK, s1)" "held s1 = insert ?R (held s)"
    by (rule os_mutexes_get [OF assms(1) m(2)])
  have d: "NumReaders l - 1 = of_nat (n - 1)" using n by (simp add: of_nat_diff)
  have "unat (NumReaders l - 1) = n - 1" unfolding d using n of_nat_u32 [of "n - 1"] by simp
  then have z: "NumReaders l - 1 = 0 \<longleftrightarrow> n = 1" using n(3) by (auto simp: unat_eq_zero)
  let ?l = "l\<lparr>NumReaders := NumReaders l - 1\<rparr>"
  have "AcpiUtReleaseReadLock os l s =
      Ret (AE_OK, ?l, os_release os ?R (if n = 1 then os_release os ?W s1 else s1))"
    using z by (simp add: AcpiUtReleaseReadLock_def s1 Let_def)
  moreover have "rw_lock_of held ?l (os_release os ?R (if n = 1 then os_release os ?W s1 else s1)) (rw_unread (Reading n))"
    using m n d by (auto simp: rw_lock_of_def os_mutexes_put [OF assms(1)] s1)
  ultimately show ?thesis by blast
qed

lemma rw_acquire_write:
  assumes "os_mutexes os held" and "rw_lock_of held l s a"
  shows "case rw_write a of
      None \<Rightarrow> AcpiUtAcquireWriteLock os l s = Hang
    | Some a' \<Rightarrow> \<exists>s'. AcpiUtAcquireWriteLock os l s = Ret (AE_OK, s') \<and> rw_lock_of held l s' a'"
proof (cases a)
  case Free
  then have w: "WriterMutex l \<notin> held s" using assms(2) by (simp add: rw_lock_of_def)
  obtain s1 where "os_acquire os (WriterMutex l) s = Ret (AE_OK, s1)" "held s1 = insert (WriterMutex l) (held s)"
    by (rule os_mutexes_get [OF assms(1) w])
  then show ?thesis using Free assms(2) by (simp add: rw_write_def AcpiUtAcquireWriteLock_def rw_lock_of_def)
qed (use assms os_mutexes_wait [OF assms(1)] in \<open>simp_all add: rw_write_def AcpiUtAcquireWriteLock_def rw_lock_of_def\<close>)

lemma rw_release_write:
  "os_mutexes os held \<Longrightarrow> rw_lock_of held l s Writing \<Longrightarrow> rw_lock_of held l (AcpiUtReleaseWriteLock os l s) Free"
  by (simp add: AcpiUtReleaseWriteLock_def rw_lock_of_def os_mutexes_put)

text \<open>
  C29. Over mutexes that exclude each other the reader/writer lock is one: a reader gets in unless a
  writer is in and waits otherwise, the last reader makes it free, a writer gets in when it is free and
  waits otherwise, and leaves it free.
\<close>

theorem rw_lock_refines:
  assumes "os_mutexes os held" and "rw_lock_of held l s a"
  shows "(case rw_read a of
      None \<Rightarrow> AcpiUtAcquireReadLock os l s = Hang
    | Some a' \<Rightarrow> a = Reading (2 ^ 32 - 1) \<or> (\<exists>l' s'. AcpiUtAcquireReadLock os l s = Ret (AE_OK, l', s') \<and> rw_lock_of held l' s' a'))
    \<and> (\<forall>n. a = Reading n \<longrightarrow> (\<exists>l' s'. AcpiUtReleaseReadLock os l s = Ret (AE_OK, l', s') \<and> rw_lock_of held l' s' (rw_unread a)))
    \<and> (case rw_write a of
      None \<Rightarrow> AcpiUtAcquireWriteLock os l s = Hang
    | Some a' \<Rightarrow> \<exists>s'. AcpiUtAcquireWriteLock os l s = Ret (AE_OK, s') \<and> rw_lock_of held l s' a')
    \<and> (a = Writing \<longrightarrow> rw_lock_of held l (AcpiUtReleaseWriteLock os l s) Free)"
proof (intro conjI allI impI)
  show "\<exists>l' s'. AcpiUtReleaseReadLock os l s = Ret (AE_OK, l', s') \<and> rw_lock_of held l' s' (rw_unread a)" if "a = Reading n" for n
    using rw_release_read [OF assms(1)] assms(2) unfolding that .
  show "rw_lock_of held l (AcpiUtReleaseWriteLock os l s) Free" if "a = Writing"
    using rw_release_write [OF assms(1)] assms(2) unfolding that .
qed (fact rw_acquire_read [OF assms] rw_acquire_write [OF assms])+

text \<open>
  When the mutex of the writers cannot be acquired, the first reader gets the error but stays
  counted: the next reader gets in without that mutex.
\<close>

theorem read_lock_failure_counts:
  assumes "NumReaders l = 0" and "os_acquire os (ReaderMutex l) s = Ret (AE_OK, s1)"
    and "os_acquire os (WriterMutex l) s1 = Ret (st, s2)" and "st \<noteq> AE_OK"
    and "os_acquire os (ReaderMutex l) (os_release os (ReaderMutex l) s2) = Ret (AE_OK, s3)"
  shows "\<exists>l1. AcpiUtAcquireReadLock os l s = Ret (st, l1, os_release os (ReaderMutex l) s2) \<and> NumReaders l1 = 1 \<and>
    AcpiUtAcquireReadLock os l1 (os_release os (ReaderMutex l) s2) = Ret (AE_OK, l1\<lparr>NumReaders := 2\<rparr>, os_release os (ReaderMutex l) s3)"
  using assms by (simp add: AcpiUtAcquireReadLock_def)

section \<open>At concrete inputs\<close>

text \<open>An operating system whose mutexes are numbers, with the set of the taken ones; and one whose mutex 2 cannot be acquired.\<close>

definition set_os :: "u32 set os_locks" where
  "set_os = \<lparr>os_create = (\<lambda>s. (AE_OK, 1, s)), os_create_lock = (\<lambda>s. (AE_OK, 1, s)), os_delete = (\<lambda>h s. s), os_delete_lock = (\<lambda>h s. s),
     os_acquire = (\<lambda>h s. if h \<in> s then Hang else Ret (AE_OK, insert h s)), os_release = (\<lambda>h s. s - {h})\<rparr>"

definition failing_os :: "u32 set os_locks" where
  "failing_os = set_os\<lparr>os_acquire := (\<lambda>h s. if h = 2 then Ret (AE_LIMIT, s) else if h \<in> s then Hang else Ret (AE_OK, insert h s))\<rparr>"

definition free_mutex :: mutex_info where
  "free_mutex = \<lparr>Mutex = 1, UseCount = 0, ThreadId = ACPI_MUTEX_NOT_ACQUIRED\<rparr>"

definition idle_locks :: lock_state where
  "idle_locks = \<lparr>infos = replicate 8 free_mutex, taken = (\<lambda>_. False), call_of = (\<lambda>_. Idle)\<rparr>"

lemma idle_locks_reachable: "lock_reachable ordered idle_locks"
  by (rule lock_reachable.start) (auto simp: lock_start_def idle_locks_def free_mutex_def ACPI_NUM_MUTEX_def ACPI_MAX_MUTEX_def)

theorem mutexes_no_deadlock_witness:
  "\<exists>s. lock_reachable True s \<and> call_of s 5 = Waiting 3 \<and> (\<exists>u j. call_of s u = Waiting j \<and>
    (\<not> taken s j \<or> (\<exists>v. call_of s v = Releasing j) \<or>
     ThreadId (infos s ! j) \<noteq> ACPI_MUTEX_NOT_ACQUIRED \<and> (\<forall>k. call_of s (ThreadId (infos s ! j)) \<noteq> Waiting k)))"
proof -
  let ?s = "idle_locks\<lparr>call_of := (call_of idle_locks)(5 := Waiting 3)\<rparr>"
  have "keeps_order 5 3 (infos idle_locks)"
    by (auto simp: keeps_order_iff idle_locks_def free_mutex_def ACPI_NUM_MUTEX_def ACPI_MAX_MUTEX_def ACPI_MUTEX_NOT_ACQUIRED_def)
  then have "lock_step True idle_locks ?s"
    by (intro lock_step.wait) (simp_all add: idle_locks_def ACPI_MAX_MUTEX_def ACPI_MUTEX_NOT_ACQUIRED_def)
  then have r: "lock_reachable True ?s" by (rule lock_reachable.step [OF idle_locks_reachable])
  have w: "call_of ?s 5 = Waiting 3" by simp
  from mutexes_no_deadlock [OF r w] r w show ?thesis by blast
qed

theorem mutex_released_by_other_witness:
  "\<exists>mi'. AcpiUtReleaseMutex set_os 2 ((replicate 8 free_mutex)[2 := free_mutex\<lparr>ThreadId := 5\<rparr>]) {1} = (AE_OK, mi', {}) \<and>
    ThreadId (mi' ! 2) = ACPI_MUTEX_NOT_ACQUIRED"
  using mutex_released_by_other [of 2 "(replicate 8 free_mutex)[2 := free_mutex\<lparr>ThreadId := 5\<rparr>]" 5 set_os "{1}"]
  by (auto simp: ACPI_NUM_MUTEX_def ACPI_MAX_MUTEX_def ACPI_MUTEX_NOT_ACQUIRED_def free_mutex_def set_os_def)

lemma set_os_mutexes: "os_mutexes set_os (\<lambda>s. s)"
  by (auto simp: os_mutexes_def set_os_def)


theorem rw_lock_refines_witness:
  "\<exists>l' s'. AcpiUtAcquireReadLock set_os \<lparr>WriterMutex = 2, ReaderMutex = 1, NumReaders = 1\<rparr> {2} = Ret (AE_OK, l', s') \<and>
    rw_lock_of (\<lambda>s. s) l' s' (Reading 2)"
proof -
  note o = set_os_mutexes
  have r: "rw_lock_of (\<lambda>s. s) \<lparr>WriterMutex = 2, ReaderMutex = 1, NumReaders = 1\<rparr> {2} (Reading 1)"
    by (simp add: rw_lock_of_def)
  have two: "Reading 2 = Reading (Suc (Suc 0))" by simp
  show ?thesis unfolding two using conjunct1 [OF rw_lock_refines [OF o r]] by simp
qed

theorem read_lock_failure_counts_witness:
  "\<exists>l1. AcpiUtAcquireReadLock failing_os \<lparr>WriterMutex = 2, ReaderMutex = 1, NumReaders = 0\<rparr> {} = Ret (AE_LIMIT, l1, {}) \<and>
    AcpiUtAcquireReadLock failing_os l1 {} = Ret (AE_OK, l1\<lparr>NumReaders := 2\<rparr>, {})"
  using read_lock_failure_counts [of "\<lparr>WriterMutex = 2, ReaderMutex = 1, NumReaders = 0\<rparr>" failing_os "{}" "{1}" AE_LIMIT "{1}" "{1}"]
  by (auto simp: failing_os_def set_os_def AE_LIMIT_def AE_OK_def)

end
