(* ===== verification/AcpiUtil.thy ===== *)
theory AcpiUtil
  imports AcpiMutex AcpiMath AcpiName
begin

text \<open>
  Utilities of the ACPI subsystem: the identifiers of owners, and the conversion of strings
  to integers (utilities/utmisc.c), and the lists of address ranges (utilities/utaddress.c).
  The predefined mutexes are those of \<open>AcpiMutex\<close>, with their operating system \<open>os\<close> and the running thread \<open>t\<close>.
\<close>

definition AE_OWNER_ID_LIMIT :: ACPI_STATUS where "AE_OWNER_ID_LIMIT = 0x001B"
definition AE_BAD_HEX_CONSTANT :: ACPI_STATUS where "AE_BAD_HEX_CONSTANT = 0x1005"
definition AE_BAD_DECIMAL_CONSTANT :: ACPI_STATUS where "AE_BAD_DECIMAL_CONSTANT = 0x1007"

section \<open>Owner identifiers\<close>

definition ACPI_NUM_OWNERID_MASKS :: nat where "ACPI_NUM_OWNERID_MASKS = 8"

record owner_ids =
  OwnerIdMask :: "u32 list"
  LastOwnerIdIndex :: u8
  NextOwnerIdOffset :: u8

text \<open>The part of \<open>AcpiUtInitGlobals\<close> that sets them: bit 255 is allocated for ever.\<close>

definition init_owner_ids :: owner_ids where
  "init_owner_ids = \<lparr>OwnerIdMask = (replicate ACPI_NUM_OWNERID_MASKS 0)[ACPI_NUM_OWNERID_MASKS - 1 := 0x80000000],
     LastOwnerIdIndex = 0, NextOwnerIdOffset = 0\<rparr>"

text \<open>The inner loop: the first free bit of a mask from \<open>k\<close> on.\<close>

definition free_bit :: "u32 \<Rightarrow> nat \<Rightarrow> nat option" where
  "free_bit m k = (if m = 0xFFFFFFFF then None else find (\<lambda>k. m AND push_bit k 1 = 0) [k..<32])"

text \<open>The outer loop, which has \<open>n\<close> rounds left; the result is the identifier.\<close>

fun owner_scan :: "nat \<Rightarrow> nat \<Rightarrow> owner_ids \<Rightarrow> u8 option \<times> owner_ids" where
  "owner_scan 0 j g = (None, g)"
| "owner_scan (Suc n) j g =
     (let j = (if j \<ge> ACPI_NUM_OWNERID_MASKS then 0 else j) in
      case free_bit (OwnerIdMask g ! j) (unat (NextOwnerIdOffset g)) of
        Some k \<Rightarrow> (Some (of_nat (k + 1 + 32 * j)),
          g\<lparr>OwnerIdMask := (OwnerIdMask g)[j := OwnerIdMask g ! j OR push_bit k 1],
            LastOwnerIdIndex := of_nat j, NextOwnerIdOffset := of_nat (k + 1)\<rparr>)
      | None \<Rightarrow> owner_scan n (j + 1) (g\<lparr>NextOwnerIdOffset := 0\<rparr>))"

text \<open>The result is the status, the caller's variable, and the state of the identifiers, the mutexes and the operating system.\<close>

definition AcpiUtAllocateOwnerId ::
  "'o os_locks \<Rightarrow> u64 \<Rightarrow> u8 \<Rightarrow> owner_ids \<Rightarrow> mutex_info list \<Rightarrow> 'o \<Rightarrow> (ACPI_STATUS \<times> u8 \<times> owner_ids \<times> mutex_info list \<times> 'o) outcome" where
  "AcpiUtAllocateOwnerId os t OwnerId g mi s =
     (if OwnerId \<noteq> 0 then Ret (AE_ALREADY_EXISTS, OwnerId, g, mi, s)
      else obind (AcpiUtAcquireMutex os t ACPI_MTX_CACHES mi s) (\<lambda>(st, mi, s).
        if st \<noteq> AE_OK then Ret (st, OwnerId, g, mi, s)
        else let (r, g) = owner_scan (ACPI_NUM_OWNERID_MASKS + 1) (unat (LastOwnerIdIndex g)) g;
                 (_, mi, s) = AcpiUtReleaseMutex os ACPI_MTX_CACHES mi s
             in Ret (case r of Some i \<Rightarrow> (AE_OK, i, g, mi, s) | None \<Rightarrow> (AE_OWNER_ID_LIMIT, OwnerId, g, mi, s))))"

definition AcpiUtReleaseOwnerId ::
  "'o os_locks \<Rightarrow> u64 \<Rightarrow> u8 \<Rightarrow> owner_ids \<Rightarrow> mutex_info list \<Rightarrow> 'o \<Rightarrow> (u8 \<times> owner_ids \<times> mutex_info list \<times> 'o) outcome" where
  "AcpiUtReleaseOwnerId os t OwnerId g mi s =
     (if OwnerId = 0 then Ret (0, g, mi, s)
      else obind (AcpiUtAcquireMutex os t ACPI_MTX_CACHES mi s) (\<lambda>(st, mi, s).
        if st \<noteq> AE_OK then Ret (0, g, mi, s)
        else let i = unat (OwnerId - 1); Index = i div 32; Bit = push_bit (i mod 32) 1;
                 g = (if OwnerIdMask g ! Index AND Bit \<noteq> 0
                      then g\<lparr>OwnerIdMask := (OwnerIdMask g)[Index := OwnerIdMask g ! Index XOR Bit]\<rparr> else g);
                 (_, mi, s) = AcpiUtReleaseMutex os ACPI_MTX_CACHES mi s
             in Ret (0, g, mi, s)))"

section \<open>Addr ranges\<close>

definition ACPI_ADR_SPACE_SYSTEM_MEMORY :: u8 where "ACPI_ADR_SPACE_SYSTEM_MEMORY = 0"

record address_range =
  RegionNode :: u32
  StartAddress :: u32
  EndAddress :: u32

text \<open>
  The list that starts at \<open>AcpiGbl_AddressRangeList [SpaceId]\<close>, in the order of its \<open>Next\<close> pointers.
  \<open>alloc\<close> is the allocation of a block, whose address is 0 when there is no memory.
\<close>

definition range_space :: "u8 \<Rightarrow> bool" where
  "range_space Space \<longleftrightarrow> Space = ACPI_ADR_SPACE_SYSTEM_MEMORY \<or> Space = ACPI_ADR_SPACE_SYSTEM_IO"

definition AcpiUtAddAddressRange ::
  "(u32 \<Rightarrow> u32 outcome) \<Rightarrow> 'o os_locks \<Rightarrow> u64 \<Rightarrow> u8 \<Rightarrow> u32 \<Rightarrow> u32 \<Rightarrow> u32 \<Rightarrow> (u8 \<Rightarrow> address_range list) \<Rightarrow> mutex_info list \<Rightarrow> 'o \<Rightarrow>
   (ACPI_STATUS \<times> (u8 \<Rightarrow> address_range list) \<times> mutex_info list \<times> 'o) outcome" where
  "AcpiUtAddAddressRange alloc os t Space Addr Len Node L mi s =
     (if \<not> range_space Space then Ret (AE_OK, L, mi, s)
      else obind (alloc 16) (\<lambda>p.
        if p = 0 then Ret (AE_NO_MEMORY, L, mi, s)
        else let RangeInfo = \<lparr>RegionNode = Node, StartAddress = Addr, EndAddress = Addr + Len - 1\<rparr> in
          obind (AcpiUtAcquireMutex os t ACPI_MTX_NAMESPACE mi s) (\<lambda>(st, mi, s).
          if st \<noteq> AE_OK then Ret (st, L, mi, s)
          else let L = L(Space := RangeInfo # L Space);
                   (_, mi, s) = AcpiUtReleaseMutex os ACPI_MTX_NAMESPACE mi s
               in Ret (AE_OK, L, mi, s))))"

text \<open>The loop that unlinks the first range of the node.\<close>

fun unlink_range :: "u32 \<Rightarrow> address_range list \<Rightarrow> address_range list" where
  "unlink_range Node [] = []"
| "unlink_range Node (r # rs) = (if RegionNode r = Node then rs else r # unlink_range Node rs)"

definition AcpiUtRemoveAddressRange :: "u8 \<Rightarrow> u32 \<Rightarrow> (u8 \<Rightarrow> address_range list) \<Rightarrow> u8 \<Rightarrow> address_range list" where
  "AcpiUtRemoveAddressRange Space Node L =
     (if \<not> range_space Space then L else L(Space := unlink_range Node (L Space)))"

text \<open>The warning that \<open>Warn\<close> asks for is not modelled: it has no effect but the text.\<close>

fun count_overlaps :: "u32 \<Rightarrow> u32 \<Rightarrow> address_range list \<Rightarrow> u32 \<Rightarrow> u32" where
  "count_overlaps Addr End [] n = n"
| "count_overlaps Addr End (r # rs) n =
     count_overlaps Addr End rs (if Addr \<le> EndAddress r \<and> End \<ge> StartAddress r then n + 1 else n)"

definition AcpiUtCheckAddressRange :: "u8 \<Rightarrow> u32 \<Rightarrow> u32 \<Rightarrow> (u8 \<Rightarrow> address_range list) \<Rightarrow> u32" where
  "AcpiUtCheckAddressRange Space Addr Len L =
     (if \<not> range_space Space then 0 else count_overlaps Addr (Addr + Len - 1) (L Space) 0)"

definition AcpiUtDeleteAddressLists :: "(u8 \<Rightarrow> address_range list) \<Rightarrow> u8 \<Rightarrow> address_range list" where
  "AcpiUtDeleteAddressLists L = L(0 := [], 1 := [])"


section \<open>Strings\<close>

definition AcpiUtStrupr :: "u8 list \<Rightarrow> u8 list" where "AcpiUtStrupr SrcString = map ACPI_TOUPPER SrcString"

definition AcpiUtDwordByteSwap :: "u32 \<Rightarrow> u32" where
  "AcpiUtDwordByteSwap Value =
     (let In = map (\<lambda>i. ucast (drop_bit (8 * i) Value) :: u8) [0..<4]
      in ucast (In ! 3) OR push_bit 8 (ucast (In ! 2)) OR push_bit 16 (ucast (In ! 1)) OR push_bit 24 (ucast (In ! 0)))"

definition ACPI_ANY_BASE :: u32 where "ACPI_ANY_BASE = 0"

text \<open>The macros of ctype.h on a signed char.\<close>

definition ACPI_IS_SPACE :: "u8 \<Rightarrow> bool" where "ACPI_IS_SPACE c \<longleftrightarrow> c = 0x20"
definition ACPI_IS_DIGIT :: "u8 \<Rightarrow> bool" where "ACPI_IS_DIGIT c \<longleftrightarrow> 48 \<le> sint c \<and> sint c \<le> 57"
definition ACPI_IS_XDIGIT :: "u8 \<Rightarrow> bool" where
  "ACPI_IS_XDIGIT c \<longleftrightarrow> ACPI_IS_DIGIT c \<or> 65 \<le> sint c \<and> sint c \<le> 70"
definition ACPI_TOLOWER :: "u8 \<Rightarrow> int" where "ACPI_TOLOWER c = tolower (sint c)"

definition is_blank :: "u8 \<Rightarrow> bool" where "is_blank c \<longleftrightarrow> ACPI_IS_SPACE c \<or> c = 0x09"

fun skip_blanks :: "u8 list \<Rightarrow> u8 list" where
  "skip_blanks [] = []"
| "skip_blanks (c # s) = (if is_blank c then skip_blanks s else c # s)"

text \<open>The value of a character as a digit; \<open>None\<close> sets \<open>Term\<close>.\<close>

definition digit_of :: "u32 \<Rightarrow> u8 \<Rightarrow> u32 option" where
  "digit_of Base c =
     (if ACPI_IS_DIGIT c then Some (ucast c - 0x30)
      else if Base = 10 then None
      else let d = ACPI_TOUPPER c in if ACPI_IS_XDIGIT d then Some (ucast d - 0x41 + 10) else None)"

definition bad_constant :: "u32 \<Rightarrow> ACPI_STATUS" where
  "bad_constant Base = (if Base = 10 then AE_BAD_DECIMAL_CONSTANT else AE_BAD_HEX_CONSTANT)"

text \<open>\<open>div64\<close> is the macro ACPI_DIV_64_BY_32 of the platform.\<close>

fun strtoul64_loop ::
  "(u32 \<Rightarrow> u32 \<Rightarrow> u32 \<Rightarrow> (u32 \<times> u32) outcome) \<Rightarrow> bool \<Rightarrow> bool \<Rightarrow> bool \<Rightarrow> u32 \<Rightarrow> u64 \<Rightarrow> u8 list \<Rightarrow> u64 \<Rightarrow> u8 \<Rightarrow> (ACPI_STATUS + u64) outcome" where
  "strtoul64_loop div64 ToIntegerOp Mode32 SignOf0x Base Dividend [] v n = Ret (Inr v)"
| "strtoul64_loop div64 ToIntegerOp Mode32 SignOf0x Base Dividend (c # s) v n =
     (case digit_of Base c of
        None \<Rightarrow> Ret (if ToIntegerOp then Inl (bad_constant Base) else Inr v)
      | Some d \<Rightarrow>
          if n = 0 \<and> d = 0 \<and> \<not> SignOf0x then strtoul64_loop div64 ToIntegerOp Mode32 SignOf0x Base Dividend s v n
          else let n = n + 1 in
            if SignOf0x \<and> (n > 16 \<or> n > 8 \<and> Mode32) then Ret (Inl (bad_constant Base))
            else obind (AcpiUtShortDivide div64 (Dividend - ucast d) Base) (\<lambda>r. case r of
                Inl _ \<Rightarrow> Trap
              | Inr (q, _) \<Rightarrow>
                  if v > q then Ret (if ToIntegerOp then Inl (bad_constant Base) else Inr v)
                  else strtoul64_loop div64 ToIntegerOp Mode32 SignOf0x Base Dividend s (v * ucast Base + ucast d) n))"

text \<open>The string is not NULL; \<open>ByteWidth\<close> is the global variable \<^verbatim>\<open>AcpiGbl_IntegerByteWidth\<close>.\<close>

definition AcpiUtStrtoul64 ::
  "(u32 \<Rightarrow> u32 \<Rightarrow> u32 \<Rightarrow> (u32 \<times> u32) outcome) \<Rightarrow> u8 \<Rightarrow> u8 list \<Rightarrow> u32 \<Rightarrow> (ACPI_STATUS + u64) outcome" where
  "AcpiUtStrtoul64 div64 ByteWidth String Base =
     (let ToIntegerOp = (Base = ACPI_ANY_BASE); Mode32 = (ByteWidth = 4) in
      if \<not> (Base = ACPI_ANY_BASE \<or> Base = 16) then Ret (Inl AE_BAD_PARAMETER)
      else let s = skip_blanks String;
               SignOf0x = (ToIntegerOp \<and> char_at s = 0x30 \<and> ACPI_TOLOWER (char_at (tl s)) = 0x78);
               Base = (if ToIntegerOp then if SignOf0x then 16 else 10 else Base);
               s = (if SignOf0x then drop 2 s else s)
           in if char_at s = 0 \<or> is_blank (char_at s)
              then Ret (if ToIntegerOp then Inl (bad_constant Base) else Inr 0)
              else strtoul64_loop div64 ToIntegerOp Mode32 SignOf0x Base (if Mode32 then 0xFFFFFFFF else 0xFFFFFFFFFFFFFFFF) s 0 0)"

lemma unat_u8_less: "unat (w :: u8) < 256"
  using unsigned_less [of w] by simp

section \<open>Owner identifiers are fresh\<close>

text \<open>The specification: the set of the identifiers in use, of 255 that there are.\<close>

definition owners :: "owner_ids \<Rightarrow> nat set" where
  "owners g = {i. 1 \<le> i \<and> i \<le> 255 \<and> bit (OwnerIdMask g ! ((i - 1) div 32)) ((i - 1) mod 32)}"

definition owner_inv :: "owner_ids \<Rightarrow> bool" where
  "owner_inv g \<longleftrightarrow> length (OwnerIdMask g) = ACPI_NUM_OWNERID_MASKS \<and> bit (OwnerIdMask g ! 7) 31 \<and> NextOwnerIdOffset g \<le> 32"

lemma free_bit_None: "free_bit m k = None \<longleftrightarrow> (\<forall>b. k \<le> b \<and> b < 32 \<longrightarrow> bit m b)"
proof (cases "m = 0xFFFFFFFF")
  case True
  moreover have "bit (0xFFFFFFFF :: u32) b" if "b < 32" for b
  proof -
    have e: "(0xFFFFFFFF :: u32) = mask 32" by (simp add: mask_eq_exp_minus_1)
    show ?thesis unfolding e using that by (simp add: bit_mask_iff)
  qed
  ultimately show ?thesis by (simp add: free_bit_def)
next
  case False
  then show ?thesis by (auto simp: free_bit_def find_upt_None)
qed

lemma free_bit_Some: "free_bit m k = Some b \<Longrightarrow> k \<le> b \<and> b < 32 \<and> \<not> bit m b"
  by (auto simp: free_bit_def find_upt_Some split: if_splits)

text \<open>What an allocation of bit \<open>k\<close> of mask \<open>j\<close> changes.\<close>

lemma owners_insert:
  assumes "j < 8" and "k < 32" and "length (OwnerIdMask g) = 8" and "32 * j + k \<noteq> 255"
  shows "owners (g\<lparr>OwnerIdMask := (OwnerIdMask g)[j := OwnerIdMask g ! j OR push_bit k 1], LastOwnerIdIndex := a, NextOwnerIdOffset := b\<rparr>)
    = insert (32 * j + k + 1) (owners g)"
proof -
  have e: "(i - 1) div 32 = j \<and> (i - 1) mod 32 = k \<longleftrightarrow> i = 32 * j + k + 1" if "1 \<le> i" for i
    using that assms(2) by auto
  have l: "(i - 1) div 32 < 8" if "i \<le> 255" for i :: nat using that by simp
  have "32 * j + k + 1 \<le> 255" using assms by simp
  then show ?thesis
    using assms e l by (auto simp: owners_def nth_list_update bit_or_mask)
qed

text \<open>The scan: after \<open>n\<close> rounds it has found the next free bit, or looked at \<open>n\<close> masks in turn.\<close>

lemma owner_scan:
  assumes "owner_inv g" and "j \<le> 8" and "owner_scan n j g = (r, g')"
  shows "owner_inv g' \<and>
    (case r of
      None \<Rightarrow> OwnerIdMask g' = OwnerIdMask g \<and>
        (\<forall>i < n. \<forall>b < 32. 0 < i \<or> unat (NextOwnerIdOffset g) \<le> b \<longrightarrow> bit (OwnerIdMask g ! ((j + i) mod 8)) b)
    | Some i \<Rightarrow> unat i \<notin> owners g \<and> 1 \<le> unat i \<and> owners g' = insert (unat i) (owners g))"
  using assms
proof (induction n arbitrary: j g)
  case (Suc n)
  define m where "m = (if j \<ge> ACPI_NUM_OWNERID_MASKS then 0 else j)"
  have j: "m < 8" "m = j mod 8" using Suc.prems(2) by (auto simp: m_def ACPI_NUM_OWNERID_MASKS_def)
  have l: "length (OwnerIdMask g) = 8" using Suc.prems(1) by (simp add: owner_inv_def ACPI_NUM_OWNERID_MASKS_def)
  show ?case
  proof (cases "free_bit (OwnerIdMask g ! m) (unat (NextOwnerIdOffset g))")
    case None
    let ?g = "g\<lparr>NextOwnerIdOffset := 0\<rparr>"
    have "owner_scan n (m + 1) ?g = (r, g')" using Suc.prems(3) None by (simp add: Let_def m_def [symmetric])
    moreover have "owner_inv ?g" using Suc.prems(1) by (simp add: owner_inv_def)
    ultimately have IH: "owner_inv g' \<and>
      (case r of
        None \<Rightarrow> OwnerIdMask g' = OwnerIdMask g \<and> (\<forall>i < n. \<forall>b < 32. bit (OwnerIdMask g ! ((m + 1 + i) mod 8)) b)
      | Some i \<Rightarrow> unat i \<notin> owners g \<and> 1 \<le> unat i \<and> owners g' = insert (unat i) (owners g))"
      using Suc.IH [of ?g "m + 1"] j(1) by (cases r) (simp_all add: owners_def)
    have "bit (OwnerIdMask g ! ((j + i) mod 8)) b"
      if "r = None" "i < Suc n" "b < 32" "0 < i \<or> unat (NextOwnerIdOffset g) \<le> b" for i b
    proof (cases i)
      case 0
      then show ?thesis using None that j(2) by (auto simp: free_bit_None)
    next
      case (Suc i')
      have "(j + i) mod 8 = (m + 1 + i') mod 8"
        using mod_add_left_eq [of j 8 "1 + i'"] unfolding j(2) Suc by (simp only: add.assoc plus_1_eq_Suc)
      then show ?thesis using IH that Suc by auto
    qed
    then show ?thesis using IH by (cases r) auto
  next
    case (Some k)
    note k = free_bit_Some [OF Some]
    have n: "32 * m + k \<noteq> 255"
    proof
      assume "32 * m + k = 255"
      moreover from this have "m = 7" using j(1) k by linarith
      ultimately have "m = 7" "k = 31" by simp_all
      then show False using k Suc.prems(1) by (auto simp: owner_inv_def)
    qed
    have s: "32 * m + k < 255" using n j(1) k by linarith
    let ?i = "of_nat (k + 1 + 32 * m) :: u8"
    have "k + 1 + 32 * m < 2 ^ 8" using s by simp
    then have "unat ?i = k + 1 + 32 * m" by (intro unat_of_nat_eq) simp
    then have i: "unat ?i = 32 * m + k + 1" by simp
    let ?g = "g\<lparr>OwnerIdMask := (OwnerIdMask g)[m := OwnerIdMask g ! m OR push_bit k 1], LastOwnerIdIndex := of_nat m, NextOwnerIdOffset := of_nat (k + 1)\<rparr>"
    have r: "r = Some ?i" "g' = ?g" using Suc.prems(3) Some by (auto simp: Let_def m_def [symmetric])
    have "unat ?i \<notin> owners g" unfolding i using k by (simp add: owners_def)
    moreover have "(of_nat (k + 1) :: u8) \<le> 32"
      using unat_of_nat_eq [of "k + 1", where 'a = 8] k unfolding word_le_nat_alt by simp
    then have "owner_inv ?g"
      using Suc.prems(1) k j(1) l by (auto simp: owner_inv_def nth_list_update bit_or_mask ACPI_NUM_OWNERID_MASKS_def)
    ultimately show ?thesis using owners_insert [OF j(1) _ l n] k i by (simp add: r)
  qed
qed simp


text \<open>Nine rounds from any start look at every bit.\<close>

lemma scan_covers:
  assumes "\<forall>i < 9. \<forall>b < 32. 0 < i \<or> k \<le> b \<longrightarrow> bit (m ! ((j + i) mod 8)) b" and "n < 8" and "b < 32"
  shows "bit (m ! n) b"
proof -
  define q where "q = j mod 8"
  define i where "i = (if n \<le> q then n + 8 - q else n - q)"
  have q: "q < 8" by (simp add: q_def)
  have "q + i = n \<or> q + i = n + 8" using q assms(2) by (auto simp: i_def)
  then have "(q + i) mod 8 = n" using assms(2) by auto
  moreover have "(q + i) mod 8 = (j + i) mod 8" unfolding q_def by (rule mod_add_left_eq)
  moreover have "0 < i" "i < 9" using q assms(2) by (auto simp: i_def)
  ultimately show ?thesis using assms(1,3) by metis
qed

definition owner_lock_free :: "'o os_locks \<Rightarrow> u64 \<Rightarrow> mutex_info list \<Rightarrow> 'o \<Rightarrow> bool" where
  "owner_lock_free os t mi s \<longleftrightarrow> (\<exists>mi' s'. AcpiUtAcquireMutex os t ACPI_MTX_CACHES mi s = Ret (AE_OK, mi', s'))"

text \<open>
  C28. An allocation gives an identifier from 1 to 255 that is not in use, and changes nothing else of the
  identifiers in use; it fails exactly when no identifier is left.
\<close>

theorem owner_id_fresh:
  assumes "owner_inv g" and "LastOwnerIdIndex g < 8" and "owner_lock_free os t mi s"
  shows "\<exists>st i g' mi' s'. AcpiUtAllocateOwnerId os t 0 g mi s = Ret (st, i, g', mi', s') \<and> owner_inv g' \<and>
    (if owners g = {1..255} then st = AE_OWNER_ID_LIMIT \<and> i = 0 \<and> owners g' = owners g
     else st = AE_OK \<and> unat i \<notin> owners g \<and> 1 \<le> unat i \<and> owners g' = insert (unat i) (owners g))"
proof -
  obtain mi' s' where a: "AcpiUtAcquireMutex os t ACPI_MTX_CACHES mi s = Ret (AE_OK, mi', s')"
    using assms(3) by (auto simp: owner_lock_free_def)
  obtain r g' where r: "owner_scan (ACPI_NUM_OWNERID_MASKS + 1) (unat (LastOwnerIdIndex g)) g = (r, g')" by (rule prod.exhaust)
  have j: "unat (LastOwnerIdIndex g) \<le> 8" using assms(2) by (simp add: word_less_nat_alt)
  note S = owner_scan [OF assms(1) j r]
  obtain x mi'' s'' where rel: "AcpiUtReleaseMutex os ACPI_MTX_CACHES mi' s' = (x, mi'', s'')" by (rule prod_cases3)
  have v: "AcpiUtAllocateOwnerId os t 0 g mi s =
    Ret (case r of Some i \<Rightarrow> (AE_OK, i, g', mi'', s'') | None \<Rightarrow> (AE_OWNER_ID_LIMIT, 0, g', mi'', s''))"
    unfolding AcpiUtAllocateOwnerId_def a obind_simps prod.case r Let_def rel by simp
  show ?thesis
  proof (cases r)
    case None
    have "bit (OwnerIdMask g ! n) b" if "n < 8" "b < 32" for n b
      using S None scan_covers [of "unat (NextOwnerIdOffset g)" "OwnerIdMask g" "unat (LastOwnerIdIndex g)" n b] that
      by (simp add: ACPI_NUM_OWNERID_MASKS_def)
    then have "owners g = {1..255}" by (auto simp: owners_def)
    moreover have "owners g' = owners g" using S None by (simp add: owners_def)
    ultimately show ?thesis using v S None by simp
  next
    case (Some i)
    then have "unat i \<notin> owners g" "1 \<le> unat i" using S by simp_all
    moreover have "unat i \<le> 255" using unat_u8_less [of i] by simp
    ultimately have "owners g \<noteq> {1..255}" by auto
    then show ?thesis using v S Some by simp
  qed
qed

text \<open>
  Releasing an identifier takes exactly it out of use, and clears the caller's variable, so that
  releasing the identifier of an allocation gives back the set before.
\<close>

theorem owner_id_released:
  assumes "length (OwnerIdMask g) = 8" and "owner_lock_free os t mi s" and "i \<noteq> 0"
  shows "\<exists>g' mi' s'. AcpiUtReleaseOwnerId os t i g mi s = Ret (0, g', mi', s') \<and> owners g' = owners g - {unat i}"
proof -
  obtain mi' s' where a: "AcpiUtAcquireMutex os t ACPI_MTX_CACHES mi s = Ret (AE_OK, mi', s')"
    using assms(2) by (auto simp: owner_lock_free_def)
  obtain x mi'' s'' where rel: "AcpiUtReleaseMutex os ACPI_MTX_CACHES mi' s' = (x, mi'', s'')" by (rule prod_cases3)
  define n where "n = unat (i - 1)"
  have n: "n = unat i - 1" "unat i \<noteq> 0" "unat i \<le> 255"
    using assms(3) unat_u8_less [of i] by (simp_all add: n_def unat_minus_one unat_eq_zero)
  let ?j = "n div 32" and ?k = "n mod 32"
  define b where "b = (OwnerIdMask g ! ?j AND push_bit ?k 1 \<noteq> 0)"
  let ?m = "if b then (OwnerIdMask g)[?j := OwnerIdMask g ! ?j XOR push_bit ?k 1] else OwnerIdMask g"
  have j: "?j < 8" using n by simp
  have e: "bit (?m ! ((h - 1) div 32)) ((h - 1) mod 32) \<longleftrightarrow> bit (OwnerIdMask g ! ((h - 1) div 32)) ((h - 1) mod 32) \<and> h \<noteq> unat i"
    if "1 \<le> h" "h \<le> 255" for h
  proof (cases "(h - 1) div 32 = ?j \<and> (h - 1) mod 32 = ?k")
    case True
    then have "h - 1 = n" by (metis div_mult_mod_eq)
    then have "h = unat i" using that n by simp
    moreover have "bit (OwnerIdMask g ! ?j) ?k = b" by (simp add: b_def)
    ultimately show ?thesis using True assms(1) j by (auto simp: bit_simps)
  next
    case False
    then have "h \<noteq> unat i" using n(1) by auto
    then show ?thesis using False assms(1) j by (auto simp: nth_list_update bit_simps)
  qed
  have "AcpiUtReleaseOwnerId os t i g mi s = Ret (0, g\<lparr>OwnerIdMask := ?m\<rparr>, mi'', s'')"
    using assms(3) unfolding AcpiUtReleaseOwnerId_def a n_def [symmetric] b_def by (simp add: Let_def rel n_def [symmetric])
  moreover have "owners (g\<lparr>OwnerIdMask := ?m\<rparr>) = owners g - {unat i}"
  proof -
    have "owners (g\<lparr>OwnerIdMask := ?m\<rparr>) = {h. 1 \<le> h \<and> h \<le> 255 \<and> bit (?m ! ((h - 1) div 32)) ((h - 1) mod 32)}"
      by (simp add: owners_def)
    also have "\<dots> = {h. 1 \<le> h \<and> h \<le> 255 \<and> bit (OwnerIdMask g ! ((h - 1) div 32)) ((h - 1) mod 32) \<and> h \<noteq> unat i}"
      using e by blast
    also have "\<dots> = owners g - {unat i}" by (auto simp: owners_def)
    finally show ?thesis .
  qed
  ultimately show ?thesis by blast
qed

section \<open>Address ranges and their conflicts\<close>

definition proper_range :: "u32 \<Rightarrow> u32 \<Rightarrow> bool" where
  "proper_range a l \<longleftrightarrow> l \<noteq> 0 \<and> unat a + unat l \<le> 2 ^ 32"

text \<open>The addresses of a range, and of the ranges in the list.\<close>

definition addresses :: "u32 \<Rightarrow> u32 \<Rightarrow> nat set" where "addresses a l = {unat a ..< unat a + unat l}"

definition range_addresses :: "address_range \<Rightarrow> nat set" where
  "range_addresses r = {unat (StartAddress r) .. unat (EndAddress r)}"

lemma count_overlaps:
  "count_overlaps a e L n = n + of_nat (length (filter (\<lambda>r. a \<le> EndAddress r \<and> e \<ge> StartAddress r) L))"
  by (induction a e L n rule: count_overlaps.induct) auto

lemma unat_range_end: "proper_range a l \<Longrightarrow> unat (a + l - 1) = unat a + unat l - 1"
proof -
  assume "proper_range a l"
  then have l: "l \<noteq> 0" "unat l \<noteq> 0" "unat a + unat l \<le> 4294967296" by (auto simp: proper_range_def unat_eq_zero)
  then have m: "unat (l - 1) = unat l - 1" by (simp add: unat_minus_one)
  moreover have "unat a + (unat l - 1) < 4294967296" using l by linarith
  ultimately have "unat (a + (l - 1)) = unat a + (unat l - 1)" by (simp only: unat_word_ariths) simp
  moreover have e: "a + l - 1 = a + (l - 1)" by simp
  ultimately show ?thesis unfolding e using l by linarith
qed

text \<open>
  The check of a range counts the operation regions that share an address with it; a range that has
  just been added conflicts with itself, and removing it again gives the list before.
\<close>

theorem address_conflicts_counted:
  assumes "range_space Space" and "proper_range Addr Len"
    and "\<forall>r \<in> set (L Space). StartAddress r \<le> EndAddress r" and "length (L Space) < 2 ^ 32"
  shows "unat (AcpiUtCheckAddressRange Space Addr Len L) =
    length (filter (\<lambda>r. addresses Addr Len \<inter> range_addresses r \<noteq> {}) (L Space))"
proof -
  have e: "unat (Addr + Len - 1) = unat Addr + unat Len - 1" "unat Len \<noteq> 0"
    using unat_range_end [OF assms(2)] assms(2) by (auto simp: proper_range_def unat_eq_zero)
  have "Addr \<le> EndAddress r \<and> Addr + Len - 1 \<ge> StartAddress r \<longleftrightarrow> addresses Addr Len \<inter> range_addresses r \<noteq> {}"
    if "StartAddress r \<le> EndAddress r" for r
  proof -
    have "unat (StartAddress r) \<le> unat (EndAddress r)" using that by (simp add: word_le_nat_alt)
    then have "addresses Addr Len \<inter> range_addresses r \<noteq> {} \<longleftrightarrow>
      unat Addr \<le> unat (EndAddress r) \<and> unat (StartAddress r) \<le> unat Addr + unat Len - 1"
      using e(2) by (auto simp: addresses_def range_addresses_def not_le ex_in_conv [symmetric]
        intro!: exI [of _ "max (unat Addr) (unat (StartAddress r))"])
    then show ?thesis unfolding word_le_nat_alt e(1) by simp
  qed
  then have "filter (\<lambda>r. Addr \<le> EndAddress r \<and> Addr + Len - 1 \<ge> StartAddress r) (L Space) =
    filter (\<lambda>r. addresses Addr Len \<inter> range_addresses r \<noteq> {}) (L Space)"
    using assms(3) by (intro filter_cong) auto
  moreover have "length (filter P (L Space)) < 2 ^ 32" for P
    using assms(4) length_filter_le [of P "L Space"] by linarith
  ultimately show ?thesis
    using assms(1) by (simp add: AcpiUtCheckAddressRange_def count_overlaps unat_of_nat_eq)
qed

text \<open>
  A range that is added can be removed again by its node, and the lists are as before; in between
  it is found to conflict with itself.
\<close>

theorem address_range_add_remove:
  assumes "range_space Space" and "proper_range Addr Len" and "alloc 16 = Ret p" and "p \<noteq> 0" and "length (L Space) + 1 < 2 ^ 32"
    and "AcpiUtAcquireMutex os t ACPI_MTX_NAMESPACE mi s = Ret (AE_OK, mi1, s1)"
  shows "\<exists>L' mi' s'. AcpiUtAddAddressRange alloc os t Space Addr Len Node L mi s = Ret (AE_OK, L', mi', s') \<and>
    AcpiUtRemoveAddressRange Space Node L' = L \<and>
    AcpiUtCheckAddressRange Space Addr Len L' \<noteq> 0"
proof -
  obtain x mi2 s2 where rel: "AcpiUtReleaseMutex os ACPI_MTX_NAMESPACE mi1 s1 = (x, mi2, s2)" by (rule prod_cases3)
  let ?r = "\<lparr>RegionNode = Node, StartAddress = Addr, EndAddress = Addr + Len - 1\<rparr>"
  let ?L = "L(Space := ?r # L Space)"
  have add: "AcpiUtAddAddressRange alloc os t Space Addr Len Node L mi s = Ret (AE_OK, ?L, mi2, s2)"
    using assms by (simp add: AcpiUtAddAddressRange_def rel)
  have rem: "AcpiUtRemoveAddressRange Space Node ?L = L" using assms(1) by (simp add: AcpiUtRemoveAddressRange_def)
  let ?P = "\<lambda>r. Addr \<le> EndAddress r \<and> Addr + Len - 1 \<ge> StartAddress r"
  have le: "Addr \<le> Addr + Len - 1"
  proof -
    have "unat Len \<noteq> 0" using assms(2) by (auto simp: proper_range_def unat_eq_zero)
    then show ?thesis unfolding word_le_nat_alt unat_range_end [OF assms(2)] by linarith
  qed
  have "length (filter ?P (L Space)) \<le> length (L Space)" by (rule length_filter_le)
  then have n: "Suc (length (filter ?P (L Space))) < 2 ^ 32" using assms(5) by linarith
  have z: "(of_nat (Suc (length (filter ?P (L Space)))) :: u32) \<noteq> 0"
  proof
    assume z: "(of_nat (Suc (length (filter ?P (L Space)))) :: u32) = 0"
    show False using of_nat_u32 [OF n] unfolding z by simp
  qed
  have "AcpiUtCheckAddressRange Space Addr Len ?L \<noteq> 0"
    using assms(1) le z by (simp add: AcpiUtCheckAddressRange_def count_overlaps)
  then show ?thesis using add rem by blast
qed

text \<open>
  A range of length 0 at address 0 conflicts with every region: its end is computed as the last address.
\<close>

theorem empty_range_conflicts:
  assumes "range_space Space" and "length (L Space) < 2 ^ 32"
  shows "unat (AcpiUtCheckAddressRange Space 0 0 L) = length (L Space)"
proof -
  have "(0 :: u32) - 1 \<ge> x" for x by (simp add: word_order.extremum)
  then show ?thesis using assms by (simp add: AcpiUtCheckAddressRange_def count_overlaps unat_of_nat_eq)
qed

section \<open>Strings to integers\<close>

text \<open>The value of a list of digits in a base.\<close>

definition digits_value :: "nat \<Rightarrow> nat list \<Rightarrow> nat" where
  "digits_value b ds = foldl (\<lambda>v d. v * b + d) 0 ds"

definition digits :: "u32 \<Rightarrow> u8 list \<Rightarrow> nat list" where
  "digits Base s = map (\<lambda>c. unat (the (digit_of Base c))) s"

definition all_digits :: "u32 \<Rightarrow> u8 list \<Rightarrow> bool" where
  "all_digits Base s \<longleftrightarrow> (\<forall>c \<in> set s. digit_of Base c \<noteq> None)"

lemma digit_enum:
  "list_all (\<lambda>n. case digit_of 10 (of_nat n) of None \<Rightarrow> True | Some d \<Rightarrow> unat d < 10 \<and> of_nat n \<noteq> (0 :: u8) \<and>
     \<not> is_blank (of_nat n) \<and> ACPI_TOLOWER (of_nat n) \<noteq> 0x78) [0..<256]"
  "list_all (\<lambda>n. case digit_of 16 (of_nat n) of None \<Rightarrow> True | Some d \<Rightarrow> unat d < 16 \<and> of_nat n \<noteq> (0 :: u8) \<and> \<not> is_blank (of_nat n)) [0..<256]"
  by code_simp+

lemma digit_bounds:
  "digit_of 10 c = Some d \<Longrightarrow> unat d < 10 \<and> c \<noteq> 0 \<and> \<not> is_blank c \<and> ACPI_TOLOWER c \<noteq> 0x78"
  "digit_of 16 c = Some d \<Longrightarrow> unat d < 16 \<and> c \<noteq> 0 \<and> \<not> is_blank c"
  using digit_enum unat_u8_less [of c] unfolding list_all_iff by (auto dest!: bspec [where x = "unat c"])

abbreviation value_from :: "nat \<Rightarrow> nat \<Rightarrow> nat list \<Rightarrow> nat" where
  "value_from b v ds \<equiv> foldl (\<lambda>v d. v * b + d) v ds"

definition max_integer :: "u8 \<Rightarrow> u64" where
  "max_integer ByteWidth = (if ByteWidth = 4 then 0xFFFFFFFF else 0xFFFFFFFFFFFFFFFF)"

lemma quotient_check:
  assumes "16 \<le> unat D" and "unat (d :: u32) < unat B" and "unat B \<le> 16"
  shows "AcpiUtShortDivide div_64_by_32 (D - ucast d) B = Ret (Inr ((D - ucast d) div ucast B, ucast ((D - ucast d) mod ucast B)))"
    and "v > (D - ucast d) div ucast B \<longleftrightarrow> unat D < unat v * unat B + unat d"
proof -
  have B: "B \<noteq> 0" using assms(2) by auto
  then show "AcpiUtShortDivide div_64_by_32 (D - ucast d) B = Ret (Inr ((D - ucast d) div ucast B, ucast ((D - ucast d) mod ucast B)))"
    by (simp add: short_divide native_ShortDivide_def)
  have d: "unat (ucast d :: u64) = unat d" "unat (ucast B :: u64) = unat B" by (simp_all add: unat_ucast_64)
  have "unat (D - ucast d) = unat D - unat d" using assms d(1) by (simp add: unat_sub word_le_nat_alt)
  then have q: "unat ((D - ucast d) div ucast B) = (unat D - unat d) div unat B" by (simp add: unat_div d)
  have "(unat D - unat d) div unat B < unat v \<longleftrightarrow> unat D - unat d < unat v * unat B"
    using assms(2) by (simp add: div_less_iff_less_mult)
  then show "v > (D - ucast d) div ucast B \<longleftrightarrow> unat D < unat v * unat B + unat d"
    unfolding word_less_nat_alt q using assms by linarith
qed

text \<open>How many digits have been taken: the count of one byte does not wrap, because the value fits into 64 bits.\<close>

definition digit_count :: "u8 \<Rightarrow> u64 \<Rightarrow> bool" where
  "digit_count n v \<longleftrightarrow> (\<exists>c. n = of_nat c \<and> (if c = 0 then v = 0 else 2 ^ (c - 1) \<le> unat v))"

lemma digit_count_zero: "digit_count n v \<Longrightarrow> n = 0 \<Longrightarrow> v = 0"
proof -
  assume "digit_count n v" "n = 0"
  then obtain c where c: "(of_nat c :: u8) = 0" "if c = 0 then v = 0 else 2 ^ (c - 1) \<le> unat v" by (auto simp: digit_count_def)
  have "c = 0"
  proof (rule ccontr)
    assume "c \<noteq> 0"
    moreover have "c < 256"
    proof (rule ccontr)
      assume "\<not> c < 256"
      then have "(2 :: nat) ^ 64 \<le> 2 ^ (c - 1)" by (intro power_increasing) auto
      then show False using c(2) \<open>c \<noteq> 0\<close> unat_u64_less [of v] by simp
    qed
    then have "unat (of_nat c :: u8) = c" by (intro unat_of_nat_eq) simp
    ultimately show False using c(1) by simp
  qed
  then show "v = 0" using c(2) by simp
qed

lemma digit_count_step:
  assumes "digit_count n v" and "2 \<le> b" and "0 < unat w" and "unat w = unat v * b + d"
  shows "digit_count (n + 1) w"
proof -
  obtain c where c: "n = of_nat c" "if c = 0 then v = 0 else 2 ^ (c - 1) \<le> unat v" using assms(1) by (auto simp: digit_count_def)
  have "2 ^ c \<le> unat w"
  proof (cases c)
    case (Suc c')
    then have "2 ^ c' \<le> unat v" using c(2) by simp
    then have "2 ^ c' * 2 \<le> unat v * b" using assms(2) by (intro mult_mono) auto
    then show ?thesis using Suc assms(4) by simp
  qed (use assms(3) in simp)
  then show ?thesis using c(1) by (auto simp: digit_count_def intro!: exI [of _ "Suc c"])
qed

lemma strtoul64_loop:
  assumes "16 \<le> unat D" and "2 \<le> unat B" and "unat B \<le> 16" and "\<And>c d. digit_of B c = Some d \<Longrightarrow> unat d < unat B"
    and "all_digits B s" and "unat v \<le> unat D" and "digit_count n v"
  shows "\<exists>k \<le> length s. value_from (unat B) (unat v) (take k (digits B s)) \<le> unat D \<and>
    (k < length s \<longrightarrow> unat D < value_from (unat B) (unat v) (take (Suc k) (digits B s))) \<and>
    strtoul64_loop div_64_by_32 I M False B D s v n =
      Ret (if k = length s \<or> \<not> I then Inr (of_nat (value_from (unat B) (unat v) (take k (digits B s)))) else Inl (bad_constant B))"
  using assms(5-7)
proof (induction s arbitrary: v n)
  case Nil
  then show ?case by (simp add: digits_def)
next
  case (Cons c s)
  obtain d where d: "digit_of B c = Some d" and s: "all_digits B s" using Cons.prems(1) by (auto simp: all_digits_def)
  note d16 = assms(4) [OF d]
  have ds: "digits B (c # s) = unat d # digits B s" by (simp add: digits_def d)
  show ?case
  proof (cases "n = 0 \<and> d = 0")
    case True
    then have v: "v = 0" using Cons.prems(3) digit_count_zero by blast
    obtain k where k: "k \<le> length s" "value_from (unat B) (unat v) (take k (digits B s)) \<le> unat D"
      "k < length s \<longrightarrow> unat D < value_from (unat B) (unat v) (take (Suc k) (digits B s))"
      "strtoul64_loop div_64_by_32 I M False B D s v n =
        Ret (if k = length s \<or> \<not> I then Inr (of_nat (value_from (unat B) (unat v) (take k (digits B s)))) else Inl (bad_constant B))"
      using Cons.IH [OF s Cons.prems(2,3)] by blast
    show ?thesis using k True v by (intro exI [of _ "Suc k"]) (simp add: ds d)
  next
    case False
    note q = quotient_check [OF assms(1) d16 assms(3)]
    have step: "strtoul64_loop div_64_by_32 I M False B D (c # s) v n =
      (if unat D < unat v * unat B + unat d then Ret (if I then Inl (bad_constant B) else Inr v)
       else strtoul64_loop div_64_by_32 I M False B D s (v * ucast B + ucast d) (n + 1))"
      using False q(2) [of v] by (auto simp: d Let_def q(1))
    show ?thesis
    proof (cases "unat D < unat v * unat B + unat d")
      case True
      then show ?thesis using step Cons.prems(2) by (intro exI [of _ 0]) (simp add: ds)
    next
      case False': False
      let ?w = "v * ucast B + ucast d :: u64"
      have "unat v * unat B + unat d < 18446744073709551616" using False' unat_u64_less [of D] by linarith
      then have w: "unat ?w = unat v * unat B + unat d"
        by (simp add: unat_word_ariths unat_ucast_64)
      have "0 < unat v \<or> 0 < unat d"
      proof (rule ccontr)
        assume "\<not> (0 < unat v \<or> 0 < unat d)"
        then have z: "v = 0" "d = 0" by (simp_all add: unat_eq_zero)
        then obtain c where "n = of_nat c" "(if c = 0 then (0 :: u64) = 0 else 2 ^ (c - 1) \<le> unat (0 :: u64))"
          using Cons.prems(3) unfolding digit_count_def by blast
        then have "n = 0" by (auto split: if_splits)
        then show False using False z by simp
      qed
      then have "0 < unat ?w" using assms(2) w by auto
      then have "digit_count (n + 1) ?w" using digit_count_step [OF Cons.prems(3) assms(2)] w by blast
      then obtain k where k: "k \<le> length s" "value_from (unat B) (unat ?w) (take k (digits B s)) \<le> unat D"
        "k < length s \<longrightarrow> unat D < value_from (unat B) (unat ?w) (take (Suc k) (digits B s))"
        "strtoul64_loop div_64_by_32 I M False B D s ?w (n + 1) =
          Ret (if k = length s \<or> \<not> I then Inr (of_nat (value_from (unat B) (unat ?w) (take k (digits B s)))) else Inl (bad_constant B))"
        using Cons.IH [OF s, of ?w "n + 1"] False' w by fastforce
      show ?thesis using k step False' unfolding w by (intro exI [of _ "Suc k"]) (simp add: ds)
    qed
  qed
qed

lemma max_integer_large: "16 \<le> unat (max_integer w)"
  by (simp add: max_integer_def)

lemma unat_ten: "unat (10 :: u32) = 10" by simp

lemma skip_blanks_append: "\<forall>c \<in> set bl. is_blank c \<Longrightarrow> (s = [] \<or> \<not> is_blank (hd s)) \<Longrightarrow> skip_blanks (bl @ s) = s"
  by (induction bl) (cases s, auto)

lemma strtoul64_start:
  assumes "\<forall>c \<in> set bl. is_blank c" and "all_digits B s" and "s \<noteq> []" and "Base = 16 \<and> B = 16 \<or> Base = ACPI_ANY_BASE \<and> B = 10"
  shows "AcpiUtStrtoul64 div64 w (bl @ s) Base =
    strtoul64_loop div64 (Base = ACPI_ANY_BASE) (w = 4) False B (max_integer w) s 0 0"
proof -
  obtain c s' where s: "s = c # s'" using assms(3) by (cases s) auto
  obtain d where d: "digit_of B c = Some d" using assms(2) s by (auto simp: all_digits_def)
  have c: "c \<noteq> 0" "\<not> is_blank c" using d digit_bounds assms(4) by blast+
  have b: "skip_blanks (bl @ s) = s" using assms(1) c s by (intro skip_blanks_append) auto
  have x: "ACPI_TOLOWER (char_at s') \<noteq> 0x78" if "B = 10"
  proof (cases s')
    case Nil
    then show ?thesis by (simp add: ACPI_TOLOWER_def) code_simp
  next
    case (Cons c' s'')
    then have "digit_of 10 c' \<noteq> None" using assms(2) s unfolding that all_digits_def by simp
    then show ?thesis using digit_bounds(1) [of c'] Cons by auto
  qed
  show ?thesis
    using assms(4) c x unfolding AcpiUtStrtoul64_def Let_def b
    by (auto simp: s max_integer_def ACPI_ANY_BASE_def simp del: strtoul64_loop.simps)
qed

text \<open>
  A string of hexadecimal digits, behind blanks, is read to the value of its longest beginning that fits into an
  integer of the interpreter's width, so to its value when that fits.
\<close>

theorem strtoul64_hex:
  assumes "\<forall>c \<in> set bl. is_blank c" and "all_digits 16 s" and "s \<noteq> []"
  shows "\<exists>k \<le> length s. AcpiUtStrtoul64 div_64_by_32 w (bl @ s) 16 = Ret (Inr (of_nat (digits_value 16 (take k (digits 16 s))))) \<and>
    digits_value 16 (take k (digits 16 s)) \<le> unat (max_integer w) \<and>
    (k < length s \<longrightarrow> unat (max_integer w) < digits_value 16 (take (Suc k) (digits 16 s)))"
proof -
  have "digit_count 0 0" by (auto simp: digit_count_def intro: exI [of _ 0])
  then have "\<exists>k \<le> length s. value_from (unat (16 :: u32)) (unat (0 :: u64)) (take k (digits 16 s)) \<le> unat (max_integer w) \<and>
    (k < length s \<longrightarrow> unat (max_integer w) < value_from (unat (16 :: u32)) (unat (0 :: u64)) (take (Suc k) (digits 16 s))) \<and>
    strtoul64_loop div_64_by_32 False (w = 4) False 16 (max_integer w) s 0 0 =
      Ret (if k = length s \<or> \<not> False then Inr (of_nat (value_from (unat (16 :: u32)) (unat (0 :: u64)) (take k (digits 16 s)))) else Inl (bad_constant 16))"
    using assms(2) digit_bounds(2) max_integer_large by (intro strtoul64_loop) simp_all
  moreover have "AcpiUtStrtoul64 div_64_by_32 w (bl @ s) 16 = strtoul64_loop div_64_by_32 False (w = 4) False 16 (max_integer w) s 0 0"
    using strtoul64_start [OF assms, of 16] by (simp add: ACPI_ANY_BASE_def)
  ultimately show ?thesis by (auto simp: digits_value_def)
qed

lemma value_from_mono: "2 \<le> b \<Longrightarrow> v \<le> value_from b v ds"
proof (induction ds arbitrary: v)
  case (Cons d ds)
  have "v * 1 \<le> v * b" using Cons.prems by (intro mult_le_mono) auto
  then have "v \<le> v * b + d" by linarith
  also have "\<dots> \<le> value_from b (v * b + d) ds" by (rule Cons.IH) fact
  finally show ?case by simp
qed simp

lemma value_take_mono: "2 \<le> b \<Longrightarrow> value_from b v (take k ds) \<le> value_from b v ds"
  by (metis append_take_drop_id foldl_append value_from_mono)

lemma decimal_value:
  assumes "\<forall>c \<in> set bl. is_blank c" and "all_digits 10 s" and "s \<noteq> []"
  shows "AcpiUtStrtoul64 div_64_by_32 w (bl @ s) ACPI_ANY_BASE =
    Ret (if digits_value 10 (digits 10 s) \<le> unat (max_integer w) then Inr (of_nat (digits_value 10 (digits 10 s)))
         else Inl AE_BAD_DECIMAL_CONSTANT)"
proof -
  have l: "length (digits 10 s) = length s" by (simp add: digits_def)
  have "digit_count 0 0" by (auto simp: digit_count_def intro: exI [of _ 0])
  then have "\<exists>k \<le> length s. value_from (unat (10 :: u32)) (unat (0 :: u64)) (take k (digits 10 s)) \<le> unat (max_integer w) \<and>
    (k < length s \<longrightarrow> unat (max_integer w) < value_from (unat (10 :: u32)) (unat (0 :: u64)) (take (Suc k) (digits 10 s))) \<and>
    strtoul64_loop div_64_by_32 True (w = 4) False 10 (max_integer w) s 0 0 =
      Ret (if k = length s \<or> \<not> True then Inr (of_nat (value_from (unat (10 :: u32)) (unat (0 :: u64)) (take k (digits 10 s)))) else Inl (bad_constant 10))"
    using assms(2) digit_bounds(1) max_integer_large by (intro strtoul64_loop) simp_all
  then obtain k where k: "k \<le> length s" "value_from 10 0 (take k (digits 10 s)) \<le> unat (max_integer w)"
    "k < length s \<longrightarrow> unat (max_integer w) < value_from 10 0 (take (Suc k) (digits 10 s))"
    "strtoul64_loop div_64_by_32 True (w = 4) False 10 (max_integer w) s 0 0 =
      Ret (if k = length s then Inr (of_nat (value_from 10 0 (take k (digits 10 s)))) else Inl (bad_constant 10))"
    by (simp only: unat_0 not_True_eq_False simp_thms) (metis unat_ten)
  have "AcpiUtStrtoul64 div_64_by_32 w (bl @ s) ACPI_ANY_BASE = strtoul64_loop div_64_by_32 True (w = 4) False 10 (max_integer w) s 0 0"
    using strtoul64_start [OF assms, of ACPI_ANY_BASE] by simp
  moreover have "value_from 10 0 (digits 10 s) \<le> unat (max_integer w) \<longleftrightarrow> k = length s"
    using k(1-3) l value_take_mono [of 10 0 "Suc k" "digits 10 s"] by (cases "k = length s") auto
  ultimately show ?thesis using k(4) l by (simp add: digits_value_def bad_constant_def)
qed

text \<open>With the macro of this kernel the limit for the overflow check is what the unset variables hold.\<close>

lemma unset_quotient:
  "\<exists>q r. AcpiUtShortDivide (ganoid_div_64_by_32 unset) n 10 = Ret (Inr (q, r))"
  by (auto simp: AcpiUtShortDivide_def ganoid_div_64_by_32_def split: prod.split)

lemma value_from_mod:
  "(of_nat m :: u64) = of_nat m' \<Longrightarrow> (of_nat (value_from b m xs) :: u64) = of_nat (value_from b m' xs)"
  by (induction xs arbitrary: m m') simp_all

lemma unset_loop:
  assumes "all_digits 10 s" and "k + length s < 256" and "k = 0 \<longrightarrow> v = 0"
  shows "strtoul64_loop (ganoid_div_64_by_32 unset) True M False 10 D s v (of_nat k) \<in>
    {Ret (Inr (of_nat (value_from 10 (unat v) (digits 10 s)))), Ret (Inl AE_BAD_DECIMAL_CONSTANT)}"
  using assms
proof (induction s arbitrary: v k)
  case Nil
  then show ?case by (simp add: digits_def)
next
  case (Cons c s)
  obtain d where d: "digit_of 10 c = Some d" and s: "all_digits 10 s" using Cons.prems(1) by (auto simp: all_digits_def)
  have ds: "digits 10 (c # s) = unat d # digits 10 s" by (simp add: digits_def d)
  have n: "(of_nat k :: u8) = 0 \<longleftrightarrow> k = 0" using Cons.prems(2) by (simp add: unat_eq_zero [symmetric] unat_of_nat_eq)
  obtain q r where q: "AcpiUtShortDivide (ganoid_div_64_by_32 unset) (D - ucast d) 10 = Ret (Inr (q, r))" using unset_quotient by blast
  let ?w = "v * ucast (10 :: u32) + ucast d :: u64"
  have w: "(of_nat (value_from 10 (unat ?w) xs) :: u64) = of_nat (value_from 10 (unat v * 10 + unat d) xs)" for xs
    by (rule value_from_mod) simp
  show ?case
  proof (cases "k = 0 \<and> d = 0")
    case True
    then show ?thesis using Cons.IH [OF s, of k v] Cons.prems(2,3) d by (simp add: ds)
  next
    case False
    have "strtoul64_loop (ganoid_div_64_by_32 unset) True M False 10 D (c # s) v (of_nat k) =
      (if v > q then Ret (Inl AE_BAD_DECIMAL_CONSTANT)
       else strtoul64_loop (ganoid_div_64_by_32 unset) True M False 10 D s ?w (of_nat (Suc k)))"
      using False n by (simp only: strtoul64_loop.simps(2) d option.case Let_def q obind_simps sum.case prod.case bad_constant_def
          simp_thms if_True if_False of_nat_Suc add.commute [of "1 :: u8"] split: if_split)
    moreover have "Suc k + length s < 256" "Suc k = 0 \<longrightarrow> ?w = 0" using Cons.prems(2) by simp_all
    note Cons.IH [OF s this]
    ultimately show ?thesis unfolding ds foldl_Cons w by (cases "v > q") simp_all
  qed
qed

text \<open>
  C32. ToInteger on a string of decimal digits, behind blanks. On a platform whose macro ACPI_DIV_64_BY_32 divides, as
  the one of the i386 instructions does, the string is read to its value when that fits into an integer of the
  interpreter's width, and a bad constant is reported otherwise. In this kernel the macro only prints and the limit
  for the overflow check is whatever the unset variables hold: for a string of less than 256 digits the result is
  the value modulo 2 to the 64, or the error, whatever the number is.
\<close>

theorem strtoul64_decimal:
  assumes "\<forall>c \<in> set bl. is_blank c" and "all_digits 10 s" and "s \<noteq> []"
  shows "AcpiUtStrtoul64 div_64_by_32 w (bl @ s) ACPI_ANY_BASE =
      Ret (if digits_value 10 (digits 10 s) \<le> unat (max_integer w) then Inr (of_nat (digits_value 10 (digits 10 s)))
           else Inl AE_BAD_DECIMAL_CONSTANT) \<and>
    (length s < 256 \<longrightarrow> AcpiUtStrtoul64 (ganoid_div_64_by_32 unset) w (bl @ s) ACPI_ANY_BASE \<in>
      {Ret (Inr (of_nat (digits_value 10 (digits 10 s)))), Ret (Inl AE_BAD_DECIMAL_CONSTANT)})"
proof (intro conjI impI)
  assume "length s < 256"
  then show "AcpiUtStrtoul64 (ganoid_div_64_by_32 unset) w (bl @ s) ACPI_ANY_BASE \<in>
      {Ret (Inr (of_nat (digits_value 10 (digits 10 s)))), Ret (Inl AE_BAD_DECIMAL_CONSTANT)}"
    using strtoul64_start [OF assms, of ACPI_ANY_BASE] unset_loop [OF assms(2), of 0 0 unset "w = 4" "max_integer w"]
    by (simp add: digits_value_def)
qed (rule decimal_value [OF assms])

text \<open>
  So this kernel cannot be trusted to read a number of two digits. When the unset variables happen to hold
  zeros, ToInteger reports 12 as a bad constant, and a hexadecimal 12 is read as 1.
\<close>

theorem strtoul64_ganoid_rejects:
  "AcpiUtStrtoul64 (ganoid_div_64_by_32 (\<lambda>_ _ _. (0, 0))) 8 [0x31, 0x32] ACPI_ANY_BASE = Ret (Inl AE_BAD_DECIMAL_CONSTANT) \<and>
   AcpiUtStrtoul64 (ganoid_div_64_by_32 (\<lambda>_ _ _. (0, 0))) 8 [0x31, 0x32] 16 = Ret (Inr 1)"
proof -
  have "all_digits 10 [0x31, 0x32]" "digit_of 10 0x31 = Some 1" "digit_of 10 0x32 = Some 2"
    "all_digits 16 [0x31, 0x32]" "digit_of 16 0x31 = Some 1" "digit_of 16 0x32 = Some 2" by code_simp+
  then show ?thesis using strtoul64_start [of "[]" 10 "[0x31, 0x32]" ACPI_ANY_BASE] strtoul64_start [of "[]" 16 "[0x31, 0x32]" 16]
    by (simp add: AcpiUtShortDivide_def ganoid_div_64_by_32_def full64_def bad_constant_def ACPI_ANY_BASE_def)
qed

text \<open>
  ToInteger rejects a hexadecimal string of more than 16 digits, although they are zeros and the
  comment in the code says that there are no restrictions.
\<close>

theorem strtoul64_rejects_zeros:
  "AcpiUtStrtoul64 div_64_by_32 8 ([0x30, 0x78] @ replicate 17 0x30) ACPI_ANY_BASE = Ret (Inl AE_BAD_HEX_CONSTANT) \<and>
   AcpiUtStrtoul64 div_64_by_32 8 ([0x30, 0x78] @ replicate 16 0x30) ACPI_ANY_BASE = Ret (Inr 0)"
  by (intro conjI; code_simp)

section \<open>At concrete inputs\<close>

definition free_mutexes8 :: "mutex_info list" where "free_mutexes8 = replicate 8 free_mutex"

lemma set_os_caches: "AcpiUtAcquireMutex set_os 5 ACPI_MTX_CACHES free_mutexes8 {} = Ret (AE_OK, mark_acquired 5 4 free_mutexes8, {1})"
  "AcpiUtAcquireMutex set_os 5 ACPI_MTX_NAMESPACE free_mutexes8 {} = Ret (AE_OK, mark_acquired 5 1 free_mutexes8, {1})"
proof -
  show "AcpiUtAcquireMutex set_os 5 ACPI_MTX_CACHES free_mutexes8 {} = Ret (AE_OK, mark_acquired 5 4 free_mutexes8, {1})"
    "AcpiUtAcquireMutex set_os 5 ACPI_MTX_NAMESPACE free_mutexes8 {} = Ret (AE_OK, mark_acquired 5 1 free_mutexes8, {1})"
    by (simp_all add: AcpiUtAcquireMutex_def ACPI_MTX_CACHES_def ACPI_MTX_NAMESPACE_def ACPI_MAX_MUTEX_def set_os_def free_mutexes8_def free_mutex_def)
qed

lemma init_owner_inv: "owner_inv init_owner_ids"
proof -
  have "bit (0x80000000 :: u32) 31" by code_simp
  then show ?thesis by (simp add: owner_inv_def init_owner_ids_def ACPI_NUM_OWNERID_MASKS_def)
qed

theorem owner_id_fresh_witness:
  "\<exists>i g' mi' s'. AcpiUtAllocateOwnerId set_os 5 0 init_owner_ids free_mutexes8 {} = Ret (AE_OK, i, g', mi', s') \<and>
    unat i \<notin> owners init_owner_ids \<and> owners g' = insert (unat i) (owners init_owner_ids)"
proof -
  have l: "owner_lock_free set_os 5 free_mutexes8 {}" using set_os_caches(1) by (auto simp: owner_lock_free_def)
  have "1 \<notin> owners init_owner_ids" by (simp add: owners_def init_owner_ids_def ACPI_NUM_OWNERID_MASKS_def)
  then have "owners init_owner_ids \<noteq> {1..255}" by auto
  then show ?thesis using owner_id_fresh [OF init_owner_inv _ l] by (auto simp: init_owner_ids_def)
qed

theorem owner_id_released_witness:
  "\<exists>g' mi' s'. AcpiUtReleaseOwnerId set_os 5 7 (init_owner_ids\<lparr>OwnerIdMask := replicate 8 0xF0F0F0F0\<rparr>) free_mutexes8 {} = Ret (0, g', mi', s') \<and>
    owners g' = owners (init_owner_ids\<lparr>OwnerIdMask := replicate 8 0xF0F0F0F0\<rparr>) - {7}"
proof -
  have l: "owner_lock_free set_os 5 free_mutexes8 {}" using set_os_caches(1) by (auto simp: owner_lock_free_def)
  show ?thesis using owner_id_released [OF _ l, of "init_owner_ids\<lparr>OwnerIdMask := replicate 8 0xF0F0F0F0\<rparr>" 7] by simp
qed

definition two_ranges :: "u8 \<Rightarrow> address_range list" where
  "two_ranges = (\<lambda>_. [\<lparr>RegionNode = 1, StartAddress = 0x100, EndAddress = 0x1FF\<rparr>, \<lparr>RegionNode = 2, StartAddress = 0x300, EndAddress = 0x30F\<rparr>])"

theorem address_conflicts_counted_witness:
  "unat (AcpiUtCheckAddressRange 1 0x1F0 0x20 two_ranges) =
    length (filter (\<lambda>r. addresses 0x1F0 0x20 \<inter> range_addresses r \<noteq> {}) (two_ranges 1)) \<and> AcpiUtCheckAddressRange 1 0x1F0 0x20 two_ranges = 1"
proof
  show "unat (AcpiUtCheckAddressRange 1 0x1F0 0x20 two_ranges) =
    length (filter (\<lambda>r. addresses 0x1F0 0x20 \<inter> range_addresses r \<noteq> {}) (two_ranges 1))"
    by (rule address_conflicts_counted) (simp_all add: range_space_def ACPI_ADR_SPACE_SYSTEM_IO_def proper_range_def two_ranges_def)
qed code_simp

theorem address_range_add_remove_witness:
  "\<exists>L' mi' s'. AcpiUtAddAddressRange (\<lambda>_. Ret 0x1000) set_os 5 1 0x60 4 9 two_ranges free_mutexes8 {} = Ret (AE_OK, L', mi', s') \<and>
    AcpiUtRemoveAddressRange 1 9 L' = two_ranges"
  using address_range_add_remove [OF _ _ _ _ _ set_os_caches(2), of 1 "0x60" 4 "\<lambda>_. Ret 0x1000" "0x1000" two_ranges 9]
  by (auto simp: range_space_def ACPI_ADR_SPACE_SYSTEM_IO_def proper_range_def two_ranges_def)

theorem empty_range_conflicts_witness: "unat (AcpiUtCheckAddressRange 1 0 0 two_ranges) = 2"
  using empty_range_conflicts [of 1 two_ranges] by (simp add: range_space_def ACPI_ADR_SPACE_SYSTEM_IO_def two_ranges_def)

theorem strtoul64_hex_witness:
  "\<exists>k \<le> 3. AcpiUtStrtoul64 div_64_by_32 4 [0x20, 0x31, 0x66, 0x41] 16 = Ret (Inr (of_nat (digits_value 16 (take k [1, 15, 10]))))"
proof -
  have "digits 16 [0x31, 0x66, 0x41] = [1, 15, 10]" by code_simp
  moreover have "all_digits 16 [0x31, 0x66, 0x41]" "\<forall>c \<in> set [0x20]. is_blank c" by code_simp+
  ultimately show ?thesis using strtoul64_hex [of "[0x20]" "[0x31, 0x66, 0x41]" 4] by (auto simp: eval_nat_numeral)
qed

theorem strtoul64_decimal_witness:
  "AcpiUtStrtoul64 div_64_by_32 4 [0x09, 0x34, 0x32] ACPI_ANY_BASE = Ret (Inr 42)"
proof -
  have "digits 10 [0x34, 0x32] = [4, 2]" by code_simp
  moreover have "all_digits 10 [0x34, 0x32]" "\<forall>c \<in> set [0x09]. is_blank c" by code_simp+
  ultimately show ?thesis using strtoul64_decimal [of "[0x09]" "[0x34, 0x32]" 4] by (simp add: digits_value_def max_integer_def)
qed

end
