(* ===== verification/AcpiCache.thy ===== *)
theory AcpiCache
  imports AcpiMutex
begin

text \<open>
  The object caches (utilities/utcache.c). The objects of a cache are linked through a field inside them from \<open>ListHead\<close>
  on; the model keeps their addresses in this order. The contents of a cached object are of no use, and
  an object that is acquired is zeroed. \<open>alloc\<close> allocates a block, whose address is 0 when there is no memory, and
  \<open>os\<close>, \<open>t\<close> and \<open>mi\<close> are the operating system, the running thread and the predefined mutexes.
\<close>

record cache =
  ListName :: u32
  ListHead :: "u32 list"
  ObjectSize :: u16
  MaxDepth :: u16
  CurrentDepth :: u16
  LinkOffset :: u16

definition AcpiOsCreateCache :: "(u32 \<Rightarrow> u32 outcome) \<Rightarrow> u32 \<Rightarrow> u16 \<Rightarrow> u16 \<Rightarrow> (ACPI_STATUS + cache) outcome" where
  "AcpiOsCreateCache alloc CacheName Size Depth =
     (if CacheName = 0 \<or> Size < 16 then Ret (Inl AE_BAD_PARAMETER)
      else obind (alloc 16) (\<lambda>p.
        if p = 0 then Ret (Inl AE_NO_MEMORY)
        else Ret (Inr \<lparr>ListName = CacheName, ListHead = [], ObjectSize = Size, MaxDepth = Depth, CurrentDepth = 0, LinkOffset = 8\<rparr>)))"

text \<open>The loop that frees the objects; the result is the cache and the addresses of the freed objects.\<close>

fun purge :: "cache \<Rightarrow> u32 list \<Rightarrow> cache \<times> u32 list" where
  "purge c [] = (c\<lparr>ListHead := []\<rparr>, [])"
| "purge c (x # xs) = (let (c, freed) = purge (c\<lparr>CurrentDepth := CurrentDepth c - 1\<rparr>) xs in (c, x # freed))"

definition AcpiOsPurgeCache :: "'o os_locks \<Rightarrow> u64 \<Rightarrow> cache option \<Rightarrow> mutex_info list \<Rightarrow> 'o \<Rightarrow>
  (ACPI_STATUS \<times> cache option \<times> u32 list \<times> mutex_info list \<times> 'o) outcome" where
  "AcpiOsPurgeCache os t Cache mi s =
     (case Cache of None \<Rightarrow> Ret (AE_BAD_PARAMETER, None, [], mi, s)
      | Some c \<Rightarrow> obind (AcpiUtAcquireMutex os t ACPI_MTX_CACHES mi s) (\<lambda>(st, mi, s).
          if st \<noteq> AE_OK then Ret (st, Some c, [], mi, s)
          else let (c, freed) = purge c (ListHead c); (_, mi, s) = AcpiUtReleaseMutex os ACPI_MTX_CACHES mi s
               in Ret (AE_OK, Some c, freed, mi, s)))"

definition AcpiOsDeleteCache :: "'o os_locks \<Rightarrow> u64 \<Rightarrow> cache option \<Rightarrow> mutex_info list \<Rightarrow> 'o \<Rightarrow>
  (ACPI_STATUS \<times> cache option \<times> u32 list \<times> mutex_info list \<times> 'o) outcome" where
  "AcpiOsDeleteCache os t Cache mi s =
     obind (AcpiOsPurgeCache os t Cache mi s) (\<lambda>(st, c, freed, mi, s).
     if st \<noteq> AE_OK then Ret (st, c, freed, mi, s) else Ret (AE_OK, None, freed, mi, s))"

definition AcpiOsReleaseObject :: "'o os_locks \<Rightarrow> u64 \<Rightarrow> cache option \<Rightarrow> u32 \<Rightarrow> mutex_info list \<Rightarrow> 'o \<Rightarrow>
  (ACPI_STATUS \<times> cache option \<times> mutex_info list \<times> 'o) outcome" where
  "AcpiOsReleaseObject os t Cache Object mi s =
     (case Cache of None \<Rightarrow> Ret (AE_BAD_PARAMETER, None, mi, s)
      | Some c \<Rightarrow>
          if Object = 0 then Ret (AE_BAD_PARAMETER, Some c, mi, s)
          else if CurrentDepth c \<ge> MaxDepth c then Ret (AE_OK, Some c, mi, s)
          else obind (AcpiUtAcquireMutex os t ACPI_MTX_CACHES mi s) (\<lambda>(st, mi, s).
            if st \<noteq> AE_OK then Ret (st, Some c, mi, s)
            else let c = c\<lparr>ListHead := Object # ListHead c, CurrentDepth := CurrentDepth c + 1\<rparr>;
                     (_, mi, s) = AcpiUtReleaseMutex os ACPI_MTX_CACHES mi s
                 in Ret (AE_OK, Some c, mi, s)))"

text \<open>The address of the object, 0 for NULL.\<close>

definition AcpiOsAcquireObject :: "(u32 \<Rightarrow> u32 outcome) \<Rightarrow> 'o os_locks \<Rightarrow> u64 \<Rightarrow> cache option \<Rightarrow> mutex_info list \<Rightarrow> 'o \<Rightarrow>
  (u32 \<times> cache option \<times> mutex_info list \<times> 'o) outcome" where
  "AcpiOsAcquireObject alloc os t Cache mi s =
     (case Cache of None \<Rightarrow> Ret (0, None, mi, s)
      | Some c \<Rightarrow> obind (AcpiUtAcquireMutex os t ACPI_MTX_CACHES mi s) (\<lambda>(st, mi, s).
          if st \<noteq> AE_OK then Ret (0, Some c, mi, s)
          else (case ListHead c of
              Object # rest \<Rightarrow>
                let c = c\<lparr>ListHead := rest, CurrentDepth := CurrentDepth c - 1\<rparr>;
                    (st, mi, s) = AcpiUtReleaseMutex os ACPI_MTX_CACHES mi s
                in Ret (if st \<noteq> AE_OK then 0 else Object, Some c, mi, s)
            | [] \<Rightarrow>
                let (st, mi, s) = AcpiUtReleaseMutex os ACPI_MTX_CACHES mi s
                in if st \<noteq> AE_OK then Ret (0, Some c, mi, s)
                   else obind (alloc (ucast (ObjectSize c))) (\<lambda>p. Ret (p, Some c, mi, s)))))"

section \<open>A cache is a pool of objects that nobody uses\<close>

text \<open>\<open>used\<close> are the objects that are in use outside the cache.\<close>

definition pool :: "u32 set \<Rightarrow> cache \<Rightarrow> bool" where
  "pool used c \<longleftrightarrow> distinct (ListHead c) \<and> set (ListHead c) \<inter> used = {} \<and> 0 \<notin> set (ListHead c) \<and>
     unat (CurrentDepth c) = length (ListHead c) \<and> CurrentDepth c \<le> MaxDepth c"

definition caches_free :: "'o os_locks \<Rightarrow> u64 \<Rightarrow> mutex_info list \<Rightarrow> 'o \<Rightarrow> bool" where
  "caches_free os t mi s \<longleftrightarrow> (\<exists>mi' s'. AcpiUtAcquireMutex os t ACPI_MTX_CACHES mi s = Ret (AE_OK, mi', s') \<and>
     fst (AcpiUtReleaseMutex os ACPI_MTX_CACHES mi' s') = AE_OK)"

lemma caches_freeE:
  assumes "caches_free os t mi s"
  obtains mi1 s1 mi2 s2 where "AcpiUtAcquireMutex os t ACPI_MTX_CACHES mi s = Ret (AE_OK, mi1, s1)"
    and "AcpiUtReleaseMutex os ACPI_MTX_CACHES mi1 s1 = (AE_OK, mi2, s2)"
proof -
  obtain mi1 s1 where a: "AcpiUtAcquireMutex os t ACPI_MTX_CACHES mi s = Ret (AE_OK, mi1, s1)"
    "fst (AcpiUtReleaseMutex os ACPI_MTX_CACHES mi1 s1) = AE_OK"
    using assms by (auto simp: caches_free_def)
  obtain x mi2 s2 where "AcpiUtReleaseMutex os ACPI_MTX_CACHES mi1 s1 = (x, mi2, s2)" by (rule prod_cases3)
  then show ?thesis using a that by simp
qed

lemma depth_pred: "d \<noteq> 0 \<Longrightarrow> unat ((d :: u16) - 1) = unat d - 1"
  by (rule unat_minus_one)

lemma acquire_from_pool:
  assumes "pool used c" and "caches_free os t mi s"
    and "alloc (ucast (ObjectSize c)) = Ret p" and "p \<notin> used" and "p \<noteq> 0"
  shows "\<exists>x c' mi' s'. AcpiOsAcquireObject alloc os t (Some c) mi s = Ret (x, Some c', mi', s') \<and>
    x \<noteq> 0 \<and> x \<notin> used \<and> pool (insert x used) c' \<and> (if ListHead c = [] then x = p \<and> c' = c else x = hd (ListHead c))"
proof -
  obtain mi1 s1 mi2 s2 where l: "AcpiUtAcquireMutex os t ACPI_MTX_CACHES mi s = Ret (AE_OK, mi1, s1)"
    "AcpiUtReleaseMutex os ACPI_MTX_CACHES mi1 s1 = (AE_OK, mi2, s2)"
    using assms(2) by (rule caches_freeE)
  show ?thesis
  proof (cases "ListHead c")
    case Nil
    then have "AcpiOsAcquireObject alloc os t (Some c) mi s = Ret (p, Some c, mi2, s2)"
      by (simp add: AcpiOsAcquireObject_def l assms(3))
    then show ?thesis using Nil assms(1,4,5) by (simp add: pool_def)
  next
    case (Cons x rest)
    let ?c = "c\<lparr>ListHead := rest, CurrentDepth := CurrentDepth c - 1\<rparr>"
    have d: "CurrentDepth c \<noteq> 0" "unat (CurrentDepth c) = Suc (length rest)"
      using assms(1) Cons by (auto simp: pool_def)
    have "unat (CurrentDepth c - 1) = length rest" using depth_pred [OF d(1)] d(2) by simp
    moreover have "CurrentDepth c - 1 \<le> MaxDepth c"
    proof -
      have "unat (CurrentDepth c) \<le> unat (MaxDepth c)" using assms(1) by (simp add: pool_def word_le_nat_alt)
      then show ?thesis unfolding word_le_nat_alt depth_pred [OF d(1)] by linarith
    qed
    ultimately have "pool (insert x used) ?c" using assms(1) Cons by (auto simp: pool_def)
    moreover have "AcpiOsAcquireObject alloc os t (Some c) mi s = Ret (x, Some ?c, mi2, s2)"
      by (simp add: AcpiOsAcquireObject_def l Cons)
    ultimately show ?thesis using assms(1) Cons by (auto simp: pool_def)
  qed
qed

text \<open>
  C33. An object that is acquired is not in use, whether it comes from the cache or from an allocation that gives new
  blocks, and only an empty cache allocates; the cache stays a pool of objects that nobody uses.
\<close>

theorem acquire_object_fresh:
  assumes "pool used c" and "caches_free os t mi s"
    and "alloc (ucast (ObjectSize c)) = Ret p" and "p \<notin> used" and "p \<noteq> 0"
  shows "\<exists>x c' mi' s'. AcpiOsAcquireObject alloc os t (Some c) mi s = Ret (x, Some c', mi', s') \<and>
    x \<noteq> 0 \<and> x \<notin> used \<and> pool (insert x used) c' \<and> (if ListHead c = [] then x = p \<and> c' = c else x = hd (ListHead c))"
  using assms by (rule acquire_from_pool)

text \<open>
  An object in use that is released goes to the cache, unless the cache is full, which then frees
  it; a cache that has taken it hands it out first.
\<close>

theorem release_object_reused:
  assumes "pool used c" and "x \<in> used" and "x \<noteq> 0" and "caches_free os t mi s" and "CurrentDepth c < MaxDepth c"
  shows "\<exists>c' mi' s'. AcpiOsReleaseObject os t (Some c) x mi s = Ret (AE_OK, Some c', mi', s') \<and> pool (used - {x}) c' \<and>
    (caches_free os t mi' s' \<longrightarrow> (\<exists>mi'' s''. AcpiOsAcquireObject alloc os t (Some c') mi' s' = Ret (x, Some c, mi'', s'')))"
proof -
  obtain mi1 s1 mi2 s2 where l: "AcpiUtAcquireMutex os t ACPI_MTX_CACHES mi s = Ret (AE_OK, mi1, s1)"
    "AcpiUtReleaseMutex os ACPI_MTX_CACHES mi1 s1 = (AE_OK, mi2, s2)"
    using assms(4) by (rule caches_freeE)
  let ?c = "c\<lparr>ListHead := x # ListHead c, CurrentDepth := CurrentDepth c + 1\<rparr>"
  have "unat (CurrentDepth c + 1) = Suc (unat (CurrentDepth c))" using assms(5) by (rule unat_Suc_word)
  moreover have "CurrentDepth c + 1 \<le> MaxDepth c" using calculation assms(5) unfolding word_le_nat_alt word_less_nat_alt by simp
  ultimately have "pool (used - {x}) ?c" using assms(1-3) by (auto simp: pool_def)
  moreover have "AcpiOsReleaseObject os t (Some c) x mi s = Ret (AE_OK, Some ?c, mi2, s2)"
  proof -
    have "\<not> MaxDepth c \<le> CurrentDepth c" using assms(5) by simp
    then show ?thesis using assms(3) by (simp add: AcpiOsReleaseObject_def l)
  qed
  moreover have "\<exists>mi'' s''. AcpiOsAcquireObject alloc os t (Some ?c) mi2 s2 = Ret (x, Some c, mi'', s'')" if f: "caches_free os t mi2 s2"
  proof -
    obtain mi3 s3 mi4 s4 where "AcpiUtAcquireMutex os t ACPI_MTX_CACHES mi2 s2 = Ret (AE_OK, mi3, s3)"
      "AcpiUtReleaseMutex os ACPI_MTX_CACHES mi3 s3 = (AE_OK, mi4, s4)"
      by (rule caches_freeE [OF f])
    then show ?thesis by (simp add: AcpiOsAcquireObject_def)
  qed
  ultimately show ?thesis by blast
qed

section \<open>At concrete inputs\<close>

definition sample_cache :: cache where
  "sample_cache = \<lparr>ListName = 1, ListHead = [0x100], ObjectSize = 28, MaxDepth = 4, CurrentDepth = 1, LinkOffset = 8\<rparr>"

lemma sample_caches_free: "caches_free set_os 5 (replicate 8 free_mutex) {}"
proof -
  let ?mi = "replicate 8 free_mutex"
  have b: "AcpiUtAcquireMutex set_os 5 ACPI_MTX_CACHES ?mi {} = Ret (AE_OK, mark_acquired 5 4 ?mi, {1})"
    by (simp add: AcpiUtAcquireMutex_def ACPI_MTX_CACHES_def ACPI_MAX_MUTEX_def set_os_def free_mutex_def)
  have "fst (AcpiUtReleaseMutex set_os ACPI_MTX_CACHES (mark_acquired 5 4 ?mi) {1}) = AE_OK"
    by (simp add: AcpiUtReleaseMutex_def ACPI_MTX_CACHES_def ACPI_MAX_MUTEX_def ThreadId_mark ACPI_MUTEX_NOT_ACQUIRED_def)
  then show ?thesis using b by (auto simp: caches_free_def)
qed

lemma sample_pool: "pool {0x200} sample_cache"
  by (simp add: pool_def sample_cache_def)

theorem acquire_object_fresh_witness:
  "\<exists>c' mi' s'. AcpiOsAcquireObject (\<lambda>_. Ret 0x300) set_os 5 (Some sample_cache) (replicate 8 free_mutex) {} = Ret (0x100, Some c', mi', s')
    \<and> pool {0x100, 0x200} c'"
  using acquire_object_fresh [OF sample_pool sample_caches_free, of "\<lambda>_. Ret 0x300" "0x300"]
  by (auto simp: sample_cache_def)

theorem release_object_reused_witness:
  "\<exists>c' mi' s'. AcpiOsReleaseObject set_os 5 (Some sample_cache) 0x200 (replicate 8 free_mutex) {} = Ret (AE_OK, Some c', mi', s') \<and> pool {} c'"
proof -
  have "0x200 \<in> {0x200 :: u32}" "(0x200 :: u32) \<noteq> 0" "CurrentDepth sample_cache < MaxDepth sample_cache"
    by (simp_all add: sample_cache_def)
  from release_object_reused [OF sample_pool this(1,2) sample_caches_free this(3)] show ?thesis by fastforce
qed

end
