(* ===== verification/AcpiNamespace.thy ===== *)
theory AcpiNamespace
  imports AcpiCache AcpiName
begin

text \<open>
  The ACPI namespace: a tree of nodes that are linked by the pointers Parent, Child and Peer (aclocal.h).
  The creation and the installation of a node (namespace/nsalloc.c), the search for a name (namespace/nssearch.c), the
  walk over the tree (namespace/nswalk.c) and the path of a node (namespace/nsnames.c). A pointer is a 32-bit address,
  NULL is 0, and the memory of the nodes is a partial function: an access through another pointer is a \<open>Trap\<close>.
\<close>

section \<open>Nodes\<close>

definition AE_CTRL_TERMINATE :: ACPI_STATUS where "AE_CTRL_TERMINATE = 0x4003"
definition AE_CTRL_DEPTH :: ACPI_STATUS where "AE_CTRL_DEPTH = 0x4006"

definition ACPI_TYPE_ANY :: u32 where "ACPI_TYPE_ANY = 0"
definition ACPI_TYPE_LOCAL_METHOD_ALIAS :: u32 where "ACPI_TYPE_LOCAL_METHOD_ALIAS = 0x16"
definition ACPI_TYPE_LOCAL_MAX :: u32 where "ACPI_TYPE_LOCAL_MAX = 0x1D"

definition ANOBJ_TEMPORARY :: u8 where "ANOBJ_TEMPORARY = 0x02"
definition ACPI_DESC_TYPE_NAMED :: u8 where "ACPI_DESC_TYPE_NAMED = 0x0F"
definition ACPI_METHOD_MODIFIED_NAMESPACE :: u8 where "ACPI_METHOD_MODIFIED_NAMESPACE = 0x10"

definition ACPI_NS_NORMAL :: u8 where "ACPI_NS_NORMAL = 0"
definition ACPI_NS_NEWSCOPE :: u8 where "ACPI_NS_NEWSCOPE = 1"
definition ACPI_NS_LOCAL :: u8 where "ACPI_NS_LOCAL = 2"

definition ACPI_NS_SEARCH_PARENT :: u32 where "ACPI_NS_SEARCH_PARENT = 0x01"
definition ACPI_NS_ERROR_IF_FOUND :: u32 where "ACPI_NS_ERROR_IF_FOUND = 0x08"
definition ACPI_NS_TEMPORARY :: u32 where "ACPI_NS_TEMPORARY = 0x40"
definition ACPI_NS_WALK_UNLOCK :: u32 where "ACPI_NS_WALK_UNLOCK = 0x01"
definition ACPI_NS_WALK_TEMP_NODES :: u32 where "ACPI_NS_WALK_TEMP_NODES = 0x02"

datatype interpreter_mode = ACPI_IMODE_LOAD_PASS1 | ACPI_IMODE_LOAD_PASS2 | ACPI_IMODE_EXECUTE

record node =
  NodeObject :: u32
  DescriptorType :: u8
  NodeType :: u8
  NodeFlags :: u8
  NodeOwner :: u8
  NodeName :: u32
  NodeParent :: u32
  NodeChild :: u32
  NodePeer :: u32

type_synonym heap = "u32 \<Rightarrow> node option"

definition get_node :: "heap \<Rightarrow> u32 \<Rightarrow> node outcome" where
  "get_node h p = (case h p of None \<Rightarrow> Trap | Some n \<Rightarrow> Ret n)"

definition set_node :: "u32 \<Rightarrow> (node \<Rightarrow> node) \<Rightarrow> heap \<Rightarrow> heap outcome" where
  "set_node p f h = (case h p of None \<Rightarrow> Trap | Some n \<Rightarrow> Ret (h(p \<mapsto> f n)))"

definition zero_node :: node where
  "zero_node = \<lparr>NodeObject = 0, DescriptorType = 0, NodeType = 0, NodeFlags = 0, NodeOwner = 0, NodeName = 0,
     NodeParent = 0, NodeChild = 0, NodePeer = 0\<rparr>"

section \<open>Scope rules of the types\<close>

definition AcpiGbl_NsProperties :: "u8 list" where
  "AcpiGbl_NsProperties =
    [ACPI_NS_NORMAL, ACPI_NS_NORMAL, ACPI_NS_NORMAL, ACPI_NS_NORMAL, ACPI_NS_NORMAL, ACPI_NS_NORMAL, ACPI_NS_NEWSCOPE, ACPI_NS_NORMAL,
     ACPI_NS_NEWSCOPE, ACPI_NS_NORMAL, ACPI_NS_NORMAL, ACPI_NS_NEWSCOPE, ACPI_NS_NEWSCOPE, ACPI_NS_NEWSCOPE, ACPI_NS_NORMAL, ACPI_NS_NORMAL,
     ACPI_NS_NORMAL, ACPI_NS_NORMAL, ACPI_NS_NORMAL, ACPI_NS_NORMAL, ACPI_NS_NORMAL, ACPI_NS_NORMAL, ACPI_NS_NORMAL, ACPI_NS_NORMAL,
     ACPI_NS_NORMAL, ACPI_NS_NEWSCOPE OR ACPI_NS_LOCAL, ACPI_NS_NEWSCOPE OR ACPI_NS_LOCAL, ACPI_NS_NEWSCOPE, ACPI_NS_NORMAL, ACPI_NS_NORMAL,
     ACPI_NS_NORMAL]"

definition AcpiUtValidObjectType :: "u32 \<Rightarrow> bool" where "AcpiUtValidObjectType Ty \<longleftrightarrow> \<not> Ty > ACPI_TYPE_LOCAL_MAX"

definition AcpiNsLocal :: "u32 \<Rightarrow> u32" where
  "AcpiNsLocal Ty = (if \<not> AcpiUtValidObjectType Ty then ucast ACPI_NS_NORMAL else ucast (AcpiGbl_NsProperties ! unat Ty) AND ucast ACPI_NS_LOCAL)"

definition AcpiNsOpensScope :: "u32 \<Rightarrow> u32" where
  "AcpiNsOpensScope Ty = (if \<not> AcpiUtValidObjectType Ty then ucast ACPI_NS_NORMAL else ucast (AcpiGbl_NsProperties ! unat Ty) AND ucast ACPI_NS_NEWSCOPE)"

definition AcpiNsGetType :: "heap \<Rightarrow> u32 \<Rightarrow> u32 outcome" where
  "AcpiNsGetType h Node = (if Node = 0 then Ret ACPI_TYPE_ANY else obind (get_node h Node) (\<lambda>n. Ret (ucast (NodeType n))))"

section \<open>Searching\<close>

text \<open>The loop over the peers from \<open>p\<close> on; it is not left on a cyclic list.\<close>

partial_function (option) search_peers :: "heap \<Rightarrow> u32 \<Rightarrow> u32 \<Rightarrow> u32 option outcome option" where
  "search_peers h TargetName p =
     (if p = 0 then Some (Ret None)
      else case h p of None \<Rightarrow> Some Trap
        | Some n \<Rightarrow>
            if NodeName n = TargetName
            then Some (Ret (Some (if ucast (NodeType n) = ACPI_TYPE_LOCAL_METHOD_ALIAS then NodeObject n else p)))
            else search_peers h TargetName (NodePeer n))"

text \<open>The node that is found; \<open>None\<close> is the status AE_NOT_FOUND.\<close>

definition AcpiNsSearchOneScope :: "heap \<Rightarrow> u32 \<Rightarrow> u32 \<Rightarrow> u32 option outcome" where
  "AcpiNsSearchOneScope h TargetName ParentNode =
     obind (get_node h ParentNode) (\<lambda>n. of_loop (search_peers h TargetName (NodeChild n)))"

partial_function (option) search_scopes :: "heap \<Rightarrow> u32 \<Rightarrow> u32 \<Rightarrow> u32 option outcome option" where
  "search_scopes h TargetName ParentNode =
     (if ParentNode = 0 then Some (Ret None)
      else case AcpiNsSearchOneScope h TargetName ParentNode of
          Ret None \<Rightarrow> (case h ParentNode of None \<Rightarrow> Some Trap | Some n \<Rightarrow> search_scopes h TargetName (NodeParent n))
        | r \<Rightarrow> Some r)"

definition AcpiNsSearchParentTree :: "heap \<Rightarrow> u32 \<Rightarrow> u32 \<Rightarrow> u32 \<Rightarrow> u32 option outcome" where
  "AcpiNsSearchParentTree h TargetName Node Ty =
     obind (get_node h Node) (\<lambda>n.
     if NodeParent n = 0 then Ret None
     else if AcpiNsLocal Ty \<noteq> 0 then Ret None
     else of_loop (search_scopes h TargetName (NodeParent n)))"

section \<open>Creating and installing\<close>

text \<open>
  The state of a walk: the owner, the method that is executed, and the node of that method. \<open>InfoFlags\<close> are the
  flags of the method objects, by the address of the object.
\<close>

record walk_state =
  WalkOwnerId :: u8
  MethodDesc :: u32
  MethodNode :: u32

record namespace =
  nodes :: heap
  InfoFlags :: "u32 \<Rightarrow> u8"
  NamespaceCache :: "cache option"

definition AcpiNsCreateNode :: "(u32 \<Rightarrow> u32 outcome) \<Rightarrow> 'o os_locks \<Rightarrow> u64 \<Rightarrow> u32 \<Rightarrow> namespace \<Rightarrow> mutex_info list \<Rightarrow> 'o \<Rightarrow>
  (u32 \<times> namespace \<times> mutex_info list \<times> 'o) outcome" where
  "AcpiNsCreateNode alloc os t TargetName ns mi s =
     obind (AcpiOsAcquireObject alloc os t (NamespaceCache ns) mi s) (\<lambda>(p, c, mi, s).
     let ns = ns\<lparr>NamespaceCache := c\<rparr>
     in if p = 0 then Ret (0, ns, mi, s)
        else Ret (p, ns\<lparr>nodes := (nodes ns)(p \<mapsto> zero_node\<lparr>NodeName := TargetName, DescriptorType := ACPI_DESC_TYPE_NAMED\<rparr>)\<rparr>, mi, s))"

partial_function (option) last_peer :: "heap \<Rightarrow> u32 \<Rightarrow> u32 outcome option" where
  "last_peer h p = (case h p of None \<Rightarrow> Some Trap | Some n \<Rightarrow> if NodePeer n = 0 then Some (Ret p) else last_peer h (NodePeer n))"

definition AcpiNsInstallNode :: "walk_state option \<Rightarrow> u32 \<Rightarrow> u32 \<Rightarrow> u32 \<Rightarrow> namespace \<Rightarrow> namespace outcome" where
  "AcpiNsInstallNode WalkState ParentNode Node Ty ns =
     (let OwnerId = (case WalkState of None \<Rightarrow> 0 | Some w \<Rightarrow> WalkOwnerId w);
          ns = (case WalkState of None \<Rightarrow> ns
                | Some w \<Rightarrow> if MethodDesc w \<noteq> 0 \<and> ParentNode \<noteq> MethodNode w
                    then ns\<lparr>InfoFlags := (InfoFlags ns)(MethodDesc w := InfoFlags ns (MethodDesc w) OR ACPI_METHOD_MODIFIED_NAMESPACE)\<rparr>
                    else ns)
      in obind (set_node Node (\<lambda>n. n\<lparr>NodePeer := 0, NodeParent := ParentNode\<rparr>) (nodes ns)) (\<lambda>h.
         obind (get_node h ParentNode) (\<lambda>pn.
         obind (if NodeChild pn = 0 then set_node ParentNode (\<lambda>n. n\<lparr>NodeChild := Node\<rparr>) h
                else obind (of_loop (last_peer h (NodeChild pn))) (\<lambda>ChildNode. set_node ChildNode (\<lambda>n. n\<lparr>NodePeer := Node\<rparr>) h)) (\<lambda>h.
         obind (set_node Node (\<lambda>n. n\<lparr>NodeOwner := OwnerId, NodeType := ucast Ty\<rparr>) h) (\<lambda>h.
         Ret (ns\<lparr>nodes := h\<rparr>))))))"

text \<open>A name as its four bytes, the first one lowest, and the repair of its bytes.\<close>

definition name_bytes :: "u32 \<Rightarrow> u8 list" where
  "name_bytes w = map (\<lambda>i. ucast (drop_bit (8 * i) w)) [0..<4]"

definition name_word :: "u8 list \<Rightarrow> u32" where
  "name_word b = ucast (b ! 0) OR push_bit 8 (ucast (b ! 1)) OR push_bit 16 (ucast (b ! 2)) OR push_bit 24 (ucast (b ! 3))"

text \<open>The status, the node that is returned, and the state after the call.\<close>

definition AcpiNsSearchAndEnter :: "(u32 \<Rightarrow> u32 outcome) \<Rightarrow> 'o os_locks \<Rightarrow> u64 \<Rightarrow> u32 \<Rightarrow> walk_state option \<Rightarrow> u32 \<Rightarrow> interpreter_mode \<Rightarrow>
  u32 \<Rightarrow> u32 \<Rightarrow> namespace \<Rightarrow> mutex_info list \<Rightarrow> 'o \<Rightarrow> (ACPI_STATUS \<times> u32 option \<times> namespace \<times> mutex_info list \<times> 'o) outcome" where
  "AcpiNsSearchAndEnter alloc os t TargetName WalkState Node InterpreterMode Ty Flags ns mi s =
     (if Node = 0 \<or> TargetName = 0 then Ret (AE_BAD_PARAMETER, None, ns, mi, s)
      else let TargetName = name_word (AcpiUtRepairName (name_bytes TargetName)) in
        obind (AcpiNsSearchOneScope (nodes ns) TargetName Node) (\<lambda>r. case r of
          Some p \<Rightarrow> Ret (if Flags AND ACPI_NS_ERROR_IF_FOUND \<noteq> 0 then AE_ALREADY_EXISTS else AE_OK, Some p, ns, mi, s)
        | None \<Rightarrow>
            obind (if InterpreterMode \<noteq> ACPI_IMODE_LOAD_PASS1 \<and> Flags AND ACPI_NS_SEARCH_PARENT \<noteq> 0
                   then AcpiNsSearchParentTree (nodes ns) TargetName Node Ty else Ret None) (\<lambda>r. case r of
              Some p \<Rightarrow> Ret (AE_OK, Some p, ns, mi, s)
            | None \<Rightarrow>
                if InterpreterMode = ACPI_IMODE_EXECUTE then Ret (AE_NOT_FOUND, None, ns, mi, s)
                else obind (AcpiNsCreateNode alloc os t TargetName ns mi s) (\<lambda>(NewNode, ns, mi, s).
                  if NewNode = 0 then Ret (AE_NO_MEMORY, None, ns, mi, s)
                  else obind (if Flags AND ACPI_NS_TEMPORARY \<noteq> 0
                              then set_node NewNode (\<lambda>n. n\<lparr>NodeFlags := NodeFlags n OR ANOBJ_TEMPORARY\<rparr>) (nodes ns)
                              else Ret (nodes ns)) (\<lambda>h.
                       obind (AcpiNsInstallNode WalkState Node NewNode Ty (ns\<lparr>nodes := h\<rparr>)) (\<lambda>ns.
                       Ret (AE_OK, Some NewNode, ns, mi, s)))))))"

section \<open>The walk\<close>

definition AcpiNsGetNextNode :: "heap \<Rightarrow> u32 \<Rightarrow> u32 \<Rightarrow> u32 outcome" where
  "AcpiNsGetNextNode h ParentNode ChildNode =
     (if ChildNode = 0 then obind (get_node h ParentNode) (\<lambda>n. Ret (NodeChild n))
      else obind (get_node h ChildNode) (\<lambda>n. Ret (NodePeer n)))"

partial_function (option) next_typed :: "heap \<Rightarrow> u32 \<Rightarrow> u32 \<Rightarrow> u32 outcome option" where
  "next_typed h Ty p =
     (if p = 0 then Some (Ret 0)
      else case h p of None \<Rightarrow> Some Trap
        | Some n \<Rightarrow> if ucast (NodeType n) = Ty then Some (Ret p) else next_typed h Ty (NodePeer n))"

definition AcpiNsGetNextNodeTyped :: "heap \<Rightarrow> u32 \<Rightarrow> u32 \<Rightarrow> u32 \<Rightarrow> u32 outcome" where
  "AcpiNsGetNextNodeTyped h Ty ParentNode ChildNode =
     obind (AcpiNsGetNextNode h ParentNode ChildNode) (\<lambda>p. if Ty = ACPI_TYPE_ANY then Ret p else of_loop (next_typed h Ty p))"

text \<open>
  The parameters of a walk that do not change. A callback gets the node and the level, returns a status and
  changes what the caller keeps in \<open>Context\<close> and \<open>ReturnValue\<close>; it does not change the tree.
\<close>

record 'c walk =
  WalkType :: u32
  WalkDepth :: u32
  WalkFlags :: u32
  PreOrderVisit :: "(u32 \<Rightarrow> u32 \<Rightarrow> 'c \<Rightarrow> ACPI_STATUS \<times> 'c) option"
  PostOrderVisit :: "(u32 \<Rightarrow> u32 \<Rightarrow> 'c \<Rightarrow> ACPI_STATUS \<times> 'c) option"

text \<open>
  The visit of a node in one round of the loop, with the namespace unlocked around the callback when the flags ask for
  it. \<open>Inl\<close> leaves the walk with a status, \<open>Inr\<close> is the status of the visit.
\<close>

definition visit_node :: "'o os_locks \<Rightarrow> u64 \<Rightarrow> 'c walk \<Rightarrow> heap \<Rightarrow> u32 \<Rightarrow> u32 \<Rightarrow> bool \<Rightarrow> 'c \<times> mutex_info list \<times> 'o \<Rightarrow>
  ((ACPI_STATUS + ACPI_STATUS) \<times> ('c \<times> mutex_info list \<times> 'o)) outcome" where
  "visit_node os t w h ChildNode Level Visited z =
     obind (get_node h ChildNode) (\<lambda>n.
     let ChildType = (if WalkType w \<noteq> ACPI_TYPE_ANY then ucast (NodeType n) else ACPI_TYPE_ANY) in
     if NodeFlags n AND ANOBJ_TEMPORARY \<noteq> 0 \<and> WalkFlags w AND ACPI_NS_WALK_TEMP_NODES = 0 then Ret (Inr AE_CTRL_DEPTH, z)
     else if ChildType = WalkType w
     then let (x, mi, s) = z;
              unlock = (WalkFlags w AND ACPI_NS_WALK_UNLOCK \<noteq> 0);
              (mst, mi, s) = (if unlock then AcpiUtReleaseMutex os ACPI_MTX_NAMESPACE mi s else (AE_OK, mi, s))
          in if mst \<noteq> AE_OK then Ret (Inl mst, x, mi, s)
             else let (st, x) = (case if Visited then PostOrderVisit w else PreOrderVisit w of
                                   None \<Rightarrow> (AE_OK, x) | Some f \<Rightarrow> f ChildNode Level x)
               in obind (if unlock then AcpiUtAcquireMutex os t ACPI_MTX_NAMESPACE mi s else Ret (AE_OK, mi, s)) (\<lambda>(mst, mi, s).
                  Ret (if mst \<noteq> AE_OK then Inl mst
                       else if st = AE_OK \<or> st = AE_CTRL_DEPTH then Inr st
                       else if st = AE_CTRL_TERMINATE then Inl AE_OK else Inl st, x, mi, s))
     else Ret (Inr AE_OK, z))"

text \<open>One round of the loop: the next parent, child, level and mark.\<close>

definition walk_next :: "u32 \<Rightarrow> heap \<Rightarrow> ACPI_STATUS \<Rightarrow> u32 \<Rightarrow> u32 \<Rightarrow> u32 \<Rightarrow> bool \<Rightarrow> (u32 \<times> u32 \<times> u32 \<times> bool) outcome" where
  "walk_next Depth h Status ParentNode ChildNode Level Visited =
     obind (get_node h ChildNode) (\<lambda>n.
     if \<not> Visited \<and> Level < Depth \<and> Status \<noteq> AE_CTRL_DEPTH \<and> NodeChild n \<noteq> 0
     then obind (AcpiNsGetNextNode h ChildNode 0) (\<lambda>c. Ret (ChildNode, c, Level + 1, Visited))
     else if \<not> Visited then Ret (ParentNode, ChildNode, Level, True)
     else obind (AcpiNsGetNextNode h ParentNode ChildNode) (\<lambda>c.
       if c \<noteq> 0 then Ret (ParentNode, c, Level, False)
       else obind (get_node h ParentNode) (\<lambda>pn. Ret (NodeParent pn, ParentNode, Level - 1, True))))"

text \<open>\<open>visit\<close> is \<open>visit_node\<close>, with the callbacks, on the state \<open>z\<close> of the caller, the mutexes and the operating system.\<close>

partial_function (option) namespace_loop :: "(u32 \<Rightarrow> u32 \<Rightarrow> bool \<Rightarrow> 'z \<Rightarrow> ((ACPI_STATUS + ACPI_STATUS) \<times> 'z) outcome) \<Rightarrow> u32 \<Rightarrow> heap \<Rightarrow>
  u32 \<Rightarrow> u32 \<Rightarrow> u32 \<Rightarrow> bool \<Rightarrow> 'z \<Rightarrow> (ACPI_STATUS \<times> 'z) outcome option" where
  "namespace_loop visit Depth h ParentNode ChildNode Level Visited z =
     (if Level > 0 \<and> ChildNode \<noteq> 0
      then case visit ChildNode Level Visited z of
          Trap \<Rightarrow> Some Trap
        | Hang \<Rightarrow> Some Hang
        | Ret (Inl st, z) \<Rightarrow> Some (Ret (st, z))
        | Ret (Inr st, z) \<Rightarrow> (case walk_next Depth h st ParentNode ChildNode Level Visited of
              Trap \<Rightarrow> Some Trap
            | Hang \<Rightarrow> Some Hang
            | Ret (p, c, l, v) \<Rightarrow> namespace_loop visit Depth h p c l v z)
      else Some (Ret (AE_OK, z)))"

text \<open>\<open>root\<close> is the root node, for which the handle ACPI_ROOT_OBJECT stands.\<close>

definition AcpiNsWalkNamespace :: "'o os_locks \<Rightarrow> u64 \<Rightarrow> 'c walk \<Rightarrow> heap \<Rightarrow> u32 \<Rightarrow> u32 \<Rightarrow> 'c \<times> mutex_info list \<times> 'o \<Rightarrow>
  (ACPI_STATUS \<times> 'c \<times> mutex_info list \<times> 'o) outcome" where
  "AcpiNsWalkNamespace os t w h root StartNode z =
     (let ParentNode = (if StartNode = 0xFFFFFFFF then root else StartNode)
      in obind (AcpiNsGetNextNode h ParentNode 0) (\<lambda>ChildNode.
         of_loop (namespace_loop (visit_node os t w h) (WalkDepth w) h ParentNode ChildNode 1 False z)))"

section \<open>Path names\<close>

partial_function (option) path_length :: "heap \<Rightarrow> u32 \<Rightarrow> u32 \<Rightarrow> u32 \<Rightarrow> u32 option outcome option" where
  "path_length h root p Size =
     (if p = 0 \<or> p = root then Some (Ret (Some Size))
      else case h p of None \<Rightarrow> Some Trap
        | Some n \<Rightarrow> if DescriptorType n \<noteq> ACPI_DESC_TYPE_NAMED then Some (Ret None)
                    else path_length h root (NodeParent n) (Size + 5))"

text \<open>0 is the result for an invalid node.\<close>

definition AcpiNsGetPathnameLength :: "heap \<Rightarrow> u32 \<Rightarrow> u32 \<Rightarrow> u32 outcome" where
  "AcpiNsGetPathnameLength h root Node =
     obind (of_loop (path_length h root Node 0)) (\<lambda>r. case r of
       None \<Rightarrow> Ret 0
     | Some Size \<Rightarrow> Ret ((if Size = 0 then 1 else Size) + 1))"

text \<open>A store of several bytes from index \<open>i\<close> on.\<close>

fun put_bytes :: "nat \<Rightarrow> u8 list \<Rightarrow> u8 list \<Rightarrow> u8 list outcome" where
  "put_bytes i [] b = Ret b"
| "put_bytes i (c # cs) b = obind (put8 i c b) (put_bytes (i + 1) cs)"

text \<open>The loop that builds the name backwards; \<open>i\<close> is the index, which it decreases by 5.\<close>

function build_path :: "heap \<Rightarrow> u32 \<Rightarrow> u32 \<Rightarrow> nat \<Rightarrow> u8 list \<Rightarrow> (nat \<times> u8 list) outcome" where
  "build_path h root p i b =
     (if i > 4 \<and> p \<noteq> root
      then case h p of None \<Rightarrow> Trap
        | Some n \<Rightarrow> obind (put_bytes (i - 4) (name_bytes (NodeName n)) b) (\<lambda>b.
            obind (put8 (i - 5) 0x2E b) (build_path h root (NodeParent n) (i - 5)))
      else Ret (i, b))"
  by pat_completeness auto
termination by (relation "measure (\<lambda>(h, root, p, i, b). i)") auto

declare build_path.simps [simp del]

definition AcpiNsBuildExternalPath :: "heap \<Rightarrow> u32 \<Rightarrow> u32 \<Rightarrow> u32 \<Rightarrow> u8 list \<Rightarrow> (ACPI_STATUS \<times> u8 list) outcome" where
  "AcpiNsBuildExternalPath h root Node Size NameBuffer =
     (let i = unat (Size - 1) in
      if i < 4 then obind (put8 0 0x5C NameBuffer) (\<lambda>b. obind (put8 1 0 b) (\<lambda>b. Ret (AE_OK, b)))
      else obind (put8 i 0 NameBuffer) (\<lambda>b.
           obind (build_path h root Node i b) (\<lambda>(i, b).
           obind (put8 i 0x5C b) (\<lambda>b. Ret (if i \<noteq> 0 then AE_BAD_PARAMETER else AE_OK, b)))))"

text \<open>\<open>None\<close> for NULL.\<close>

definition AcpiNsGetExternalPathname :: "host \<Rightarrow> heap \<Rightarrow> u32 \<Rightarrow> u32 \<Rightarrow> u8 list option outcome" where
  "AcpiNsGetExternalPathname os h root Node =
     obind (AcpiNsGetPathnameLength h root Node) (\<lambda>Size.
     if Size = 0 then Ret None
     else obind (allocate_zeroed os Size) (\<lambda>p.
       if p = 0 then Ret None
       else obind (AcpiNsBuildExternalPath h root Node Size (replicate (unat Size) 0)) (\<lambda>(st, b).
         Ret (if st \<noteq> AE_OK then None else Some b))))"


section \<open>The tree\<close>

text \<open>The tree that the pointers represent: \<open>forest_at h par p ts\<close> is the list of the peers from \<open>p\<close> on, with their children.\<close>

datatype ntree = NTree u32 "ntree list"

fun forest_at :: "heap \<Rightarrow> u32 \<Rightarrow> u32 \<Rightarrow> ntree list \<Rightarrow> bool" where
  "forest_at h par p [] \<longleftrightarrow> p = 0"
| "forest_at h par p (NTree a ch # ts) \<longleftrightarrow> p = a \<and> a \<noteq> 0 \<and>
     (case h a of None \<Rightarrow> False
      | Some n \<Rightarrow> NodeParent n = par \<and> forest_at h a (NodeChild n) ch \<and> forest_at h par (NodePeer n) ts)"

fun addrs :: "ntree list \<Rightarrow> u32 list" where
  "addrs [] = []"
| "addrs (NTree a ch # ts) = a # addrs ch @ addrs ts"

primrec addr :: "ntree \<Rightarrow> u32" where "addr (NTree a ch) = a"

lemma forest_at_frame:
  "forest_at h par p ts \<Longrightarrow> (\<And>a. a \<in> set (addrs ts) \<Longrightarrow> h' a = h a) \<Longrightarrow> forest_at h' par p ts"
  by (induction h par p ts rule: forest_at.induct) (auto split: option.splits)

lemma forest_node: "forest_at h par p ts \<Longrightarrow> a \<in> set (addrs ts) \<Longrightarrow> \<exists>n. h a = Some n \<and> a \<noteq> 0"
  by (induction h par p ts rule: forest_at.induct) (auto split: option.splits)

definition name_at :: "heap \<Rightarrow> u32 \<Rightarrow> u32" where "name_at h a = NodeName (the (h a))"

text \<open>A method alias is resolved to its target.\<close>

definition resolve :: "heap \<Rightarrow> u32 \<Rightarrow> u32" where
  "resolve h a = (if ucast (NodeType (the (h a))) = ACPI_TYPE_LOCAL_METHOD_ALIAS then NodeObject (the (h a)) else a)"

lemma search_peers: "forest_at h par p ts \<Longrightarrow>
  search_peers h nm p = Some (Ret (map_option (resolve h \<circ> addr) (find (\<lambda>t. name_at h (addr t) = nm) ts)))"
proof (induction h par p ts rule: forest_at.induct)
  case (1 h par p)
  then show ?case by (simp add: search_peers.simps)
next
  case (2 h par p a ch ts)
  then show ?case by (subst search_peers.simps) (auto simp: name_at_def resolve_def o_def split: option.splits)
qed

text \<open>
  The search of one scope returns the first child with the name, resolving an alias, and reports that there is
  none otherwise.
\<close>

theorem search_finds_first_child:
  assumes "h par = Some n" and "forest_at h par (NodeChild n) ts"
  shows "AcpiNsSearchOneScope h nm par = Ret (map_option (resolve h \<circ> addr) (find (\<lambda>t. name_at h (addr t) = nm) ts))"
  using assms by (simp add: AcpiNsSearchOneScope_def get_node_def search_peers)

text \<open>The scopes that enclose a node: its parent with the children, the parent of that, and so on up to the root.\<close>

fun scopes_at :: "heap \<Rightarrow> u32 \<Rightarrow> (u32 \<times> ntree list) list \<Rightarrow> bool" where
  "scopes_at h p [] \<longleftrightarrow> p = 0"
| "scopes_at h p ((a, ts) # r) \<longleftrightarrow> p = a \<and> a \<noteq> 0 \<and>
     (case h a of None \<Rightarrow> False | Some n \<Rightarrow> forest_at h a (NodeChild n) ts \<and> scopes_at h (NodeParent n) r)"

lemma search_scopes: "scopes_at h p scs \<Longrightarrow>
  search_scopes h nm p = Some (Ret (map_option (resolve h \<circ> addr) (find (\<lambda>t. name_at h (addr t) = nm) (concat (map snd scs)))))"
proof (induction h p scs rule: scopes_at.induct)
  case (1 h p)
  then show ?case by (simp add: search_scopes.simps)
next
  case (2 h p a ts r)
  then obtain n where n: "h a = Some n" "p = a" "a \<noteq> 0" "forest_at h a (NodeChild n) ts" "scopes_at h (NodeParent n) r"
    by (auto split: option.splits)
  note IH = "2.IH" [OF n(1,5)]
  have f: "find P (xs @ ys) = (case find P xs of None \<Rightarrow> find P ys | r \<Rightarrow> r)" for P and xs ys :: "ntree list"
    by (induction xs) (auto split: option.split)
  show ?case
    unfolding n(2) by (subst search_scopes.simps)
      (auto simp: n(1,3) search_finds_first_child [OF n(1,4)] IH f o_def split: option.split)
qed

text \<open>
  The search of the enclosing scopes goes from the parent up to the root and returns the first node with the
  name, and finds nothing for a type whose names are local.
\<close>

theorem search_parents_nearest:
  assumes "h a = Some n" and "scopes_at h (NodeParent n) scs"
  shows "AcpiNsSearchParentTree h nm a Ty =
    Ret (if AcpiNsLocal Ty \<noteq> 0 then None
         else map_option (resolve h \<circ> addr) (find (\<lambda>t. name_at h (addr t) = nm) (concat (map snd scs))))"
  using assms search_scopes [OF assms(2)]
  by (cases scs) (auto simp: AcpiNsSearchParentTree_def get_node_def)

section \<open>Installing a node adds a child\<close>

text \<open>What the installation writes: the last peer, or the parent for a first child.\<close>

fun last_addr :: "ntree list \<Rightarrow> u32" where
  "last_addr [] = 0"
| "last_addr [t] = addr t"
| "last_addr (t # u # ts) = last_addr (u # ts)"

lemma last_peer: "forest_at h par p ts \<Longrightarrow> ts \<noteq> [] \<Longrightarrow> last_peer h p = Some (Ret (last_addr ts))"
proof (induction ts arbitrary: p rule: last_addr.induct)
  case (2 t)
  then show ?case by (cases t) (subst last_peer.simps, auto split: option.splits)
next
  case (3 t u ts)
  obtain a ch b ch' where t: "t = NTree a ch" "u = NTree b ch'" by (cases t; cases u)
  with "3.prems" obtain n where n: "h a = Some n" "p = a" "forest_at h par (NodePeer n) (u # ts)" "NodePeer n = b" "b \<noteq> 0"
    by (auto split: option.splits)
  then show ?case using "3.IH" [OF n(3)] t by (subst last_peer.simps) simp
qed simp

lemma last_addr_in: "ts \<noteq> [] \<Longrightarrow> last_addr ts \<in> set (addrs ts)"
proof (induction ts rule: last_addr.induct)
  case (2 t)
  then show ?case by (cases t) simp
next
  case (3 t u ts)
  then show ?case by (cases t) auto
qed simp

fun insert_child :: "u32 \<Rightarrow> u32 \<Rightarrow> ntree list \<Rightarrow> ntree list" where
  "insert_child par new [] = []"
| "insert_child par new (NTree a ch # ts) =
     NTree a (if a = par then ch @ [NTree new []] else insert_child par new ch) # insert_child par new ts"

lemma insert_child_absent: "par \<notin> set (addrs ts) \<Longrightarrow> insert_child par new ts = ts"
  by (induction par new ts rule: insert_child.induct) auto

text \<open>The new peer at the end of a list of peers.\<close>

lemma forest_at_append:
  assumes "forest_at h par p ts" and "ts \<noteq> []" and "distinct (addrs ts)" and "new \<notin> set (addrs ts)" and "new \<noteq> 0"
    and "h' new = Some nn" and "NodeParent nn = par" and "NodeChild nn = 0" and "NodePeer nn = 0"
    and "\<And>a. a \<in> set (addrs ts) \<Longrightarrow> h' a = (if a = last_addr ts then map_option (\<lambda>n. n\<lparr>NodePeer := new\<rparr>) (h a) else h a)"
  shows "forest_at h' par p (ts @ [NTree new []])"
  using assms(1-4,10)
proof (induction ts arbitrary: p rule: last_addr.induct)
  case (2 t)
  obtain a ch where t: "t = NTree a ch" by (cases t)
  with "2.prems"(1) obtain n where n: "h a = Some n" "p = a" "a \<noteq> 0" "NodeParent n = par" "forest_at h a (NodeChild n) ch"
    by (auto split: option.splits)
  have "forest_at h' a (NodeChild n) ch"
    using n(5) by (rule forest_at_frame) (use "2.prems"(3,5) t in auto)
  then show ?case using "2.prems"(5) [of a] assms(5-9) n by (simp add: t)
next
  case (3 t u ts)
  obtain a ch where t: "t = NTree a ch" by (cases t)
  with "3.prems"(1) obtain n where n: "h a = Some n" "p = a" "a \<noteq> 0" "NodeParent n = par" "forest_at h a (NodeChild n) ch"
    "forest_at h par (NodePeer n) (u # ts)"
    by (auto split: option.splits)
  have l: "last_addr (u # ts) \<in> set (addrs (u # ts))" by (rule last_addr_in) simp
  have "forest_at h' a (NodeChild n) ch"
    using n(5) by (rule forest_at_frame) (use "3.prems"(3,5) t l in auto)
  moreover have "forest_at h' par (NodePeer n) ((u # ts) @ [NTree new []])"
    using n(6) by (rule "3.IH") (use "3.prems"(3,4,5) t in auto)
  moreover have "h' a = Some n" using "3.prems"(3) "3.prems"(5) [of a] t l n(1) by auto
  ultimately show ?case using n by (simp add: t)
qed simp

text \<open>The memory after \<open>new\<close> has become the last child of \<open>par\<close>, whose children were \<open>ch\<close>.\<close>

definition linked :: "heap \<Rightarrow> heap \<Rightarrow> u32 \<Rightarrow> ntree list \<Rightarrow> u32 \<Rightarrow> bool" where
  "linked h h' par ch new \<longleftrightarrow>
     (case h' new of None \<Rightarrow> False | Some nn \<Rightarrow> NodeParent nn = par \<and> NodeChild nn = 0 \<and> NodePeer nn = 0) \<and>
     (\<forall>a. a \<noteq> new \<longrightarrow> h' a =
        (if ch = [] \<and> a = par then map_option (\<lambda>n. n\<lparr>NodeChild := new\<rparr>) (h a)
         else if ch \<noteq> [] \<and> a = last_addr ch then map_option (\<lambda>n. n\<lparr>NodePeer := new\<rparr>) (h a) else h a))"

lemma linked_other: "linked h h' par ch new \<Longrightarrow> a \<noteq> new \<Longrightarrow> a \<noteq> par \<Longrightarrow> a \<notin> set (addrs ch) \<Longrightarrow> h' a = h a"
  using last_addr_in [of ch] by (auto simp: linked_def)

lemma linked_frame:
  assumes "forest_at h q p ts" and "linked h h' par ch new" and "new \<notin> set (addrs ts)" and "par \<notin> set (addrs ts)"
    and "set (addrs ts) \<inter> set (addrs ch) = {}"
  shows "forest_at h' q p ts"
  using assms(1)
proof (rule forest_at_frame)
  show "h' a = h a" if "a \<in> set (addrs ts)" for a
    using that assms(3-5) by (intro linked_other [OF assms(2)]) auto
qed

lemma linked_children:
  assumes "h par = Some pn" and "forest_at h par (NodeChild pn) ch" and "distinct (addrs ch)" and "par \<notin> set (addrs ch)"
    and "new \<notin> set (addrs ch)" and "new \<noteq> 0" and "new \<noteq> par" and "linked h h' par ch new"
  obtains pn' where "h' par = Some pn'" and "NodeParent pn' = NodeParent pn" and "NodePeer pn' = NodePeer pn"
    and "forest_at h' par (NodeChild pn') (ch @ [NTree new []])"
proof -
  obtain nn where nn: "h' new = Some nn" "NodeParent nn = par" "NodeChild nn = 0" "NodePeer nn = 0"
    using assms(8) by (auto simp: linked_def split: option.splits)
  show ?thesis
  proof (cases "ch = []")
    case True
    then have "h' par = Some (pn\<lparr>NodeChild := new\<rparr>)" using assms(1,7,8) by (auto simp: linked_def)
    then show ?thesis using that nn assms(6) True by simp
  next
    case False
    then have l: "last_addr ch \<in> set (addrs ch)" by (rule last_addr_in)
    then have "h' par = Some pn" using assms(1,4,7,8) False by (auto simp: linked_def)
    moreover have "forest_at h' par (NodeChild pn) (ch @ [NTree new []])"
      using assms(2) False assms(3,5,6) nn
      by (rule forest_at_append) (use assms(4,5,8) False in \<open>auto simp: linked_def\<close>)
    ultimately show ?thesis using that by blast
  qed
qed

fun children_of :: "u32 \<Rightarrow> ntree list \<Rightarrow> ntree list" where
  "children_of par [] = []"
| "children_of par (NTree a ch # ts) =
     (if a = par then ch else if par \<in> set (addrs ch) then children_of par ch else children_of par ts)"

lemma forest_insert:
  assumes "forest_at h q p F" and "distinct (addrs F)" and "par \<in> set (addrs F)" and "new \<notin> set (addrs F)" and "new \<noteq> 0"
  shows "\<exists>pn ch. h par = Some pn \<and> ch = children_of par F \<and> forest_at h par (NodeChild pn) ch \<and> distinct (addrs ch) \<and> par \<notin> set (addrs ch) \<and>
    set (addrs ch) \<subseteq> set (addrs F) \<and> (\<forall>h'. linked h h' par ch new \<longrightarrow> forest_at h' q p (insert_child par new F))"
  using assms(1-4)
proof (induction h q p F rule: forest_at.induct)
  case (2 h q p a c ts)
  then obtain n where n: "h a = Some n" "p = a" "a \<noteq> 0" "NodeParent n = q" "forest_at h a (NodeChild n) c" "forest_at h q (NodePeer n) ts"
    by (auto split: option.splits)
  have d: "distinct (addrs c)" "distinct (addrs ts)" "a \<notin> set (addrs c)" "a \<notin> set (addrs ts)" "set (addrs c) \<inter> set (addrs ts) = {}"
    "new \<noteq> a" "new \<notin> set (addrs c)" "new \<notin> set (addrs ts)"
    using "2.prems"(2,4) by auto
  consider "par = a" | "par \<in> set (addrs c)" "par \<noteq> a" "par \<notin> set (addrs ts)" | "par \<in> set (addrs ts)" "par \<noteq> a" "par \<notin> set (addrs c)"
    using "2.prems"(3) d by auto
  then show ?case
  proof cases
    case 1
    have "forest_at h' q p (insert_child par new (NTree a c # ts))" if L: "linked h h' par c new" for h'
    proof -
      obtain n' where "h' a = Some n'" "NodeParent n' = q" "NodePeer n' = NodePeer n" "forest_at h' a (NodeChild n') (c @ [NTree new []])"
        using linked_children [OF n(1,5) d(1,3,7) assms(5) d(6)] L n(4) 1 by metis
      moreover have "forest_at h' q (NodePeer n) ts" using n(6) L by (rule linked_frame) (use d 1 in auto)
      ultimately show ?thesis using n(2,3) 1 d(4) by (simp add: insert_child_absent)
    qed
    then show ?thesis using 1 n d by (intro exI [of _ n] exI [of _ c]) auto
  next
    case 2
    obtain pn ch where ch: "h par = Some pn" "forest_at h par (NodeChild pn) ch" "distinct (addrs ch)" "par \<notin> set (addrs ch)"
      "ch = children_of par c" "set (addrs ch) \<subseteq> set (addrs c)" "\<And>h'. linked h h' par ch new \<Longrightarrow> forest_at h' a (NodeChild n) (insert_child par new c)"
      using "2.IH"(1) [OF n(1,5) d(1) 2(1) d(7)] by blast
    have "forest_at h' q p (insert_child par new (NTree a c # ts))" if L: "linked h h' par ch new" for h'
    proof -
      have "h' a = Some n" using linked_other [OF L, of a] 2 d ch(6) n(1) by auto
      moreover have "forest_at h' q (NodePeer n) ts" using n(6) L by (rule linked_frame) (use d 2 ch(6) in auto)
      ultimately show ?thesis using n ch(7) [OF L] 2 by (simp add: insert_child_absent)
    qed
    then show ?thesis using ch 2 by (intro exI [of _ pn] exI [of _ ch]) auto
  next
    case 3
    obtain pn ch where ch: "h par = Some pn" "forest_at h par (NodeChild pn) ch" "distinct (addrs ch)" "par \<notin> set (addrs ch)"
      "ch = children_of par ts" "set (addrs ch) \<subseteq> set (addrs ts)" "\<And>h'. linked h h' par ch new \<Longrightarrow> forest_at h' q (NodePeer n) (insert_child par new ts)"
      using "2.IH"(2) [OF n(1,6) d(2) 3(1) d(8)] by blast
    have "forest_at h' q p (insert_child par new (NTree a c # ts))" if L: "linked h h' par ch new" for h'
    proof -
      have "h' a = Some n" using linked_other [OF L, of a] 3 d ch(6) n(1) by auto
      moreover have "forest_at h' a (NodeChild n) c" using n(5) L by (rule linked_frame) (use d 3 ch(6) in auto)
      ultimately show ?thesis using n ch(7) [OF L] 3 by (simp add: insert_child_absent)
    qed
    then show ?thesis using ch 3 by (intro exI [of _ pn] exI [of _ ch]) auto
  qed
qed simp


section \<open>The namespace\<close>

text \<open>
  The invariant: the pointers from the root form a tree whose nodes are apart, and the children of a node have
  different names.
\<close>

fun unique_names :: "heap \<Rightarrow> ntree list \<Rightarrow> bool" where
  "unique_names h [] \<longleftrightarrow> True"
| "unique_names h (NTree a ch # ts) \<longleftrightarrow> name_at h a \<notin> set (map (name_at h \<circ> addr) ts) \<and> unique_names h ch \<and> unique_names h ts"

definition namespace_at :: "heap \<Rightarrow> u32 \<Rightarrow> ntree list \<Rightarrow> bool" where
  "namespace_at h root F \<longleftrightarrow> forest_at h 0 root [NTree root F] \<and> distinct (addrs [NTree root F]) \<and> unique_names h [NTree root F]"

lemma addr_in: "t \<in> set ts \<Longrightarrow> addr t \<in> set (addrs ts)"
  by (induction ts rule: addrs.induct) auto

lemma unique_names_frame:
  "unique_names h ts \<Longrightarrow> (\<And>a. a \<in> set (addrs ts) \<Longrightarrow> name_at h' a = name_at h a) \<Longrightarrow> unique_names h' ts"
  by (induction h ts rule: unique_names.induct) (auto simp: addr_in)

lemma unique_names_append:
  "unique_names h ts \<Longrightarrow> name_at h new \<notin> set (map (name_at h \<circ> addr) ts) \<Longrightarrow> unique_names h (ts @ [NTree new []])"
  by (induction h ts rule: unique_names.induct) auto

lemma names_insert_child: "map (f \<circ> addr) (insert_child par new ts) = map (f \<circ> addr) ts"
  by (induction par new ts rule: insert_child.induct) auto

lemma unique_names_insert:
  "unique_names h F \<Longrightarrow> distinct (addrs F) \<Longrightarrow> name_at h new \<notin> set (map (name_at h \<circ> addr) (children_of par F)) \<Longrightarrow>
    unique_names h (insert_child par new F)"
proof (induction h F rule: unique_names.induct)
  case (2 h a ch ts)
  have d: "set (addrs ch) \<inter> set (addrs ts) = {}" "a \<notin> set (addrs ch)" "a \<notin> set (addrs ts)" "distinct (addrs ch)" "distinct (addrs ts)"
    using "2.prems"(2) by auto
  have n: "name_at h a \<notin> set (map (name_at h \<circ> addr) (insert_child par new ts))"
    unfolding names_insert_child using "2.prems"(1) by simp
  consider "par = a" | "par \<in> set (addrs ch)" "par \<noteq> a" "par \<notin> set (addrs ts)" | "par \<noteq> a" "par \<notin> set (addrs ch)" using d by auto
  then show ?case
  proof cases
    case 1
    then show ?thesis using "2.prems" n d by (simp add: insert_child_absent unique_names_append)
  next
    case 2
    then show ?thesis using "2.prems" "2.IH" n d by (simp add: insert_child_absent)
  next
    case 3
    then show ?thesis using "2.prems" "2.IH" n d by (simp add: insert_child_absent)
  qed
qed simp

lemma addrs_insert_child:
  "distinct (addrs F) \<Longrightarrow> par \<in> set (addrs F) \<Longrightarrow> new \<notin> set (addrs F) \<Longrightarrow>
    distinct (addrs (insert_child par new F)) \<and> set (addrs (insert_child par new F)) = insert new (set (addrs F))"
proof (induction par new F rule: insert_child.induct)
  case (2 par new a ch ts)
  have ap: "addrs (xs @ [NTree new []]) = addrs xs @ [new]" for xs by (induction xs rule: addrs.induct) auto
  have d: "set (addrs ch) \<inter> set (addrs ts) = {}" "a \<notin> set (addrs ch)" "a \<notin> set (addrs ts)" "distinct (addrs ch)" "distinct (addrs ts)"
    using "2.prems"(1) by auto
  consider "par = a" | "par \<in> set (addrs ch)" "par \<noteq> a" "par \<notin> set (addrs ts)" | "par \<noteq> a" "par \<notin> set (addrs ch)" "par \<in> set (addrs ts)"
    using d "2.prems"(2) by auto
  then show ?case
  proof cases
    case 1
    then show ?thesis using "2.prems" d by (auto simp: ap insert_child_absent)
  next
    case 2
    then show ?thesis using "2.prems" "2.IH"(1) d by (auto simp: insert_child_absent)
  next
    case 3
    then show ?thesis using "2.prems" "2.IH" d by (auto simp: insert_child_absent)
  qed
qed simp

text \<open>The writes of an installation.\<close>

lemma install_links:
  assumes "nodes ns new = Some nn" and "NodeChild nn = 0" and "nodes ns par = Some pn" and "new \<noteq> par" and "new \<noteq> 0"
    and "forest_at (nodes ns) par (NodeChild pn) ch" and "new \<notin> set (addrs ch)" and "par \<notin> set (addrs ch)"
  shows "\<exists>ns'. AcpiNsInstallNode W par new Ty ns = Ret ns' \<and> linked (nodes ns) (nodes ns') par ch new \<and>
    (\<exists>nn'. nodes ns' new = Some nn' \<and> NodeName nn' = NodeName nn \<and> NodeType nn' = ucast Ty \<and> NodeFlags nn' = NodeFlags nn \<and>
      NodeOwner nn' = (case W of None \<Rightarrow> 0 | Some w \<Rightarrow> WalkOwnerId w)) \<and>
    NamespaceCache ns' = NamespaceCache ns"
proof -
  let ?h = "(nodes ns)(new \<mapsto> nn\<lparr>NodePeer := 0, NodeParent := par\<rparr>)"
  have p: "?h par = Some pn" using assms(3,4) by simp
  have f: "forest_at ?h par (NodeChild pn) ch" using assms(6) by (rule forest_at_frame) (use assms(7) in auto)
  show ?thesis
  proof (cases ch)
    case Nil
    then have "NodeChild pn = 0" using assms(6) by simp
    then show ?thesis using assms(1,2,4) p Nil
      by (cases W) (auto simp: AcpiNsInstallNode_def set_node_def get_node_def linked_def Let_def)
  next
    case (Cons c cs)
    then have c: "NodeChild pn \<noteq> 0" using assms(6) by (cases c) auto
    let ?l = "last_addr ch"
    have "?l \<in> set (addrs ch)" using Cons by (intro last_addr_in) simp
    then have l: "?l \<noteq> new" "?l \<noteq> par" using assms(7,8) by auto
    have last: "of_loop (last_peer ?h (NodeChild pn)) = Ret ?l" using last_peer [OF f] Cons by simp
    obtain ln where ln: "nodes ns ?l = Some ln"
      using assms(6) \<open>?l \<in> set (addrs ch)\<close> forest_node by blast
    show ?thesis using assms(1,2,4) p c l last ln Cons
      by (cases W) (simp_all add: AcpiNsInstallNode_def set_node_def get_node_def linked_def Let_def del: fun_upd_apply, simp_all)
  qed
qed

lemma linked_name: "linked h h' par ch new \<Longrightarrow> a \<noteq> new \<Longrightarrow> h a = Some n \<Longrightarrow> name_at h' a = name_at h a"
  by (auto simp: linked_def name_at_def)

lemma children_of_insert:
  "distinct (addrs F) \<Longrightarrow> par \<in> set (addrs F) \<Longrightarrow> new \<notin> set (addrs F) \<Longrightarrow>
    children_of par (insert_child par new F) = children_of par F @ [NTree new []]"
proof (induction par new F rule: insert_child.induct)
  case (2 par new a ch ts)
  have d: "set (addrs ch) \<inter> set (addrs ts) = {}" "a \<notin> set (addrs ch)" "a \<notin> set (addrs ts)" "distinct (addrs ch)" "distinct (addrs ts)"
    using "2.prems"(1) by auto
  consider "par = a" | "par \<in> set (addrs ch)" "par \<noteq> a" "par \<notin> set (addrs ts)" | "par \<noteq> a" "par \<notin> set (addrs ch)" "par \<in> set (addrs ts)"
    using d "2.prems"(2) by auto
  then show ?case
  proof cases
    case 2
    then have "par \<in> set (addrs (insert_child par new ch))" using addrs_insert_child d "2.prems"(3) by simp
    then show ?thesis using 2 "2.IH"(1) "2.prems" d by simp
  next
    case 3
    then show ?thesis using "2.IH" "2.prems" d by (simp add: insert_child_absent)
  qed simp
qed simp

lemma children_of_subset: "set (addrs (children_of par F)) \<subseteq> set (addrs F)"
  by (induction par F rule: children_of.induct) auto

lemma install_adds_child:
  assumes "namespace_at (nodes ns) root F" and "par \<in> set (addrs [NTree root F])" and "new \<notin> set (addrs [NTree root F])" and "new \<noteq> 0"
    and "nodes ns new = Some nn" and "NodeChild nn = 0" and "NodeName nn \<notin> set (map (name_at (nodes ns) \<circ> addr) (children_of par [NTree root F]))"
  shows "\<exists>ns' F'. AcpiNsInstallNode W par new Ty ns = Ret ns' \<and> [NTree root F'] = insert_child par new [NTree root F] \<and>
    namespace_at (nodes ns') root F' \<and> name_at (nodes ns') new = NodeName nn \<and>
    (\<exists>nn'. nodes ns' new = Some nn' \<and> NodeType nn' = ucast Ty) \<and>
    (\<forall>a \<in> set (addrs [NTree root F]). name_at (nodes ns') a = name_at (nodes ns) a) \<and> NamespaceCache ns' = NamespaceCache ns"
proof -
  let ?R = "[NTree root F]" and ?h = "nodes ns"
  have N: "forest_at ?h 0 root ?R" "distinct (addrs ?R)" "unique_names ?h ?R" using assms(1) by (auto simp: namespace_at_def)
  obtain pn where pn: "?h par = Some pn" "forest_at ?h par (NodeChild pn) (children_of par ?R)" "distinct (addrs (children_of par ?R))"
    "par \<notin> set (addrs (children_of par ?R))" "set (addrs (children_of par ?R)) \<subseteq> set (addrs ?R)"
    "\<And>h'. linked ?h h' par (children_of par ?R) new \<Longrightarrow> forest_at h' 0 root (insert_child par new ?R)"
    using forest_insert [OF N(1,2) assms(2,3,4)] by blast
  have np: "new \<noteq> par" "new \<notin> set (addrs (children_of par ?R))" using assms(2,3) pn(5) by auto
  obtain ns' nn' where i: "AcpiNsInstallNode W par new Ty ns = Ret ns'" "linked ?h (nodes ns') par (children_of par ?R) new"
    "nodes ns' new = Some nn'" "NodeName nn' = NodeName nn" "NodeType nn' = ucast Ty" "NamespaceCache ns' = NamespaceCache ns"
    using install_links [OF assms(5,6) pn(1) np(1) assms(4) pn(2) np(2) pn(4)] by blast
  obtain F' where F': "[NTree root F'] = insert_child par new ?R" by simp
  have nm: "name_at (nodes ns') a = name_at ?h a" if "a \<in> set (addrs ?R)" for a
    using linked_name [OF i(2), of a] forest_node [OF N(1) that] that assms(3) by blast
  have "name_at (nodes ns') new = NodeName nn" using i(3,4) by (simp add: name_at_def)
  moreover have "(name_at (nodes ns') \<circ> addr) x = (name_at ?h \<circ> addr) x" if "x \<in> set (children_of par ?R)" for x
    using nm addr_in [OF that] pn(5) by auto
  then have "map (name_at (nodes ns') \<circ> addr) (children_of par ?R) = map (name_at ?h \<circ> addr) (children_of par ?R)" by (rule map_cong [OF refl])
  moreover have "unique_names (nodes ns') ?R" using N(3) by (rule unique_names_frame) (rule nm)
  ultimately have "unique_names (nodes ns') (insert_child par new ?R)"
    using unique_names_insert [OF _ N(2), of "nodes ns'" new par] assms(7) by metis
  then have "namespace_at (nodes ns') root F'"
    unfolding namespace_at_def F' using pn(6) [OF i(2)] addrs_insert_child [OF N(2) assms(2,3)] by simp
  then show ?thesis using i F' nm \<open>name_at (nodes ns') new = NodeName nn\<close> by blast
qed

text \<open>
  C15. Entering a name in the first load pass keeps the namespace a tree with different names in each scope. A
  name that is there is found and nothing changes: its node is returned, with AE_OK or, under the flag
  ACPI_NS_ERROR_IF_FOUND of the loader, with AE_ALREADY_EXISTS. Another name becomes the last child of the node, under
  the repaired name, and its new node is returned with AE_OK. The scope is a node of the tree and the
  name is not 0; the mutex of the caches can be taken and released; and a new node comes from a cache whose free
  nodes are not in the tree or, when that is empty, from an allocation that succeeds outside the tree.
\<close>

theorem search_and_enter_keeps_tree:
  assumes "namespace_at (nodes ns) root F" and "par \<in> set (addrs [NTree root F])" and "nm \<noteq> 0"
    and "NamespaceCache ns = Some c" and "pool (set (addrs [NTree root F])) c" and "caches_free os t mi s"
    and "alloc (ucast (ObjectSize c)) = Ret p" and "p \<notin> set (addrs [NTree root F])" and "p \<noteq> 0"
  shows "\<exists>st x ns' mi' s' F'. AcpiNsSearchAndEnter alloc os t nm W par ACPI_IMODE_LOAD_PASS1 Ty Flags ns mi s = Ret (st, Some x, ns', mi', s') \<and>
    namespace_at (nodes ns') root F' \<and>
    (case find (\<lambda>t. name_at (nodes ns) (addr t) = name_word (AcpiUtRepairName (name_bytes nm))) (children_of par [NTree root F]) of
       Some t \<Rightarrow> st = (if Flags AND ACPI_NS_ERROR_IF_FOUND \<noteq> 0 then AE_ALREADY_EXISTS else AE_OK) \<and>
         x = resolve (nodes ns) (addr t) \<and> ns' = ns
     | None \<Rightarrow> st = AE_OK \<and> x \<notin> set (addrs [NTree root F]) \<and> [NTree root F'] = insert_child par x [NTree root F] \<and>
         name_at (nodes ns') x = name_word (AcpiUtRepairName (name_bytes nm)))"
proof -
  let ?R = "[NTree root F]" and ?h = "nodes ns" and ?nm = "name_word (AcpiUtRepairName (name_bytes nm))"
  let ?ch = "children_of par ?R"
  have N: "forest_at ?h 0 root ?R" "distinct (addrs ?R)" "unique_names ?h ?R" using assms(1) by (auto simp: namespace_at_def)
  have par0: "par \<noteq> 0" using forest_node [OF N(1) assms(2)] by blast
  obtain x c' mi' s' where q: "AcpiOsAcquireObject alloc os t (Some c) mi s = Ret (x, Some c', mi', s')" "x \<noteq> 0" "x \<notin> set (addrs ?R)"
    using acquire_from_pool [OF assms(5,6), of alloc p] assms(7-9) by blast
  obtain pn where pn: "?h par = Some pn" "forest_at ?h par (NodeChild pn) ?ch"
    using forest_insert [OF N(1,2) assms(2) q(3,2)] by blast
  note S = search_finds_first_child [OF pn, of ?nm]
  show ?thesis
  proof (cases "find (\<lambda>t. name_at ?h (addr t) = ?nm) ?ch")
    case (Some t')
    then show ?thesis using S par0 assms(1,3) by (simp add: AcpiNsSearchAndEnter_def Let_def) blast
  next
    case None
    define f where "f = (if Flags AND ACPI_NS_TEMPORARY \<noteq> 0 then ANOBJ_TEMPORARY else 0)"
    define nn where "nn = zero_node\<lparr>NodeName := ?nm, DescriptorType := ACPI_DESC_TYPE_NAMED, NodeFlags := f\<rparr>"
    define ns1 where "ns1 = ns\<lparr>NamespaceCache := Some c', nodes := ?h(x \<mapsto> nn)\<rparr>"
    have fr: "?h a = nodes ns1 a" if "a \<in> set (addrs ?R)" for a using q(3) that by (auto simp: ns1_def)
    have N1: "namespace_at (nodes ns1) root F"
      using N(2) forest_at_frame [OF N(1), of "nodes ns1"] unique_names_frame [OF N(3), of "nodes ns1"] fr
      unfolding namespace_at_def name_at_def by simp
    have nn: "nodes ns1 x = Some nn" "NodeChild nn = 0" "NodeName nn = ?nm" by (simp_all add: ns1_def nn_def zero_node_def)
    have "name_at (nodes ns1) (addr t') = name_at ?h (addr t')" if "t' \<in> set ?ch" for t'
      using fr addr_in [OF that] children_of_subset [of par ?R] by (auto simp: name_at_def)
    then have fresh: "NodeName nn \<notin> set (map (name_at (nodes ns1) \<circ> addr) ?ch)"
      using None nn(3) by (auto simp: find_None_iff)
    obtain ns' F' where i: "AcpiNsInstallNode W par x Ty ns1 = Ret ns'" "[NTree root F'] = insert_child par x ?R"
      "namespace_at (nodes ns') root F'" "name_at (nodes ns') x = ?nm"
      using install_adds_child [OF N1 assms(2) q(3,2) nn(1,2) fresh] nn(3) by metis
    have "AcpiNsSearchAndEnter alloc os t nm W par ACPI_IMODE_LOAD_PASS1 Ty Flags ns mi s = obind (AcpiNsInstallNode W par x Ty ns1) (\<lambda>ns. Ret (AE_OK, Some x, ns, mi', s'))"
      using S None par0 assms(3)
      by (simp add: AcpiNsSearchAndEnter_def Let_def AcpiNsCreateNode_def assms(4) q(1,2) set_node_def ns1_def nn_def f_def zero_node_def)
    then show ?thesis using i None q(3) by auto
  qed
qed

section \<open>The walk visits the tree\<close>

text \<open>
  The walk as it is meant: each node is visited before and after its children, which are left out below the
  maximum depth and where the first visit asks for it. \<open>Some st\<close> is a walk that a visit has ended.
\<close>

fun visit_forest :: "(u32 \<Rightarrow> u32 \<Rightarrow> bool \<Rightarrow> 'z \<Rightarrow> ((ACPI_STATUS + ACPI_STATUS) \<times> 'z) outcome) \<Rightarrow> u32 \<Rightarrow> u32 \<Rightarrow> ntree list \<Rightarrow> 'z \<Rightarrow>
  (ACPI_STATUS option \<times> 'z) outcome" where
  "visit_forest V d l [] z = Ret (None, z)"
| "visit_forest V d l (NTree a ch # ts) z =
     obind (V a l False z) (\<lambda>(r, z). case r of
       Inl st \<Rightarrow> Ret (Some st, z)
     | Inr st \<Rightarrow>
         obind (if l < d \<and> st \<noteq> AE_CTRL_DEPTH then visit_forest V d (l + 1) ch z else Ret (None, z)) (\<lambda>(r, z). case r of
           Some st \<Rightarrow> Ret (Some st, z)
         | None \<Rightarrow> obind (V a l True z) (\<lambda>(r, z). case r of
               Inl st \<Rightarrow> Ret (Some st, z)
             | Inr _ \<Rightarrow> visit_forest V d l ts z)))"

definition walk_after :: "(ACPI_STATUS option \<times> 'z) outcome \<Rightarrow> ('z \<Rightarrow> (ACPI_STATUS \<times> 'z) outcome option) \<Rightarrow> (ACPI_STATUS \<times> 'z) outcome option" where
  "walk_after m k = (case m of Trap \<Rightarrow> Some Trap | Hang \<Rightarrow> Some Hang
     | Ret (Some st, z) \<Rightarrow> Some (Ret (st, z)) | Ret (None, z) \<Rightarrow> k z)"

lemma walk_after_simps [simp]:
  "walk_after Trap k = Some Trap" "walk_after Hang k = Some Hang"
  "walk_after (Ret (Some st, z)) k = Some (Ret (st, z))" "walk_after (Ret (None, z)) k = k z"
  by (simp_all add: walk_after_def)

lemma walk_after_bind:
  "walk_after (obind m (\<lambda>(r, z). case r of Some st \<Rightarrow> Ret (Some st, z) | None \<Rightarrow> f z)) k = walk_after m (\<lambda>z. walk_after (f z) k)"
  by (cases m) (auto split: option.splits)

lemma walk_next_node: "a \<noteq> 0 \<Longrightarrow> h a = Some n \<Longrightarrow> h par = Some pn \<Longrightarrow>
  walk_next d h st par a l v =
    (if \<not> v \<and> l < d \<and> st \<noteq> AE_CTRL_DEPTH \<and> NodeChild n \<noteq> 0 then Ret (a, NodeChild n, l + 1, v)
     else if \<not> v then Ret (par, a, l, True)
     else if NodePeer n \<noteq> 0 then Ret (par, NodePeer n, l, False)
     else Ret (NodeParent pn, par, l - 1, True))"
  by (simp add: walk_next_def get_node_def AcpiNsGetNextNode_def)

text \<open>The walk over a list of peers, and then on from their parent, which it visits again.\<close>

lemma walk_forest:
  assumes "forest_at h par p ts" and "ts \<noteq> []" and "h par = Some pn" and "0 < l"
  shows "namespace_loop V d h par p l False z =
    walk_after (visit_forest V d l ts z) (\<lambda>z. namespace_loop V d h (NodeParent pn) par (l - 1) True z)"
  using assms
proof (induction ts arbitrary: par p pn l z rule: addrs.induct)
  case (2 a ch ts)
  obtain n where n: "h a = Some n" "p = a" "a \<noteq> 0" "NodeParent n = par" "forest_at h a (NodeChild n) ch" "forest_at h par (NodePeer n) ts"
    using "2.prems"(1) by (auto split: option.splits)
  note l = "2.prems"(4) and nx = walk_next_node [OF n(3,1) "2.prems"(3), of d]
  let ?up = "\<lambda>z. namespace_loop V d h (NodeParent pn) par (l - 1) True z"
  have again: "namespace_loop V d h par a l True z' =
      walk_after (obind (V a l True z') (\<lambda>(r, z). case r of Inl st \<Rightarrow> Ret (Some st, z) | Inr _ \<Rightarrow> visit_forest V d l ts z)) ?up" for z'
  proof (cases "V a l True z'")
    case (Ret r)
    obtain q y where r: "r = (q, y)" by (cases r)
    have "namespace_loop V d h par (NodePeer n) l False y = walk_after (visit_forest V d l ts y) ?up" if "ts \<noteq> []"
      by (rule "2.IH"(2) [OF n(6) that "2.prems"(3) l])
    moreover have "NodePeer n = 0 \<longleftrightarrow> ts = []" using n(6) by (cases ts; cases "hd ts") auto
    ultimately show ?thesis using Ret r n(3) l by (subst namespace_loop.simps) (cases q; cases "ts = []"; simp add: nx)
  qed (use n(3) l in \<open>subst namespace_loop.simps, simp\<close>)+
  note again = ext [of "namespace_loop V d h par a l True", OF again]
  show ?case
  proof (cases "V a l False z")
    case (Ret r)
    obtain q y where r: "r = (q, y)" by (cases r)
    show ?thesis
    proof (cases q)
      case (Inl st)
      then show ?thesis using Ret r n(2,3) l by (subst namespace_loop.simps) simp
    next
      case (Inr st)
      let ?down = "if l < d \<and> st \<noteq> AE_CTRL_DEPTH then visit_forest V d (l + 1) ch y else Ret (None, y)"
      have step: "namespace_loop V d h par p l False z = walk_after ?down (\<lambda>z. namespace_loop V d h par a l True z)"
      proof (cases "l < d \<and> st \<noteq> AE_CTRL_DEPTH \<and> ch \<noteq> []")
        case True
        then have c: "NodeChild n \<noteq> 0" using n(5) by (cases ch; cases "hd ch") auto
        have "0 < l + 1" using True by (auto simp: word_less_nat_alt unat_Suc_word)
        then have "namespace_loop V d h a (NodeChild n) (l + 1) False y =
            walk_after (visit_forest V d (l + 1) ch y) (\<lambda>z. namespace_loop V d h (NodeParent n) a (l + 1 - 1) True z)"
          using True by (intro "2.IH"(1) [OF n(5) _ n(1)]) auto
        then show ?thesis using True Ret r Inr n(2,3,4) c l by (subst namespace_loop.simps) (simp add: nx)
      next
        case False
        then have "NodeChild n = 0 \<or> \<not> (l < d \<and> st \<noteq> AE_CTRL_DEPTH)" "?down = Ret (None, y)" using n(5) by auto
        then show ?thesis using Ret r Inr n(2,3) l by (subst namespace_loop.simps) (auto simp: nx)
      qed
      show ?thesis unfolding step by (simp add: Ret r Inr walk_after_bind again)
    qed
  qed (use n(2,3) l in \<open>subst namespace_loop.simps, simp\<close>)+
qed simp

text \<open>
  C16. The walk over the namespace visits the tree of the start node: each node before and after its children, down to
  the maximum depth, with the statuses of the callbacks as the specification has them, so that it ends when they do.
\<close>

theorem walk_visits_tree:
  assumes "start = (if handle = 0xFFFFFFFF then root else handle)" and "h start = Some n" and "forest_at h start (NodeChild n) ts"
  shows "AcpiNsWalkNamespace os t w h root handle z =
    obind (visit_forest (visit_node os t w h) (WalkDepth w) 1 ts z) (\<lambda>(r, z). Ret (case r of None \<Rightarrow> AE_OK | Some st \<Rightarrow> st, z))"
proof -
  let ?V = "visit_node os t w h"
  have "AcpiNsWalkNamespace os t w h root handle z = of_loop (namespace_loop ?V (WalkDepth w) h start (NodeChild n) 1 False z)"
    by (simp add: AcpiNsWalkNamespace_def Let_def assms(1) [symmetric] AcpiNsGetNextNode_def get_node_def assms(2))
  also have "\<dots> = of_loop (walk_after (visit_forest ?V (WalkDepth w) 1 ts z) (\<lambda>z. Some (Ret (AE_OK, z))))"
  proof (cases "ts = []")
    case True
    then show ?thesis using assms(3) by (subst namespace_loop.simps) simp
  next
    case False
    have "namespace_loop ?V (WalkDepth w) h (NodeParent n) start (1 - 1) True y = Some (Ret (AE_OK, y))" for y
      by (subst namespace_loop.simps) simp
    then have "namespace_loop ?V (WalkDepth w) h (NodeParent n) start (1 - 1) True = (\<lambda>y. Some (Ret (AE_OK, y)))" by (rule ext)
    then show ?thesis using walk_forest [OF assms(3) False assms(2), of 1 ?V "WalkDepth w" z] by simp
  qed
  also have "\<dots> = obind (visit_forest ?V (WalkDepth w) 1 ts z) (\<lambda>(r, z). Ret (case r of None \<Rightarrow> AE_OK | Some st \<Rightarrow> st, z))"
    by (cases "visit_forest ?V (WalkDepth w) 1 ts z") (auto simp: walk_after_def split: option.splits)
  finally show ?thesis .
qed

section \<open>The path of a node\<close>

text \<open>The names on the way from a node up to the root.\<close>

fun path_at :: "heap \<Rightarrow> u32 \<Rightarrow> u32 \<Rightarrow> u32 list \<Rightarrow> bool" where
  "path_at h root p [] \<longleftrightarrow> p = root"
| "path_at h root p (nm # r) \<longleftrightarrow> p \<noteq> 0 \<and> p \<noteq> root \<and>
     (case h p of None \<Rightarrow> False
      | Some n \<Rightarrow> DescriptorType n = ACPI_DESC_TYPE_NAMED \<and> NodeName n = nm \<and> path_at h root (NodeParent n) r)"

lemma path_length: "path_at h root p ns \<Longrightarrow> path_length h root p Size = Some (Ret (Some (Size + of_nat (5 * length ns))))"
proof (induction h root p ns arbitrary: Size rule: path_at.induct)
  case (1 h root p)
  then show ?case by (simp add: path_length.simps)
next
  case (2 h root p nm r)
  then show ?case by (subst path_length.simps) (auto split: option.splits)
qed

lemma put_bytes: "i + length cs \<le> length b \<Longrightarrow> put_bytes i cs b = Ret (take i b @ cs @ drop (i + length cs) b)"
proof (induction i cs b rule: put_bytes.induct)
  case (2 i c cs b)
  have "take (Suc i) (b[i := c]) = take i b @ [c]" using "2.prems" by (simp add: take_Suc_conv_app_nth)
  then show ?case using "2.IH" "2.prems" by (simp add: put8_def)
qed simp

lemma length_name_bytes [simp]: "length (name_bytes nm) = 4"
  by (simp add: name_bytes_def)

lemma build_path:
  assumes "path_at h root p ns" and "5 * length ns \<le> length b"
  shows "build_path h root p (5 * length ns) b =
    Ret (0, concat (map (\<lambda>nm. 0x2E # name_bytes nm) (rev ns)) @ drop (5 * length ns) b)"
  using assms
proof (induction h root p ns arbitrary: b rule: path_at.induct)
  case (1 h root p)
  then show ?case by (simp add: build_path.simps)
next
  case (2 h root p nm r)
  obtain n where n: "h p = Some n" "NodeName n = nm" "path_at h root (NodeParent n) r" "p \<noteq> root"
    using "2.prems"(1) by (auto split: option.splits)
  let ?k = "5 * length r"
  have l: "?k + 5 \<le> length b" using "2.prems"(2) by simp
  have w: "put_bytes (?k + 1) (name_bytes nm) b = Ret (take (?k + 1) b @ name_bytes nm @ drop (?k + 5) b)"
    using l by (subst put_bytes) (simp_all add: ac_simps)
  let ?b = "take (?k + 1) b @ name_bytes nm @ drop (?k + 5) b"
  have "take (?k + 1) b = take ?k b @ [b ! ?k]" using l by (simp add: take_Suc_conv_app_nth)
  then have "put8 ?k 0x2E ?b = Ret (take ?k b @ 0x2E # name_bytes nm @ drop (?k + 5) b)"
    using l by (simp add: put8_def list_update_append)
  moreover have "build_path h root (NodeParent n) ?k (take ?k b @ 0x2E # name_bytes nm @ drop (?k + 5) b) =
    Ret (0, concat (map (\<lambda>nm. 0x2E # name_bytes nm) (rev r)) @ drop ?k (take ?k b @ 0x2E # name_bytes nm @ drop (?k + 5) b))"
    using l by (intro "2.IH" [OF n(1,3)]) simp
  ultimately show ?case using n w l by (subst build_path.simps) (simp, simp only: add.commute)
qed

lemma dotted_join: "ss \<noteq> [] \<Longrightarrow> concat (map (\<lambda>s. 0x2E # s) ss) = 0x2E # join ss"
  by (induction ss rule: join.induct) auto

text \<open>
  C30. The external path of a node is the absolute path of the names from the root down to it, in a buffer of exactly
  its length, and of the root the backslash.
\<close>

theorem external_path_of_node:
  assumes "path_at h root p ns" and "5 * length ns + 2 < 2 ^ 32" and "allocates os"
  shows "AcpiNsGetExternalPathname os h root p = Ret (Some (external Root (map name_bytes (rev ns)) @ [0]))"
proof -
  obtain a where a: "allocate_zeroed os (of_nat (5 * length ns + (if ns = [] then 2 else 1))) = Ret a" "a \<noteq> 0"
    using assms(3) by (auto simp: allocates_def)
  have u: "unat (of_nat k :: u32) = k" if "k \<le> 5 * length ns + 2" for k using that assms(2) by (intro of_nat_u32) simp
  have sz: "AcpiNsGetPathnameLength h root p = Ret (of_nat (5 * length ns + (if ns = [] then 2 else 1)))"
  proof (cases ns)
    case Nil
    then show ?thesis using path_length [OF assms(1), of 0] by (simp add: AcpiNsGetPathnameLength_def)
  next
    case (Cons nm r)
    then have "(of_nat (5 * length ns) :: u32) \<noteq> 0" using u [of "5 * length ns"] by (metis One_nat_def add_is_0 length_0_conv list.discI mult_is_0 le_add1 numeral_eq_Suc unat_0 zero_neq_numeral)
    then show ?thesis using path_length [OF assms(1), of 0] Cons by (simp add: AcpiNsGetPathnameLength_def add.commute)
  qed
  show ?thesis
  proof (cases "ns = []")
    case True
    have r: "replicate 2 (0 :: u8) = [0, 0]" by (simp add: numeral_2_eq_2)
    show ?thesis using True sz a by (simp add: AcpiNsGetExternalPathname_def AcpiNsBuildExternalPath_def r put8_def external_def)
  next
    case False
    let ?n = "5 * length ns" and ?s = "of_nat (5 * length ns + 1) :: u32"
    let ?b = "replicate ?n 0 @ [0] :: u8 list"
    have e: "replicate (?n + 1) 0 = ?b" by (simp add: replicate_append_same)
    have s: "unat ?s = ?n + 1" using u [of "?n + 1"] by simp
    have i: "unat (?s - 1) = ?n" using u [of ?n] by simp
    have five: "5 \<le> ?n" using False by (cases ns) auto
    have "build_path h root p ?n ?b = Ret (0, concat (map (\<lambda>nm. 0x2E # name_bytes nm) (rev ns)) @ drop ?n ?b)"
      using assms(1) by (rule build_path) simp
    moreover have "drop ?n ?b = [0]" by simp
    moreover have "concat (map (\<lambda>nm. 0x2E # name_bytes nm) (rev ns)) = 0x2E # join (map name_bytes (rev ns))"
      using dotted_join [of "map name_bytes (rev ns)"] False by (simp add: o_def)
    ultimately have "build_path h root p ?n ?b = Ret (0, 0x2E # join (map name_bytes (rev ns)) @ [0])" by simp
    then have "AcpiNsBuildExternalPath h root p ?s (replicate (?n + 1) 0) = Ret (AE_OK, external Root (map name_bytes (rev ns)) @ [0])"
      unfolding AcpiNsBuildExternalPath_def Let_def i e using five by (simp add: external_def) (simp add: put8_def)
    then have "AcpiNsBuildExternalPath h root p ?s (replicate (unat ?s) 0) = Ret (AE_OK, external Root (map name_bytes (rev ns)) @ [0])"
      unfolding s .
    moreover have "?s \<noteq> 0" using s by auto
    moreover have "AcpiNsGetPathnameLength h root p = Ret ?s" "allocate_zeroed os ?s = Ret a" using sz a(1) False by simp_all
    ultimately show ?thesis using a(2) unfolding AcpiNsGetExternalPathname_def by simp
  qed
qed

section \<open>At a concrete namespace\<close>

text \<open>The root with two children, \<^verbatim>\<open>_SB_\<close> and \<^verbatim>\<open>_TZ_\<close>, and \<^verbatim>\<open>PCI0\<close> below the first.\<close>

definition mk_node :: "u32 \<Rightarrow> u32 \<Rightarrow> u32 \<Rightarrow> u32 \<Rightarrow> node" where
  "mk_node nm parent child peer = \<lparr>NodeObject = 0, DescriptorType = ACPI_DESC_TYPE_NAMED, NodeType = 6, NodeFlags = 0, NodeOwner = 1,
     NodeName = nm, NodeParent = parent, NodeChild = child, NodePeer = peer\<rparr>"

definition small_heap :: heap where
  "small_heap = [0x10 \<mapsto> mk_node 0x5F5F5F5C 0 0x20 0, 0x20 \<mapsto> mk_node 0x5F42535F 0x10 0x40 0x30,
     0x30 \<mapsto> mk_node 0x5F5A545F 0x10 0 0, 0x40 \<mapsto> mk_node 0x30494350 0x20 0 0]"

definition small_tree :: "ntree list" where "small_tree = [NTree 0x20 [NTree 0x40 []], NTree 0x30 []]"

lemma small_namespace: "namespace_at small_heap 0x10 small_tree"
  by (simp add: namespace_at_def small_heap_def small_tree_def mk_node_def name_at_def)

lemma small_nodes: "small_heap 0x10 = Some (mk_node 0x5F5F5F5C 0 0x20 0)" "forest_at small_heap 0x10 0x20 small_tree"
  "small_heap 0x40 = Some (mk_node 0x30494350 0x20 0 0)" "scopes_at small_heap 0x20 [(0x20, [NTree 0x40 []]), (0x10, small_tree)]"
  "path_at small_heap 0x10 0x40 [0x30494350, 0x5F42535F]"
  by (simp_all add: small_heap_def small_tree_def mk_node_def ACPI_DESC_TYPE_NAMED_def)

theorem search_finds_first_child_witness: "AcpiNsSearchOneScope small_heap 0x5F5A545F 0x10 = Ret (Some 0x30)"
  using search_finds_first_child [of small_heap "0x10" "mk_node 0x5F5F5F5C 0 0x20 0" small_tree "0x5F5A545F"] small_nodes(1,2)
  by (simp add: mk_node_def small_tree_def name_at_def small_heap_def resolve_def ACPI_TYPE_LOCAL_METHOD_ALIAS_def)

theorem search_parents_nearest_witness: "AcpiNsSearchParentTree small_heap 0x5F5A545F 0x40 0 = Ret (Some 0x30)"
proof -
  have "AcpiNsLocal 0 = 0" by code_simp
  then show ?thesis
    using search_parents_nearest [of small_heap "0x40" "mk_node 0x30494350 0x20 0 0" "[(0x20, [NTree 0x40 []]), (0x10, small_tree)]" "0x5F5A545F" 0] small_nodes(3,4)
    by (simp add: mk_node_def small_tree_def name_at_def small_heap_def resolve_def ACPI_TYPE_LOCAL_METHOD_ALIAS_def)
qed

theorem external_path_of_node_witness:
  "AcpiNsGetExternalPathname test_host small_heap 0x10 0x40 =
    Ret (Some ([0x5C, 0x5F, 0x53, 0x42, 0x5F, 0x2E, 0x50, 0x43, 0x49, 0x30] @ [0]))"
proof -
  have "name_bytes 0x5F42535F = [0x5F, 0x53, 0x42, 0x5F]" "name_bytes 0x30494350 = [0x50, 0x43, 0x49, 0x30]" by code_simp+
  then show ?thesis using external_path_of_node [OF small_nodes(5) _ test_host_allocates(1)] by (simp add: external_def)
qed

text \<open>A walk to depth 2 whose callback counts the nodes.\<close>

definition counting_walk :: "nat walk" where
  "counting_walk = \<lparr>WalkType = 0, WalkDepth = 2, WalkFlags = 0, PreOrderVisit = Some (\<lambda>p l x. (AE_OK, x + 1)), PostOrderVisit = None\<rparr>"

theorem walk_visits_tree_witness:
  "AcpiNsWalkNamespace set_os 5 counting_walk small_heap 0x10 0xFFFFFFFF (0, [], {}) = Ret (AE_OK, 3, [], {})"
proof -
  have v: "visit_node set_os 5 counting_walk small_heap p l v (x, [], {}) = Ret (Inr AE_OK, if v then x else x + 1, [], {})"
    if "p \<in> {0x20, 0x30, 0x40}" for p l v x
    using that by (auto simp: visit_node_def get_node_def small_heap_def mk_node_def counting_walk_def ANOBJ_TEMPORARY_def
      ACPI_NS_WALK_UNLOCK_def ACPI_TYPE_ANY_def AE_OK_def AE_CTRL_DEPTH_def)
  show ?thesis
    using walk_visits_tree [of "0x10" "0xFFFFFFFF" "0x10" small_heap _ small_tree set_os 5 counting_walk "(0, [], {})"] small_nodes(1,2)
    by (simp add: mk_node_def small_tree_def v) (simp add: counting_walk_def AE_OK_def AE_CTRL_DEPTH_def)
qed

definition small_ns :: namespace where
  "small_ns = \<lparr>nodes = small_heap, InfoFlags = (\<lambda>_. 0),
     NamespaceCache = Some \<lparr>ListName = 1, ListHead = [0x50], ObjectSize = 28, MaxDepth = 4, CurrentDepth = 1, LinkOffset = 8\<rparr>\<rparr>"

theorem search_and_enter_keeps_tree_witness:
  "\<exists>x ns' mi' s' F'. AcpiNsSearchAndEnter (\<lambda>_. Ret 0x60) set_os 5 0x31494350 None 0x20 ACPI_IMODE_LOAD_PASS1 6 0 small_ns (replicate 8 free_mutex) {} =
      Ret (AE_OK, Some x, ns', mi', s') \<and> namespace_at (nodes ns') 0x10 F' \<and> x \<notin> set (addrs [NTree 0x10 small_tree])"
proof -
  have nm: "name_word (AcpiUtRepairName (name_bytes 0x31494350)) = 0x31494350" by code_simp
  let ?c = "\<lparr>ListName = 1, ListHead = [0x50], ObjectSize = 28, MaxDepth = 4, CurrentDepth = 1, LinkOffset = 8\<rparr> :: cache"
  have p: "pool (set (addrs [NTree 0x10 small_tree])) ?c" by (auto simp: pool_def small_tree_def)
  have f: "find (\<lambda>t. name_at (nodes small_ns) (addr t) = 0x31494350) (children_of 0x20 [NTree 0x10 small_tree]) = None"
    by (simp add: small_ns_def small_tree_def name_at_def small_heap_def mk_node_def)
  show ?thesis
    using search_and_enter_keeps_tree [of small_ns "0x10" small_tree "0x20" "0x31494350" ?c set_os 5 "replicate 8 free_mutex" "{}" "\<lambda>_. Ret 0x60" "0x60" None 6 0,
      unfolded nm f] small_namespace p sample_caches_free
    by (simp add: small_ns_def) (auto simp: small_tree_def)
qed

end
