(* ===== verification/AcpiObject.thy ===== *)
theory AcpiObject
  imports AcpiUtil
begin

text \<open>
  The data objects of the AML interpreter and their conversions: creation (utilities/utobject.c),
  integers, strings and buffers into each other (executer/exconvrt.c), the truncation to 32 bits and the
  texts of numbers and EISA identifiers (executer/exutils.c).

  An object is the value of its union: a string or a buffer has its length and the bytes its pointer
  leads to, \<open>[]\<close> for NULL. An access outside of these bytes is \<open>Trap\<close>. A conversion that returns the
  object it was given yields \<open>Source\<close>, since callers compare the pointers. Where memory comes from, with its
  state \<open>'s\<close>, and the platform's ACPI_DIV_64_BY_32 are the record \<open>object_memory\<close>; the global variable \<^verbatim>\<open>AcpiGbl_IntegerByteWidth\<close> is the argument \<open>w\<close>.
\<close>

definition AE_TYPE :: ACPI_STATUS where "AE_TYPE = 0x0008"
definition AE_AML_OPERAND_TYPE :: ACPI_STATUS where "AE_AML_OPERAND_TYPE = 0x3003"
definition AE_AML_BUFFER_LIMIT :: ACPI_STATUS where "AE_AML_BUFFER_LIMIT = 0x300A"
definition AE_AML_INTERNAL :: ACPI_STATUS where "AE_AML_INTERNAL = 0x300F"

section \<open>Objects\<close>

definition ACPI_TYPE_INTEGER :: u32 where "ACPI_TYPE_INTEGER = 0x01"
definition ACPI_TYPE_STRING :: u32 where "ACPI_TYPE_STRING = 0x02"
definition ACPI_TYPE_BUFFER :: u32 where "ACPI_TYPE_BUFFER = 0x03"
definition ACPI_TYPE_REGION :: u32 where "ACPI_TYPE_REGION = 0x0A"
definition ACPI_TYPE_BUFFER_FIELD :: u32 where "ACPI_TYPE_BUFFER_FIELD = 0x0E"
definition ACPI_TYPE_LOCAL_REGION_FIELD :: u32 where "ACPI_TYPE_LOCAL_REGION_FIELD = 0x11"
definition ACPI_TYPE_LOCAL_BANK_FIELD :: u32 where "ACPI_TYPE_LOCAL_BANK_FIELD = 0x12"
definition ACPI_TYPE_LOCAL_INDEX_FIELD :: u32 where "ACPI_TYPE_LOCAL_INDEX_FIELD = 0x13"

lemmas type_codes = ACPI_TYPE_INTEGER_def ACPI_TYPE_STRING_def ACPI_TYPE_BUFFER_def ACPI_TYPE_REGION_def
  ACPI_TYPE_BUFFER_FIELD_def ACPI_TYPE_LOCAL_REGION_FIELD_def ACPI_TYPE_LOCAL_BANK_FIELD_def ACPI_TYPE_LOCAL_INDEX_FIELD_def

text \<open>The last constructor is an object of any type that holds neither of the three.\<close>

datatype acpi_object = Int_Obj u64 | Str_Obj u32 "u8 list" | Buf_Obj u32 "u8 list" | Other_Obj u32

fun object_type :: "acpi_object \<Rightarrow> u32" where
  "object_type (Int_Obj _) = ACPI_TYPE_INTEGER"
| "object_type (Str_Obj _ _) = ACPI_TYPE_STRING"
| "object_type (Buf_Obj _ _) = ACPI_TYPE_BUFFER"
| "object_type (Other_Obj t) = t"

text \<open>
  A descriptor comes from the cache of operands, a block from ACPI_ALLOCATE_ZEROED; False is the NULL pointer.
  \<open>drop_object\<close> gives the last reference to an object back.
\<close>

record 's object_memory =
  div64 :: "u32 \<Rightarrow> u32 \<Rightarrow> u32 \<Rightarrow> (u32 \<times> u32) outcome"
  new_descriptor :: "'s \<Rightarrow> (bool \<times> 's) outcome"
  new_block :: "u32 \<Rightarrow> 's \<Rightarrow> (bool \<times> 's) outcome"
  drop_object :: "'s \<Rightarrow> 's outcome"

definition AcpiUtCreateInternalObject :: "'s object_memory \<Rightarrow> u32 \<Rightarrow> 's \<Rightarrow> (bool \<times> 's) outcome" where
  "AcpiUtCreateInternalObject os Ty s =
     obind (new_descriptor os s) (\<lambda>(ok, s).
     if \<not> ok then Ret (False, s)
     else if Ty = ACPI_TYPE_REGION \<or> Ty = ACPI_TYPE_BUFFER_FIELD \<or> Ty = ACPI_TYPE_LOCAL_BANK_FIELD
     then obind (new_descriptor os s) (\<lambda>(ok, s).
          if \<not> ok then obind (drop_object os s) (\<lambda>s. Ret (False, s)) else Ret (True, s))
     else Ret (True, s))"

definition AcpiUtCreateIntegerObject :: "'s object_memory \<Rightarrow> u64 \<Rightarrow> 's \<Rightarrow> (acpi_object option \<times> 's) outcome" where
  "AcpiUtCreateIntegerObject os InitialValue s =
     obind (AcpiUtCreateInternalObject os ACPI_TYPE_INTEGER s) (\<lambda>(ok, s).
     Ret (if ok then Some (Int_Obj InitialValue) else None, s))"

definition AcpiUtCreateBufferObject :: "'s object_memory \<Rightarrow> u32 \<Rightarrow> 's \<Rightarrow> (acpi_object option \<times> 's) outcome" where
  "AcpiUtCreateBufferObject os BufferSize s =
     obind (AcpiUtCreateInternalObject os ACPI_TYPE_BUFFER s) (\<lambda>(ok, s).
     if \<not> ok then Ret (None, s)
     else if BufferSize > 0
     then obind (new_block os BufferSize s) (\<lambda>(ok, s).
          if \<not> ok then obind (drop_object os s) (\<lambda>s. Ret (None, s))
          else Ret (Some (Buf_Obj BufferSize (replicate (unat BufferSize) 0)), s))
     else Ret (Some (Buf_Obj BufferSize []), s))"

definition AcpiUtCreateStringObject :: "'s object_memory \<Rightarrow> u32 \<Rightarrow> 's \<Rightarrow> (acpi_object option \<times> 's) outcome" where
  "AcpiUtCreateStringObject os StringSize s =
     obind (AcpiUtCreateInternalObject os ACPI_TYPE_STRING s) (\<lambda>(ok, s).
     if \<not> ok then Ret (None, s)
     else obind (new_block os (StringSize + 1) s) (\<lambda>(ok, s).
          if \<not> ok then obind (drop_object os s) (\<lambda>s. Ret (None, s))
          else Ret (Some (Str_Obj StringSize (replicate (unat (StringSize + 1)) 0)), s)))"

section \<open>Memory of an object\<close>

text \<open>Reading and writing bytes of a block, and the string that starts at its first byte.\<close>

definition load :: "nat \<Rightarrow> u8 list \<Rightarrow> u8 list outcome" where
  "load n b = (if n \<le> length b then Ret (take n b) else Trap)"

definition save :: "u8 list \<Rightarrow> nat \<Rightarrow> u8 list \<Rightarrow> u8 list outcome" where
  "save b p x = (if p + length x \<le> length b then Ret (take p b @ x @ drop (p + length x) b) else Trap)"

definition c_string :: "u8 list \<Rightarrow> u8 list outcome" where
  "c_string b = (if 0 \<in> set b then Ret (takeWhile (\<lambda>c. c \<noteq> 0) b) else Trap)"

text \<open>The kernel's strncpy (lib/libc/string.c): after \<open>n\<close> bytes without a NUL its count is the largest size.\<close>

fun string_copy :: "nat \<Rightarrow> u8 list \<Rightarrow> u8 list \<Rightarrow> nat \<Rightarrow> (u8 list \<times> nat \<times> u32) outcome" where
  "string_copy 0 src b p = Ret (b, p, 0 - 1)"
| "string_copy (Suc n) src b p =
     (case src of [] \<Rightarrow> Trap
      | c # src \<Rightarrow> obind (save b p [c]) (\<lambda>b. if c = 0 then Ret (b, p, of_nat n) else string_copy n src b (p + 1)))"

definition ACPI_STRNCPY :: "u8 list \<Rightarrow> u8 list \<Rightarrow> u32 \<Rightarrow> u8 list outcome" where
  "ACPI_STRNCPY dest src n =
     obind (string_copy (unat n) src dest 0) (\<lambda>(b, p, n). save b p (replicate (unat n) 0))"

section \<open>Conversions\<close>

datatype converted = Source | New acpi_object

fun result_object :: "acpi_object \<Rightarrow> converted \<Rightarrow> acpi_object" where
  "result_object src Source = src"
| "result_object src (New ob) = ob"

text \<open>What is left of an integer in the interpreter's width.\<close>

definition AcpiExTruncateFor32bitTable :: "u8 \<Rightarrow> acpi_object option \<Rightarrow> acpi_object option" where
  "AcpiExTruncateFor32bitTable w ObjDesc =
     (case ObjDesc of Some (Int_Obj v) \<Rightarrow> Some (Int_Obj (if w = 4 then v AND 0xFFFFFFFF else v)) | _ \<Rightarrow> ObjDesc)"

text \<open>The loop over the bytes of a buffer, the first one lowest.\<close>

fun collect_bytes :: "u8 list \<Rightarrow> nat \<Rightarrow> u64 \<Rightarrow> u64" where
  "collect_bytes [] i Result = Result"
| "collect_bytes (c # Pointer) i Result = collect_bytes Pointer (i + 1) (Result OR push_bit (i * 8) (ucast c))"

definition finish_object :: "acpi_object option \<Rightarrow> ACPI_STATUS + converted" where
  "finish_object ob = (case ob of None \<Rightarrow> Inl AE_NO_MEMORY | Some x \<Rightarrow> Inr (New x))"

definition AcpiExConvertToInteger ::
  "'s object_memory \<Rightarrow> u8 \<Rightarrow> acpi_object \<Rightarrow> u32 \<Rightarrow> 's \<Rightarrow> ((ACPI_STATUS + converted) \<times> 's) outcome" where
  "AcpiExConvertToInteger os w ObjDesc Flags s =
     (let create = (\<lambda>Result. obind (AcpiUtCreateIntegerObject os Result s) (\<lambda>(ReturnDesc, s).
            Ret (finish_object (AcpiExTruncateFor32bitTable w ReturnDesc), s)))
      in case ObjDesc of
           Int_Obj _ \<Rightarrow> Ret (Inr Source, s)
         | Str_Obj _ Pointer \<Rightarrow> obind (c_string Pointer) (\<lambda>String.
             obind (AcpiUtStrtoul64 (div64 os) w String Flags) (\<lambda>r.
             case r of Inl Status \<Rightarrow> Ret (Inl Status, s) | Inr Result \<Rightarrow> create Result))
         | Buf_Obj Count Pointer \<Rightarrow>
             if Count = 0 then Ret (Inl AE_AML_BUFFER_LIMIT, s)
             else obind (load (unat (if Count > ucast w then ucast w else Count)) Pointer) (\<lambda>b. create (collect_bytes b 0 0))
         | Other_Obj _ \<Rightarrow> Ret (Inl AE_TYPE, s))"

text \<open>The bytes of an integer in memory.\<close>

definition integer_bytes :: "u64 \<Rightarrow> u8 list" where
  "integer_bytes v = map (\<lambda>i. ucast (drop_bit (8 * i) v)) [0..<8]"

definition AcpiExConvertToBuffer :: "'s object_memory \<Rightarrow> u8 \<Rightarrow> acpi_object \<Rightarrow> 's \<Rightarrow> ((ACPI_STATUS + converted) \<times> 's) outcome" where
  "AcpiExConvertToBuffer os w ObjDesc s =
     (case ObjDesc of
        Buf_Obj _ _ \<Rightarrow> Ret (Inr Source, s)
      | Int_Obj v \<Rightarrow> obind (AcpiUtCreateBufferObject os (ucast w) s) (\<lambda>(ReturnDesc, s).
          case ReturnDesc of
            Some (Buf_Obj n NewBuf) \<Rightarrow> obind (load (unat w) (integer_bytes v)) (\<lambda>b. obind (save NewBuf 0 b) (\<lambda>NewBuf.
              Ret (Inr (New (Buf_Obj n NewBuf)), s)))
          | _ \<Rightarrow> Ret (Inl AE_NO_MEMORY, s))
      | Str_Obj Len Pointer \<Rightarrow> obind (AcpiUtCreateBufferObject os (Len + 1) s) (\<lambda>(ReturnDesc, s).
          case ReturnDesc of
            Some (Buf_Obj n NewBuf) \<Rightarrow> obind (ACPI_STRNCPY NewBuf Pointer Len) (\<lambda>NewBuf. Ret (Inr (New (Buf_Obj n NewBuf)), s))
          | _ \<Rightarrow> Ret (Inl AE_NO_MEMORY, s))
      | Other_Obj _ \<Rightarrow> Ret (Inl AE_TYPE, s))"

section \<open>Numbers as text\<close>

definition AcpiGbl_HexToAscii :: "u8 list" where
  "AcpiGbl_HexToAscii = [0x30, 0x31, 0x32, 0x33, 0x34, 0x35, 0x36, 0x37, 0x38, 0x39, 0x41, 0x42, 0x43, 0x44, 0x45, 0x46]"

definition AcpiUtHexToAsciiChar :: "u64 \<Rightarrow> nat \<Rightarrow> u8" where
  "AcpiUtHexToAsciiChar Integer Position = AcpiGbl_HexToAscii ! unat (drop_bit Position Integer AND 0xF)"

text \<open>\<open>i\<close> divisions by ten; the remainder is that of the last one.\<close>

fun divide_by_ten :: "(u32 \<Rightarrow> u32 \<Rightarrow> u32 \<Rightarrow> (u32 \<times> u32) outcome) \<Rightarrow> nat \<Rightarrow> u64 \<Rightarrow> u32 \<Rightarrow> (u64 \<times> u32) outcome" where
  "divide_by_ten dv 0 Digit Remainder = Ret (Digit, Remainder)"
| "divide_by_ten dv (Suc j) Digit Remainder = obind (AcpiUtShortDivide dv Digit 10) (\<lambda>r. case r of
     Inl _ \<Rightarrow> divide_by_ten dv j Digit Remainder | Inr (Digit, Remainder) \<Rightarrow> divide_by_ten dv j Digit Remainder)"

text \<open>The digits from place \<open>i\<close> on, the leading zeros left out.\<close>

fun decimal_digits :: "(u32 \<Rightarrow> u32 \<Rightarrow> u32 \<Rightarrow> (u32 \<times> u32) outcome) \<Rightarrow> u64 \<Rightarrow> nat \<Rightarrow> bool \<Rightarrow> u32 \<Rightarrow> u8 list outcome" where
  "decimal_digits dv Integer 0 SupressZeros Remainder = Ret []"
| "decimal_digits dv Integer (Suc i) SupressZeros Remainder =
     obind (divide_by_ten dv (Suc i) Integer Remainder) (\<lambda>(_, Remainder).
     let SupressZeros = (SupressZeros \<and> Remainder = 0)
     in obind (decimal_digits dv Integer i SupressZeros Remainder) (\<lambda>String.
        Ret (if SupressZeros then String else ucast (0x30 + Remainder) # String)))"

text \<open>The characters that AcpiExConvertToAscii stores, without the NUL behind them; \<open>None\<close> when it stores nothing.\<close>

definition ascii_digits :: "(u32 \<Rightarrow> u32 \<Rightarrow> u32 \<Rightarrow> (u32 \<times> u32) outcome) \<Rightarrow> u64 \<Rightarrow> u16 \<Rightarrow> u8 \<Rightarrow> u8 list option outcome" where
  "ascii_digits dv Integer Base DataWidth =
     (if Base = 10
      then obind (decimal_digits dv Integer (if DataWidth = 1 then 3 else if DataWidth = 4 then 10 else 20) True 0) (\<lambda>ds.
           Ret (Some (if ds = [] then [0x30] else ds)))
      else if Base = 16
      then let ds = map (\<lambda>j. AcpiUtHexToAsciiChar Integer (4 * j)) (rev [0..<2 * unat DataWidth])
           in Ret (Some (if ds = [] then [0x30] else ds))
      else Ret None)"

text \<open>The digits and a NUL go to \<open>p\<close>; the number of digits is returned.\<close>

definition AcpiExConvertToAscii :: "(u32 \<Rightarrow> u32 \<Rightarrow> u32 \<Rightarrow> (u32 \<times> u32) outcome) \<Rightarrow> u64 \<Rightarrow> u16 \<Rightarrow> u8 list \<Rightarrow> nat \<Rightarrow> u8 \<Rightarrow> (u8 list \<times> nat) outcome" where
  "AcpiExConvertToAscii dv Integer Base String p DataWidth =
     obind (ascii_digits dv Integer Base DataWidth) (\<lambda>d. case d of
       None \<Rightarrow> Ret (String, 0)
     | Some ds \<Rightarrow> obind (save String p (ds @ [0])) (\<lambda>String. Ret (String, length ds)))"

definition ACPI_EXPLICIT_CONVERT_HEX :: u32 where "ACPI_EXPLICIT_CONVERT_HEX = 1"
definition ACPI_IMPLICIT_CONVERT_HEX :: u32 where "ACPI_IMPLICIT_CONVERT_HEX = 2"
definition ACPI_EXPLICIT_CONVERT_DECIMAL :: u32 where "ACPI_EXPLICIT_CONVERT_DECIMAL = 3"

lemmas convert_codes = ACPI_EXPLICIT_CONVERT_HEX_def ACPI_IMPLICIT_CONVERT_HEX_def ACPI_EXPLICIT_CONVERT_DECIMAL_def

text \<open>The length of a byte in decimal, with a separator.\<close>

fun decimal_room :: "u8 list \<Rightarrow> u32 \<Rightarrow> u32" where
  "decimal_room [] StringLength = StringLength"
| "decimal_room (c # b) StringLength =
     decimal_room b (StringLength + (if c \<ge> 100 then 4 else if c \<ge> 10 then 3 else 2))"

fun list_bytes :: "(u32 \<Rightarrow> u32 \<Rightarrow> u32 \<Rightarrow> (u32 \<times> u32) outcome) \<Rightarrow> u16 \<Rightarrow> u8 \<Rightarrow> u8 list \<Rightarrow> u8 list \<Rightarrow> nat \<Rightarrow> (u8 list \<times> nat) outcome" where
  "list_bytes dv Base Separator [] NewBuf p = Ret (NewBuf, p)"
| "list_bytes dv Base Separator (c # b) NewBuf p =
     obind (AcpiExConvertToAscii dv (ucast c) Base NewBuf p 1) (\<lambda>(NewBuf, k).
     obind (save NewBuf (p + k) [Separator]) (\<lambda>NewBuf. list_bytes dv Base Separator b NewBuf (p + k + 1)))"

definition AcpiExConvertToString :: "'s object_memory \<Rightarrow> u8 \<Rightarrow> acpi_object \<Rightarrow> u32 \<Rightarrow> 's \<Rightarrow> ((ACPI_STATUS + converted) \<times> 's) outcome" where
  "AcpiExConvertToString os w ObjDesc Ty s =
     (case ObjDesc of
        Str_Obj _ _ \<Rightarrow> Ret (Inr Source, s)
      | Int_Obj v \<Rightarrow>
          let Base = (if Ty = ACPI_EXPLICIT_CONVERT_DECIMAL then 10 else 16);
              StringLength = (if Ty = ACPI_EXPLICIT_CONVERT_DECIMAL then 20 else 2 * ucast w)
          in obind (AcpiUtCreateStringObject os StringLength s) (\<lambda>(ReturnDesc, s).
             case ReturnDesc of
               Some (Str_Obj _ NewBuf) \<Rightarrow> obind (AcpiExConvertToAscii (div64 os) v Base NewBuf 0 w) (\<lambda>(NewBuf, k).
                 obind (save NewBuf k [0]) (\<lambda>NewBuf. Ret (Inr (New (Str_Obj (of_nat k) NewBuf)), s)))
             | _ \<Rightarrow> Ret (Inl AE_NO_MEMORY, s))
      | Buf_Obj Len Pointer \<Rightarrow>
          if \<not> (Ty = ACPI_EXPLICIT_CONVERT_DECIMAL \<or> Ty = ACPI_IMPLICIT_CONVERT_HEX \<or> Ty = ACPI_EXPLICIT_CONVERT_HEX)
          then Ret (Inl AE_BAD_PARAMETER, s)
          else obind (load (unat Len) Pointer) (\<lambda>b.
          let Base = (if Ty = ACPI_EXPLICIT_CONVERT_DECIMAL then 10 else 16);
              Separator = (if Ty = ACPI_IMPLICIT_CONVERT_HEX then 0x20 else 0x2C);
              StringLength = (if Ty = ACPI_EXPLICIT_CONVERT_DECIMAL then decimal_room b 0 else Len * 3)
          in obind (AcpiUtCreateStringObject os (if StringLength \<noteq> 0 then StringLength - 1 else StringLength) s) (\<lambda>(ReturnDesc, s).
             case ReturnDesc of
               Some (Str_Obj n NewBuf) \<Rightarrow> obind (list_bytes (div64 os) Base Separator b NewBuf 0) (\<lambda>(NewBuf, p).
                 obind (save NewBuf (if Len \<noteq> 0 then p - 1 else p) [0]) (\<lambda>NewBuf. Ret (Inr (New (Str_Obj n NewBuf)), s)))
             | _ \<Rightarrow> Ret (Inl AE_NO_MEMORY, s)))
      | Other_Obj _ \<Rightarrow> Ret (Inl AE_TYPE, s))"

definition ARGI_INTEGER_REF :: u32 where "ARGI_INTEGER_REF = 0x0B"
definition ARGI_REFERENCE :: u32 where "ARGI_REFERENCE = 0x0E"
definition ARGI_TARGETREF :: u32 where "ARGI_TARGETREF = 0x0F"
definition ARGI_FIXED_TARGET :: u32 where "ARGI_FIXED_TARGET = 0x10"
definition ARGI_SIMPLE_TARGET :: u32 where "ARGI_SIMPLE_TARGET = 0x11"

lemmas argi_codes = ARGI_INTEGER_REF_def ARGI_REFERENCE_def ARGI_TARGETREF_def ARGI_FIXED_TARGET_def ARGI_SIMPLE_TARGET_def

text \<open>\<open>ArgType\<close> is the type of the current argument of the opcode, GET_CURRENT_ARG_TYPE.\<close>

definition AcpiExConvertToTargetType ::
  "'s object_memory \<Rightarrow> u8 \<Rightarrow> u32 \<Rightarrow> u32 \<Rightarrow> acpi_object \<Rightarrow> 's \<Rightarrow> ((ACPI_STATUS + converted) \<times> 's) outcome" where
  "AcpiExConvertToTargetType os w ArgType DestinationType SourceDesc s =
     obind
       (if ArgType = ARGI_SIMPLE_TARGET \<or> ArgType = ARGI_FIXED_TARGET \<or> ArgType = ARGI_INTEGER_REF
        then Ret (if DestinationType = ACPI_TYPE_LOCAL_REGION_FIELD then Inr Source
                  else if DestinationType \<noteq> object_type SourceDesc then Inl AE_TYPE else Inr Source, s)
        else if ArgType = ARGI_TARGETREF
        then (if DestinationType = ACPI_TYPE_INTEGER \<or> DestinationType = ACPI_TYPE_BUFFER_FIELD
                 \<or> DestinationType = ACPI_TYPE_LOCAL_BANK_FIELD \<or> DestinationType = ACPI_TYPE_LOCAL_INDEX_FIELD
              then AcpiExConvertToInteger os w SourceDesc 16 s
              else if DestinationType = ACPI_TYPE_STRING then AcpiExConvertToString os w SourceDesc ACPI_IMPLICIT_CONVERT_HEX s
              else if DestinationType = ACPI_TYPE_BUFFER then AcpiExConvertToBuffer os w SourceDesc s
              else Ret (Inl AE_AML_INTERNAL, s))
        else if ArgType = ARGI_REFERENCE then Ret (Inr Source, s)
        else Ret (Inl AE_AML_INTERNAL, s))
       (\<lambda>(r, s). Ret (case r of Inl Status \<Rightarrow> if Status = AE_TYPE then Inr Source else r | Inr _ \<Rightarrow> r, s))"

section \<open>Texts of other numbers\<close>

text \<open>The loop that counts digits; the division makes the value smaller, for a base of at least 2.\<close>

partial_function (option) count_digits ::
  "(u32 \<Rightarrow> u32 \<Rightarrow> u32 \<Rightarrow> (u32 \<times> u32) outcome) \<Rightarrow> u64 \<Rightarrow> u32 \<Rightarrow> u32 \<Rightarrow> u32 outcome option" where
  "count_digits dv CurrentValue Base NumDigits =
     (if CurrentValue = 0 then Some (Ret NumDigits)
      else case AcpiUtShortDivide dv CurrentValue Base of
        Trap \<Rightarrow> Some Trap
      | Hang \<Rightarrow> Some Hang
      | Ret (Inl _) \<Rightarrow> count_digits dv CurrentValue Base (NumDigits + 1)
      | Ret (Inr (q, _)) \<Rightarrow> count_digits dv q Base (NumDigits + 1))"

definition AcpiExDigitsNeeded :: "(u32 \<Rightarrow> u32 \<Rightarrow> u32 \<Rightarrow> (u32 \<times> u32) outcome) \<Rightarrow> u64 \<Rightarrow> u32 \<Rightarrow> u32 outcome" where
  "AcpiExDigitsNeeded dv Value Base = (if Value = 0 then Ret 1 else of_loop (count_digits dv Value Base 0))"

text \<open>The loop that stores the digits from the last one on, with the remainder of the step before.\<close>

fun place_digits :: "(u32 \<Rightarrow> u32 \<Rightarrow> u32 \<Rightarrow> (u32 \<times> u32) outcome) \<Rightarrow> nat \<Rightarrow> u64 \<Rightarrow> u32 \<Rightarrow> u8 list \<Rightarrow> u8 list outcome" where
  "place_digits dv 0 Value Remainder OutString = Ret OutString"
| "place_digits dv (Suc c) Value Remainder OutString =
     obind (AcpiUtShortDivide dv Value 10) (\<lambda>r.
     case (case r of Inl _ \<Rightarrow> (Value, Remainder) | Inr p \<Rightarrow> p) of (Value, Remainder) \<Rightarrow>
     obind (save OutString c [ucast (0x30 + Remainder)]) (\<lambda>OutString. place_digits dv c Value Remainder OutString))"

definition AcpiExIntegerToString :: "(u32 \<Rightarrow> u32 \<Rightarrow> u32 \<Rightarrow> (u32 \<times> u32) outcome) \<Rightarrow> u8 list \<Rightarrow> u64 \<Rightarrow> u8 list outcome" where
  "AcpiExIntegerToString dv OutString Value =
     obind (AcpiExDigitsNeeded dv Value 10) (\<lambda>DigitsNeeded.
     obind (save OutString (unat DigitsNeeded) [0]) (\<lambda>OutString. place_digits dv (unat DigitsNeeded) Value 0 OutString))"

definition AcpiExEisaIdToString :: "u8 list \<Rightarrow> u64 \<Rightarrow> u8 list outcome" where
  "AcpiExEisaIdToString OutString CompressedId =
     (let SwappedId = AcpiUtDwordByteSwap (ucast CompressedId);
          letter = (\<lambda>k. ucast (0x40 + (drop_bit k SwappedId AND 0x1F)));
          hex = (\<lambda>k. AcpiUtHexToAsciiChar (ucast SwappedId) k)
      in save OutString 0 [letter 26, letter 21, letter 16, hex 12, hex 8, hex 4, hex 0, 0])"

definition AcpiIsValidSpaceId :: "u8 \<Rightarrow> bool" where
  "AcpiIsValidSpaceId Region \<longleftrightarrow> \<not> (Region \<ge> 0x0B \<and> Region < 0x80 \<and> Region \<noteq> 0x7E \<and> Region \<noteq> 0x7F)"

section \<open>Creation and memory\<close>

text \<open>A memory that never runs out.\<close>

definition gives_memory :: "'s object_memory \<Rightarrow> bool" where
  "gives_memory os \<longleftrightarrow> (\<forall>s. \<exists>s'. new_descriptor os s = Ret (True, s')) \<and> (\<forall>n s. \<exists>s'. new_block os n s = Ret (True, s'))"

lemma creates_object: "gives_memory os \<Longrightarrow> \<exists>s'. AcpiUtCreateInternalObject os Ty s = Ret (True, s')"
proof -
  assume "gives_memory os"
  then have d: "\<exists>s'. new_descriptor os s = Ret (True, s')" for s unfolding gives_memory_def by blast
  obtain s1 where s1: "new_descriptor os s = Ret (True, s1)" using d ..
  obtain s2 where s2: "new_descriptor os s1 = Ret (True, s2)" using d ..
  show ?thesis by (simp add: AcpiUtCreateInternalObject_def s1 s2)
qed

lemma creates_integer: "gives_memory os \<Longrightarrow> \<exists>s'. AcpiUtCreateIntegerObject os v s = Ret (Some (Int_Obj v), s')"
  using creates_object [of os ACPI_TYPE_INTEGER s] by (auto simp: AcpiUtCreateIntegerObject_def)

lemma creates_buffer: "gives_memory os \<Longrightarrow> \<exists>s'. AcpiUtCreateBufferObject os n s = Ret (Some (Buf_Obj n (replicate (unat n) 0)), s')"
proof -
  assume m: "gives_memory os"
  obtain s1 where s1: "AcpiUtCreateInternalObject os ACPI_TYPE_BUFFER s = Ret (True, s1)" using creates_object [OF m] by blast
  obtain s2 where "new_block os n s1 = Ret (True, s2)" using m unfolding gives_memory_def by metis
  with s1 show ?thesis by (cases "n = 0") (auto simp: AcpiUtCreateBufferObject_def word_neq_0_conv)
qed

lemma creates_string:
  "gives_memory os \<Longrightarrow> \<exists>s'. AcpiUtCreateStringObject os n s = Ret (Some (Str_Obj n (replicate (unat (n + 1)) 0)), s')"
proof -
  assume m: "gives_memory os"
  obtain s1 where s1: "AcpiUtCreateInternalObject os ACPI_TYPE_STRING s = Ret (True, s1)" using creates_object [OF m] by blast
  obtain s2 where "new_block os (n + 1) s1 = Ret (True, s2)" using m unfolding gives_memory_def by metis
  with s1 show ?thesis by (auto simp: AcpiUtCreateStringObject_def)
qed

lemma created_buffer: "AcpiUtCreateBufferObject os n s = Ret (Some ob, s') \<Longrightarrow> ob = Buf_Obj n (replicate (unat n) 0)"
  by (cases "n = 0") (auto simp: AcpiUtCreateBufferObject_def obind_eq_Ret word_neq_0_conv split: if_splits)

lemma created_string: "AcpiUtCreateStringObject os n s = Ret (Some ob, s') \<Longrightarrow> ob = Str_Obj n (replicate (unat (n + 1)) 0)"
  by (auto simp: AcpiUtCreateStringObject_def obind_eq_Ret split: if_splits)

lemma created_integer: "AcpiUtCreateIntegerObject os v s = Ret (Some ob, s') \<Longrightarrow> ob = Int_Obj v"
  by (auto simp: AcpiUtCreateIntegerObject_def obind_eq_Ret split: if_splits)

lemma save_middle: "length x = length y \<Longrightarrow> save (a @ x @ b) (length a) y = Ret (a @ y @ b)"
  by (simp add: save_def)

lemma save_length: "save b p x = Ret b' \<Longrightarrow> length b' = length b"
  by (auto simp: save_def split: if_splits)

text \<open>The objects the interpreter builds: a string ends at its first NUL, and nothing is longer than its block.\<close>

fun object_ok :: "acpi_object \<Rightarrow> bool" where
  "object_ok (Int_Obj v) = True"
| "object_ok (Str_Obj n b) = (unat n < length b \<and> b ! unat n = 0 \<and> 0 \<notin> set (take (unat n) b))"
| "object_ok (Buf_Obj n b) = (unat n \<le> length b)"
| "object_ok (Other_Obj t) = (t \<notin> {ACPI_TYPE_INTEGER, ACPI_TYPE_STRING, ACPI_TYPE_BUFFER})"

lemma object_ok_string: "object_ok (Str_Obj n b) \<Longrightarrow> \<exists>rest. b = take (unat n) b @ 0 # rest"
  by (metis Cons_nth_drop_Suc append_take_drop_id object_ok.simps(2))

lemma c_string_text: "0 \<notin> set x \<Longrightarrow> c_string (x @ 0 # rest) = Ret x"
proof -
  assume x: "0 \<notin> set x"
  then have "takeWhile (\<lambda>c. c \<noteq> 0) (x @ 0 # rest) = x @ takeWhile (\<lambda>c. c \<noteq> 0) (0 # rest)"
    by (intro takeWhile_append2) auto
  then show ?thesis by (simp add: c_string_def)
qed

lemma object_text: "object_ok (Str_Obj n b) \<Longrightarrow> c_string b = Ret (take (unat n) b)"
proof -
  assume ok: "object_ok (Str_Obj n b)"
  obtain rest where r: "b = take (unat n) b @ 0 # rest" using object_ok_string [OF ok] ..
  have "c_string (take (unat n) b @ 0 # rest) = Ret (take (unat n) b)" using ok by (intro c_string_text) simp
  then show ?thesis by (simp flip: r)
qed

section \<open>Integers and buffers\<close>

definition truncated :: "u8 \<Rightarrow> u64 \<Rightarrow> u64" where
  "truncated w v = (if w = 4 then v AND 0xFFFFFFFF else v)"

lemma truncate_object: "AcpiExTruncateFor32bitTable w (Some (Int_Obj v)) = Some (Int_Obj (truncated w v))"
  by (simp add: AcpiExTruncateFor32bitTable_def truncated_def)

lemma collect_bytes_bit:
  "bit (collect_bytes b i r) n \<longleftrightarrow> bit r n \<or> (n < 64 \<and> i \<le> n div 8 \<and> n div 8 < i + length b \<and> bit (b ! (n div 8 - i)) (n mod 8))"
proof (induction b arbitrary: i r)
  case (Cons c b)
  have c: "bit (push_bit (i * 8) (ucast c :: u64)) n \<longleftrightarrow> n < 64 \<and> n div 8 = i \<and> bit c (n mod 8)"
  proof -
    have "bit c (n - i * 8) \<longleftrightarrow> n - i * 8 < 8 \<and> bit c (n - i * 8)" using bit_imp_le_length [of c] by auto
    moreover have "i * 8 \<le> n \<and> n - i * 8 < 8 \<longleftrightarrow> n div 8 = i" by auto
    moreover have "n div 8 = i \<Longrightarrow> n - i * 8 = n mod 8" by (metis minus_div_mult_eq_mod)
    ultimately show ?thesis by (auto simp: bit_simps)
  qed
  show ?case unfolding collect_bytes.simps Cons.IH bit_or_iff c
    by (cases "n div 8 = i") (auto simp: nth_Cons' Suc_le_eq)
qed auto

lemma integer_bytes_length [simp]: "length (integer_bytes v) = 8"
  by (simp add: integer_bytes_def)

lemma integer_bytes_collect: "k \<le> 8 \<Longrightarrow> collect_bytes (take k (integer_bytes v)) 0 0 = take_bit (8 * k) v"
proof (rule bit_word_eqI)
  fix n assume k: "k \<le> 8" and n: "n < LENGTH(64)"
  have "bit (take k (integer_bytes v) ! (n div 8)) (n mod 8) \<longleftrightarrow> bit v n" if "n div 8 < k"
    using that k n by (simp add: integer_bytes_def bit_simps)
  moreover have "n div 8 < k \<longleftrightarrow> n < 8 * k" by auto
  ultimately show "bit (collect_bytes (take k (integer_bytes v)) 0 0) n \<longleftrightarrow> bit (take_bit (8 * k) v) n"
    using k n by (auto simp: collect_bytes_bit bit_take_bit_iff)
qed

section \<open>Hexadecimal and decimal texts\<close>

lemma hex_digit_enum:
  "list_all (\<lambda>n. digit_of 16 (AcpiGbl_HexToAscii ! n) = Some (of_nat n) \<and> AcpiGbl_HexToAscii ! n \<noteq> 0) [0..<16]"
  "list_all (\<lambda>n. digit_of 10 (of_nat (48 + n)) = Some (of_nat n) \<and> (of_nat (48 + n) = (48 :: u8) \<longleftrightarrow> n = 0)) [0..<10]"
  by code_simp+

lemma hex_digit: "n < 16 \<Longrightarrow> digit_of 16 (AcpiGbl_HexToAscii ! n) = Some (of_nat n) \<and> AcpiGbl_HexToAscii ! n \<noteq> 0"
  using hex_digit_enum(1) by (simp add: list_all_iff)

lemma decimal_digit:
  "n < 10 \<Longrightarrow> digit_of 10 (of_nat (48 + n)) = Some (of_nat n) \<and> (of_nat (48 + n) = (48 :: u8) \<longleftrightarrow> n = 0)"
  using hex_digit_enum(2) unfolding list_all_iff by (auto dest!: bspec [where x = n])

lemma unat_nybble: "unat (drop_bit k (v :: u64) AND 0xF) = unat v div 2 ^ k mod 16"
proof -
  have "(0xF :: u64) = mask 4" by (simp add: mask_eq_exp_minus_1)
  then have e: "drop_bit k v AND 0xF = take_bit 4 (drop_bit k v)" by (simp only: take_bit_eq_mask)
  show ?thesis unfolding e unsigned_take_bit_eq unat_drop_bit_eq by (simp add: take_bit_eq_mod drop_bit_eq_div)
qed

lemma hex_char: "AcpiUtHexToAsciiChar v (4 * j) = AcpiGbl_HexToAscii ! (unat v div 16 ^ j mod 16)"
proof -
  have "(2 :: nat) ^ (4 * j) = 16 ^ j" by (simp add: power_mult)
  then show ?thesis by (simp add: AcpiUtHexToAsciiChar_def unat_nybble)
qed

text \<open>The places of a number, the highest first.\<close>

definition places :: "nat \<Rightarrow> nat \<Rightarrow> nat \<Rightarrow> nat list" where
  "places b n v = map (\<lambda>j. v div b ^ j mod b) (rev [0..<n])"

lemma places_Suc: "places b (Suc n) v = (v div b ^ n mod b) # places b n v"
  by (simp add: places_def)

lemma value_from_start: "value_from b v ds = v * b ^ length ds + value_from b 0 ds"
proof (induction ds arbitrary: v)
  case (Cons d ds)
  have "value_from b v (d # ds) = (v * b + d) * b ^ length ds + value_from b 0 ds" using Cons.IH [of "v * b + d"] by simp
  also have "\<dots> = v * b ^ length (d # ds) + value_from b 0 (d # ds)" using Cons.IH [of d] by (simp add: algebra_simps)
  finally show ?case .
qed simp

lemma places_value: "0 < b \<Longrightarrow> digits_value b (places b n v) = v mod b ^ n"
proof (induction n)
  case (Suc n)
  have "digits_value b (places b (Suc n) v) = v div b ^ n mod b * b ^ n + v mod b ^ n"
    unfolding places_Suc using Suc value_from_start [of b "v div b ^ n mod b" "places b n v"]
    by (simp add: digits_value_def places_def)
  also have "\<dots> = v mod b ^ Suc n" by (metis mod_mult2_eq add.commute mult.commute power_Suc2)
  finally show ?case .
qed (simp add: places_def digits_value_def)

lemma hex_text_digits:
  assumes "s = map (\<lambda>j. AcpiUtHexToAsciiChar v (4 * j)) (rev [0..<n])"
  shows "all_digits 16 s" and "digits 16 s = places 16 n (unat v)"
proof -
  have d: "digit_of 16 (AcpiUtHexToAsciiChar v (4 * j)) = Some (of_nat (unat v div 16 ^ j mod 16))" for j
    unfolding hex_char using hex_digit by simp
  then show "all_digits 16 s" unfolding assms by (auto simp: all_digits_def)
  have "unat (of_nat (unat v div 16 ^ j mod 16) :: u32) = unat v div 16 ^ j mod 16" for j
    by (intro unat_of_nat_eq) (simp add: less_le_trans [OF mod_less_divisor])
  then show "digits 16 s = places 16 n (unat v)" unfolding assms digits_def places_def by (simp add: d)
qed

lemma strtoul64_fits:
  assumes "all_digits 16 s" and "s \<noteq> []" and "digits_value 16 (digits 16 s) \<le> unat (max_integer w)"
  shows "AcpiUtStrtoul64 div_64_by_32 w s 16 = Ret (Inr (of_nat (digits_value 16 (digits 16 s))))"
proof -
  obtain k where k: "k \<le> length s" "AcpiUtStrtoul64 div_64_by_32 w s 16 = Ret (Inr (of_nat (digits_value 16 (take k (digits 16 s)))))"
    "k < length s \<longrightarrow> unat (max_integer w) < digits_value 16 (take (Suc k) (digits 16 s))"
    using strtoul64_hex [of "[]" s w] assms by auto
  have "digits_value 16 (take (Suc k) (digits 16 s)) \<le> digits_value 16 (digits 16 s)"
    unfolding digits_value_def by (rule value_take_mono) simp
  with k(1,3) assms(3) have "k = length s" by linarith
  then show ?thesis using k(2) by (simp add: digits_def)
qed

lemma ten_step: "AcpiUtShortDivide div_64_by_32 v 10 = Ret (Inr (v div 10, of_nat (unat v mod 10)))"
proof -
  have "(ucast (v mod 10) :: u32) = of_nat (unat v mod 10)"
    by (simp add: word_unat_eq_iff unsigned_ucast_eq unat_mod unat_of_nat take_bit_eq_mod)
  then show ?thesis by (simp add: short_divide native_ShortDivide_def)
qed

lemma divide_by_ten_eq:
  "\<exists>q. divide_by_ten div_64_by_32 (Suc i) v r = Ret (q, of_nat (unat v div 10 ^ i mod 10))"
proof (induction i arbitrary: v r)
  case 0
  show ?case by (simp add: ten_step)
next
  case (Suc i)
  have "unat (v div 10) div 10 ^ i mod 10 = unat v div 10 ^ Suc i mod 10" by (simp add: unat_div div_mult2_eq)
  moreover obtain q where "divide_by_ten div_64_by_32 (Suc i) (v div 10) (of_nat (unat v mod 10)) = Ret (q, of_nat (unat (v div 10) div 10 ^ i mod 10))"
    using Suc.IH by blast
  ultimately show ?case by (subst divide_by_ten.simps) (simp add: ten_step)
qed

text \<open>The decimal digits: those of the places, without the leading zeros.\<close>

definition decimal_text :: "nat \<Rightarrow> nat \<Rightarrow> u8 list" where
  "decimal_text n v = map (\<lambda>d. of_nat (48 + d)) (dropWhile (\<lambda>d. d = 0) (places 10 n v))"

lemma decimal_digits_eq:
  "decimal_digits div_64_by_32 v n sz r =
    Ret (map (\<lambda>d. of_nat (48 + d)) ((if sz then dropWhile (\<lambda>d. d = 0) else id) (places 10 n (unat v))))"
proof (induction n arbitrary: sz r)
  case 0
  show ?case by (simp add: places_def)
next
  case (Suc n)
  let ?d = "unat v div 10 ^ n mod 10"
  obtain q where q: "divide_by_ten div_64_by_32 (Suc n) v r = Ret (q, of_nat ?d)" using divide_by_ten_eq by blast
  have u: "unat (of_nat ?d :: u32) = ?d" by (intro unat_of_nat_eq) (simp add: less_le_trans [OF mod_less_divisor])
  have z: "(of_nat ?d :: u32) = 0 \<longleftrightarrow> ?d = 0" unfolding word_unat_eq_iff u unsigned_0 ..
  have c: "ucast (0x30 + of_nat ?d :: u32) = (of_nat (48 + ?d) :: u8)"
  proof -
    have "(0x30 + of_nat ?d :: u32) = of_nat (48 + ?d)" by simp
    moreover have "take_bit 32 (48 + ?d) = 48 + ?d" by (intro take_bit_nat_eq_self) (simp add: less_le_trans [OF mod_less_divisor])
    ultimately show ?thesis by (simp only: unsigned_of_nat) simp
  qed
  show ?case
    unfolding decimal_digits.simps q obind_simps prod.case Let_def z Suc.IH c by (simp add: places_Suc)
qed

lemma places_less: "0 < b \<Longrightarrow> d \<in> set (places b n v) \<Longrightarrow> d < b"
  by (auto simp: places_def)

lemma decimal_text_digits:
  "all_digits 10 (decimal_text n v)" "digits_value 10 (digits 10 (decimal_text n v)) = v mod 10 ^ n"
proof -
  let ?ds = "dropWhile (\<lambda>d. d = 0) (places 10 n v)"
  have l: "d < 10" if "d \<in> set ?ds" for d using places_less [of 10 d n v] set_dropWhileD [OF that] by simp
  have g: "digit_of 10 (of_nat (48 + d)) = Some (of_nat d)" if "d \<in> set ?ds" for d using decimal_digit [OF l [OF that]] by simp
  then show "all_digits 10 (decimal_text n v)" by (auto simp: all_digits_def decimal_text_def)
  have "unat (of_nat d :: u32) = d" if "d \<in> set ?ds" for d using l [OF that] by (intro unat_of_nat_eq) simp
  then have "map (\<lambda>d. unat (the (digit_of 10 (of_nat (48 + d))))) ?ds = ?ds" by (intro map_idI) (simp only: g option.sel)
  then have d: "digits 10 (decimal_text n v) = ?ds" by (simp only: digits_def decimal_text_def map_map comp_def)
  have "value_from 10 0 (dropWhile (\<lambda>d. d = 0) xs) = value_from 10 0 xs" for xs :: "nat list" by (induction xs) auto
  then show "digits_value 10 (digits 10 (decimal_text n v)) = v mod 10 ^ n"
    unfolding d using places_value [of 10 n v] by (simp add: digits_value_def)
qed

lemma decimal_text_empty: "decimal_text n v = [] \<longleftrightarrow> v mod 10 ^ n = 0"
proof
  assume "decimal_text n v = []"
  then show "v mod 10 ^ n = 0" using decimal_text_digits(2) [of n v] by (simp add: digits_def digits_value_def)
next
  assume v: "v mod 10 ^ n = 0"
  have "places 10 m v = replicate m 0" if "m \<le> n" for m using that
  proof (induction m)
    case (Suc m)
    have "10 ^ Suc m dvd v" using v Suc.prems by (meson dvd_trans le_imp_power_dvd mod_eq_0_iff_dvd)
    then have "v div 10 ^ m mod 10 = 0" by (auto elim!: dvdE)
    then show ?case using Suc by (simp add: places_Suc)
  qed (simp add: places_def)
  then have p: "places 10 n v = replicate n 0" by simp
  have "dropWhile (\<lambda>d. d = 0) (replicate n (0 :: nat)) = []" by (induction n) simp_all
  then show "decimal_text n v = []" by (simp add: decimal_text_def p)
qed

lemma decimal_text_length: "length (decimal_text n v) \<le> n"
proof -
  have "length (dropWhile (\<lambda>d. d = 0) (places 10 n v)) \<le> length (places 10 n v)" by (rule length_dropWhile_le)
  then show ?thesis by (simp add: decimal_text_def places_def)
qed

definition shown :: "nat \<Rightarrow> nat \<Rightarrow> u8 list" where
  "shown n v = (if decimal_text n v = [] then [0x30] else decimal_text n v)"

lemma ascii_decimal:
  "ascii_digits div_64_by_32 v 10 w = Ret (Some (shown (if w = 1 then 3 else if w = 4 then 10 else 20) (unat v)))"
proof -
  have "decimal_digits div_64_by_32 v n True 0 = Ret (decimal_text n (unat v))" for n
    by (simp add: decimal_digits_eq decimal_text_def)
  then show ?thesis by (simp add: ascii_digits_def shown_def)
qed

lemma shown_digits: "all_digits 10 (shown n v)" "shown n v \<noteq> []" "digits_value 10 (digits 10 (shown n v)) = v mod 10 ^ n"
proof -
  have z: "digit_of 10 0x30 = Some 0" using decimal_digit [of 0] by simp
  show "all_digits 10 (shown n v)" using decimal_text_digits(1) by (auto simp: shown_def all_digits_def z)
  show "shown n v \<noteq> []" by (simp add: shown_def)
  show "digits_value 10 (digits 10 (shown n v)) = v mod 10 ^ n"
    using decimal_text_digits(2) [of n v] decimal_text_empty [of n v] by (auto simp: shown_def digits_def digits_value_def z)
qed

section \<open>Conversions and back\<close>

lemma convert_ascii:
  assumes "ascii_digits dv v B k = Ret (Some ds)" and "length ds < n"
  shows "AcpiExConvertToAscii dv v B (pre @ replicate n 0) (length pre) k = Ret (pre @ ds @ replicate (n - length ds) 0, length ds)"
proof -
  have "length (ds @ [0]) + (n - length (ds @ [0])) = n" using assms(2) by simp
  then have "replicate n (0 :: u8) = replicate (length (ds @ [0])) 0 @ replicate (n - length (ds @ [0])) 0"
    by (metis replicate_add)
  then have "save (pre @ replicate n 0) (length pre) (ds @ [0]) = Ret (pre @ (ds @ [0]) @ replicate (n - length (ds @ [0])) 0)"
    using save_middle [of "replicate (length (ds @ [0])) 0" "ds @ [0]" pre "replicate (n - length (ds @ [0])) 0"] by simp
  moreover have "[0 :: u8] @ replicate (n - Suc (length ds)) 0 = replicate (n - length ds) 0"
    using assms(2) by (simp add: Suc_diff_Suc flip: replicate_Suc)
  ultimately show ?thesis using assms(1) by (simp add: AcpiExConvertToAscii_def)
qed

definition number_text :: "u8 \<Rightarrow> u32 \<Rightarrow> u64 \<Rightarrow> u8 list" where
  "number_text w Ty v =
     (if Ty = ACPI_EXPLICIT_CONVERT_DECIMAL then shown (if w = 4 then 10 else 20) (unat v)
      else map (\<lambda>j. AcpiUtHexToAsciiChar v (4 * j)) (rev [0..<2 * unat w]))"

lemma shown_length: "0 < n \<Longrightarrow> length (shown n v) \<le> n"
  using decimal_text_length [of n v] by (simp add: shown_def)

lemma integer_to_string:
  assumes "gives_memory os" and "div64 os = div_64_by_32" and "w = 4 \<or> w = 8"
  shows "\<exists>s' k. AcpiExConvertToString os w (Int_Obj v) Ty s =
    Ret (Inr (New (Str_Obj (of_nat (length (number_text w Ty v))) (number_text w Ty v @ 0 # replicate k 0))), s')"
proof -
  let ?B = "if Ty = ACPI_EXPLICIT_CONVERT_DECIMAL then 10 else 16 :: u16" and ?ds = "number_text w Ty v"
  let ?n = "if Ty = ACPI_EXPLICIT_CONVERT_DECIMAL then 20 else 2 * ucast w :: u32"
  have w: "unat w = 4 \<or> unat w = 8" "w \<noteq> 1" using assms(3) by auto
  have a: "ascii_digits div_64_by_32 v ?B w = Ret (Some ?ds)"
  proof (cases "Ty = ACPI_EXPLICIT_CONVERT_DECIMAL")
    case True
    then show ?thesis using w by (simp add: ascii_decimal number_text_def)
  next
    case False
    have "rev [0..<2 * unat w] \<noteq> []" using w by auto
    then show ?thesis using False by (simp add: ascii_digits_def number_text_def)
  qed
  have n: "length ?ds < unat (?n + 1)"
  proof (cases "Ty = ACPI_EXPLICIT_CONVERT_DECIMAL")
    case True
    then show ?thesis using shown_length [of "if w = 4 then 10 else 20" "unat v"] by (auto simp: number_text_def split: if_splits)
  next
    case False
    then show ?thesis using assms(3) by (auto simp: number_text_def)
  qed
  obtain s' where s': "AcpiUtCreateStringObject os ?n s = Ret (Some (Str_Obj ?n (replicate (unat (?n + 1)) 0)), s')"
    using creates_string [OF assms(1)] by blast
  obtain k where k: "unat (?n + 1) - length ?ds = Suc k" using n by (metis Suc_diff_Suc)
  have c: "AcpiExConvertToAscii div_64_by_32 v ?B (replicate (unat (?n + 1)) 0) 0 w = Ret (?ds @ 0 # replicate k 0, length ?ds)"
    using convert_ascii [OF a n, of "[]"] unfolding k by simp
  have "save (?ds @ 0 # replicate k 0) (length ?ds) [0] = Ret (?ds @ 0 # replicate k 0)"
    using save_middle [of "[0]" "[0]" ?ds "replicate k 0"] by simp
  then show ?thesis
    unfolding AcpiExConvertToString_def acpi_object.case Let_def s' assms(2) obind_simps prod.case option.case c by auto
qed

lemma string_to_integer:
  assumes "gives_memory os" and "0 \<notin> set x" and "AcpiUtStrtoul64 (div64 os) w x Flags = Ret (Inr v)"
  shows "\<exists>s'. AcpiExConvertToInteger os w (Str_Obj n (x @ 0 # rest)) Flags s = Ret (Inr (New (Int_Obj (truncated w v))), s')"
proof -
  obtain s' where "AcpiUtCreateIntegerObject os v s = Ret (Some (Int_Obj v), s')" using creates_integer [OF assms(1)] by blast
  then show ?thesis
    using c_string_text [OF assms(2), of rest] assms(3)
    by (auto simp: AcpiExConvertToInteger_def truncate_object finish_object_def)
qed

lemma digits_nonzero: "all_digits 16 x \<Longrightarrow> 0 \<notin> set x" "all_digits 10 x \<Longrightarrow> 0 \<notin> set x"
  using digit_bounds by (fastforce simp: all_digits_def)+

lemma truncated_mod: "w = 4 \<or> w = 8 \<Longrightarrow> unat (truncated w v) = unat v mod 16 ^ (2 * unat w)"
proof -
  have "v AND 0xFFFFFFFF = take_bit 32 v" by (simp add: take_bit_eq_mask mask_eq_exp_minus_1)
  then have "unat (v AND 0xFFFFFFFF) = unat v mod 2 ^ 32" by (simp only: unsigned_take_bit_eq) (simp add: take_bit_eq_mod)
  then show "w = 4 \<or> w = 8 \<Longrightarrow> ?thesis"
    using unat_u64_less [of v] by (auto simp: truncated_def)
qed

lemma truncated_max: "unat (truncated w v) \<le> unat (max_integer w)"
proof -
  have "v AND 0xFFFFFFFF = take_bit 32 v" by (simp add: take_bit_eq_mask mask_eq_exp_minus_1)
  then have "unat (v AND 0xFFFFFFFF) = unat v mod 2 ^ 32" by (simp only: unsigned_take_bit_eq) (simp add: take_bit_eq_mod)
  then have "unat (v AND 0xFFFFFFFF) < 2 ^ 32" by simp
  then show ?thesis using unat_u64_less [of v] by (auto simp: truncated_def max_integer_def)
qed

lemma truncated_id: "unat v \<le> unat (max_integer w) \<Longrightarrow> truncated w v = v"
proof -
  have e: "v AND 0xFFFFFFFF = take_bit 32 v" by (simp add: take_bit_eq_mask mask_eq_exp_minus_1)
  assume "unat v \<le> unat (max_integer w)"
  then show ?thesis
    by (auto simp: truncated_def max_integer_def e word_unat_eq_iff unsigned_take_bit_eq take_bit_nat_eq_self split: if_splits)
qed

lemma truncated_twice: "truncated w (truncated w v) = truncated w v"
  using truncated_max by (rule truncated_id)

lemma buffer_roundtrip:
  assumes "gives_memory os" and "w = 4 \<or> w = 8"
  shows "\<exists>ob s1 s2. AcpiExConvertToBuffer os w (Int_Obj v) s = Ret (Inr (New ob), s1) \<and>
      AcpiExConvertToInteger os w ob 16 s1 = Ret (Inr (New (Int_Obj (truncated w v))), s2)"
proof -
  let ?b = "take (unat w) (integer_bytes v)"
  obtain s1 where s1: "AcpiUtCreateBufferObject os (ucast w) s = Ret (Some (Buf_Obj (ucast w) (replicate (unat w) 0)), s1)"
    using creates_buffer [OF assms(1), of "ucast w" s] assms(2) by auto
  have sv: "save (replicate (unat w) 0) 0 ?b = Ret ?b" using assms(2) by (auto simp: save_def)
  have ld: "load (unat w) (integer_bytes v) = Ret ?b" using assms(2) by (auto simp: load_def)
  have b: "AcpiExConvertToBuffer os w (Int_Obj v) s = Ret (Inr (New (Buf_Obj (ucast w) ?b)), s1)"
    by (simp add: AcpiExConvertToBuffer_def s1 sv ld)
  have t: "take_bit (8 * unat w) v = truncated w v"
    using assms(2) by (elim disjE) (simp_all add: truncated_def take_bit_eq_mask [of 32] mask_eq_exp_minus_1 take_bit_word_eq_self)
  obtain s2 where s2: "AcpiUtCreateIntegerObject os (truncated w v) s1 = Ret (Some (Int_Obj (truncated w v)), s2)"
    using creates_integer [OF assms(1)] by blast
  have "collect_bytes ?b 0 0 = truncated w v" using integer_bytes_collect [of "unat w" v] assms(2) t by auto
  then have "AcpiExConvertToInteger os w (Buf_Obj (ucast w) ?b) 16 s1 = Ret (Inr (New (Int_Obj (truncated w v))), s2)"
    using assms(2) s2 by (auto simp: AcpiExConvertToInteger_def load_def truncate_object finish_object_def truncated_twice)
  with b show ?thesis by blast
qed

lemma hex_roundtrip:
  assumes "gives_memory os" and "div64 os = div_64_by_32" and "w = 4 \<or> w = 8"
  shows "\<exists>ob s1 s2. AcpiExConvertToString os w (Int_Obj v) ACPI_IMPLICIT_CONVERT_HEX s = Ret (Inr (New ob), s1) \<and>
      AcpiExConvertToInteger os w ob 16 s1 = Ret (Inr (New (Int_Obj (truncated w v))), s2)"
proof -
  define x where "x = number_text w ACPI_IMPLICIT_CONVERT_HEX v"
  have xe: "x = map (\<lambda>j. AcpiUtHexToAsciiChar v (4 * j)) (rev [0..<2 * unat w])" by (simp add: x_def number_text_def convert_codes)
  note d = hex_text_digits [OF xe]
  have val: "digits_value 16 (digits 16 x) = unat (truncated w v)"
    unfolding d(2) by (simp add: places_value truncated_mod [OF assms(3)])
  obtain s1 k where s1: "AcpiExConvertToString os w (Int_Obj v) ACPI_IMPLICIT_CONVERT_HEX s = Ret (Inr (New (Str_Obj (of_nat (length x)) (x @ 0 # replicate k 0))), s1)"
    using integer_to_string [OF assms, of v ACPI_IMPLICIT_CONVERT_HEX s] unfolding x_def by blast
  have "x \<noteq> []" unfolding xe using assms(3) by auto
  then have "AcpiUtStrtoul64 (div64 os) w x 16 = Ret (Inr (truncated w v))"
    unfolding assms(2) using strtoul64_fits [OF d(1), of w] val truncated_max by simp
  from string_to_integer [OF assms(1) digits_nonzero(1) [OF d(1)] this] s1
  show ?thesis
    unfolding truncated_twice by blast
qed

lemma decimal_roundtrip:
  assumes "gives_memory os" and "div64 os = div_64_by_32" and "w = 4 \<or> w = 8"
  shows "\<exists>ob s1 s2. AcpiExConvertToString os w (Int_Obj (truncated w v)) ACPI_EXPLICIT_CONVERT_DECIMAL s = Ret (Inr (New ob), s1) \<and>
      AcpiExConvertToInteger os w ob ACPI_ANY_BASE s1 = Ret (Inr (New (Int_Obj (truncated w v))), s2)"
proof -
  let ?n = "if w = 4 then 10 else 20 :: nat"
  define x where "x = number_text w ACPI_EXPLICIT_CONVERT_DECIMAL (truncated w v)"
  have xe: "x = shown ?n (unat (truncated w v))" by (simp add: x_def number_text_def)
  have "unat (truncated w v) < 10 ^ ?n" using truncated_max [of w v] by (auto simp: max_integer_def split: if_splits)
  then have val: "digits_value 10 (digits 10 x) = unat (truncated w v)" unfolding xe shown_digits(3) by simp
  have d: "all_digits 10 x" "x \<noteq> []" unfolding xe by (rule shown_digits)+
  obtain s1 k where s1: "AcpiExConvertToString os w (Int_Obj (truncated w v)) ACPI_EXPLICIT_CONVERT_DECIMAL s =
      Ret (Inr (New (Str_Obj (of_nat (length x)) (x @ 0 # replicate k 0))), s1)"
    using integer_to_string [OF assms, of "truncated w v" ACPI_EXPLICIT_CONVERT_DECIMAL s] unfolding x_def by blast
  have "AcpiUtStrtoul64 (div64 os) w x ACPI_ANY_BASE = Ret (Inr (truncated w v))"
    unfolding assms(2) using decimal_value [of "[]" x w] d val truncated_max [of w v] by simp
  from string_to_integer [OF assms(1) digits_nonzero(2) [OF d(1)] this] s1
  show ?thesis
    unfolding truncated_twice by blast
qed

text \<open>
  C22. An integer converted to a buffer converts back to the same integer in the interpreter's width of 4 or 8 bytes,
  whatever the platform, as long as the memory for the objects is given. So does an integer converted to a hexadecimal
  or decimal string, the latter when it lies in that width, on a platform whose macro ACPI_DIV_64_BY_32 divides, as that of the i386 does: the conversions to
  a decimal string and from a string rest on it. In this kernel the macro only prints, and strings are not
  read back reliably.
\<close>

theorem integer_roundtrips:
  assumes "gives_memory os" and "w = 4 \<or> w = 8"
  shows "(\<exists>ob s1 s2. AcpiExConvertToBuffer os w (Int_Obj v) s = Ret (Inr (New ob), s1) \<and>
      AcpiExConvertToInteger os w ob 16 s1 = Ret (Inr (New (Int_Obj (truncated w v))), s2)) \<and>
    (div64 os = div_64_by_32 \<longrightarrow>
      (\<exists>ob s1 s2. AcpiExConvertToString os w (Int_Obj v) ACPI_IMPLICIT_CONVERT_HEX s = Ret (Inr (New ob), s1) \<and>
        AcpiExConvertToInteger os w ob 16 s1 = Ret (Inr (New (Int_Obj (truncated w v))), s2)) \<and>
      (\<exists>ob s1 s2. AcpiExConvertToString os w (Int_Obj (truncated w v)) ACPI_EXPLICIT_CONVERT_DECIMAL s = Ret (Inr (New ob), s1) \<and>
        AcpiExConvertToInteger os w ob ACPI_ANY_BASE s1 = Ret (Inr (New (Int_Obj (truncated w v))), s2)))"
  using buffer_roundtrip [OF assms] hex_roundtrip [OF assms(1) _ assms(2)] decimal_roundtrip [OF assms(1) _ assms(2)] by blast

section \<open>Strings into buffers\<close>

lemma string_copy_text:
  "0 \<notin> set x \<Longrightarrow> string_copy (length x) (x @ rest) (pre @ replicate (length x) c @ post) (length pre) =
    Ret (pre @ x @ post, length pre + length x, - 1)"
proof (induction x arbitrary: pre)
  case (Cons a x)
  have s: "save (pre @ replicate (length (a # x)) c @ post) (length pre) [a] = Ret ((pre @ [a]) @ replicate (length x) c @ post)"
    using save_middle [of "[c]" "[a]" pre "replicate (length x) c @ post"] by simp
  have "a \<noteq> 0" using Cons.prems by simp
  then show ?case using Cons.IH [of "pre @ [a]"] Cons.prems s by simp
qed simp

text \<open>
  A string is never converted to a buffer: after the copy of its characters the kernel's strncpy goes
  on with NUL bytes for the largest count there is, far beyond the new buffer.
\<close>

theorem string_to_buffer_overruns:
  assumes "gives_memory os" and "object_ok (Str_Obj n b)" and "n \<noteq> 0xFFFFFFFF"
  shows "AcpiExConvertToBuffer os w (Str_Obj n b) s = Trap"
proof -
  let ?x = "take (unat n) b"
  obtain s' where s': "AcpiUtCreateBufferObject os (n + 1) s = Ret (Some (Buf_Obj (n + 1) (replicate (unat (n + 1)) 0)), s')"
    using creates_buffer [OF assms(1)] by blast
  have l: "length ?x = unat n" and z: "0 \<notin> set ?x" using assms(2) by simp_all
  have "unat n \<noteq> 4294967295" using assms(3) by (simp add: word_unat_eq_iff)
  then have "unat (n + 1) = unat n + 1" using unat_u32_less [of n] by (subst unat_word_ariths) simp
  then have r: "replicate (unat (n + 1)) (0 :: u8) = [] @ replicate (length ?x) 0 @ [0]" using l by (simp add: replicate_append_same)
  obtain rest where rest: "b = ?x @ rest" by (metis append_take_drop_id)
  have c: "string_copy (unat n) b (replicate (unat (n + 1)) 0) 0 = Ret (?x @ [0], unat n, - 1)"
    using string_copy_text [OF z, of rest "[]" 0 "[0]"] unfolding r rest [symmetric] l by simp
  have "unat (- 1 :: u32) = 4294967295" by (simp add: unsigned_minus_1_eq_mask mask_eq_exp_minus_1)
  then have "save (?x @ [0]) (unat n) (replicate (unat (- 1 :: u32)) 0) = Trap" using l by (simp add: save_def)
  then have "ACPI_STRNCPY (replicate (unat (n + 1)) 0) b n = Trap" unfolding ACPI_STRNCPY_def c by simp
  then show ?thesis by (simp add: AcpiExConvertToBuffer_def s')
qed

section \<open>Buffers into strings\<close>

fun join :: "u8 \<Rightarrow> u8 list list \<Rightarrow> u8 list" where
  "join sep [] = []"
| "join sep [t] = t"
| "join sep (t # u # ts) = t @ sep # join sep (u # ts)"

lemma join_butlast: "concat (map (\<lambda>t. t @ [sep]) ts) = (if ts = [] then [] else join sep ts @ [sep])"
  by (induction sep ts rule: join.induct) auto

definition byte_text :: "u16 \<Rightarrow> u8 \<Rightarrow> u8 list" where
  "byte_text B c = (if B = 10 then shown 3 (unat c) else [AcpiUtHexToAsciiChar (ucast c) 4, AcpiUtHexToAsciiChar (ucast c) 0])"

lemma byte_ascii: "B = 10 \<or> B = 16 \<Longrightarrow> ascii_digits div_64_by_32 (ucast c) B 1 = Ret (Some (byte_text B c))"
proof -
  assume "B = 10 \<or> B = 16"
  moreover have "rev [0..<2] = [1, 0 :: nat]" by (simp add: numeral_2_eq_2)
  moreover have "unat (ucast c :: u64) = unat c" 
    using unat_u8_less [of c] by (simp add: unsigned_ucast_eq take_bit_nat_eq_self)
  ultimately show ?thesis using ascii_decimal [of "ucast c" 1] by (auto simp: byte_text_def ascii_digits_def)
qed

lemma list_bytes_eq:
  assumes "B = 10 \<or> B = 16" and "length (concat (map (\<lambda>c. byte_text B c @ [sep]) b)) \<le> n"
  shows "list_bytes div_64_by_32 B sep b (pre @ replicate n 0) (length pre) =
    Ret (pre @ concat (map (\<lambda>c. byte_text B c @ [sep]) b) @ replicate (n - length (concat (map (\<lambda>c. byte_text B c @ [sep]) b))) 0,
      length pre + length (concat (map (\<lambda>c. byte_text B c @ [sep]) b)))"
  using assms(2)
proof (induction b arbitrary: pre n)
  case (Cons c b)
  let ?t = "byte_text B c" and ?m = "n - Suc (length (byte_text B c))"
  have n: "length ?t < n" using Cons.prems by simp
  have e: "replicate (n - length ?t) 0 = 0 # replicate ?m (0 :: u8)" using n by (simp add: Suc_diff_Suc flip: replicate_Suc)
  have "save ((pre @ ?t) @ [0] @ replicate ?m 0) (length (pre @ ?t)) [sep] = Ret ((pre @ ?t) @ [sep] @ replicate ?m 0)"
    by (rule save_middle) simp
  then have s: "save (pre @ ?t @ replicate (n - length ?t) 0) (length pre + length ?t) [sep] = Ret ((pre @ ?t @ [sep]) @ replicate ?m 0)"
    unfolding e by simp
  have "length (concat (map (\<lambda>c. byte_text B c @ [sep]) b)) \<le> ?m" using Cons.prems by simp
  from Cons.IH [OF this, of "pre @ ?t @ [sep]"]
  show ?case using convert_ascii [OF byte_ascii [OF assms(1)] n, of pre] s by (simp add: add.assoc)
qed simp

lemma byte_text_length: "length (byte_text B c) \<le> 3" "byte_text B c \<noteq> []"
  using shown_length [of 3 "unat c"] shown_digits(2) by (auto simp: byte_text_def)

lemma shown_byte_length: "n < 256 \<Longrightarrow> length (shown 3 n) = (if n \<ge> 100 then 3 else if n \<ge> 10 then 2 else 1)"
proof -
  assume n: "n < 256"
  have p: "places 10 3 n = [n div 100 mod 10, n div 10 mod 10, n mod 10]"
    by (simp add: numeral_3_eq_3 places_Suc) (simp add: places_def)
  have "n div 100 mod 10 = 0 \<longleftrightarrow> n < 100" "n < 100 \<Longrightarrow> n div 10 mod 10 = 0 \<longleftrightarrow> n < 10" using n by auto
  then show ?thesis by (auto simp: shown_def decimal_text_def p)
qed

lemma decimal_room_eq: "decimal_room b r = r + of_nat (length (concat (map (\<lambda>c. byte_text 10 c @ [sep]) b)))"
proof (induction b arbitrary: r)
  case (Cons c b)
  have "length (byte_text 10 c) = (if unat c \<ge> 100 then 3 else if unat c \<ge> 10 then 2 else 1)"
    using shown_byte_length [OF unat_u8_less [of c]] by (simp add: byte_text_def)
  then have "(of_nat (length (byte_text 10 c @ [sep])) :: u32) = (if c \<ge> 100 then 4 else if c \<ge> 10 then 3 else 2)"
    by (simp add: word_le_nat_alt)
  then show ?case unfolding decimal_room.simps Cons.IH by (simp add: add.assoc)
qed simp

lemma hex_room_eq: "B = 16 \<Longrightarrow> length (concat (map (\<lambda>c. byte_text B c @ [sep]) b)) = 3 * length b"
  by (induction b) (simp_all add: byte_text_def)

lemma text_room: "length (concat (map (\<lambda>c. byte_text B c @ [sep]) b)) \<le> 4 * length b"
proof (induction b)
  case (Cons c b)
  then show ?case using byte_text_length(1) [of B c] by simp
qed simp

lemma of_nat_pos_u32: "0 < k \<Longrightarrow> k < 2 ^ 32 \<Longrightarrow> of_nat k \<noteq> (0 :: u32)"
proof -
  assume "0 < k" "k < 2 ^ 32"
  then have "unat (of_nat k :: u32) \<noteq> 0" by (simp add: unat_of_nat_eq)
  then show ?thesis by (metis unsigned_0)
qed

text \<open>
  A buffer becomes the string of its bytes in order, each as two hexadecimal digits or as a decimal
  number without leading zeros, between commas, or blanks for an implicit conversion, and a NUL; the string
  fills its block exactly.
\<close>

theorem buffer_to_string:
  assumes "gives_memory os" and "div64 os = div_64_by_32" and "length b = unat n" and "4 * unat n < 2 ^ 32"
    and "Ty \<in> {ACPI_EXPLICIT_CONVERT_DECIMAL, ACPI_IMPLICIT_CONVERT_HEX, ACPI_EXPLICIT_CONVERT_HEX}"
    and "t = join (if Ty = ACPI_IMPLICIT_CONVERT_HEX then 0x20 else 0x2C) (map (byte_text (if Ty = ACPI_EXPLICIT_CONVERT_DECIMAL then 10 else 16)) b)"
  shows "\<exists>s'. AcpiExConvertToString os w (Buf_Obj n b) Ty s = Ret (Inr (New (Str_Obj (of_nat (length t)) (t @ [0]))), s')"
proof -
  let ?sep = "if Ty = ACPI_IMPLICIT_CONVERT_HEX then 0x20 else 0x2C :: u8"
  let ?B = "if Ty = ACPI_EXPLICIT_CONVERT_DECIMAL then 10 else 16 :: u16"
  let ?room = "if Ty = ACPI_EXPLICIT_CONVERT_DECIMAL then decimal_room b 0 else n * 3"
  define x where "x = concat (map (\<lambda>c. byte_text ?B c @ [?sep]) b)"
  have x: "x = (if b = [] then [] else t @ [?sep])"
    using join_butlast [of ?sep "map (byte_text ?B) b"] by (simp add: assms(6) x_def comp_def)
  have l: "length x < 2 ^ 32" using text_room [of ?B ?sep b] assms(3,4) unfolding x_def by linarith
  have room: "?room = of_nat (length x)"
  proof (cases "Ty = ACPI_EXPLICIT_CONVERT_DECIMAL")
    case True
    then show ?thesis using decimal_room_eq [of b 0 ?sep] by (simp add: x_def)
  next
    case False
    then show ?thesis using hex_room_eq [of ?B ?sep b] assms(3) by (simp add: x_def)
  qed
  have tl: "length t = length x - 1" using x by (cases "b = []") (simp_all add: assms(6))
  have t: "(if ?room \<noteq> 0 then ?room - 1 else ?room) = of_nat (length t)"
    using of_nat_pos_u32 [of "length x"] l unfolding room tl by (cases "length x") simp_all
  have u: "unat (of_nat (length t) + 1 :: u32) = length t + 1"
  proof -
    have "length t + 1 < 2 ^ 32 \<or> length t = 0" using l tl by auto
    then have "unat (of_nat (length t + 1) :: u32) = length t + 1" by (intro unat_of_nat_eq) auto
    then show ?thesis by (simp only: of_nat_add of_nat_1)
  qed
  obtain s' where s': "AcpiUtCreateStringObject os (of_nat (length t)) s = Ret (Some (Str_Obj (of_nat (length t)) (replicate (length t + 1) 0)), s')"
    using creates_string [OF assms(1), of "of_nat (length t)" s] unfolding u by blast
  have "length x \<le> length t + 1" using tl by simp
  then have L: "list_bytes div_64_by_32 ?B ?sep b (replicate (length t + 1) 0) 0 = Ret (x @ replicate (length t + 1 - length x) 0, length x)"
    using list_bytes_eq [of ?B ?sep b "length t + 1" "[]"] unfolding x_def [symmetric] by simp
  have z: "n \<noteq> 0 \<longleftrightarrow> b \<noteq> []" using assms(3) by (cases b) (auto simp: word_unat_eq_iff)
  have sv: "save (x @ replicate (length t + 1 - length x) 0) (if n \<noteq> 0 then length x - 1 else length x) [0] = Ret (t @ [0])"
  proof (cases "b = []")
    case True
    then show ?thesis using x tl assms(6) z by (simp add: save_def)
  next
    case False
    then show ?thesis using x z save_middle [of "[?sep]" "[0]" t "[]"] by simp
  qed
  have ld: "load (unat n) b = Ret b" using assms(3) by (simp add: load_def)
  show ?thesis
    using s' assms(5)
    unfolding AcpiExConvertToString_def acpi_object.case ld obind_simps Let_def t assms(2) s' prod.case option.case L sv by auto
qed

section \<open>Types\<close>

lemma integer_result:
  "obind (AcpiUtCreateIntegerObject os v s) (\<lambda>(r, s). Ret (finish_object (AcpiExTruncateFor32bitTable w r), s)) =
    obind (AcpiUtCreateIntegerObject os v s) (\<lambda>(r, s). Ret (case r of None \<Rightarrow> Inl AE_NO_MEMORY | Some _ \<Rightarrow> Inr (New (Int_Obj (truncated w v))), s))"
  by (intro obind_cong)
    (auto simp: finish_object_def AcpiExTruncateFor32bitTable_def truncated_def dest!: created_integer split: option.split)

lemma to_integer_type:
  "returns (\<lambda>(r, s). \<forall>c. r = Inr c \<longrightarrow> (\<exists>v. result_object ob c = Int_Obj v)) (AcpiExConvertToInteger os w ob Flags s)"
  unfolding AcpiExConvertToInteger_def Let_def
  unfolding integer_result by (cases ob) (auto intro!: returns_intros split: sum.split option.splits)

lemma to_buffer_type:
  "returns (\<lambda>(r, s). \<forall>c. r = Inr c \<longrightarrow> (\<exists>n b. result_object ob c = Buf_Obj n b)) (AcpiExConvertToBuffer os w ob s)"
  unfolding AcpiExConvertToBuffer_def
  by (cases ob) (auto intro!: returns_intros split: option.split acpi_object.split)

lemma to_string_type:
  "returns (\<lambda>(r, s). \<forall>c. r = Inr c \<longrightarrow> (\<exists>n b. result_object ob c = Str_Obj n b)) (AcpiExConvertToString os w ob Ty s)"
  unfolding AcpiExConvertToString_def Let_def
  by (cases ob) (auto intro!: returns_intros split: option.split acpi_object.split)

lemma conversion_type_error:
  "AcpiExConvertToInteger os w (Other_Obj t) Flags s = Ret (Inl AE_TYPE, s)"
  "AcpiExConvertToBuffer os w (Other_Obj t) s = Ret (Inl AE_TYPE, s)"
  "AcpiExConvertToString os w (Other_Obj t) Ty s = Ret (Inl AE_TYPE, s)"
  by (simp_all add: AcpiExConvertToInteger_def AcpiExConvertToBuffer_def AcpiExConvertToString_def)

lemma bad_constant_type: "bad_constant B \<noteq> AE_TYPE"
  by (simp add: bad_constant_def AE_BAD_DECIMAL_CONSTANT_def AE_BAD_HEX_CONSTANT_def AE_TYPE_def)

lemma strtoul64_loop_status: "returns (\<lambda>r. r \<noteq> Inl AE_TYPE) (strtoul64_loop dv I M S B D x v n)"
  by (induction x arbitrary: v n) (auto intro!: returns_intros simp: bad_constant_type Let_def split: option.split sum.split)

lemma strtoul64_status: "returns (\<lambda>r. r \<noteq> Inl AE_TYPE) (AcpiUtStrtoul64 dv w x F)"
proof -
  have "AE_BAD_PARAMETER \<noteq> AE_TYPE" by (simp add: AE_BAD_PARAMETER_def AE_TYPE_def)
  then show ?thesis
    unfolding AcpiUtStrtoul64_def Let_def by (auto intro!: returns_intros strtoul64_loop_status simp: bad_constant_type)
qed

lemma data_no_type_error:
  assumes "\<nexists>u. ob = Other_Obj u"
  shows "returns (\<lambda>(r, s). r \<noteq> Inl AE_TYPE) (AcpiExConvertToInteger os w ob F s)"
    and "returns (\<lambda>(r, s). r \<noteq> Inl AE_TYPE) (AcpiExConvertToBuffer os w ob s)"
    and "returns (\<lambda>(r, s). r \<noteq> Inl AE_TYPE) (AcpiExConvertToString os w ob Ty s)"
proof -
  have ne: "AE_NO_MEMORY \<noteq> AE_TYPE" "AE_AML_BUFFER_LIMIT \<noteq> AE_TYPE" "AE_BAD_PARAMETER \<noteq> AE_TYPE"
    by (simp_all add: AE_NO_MEMORY_def AE_TYPE_def AE_AML_BUFFER_LIMIT_def AE_BAD_PARAMETER_def)
  have st: "AcpiUtStrtoul64 dv w x F \<noteq> Ret (Inl AE_TYPE)" for dv x
    using strtoul64_status [of dv w x F] by (auto simp: returns_def)
  show "returns (\<lambda>(r, s). r \<noteq> Inl AE_TYPE) (AcpiExConvertToInteger os w ob F s)"
    using assms ne st unfolding AcpiExConvertToInteger_def Let_def integer_result
    by (cases ob) (auto intro!: returns_intros(1-3) returns_bind split: sum.split option.splits)
  show "returns (\<lambda>(r, s). r \<noteq> Inl AE_TYPE) (AcpiExConvertToBuffer os w ob s)"
    using assms ne unfolding AcpiExConvertToBuffer_def
    by (cases ob) (auto intro!: returns_intros split: option.split acpi_object.split)
  show "returns (\<lambda>(r, s). r \<noteq> Inl AE_TYPE) (AcpiExConvertToString os w ob Ty s)"
    using assms ne unfolding AcpiExConvertToString_def Let_def
    by (cases ob) (auto intro!: returns_intros split: option.split acpi_object.split)
qed

definition integer_target :: "u32 \<Rightarrow> bool" where
  "integer_target t \<longleftrightarrow> t \<in> {ACPI_TYPE_INTEGER, ACPI_TYPE_BUFFER_FIELD, ACPI_TYPE_LOCAL_BANK_FIELD, ACPI_TYPE_LOCAL_INDEX_FIELD}"

definition data_type :: "u32 \<Rightarrow> bool" where
  "data_type t \<longleftrightarrow> t \<in> {ACPI_TYPE_INTEGER, ACPI_TYPE_STRING, ACPI_TYPE_BUFFER}"

text \<open>
  C24. An implicit conversion that succeeds gives an object of the type of the destination, an integer for
  the fields that hold one; only an object that holds no data stays as it is, to overwrite the destination.
\<close>

theorem conversion_types:
  assumes "AcpiExConvertToTargetType os w ARGI_TARGETREF t src s = Ret (Inr c, s')"
    and "object_ok src" and "data_type t \<or> integer_target t"
  shows "if data_type (object_type src) then object_type (result_object src c) = (if integer_target t then ACPI_TYPE_INTEGER else t)
         else c = Source"
proof -
  let ?conv = "if integer_target t then AcpiExConvertToInteger os w src 16 s
    else if t = ACPI_TYPE_STRING then AcpiExConvertToString os w src ACPI_IMPLICIT_CONVERT_HEX s else AcpiExConvertToBuffer os w src s"
  have t: "t = ACPI_TYPE_STRING \<or> t = ACPI_TYPE_BUFFER" if "\<not> integer_target t"
    using that assms(3) by (auto simp: data_type_def integer_target_def)
  define m where "m = ?conv"
  have e: "AcpiExConvertToTargetType os w ARGI_TARGETREF t src s =
    obind m (\<lambda>(r, s). Ret (case r of Inl Status \<Rightarrow> if Status = AE_TYPE then Inr Source else r | Inr _ \<Rightarrow> r, s))"
    using t by (auto simp: AcpiExConvertToTargetType_def integer_target_def argi_codes m_def)
  obtain r where "m = Ret (r, s')" and r2: "(case r of Inl Status \<Rightarrow> if Status = AE_TYPE then Inr Source else r | Inr _ \<Rightarrow> r) = Inr c"
    using assms(1) unfolding e by (auto simp: obind_eq_Ret)
  then have r: "?conv = Ret (r, s')" by (simp add: m_def)
  show ?thesis
  proof (cases "\<exists>u. src = Other_Obj u")
    case True
    then show ?thesis using r r2 assms(2) by (auto simp: conversion_type_error data_type_def split: if_splits)
  next
    case False
    then have d: "data_type (object_type src)" by (cases src) (auto simp: data_type_def)
    have "r \<noteq> Inl AE_TYPE"
      using r returnsD [OF data_no_type_error(1) [OF False, of os w 16 s], of "(r, s')"]
        returnsD [OF data_no_type_error(2) [OF False, of os w s], of "(r, s')"]
        returnsD [OF data_no_type_error(3) [OF False, of os w ACPI_IMPLICIT_CONVERT_HEX s], of "(r, s')"]
      by (auto split: if_splits)
    then have "r = Inr c" using r2 by (auto split: sum.splits if_splits)
    then show ?thesis
      using r d t returnsD [OF to_integer_type [of src os w 16 s], of "(r, s')"] returnsD [OF to_buffer_type [of src os w s], of "(r, s')"]
        returnsD [OF to_string_type [of src os w ACPI_IMPLICIT_CONVERT_HEX s], of "(r, s')"]
      by (auto split: if_splits)
  qed
qed

section \<open>Decimal text and EISA identifiers\<close>

fun digit_total :: "nat \<Rightarrow> nat \<Rightarrow> nat" where
  "digit_total 0 v = 0"
| "digit_total (Suc n) v = (if v = 0 then 0 else Suc (digit_total n (v div 10)))"

lemma count_digits_eq:
  "unat v < 10 ^ n \<Longrightarrow> count_digits div_64_by_32 v 10 k = Some (Ret (k + of_nat (digit_total n (unat v))))"
proof (induction n arbitrary: v k)
  case 0
  then have "v = 0" by (simp add: word_unat_eq_iff)
  then show ?case by (subst count_digits.simps) simp
next
  case (Suc n)
  have "unat (v div 10) < 10 ^ n" using Suc.prems by (simp add: unat_div less_mult_imp_div_less mult.commute)
  from Suc.IH [OF this, of "k + 1"] show ?case
    by (subst count_digits.simps) (simp add: ten_step unat_div unat_eq_zero add.assoc)
qed

lemma digit_total_bounds: "v < 10 ^ n \<Longrightarrow> digit_total n v \<le> n \<and> v < 10 ^ digit_total n v \<and> (v \<noteq> 0 \<longrightarrow> 10 ^ (digit_total n v - 1) \<le> v)"
proof (induction n arbitrary: v)
  case (Suc n)
  have "v div 10 < 10 ^ n" using Suc.prems by (simp add: less_mult_imp_div_less mult.commute)
  note I = Suc.IH [OF this]
  show ?case
  proof (cases "v = 0")
    case False
    have "v < 10 ^ Suc (digit_total n (v div 10))"
      using I div_less_iff_less_mult [of 10 v "10 ^ digit_total n (v div 10)"] by (simp add: mult.commute)
    moreover have "10 ^ (Suc (digit_total n (v div 10)) - 1) \<le> v"
    proof (cases "v div 10 = 0")
      case True
      then have "digit_total n (v div 10) = 0" by (cases n) simp_all
      then show ?thesis using False by simp
    next
      case nz: False
      then obtain d where d: "digit_total n (v div 10) = Suc d" using I by (cases "digit_total n (v div 10)") auto
      then have "10 ^ d \<le> v div 10" using I nz by simp
      then have "10 ^ d * 10 \<le> v div 10 * 10" by simp
      then show ?thesis unfolding d by simp
    qed
    ultimately show ?thesis using I False by simp
  qed simp
qed simp

lemma place_digits_eq:
  "length out = c \<Longrightarrow> place_digits div_64_by_32 c v r (out @ rest) = Ret (map (\<lambda>d. of_nat (48 + d)) (places 10 c (unat v)) @ rest)"
proof (induction c arbitrary: v r out rest)
  case 0
  then show ?case by (simp add: places_def)
next
  case (Suc c)
  obtain pre a where out: "out = pre @ [a]" "length pre = c" using Suc.prems by (metis length_Suc_conv_rev)
  have u: "unat v mod 10 < 2 ^ 32" by (simp add: less_le_trans [OF mod_less_divisor])
  have ch: "ucast (0x30 + of_nat (unat v mod 10) :: u32) = (of_nat (48 + unat v mod 10) :: u8)"
  proof -
    have "(0x30 + of_nat (unat v mod 10) :: u32) = of_nat (48 + unat v mod 10)" by simp
    moreover have "take_bit 32 (48 + unat v mod 10) = 48 + unat v mod 10"
      by (intro take_bit_nat_eq_self) (simp add: less_le_trans [OF mod_less_divisor])
    ultimately show ?thesis by (simp only: unsigned_of_nat) simp
  qed
  have sv: "save (out @ rest) c [of_nat (48 + unat v mod 10)] = Ret (pre @ of_nat (48 + unat v mod 10) # rest)"
    using save_middle [of "[a]" "[of_nat (48 + unat v mod 10)]" pre rest] out by simp
  have "places 10 (Suc c) (unat v) = places 10 c (unat (v div 10)) @ [unat v mod 10]"
    by (simp add: places_def unat_div rev_map [symmetric] upt_conv_Cons flip: map_Suc_upt del: upt_Suc)
      (simp add: rev_map comp_def div_mult2_eq)
  then show ?case
    unfolding place_digits.simps ten_step obind_simps sum.case prod.case ch sv
    using Suc.IH [OF out(2), of "v div 10" _ "of_nat (48 + unat v mod 10) # rest"] by simp
qed

lemma places_leading:
  assumes "v < 10 ^ k" and "k \<le> n"
  shows "places 10 n v = replicate (n - k) 0 @ places 10 k v"
  using assms(2)
proof (induction n)
  case (Suc n)
  show ?case
  proof (cases "k = Suc n")
    case False
    then have k: "k \<le> n" using Suc.prems by simp
    have "(10 :: nat) ^ k \<le> 10 ^ n" using k by (rule power_increasing) simp
    then have "v < 10 ^ n" using assms(1) by linarith
    then have "v div 10 ^ n = 0" by simp
    then show ?thesis using Suc.IH [OF k] k by (simp add: places_Suc Suc_diff_le)
  qed simp
qed (simp add: places_def)

lemma shown_places:
  assumes "v \<noteq> 0" and "v < 10 ^ k" and "10 ^ (k - 1) \<le> v" and "k \<le> n"
  shows "shown n v = map (\<lambda>d. of_nat (48 + d)) (places 10 k v)"
proof -
  obtain j where j: "k = Suc j" using assms(1,2) by (cases k) auto
  have "v div 10 ^ j \<noteq> 0" using assms(3) j by (simp add: div_greater_zero_iff)
  moreover have "v div 10 ^ j < 10" using assms(2) j by (simp add: div_less_iff_less_mult mult.commute)
  ultimately have nz: "v div 10 ^ j mod 10 \<noteq> 0" by simp
  have "dropWhile (\<lambda>d. d = 0) (replicate m 0 @ places 10 k v) = places 10 k v" for m
    using nz by (induction m) (simp_all add: j places_Suc)
  then have "decimal_text n v = map (\<lambda>d. of_nat (48 + d)) (places 10 k v)"
    unfolding decimal_text_def places_leading [OF assms(2,4)] by simp
  then show ?thesis by (simp add: shown_def j places_Suc)
qed

text \<open>
  AcpiExIntegerToString writes the decimal digits of any 64-bit number, without leading zeros, and a NUL
  to the front of a buffer of at least 21 bytes, and nothing else; it counts the digits before.
\<close>

theorem integer_text:
  assumes "21 \<le> length out"
  shows "AcpiExIntegerToString div_64_by_32 out v =
    Ret (shown 20 (unat v) @ 0 # drop (Suc (length (shown 20 (unat v)))) out)"
proof -
  define k where "k = (if v = 0 then 1 else digit_total 20 (unat v))"
  have b: "unat v < 10 ^ 20" using unat_u64_less [of v] by simp
  note B = digit_total_bounds [OF b]
  have k20: "k \<le> 20" using B by (simp add: k_def)
  have d: "AcpiExDigitsNeeded div_64_by_32 v 10 = Ret (of_nat k)"
    using count_digits_eq [OF b, of 0] by (simp add: AcpiExDigitsNeeded_def k_def)
  have s: "shown 20 (unat v) = map (\<lambda>d. of_nat (48 + d)) (places 10 k (unat v))"
  proof (cases "v = 0")
    case True
    then show ?thesis by (simp add: k_def shown_def decimal_text_empty places_def)
  next
    case False
    then have "unat v \<noteq> 0" by (simp add: word_unat_eq_iff)
    then show ?thesis using B False k20 by (intro shown_places) (simp_all add: k_def)
  qed
  have l: "length (shown 20 (unat v)) = k" unfolding s by (simp add: places_def)
  obtain pre a rest where out: "out = pre @ a # rest" "length pre = k"
    using assms k20 by (intro that [of "take k out" "out ! k" "drop (Suc k) out"]) (simp_all add: id_take_nth_drop [symmetric])
  have "save out k [0] = Ret (pre @ 0 # rest)" using save_middle [of "[a]" "[0]" pre rest] out by simp
  moreover have "unat (of_nat k :: u32) = k" using k20 by (intro unat_of_nat_eq) simp
  ultimately show ?thesis
    using place_digits_eq [OF out(2), of v 0 "0 # rest"] out
    unfolding l by (simp add: AcpiExIntegerToString_def d s)
qed

section \<open>At concrete inputs\<close>

text \<open>A memory that counts what it gave.\<close>

definition plenty :: "nat object_memory" where
  "plenty = \<lparr>div64 = div_64_by_32, new_descriptor = (\<lambda>s. Ret (True, s + 1)), new_block = (\<lambda>_ s. Ret (True, s + 1)), drop_object = Ret\<rparr>"

lemma plenty_gives: "gives_memory plenty" "div64 plenty = div_64_by_32"
  by (simp_all add: gives_memory_def plenty_def)

theorem integer_roundtrips_witness:
  "(\<exists>ob s1 s2. AcpiExConvertToBuffer plenty 4 (Int_Obj 0x1234567890) 0 = Ret (Inr (New ob), s1) \<and>
      AcpiExConvertToInteger plenty 4 ob 16 s1 = Ret (Inr (New (Int_Obj 0x34567890)), s2)) \<and>
    (\<exists>ob s1 s2. AcpiExConvertToString plenty 4 (Int_Obj 0x1234567890) ACPI_IMPLICIT_CONVERT_HEX 0 = Ret (Inr (New ob), s1) \<and>
      AcpiExConvertToInteger plenty 4 ob 16 s1 = Ret (Inr (New (Int_Obj 0x34567890)), s2))"
proof -
  have "truncated 4 0x1234567890 = 0x34567890" by (simp add: truncated_def)
  then show ?thesis
    using integer_roundtrips [OF plenty_gives(1), of 4 "0x1234567890" 0] plenty_gives(2) by auto
qed

theorem string_to_buffer_overruns_witness: "AcpiExConvertToBuffer plenty 8 (Str_Obj 2 [0x48, 0x69, 0]) 0 = Trap"
  by (rule string_to_buffer_overruns [OF plenty_gives(1)]) simp_all

theorem buffer_to_string_witness:
  "\<exists>s'. AcpiExConvertToString plenty 8 (Buf_Obj 2 [0x48, 0x69]) ACPI_IMPLICIT_CONVERT_HEX 0 =
    Ret (Inr (New (Str_Obj 5 [0x34, 0x38, 0x20, 0x36, 0x39, 0])), s')"
proof -
  have "\<exists>s'. AcpiExConvertToString plenty 8 (Buf_Obj 2 [0x48, 0x69]) ACPI_IMPLICIT_CONVERT_HEX 0 =
    Ret (Inr (New (Str_Obj (of_nat (length [0x34, 0x38, 0x20, 0x36, 0x39 :: u8])) ([0x34, 0x38, 0x20, 0x36, 0x39] @ [0]))), s')"
    by (rule buffer_to_string [OF plenty_gives])
      (simp_all add: convert_codes byte_text_def AcpiUtHexToAsciiChar_def AcpiGbl_HexToAscii_def drop_bit_eq_div)
  then show ?thesis by simp
qed

theorem conversion_types_witness:
  "object_type (result_object (Int_Obj 7) (New (Buf_Obj 4 [7, 0, 0, 0]))) = ACPI_TYPE_BUFFER"
proof -
  have "AcpiExConvertToTargetType plenty 4 ARGI_TARGETREF ACPI_TYPE_BUFFER (Int_Obj 7) 0 = Ret (Inr (New (Buf_Obj 4 [7, 0, 0, 0])), 2)"
    by code_simp
  then show ?thesis using conversion_types by (fastforce simp: data_type_def integer_target_def type_codes)
qed

theorem integer_text_witness:
  "AcpiExIntegerToString div_64_by_32 (replicate 21 0xFF) 0 = Ret ([0x30, 0] @ replicate 19 0xFF)"
proof -
  have "shown 20 0 = [0x30]" by (simp add: shown_def decimal_text_empty)
  then show ?thesis using integer_text [of "replicate 21 0xFF" 0] by simp
qed

end
