(* ===== verification/AcpiOperator.thy ===== *)
theory AcpiOperator
  imports AcpiObject AcpiResource "HOL-Library.List_Lexorder"
begin

text \<open>
  The operators of AML on data objects: arithmetic, logic and comparison, concatenation of data and of
  resource templates (executer/exmisc.c), the binary coded decimals and bit searches of
  executer/exoparg1.c, and the stores into strings and buffers (executer/exstorob.c).
  The second operand of a comparison or a concatenation is converted to the type of the first one.
\<close>

definition AE_AML_NUMERIC_OVERFLOW :: ACPI_STATUS where "AE_AML_NUMERIC_OVERFLOW = 0x3008"

section \<open>Arithmetic\<close>

definition AML_ADD_OP :: u16 where "AML_ADD_OP = 0x72"
definition AML_SUBTRACT_OP :: u16 where "AML_SUBTRACT_OP = 0x74"
definition AML_MULTIPLY_OP :: u16 where "AML_MULTIPLY_OP = 0x77"
definition AML_SHIFT_LEFT_OP :: u16 where "AML_SHIFT_LEFT_OP = 0x79"
definition AML_SHIFT_RIGHT_OP :: u16 where "AML_SHIFT_RIGHT_OP = 0x7a"
definition AML_BIT_AND_OP :: u16 where "AML_BIT_AND_OP = 0x7b"
definition AML_BIT_NAND_OP :: u16 where "AML_BIT_NAND_OP = 0x7c"
definition AML_BIT_OR_OP :: u16 where "AML_BIT_OR_OP = 0x7d"
definition AML_BIT_NOR_OP :: u16 where "AML_BIT_NOR_OP = 0x7e"
definition AML_BIT_XOR_OP :: u16 where "AML_BIT_XOR_OP = 0x7f"
definition AML_LAND_OP :: u16 where "AML_LAND_OP = 0x90"
definition AML_LOR_OP :: u16 where "AML_LOR_OP = 0x91"
definition AML_LEQUAL_OP :: u16 where "AML_LEQUAL_OP = 0x93"
definition AML_LGREATER_OP :: u16 where "AML_LGREATER_OP = 0x94"
definition AML_LLESS_OP :: u16 where "AML_LLESS_OP = 0x95"

lemmas math_ops = AML_ADD_OP_def AML_SUBTRACT_OP_def AML_MULTIPLY_OP_def AML_SHIFT_LEFT_OP_def AML_SHIFT_RIGHT_OP_def
  AML_BIT_AND_OP_def AML_BIT_NAND_OP_def AML_BIT_OR_OP_def AML_BIT_NOR_OP_def AML_BIT_XOR_OP_def
lemmas logical_ops = AML_LEQUAL_OP_def AML_LGREATER_OP_def AML_LLESS_OP_def

text \<open>\<open>bw\<close> is the global variable \<^verbatim>\<open>AcpiGbl_IntegerBitWidth\<close>.\<close>

definition AcpiExDoMathOp :: "u8 \<Rightarrow> u16 \<Rightarrow> u64 \<Rightarrow> u64 \<Rightarrow> u64 outcome" where
  "AcpiExDoMathOp bw Opcode Integer0 Integer1 =
     (if Opcode = AML_ADD_OP then Ret (Integer0 + Integer1)
      else if Opcode = AML_BIT_AND_OP then Ret (Integer0 AND Integer1)
      else if Opcode = AML_BIT_NAND_OP then Ret (NOT (Integer0 AND Integer1))
      else if Opcode = AML_BIT_OR_OP then Ret (Integer0 OR Integer1)
      else if Opcode = AML_BIT_NOR_OP then Ret (NOT (Integer0 OR Integer1))
      else if Opcode = AML_BIT_XOR_OP then Ret (Integer0 XOR Integer1)
      else if Opcode = AML_MULTIPLY_OP then Ret (Integer0 * Integer1)
      else if Opcode = AML_SHIFT_LEFT_OP then if Integer1 \<ge> ucast bw then Ret 0 else shift_left Integer0 (unat Integer1)
      else if Opcode = AML_SHIFT_RIGHT_OP then if Integer1 \<ge> ucast bw then Ret 0 else shift_right Integer0 (unat Integer1)
      else if Opcode = AML_SUBTRACT_OP then Ret (Integer0 - Integer1)
      else Ret 0)"

definition AcpiExDoLogicalNumericOp :: "u16 \<Rightarrow> u64 \<Rightarrow> u64 \<Rightarrow> ACPI_STATUS \<times> bool" where
  "AcpiExDoLogicalNumericOp Opcode Integer0 Integer1 =
     (if Opcode = AML_LAND_OP then (AE_OK, Integer0 \<noteq> 0 \<and> Integer1 \<noteq> 0)
      else if Opcode = AML_LOR_OP then (AE_OK, Integer0 \<noteq> 0 \<or> Integer1 \<noteq> 0)
      else (AE_AML_INTERNAL, False))"

section \<open>Comparison\<close>

text \<open>Length and bytes of a string or a buffer, which share their layout.\<close>

fun buffer_part :: "acpi_object \<Rightarrow> (u32 \<times> u8 list) outcome" where
  "buffer_part (Str_Obj n b) = Ret (n, b)"
| "buffer_part (Buf_Obj n b) = Ret (n, b)"
| "buffer_part _ = Trap"

text \<open>The kernel's memcmp, whose bytes are signed.\<close>

fun compare_bytes :: "u8 list \<Rightarrow> u8 list \<Rightarrow> int" where
  "compare_bytes (a # s1) (b # s2) = (let diff = sint a - sint b in if diff \<noteq> 0 then diff else compare_bytes s1 s2)"
| "compare_bytes _ _ = 0"

definition ACPI_MEMCMP :: "u8 list \<Rightarrow> u8 list \<Rightarrow> nat \<Rightarrow> int outcome" where
  "ACPI_MEMCMP s1 s2 n = obind (load n s1) (\<lambda>a. obind (load n s2) (\<lambda>b. Ret (compare_bytes a b)))"

text \<open>The second operand in the type of the first.\<close>

definition convert_operand :: "'s object_memory \<Rightarrow> u8 \<Rightarrow> acpi_object \<Rightarrow> acpi_object \<Rightarrow> 's \<Rightarrow> ((ACPI_STATUS + converted) \<times> 's) outcome" where
  "convert_operand os w Operand0 Operand1 s =
     (case Operand0 of
        Int_Obj _ \<Rightarrow> AcpiExConvertToInteger os w Operand1 16 s
      | Str_Obj _ _ \<Rightarrow> AcpiExConvertToString os w Operand1 ACPI_IMPLICIT_CONVERT_HEX s
      | Buf_Obj _ _ \<Rightarrow> AcpiExConvertToBuffer os w Operand1 s
      | Other_Obj _ \<Rightarrow> Ret (Inl AE_AML_INTERNAL, s))"

text \<open>The end of both operations: a temporary object is given back.\<close>

definition drop_converted :: "'s object_memory \<Rightarrow> converted \<Rightarrow> 's \<Rightarrow> 's outcome" where
  "drop_converted os c s = (case c of Source \<Rightarrow> Ret s | New _ \<Rightarrow> drop_object os s)"

definition integer_relation :: "u16 \<Rightarrow> u64 \<Rightarrow> u64 \<Rightarrow> ACPI_STATUS \<times> bool" where
  "integer_relation Opcode Integer0 Integer1 =
     (if Opcode = AML_LEQUAL_OP then (AE_OK, Integer0 = Integer1)
      else if Opcode = AML_LGREATER_OP then (AE_OK, Integer0 > Integer1)
      else if Opcode = AML_LLESS_OP then (AE_OK, Integer0 < Integer1)
      else (AE_AML_INTERNAL, False))"

definition bytes_relation :: "u16 \<Rightarrow> int \<Rightarrow> u32 \<Rightarrow> u32 \<Rightarrow> ACPI_STATUS \<times> bool" where
  "bytes_relation Opcode Compare Length0 Length1 =
     (if Opcode = AML_LEQUAL_OP then (AE_OK, Length0 = Length1 \<and> Compare = 0)
      else if Opcode = AML_LGREATER_OP then (AE_OK, if Compare > 0 then True else if Compare < 0 then False else Length0 > Length1)
      else if Opcode = AML_LLESS_OP then (AE_OK, if Compare > 0 then False else if Compare < 0 then True else Length0 < Length1)
      else (AE_AML_INTERNAL, False))"

definition AcpiExDoLogicalOp ::
  "'s object_memory \<Rightarrow> u8 \<Rightarrow> u16 \<Rightarrow> acpi_object \<Rightarrow> acpi_object \<Rightarrow> 's \<Rightarrow> ((ACPI_STATUS \<times> bool) \<times> 's) outcome" where
  "AcpiExDoLogicalOp os w Opcode Operand0 Operand1 s =
     obind (convert_operand os w Operand0 Operand1 s) (\<lambda>(r, s).
     case r of
       Inl Status \<Rightarrow> Ret ((Status, False), s)
     | Inr c \<Rightarrow>
         obind (case (Operand0, result_object Operand1 c) of
                  (Int_Obj Integer0, Int_Obj Integer1) \<Rightarrow> Ret (integer_relation Opcode Integer0 Integer1)
                | (_, LocalOperand1) \<Rightarrow>
                    obind (buffer_part Operand0) (\<lambda>(Length0, b0).
                    obind (buffer_part LocalOperand1) (\<lambda>(Length1, b1).
                    obind (ACPI_MEMCMP b0 b1 (unat (if Length0 > Length1 then Length1 else Length0))) (\<lambda>Compare.
                    Ret (bytes_relation Opcode Compare Length0 Length1)))))
           (\<lambda>result. obind (drop_converted os c s) (\<lambda>s. Ret (result, s))))"

section \<open>Concatenation\<close>

text \<open>The second and later bytes follow those of the first operand in the new object.\<close>

definition AcpiExDoConcatenate ::
  "'s object_memory \<Rightarrow> u8 \<Rightarrow> acpi_object \<Rightarrow> acpi_object \<Rightarrow> 's \<Rightarrow> ((ACPI_STATUS + acpi_object) \<times> 's) outcome" where
  "AcpiExDoConcatenate os w Operand0 Operand1 s =
     obind (convert_operand os w Operand0 Operand1 s) (\<lambda>(r, s).
     case r of
       Inl Status \<Rightarrow> Ret (Inl Status, s)
     | Inr c \<Rightarrow>
         obind (case (Operand0, result_object Operand1 c) of
             (Int_Obj v0, Int_Obj v1) \<Rightarrow>
               obind (AcpiUtCreateBufferObject os (2 * ucast w) s) (\<lambda>(d, s). case d of
                 Some (Buf_Obj n NewBuf) \<Rightarrow>
                   obind (load (unat w) (integer_bytes v0)) (\<lambda>b0. obind (load (unat w) (integer_bytes v1)) (\<lambda>b1.
                   obind (save NewBuf 0 b0) (\<lambda>NewBuf. obind (save NewBuf (unat w) b1) (\<lambda>NewBuf. Ret (Inr (Buf_Obj n NewBuf), s)))))
               | _ \<Rightarrow> Ret (Inl AE_NO_MEMORY, s))
           | (Str_Obj n0 p0, Str_Obj n1 p1) \<Rightarrow>
               obind (AcpiUtCreateStringObject os (n0 + n1) s) (\<lambda>(d, s). case d of
                 Some (Str_Obj n NewBuf) \<Rightarrow>
                   obind (c_string p0) (\<lambda>t0. obind (c_string p1) (\<lambda>t1.
                   obind (save NewBuf 0 (t0 @ [0])) (\<lambda>NewBuf. obind (save NewBuf (unat n0) (t1 @ [0])) (\<lambda>NewBuf. Ret (Inr (Str_Obj n NewBuf), s)))))
               | _ \<Rightarrow> Ret (Inl AE_NO_MEMORY, s))
           | (Buf_Obj n0 p0, Buf_Obj n1 p1) \<Rightarrow>
               obind (AcpiUtCreateBufferObject os (n0 + n1) s) (\<lambda>(d, s). case d of
                 Some (Buf_Obj n NewBuf) \<Rightarrow>
                   obind (load (unat n0) p0) (\<lambda>b0. obind (load (unat n1) p1) (\<lambda>b1.
                   obind (save NewBuf 0 b0) (\<lambda>NewBuf. obind (save NewBuf (unat n0) b1) (\<lambda>NewBuf. Ret (Inr (Buf_Obj n NewBuf), s)))))
               | _ \<Rightarrow> Ret (Inl AE_NO_MEMORY, s))
           | _ \<Rightarrow> Ret (Inl AE_AML_INTERNAL, s))
           (\<lambda>(r, s). obind (drop_converted os c s) (\<lambda>s. Ret (r, s))))"

definition AcpiExConcatTemplate ::
  "'s object_memory \<Rightarrow> acpi_object \<Rightarrow> acpi_object \<Rightarrow> 's \<Rightarrow> ((ACPI_STATUS + acpi_object) \<times> 's) outcome" where
  "AcpiExConcatTemplate os Operand0 Operand1 s =
     obind (buffer_part Operand0) (\<lambda>(n0, p0). obind (buffer_part Operand1) (\<lambda>(n1, p1).
     obind (AcpiUtGetResourceEndTag p0 (unat n0)) (\<lambda>(Status, EndTag).
     if Status \<noteq> AE_OK then Ret (Inl Status, s)
     else case EndTag of None \<Rightarrow> Trap
     | Some Length0 \<Rightarrow>
         obind (AcpiUtGetResourceEndTag p1 (unat n1)) (\<lambda>(Status, EndTag).
         if Status \<noteq> AE_OK then Ret (Inl Status, s)
         else case EndTag of None \<Rightarrow> Trap
         | Some Length1 \<Rightarrow>
             let NewLength = of_nat Length0 + of_nat Length1 + 2
             in obind (AcpiUtCreateBufferObject os NewLength s) (\<lambda>(d, s). case d of
                  Some (Buf_Obj n NewBuf) \<Rightarrow>
                    obind (load Length0 p0) (\<lambda>b0. obind (load Length1 p1) (\<lambda>b1.
                    obind (save NewBuf 0 b0) (\<lambda>NewBuf. obind (save NewBuf Length0 b1) (\<lambda>NewBuf.
                    obind (save NewBuf (unat NewLength - 1) [0]) (\<lambda>NewBuf.
                    obind (save NewBuf (unat NewLength - 2) [ACPI_RESOURCE_NAME_END_TAG OR 1]) (\<lambda>NewBuf.
                    Ret (Inr (Buf_Obj n NewBuf), s)))))))
                | _ \<Rightarrow> Ret (Inl AE_NO_MEMORY, s))))))"

section \<open>Bits and decimals\<close>

fun left_bit :: "nat \<Rightarrow> u64 \<Rightarrow> u32 \<Rightarrow> u32" where
  "left_bit 0 v Temp32 = Temp32"
| "left_bit (Suc n) v Temp32 = (if v \<noteq> 0 then left_bit n (drop_bit 1 v) (Temp32 + 1) else Temp32)"

definition find_set_left_bit :: "u64 \<Rightarrow> u64" where
  "find_set_left_bit v = ucast (left_bit 64 v 0)"

fun right_bit :: "nat \<Rightarrow> u64 \<Rightarrow> u32 \<Rightarrow> u32" where
  "right_bit 0 v Temp32 = Temp32"
| "right_bit (Suc n) v Temp32 = (if v \<noteq> 0 then right_bit n (push_bit 1 v) (Temp32 + 1) else Temp32)"

definition find_set_right_bit :: "u64 \<Rightarrow> u64" where
  "find_set_right_bit v = (let Temp32 = right_bit 64 v 0 in if Temp32 = 0 then 0 else ucast (65 - Temp32))"

text \<open>The arguments are the nybbles left, \<open>Digit\<close>, \<open>PowerOfTen\<close> and the value of the result.\<close>

fun from_bcd :: "nat \<Rightarrow> u64 \<Rightarrow> u64 \<Rightarrow> u64 \<Rightarrow> ACPI_STATUS + u64" where
  "from_bcd 0 Digit PowerOfTen v = Inr v"
| "from_bcd (Suc n) Digit PowerOfTen v =
     (if Digit > 0
      then let Temp32 = (ucast Digit :: u32) AND 0xF
           in if Temp32 > 9 then Inl AE_AML_NUMERIC_OVERFLOW
              else from_bcd n (drop_bit 4 Digit) (PowerOfTen * 10) (v + ucast Temp32 * PowerOfTen)
      else Inr v)"

text \<open>\<open>i\<close> is the number of the nybble; the result is what is left of \<open>Digit\<close> and the value.\<close>

fun to_bcd_loop :: "(u32 \<Rightarrow> u32 \<Rightarrow> u32 \<Rightarrow> (u32 \<times> u32) outcome) \<Rightarrow> nat \<Rightarrow> nat \<Rightarrow> u64 \<Rightarrow> u64 \<Rightarrow> (u64 \<times> u64) outcome" where
  "to_bcd_loop dv 0 i Digit v = Ret (Digit, v)"
| "to_bcd_loop dv (Suc n) i Digit v =
     (if Digit > 0
      then obind (AcpiUtShortDivide dv Digit 10) (\<lambda>r. case r of
             Inl _ \<Rightarrow> Trap
           | Inr (Digit, Temp32) \<Rightarrow> to_bcd_loop dv n (i + 1) Digit (v OR push_bit (4 * i) (ucast Temp32)))
      else Ret (Digit, v))"

definition to_bcd :: "(u32 \<Rightarrow> u32 \<Rightarrow> u32 \<Rightarrow> (u32 \<times> u32) outcome) \<Rightarrow> nat \<Rightarrow> u64 \<Rightarrow> (ACPI_STATUS + u64) outcome" where
  "to_bcd dv NybbleWidth v =
     obind (to_bcd_loop dv NybbleWidth 0 v 0) (\<lambda>(Digit, r). Ret (if Digit > 0 then Inl AE_AML_NUMERIC_OVERFLOW else Inr r))"

section \<open>Stores\<close>

definition AOPOBJ_STATIC_POINTER :: u8 where "AOPOBJ_STATIC_POINTER = 0x02"

text \<open>
  An object with the flags of its header. \<open>same\<close> tells that both pointers are equal. The status is
  returned with the target as the call leaves it.
\<close>

definition AcpiExStoreBufferToBuffer ::
  "'s object_memory \<Rightarrow> bool \<Rightarrow> u8 \<times> acpi_object \<Rightarrow> u8 \<times> acpi_object \<Rightarrow> 's \<Rightarrow> ((ACPI_STATUS \<times> u8 \<times> acpi_object) \<times> 's) outcome" where
  "AcpiExStoreBufferToBuffer os same SourceDesc TargetDesc s =
     (if same then Ret ((AE_OK, TargetDesc), s)
      else obind (buffer_part (snd SourceDesc)) (\<lambda>(Length0, Buffer).
           obind (buffer_part (snd TargetDesc)) (\<lambda>(n, b).
           obind (if n = 0 \<or> fst TargetDesc AND AOPOBJ_STATIC_POINTER \<noteq> 0
                  then obind (new_block os Length0 s) (\<lambda>(ok, s).
                    Ret (if ok then Some (Length0, replicate (unat Length0) 0) else None, s))
                  else Ret (Some (n, b), s)) (\<lambda>(t, s).
           case t of None \<Rightarrow> Ret ((AE_NO_MEMORY, fst TargetDesc, Buf_Obj n []), s)
           | Some (n, b) \<Rightarrow>
               obind (if Length0 \<le> n
                      then obind (save b 0 (replicate (unat n) 0)) (\<lambda>b. obind (load (unat Length0) Buffer) (\<lambda>x. save b 0 x))
                      else obind (load (unat n) Buffer) (\<lambda>x. save b 0 x)) (\<lambda>b.
               Ret ((AE_OK, fst SourceDesc AND NOT AOPOBJ_STATIC_POINTER, Buf_Obj n b), s))))))"

definition AcpiExStoreStringToString ::
  "'s object_memory \<Rightarrow> bool \<Rightarrow> u8 \<times> acpi_object \<Rightarrow> u8 \<times> acpi_object \<Rightarrow> 's \<Rightarrow> ((ACPI_STATUS \<times> u8 \<times> acpi_object) \<times> 's) outcome" where
  "AcpiExStoreStringToString os same SourceDesc TargetDesc s =
     (if same then Ret ((AE_OK, TargetDesc), s)
      else obind (buffer_part (snd SourceDesc)) (\<lambda>(Length0, Buffer).
           obind (buffer_part (snd TargetDesc)) (\<lambda>(n, b).
           if Length0 < n \<and> fst TargetDesc AND AOPOBJ_STATIC_POINTER = 0
           then obind (save b 0 (replicate (unat (n + 1)) 0)) (\<lambda>b. obind (load (unat Length0) Buffer) (\<lambda>x. obind (save b 0 x) (\<lambda>b.
                Ret ((AE_OK, fst TargetDesc, Str_Obj Length0 b), s))))
           else obind (new_block os (Length0 + 1) s) (\<lambda>(ok, s).
                if \<not> ok then Ret ((AE_NO_MEMORY, fst TargetDesc, Str_Obj n []), s)
                else obind (load (unat Length0) Buffer) (\<lambda>x. obind (save (replicate (unat (Length0 + 1)) 0) 0 x) (\<lambda>b.
                Ret ((AE_OK, fst TargetDesc AND NOT AOPOBJ_STATIC_POINTER, Str_Obj Length0 b), s)))))))"

section \<open>32-bit arithmetic\<close>

definition math_word :: "u16 \<Rightarrow> 'w::len word \<Rightarrow> 'w word \<Rightarrow> 'w word" where
  "math_word Opcode a b =
     (if Opcode = AML_ADD_OP then a + b
      else if Opcode = AML_SUBTRACT_OP then a - b
      else if Opcode = AML_MULTIPLY_OP then a * b
      else if Opcode = AML_SHIFT_LEFT_OP then push_bit (unat b) a
      else if Opcode = AML_SHIFT_RIGHT_OP then drop_bit (unat b) a
      else if Opcode = AML_BIT_AND_OP then a AND b
      else if Opcode = AML_BIT_NAND_OP then NOT (a AND b)
      else if Opcode = AML_BIT_OR_OP then a OR b
      else if Opcode = AML_BIT_NOR_OP then NOT (a OR b)
      else if Opcode = AML_BIT_XOR_OP then a XOR b
      else 0)"

lemma narrow_wide: "(ucast (ucast (a :: u32) :: u64) :: u32) = a"
  by (rule bit_word_eqI) (simp add: bit_simps)

lemma narrow_bits:
  "(ucast (x AND y :: u64) :: u32) = ucast x AND ucast y" "(ucast (x OR y :: u64) :: u32) = ucast x OR ucast y"
  "(ucast (x XOR y :: u64) :: u32) = ucast x XOR ucast y" "(ucast (NOT x :: u64) :: u32) = NOT (ucast x)"
  by (rule bit_word_eqI; simp add: bit_simps)+

lemma narrow_push: "(ucast (push_bit n x :: u64) :: u32) = push_bit n (ucast x)"
  by (rule bit_word_eqI) (auto simp: bit_simps)

lemma narrow_drop: "(ucast (drop_bit n (ucast (a :: u32)) :: u64) :: u32) = drop_bit n a"
  by (rule bit_word_eqI) (auto simp: bit_simps dest: bit_imp_le_length)

lemma narrow_int: "(ucast (x :: u64) :: u32) = of_int (uint x)"
  by simp

lemma narrow_mod: "(of_int (k mod 18446744073709551616) :: u32) = of_int k"
  unfolding word_of_int_eq_iff by (simp add: take_bit_eq_mod mod_mod_cancel)

lemma narrow_arith:
  "(ucast (x + y :: u64) :: u32) = ucast x + ucast y" "(ucast (x * y :: u64) :: u32) = ucast x * ucast y"
  "(ucast (x - y :: u64) :: u32) = ucast x - ucast y"
  unfolding narrow_int uint_word_ariths by (simp_all add: narrow_mod)

text \<open>
  C27. The operators never shift by an undefined count and compute the operation on words of the interpreter's
  width, with 0 for shift counts beyond the width: the one on 64 bits in the 64-bit mode, and in the mode for 32-bit
  tables, where the code still computes in 64 bits on operands of 32 bits, the one on 32 bits once the result is
  truncated.
\<close>

theorem math_in_integer_width:
  "AcpiExDoMathOp 64 Opcode x y = Ret (math_word Opcode x y) \<and>
   (\<exists>r. AcpiExDoMathOp 32 Opcode (ucast (a :: u32)) (ucast b) = Ret r \<and> ucast r = math_word Opcode a b)"
proof
  have c: "y \<ge> 64 \<longleftrightarrow> 64 \<le> unat y" unfolding word_le_nat_alt by simp
  have p: "push_bit k x = 0" "drop_bit k x = 0" if "64 \<le> k" for k
    using that by (auto intro!: bit_word_eqI simp: bit_simps dest: bit_imp_le_length)
  have d: "ucast (64 :: u8) = (64 :: u64)" by simp
  show "AcpiExDoMathOp 64 Opcode x y = Ret (math_word Opcode x y)"
    unfolding AcpiExDoMathOp_def math_word_def d c shift_left_def shift_right_def
    by (simp add: math_ops p del: push_bit_eq_mult drop_bit_eq_div)
next
  have b: "unat (ucast b :: u64) = unat b"
    using unat_u32_less [of b] by (simp add: unsigned_ucast_eq take_bit_nat_eq_self)
  have c: "(ucast (b :: u32) :: u64) \<ge> 32 \<longleftrightarrow> 32 \<le> unat b" unfolding word_le_nat_alt b by simp
  have p: "push_bit k a = 0" "drop_bit k a = 0" if "32 \<le> k" for k
    using that by (auto intro!: bit_word_eqI simp: bit_simps dest: bit_imp_le_length)
  have d: "ucast (32 :: u8) = (32 :: u64)" by simp
  show "\<exists>r. AcpiExDoMathOp 32 Opcode (ucast a) (ucast b) = Ret r \<and> ucast r = math_word Opcode a b"
    unfolding AcpiExDoMathOp_def math_word_def d b c shift_left_def shift_right_def
    by (simp add: math_ops narrow_bits narrow_arith narrow_wide narrow_push narrow_drop p del: push_bit_eq_mult drop_bit_eq_div)
qed

section \<open>Order of strings and buffers\<close>

text \<open>The comparison of \<open>CString\<close>, over the bytes that it reads.\<close>

lemma memcmp_blocks:
  "memcmp_loop m p q n = compare_bytes (map (\<lambda>i. m (p + of_nat i)) [0..<n]) (map (\<lambda>i. m (q + of_nat i)) [0..<n])"
proof (induction n arbitrary: p q)
  case (Suc n)
  have s: "map (\<lambda>i. m (r + of_nat i)) [0..<Suc n] = m r # map (\<lambda>i. m (r + 1 + of_nat i)) [0..<n]" for r
    by (simp add: upt_conv_Cons add.assoc flip: map_Suc_upt del: upt_Suc)
  show ?case unfolding s using Suc.IH by simp
qed simp

lemma compare_bytes_order:
  "length a = length b \<Longrightarrow>
    (compare_bytes a b = 0 \<longleftrightarrow> a = b) \<and> (compare_bytes a b < 0 \<longleftrightarrow> map sint a < map sint b) \<and> (compare_bytes a b > 0 \<longleftrightarrow> map sint b < map sint a)"
proof (induction a b rule: list_induct2)
  case (Cons x a y b)
  have "sint x = sint y \<longleftrightarrow> x = y" by (rule sint_eq)
  with Cons.IH show ?case by (cases "x = y") (auto simp: Let_def)
qed simp

lemma compare_prefix:
  fixes a b :: "u8 list"
  defines "k \<equiv> min (length a) (length b)"
  shows "(compare_bytes (take k a) (take k b) < 0 \<or> compare_bytes (take k a) (take k b) = 0 \<and> length a < length b \<longleftrightarrow> map sint a < map sint b)
    \<and> (compare_bytes (take k a) (take k b) = 0 \<and> length a = length b \<longleftrightarrow> a = b)"
  unfolding k_def
proof (induction a arbitrary: b)
  case Nil
  then show ?case by (cases b) auto
next
  case (Cons x a)
  show ?case
  proof (cases b)
    case (Cons y c)
    have "sint x = sint y \<longleftrightarrow> x = y" by (rule sint_eq)
    then show ?thesis using Cons.IH [of c] Cons by (cases "x = y") (auto simp: Let_def)
  qed simp
qed

definition exact_buffer :: "u8 list \<Rightarrow> acpi_object" where "exact_buffer b = Buf_Obj (of_nat (length b)) b"

text \<open>
  C26. Two buffers are equal when their bytes are; otherwise they are in the lexicographic order of their
  bytes as signed numbers, a prefix first: of two buffers exactly one is less, equal or greater, and
  0x80 sorts before 0x7F.
\<close>

theorem buffers_ordered_signed:
  assumes "length a < 2 ^ 32" and "length b < 2 ^ 32"
  shows "AcpiExDoLogicalOp os w AML_LEQUAL_OP (exact_buffer a) (exact_buffer b) s = Ret ((AE_OK, a = b), s) \<and>
    AcpiExDoLogicalOp os w AML_LLESS_OP (exact_buffer a) (exact_buffer b) s = Ret ((AE_OK, map sint a < map sint b), s) \<and>
    AcpiExDoLogicalOp os w AML_LGREATER_OP (exact_buffer a) (exact_buffer b) s = Ret ((AE_OK, map sint b < map sint a), s)"
proof -
  let ?n = "of_nat (length a) :: u32" and ?m = "of_nat (length b) :: u32" and ?k = "min (length a) (length b)"
  let ?c = "compare_bytes (take ?k a) (take ?k b)"
  have u: "unat ?n = length a" "unat ?m = length b" using assms by (simp_all add: unat_of_nat_eq)
  have k: "unat (if ?n > ?m then ?m else ?n) = ?k" using u by (simp add: word_less_nat_alt)
  have ln: "?n > ?m \<longleftrightarrow> length a > length b" "?n < ?m \<longleftrightarrow> length a < length b" "?n = ?m \<longleftrightarrow> length a = length b"
    using u by (simp_all add: word_less_nat_alt word_unat_eq_iff)
  have op: "AcpiExDoLogicalOp os w Opcode (exact_buffer a) (exact_buffer b) s = Ret (bytes_relation Opcode ?c ?n ?m, s)" for Opcode
    by (simp add: AcpiExDoLogicalOp_def exact_buffer_def convert_operand_def AcpiExConvertToBuffer_def k ACPI_MEMCMP_def load_def drop_converted_def)
  note P = compare_prefix [of a b]
  have sym: "map sint b < map sint a \<longleftrightarrow> \<not> map sint a < map sint b \<and> a \<noteq> b"
  proof -
    have "inj (sint :: u8 \<Rightarrow> int)" by (rule injI) simp
    then have "map sint a = map sint b \<longleftrightarrow> a = b" by (rule inj_map_eq_map)
    then show ?thesis by (metis linorder_less_linear order_less_asym)
  qed
  show ?thesis unfolding op sym bytes_relation_def ln using P by (auto simp: logical_ops)
qed

section \<open>Concatenation\<close>

definition content :: "u8 \<Rightarrow> acpi_object \<Rightarrow> u8 list" where
  "content w ob = (case ob of Int_Obj v \<Rightarrow> take (unat w) (integer_bytes v) | Str_Obj n b \<Rightarrow> take (unat n) b
     | Buf_Obj n b \<Rightarrow> take (unat n) b | Other_Obj _ \<Rightarrow> [])"

lemma save_two:
  assumes "length NewBuf = length x + length y + length z"
  shows "obind (save NewBuf 0 x) (\<lambda>b. obind (save b (length x) y) f) = f (x @ y @ drop (length x + length y) NewBuf)"
  using assms by (simp add: save_def add.commute)

lemma concat_integers:
  assumes "gives_memory os" and "(w :: u8) = 4 \<or> w = 8"
  shows "\<exists>s'. AcpiUtCreateBufferObject os (2 * ucast w) s = Ret (Some (Buf_Obj (2 * ucast w) (replicate (2 * unat w) 0)), s')"
  using creates_buffer [OF assms(1), of "2 * ucast w" s] assms(2) by auto

lemma unat_sum: "unat (n :: u32) + unat m < 2 ^ 32 \<Longrightarrow> unat (n + m) = unat n + unat m"
  by (simp add: unat_word_ariths)

text \<open>
  Concatenation gives a new object with the bytes of the first operand and then those of the second
  one, converted to the first one's type: a string of two strings, a buffer of two buffers or integers.
\<close>

theorem concatenation:
  assumes "convert_operand os w o0 o1 s = Ret (Inr c, s1)" and "gives_memory os" and "\<forall>s. \<exists>s'. drop_object os s = Ret s'"
    and "object_ok o0" and "object_ok (result_object o1 c)" and "w = 4 \<or> w = 8"
    and "length (content w o0) + length (content w (result_object o1 c)) < 2 ^ 32 - 1"
  shows "\<exists>ob s'. AcpiExDoConcatenate os w o0 o1 s = Ret (Inr ob, s') \<and> object_ok ob \<and>
    content w ob = content w o0 @ content w (result_object o1 c) \<and>
    object_type ob = (if object_type o0 = ACPI_TYPE_STRING then ACPI_TYPE_STRING else ACPI_TYPE_BUFFER)"
proof -
  have d: "\<exists>s'. drop_converted os c s = Ret s'" for s using assms(3) by (cases c) (auto simp: drop_converted_def)
  show ?thesis
  proof (cases o0)
    case (Int_Obj v0)
    then obtain v1 where v1: "result_object o1 c = Int_Obj v1"
      using assms(1) returnsD [OF to_integer_type [of o1 os w 16 s]] by (fastforce simp: convert_operand_def)
    let ?x = "take (unat w) (integer_bytes v0)" and ?y = "take (unat w) (integer_bytes v1)"
    obtain s2 where s2: "AcpiUtCreateBufferObject os (2 * ucast w) s1 = Ret (Some (Buf_Obj (2 * ucast w) (replicate (2 * unat w) 0)), s2)"
      using concat_integers [OF assms(2,6)] by blast
    have l: "length ?x = unat w" "length ?y = unat w" "load (unat w) (integer_bytes v0) = Ret ?x" "load (unat w) (integer_bytes v1) = Ret ?y"
      using assms(6) by (auto simp: load_def)
    have sv: "obind (save (replicate (2 * unat w) 0) 0 ?x) (\<lambda>b. obind (save b (unat w) ?y) f) = f (?x @ ?y)" for f
      using save_two [of "replicate (2 * unat w) 0" ?x ?y "[]" f] unfolding l by simp
    obtain s3 where s3: "drop_converted os c s2 = Ret s3" using d by blast
    have "AcpiExDoConcatenate os w o0 o1 s = Ret (Inr (Buf_Obj (2 * ucast w) (?x @ ?y)), s3)"
      unfolding AcpiExDoConcatenate_def assms(1) [unfolded Int_Obj] Int_Obj obind_simps prod.case sum.case v1 acpi_object.case s2 option.case l(3,4) sv
      by (simp add: s3)
    then show ?thesis using assms(6) Int_Obj v1 by (auto simp: content_def type_codes)
  next
    case (Str_Obj n0 b0)
    then obtain n1 b1 where v1: "result_object o1 c = Str_Obj n1 b1"
      using assms(1) returnsD [OF to_string_type [of o1 os w ACPI_IMPLICIT_CONVERT_HEX s]] by (fastforce simp: convert_operand_def)
    let ?x = "take (unat n0) b0" and ?y = "take (unat n1) b1"
    have t: "c_string b0 = Ret ?x" "c_string b1 = Ret ?y" "length ?x = unat n0" "length ?y = unat n1" "0 \<notin> set ?x" "0 \<notin> set ?y"
      using assms(4,5) object_text unfolding Str_Obj v1 by auto
    have "unat n0 + unat n1 < 2 ^ 32 - 1" using assms(7) t(3,4) unfolding Str_Obj v1 content_def by simp
    then have u: "unat (n0 + n1) = unat n0 + unat n1" "unat (n0 + n1 + 1) = Suc (unat n0 + unat n1)"
      using unat_sum [of n0 n1] unat_sum [of "n0 + n1" 1] by simp_all
    obtain s2 where s2: "AcpiUtCreateStringObject os (n0 + n1) s1 = Ret (Some (Str_Obj (n0 + n1) (replicate (Suc (unat n0 + unat n1)) 0)), s2)"
      using creates_string [OF assms(2), of "n0 + n1" s1] unfolding u by blast
    have sv: "obind (save (replicate (Suc (unat n0 + unat n1)) 0) 0 (?x @ [0])) (\<lambda>b. obind (save b (unat n0) (?y @ [0])) f) = f (?x @ ?y @ [0])" for f
      using t(3,4) by (simp add: save_def)
    obtain s3 where s3: "drop_converted os c s2 = Ret s3" using d by blast
    have "AcpiExDoConcatenate os w o0 o1 s = Ret (Inr (Str_Obj (n0 + n1) (?x @ ?y @ [0])), s3)"
      unfolding AcpiExDoConcatenate_def assms(1) [unfolded Str_Obj] Str_Obj obind_simps prod.case sum.case v1 acpi_object.case s2 option.case t(1,2) sv
      by (simp add: s3)
    moreover have "object_ok (Str_Obj (n0 + n1) (?x @ ?y @ [0]))" using t u by (simp add: nth_append)
    moreover have "take (unat (n0 + n1)) (?x @ ?y @ [0]) = ?x @ ?y" using t(3,4) u by simp
    ultimately show ?thesis
      unfolding Str_Obj v1 by (intro exI [of _ "Str_Obj (n0 + n1) (?x @ ?y @ [0])"] exI [of _ s3] conjI)
        (simp_all add: content_def del: object_ok.simps take_append)
  next
    case (Buf_Obj n0 b0)
    then obtain n1 b1 where v1: "result_object o1 c = Buf_Obj n1 b1"
      using assms(1) returnsD [OF to_buffer_type [of o1 os w s]] by (fastforce simp: convert_operand_def)
    let ?x = "take (unat n0) b0" and ?y = "take (unat n1) b1"
    have t: "load (unat n0) b0 = Ret ?x" "load (unat n1) b1 = Ret ?y" "length ?x = unat n0" "length ?y = unat n1"
      using assms(4,5) unfolding Buf_Obj v1 by (auto simp: load_def)
    have "unat n0 + unat n1 < 2 ^ 32" using assms(7) t(3,4) unfolding Buf_Obj v1 content_def by simp
    then have u: "unat (n0 + n1) = unat n0 + unat n1" by (rule unat_sum)
    obtain s2 where s2: "AcpiUtCreateBufferObject os (n0 + n1) s1 = Ret (Some (Buf_Obj (n0 + n1) (replicate (unat n0 + unat n1) 0)), s2)"
      using creates_buffer [OF assms(2), of "n0 + n1" s1] unfolding u by blast
    have sv: "obind (save (replicate (unat n0 + unat n1) 0) 0 ?x) (\<lambda>b. obind (save b (unat n0) ?y) f) = f (?x @ ?y)" for f
      using save_two [of "replicate (unat n0 + unat n1) 0" ?x ?y "[]" f] unfolding t(3,4) by simp
    obtain s3 where s3: "drop_converted os c s2 = Ret s3" using d by blast
    have "AcpiExDoConcatenate os w o0 o1 s = Ret (Inr (Buf_Obj (n0 + n1) (?x @ ?y)), s3)"
      unfolding AcpiExDoConcatenate_def assms(1) [unfolded Buf_Obj] Buf_Obj obind_simps prod.case sum.case v1 acpi_object.case s2 option.case t(1,2) sv
      by (simp add: s3)
    then show ?thesis using Buf_Obj v1 t(3,4) u by (auto simp: content_def type_codes)
  next
    case (Other_Obj t)
    then show ?thesis using assms(1) by (simp add: convert_operand_def)
  qed
qed

lemma template_end_found:
  assumes "\<forall>d\<in>set ds. descriptor d" and "length (concat (map fst ds)) + 2 < 2 ^ 32"
  shows "AcpiUtGetResourceEndTag (template ds [0x79, c]) (length (concat (map fst ds)) + 2) =
    Ret (AE_OK, Some (length (concat (map fst ds))))"
  using walk_finds_end [OF assms(1,2), of "[]" c "[]" "()" 0]
  by (simp add: AcpiUtGetResourceEndTag_def AcpiUtWalkAmlResources_def AML_RESOURCE_END_TAG_def AML_RESOURCE_SMALL_HEADER_def)

definition template_object :: "(u8 list \<times> u8) list \<Rightarrow> u8 \<Rightarrow> acpi_object" where
  "template_object ds c = exact_buffer (template ds [0x79, c])"

text \<open>
  C25. The concatenation of two resource templates is the template of the descriptors of the first and then
  of the second one, with a single end tag whose checksum is 0.
\<close>

theorem concat_templates:
  assumes "gives_memory os" and "\<forall>d\<in>set ds0. descriptor d" and "\<forall>d\<in>set ds1. descriptor d"
    and "length (concat (map fst (ds0 @ ds1))) + 2 < 2 ^ 32"
  shows "\<exists>s'. AcpiExConcatTemplate os (template_object ds0 c0) (template_object ds1 c1) s = Ret (Inr (template_object (ds0 @ ds1) 0), s')"
proof -
  define x y where "x = concat (map fst ds0)" and "y = concat (map fst ds1)"
  have l: "length x + length y + 2 < 2 ^ 32" using assms(4) by (simp add: x_def y_def)
  have ob: "template_object ds0 c0 = Buf_Obj (of_nat (length x + 2)) (x @ [0x79, c0])"
    "template_object ds1 c1 = Buf_Obj (of_nat (length y + 2)) (y @ [0x79, c1])"
    "template_object (ds0 @ ds1) 0 = Buf_Obj (of_nat (length x + length y + 2)) (x @ y @ [0x79, 0])"
    by (simp_all add: template_object_def exact_buffer_def template_def x_def y_def)
  have u: "unat (of_nat (length x + 2) :: u32) = length x + 2" "unat (of_nat (length y + 2) :: u32) = length y + 2"
    "unat (of_nat (length x + length y + 2) :: u32) = length x + length y + 2"
    using l by - (intro unat_of_nat_eq; simp)+
  have e: "AcpiUtGetResourceEndTag (x @ [0x79, c0]) (length x + 2) = Ret (AE_OK, Some (length x))"
    "AcpiUtGetResourceEndTag (y @ [0x79, c1]) (length y + 2) = Ret (AE_OK, Some (length y))"
    using template_end_found [OF assms(2), of c0] template_end_found [OF assms(3), of c1] l by (simp_all add: template_def x_def y_def)
  have n: "of_nat (length x) + of_nat (length y) + 2 = (of_nat (length x + length y + 2) :: u32)" by simp
  obtain s1 where s1: "AcpiUtCreateBufferObject os (of_nat (length x + length y + 2)) s =
      Ret (Some (Buf_Obj (of_nat (length x + length y + 2)) (replicate (length x + length y + 2) 0)), s1)"
    using creates_buffer [OF assms(1), of "of_nat (length x + length y + 2)" s] unfolding u by blast
  have ld: "load (length x) (x @ [0x79, c0]) = Ret x" "load (length y) (y @ [0x79, c1]) = Ret y" by (simp_all add: load_def)
  have tg: "ACPI_RESOURCE_NAME_END_TAG OR 1 = 0x79" by (simp add: ACPI_RESOURCE_NAME_END_TAG_def)
  have sv: "obind (save (replicate (length x + length y + 2) 0) 0 x) (\<lambda>b. obind (save b (length x) y) f) = f (x @ y @ [0, 0])" for f
  proof -
    have dr: "drop (length x + length y) (replicate (length x + length y + 2) (0 :: u8)) = [0, 0]"
      by (subst drop_replicate) (simp add: numeral_2_eq_2)
    have "length (replicate (length x + length y + 2) (0 :: u8)) = length x + length y + length [0, 0 :: u8]" by simp
    from save_two [OF this, of f] show ?thesis unfolding dr .
  qed
  have fin: "save (x @ y @ [0, 0]) (length x + length y + 2 - 1) [0] = Ret (x @ y @ [0, 0])"
    "save (x @ y @ [0, 0]) (length x + length y + 2 - 2) [0x79] = Ret (x @ y @ [0x79, 0])"
    by (simp_all add: save_def)
  show ?thesis
    unfolding AcpiExConcatTemplate_def ob buffer_part.simps obind_simps prod.case u e option.case Let_def n s1 acpi_object.case ld sv tg fin
    by (simp add: AE_OK_def)
qed

section \<open>Decimals and bits\<close>

fun bcd :: "nat \<Rightarrow> nat \<Rightarrow> nat" where
  "bcd 0 d = 0"
| "bcd (Suc n) d = d mod 10 + 16 * bcd n (d div 10)"

lemma bcd_less: "bcd n d < 16 ^ n"
proof (induction n arbitrary: d)
  case (Suc n)
  have "d mod 10 < 10" by simp
  moreover have "bcd n (d div 10) + 1 \<le> 16 ^ n" using Suc by (simp add: Suc_le_eq)
  then have "16 * bcd n (d div 10) + 16 \<le> 16 ^ Suc n" by simp
  ultimately show ?case unfolding bcd.simps by linarith
qed simp

lemma bcd_zero: "bcd n 0 = 0"
  by (induction n) simp_all

lemma bcd_positive: "d < 10 ^ n \<Longrightarrow> 0 < d \<Longrightarrow> 0 < bcd n d"
proof (induction n arbitrary: d)
  case (Suc n)
  show ?case
  proof (cases "d mod 10 = 0")
    case True
    then have "0 < d div 10" "d div 10 < 10 ^ n" using Suc.prems by (auto simp: less_mult_imp_div_less mult.commute)
    then show ?thesis using Suc.IH by simp
  qed simp
qed simp

lemma unat_or_above:
  fixes v t :: u64
  assumes "unat v < 2 ^ k" and "unat v + unat t * 2 ^ k < 2 ^ 64"
  shows "unat (v OR push_bit k t) = unat v + unat t * 2 ^ k"
proof -
  have v: "v = take_bit k v" using assms(1) by (simp add: word_unat_eq_iff unsigned_take_bit_eq take_bit_nat_eq_self)
  have "v AND push_bit k t = 0" by (subst v) (rule bit_word_eqI, auto simp: bit_simps)
  then have "v OR push_bit k t = v + push_bit k t" by (simp only: disjunctive_add_eq_or)
  moreover have "unat (push_bit k t) = unat t * 2 ^ k"
    unfolding unsigned_push_bit_eq using assms(2) by (simp add: take_bit_nat_eq_self push_bit_eq_mult)
  ultimately show ?thesis using assms(2) by (simp add: unat_word_ariths)
qed

lemma to_bcd_loop_eq:
  assumes "i + n \<le> 16" and "unat v < 16 ^ i"
  shows "\<exists>D r. to_bcd_loop div_64_by_32 n i d v = Ret (D, r) \<and> unat D = unat d div 10 ^ n \<and> unat r = unat v + 16 ^ i * bcd n (unat d)"
  using assms
proof (induction n arbitrary: i d v)
  case (Suc n)
  show ?case
  proof (cases "d = 0")
    case True
    then show ?thesis by (simp add: bcd_zero)
  next
    case False
    then have d: "d > 0" by (simp add: word_neq_0_conv)
    let ?t = "unat d mod 10" and ?v = "v OR push_bit (4 * i) (of_nat (unat d mod 10))"
    have i: "16 ^ i = (2 :: nat) ^ (4 * i)" by (simp add: power_mult)
    have t: "?t < 10" by simp
    have ut: "unat (of_nat ?t :: u64) = ?t" by (intro unat_of_nat_eq) (simp add: less_le_trans [OF t])
    have tw: "(ucast (of_nat ?t :: u32) :: u64) = of_nat ?t"
    proof -
      have "unat (of_nat ?t :: u32) = ?t" by (intro unat_of_nat_eq) (simp add: less_le_trans [OF t])
      then show ?thesis by (simp add: word_unat_eq_iff unsigned_ucast_eq ut take_bit_nat_eq_self less_le_trans [OF t])
    qed
    have "unat v + ?t * 16 ^ i < 16 ^ Suc i"
    proof -
      have "?t * 16 ^ i \<le> 9 * 16 ^ i" using t by (intro mult_le_mono1) linarith
      then show ?thesis using Suc.prems(2) unfolding power_Suc by linarith
    qed
    moreover have "(16 :: nat) ^ Suc i \<le> 16 ^ 16" using Suc.prems(1) by (intro power_increasing) simp_all
    ultimately have b: "unat v + ?t * 16 ^ i < 16 ^ Suc i" "unat v + ?t * 16 ^ i < 2 ^ 64" by simp_all
    then have uv: "unat ?v = unat v + ?t * 16 ^ i"
      using unat_or_above [of v "4 * i" "of_nat ?t"] Suc.prems(2) unfolding i ut by simp
    obtain D r where r: "to_bcd_loop div_64_by_32 n (i + 1) (d div 10) ?v = Ret (D, r)"
      "unat D = unat (d div 10) div 10 ^ n" "unat r = unat ?v + 16 ^ (i + 1) * bcd n (unat (d div 10))"
      using Suc.IH [of "i + 1" ?v "d div 10"] Suc.prems(1) b(1) uv by auto
    have loop: "to_bcd_loop div_64_by_32 (Suc n) i d v = Ret (D, r)"
      unfolding to_bcd_loop.simps ten_step using d r(1) by (simp add: tw del: push_bit_eq_mult)
    have ud: "unat (d div 10) = unat d div 10" by (simp add: unat_div)
    show ?thesis
      using r(2,3) uv unfolding ud loop by (intro exI [of _ D] exI [of _ r]) (simp add: div_mult2_eq algebra_simps)
  qed
qed simp

lemma from_bcd_eq:
  assumes "unat d < 10 ^ n" and "unat D = bcd n (unat d)"
  shows "from_bcd n D P v = Inr (v + P * d)"
  using assms
proof (induction n arbitrary: d D v P)
  case 0
  then have "d = 0" by (simp add: word_unat_eq_iff)
  then show ?case by simp
next
  case (Suc n)
  show ?case
  proof (cases "d = 0")
    case True
    then have "D = 0" using Suc.prems(2) by (simp add: word_unat_eq_iff bcd_zero)
    then show ?thesis using True by simp
  next
    case False
    then have "0 < unat d" by (simp add: unat_gt_0 word_neq_0_conv)
    then have D: "D > 0" using bcd_positive [OF Suc.prems(1)] Suc.prems(2) by (simp add: word_less_nat_alt)
    let ?t = "unat d mod 10"
    have t: "unat ((ucast D :: u32) AND 0xF) = ?t"
    proof -
      have m: "(0xF :: u32) = mask 4" by (simp add: mask_eq_exp_minus_1)
      have "unat ((ucast D :: u32) AND 0xF) = unat D mod 2 ^ 32 mod 2 ^ 4"
        unfolding m take_bit_eq_mask [symmetric] unsigned_take_bit_eq unsigned_ucast_eq by (simp add: take_bit_eq_mod)
      also have "\<dots> = unat D mod 16" by (simp add: mod_mod_cancel)
      finally show ?thesis unfolding Suc.prems(2) by (simp add: less_le_trans [OF mod_less_divisor])
    qed
    have t9: "\<not> (ucast D :: u32) AND 0xF > 9"
    proof -
      have "?t \<le> 9" using mod_less_divisor [of 10 "unat d"] by linarith
      then show ?thesis unfolding word_less_nat_alt t by simp
    qed
    have d: "unat (drop_bit 4 D) = bcd n (unat (d div 10))"
    proof -
      have "unat (drop_bit 4 D) = bcd (Suc n) (unat d) div 16" unfolding unat_drop_bit_eq Suc.prems(2) by (simp add: drop_bit_eq_div)
      then show ?thesis by (simp add: unat_div less_le_trans [OF mod_less_divisor])
    qed
    have tw: "(ucast ((ucast D :: u32) AND 0xF) :: u64) = of_nat ?t"
    proof -
      have "unat (of_nat ?t :: u64) = ?t" by (intro unat_of_nat_eq) (simp add: less_le_trans [OF mod_less_divisor])
      moreover have "unat (ucast ((ucast D :: u32) AND 0xF) :: u64) = ?t"
        using t by (simp add: unsigned_ucast_eq take_bit_nat_eq_self less_le_trans [OF mod_less_divisor])
      ultimately show ?thesis by (simp add: word_unat_eq_iff)
    qed
    have "from_bcd n (drop_bit 4 D) (P * 10) (v + of_nat ?t * P) = Inr (v + of_nat ?t * P + P * 10 * (d div 10))"
      using Suc.prems(1) d by (intro Suc.IH) (simp_all add: unat_div less_mult_imp_div_less mult.commute)
    moreover have e: "d = 10 * (d div 10) + of_nat ?t"
    proof -
      have "of_nat ?t = d mod 10" by (simp add: word_unat_eq_iff unat_mod unat_of_nat take_bit_nat_eq_self)
      then show ?thesis by (simp only: mult_div_mod_eq)
    qed
    moreover have "v + of_nat ?t * P + P * 10 * (d div 10) = v + P * d"
      using arg_cong [OF e, of "\<lambda>x. P * x"] by (simp add: algebra_simps)
    ultimately show ?thesis using D t9 tw by simp
  qed
qed

text \<open>
  ToBCD succeeds exactly for the numbers whose decimal digits fit into the nybbles of an integer, and
  FromBCD gives the number back.
\<close>

theorem bcd_roundtrip:
  assumes "n = 8 \<or> n = 16"
  shows "if unat v < 10 ^ n then \<exists>r. to_bcd div_64_by_32 n v = Ret (Inr r) \<and> from_bcd n r 1 0 = Inr v
         else to_bcd div_64_by_32 n v = Ret (Inl AE_AML_NUMERIC_OVERFLOW)"
proof -
  obtain D r where r: "to_bcd_loop div_64_by_32 n 0 v 0 = Ret (D, r)" "unat D = unat v div 10 ^ n" "unat r = bcd n (unat v)"
    using to_bcd_loop_eq [of 0 n 0 v] assms by auto
  have "D > 0 \<longleftrightarrow> \<not> unat v < 10 ^ n" unfolding word_less_nat_alt r(2) by (simp add: div_greater_zero_iff not_less)
  moreover have "unat v < 10 ^ n \<Longrightarrow> from_bcd n r 1 0 = Inr v" using from_bcd_eq [OF _ r(3), where v = 0 and P = 1] by simp
  ultimately show ?thesis using r(1) by (auto simp: to_bcd_def)
qed

lemma left_bit_eq:
  "unat v < 2 ^ n \<Longrightarrow> \<exists>k \<le> n. left_bit n v t = t + of_nat k \<and> unat v < 2 ^ k \<and> (k = 0 \<or> 2 ^ (k - 1) \<le> unat v)"
proof (induction n arbitrary: v t)
  case (Suc n)
  show ?case
  proof (cases "v = 0")
    case False
    have h: "unat (drop_bit 1 v) = unat v div 2" unfolding unat_drop_bit_eq by (simp only: drop_bit_eq_div power_one_right)
    have v: "0 < unat v" using False by (simp add: unat_gt_0)
    obtain k where k: "k \<le> n" "left_bit n (drop_bit 1 v) (t + 1) = t + 1 + of_nat k" "unat v div 2 < 2 ^ k"
      "k = 0 \<or> 2 ^ (k - 1) \<le> unat v div 2"
      using Suc.IH [of "drop_bit 1 v" "t + 1"] Suc.prems unfolding h by (auto simp: less_mult_imp_div_less mult.commute)
    have "2 ^ k \<le> unat v"
    proof (cases k)
      case (Suc j)
      then have "2 ^ j \<le> unat v div 2" using k(4) by simp
      then have "2 ^ j * 2 \<le> unat v div 2 * 2" by simp
      then show ?thesis unfolding Suc by simp
    qed (use v in simp)
    then show ?thesis
      using k False by (intro exI [of _ "Suc k"]) (simp add: div_less_iff_less_mult mult.commute)
  qed simp
qed (auto intro: exI [of _ 0])

lemma right_bit_eq:
  "push_bit n v = 0 \<Longrightarrow> \<exists>k \<le> n. right_bit n v t = t + of_nat k \<and> push_bit k v = 0 \<and> (k = 0 \<or> push_bit (k - 1) v \<noteq> 0)"
proof (induction n arbitrary: v t)
  case (Suc n)
  show ?case
  proof (cases "v = 0")
    case False
    have "push_bit n (push_bit 1 v) = 0" using Suc.prems by (simp only: push_bit_push_bit) simp
    then obtain k where k: "k \<le> n" "right_bit n (push_bit 1 v) (t + 1) = t + 1 + of_nat k" "push_bit k (push_bit 1 v) = 0"
      "k = 0 \<or> push_bit (k - 1) (push_bit 1 v) \<noteq> 0"
      using Suc.IH by blast
    have "push_bit k v \<noteq> 0" using k(4) False by (cases k) (simp_all add: push_bit_push_bit del: push_bit_eq_mult)
    then show ?thesis using k False by (intro exI [of _ "Suc k"]) (simp add: push_bit_push_bit del: push_bit_eq_mult)
  qed (auto intro: exI [of _ 0])
qed (auto intro: exI [of _ 0])

text \<open>
  FindSetLeftBit and FindSetRightBit give the position, counted from 1, of the highest and of the lowest
  bit that is set, and 0 for the number 0.
\<close>

theorem set_bits_found:
  "\<exists>l r. find_set_left_bit v = of_nat l \<and> find_set_right_bit v = of_nat r \<and> l \<le> 64 \<and> r \<le> 64 \<and>
    (if v = 0 then l = 0 \<and> r = 0
     else bit v (l - 1) \<and> (\<forall>k \<ge> l. \<not> bit v k) \<and> bit v (r - 1) \<and> (\<forall>k < r - 1. \<not> bit v k) \<and> 0 < l \<and> 0 < r)"
proof (cases "v = 0")
  case True
  then have "find_set_left_bit v = of_nat 0" "find_set_right_bit v = of_nat 0"
    by (simp_all add: find_set_left_bit_def find_set_right_bit_def eval_nat_numeral)
  then show ?thesis using True by auto
next
  case False
  have v0: "0 < unat v" using False by (simp add: unat_gt_0 word_neq_0_conv)
  obtain l where l: "l \<le> 64" "left_bit 64 v 0 = of_nat l" "unat v < 2 ^ l" "l = 0 \<or> 2 ^ (l - 1) \<le> unat v"
    using left_bit_eq [of v 64 0] unat_u64_less [of v] by auto
  have l0: "0 < l" using l(3) v0 by (cases l) auto
  have bit: "bit v k \<longleftrightarrow> odd (unat v div 2 ^ k)" for k
  proof -
    have "bit (unat v) k \<longleftrightarrow> bit v k" by (simp add: bit_unsigned_iff)
    then show ?thesis by (simp only: bit_iff_odd [of "unat v"])
  qed
  have "unat v div 2 ^ (l - 1) = 1"
  proof -
    have "2 ^ l = (2 :: nat) * 2 ^ (l - 1)" using l0 by (metis Suc_diff_1 power_Suc)
    then show ?thesis using l(3,4) l0 by (intro div_eq_dividend_iff [THEN iffD2] div_nat_eqI) auto
  qed
  then have bl: "bit v (l - 1)" by (simp add: bit)
  have al: "\<not> bit v k" if "l \<le> k" for k
  proof -
    have "(2 :: nat) ^ l \<le> 2 ^ k" using that by (rule power_increasing) simp
    then have "unat v < 2 ^ k" using l(3) by linarith
    then show ?thesis by (simp add: bit)
  qed
  have "push_bit 64 v = 0" by (rule bit_word_eqI) (simp add: bit_simps)
  then obtain k where k: "k \<le> 64" "right_bit 64 v 0 = of_nat k" "push_bit k v = 0" "k = 0 \<or> push_bit (k - 1) v \<noteq> 0"
    using right_bit_eq [of 64 v 0] by auto
  have k0: "0 < k" using k(3) False by (cases k) auto
  have low: "\<not> bit v j" if "j < 64 - k" for j
  proof -
    have "\<not> bit (push_bit k v) (j + k)" using k(3) by simp
    then show ?thesis using that by (simp add: bit_simps del: push_bit_eq_mult)
  qed
  have "bit v (64 - k)"
  proof -
    have "push_bit (k - 1) v \<noteq> 0" using k(4) k0 by linarith
    then obtain j where j: "bit (push_bit (k - 1) v) j" by (metis bit_word_eqI bit_0_eq bot_apply bot_bool_def)
    then have "j < 64" "k - 1 \<le> j" "bit v (j - (k - 1))" by (auto simp: bit_simps simp del: push_bit_eq_mult)
    moreover from this have "\<not> j - (k - 1) < 64 - k" using low by blast
    ultimately have "j - (k - 1) = 64 - k" using k0 k(1) by linarith
    then show ?thesis using \<open>bit v (j - (k - 1))\<close> by simp
  qed
  moreover have "find_set_left_bit v = of_nat l"
    using l(1,2) by (simp add: find_set_left_bit_def unsigned_of_nat take_bit_nat_eq_self)
  moreover have "find_set_right_bit v = of_nat (65 - k)"
  proof -
    have "(of_nat k :: u32) \<noteq> 0" using of_nat_pos_u32 [OF k0] k(1) by simp
    moreover have "65 - of_nat k = (of_nat (65 - k) :: u32)" using k(1) by (simp add: of_nat_diff)
    ultimately show ?thesis using k(2) by (simp add: find_set_right_bit_def unsigned_of_nat take_bit_nat_eq_self)
  qed
  ultimately show ?thesis
    using bl al low l0 l(1) k(1) k0 False by (intro exI [of _ l] exI [of _ "65 - k"]) auto
qed

section \<open>Stores keep the data\<close>

lemma store_string:
  assumes "gives_memory os" and "object_ok (Str_Obj n0 b0)" and "object_ok (Str_Obj n b)" and "unat n0 < 2 ^ 32 - 1" and "unat n < 2 ^ 32 - 1"
  shows "\<exists>fl c s'. AcpiExStoreStringToString os False (f, Str_Obj n0 b0) (g, Str_Obj n b) s = Ret ((AE_OK, fl, Str_Obj n0 c), s') \<and>
    object_ok (Str_Obj n0 c) \<and> take (unat n0) c = take (unat n0) b0"
proof -
  let ?x = "take (unat n0) b0"
  have x: "length ?x = unat n0" "0 \<notin> set ?x" "load (unat n0) b0 = Ret ?x" using assms(2) by (auto simp: load_def)
  have u: "unat (n0 + 1) = Suc (unat n0)" "unat (n + 1) = Suc (unat n)" using assms(4,5) unat_sum [of n0 1] unat_sum [of n 1] by simp_all
  have ok: "object_ok (Str_Obj n0 (?x @ 0 # r)) \<and> take (unat n0) (?x @ 0 # r) = ?x" for r using x by (simp add: nth_append)
  show ?thesis
  proof (cases "n0 < n \<and> g AND AOPOBJ_STATIC_POINTER = 0")
    case True
    then have l: "unat n0 < unat n" by (simp add: word_less_nat_alt)
    have n: "unat n < length b" using assms(3) by simp
    let ?r = "replicate (unat n - unat n0) 0 @ drop (Suc (unat n)) b"
    have "save b 0 (replicate (unat (n + 1)) 0) = Ret (replicate (Suc (unat n)) 0 @ drop (Suc (unat n)) b)"
      using n u(2) by (simp add: save_def)
    moreover have "save (replicate (Suc (unat n)) 0 @ drop (Suc (unat n)) b) 0 ?x = Ret (?x @ 0 # ?r)"
      using l n x(1) by (simp add: save_def Suc_diff_le flip: replicate_Suc)
    ultimately show ?thesis using True x(3) ok [of ?r]
      by (auto simp: AcpiExStoreStringToString_def simp del: object_ok.simps replicate.simps)
  next
    case False
    obtain s' where s': "new_block os (n0 + 1) s = Ret (True, s')" using assms(1) unfolding gives_memory_def by metis
    have "save (replicate (unat (n0 + 1)) 0) 0 ?x = Ret (?x @ [0])"
      using u x(1) by (simp add: save_def replicate_append_same [symmetric] del: replicate.simps) (simp add: drop_Cons')
    then show ?thesis using False x(3) s' ok [of "[]"] by (auto simp: AcpiExStoreStringToString_def simp del: object_ok.simps)
  qed
qed

lemma store_buffer:
  assumes "gives_memory os" and "object_ok (Buf_Obj n0 b0)" and "object_ok (Buf_Obj n b)"
  shows "\<exists>m c s'. AcpiExStoreBufferToBuffer os False (f, Buf_Obj n0 b0) (g, Buf_Obj n b) s = Ret ((AE_OK, f AND NOT AOPOBJ_STATIC_POINTER, Buf_Obj m c), s') \<and>
    object_ok (Buf_Obj m c) \<and> take (unat m) c = (if n = 0 \<or> g AND AOPOBJ_STATIC_POINTER \<noteq> 0 then take (unat n0) b0
      else take (unat n) (take (unat n0) b0) @ replicate (unat n - unat n0) 0)"
proof -
  let ?x = "take (unat n0) b0"
  have x: "length ?x = unat n0" "load (unat n0) b0 = Ret ?x" using assms(2) by (auto simp: load_def)
  show ?thesis
  proof (cases "n = 0 \<or> g AND AOPOBJ_STATIC_POINTER \<noteq> 0")
    case True
    obtain s' where s': "new_block os n0 s = Ret (True, s')" using assms(1) unfolding gives_memory_def by metis
    have "save (replicate (unat n0) 0) 0 ?x = Ret ?x" "save (replicate (unat n0) 0) 0 (replicate (unat n0) 0) = Ret (replicate (unat n0) 0)"
      using x(1) by (simp_all add: save_def)
    then show ?thesis using True s' x by (auto simp: AcpiExStoreBufferToBuffer_def intro!: exI [of _ n0])
  next
    case False
    have n: "unat n \<le> length b" using assms(3) by simp
    show ?thesis
    proof (cases "n0 \<le> n")
      case True
      then have l: "unat n0 \<le> unat n" by (simp add: word_le_nat_alt)
      let ?c = "?x @ replicate (unat n - unat n0) 0 @ drop (unat n) b"
      have "save b 0 (replicate (unat n) 0) = Ret (replicate (unat n) 0 @ drop (unat n) b)" using n by (simp add: save_def)
      moreover have "save (replicate (unat n) 0 @ drop (unat n) b) 0 ?x = Ret ?c" using l n x(1) by (simp add: save_def)
      moreover have "take (unat n) ?c = take (unat n) ?x @ replicate (unat n - unat n0) 0" using l x(1) by simp
      ultimately show ?thesis
        using False True x n by (auto simp: AcpiExStoreBufferToBuffer_def simp del: take_append intro!: exI [of _ n])
    next
      case l: False
      then have l': "unat n < unat n0" by (simp add: word_le_nat_alt)
      have "load (unat n) b0 = Ret (take (unat n) b0)" using l' assms(2) by (simp add: load_def)
      moreover have "save b 0 (take (unat n) b0) = Ret (take (unat n) b0 @ drop (unat n) b)" using l' n x(1) by (simp add: save_def)
      ultimately show ?thesis
        using False l l' x n by (auto simp: AcpiExStoreBufferToBuffer_def min_absorb1 intro!: exI [of _ n])
    qed
  qed
qed

text \<open>
  A string stored over a string is a copy of it. A buffer stored over a buffer that has a length keeps
  that length: what is missing is filled with zeros, what does not fit is cut off; over an empty or a
  static buffer it is a copy.
\<close>

theorem stores_copy:
  assumes "gives_memory os" and "object_ok (Str_Obj n0 b0)" and "object_ok (Str_Obj n b)" and "object_ok (Buf_Obj m0 c0)" and "object_ok (Buf_Obj m c)"
    and "unat n0 < 2 ^ 32 - 1" and "unat n < 2 ^ 32 - 1"
  shows "(\<exists>fl t s'. AcpiExStoreStringToString os False (f, Str_Obj n0 b0) (g, Str_Obj n b) s = Ret ((AE_OK, fl, Str_Obj n0 t), s') \<and>
      object_ok (Str_Obj n0 t) \<and> take (unat n0) t = take (unat n0) b0) \<and>
    (\<exists>k t s'. AcpiExStoreBufferToBuffer os False (f, Buf_Obj m0 c0) (g, Buf_Obj m c) s = Ret ((AE_OK, f AND NOT AOPOBJ_STATIC_POINTER, Buf_Obj k t), s') \<and>
      object_ok (Buf_Obj k t) \<and> take (unat k) t = (if m = 0 \<or> g AND AOPOBJ_STATIC_POINTER \<noteq> 0 then take (unat m0) c0
        else take (unat m) (take (unat m0) c0) @ replicate (unat m - unat m0) 0))"
  using store_string [OF assms(1-3,6,7)] store_buffer [OF assms(1,4,5)] by blast

section \<open>At concrete inputs\<close>

theorem buffers_ordered_signed_witness:
  "AcpiExDoLogicalOp plenty 8 AML_LLESS_OP (exact_buffer [0x80]) (exact_buffer [0x7F]) 0 = Ret ((AE_OK, True), 0)"
proof -
  have "sint (0x80 :: u8) = - 128" "sint (0x7F :: u8) = 127" by simp_all
  then show ?thesis using buffers_ordered_signed [of "[0x80]" "[0x7F]" plenty 8 0] by simp
qed

theorem concatenation_witness:
  "\<exists>ob s'. AcpiExDoConcatenate plenty 4 (Str_Obj 1 [0x41, 0]) (Buf_Obj 1 [0x42]) 0 = Ret (Inr ob, s') \<and> content 4 ob = [0x41, 0x34, 0x32]"
proof -
  have c: "convert_operand plenty 4 (Str_Obj 1 [0x41, 0]) (Buf_Obj 1 [0x42]) 0 = Ret (Inr (New (Str_Obj 2 [0x34, 0x32, 0])), 2)"
    by code_simp
  have d: "\<forall>s. \<exists>s'. drop_object plenty s = Ret s'" by (simp add: plenty_def)
  have ok: "object_ok (Str_Obj 1 [0x41, 0])" "object_ok (result_object (Buf_Obj 1 [0x42]) (New (Str_Obj 2 [0x34, 0x32, 0])))"
    by code_simp+
  have x: "content 4 (Str_Obj 1 [0x41, 0]) = [0x41]" "content 4 (result_object (Buf_Obj 1 [0x42]) (New (Str_Obj 2 [0x34, 0x32, 0]))) = [0x34, 0x32]"
    by code_simp+
  show ?thesis using concatenation [OF c plenty_gives(1) d ok, unfolded x] by auto
qed

theorem concat_templates_witness:
  "\<exists>s'. AcpiExConcatTemplate plenty (template_object sample 3) (template_object [] 0) 0 = Ret (Inr (template_object sample 0), s')"
  using concat_templates [OF plenty_gives(1) sample_descriptors, of "[]" 3 0 0] sample_length by simp

theorem bcd_roundtrip_witness: "\<exists>r. to_bcd div_64_by_32 8 1234 = Ret (Inr r) \<and> from_bcd 8 r 1 0 = Inr 1234"
  using bcd_roundtrip [of 8 1234] by simp

theorem stores_copy_witness:
  "\<exists>k t s'. AcpiExStoreBufferToBuffer plenty False (4, Buf_Obj 1 [9]) (4, Buf_Obj 3 [1, 2, 3]) 0 = Ret ((AE_OK, 4, Buf_Obj k t), s') \<and> take (unat k) t = [9, 0, 0]"
proof -
  have fl: "(4 :: u8) AND NOT AOPOBJ_STATIC_POINTER = 4" "(4 :: u8) AND AOPOBJ_STATIC_POINTER = 0" by (simp_all add: AOPOBJ_STATIC_POINTER_def)
  have ok: "object_ok (Str_Obj 1 [0x41, 0])" "object_ok (Str_Obj 2 [0x41, 0x42, 0])" "object_ok (Buf_Obj 1 [9])" "object_ok (Buf_Obj 3 [1, 2, 3])"
    by code_simp+
  have x: "take (unat (3 :: u32)) (take (unat (1 :: u32)) [9]) @ replicate (unat (3 :: u32) - unat (1 :: u32)) 0 = [9 :: u8, 0, 0]" by code_simp
  have "unat (1 :: u32) < 2 ^ 32 - 1" "unat (2 :: u32) < 2 ^ 32 - 1" by simp_all
  from stores_copy [OF plenty_gives(1) ok this, of 4 4 0, unfolded fl x] show ?thesis by auto
qed

end
