(* ===== verification/AcpiField.thy ===== *)
theory AcpiField
  imports AcpiObject
begin

text \<open>
  Access to fields, executer/exfldio.c: a field of any number of bits is read and written through data of
  its access width, one, two, four or eight bytes, which a buffer, an operation region, or a pair of registers
  holds. The functions that split a field into data take the access to one datum as arguments, and the
  objects of fields, which refer to each other, tie the knot.

  A buffer of the caller is a block of bytes, its length is given apart from it. The handlers of regions,
  the evaluation of their arguments, the allocator and the memory of buffers are the record \<open>field_env\<close>;
  a field over a buffer has its arguments evaluated when its data are accessed. A shift by 64 or more and a division by 0 are \<open>Trap\<close>.
  An access width beyond the 8 bytes of a value, which only regions of the embedded controller get, is cut to 8
  by the functions below, as in the source; the one case that comes before the cut, a read of a whole such
  datum at once, is not modelled and is \<open>Trap\<close> too.
\<close>

definition AE_BUFFER_OVERFLOW :: ACPI_STATUS where "AE_BUFFER_OVERFLOW = 0x000B"
definition AE_AML_OPERAND_VALUE :: ACPI_STATUS where "AE_AML_OPERAND_VALUE = 0x3004"
definition AE_AML_REGION_LIMIT :: ACPI_STATUS where "AE_AML_REGION_LIMIT = 0x3009"
definition AE_AML_INVALID_SPACE_ID :: ACPI_STATUS where "AE_AML_INVALID_SPACE_ID = 0x3010"
definition AE_AML_REGISTER_LIMIT :: ACPI_STATUS where "AE_AML_REGISTER_LIMIT = 0x3019"

definition AML_FIELD_UPDATE_RULE_MASK :: u8 where "AML_FIELD_UPDATE_RULE_MASK = 0x60"
definition AML_FIELD_UPDATE_PRESERVE :: u8 where "AML_FIELD_UPDATE_PRESERVE = 0x00"
definition AML_FIELD_UPDATE_WRITE_AS_ONES :: u8 where "AML_FIELD_UPDATE_WRITE_AS_ONES = 0x20"
definition AML_FIELD_UPDATE_WRITE_AS_ZEROS :: u8 where "AML_FIELD_UPDATE_WRITE_AS_ZEROS = 0x40"

lemmas update_rules = AML_FIELD_UPDATE_RULE_MASK_def AML_FIELD_UPDATE_PRESERVE_def
  AML_FIELD_UPDATE_WRITE_AS_ONES_def AML_FIELD_UPDATE_WRITE_AS_ZEROS_def

definition ACPI_UINT64_MAX :: u64 where "ACPI_UINT64_MAX = 0xFFFFFFFFFFFFFFFF"
definition ACPI_MASK_BITS_ABOVE :: "nat \<Rightarrow> u64" where "ACPI_MASK_BITS_ABOVE p = NOT (push_bit p ACPI_UINT64_MAX)"
definition ACPI_MASK_BITS_BELOW :: "nat \<Rightarrow> u64" where "ACPI_MASK_BITS_BELOW p = push_bit p ACPI_UINT64_MAX"
definition ACPI_ROUND_UP_TO :: "u32 \<Rightarrow> u32 \<Rightarrow> u32" where "ACPI_ROUND_UP_TO v b = (v + (b - 1)) div b"
definition ACPI_ROUND_BITS_UP_TO_BYTES :: "u32 \<Rightarrow> u32" where "ACPI_ROUND_BITS_UP_TO_BYTES a = drop_bit 3 (a + 7)"

record field =
  FieldFlags :: u8
  Attribute :: u8
  AccessByteWidth :: u8
  BitLength :: u32
  BaseByteOffset :: u32
  StartFieldBitOffset :: u8

type_synonym 's datum_read = "field \<Rightarrow> u32 \<Rightarrow> 's \<Rightarrow> ((ACPI_STATUS + u64) \<times> 's) outcome"
type_synonym 's datum_write = "field \<Rightarrow> u32 \<Rightarrow> u64 \<Rightarrow> 's \<Rightarrow> (ACPI_STATUS \<times> 's) outcome"

section \<open>Fields as data\<close>

definition AcpiExWriteWithUpdateRule ::
  "'s datum_read \<Rightarrow> 's datum_write \<Rightarrow> field \<Rightarrow> u64 \<Rightarrow> u64 \<Rightarrow> u32 \<Rightarrow> 's \<Rightarrow> (ACPI_STATUS \<times> 's) outcome" where
  "AcpiExWriteWithUpdateRule rd wr c Mask FieldValue ofs s =
     (let rule = FieldFlags c AND AML_FIELD_UPDATE_RULE_MASK in
      if Mask = ACPI_UINT64_MAX then wr c ofs FieldValue s
      else if rule = AML_FIELD_UPDATE_PRESERVE then
        if AccessByteWidth c = 0 \<or> AccessByteWidth c > 8 then Trap
        else if push_bit (64 - 8 * unat (AccessByteWidth c)) (NOT Mask) \<noteq> 0
        then obind (rd c ofs s) (\<lambda>(r, s). case r of
               Inl Status \<Rightarrow> Ret (Status, s)
             | Inr CurrentValue \<Rightarrow> wr c ofs (FieldValue OR (CurrentValue AND NOT Mask)) s)
        else wr c ofs FieldValue s
      else if rule = AML_FIELD_UPDATE_WRITE_AS_ONES then wr c ofs (FieldValue OR NOT Mask) s
      else if rule = AML_FIELD_UPDATE_WRITE_AS_ZEROS then wr c ofs (FieldValue AND Mask) s
      else Ret (AE_AML_OPERAND_VALUE, s))"

text \<open>
  The loop that reads: \<open>n\<close> rounds are left, \<open>i\<close> counts them, \<open>dc\<close> is \<^verbatim>\<open>DatumCount\<close>, \<open>bl\<close> the length of the
  buffer \<open>b\<close>. It ends with the last datum still to be masked and stored at the offset.
\<close>

fun extract_loop ::
  "'s datum_read \<Rightarrow> field \<Rightarrow> u32 \<Rightarrow> u32 \<Rightarrow> nat \<Rightarrow> u32 \<Rightarrow> u32 \<Rightarrow> u32 \<Rightarrow> u64 \<Rightarrow> u8 list \<Rightarrow> 's \<Rightarrow>
   ((ACPI_STATUS + u64 \<times> u32 \<times> u8 list) \<times> 's) outcome" where
  "extract_loop rd c dc bl 0 i fo bo MergedDatum b s = Ret (Inr (MergedDatum, bo, b), s)"
| "extract_loop rd c dc bl (Suc n) i fo bo MergedDatum b s =
     (let fo = fo + ucast (AccessByteWidth c);
          shift = 8 * ucast (AccessByteWidth c) - ucast (StartFieldBitOffset c) :: u32
      in obind (rd c fo s) (\<lambda>(r, s). case r of
           Inl Status \<Rightarrow> Ret (Inl Status, s)
         | Inr RawDatum \<Rightarrow>
             let MergedDatum = (if shift < 64 then MergedDatum OR push_bit (unat shift) RawDatum else MergedDatum)
             in if i = dc then Ret (Inr (MergedDatum, bo, b), s)
                else obind (save b (unat bo) (take (unat (min (ucast (AccessByteWidth c)) (bl - bo))) (integer_bytes MergedDatum))) (\<lambda>b.
                     obind (shift_right RawDatum (unat (StartFieldBitOffset c))) (\<lambda>MergedDatum.
                     extract_loop rd c dc bl n (i + 1) fo (bo + ucast (AccessByteWidth c)) MergedDatum b s))))"

text \<open>The result is the buffer, when the status is AE_OK.\<close>

definition AcpiExExtractFromField ::
  "'s datum_read \<Rightarrow> field \<Rightarrow> u8 list \<Rightarrow> u32 \<Rightarrow> 's \<Rightarrow> ((ACPI_STATUS + u8 list) \<times> 's) outcome" where
  "AcpiExExtractFromField rd c Buffer BufferLength s =
     (if BufferLength < ACPI_ROUND_BITS_UP_TO_BYTES (BitLength c) then Ret (Inl AE_BUFFER_OVERFLOW, s)
      else obind (save Buffer 0 (replicate (unat BufferLength) 0)) (\<lambda>b.
        if StartFieldBitOffset c = 0 \<and> BitLength c = 8 * ucast (AccessByteWidth c)
        then if AccessByteWidth c > 8 then Trap
             else obind (rd c 0 s) (\<lambda>(r, s). case r of
                    Inl Status \<Rightarrow> Ret (Inl Status, s)
                  | Inr v \<Rightarrow> obind (save b 0 (integer_bytes v)) (\<lambda>b. Ret (Inr b, s)))
        else
          let c = (if AccessByteWidth c > 8 then c\<lparr>AccessByteWidth := 8\<rparr> else c);
              aw = 8 * ucast (AccessByteWidth c) :: u32
          in if aw = 0 then Trap
             else
               let DatumCount = ACPI_ROUND_UP_TO (BitLength c) aw;
                   FieldDatumCount = ACPI_ROUND_UP_TO (BitLength c + ucast (StartFieldBitOffset c)) aw
               in obind (rd c 0 s) (\<lambda>(r, s). case r of
                    Inl Status \<Rightarrow> Ret (Inl Status, s)
                  | Inr RawDatum \<Rightarrow>
                      obind (shift_right RawDatum (unat (StartFieldBitOffset c))) (\<lambda>MergedDatum.
                      obind (extract_loop rd c DatumCount BufferLength (unat FieldDatumCount - 1) 1 0 0 MergedDatum b s) (\<lambda>(r, s). case r of
                        Inl Status \<Rightarrow> Ret (Inl Status, s)
                      | Inr (MergedDatum, bo, b) \<Rightarrow>
                          let tail = BitLength c mod aw;
                              MergedDatum = (if tail \<noteq> 0 then MergedDatum AND ACPI_MASK_BITS_ABOVE (unat tail) else MergedDatum)
                          in obind (save b (unat bo) (take (unat (min (ucast (AccessByteWidth c)) (BufferLength - bo))) (integer_bytes MergedDatum)))
                               (\<lambda>b. Ret (Inr b, s)))))))"

text \<open>Copying bytes over the low bytes of a 64-bit variable.\<close>

definition overlay :: "u8 list \<Rightarrow> u64 \<Rightarrow> u64" where
  "overlay x v = collect_bytes (x @ drop (length x) (integer_bytes v)) 0 0"

text \<open>Bytes of the buffer from an offset on, up to the access width.\<close>

definition buffer_datum :: "field \<Rightarrow> u8 list \<Rightarrow> u32 \<Rightarrow> u32 \<Rightarrow> u64 \<Rightarrow> u64 outcome" where
  "buffer_datum c b bl bo RawDatum =
     (let n = unat (min (ucast (AccessByteWidth c)) (bl - bo))
      in if unat bo + n \<le> length b then Ret (overlay (take n (drop (unat bo) b)) RawDatum) else Trap)"

text \<open>
  The loop that writes ends with what is left for the last datum, or a status. The temporary buffer of a short source
  is given back with ACPI_FREE, which is empty in this port.
\<close>

fun insert_loop ::
  "'s datum_read \<Rightarrow> 's datum_write \<Rightarrow> field \<Rightarrow> u32 \<Rightarrow> u8 list \<Rightarrow> u32 \<Rightarrow> u64 \<Rightarrow> nat \<Rightarrow> u32 \<Rightarrow> u32 \<Rightarrow> u32 \<Rightarrow> u64 \<Rightarrow> u64 \<Rightarrow> u64 \<Rightarrow> 's \<Rightarrow>
   ((ACPI_STATUS + u64 \<times> u64 \<times> u32) \<times> 's) outcome" where
  "insert_loop rd wr c dc b bl WidthMask 0 i fo bo RawDatum MergedDatum Mask s = Ret (Inr (MergedDatum, Mask, fo), s)"
| "insert_loop rd wr c dc b bl WidthMask (Suc n) i fo bo RawDatum MergedDatum Mask s =
     obind (AcpiExWriteWithUpdateRule rd wr c Mask (MergedDatum AND Mask) fo s) (\<lambda>(Status, s).
     if Status \<noteq> AE_OK then Ret (Inl Status, s)
     else
       let fo = fo + ucast (AccessByteWidth c);
           shift = 8 * ucast (AccessByteWidth c) - ucast (StartFieldBitOffset c) :: u32;
           MergedDatum = (if shift < 64 then drop_bit (unat shift) RawDatum else 0);
           Mask = WidthMask
       in if i = dc then Ret (Inr (MergedDatum, Mask, fo), s)
          else
            let bo = bo + ucast (AccessByteWidth c)
            in obind (buffer_datum c b bl bo RawDatum) (\<lambda>RawDatum.
               obind (shift_left RawDatum (unat (StartFieldBitOffset c))) (\<lambda>d.
               insert_loop rd wr c dc b bl WidthMask n (i + 1) fo bo RawDatum (MergedDatum OR d) Mask s)))"

definition AcpiExInsertIntoField ::
  "(u32 \<Rightarrow> 's \<Rightarrow> (bool \<times> 's) outcome) \<Rightarrow> 's datum_read \<Rightarrow> 's datum_write \<Rightarrow> field \<Rightarrow> u8 list \<Rightarrow> u32 \<Rightarrow> 's \<Rightarrow> (ACPI_STATUS \<times> 's) outcome" where
  "AcpiExInsertIntoField alloc rd wr c Buffer BufferLength s =
     (let RequiredLength = ACPI_ROUND_BITS_UP_TO_BYTES (BitLength c) in
      obind (if BufferLength < RequiredLength
             then obind (alloc RequiredLength s) (\<lambda>(ok, s).
                  if \<not> ok then Ret (None, s)
                  else obind (load (unat BufferLength) Buffer) (\<lambda>x. obind (save (replicate (unat RequiredLength) 0) 0 x) (\<lambda>b.
                       Ret (Some (b, RequiredLength), s))))
             else Ret (Some (Buffer, BufferLength), s)) (\<lambda>(buf, s). case buf of
        None \<Rightarrow> Ret (AE_NO_MEMORY, s)
      | Some (b, bl) \<Rightarrow>
          let c = (if AccessByteWidth c > 8 then c\<lparr>AccessByteWidth := 8\<rparr> else c);
              aw = 8 * ucast (AccessByteWidth c) :: u32;
              WidthMask = (if aw = 64 then ACPI_UINT64_MAX else ACPI_MASK_BITS_ABOVE (unat aw));
              Start = unat (StartFieldBitOffset c)
          in if Start \<ge> 64 \<or> aw = 0 then Trap
             else
               let Mask = WidthMask AND ACPI_MASK_BITS_BELOW Start;
                   DatumCount = ACPI_ROUND_UP_TO (BitLength c) aw;
                   FieldDatumCount = ACPI_ROUND_UP_TO (BitLength c + ucast (StartFieldBitOffset c)) aw
               in obind (buffer_datum c b bl 0 0) (\<lambda>RawDatum.
                  obind (shift_left RawDatum Start) (\<lambda>MergedDatum.
                  obind (insert_loop rd wr c DatumCount b bl WidthMask (unat FieldDatumCount - 1) 1 0 0 RawDatum MergedDatum Mask s) (\<lambda>(r, s). case r of
                    Inl Status \<Rightarrow> Ret (Status, s)
                  | Inr (MergedDatum, Mask, fo) \<Rightarrow>
                      let tail = (BitLength c + ucast (StartFieldBitOffset c)) mod aw;
                          Mask = (if tail \<noteq> 0 then Mask AND ACPI_MASK_BITS_ABOVE (unat tail) else Mask)
                      in AcpiExWriteWithUpdateRule rd wr c Mask (MergedDatum AND Mask) fo s)))))"

section \<open>Regions\<close>

text \<open>
  A field refers to its region by a number, and so does a field over a buffer to the buffer.
  \<open>region_arguments\<close> is \<^verbatim>\<open>AcpiDsGetRegionArguments\<close>, \<open>dispatch_read\<close> and \<open>dispatch_write\<close> are
  \<^verbatim>\<open>AcpiEvAddressSpaceDispatch\<close> with the two values of its function argument: the field, the offset in the
  region and the width of the access in bits; \<open>dispatch_serial\<close> is the same for the regions whose data are whole
  buffers, with the function and the buffer. The last two take and release
  the global lock, whatever their status.
\<close>

record region =
  RegionType :: u32
  RegionSpaceId :: u8
  RegionValid :: bool
  RegionLength :: u32

record 's field_env =
  EnableInterpreterSlack :: bool
  region_of :: "nat \<Rightarrow> 's \<Rightarrow> region"
  region_arguments :: "nat \<Rightarrow> 's \<Rightarrow> (ACPI_STATUS \<times> 's) outcome"
  dispatch_read :: "nat \<Rightarrow> field \<Rightarrow> u32 \<Rightarrow> u32 \<Rightarrow> 's \<Rightarrow> ((ACPI_STATUS + u64) \<times> 's) outcome"
  dispatch_write :: "nat \<Rightarrow> field \<Rightarrow> u32 \<Rightarrow> u32 \<Rightarrow> u64 \<Rightarrow> 's \<Rightarrow> (ACPI_STATUS \<times> 's) outcome"
  dispatch_serial :: "nat \<Rightarrow> field \<Rightarrow> u32 \<Rightarrow> u32 \<Rightarrow> u32 \<Rightarrow> u8 list \<Rightarrow> 's \<Rightarrow> ((ACPI_STATUS \<times> u8 list) \<times> 's) outcome"
  buffer_bytes :: "nat \<Rightarrow> 's \<Rightarrow> u8 list"
  buffer_store :: "nat \<Rightarrow> u8 list \<Rightarrow> 's \<Rightarrow> 's"
  field_alloc :: "u32 \<Rightarrow> 's \<Rightarrow> (bool \<times> 's) outcome"
  lock_global :: "'s \<Rightarrow> 's outcome"
  unlock_global :: "'s \<Rightarrow> 's outcome"

definition ACPI_ADR_SPACE_SMBUS :: u8 where "ACPI_ADR_SPACE_SMBUS = 4"
definition ACPI_ADR_SPACE_IPMI :: u8 where "ACPI_ADR_SPACE_IPMI = 7"
definition ACPI_ADR_SPACE_GSBUS :: u8 where "ACPI_ADR_SPACE_GSBUS = 9"

definition ACPI_ROUND_UP :: "u32 \<Rightarrow> u32 \<Rightarrow> u32" where "ACPI_ROUND_UP v b = (v + (b - 1)) AND NOT (b - 1)"

definition serial_space :: "u8 \<Rightarrow> bool" where
  "serial_space i \<longleftrightarrow> i = ACPI_ADR_SPACE_SMBUS \<or> i = ACPI_ADR_SPACE_GSBUS \<or> i = ACPI_ADR_SPACE_IPMI"

definition AcpiExSetupRegion :: "'s field_env \<Rightarrow> nat \<Rightarrow> field \<Rightarrow> u32 \<Rightarrow> 's \<Rightarrow> (ACPI_STATUS \<times> 's) outcome" where
  "AcpiExSetupRegion env RgnDesc c FieldDatumByteOffset s =
     (let r = region_of env RgnDesc s in
      if RegionType r \<noteq> ACPI_TYPE_REGION then Ret (AE_AML_OPERAND_TYPE, s)
      else if \<not> AcpiIsValidSpaceId (RegionSpaceId r) then Ret (AE_AML_INVALID_SPACE_ID, s)
      else obind (if RegionValid r then Ret (AE_OK, s) else region_arguments env RgnDesc s) (\<lambda>(Status, s).
        let Length = RegionLength (region_of env RgnDesc s);
            end = BaseByteOffset c + FieldDatumByteOffset + ucast (AccessByteWidth c)
        in Ret (if Status \<noteq> AE_OK then Status
                else if serial_space (RegionSpaceId r) then AE_OK
                else if Length < end \<and>
                        \<not> (EnableInterpreterSlack env \<and>
                           BaseByteOffset c + ucast (AccessByteWidth c) + FieldDatumByteOffset
                             \<le> ACPI_ROUND_UP Length (ucast (AccessByteWidth c)))
                then AE_AML_REGION_LIMIT
                else AE_OK, s)))"

text \<open>\<^verbatim>\<open>AcpiExAccessRegion\<close>, with the dispatcher of the wanted direction as an argument.\<close>

definition AcpiExAccessRegion ::
  "'s field_env \<Rightarrow> nat \<Rightarrow> field \<Rightarrow> u32 \<Rightarrow> (u32 \<Rightarrow> u32 \<Rightarrow> 's \<Rightarrow> ('r \<times> 's) outcome) \<Rightarrow> (ACPI_STATUS \<Rightarrow> 'r) \<Rightarrow> 's \<Rightarrow> ('r \<times> 's) outcome" where
  "AcpiExAccessRegion env RgnDesc c FieldDatumByteOffset dispatch fail s =
     obind (AcpiExSetupRegion env RgnDesc c FieldDatumByteOffset s) (\<lambda>(Status, s).
       if Status \<noteq> AE_OK then Ret (fail Status, s)
       else dispatch (BaseByteOffset c + FieldDatumByteOffset) (8 * ucast (AccessByteWidth c)) s)"

definition AcpiExRegisterOverflow :: "field \<Rightarrow> u64 \<Rightarrow> bool" where
  "AcpiExRegisterOverflow c v \<longleftrightarrow> BitLength c < 64 \<and> v \<ge> push_bit (unat (BitLength c)) 1"

section \<open>The kinds of fields\<close>

text \<open>The register of a bank field or an index field is a field itself.\<close>

datatype field_object =
    Buffer_Field field nat
  | Region_Field field nat
  | Bank_Field field nat field_object u32
  | Index_Field field field_object field_object u32

primrec CommonField :: "field_object \<Rightarrow> field" where
  "CommonField (Buffer_Field c b) = c"
| "CommonField (Region_Field c r) = c"
| "CommonField (Bank_Field c r bank v) = c"
| "CommonField (Index_Field c index dat v) = c"

definition u32_bytes :: "u32 \<Rightarrow> u8 list" where
  "u32_bytes v = map (\<lambda>i. ucast (drop_bit (8 * i) v)) [0..<4]"

text \<open>
  \<^verbatim>\<open>AcpiExFieldDatumIo\<close> with ACPI_READ and with ACPI_WRITE. A write that selects the bank or the index comes
  before the access in both.
\<close>

definition select_register ::
  "'s field_env \<Rightarrow> 's datum_read \<Rightarrow> 's datum_write \<Rightarrow> field \<Rightarrow> u32 \<Rightarrow> u32 \<Rightarrow> 's \<Rightarrow> (ACPI_STATUS \<times> 's) outcome" where
  "select_register env rd wr c Limit v s =
     (if AcpiExRegisterOverflow c (ucast Limit) then Ret (AE_AML_REGISTER_LIMIT, s)
      else AcpiExInsertIntoField (field_alloc env) rd wr c (u32_bytes v) 4 s)"

fun datum_io_read :: "'s field_env \<Rightarrow> field_object \<Rightarrow> 's datum_read"
  and datum_io_write :: "'s field_env \<Rightarrow> field_object \<Rightarrow> 's datum_write" where
  "datum_io_read env (Buffer_Field f b) = (\<lambda>c ofs s.
     let p = unat (BaseByteOffset c + ofs); n = unat (AccessByteWidth c) in
     if n \<le> 8 \<and> p + n \<le> length (buffer_bytes env b s)
     then Ret (Inr (overlay (take n (drop p (buffer_bytes env b s))) 0), s) else Trap)"
| "datum_io_read env (Region_Field f r) = (\<lambda>c ofs.
     AcpiExAccessRegion env r c ofs (dispatch_read env r c) Inl)"
| "datum_io_read env (Bank_Field f r bank v) = (\<lambda>c ofs s.
     obind (select_register env (datum_io_read env bank) (datum_io_write env bank) (CommonField bank) v v s) (\<lambda>(Status, s).
       if Status \<noteq> AE_OK then Ret (Inl Status, s)
       else AcpiExAccessRegion env r c ofs (dispatch_read env r c) Inl s))"
| "datum_io_read env (Index_Field f index dat v) = (\<lambda>c ofs s.
     obind (select_register env (datum_io_read env index) (datum_io_write env index) (CommonField index) v (ofs + v) s) (\<lambda>(Status, s).
       if Status \<noteq> AE_OK then Ret (Inl Status, s)
       else obind (AcpiExExtractFromField (datum_io_read env dat) (CommonField dat) (replicate 8 0) 8 s) (\<lambda>(r, s).
         Ret (case r of Inl Status \<Rightarrow> Inl Status | Inr b \<Rightarrow> Inr (overlay b 0), s))))"
| "datum_io_write env (Buffer_Field f b) = (\<lambda>c ofs v s.
     let n = unat (AccessByteWidth c) in
     if n \<le> 8 then obind (save (buffer_bytes env b s) (unat (BaseByteOffset c + ofs)) (take n (integer_bytes v))) (\<lambda>x.
       Ret (AE_OK, buffer_store env b x s)) else Trap)"
| "datum_io_write env (Region_Field f r) = (\<lambda>c ofs v.
     AcpiExAccessRegion env r c ofs (\<lambda>p w. dispatch_write env r c p w v) id)"
| "datum_io_write env (Bank_Field f r bank bv) = (\<lambda>c ofs v s.
     obind (select_register env (datum_io_read env bank) (datum_io_write env bank) (CommonField bank) bv bv s) (\<lambda>(Status, s).
       if Status \<noteq> AE_OK then Ret (Status, s)
       else AcpiExAccessRegion env r c ofs (\<lambda>p w. dispatch_write env r c p w v) id s))"
| "datum_io_write env (Index_Field f index dat iv) = (\<lambda>c ofs v s.
     obind (select_register env (datum_io_read env index) (datum_io_write env index) (CommonField index) iv (ofs + iv) s) (\<lambda>(Status, s).
       if Status \<noteq> AE_OK then Ret (Status, s)
       else AcpiExInsertIntoField (field_alloc env) (datum_io_read env dat) (datum_io_write env dat) (CommonField dat)
              (integer_bytes v) 8 s))"

section \<open>Bits of buffers and of data\<close>

definition byte_bit :: "u8 list \<Rightarrow> nat \<Rightarrow> bool" where
  "byte_bit b n \<longleftrightarrow> n div 8 < length b \<and> bit (b ! (n div 8)) (n mod 8)"

text \<open>Data of \<open>aw\<close> bits as one stream of bits.\<close>

definition stream_bit :: "nat \<Rightarrow> (nat \<Rightarrow> u64) \<Rightarrow> nat \<Rightarrow> bool" where
  "stream_bit aw D n \<longleftrightarrow> bit (D (n div aw)) (n mod aw)"

lemma stream_bit_at: "t < aw \<Longrightarrow> stream_bit aw D (k * aw + t) \<longleftrightarrow> bit (D k) t"
  by (simp add: stream_bit_def)

lemma byte_bit_zeros [simp]: "\<not> byte_bit (replicate n 0) k"
  by (simp add: byte_bit_def)

lemma integer_bytes_bit: "byte_bit (take k (integer_bytes v)) n \<longleftrightarrow> n < 8 * k \<and> bit v n"
proof -
  have "n div 8 < 8 \<longleftrightarrow> n < 64" by auto
  moreover have "n div 8 < k \<longleftrightarrow> n < 8 * k" by auto
  ultimately show ?thesis
    using bit_imp_le_length [of v n] by (auto simp: byte_bit_def integer_bytes_def bit_simps)
qed

lemma save_bits:
  assumes "p + length x \<le> length b"
  shows "\<exists>b'. save b p x = Ret b' \<and> length b' = length b \<and>
    (\<forall>n. byte_bit b' n \<longleftrightarrow> (if 8 * p \<le> n \<and> n < 8 * (p + length x) then byte_bit x (n - 8 * p) else byte_bit b n))"
proof -
  let ?b = "take p b @ x @ drop (p + length x) b"
  have "byte_bit ?b n \<longleftrightarrow> (if 8 * p \<le> n \<and> n < 8 * (p + length x) then byte_bit x (n - 8 * p) else byte_bit b n)" for n
  proof -
    have 1: "8 * p \<le> n \<longleftrightarrow> p \<le> n div 8" and 2: "n < 8 * (p + length x) \<longleftrightarrow> n div 8 < p + length x" by auto
    have 3: "(n - 8 * p) div 8 = n div 8 - p \<and> (n - 8 * p) mod 8 = n mod 8" if "p \<le> n div 8"
    proof -
      define q where "q = n - 8 * p"
      have n: "n = q + p * 8" using that unfolding q_def by (simp add: 1 [symmetric] mult.commute)
      show ?thesis unfolding n by simp
    qed
    show ?thesis unfolding 1 2 using assms 3 by (auto simp: byte_bit_def nth_append)
  qed
  then show ?thesis using assms by (intro exI [of _ ?b]) (simp add: save_def)
qed

lemma unat_round_up_to:
  assumes "unat a + unat b \<le> 4294967295" and "0 < unat b"
  shows "unat (ACPI_ROUND_UP_TO a b) = (unat a + (unat b - 1)) div unat b"
proof -
  have "unat (b - 1) = unat b - 1" using assms(2) by (simp add: unat_minus_one word_neq_0_conv word_less_nat_alt)
  then have "unat (a + (b - 1)) = unat a + (unat b - 1)" using assms by (simp add: unat_word_ariths)
  then show ?thesis by (simp add: ACPI_ROUND_UP_TO_def unat_div)
qed

text \<open>Joining the two parts of a datum of the buffer.\<close>

lemma merge_bits:
  assumes "start < aw" and "aw \<le> 64" and "\<And>n. bit (D j) n \<Longrightarrow> n < aw" and "t < aw"
  shows "bit (if aw - start < 64 then drop_bit start (D j) OR push_bit (aw - start) (D (Suc j)) else drop_bit start (D j :: u64)) t
    \<longleftrightarrow> stream_bit aw D (start + j * aw + t)"
proof (cases "start + t < aw")
  case True
  have "start + j * aw + t = j * aw + (start + t)" by simp
  then have "stream_bit aw D (start + j * aw + t) \<longleftrightarrow> bit (D j) (start + t)"
    by (metis stream_bit_at [OF True])
  then show ?thesis using True assms by (auto simp: bit_simps add.commute)
next
  case False
  have "start + j * aw + t = Suc j * aw + (start + t - aw)" and "start + t - aw < aw" using False assms by auto
  then have "stream_bit aw D (start + j * aw + t) \<longleftrightarrow> bit (D (Suc j)) (start + t - aw)"
    by (metis stream_bit_at)
  moreover have "\<not> bit (D j) (start + t)" using False assms(3) by blast
  moreover have "t - (aw - start) = start + t - aw" using False assms(1) by simp
  ultimately show ?thesis using False assms by (auto simp: bit_simps)
qed

lemma all_ones: "ACPI_UINT64_MAX = - 1"
  unfolding ACPI_UINT64_MAX_def by code_simp

lemma mask_above_bit: "bit (x AND ACPI_MASK_BITS_ABOVE p) n \<longleftrightarrow> n < p \<and> bit x n"
  using bit_imp_le_length [of x n] by (auto simp: ACPI_MASK_BITS_ABOVE_def all_ones bit_simps)

lemma overlay_bit:
  assumes "length x \<le> 8"
  shows "bit (overlay x v) t \<longleftrightarrow> (if t < 8 * length x then byte_bit x t else bit v t)"
proof -
  have d: "t div 8 < length x \<longleftrightarrow> t < 8 * length x" "t div 8 < 8 \<longleftrightarrow> t < 64" by auto
  have v: "integer_bytes v ! (t div 8) = ucast (drop_bit (8 * (t div 8)) v)" if "t < 64"
    using that d(2) nth_upt [of 0 "t div 8" 8] by (simp add: integer_bytes_def)
  show ?thesis using assms bit_imp_le_length [of v t]
    by (auto simp: overlay_def collect_bytes_bit byte_bit_def nth_append d v bit_simps)
qed

text \<open>The bits of a datum outside the field, by the update rule.\<close>

definition update_rule :: "field \<Rightarrow> u8" where
  "update_rule c = FieldFlags c AND AML_FIELD_UPDATE_RULE_MASK"

definition outside :: "u8 \<Rightarrow> bool \<Rightarrow> bool" where
  "outside rule old \<longleftrightarrow> (if rule = AML_FIELD_UPDATE_PRESERVE then old else rule = AML_FIELD_UPDATE_WRITE_AS_ONES)"

definition rule_known :: "field \<Rightarrow> bool" where
  "rule_known c \<longleftrightarrow> update_rule c \<in> {AML_FIELD_UPDATE_PRESERVE, AML_FIELD_UPDATE_WRITE_AS_ONES, AML_FIELD_UPDATE_WRITE_AS_ZEROS}"

lemma rules_differ: "AML_FIELD_UPDATE_WRITE_AS_ONES \<noteq> AML_FIELD_UPDATE_PRESERVE"
  "AML_FIELD_UPDATE_WRITE_AS_ZEROS \<noteq> AML_FIELD_UPDATE_PRESERVE"
  "AML_FIELD_UPDATE_WRITE_AS_ZEROS \<noteq> AML_FIELD_UPDATE_WRITE_AS_ONES"
  by (simp_all add: update_rules)

lemmas write_rule = AcpiExWriteWithUpdateRule_def [unfolded Let_def update_rule_def [symmetric]] rules_differ outside_def

section \<open>A store of data\<close>

text \<open>
  What reading and writing whole data promises: \<open>datum s k\<close> is the datum with number \<open>k\<close>, of \<open>w\<close> bytes, of the
  \<open>N\<close> data that the container has from the base offset of the field on; a read does not change the store, a write
  changes the datum it names and keeps as many bits of the value as a datum has. The field is \<open>len\<close> bits
  of these data from bit \<open>start\<close> on.
\<close>

locale datum_store =
  fixes c :: field and rd :: "'s datum_read" and wr :: "'s datum_write"
    and w N start len :: nat and good :: "'s \<Rightarrow> bool" and datum :: "'s \<Rightarrow> nat \<Rightarrow> u64" and put :: "nat \<Rightarrow> u64 \<Rightarrow> 's \<Rightarrow> 's"
  assumes width: "w = unat (AccessByteWidth c)" and widths: "w \<in> {1, 2, 4, 8}"
    and limit: "8 * w * N + 8 * w < 4294967296"
    and start: "start = unat (StartFieldBitOffset c)" "start < 8 * w"
    and len: "len = unat (BitLength c)" "0 < len" and inside: "start + len \<le> 8 * w * N"
    and read_datum: "good s \<Longrightarrow> k < N \<Longrightarrow> rd c (of_nat (k * w)) s = Ret (Inr (datum s k), s)"
    and datum_fits: "good s \<Longrightarrow> k < N \<Longrightarrow> bit (datum s k) n \<Longrightarrow> n < 8 * w"
    and write_datum: "good s \<Longrightarrow> k < N \<Longrightarrow> wr c (of_nat (k * w)) v s = Ret (AE_OK, put k v s)"
    and good_put: "good s \<Longrightarrow> k < N \<Longrightarrow> good (put k v s)"
    and datum_put: "good s \<Longrightarrow> k < N \<Longrightarrow> j < N \<Longrightarrow>
      bit (datum (put k v s) j) n \<longleftrightarrow> n < 8 * w \<and> bit (if j = k then v else datum s j) n"
begin

lemma w_bounds: "0 < w" "w \<le> 8"
  using widths by auto

lemma width_u32: "(ucast (AccessByteWidth c) :: u32) = of_nat w"
  by (simp add: width)

lemma unat_width: "unat (of_nat w :: u32) = w" "unat (8 * of_nat w :: u32) = 8 * w" "AccessByteWidth c \<le> 8"
proof -
  show u: "unat (of_nat w :: u32) = w" using w_bounds by (intro unat_of_nat_eq) simp
  show "unat (8 * of_nat w :: u32) = 8 * w" using w_bounds u by (simp add: unat_word_ariths)
  show "AccessByteWidth c \<le> 8" using w_bounds by (simp add: word_le_nat_alt flip: width)
qed

text \<open>The offset of a datum.\<close>

definition place :: "nat \<Rightarrow> u32" where "place k = of_nat (k * w)"

lemma place_0 [simp]: "place 0 = 0"
  by (simp add: place_def)

lemma next_place: "place k + of_nat w = place (Suc k)"
  by (simp add: place_def)

lemmas read_place = read_datum [folded place_def] and write_place = write_datum [folded place_def]

lemma unat_place: "k \<le> N \<Longrightarrow> unat (place k) = k * w"
proof -
  assume "k \<le> N"
  then have "k * w \<le> N * w" by simp
  also have "\<dots> \<le> 8 * w * N" by simp
  finally have "k * w < 4294967296" using limit by linarith
  then show ?thesis unfolding place_def by (intro unat_of_nat_eq) simp
qed


lemma counts_small: "k \<le> N \<Longrightarrow> k < 4294967296"
proof -
  assume "k \<le> N"
  also have "N \<le> 8 * w * N" using w_bounds by simp
  finally show ?thesis using limit by linarith
qed

lemma start_u32: "unat (ucast (StartFieldBitOffset c) :: u32) = start"
proof -
  have "unat (StartFieldBitOffset c) < 256" using unsigned_less [of "StartFieldBitOffset c"] by simp
  then show ?thesis by (simp add: start unsigned_ucast_eq take_bit_nat_eq_self)
qed

lemma rest_u32: "unat (8 * of_nat w - ucast (StartFieldBitOffset c) :: u32) = 8 * w - start"
  using start by (subst unat_sub) (simp_all add: word_le_nat_alt unat_width start_u32)

lemma stream_next:
  assumes "good s" "Suc j < N" "t < 8 * w"
  shows "bit (if 8 * of_nat w - ucast (StartFieldBitOffset c) < (64 :: u32)
      then drop_bit start (datum s j) OR push_bit (unat (8 * of_nat w - ucast (StartFieldBitOffset c) :: u32)) (datum s (Suc j))
      else drop_bit start (datum s j)) t \<longleftrightarrow> stream_bit (8 * w) (datum s) (start + j * (8 * w) + t)"
proof -
  have "8 * of_nat w - ucast (StartFieldBitOffset c) < (64 :: u32) \<longleftrightarrow> 8 * w - start < 64"
    by (simp add: word_less_nat_alt rest_u32)
  then show ?thesis unfolding rest_u32
    using merge_bits [of start "8 * w" "datum s" j t] assms start w_bounds datum_fits [of s j] by simp
qed

text \<open>The numbers of data that the bits of the field fill, and that they lie in.\<close>

definition data_of :: "nat \<Rightarrow> nat" where
  "data_of n = (n + (8 * w - 1)) div (8 * w)"

lemma data_of_less: "k < data_of n \<longleftrightarrow> 8 * w * k < n"
proof -
  have "k < data_of n \<longleftrightarrow> Suc k * (8 * w) \<le> n + (8 * w - 1)"
    unfolding data_of_def using w_bounds by (simp add: less_eq_div_iff_mult_less_eq flip: Suc_le_eq del: mult_Suc)
  also have "\<dots> \<longleftrightarrow> 8 * w * k < n" using w_bounds by (auto simp: mult.commute)
  finally show ?thesis .
qed

lemma data_bounds: "0 < data_of len" "data_of (len + start) \<le> N"
  "data_of (len + start) = data_of len \<or> data_of (len + start) = Suc (data_of len)"
proof -
  show "0 < data_of len" using data_of_less [of 0 len] len by simp
  show "data_of (len + start) \<le> N" using data_of_less [of N "len + start"] inside by linarith
  have "data_of len \<le> data_of (len + start)" by (simp add: data_of_def div_le_mono)
  moreover have "\<not> 8 * w * data_of len < len" using data_of_less [of "data_of len" len] by simp
  then have "\<not> 8 * w * Suc (data_of len) < len + start" using start by simp
  then have "data_of (len + start) \<le> Suc (data_of len)" using data_of_less [of "Suc (data_of len)" "len + start"] by linarith
  ultimately show "data_of (len + start) = data_of len \<or> data_of (len + start) = Suc (data_of len)" by linarith
qed

lemma unat_counts:
  "unat (ACPI_ROUND_UP_TO (BitLength c) (8 * of_nat w)) = data_of len"
  "unat (ACPI_ROUND_UP_TO (BitLength c + ucast (StartFieldBitOffset c)) (8 * of_nat w)) = data_of (len + start)"
proof -
  have "8 * w < 4294967296" using limit by linarith
  have b: "len + start + 8 * w \<le> 4294967295" using limit inside by linarith
  have a: "unat (BitLength c + ucast (StartFieldBitOffset c)) = len + start"
    using b by (subst unat_add_lem [THEN iffD1]) (simp_all add: start_u32 flip: len(1))
  show "unat (ACPI_ROUND_UP_TO (BitLength c) (8 * of_nat w)) = data_of len"
    using b w_bounds by (subst unat_round_up_to) (simp_all add: unat_width data_of_def flip: len(1))
  show "unat (ACPI_ROUND_UP_TO (BitLength c + ucast (StartFieldBitOffset c)) (8 * of_nat w)) = data_of (len + start)"
    using b w_bounds by (subst unat_round_up_to) (simp_all add: unat_width data_of_def a)
qed


section \<open>Reading a field\<close>

lemma full_chunk:
  assumes "Suc j < data_of len" "len \<le> 8 * unat bl"
  shows "unat (min (of_nat w) (bl - place j)) = w" "unat (place j) + w \<le> unat bl"
proof -
  have j: "j \<le> N" using assms(1) data_bounds by linarith
  have "8 * w * Suc j < 8 * unat bl" using assms data_of_less [of "Suc j" len] by linarith
  then have "8 * (Suc j * w) < 8 * unat bl" by (simp only: ac_simps)
  then have b: "Suc j * w < unat bl" by (simp only: nat_mult_less_cancel_disj)
  show "unat (place j) + w \<le> unat bl" using b by (simp add: unat_place [OF j])
  have "unat (bl - place j) = unat bl - j * w"
    using b by (subst unat_sub) (simp_all add: word_le_nat_alt unat_place [OF j])
  then have "of_nat w \<le> bl - place j" using b by (simp add: word_le_nat_alt unat_width)
  then show "unat (min (of_nat w) (bl - place j)) = w" by (simp add: min_def unat_width)
qed

lemma extract_loop_bits:
  assumes "good s" "Suc j \<le> data_of len" "Suc j + n = data_of (len + start)"
    "unat bl \<le> length b" "len \<le> 8 * unat bl"
  shows "\<exists>m b'. extract_loop rd c (ACPI_ROUND_UP_TO (BitLength c) (8 * of_nat w)) bl n (of_nat (Suc j)) (place j) (place j)
      (drop_bit start (datum s j)) b s = Ret (Inr (m, place (data_of len - 1), b'), s)
    \<and> length b' = length b
    \<and> (\<forall>k. byte_bit b' k \<longleftrightarrow> (if 8 * w * j \<le> k \<and> k < 8 * w * (data_of len - 1)
          then stream_bit (8 * w) (datum s) (start + k) else byte_bit b k))
    \<and> (\<forall>t < 8 * w. (data_of len - 1) * (8 * w) + t < len \<longrightarrow>
          (bit m t \<longleftrightarrow> stream_bit (8 * w) (datum s) (start + (data_of len - 1) * (8 * w) + t)))"
  using assms
proof (induction n arbitrary: j b)
  case 0
  have j: "data_of len = Suc j" "data_of (len + start) = Suc j" using 0 data_bounds(3) by auto
  have "bit (drop_bit start (datum s j)) t \<longleftrightarrow> stream_bit (8 * w) (datum s) (start + j * (8 * w) + t)"
    if "j * (8 * w) + t < len" for t
  proof -
    have "len + start \<le> 8 * w * Suc j" using data_of_less [of "Suc j" "len + start"] j by simp
    then have "start + t < 8 * w" using that by (simp add: algebra_simps)
    then have "stream_bit (8 * w) (datum s) (j * (8 * w) + (start + t)) \<longleftrightarrow> bit (datum s j) (start + t)"
      by (rule stream_bit_at)
    moreover have "start + j * (8 * w) + t = j * (8 * w) + (start + t)" by simp
    ultimately show ?thesis by (simp only: bit_drop_bit_eq comp_apply)
  qed
  then show ?case using j by auto
next
  case (Suc n)
  let ?dc = "ACPI_ROUND_UP_TO (BitLength c) (8 * of_nat w)"
  let ?m = "if 8 * of_nat w - ucast (StartFieldBitOffset c) < (64 :: u32)
      then drop_bit start (datum s j) OR push_bit (unat (8 * of_nat w - ucast (StartFieldBitOffset c) :: u32)) (datum s (Suc j))
      else drop_bit start (datum s j)"
  have N: "Suc j < N" using Suc.prems(3) data_bounds(2) by linarith
  note rd = read_place [OF Suc.prems(1) N] and m = stream_next [OF Suc.prems(1) N]
  have "unat (of_nat (Suc j) :: u32) = Suc j" using counts_small [OF less_imp_le [OF N]] by (intro unat_of_nat_eq) simp
  then have eq: "of_nat (Suc j) = ?dc \<longleftrightarrow> Suc j = data_of len" by (simp only: word_unat_eq_iff unat_counts)
  have i: "of_nat (Suc j) + 1 = (of_nat (Suc (Suc j)) :: u32)" by simp
  have sr: "shift_right (datum s (Suc j)) (unat (StartFieldBitOffset c)) = Ret (drop_bit start (datum s (Suc j)))"
    using start w_bounds by (simp add: shift_right_def)
  have step: "extract_loop rd c ?dc bl (Suc n) (of_nat (Suc j)) (place j) (place j) (drop_bit start (datum s j)) b s =
    (if Suc j = data_of len then Ret (Inr (?m, place j, b), s)
     else obind (save b (unat (place j)) (take (unat (min (of_nat w) (bl - place j))) (integer_bytes ?m))) (\<lambda>b.
       extract_loop rd c ?dc bl n (of_nat (Suc (Suc j))) (place (Suc j)) (place (Suc j)) (drop_bit start (datum s (Suc j))) b s))"
    by (simp only: extract_loop.simps Let_def width_u32 next_place rd obind_simps prod.case sum.case eq i sr)
  show ?case
  proof (cases "Suc j = data_of len")
    case True
    then have d: "data_of len = Suc j" by simp
    show ?thesis unfolding step unfolding d using m by auto
  next
    case False
    then have j: "Suc j < data_of len" using Suc.prems(2) by simp
    note chunk = full_chunk [OF j Suc.prems(5)]
    obtain b1 where b1: "save b (unat (place j)) (take w (integer_bytes ?m)) = Ret b1" "length b1 = length b"
      "\<And>k. byte_bit b1 k \<longleftrightarrow> (if 8 * (j * w) \<le> k \<and> k < 8 * (j * w + w) then byte_bit (take w (integer_bytes ?m)) (k - 8 * (j * w)) else byte_bit b k)"
      using save_bits [of "unat (place j)" "take w (integer_bytes ?m)" b] chunk(2) Suc.prems(4) w_bounds N
      by (auto simp: unat_place)
    have r: "8 * (j * w) = 8 * w * j" "8 * (j * w + w) = 8 * w * Suc j" by (simp_all add: algebra_simps)
    note b1_bits = b1(3) [unfolded r]
    have bits: "byte_bit b1 k \<longleftrightarrow> (if 8 * w * j \<le> k \<and> k < 8 * w * Suc j then stream_bit (8 * w) (datum s) (start + k) else byte_bit b k)" for k
    proof (cases "8 * w * j \<le> k \<and> k < 8 * w * Suc j")
      case True
      then obtain t where k: "k = 8 * w * j + t" and t: "t < 8 * w" by (metis add_less_cancel_left le_Suc_ex mult_Suc_right add.commute)
      have "byte_bit b1 k \<longleftrightarrow> bit ?m t" using t unfolding b1_bits k integer_bytes_bit by simp
      also have "\<dots> \<longleftrightarrow> stream_bit (8 * w) (datum s) (start + k)" using m [OF t] by (simp add: k ac_simps)
      finally show ?thesis using True by simp
    next
      case False
      then show ?thesis unfolding b1_bits by (simp only: if_False)
    qed
    have "\<exists>m b'. extract_loop rd c ?dc bl n (of_nat (Suc (Suc j))) (place (Suc j)) (place (Suc j)) (drop_bit start (datum s (Suc j))) b1 s
          = Ret (Inr (m, place (data_of len - 1), b'), s)
      \<and> length b' = length b1
      \<and> (\<forall>k. byte_bit b' k \<longleftrightarrow> (if 8 * w * Suc j \<le> k \<and> k < 8 * w * (data_of len - 1)
            then stream_bit (8 * w) (datum s) (start + k) else byte_bit b1 k))
      \<and> (\<forall>t < 8 * w. (data_of len - 1) * (8 * w) + t < len \<longrightarrow>
            (bit m t \<longleftrightarrow> stream_bit (8 * w) (datum s) (start + (data_of len - 1) * (8 * w) + t)))"
      using Suc.prems j b1(2) by (intro Suc.IH) auto
    then obtain m' b' where ih: "extract_loop rd c ?dc bl n (of_nat (Suc (Suc j))) (place (Suc j)) (place (Suc j)) (drop_bit start (datum s (Suc j))) b1 s
          = Ret (Inr (m', place (data_of len - 1), b'), s)" "length b' = length b1"
      "\<And>k. byte_bit b' k \<longleftrightarrow> (if 8 * w * Suc j \<le> k \<and> k < 8 * w * (data_of len - 1)
            then stream_bit (8 * w) (datum s) (start + k) else byte_bit b1 k)"
      "\<And>t. t < 8 * w \<Longrightarrow> (data_of len - 1) * (8 * w) + t < len \<Longrightarrow>
            (bit m' t \<longleftrightarrow> stream_bit (8 * w) (datum s) (start + (data_of len - 1) * (8 * w) + t))" by blast
    have "8 * w * Suc j \<le> 8 * w * (data_of len - 1)" using j by (intro mult_le_mono2) simp
    then have "byte_bit b' k \<longleftrightarrow> (if 8 * w * j \<le> k \<and> k < 8 * w * (data_of len - 1)
        then stream_bit (8 * w) (datum s) (start + k) else byte_bit b k)" for k
      unfolding ih(3) bits by auto
    then show ?thesis unfolding step using False b1 ih chunk(1) by auto
  qed
qed



lemma last_of: "0 < n \<Longrightarrow> 8 * w * (data_of n - 1) < n" "0 < n \<Longrightarrow> n \<le> 8 * w * (data_of n - 1) + 8 * w"
  "0 < n \<Longrightarrow> n mod (8 * w) \<noteq> 0 \<Longrightarrow> n = 8 * w * (data_of n - 1) + n mod (8 * w)"
  "0 < n \<Longrightarrow> n mod (8 * w) = 0 \<Longrightarrow> n = 8 * w * (data_of n - 1) + 8 * w"
proof -
  assume pos: "0 < n"
  let ?k = "data_of n - 1"
  have k: "Suc ?k = data_of n" using data_of_less [of 0 n] pos by simp
  show 1: "8 * w * ?k < n" using data_of_less [of ?k n] k by simp
  have "\<not> 8 * w * Suc ?k < n" using data_of_less [of "Suc ?k" n] k by simp
  then show 2: "n \<le> 8 * w * ?k + 8 * w" by simp
  define t where "t = n - 8 * w * ?k"
  have t: "n = 8 * w * ?k + t" "0 < t" "t \<le> 8 * w" using 1 2 unfolding t_def by linarith+
  have md: "n mod (8 * w) = t mod (8 * w)" by (subst t(1)) simp
  show "n = 8 * w * ?k + n mod (8 * w)" if "n mod (8 * w) \<noteq> 0"
  proof -
    have "t mod (8 * w) = t" using t(3) that md by (cases "t = 8 * w") auto
    then show ?thesis using t(1) md by linarith
  qed
  show "n = 8 * w * ?k + 8 * w" if "n mod (8 * w) = 0"
  proof -
    have "t = 8 * w" using t(2,3) that md by (cases "t = 8 * w") auto
    then show ?thesis using t(1) by linarith
  qed
qed

lemmas last_datum = last_of [OF len(2)]

lemma field_length: "unat (ACPI_ROUND_BITS_UP_TO_BYTES (BitLength c)) = (len + 7) div 8"
proof -
  have "len + 7 < 4294967296" using limit inside w_bounds by linarith
  then have "unat (BitLength c + 7) = len + 7" by (subst unat_add_lem [THEN iffD1]) (simp_all flip: len(1))
  then show ?thesis unfolding ACPI_ROUND_BITS_UP_TO_BYTES_def unat_drop_bit_eq by (simp add: drop_bit_eq_div)
qed

lemma buffer_enough: "ACPI_ROUND_BITS_UP_TO_BYTES (BitLength c) \<le> bl \<longleftrightarrow> len \<le> 8 * unat bl"
  unfolding word_le_nat_alt field_length by auto

text \<open>The last datum of the buffer, its bits beyond the field cleared.\<close>

definition last_value :: "u64 \<Rightarrow> u64" where
  "last_value m = (if BitLength c mod (8 * of_nat w) \<noteq> 0
     then m AND ACPI_MASK_BITS_ABOVE (unat (BitLength c mod (8 * of_nat w))) else m)"

lemma last_value_bit:
  assumes "t < 8 * w"
  shows "bit (last_value m) t \<longleftrightarrow> 8 * w * (data_of len - 1) + t < len \<and> bit m t"
proof -
  have u: "unat (BitLength c mod (8 * of_nat w)) = len mod (8 * w)" by (simp add: unat_mod unat_width flip: len(1))
  then have z: "BitLength c mod (8 * of_nat w) = 0 \<longleftrightarrow> len mod (8 * w) = 0" by (metis unat_eq_zero)
  show ?thesis
  proof (cases "len mod (8 * w) = 0")
    case True
    then show ?thesis using last_datum(4) assms z by (simp add: last_value_def)
  next
    case False
    have "t < len mod (8 * w) \<longleftrightarrow> 8 * w * (data_of len - 1) + t < len" using last_datum(3) [OF False] by linarith
    then show ?thesis using False z by (simp add: last_value_def mask_above_bit u)
  qed
qed

lemma last_chunk:
  assumes "len \<le> 8 * unat bl"
  shows "\<exists>q. unat (min (of_nat w) (bl - place (data_of len - 1))) = q \<and> q \<le> w
    \<and> unat (place (data_of len - 1)) = (data_of len - 1) * w
    \<and> (data_of len - 1) * w + q \<le> unat bl \<and> len \<le> 8 * w * (data_of len - 1) + 8 * q
    \<and> (q = w \<or> (data_of len - 1) * w + q = unat bl)"
proof -
  define k where "k = data_of len - 1"
  note last = last_datum [folded k_def]
  have "k \<le> N" using data_bounds unfolding k_def by linarith
  note p = unat_place [OF this]
  have "8 * (k * w) < 8 * unat bl" using last(1) assms by (simp add: ac_simps)
  then have le: "k * w < unat bl" by (simp only: nat_mult_less_cancel_disj)
  then have d: "unat (bl - place k) = unat bl - k * w" by (subst unat_sub) (simp_all add: word_le_nat_alt p)
  have q: "unat (min (of_nat w) (bl - place k)) = min w (unat bl - k * w)"
    by (simp add: min_def word_le_nat_alt unat_width d)
  have "8 * (unat bl - k * w) + 8 * w * k = 8 * unat bl" using le by (simp add: algebra_simps)
  then show ?thesis unfolding k_def [symmetric] using q p le last(2) assms by (intro exI [of _ "min w (unat bl - k * w)"]) (auto simp: min_def)
qed


lemma one_datum: "good s \<Longrightarrow> rd c 0 s = Ret (Inr (datum s 0), s)" "0 < N"
proof -
  show "0 < N" using inside len(2) by (cases N) auto
  then show "good s \<Longrightarrow> rd c 0 s = Ret (Inr (datum s 0), s)" using read_place [of s 0] by simp
qed

text \<open>The whole datum at once.\<close>

lemma extract_whole:
  assumes "good s" "8 \<le> length b" "\<And>k. P k \<Longrightarrow> \<not> byte_bit b k" "start = 0" "len = 8 * w"
  shows "\<exists>b'. save b 0 (integer_bytes (datum s 0)) = Ret b' \<and> length b' = length b
    \<and> (\<forall>k. P k \<longrightarrow> (byte_bit b' k \<longleftrightarrow> k < len \<and> stream_bit (8 * w) (datum s) (start + k)))"
proof -
  obtain b' where b': "save b 0 (integer_bytes (datum s 0)) = Ret b'" "length b' = length b"
    "\<And>n. byte_bit b' n \<longleftrightarrow> (if n < 64 then byte_bit (integer_bytes (datum s 0)) n else byte_bit b n)"
    using save_bits [of 0 "integer_bytes (datum s 0)" b] assms(2) by auto
  have "byte_bit (integer_bytes (datum s 0)) n \<longleftrightarrow> bit (datum s 0) n" for n
    using integer_bytes_bit [of 8 "datum s 0" n] bit_imp_le_length [of "datum s 0" n] by auto
  moreover have "bit (datum s 0) n \<longleftrightarrow> n < len \<and> stream_bit (8 * w) (datum s) n" for n
    using datum_fits [OF assms(1) one_datum(2), of n] stream_bit_at [of n "8 * w" "datum s" 0] assms(5) by auto
  ultimately show ?thesis using b' assms(3,4,5) w_bounds by (intro exI [of _ b']) auto
qed

lemma extract_last:
  assumes "len \<le> 8 * unat bl" "unat bl \<le> length b"
    "\<And>k. P k \<Longrightarrow> byte_bit b k \<longleftrightarrow> k < 8 * w * (data_of len - 1) \<and> stream_bit (8 * w) D (start + k)"
    "\<And>t. t < 8 * w \<Longrightarrow> (data_of len - 1) * (8 * w) + t < len \<Longrightarrow>
        (bit m t \<longleftrightarrow> stream_bit (8 * w) D (start + (data_of len - 1) * (8 * w) + t))"
  shows "\<exists>b'. save b (unat (place (data_of len - 1))) (take (unat (min (of_nat w) (bl - place (data_of len - 1)))) (integer_bytes (last_value m))) = Ret b'
    \<and> length b' = length b \<and> (\<forall>k. P k \<longrightarrow> (byte_bit b' k \<longleftrightarrow> k < len \<and> stream_bit (8 * w) D (start + k)))"
proof -
  define d where "d = data_of len - 1"
  obtain q where q: "unat (min (of_nat w) (bl - place d)) = q" "q \<le> w" "unat (place d) = d * w" "d * w + q \<le> unat bl"
    "len \<le> 8 * w * d + 8 * q" "q = w \<or> d * w + q = unat bl" unfolding d_def using last_chunk [OF assms(1)] by blast
  obtain b' where b': "save b (unat (place d)) (take q (integer_bytes (last_value m))) = Ret b'" "length b' = length b"
    "\<And>k. byte_bit b' k \<longleftrightarrow> (if 8 * (d * w) \<le> k \<and> k < 8 * (d * w + q) then byte_bit (take q (integer_bytes (last_value m))) (k - 8 * (d * w)) else byte_bit b k)"
    using save_bits [of "unat (place d)" "take q (integer_bytes (last_value m))" b] assms(2) q w_bounds by auto
  have r: "8 * (d * w) = 8 * w * d" "8 * (d * w + q) = 8 * w * d + 8 * q" by (simp_all add: algebra_simps)
  have "byte_bit b' k \<longleftrightarrow> k < len \<and> stream_bit (8 * w) D (start + k)" if k: "P k" for k
  proof (cases "8 * w * d \<le> k \<and> k < 8 * w * d + 8 * q")
    case True
    then obtain t where t: "k = 8 * w * d + t" "t < 8 * q" by (metis add_less_cancel_left le_Suc_ex)
    then have tw: "t < 8 * w" using q(2) by linarith
    have "byte_bit b' k \<longleftrightarrow> bit (last_value m) t" using True t unfolding b'(3) [unfolded r] integer_bytes_bit by simp
    also have "\<dots> \<longleftrightarrow> k < len \<and> bit m t" using last_value_bit [OF tw, folded d_def] t(1) by simp
    also have "\<dots> \<longleftrightarrow> k < len \<and> stream_bit (8 * w) D (start + k)"
      using assms(4) [OF tw, folded d_def] t(1) by (auto simp: ac_simps)
    finally show ?thesis .
  next
    case False
    then have e: "byte_bit b' k \<longleftrightarrow> k < 8 * w * d \<and> stream_bit (8 * w) D (start + k)"
      unfolding b'(3) [unfolded r] using assms(3) [OF k, folded d_def] by auto
    have "k < 8 * w * d" if "k < len" using False that q(5) by linarith
    moreover have "8 * w * d < len" using last_datum(1) unfolding d_def .
    ultimately show ?thesis using e by auto
  qed
  then show ?thesis unfolding d_def [symmetric] q(1) using b' by blast
qed

lemma extract_field:
  assumes "good s" "unat bl \<le> length b" "len \<le> 8 * unat bl" "8 \<le> length b"
  shows "\<exists>b'. AcpiExExtractFromField rd c b bl s = Ret (Inr b', s) \<and> length b' = length b
    \<and> (\<forall>k. k < 8 * unat bl \<or> \<not> byte_bit b k \<longrightarrow> (byte_bit b' k \<longleftrightarrow> k < len \<and> stream_bit (8 * w) (datum s) (start + k)))"
proof -
  let ?P = "\<lambda>k. k < 8 * unat bl \<or> \<not> byte_bit b k"
  obtain b0 where b0: "save b 0 (replicate (unat bl) 0) = Ret b0" "length b0 = length b"
    "\<And>k. byte_bit b0 k \<longleftrightarrow> \<not> k < 8 * unat bl \<and> byte_bit b k"
    using save_bits [of 0 "replicate (unat bl) 0" b] assms(2) by auto
  have z0: "\<not> byte_bit b0 k" if "?P k" for k using that b0(3) by simp
  have fits: "\<not> bl < ACPI_ROUND_BITS_UP_TO_BYTES (BitLength c)" using buffer_enough assms(3) by (simp add: not_less)
  have ab: "\<not> 8 < AccessByteWidth c" using unat_width(3) by (simp add: not_less)
  show ?thesis
  proof (cases "StartFieldBitOffset c = 0 \<and> BitLength c = 8 * of_nat w")
    case True
    then have "start = 0" "len = 8 * w" using unat_width by (simp_all add: start len(1))
    then show ?thesis using extract_whole [OF assms(1), of b0 ?P] z0 b0(1,2) assms(4) fits ab True
      by (auto simp: AcpiExExtractFromField_def width_u32 one_datum(1) [OF assms(1)])
  next
    case False
    have n: "Suc 0 + (data_of (len + start) - 1) = data_of (len + start)" using data_bounds by auto
    obtain m b1 where l: "extract_loop rd c (ACPI_ROUND_UP_TO (BitLength c) (8 * of_nat w)) bl (data_of (len + start) - 1) 1 0 0
        (drop_bit start (datum s 0)) b0 s = Ret (Inr (m, place (data_of len - 1), b1), s)" "length b1 = length b0"
      "\<And>k. byte_bit b1 k \<longleftrightarrow> (if 8 * w * 0 \<le> k \<and> k < 8 * w * (data_of len - 1)
          then stream_bit (8 * w) (datum s) (start + k) else byte_bit b0 k)"
      "\<And>t. t < 8 * w \<Longrightarrow> (data_of len - 1) * (8 * w) + t < len \<Longrightarrow>
          (bit m t \<longleftrightarrow> stream_bit (8 * w) (datum s) (start + (data_of len - 1) * (8 * w) + t))"
      using extract_loop_bits [OF assms(1), of 0 "data_of (len + start) - 1" bl b0] n data_bounds b0(2) assms(2,3) by auto
    have b1: "byte_bit b1 k \<longleftrightarrow> k < 8 * w * (data_of len - 1) \<and> stream_bit (8 * w) (datum s) (start + k)"
      if "?P k" for k using l(3) z0 [OF that] by simp
    obtain b' where b': "save b1 (unat (place (data_of len - 1))) (take (unat (min (of_nat w) (bl - place (data_of len - 1)))) (integer_bytes (last_value m))) = Ret b'"
      "length b' = length b1" "\<forall>k. ?P k \<longrightarrow> (byte_bit b' k \<longleftrightarrow> k < len \<and> stream_bit (8 * w) (datum s) (start + k))"
      using extract_last [of bl b1 ?P "datum s" m] assms(2,3) l(2,4) b0(2) b1 by auto
    have z: "(8 * of_nat w :: u32) \<noteq> 0" using unat_width(2) w_bounds by (metis mult_is_0 not_gr0 unat_0 zero_neq_numeral)
    have sr: "shift_right (datum s 0) (unat (StartFieldBitOffset c)) = Ret (drop_bit start (datum s 0))"
      using start w_bounds by (simp add: shift_right_def)
    have cond: "(StartFieldBitOffset c = 0 \<and> BitLength c = 8 * of_nat w) = False" using False by simp
    have "AcpiExExtractFromField rd c b bl s = Ret (Inr b', s)"
      unfolding AcpiExExtractFromField_def width_u32 Let_def cond if_False
      using fits ab z b0(1) b'(1)
      by (simp add: one_datum(1) [OF assms(1)] sr unat_counts l(1) [unfolded One_nat_def] last_value_def width_u32 split: if_splits)
    then show ?thesis using b' l b0 by auto
  qed
qed


section \<open>Writing a field\<close>

lemma write_with_rule:
  assumes "good s" "k < N" "rule_known c"
  shows "\<exists>x. AcpiExWriteWithUpdateRule rd wr c M (v AND M) (place k) s = Ret (AE_OK, put k x s)
    \<and> (\<forall>t < 8 * w. bit x t \<longleftrightarrow> (if bit M t then bit v t else outside (update_rule c) (bit (datum s k) t)))"
proof -
  note wr = write_place [OF assms(1,2)] and rd = read_place [OF assms(1,2)]
  have b: "t < 8 * w \<Longrightarrow> t < 64" for t using w_bounds by simp
  have a: "\<not> (AccessByteWidth c = 0 \<or> 8 < AccessByteWidth c)"
    using w_bounds unat_width(3) by (auto simp: width not_less)
  consider (all) "M = ACPI_UINT64_MAX"
    | (read) "M \<noteq> ACPI_UINT64_MAX" "update_rule c = AML_FIELD_UPDATE_PRESERVE" "push_bit (64 - 8 * w) (NOT M) \<noteq> 0"
    | (keep) "M \<noteq> ACPI_UINT64_MAX" "update_rule c = AML_FIELD_UPDATE_PRESERVE" "push_bit (64 - 8 * w) (NOT M) = 0"
    | (ones) "M \<noteq> ACPI_UINT64_MAX" "update_rule c = AML_FIELD_UPDATE_WRITE_AS_ONES"
    | (zeros) "M \<noteq> ACPI_UINT64_MAX" "update_rule c = AML_FIELD_UPDATE_WRITE_AS_ZEROS"
    using assms(3) unfolding rule_known_def by blast
  then show ?thesis
  proof cases
    case all
    then show ?thesis using b by (auto simp: write_rule wr all_ones bit_simps intro!: exI [of _ v])
  next
    case read
    then show ?thesis using a b
      by (auto simp: write_rule wr rd bit_simps width [symmetric]
          intro!: exI [of _ "v AND M OR datum s k AND NOT M"])
  next
    case keep
    have "bit M t" if "t < 8 * w" for t
    proof -
      have "\<not> bit (push_bit (64 - 8 * w) (NOT M)) (64 - 8 * w + t)" by (simp add: keep(3))
      then show ?thesis using that w_bounds by (simp add: bit_simps)
    qed
    then show ?thesis using a b keep
      by (auto simp: write_rule wr bit_simps width [symmetric] intro!: exI [of _ "v AND M"])
  next
    case ones
    then show ?thesis using b
      by (auto simp: write_rule wr bit_simps
          intro!: exI [of _ "v AND M OR NOT M"])
  next
    case zeros
    then show ?thesis using b
      by (auto simp: write_rule wr bit_simps
          intro!: exI [of _ "v AND M AND M"])
  qed
qed


lemma datum_load:
  assumes "j < data_of len" "unat bl \<le> length b" "len \<le> 8 * unat bl" "\<And>t. bit raw t \<Longrightarrow> t < 8 * w"
  shows "\<exists>raw'. buffer_datum c b bl (place j) raw = Ret raw' \<and> (\<forall>t. bit raw' t \<longrightarrow> t < 8 * w)
    \<and> (\<forall>t < 8 * w. 8 * w * j + t < len \<longrightarrow> (bit raw' t \<longleftrightarrow> byte_bit b (8 * w * j + t)))"
proof -
  have "j \<le> N" using assms(1) data_bounds by linarith
  note p = unat_place [OF this]
  have "8 * (j * w) < 8 * unat bl" using data_of_less [of j len] assms(1,3) by (simp add: ac_simps)
  then have le: "j * w < unat bl" by (simp only: nat_mult_less_cancel_disj)
  then have d: "unat (bl - place j) = unat bl - j * w" by (subst unat_sub) (simp_all add: word_le_nat_alt p)
  define q where "q = min w (unat bl - j * w)"
  have q: "unat (min (of_nat w) (bl - place j)) = q"
    by (simp add: q_def min_def word_le_nat_alt unat_width d)
  have q2: "q \<le> w" "j * w + q \<le> length b" "q = w \<or> j * w + q = unat bl" using le assms(2) by (auto simp: q_def)
  let ?x = "take q (drop (j * w) b)"
  have x: "length ?x = q" "q \<le> 8" using q2 w_bounds by auto
  have xb: "byte_bit ?x t \<longleftrightarrow> byte_bit b (8 * w * j + t)" if "t < 8 * q" for t
  proof -
    have e: "8 * w * j + t = t + j * w * 8" by (simp add: ac_simps)
    have "(8 * w * j + t) div 8 = j * w + t div 8" "(8 * w * j + t) mod 8 = t mod 8" unfolding e by simp_all
    moreover have "t div 8 < q" using that by auto
    ultimately show ?thesis using q2 by (auto simp: byte_bit_def nth_append)
  qed
  have "t < 8 * q" if "t < 8 * w" "8 * w * j + t < len" for t
  proof -
    have e: "8 * w * j + 8 * q = 8 * (j * w + q)" by (simp add: algebra_simps)
    have "q = w \<or> 8 * w * j + 8 * q = 8 * unat bl" unfolding e using q2(3) by metis
    then show ?thesis using that assms(3) by linarith
  qed
  then show ?thesis using q2 x xb assms(4)
    by (intro exI [of _ "overlay ?x raw"]) (auto simp: buffer_datum_def width_u32 q p overlay_bit)
qed

text \<open>
  \<open>field_datum b j v\<close>: \<open>v\<close> has the bits of the buffer that belong into the datum with number \<open>j\<close>.
  \<open>written b s0 j s\<close>: the data before \<open>j\<close> have been written, the others are as before.
\<close>

definition field_datum :: "u8 list \<Rightarrow> nat \<Rightarrow> u64 \<Rightarrow> bool" where
  "field_datum b j v \<longleftrightarrow> (\<forall>t < 8 * w. start \<le> 8 * w * j + t \<and> 8 * w * j + t < start + len \<longrightarrow>
     (bit v t \<longleftrightarrow> byte_bit b (8 * w * j + t - start)))"

definition merged_bit :: "u8 list \<Rightarrow> 's \<Rightarrow> nat \<Rightarrow> bool" where
  "merged_bit b s m \<longleftrightarrow> (if start \<le> m \<and> m < start + len then byte_bit b (m - start)
     else outside (update_rule c) (stream_bit (8 * w) (datum s) m))"

definition written :: "u8 list \<Rightarrow> 's \<Rightarrow> nat \<Rightarrow> 's \<Rightarrow> bool" where
  "written b s0 j s \<longleftrightarrow> (\<forall>m < 8 * w * N. stream_bit (8 * w) (datum s) m \<longleftrightarrow>
     (if m < 8 * w * j then merged_bit b s0 m else stream_bit (8 * w) (datum s0) m))"

lemma write_step:
  assumes "good s" "j < N" "rule_known c" "written b s0 j s" "field_datum b j v"
    "\<And>t. t < 8 * w \<Longrightarrow> bit M t \<longleftrightarrow> start \<le> 8 * w * j + t \<and> 8 * w * j + t < start + len"
  shows "\<exists>s'. AcpiExWriteWithUpdateRule rd wr c M (v AND M) (place j) s = Ret (AE_OK, s') \<and> good s' \<and> written b s0 (Suc j) s'"
proof -
  obtain x where x: "AcpiExWriteWithUpdateRule rd wr c M (v AND M) (place j) s = Ret (AE_OK, put j x s)"
    "\<And>t. t < 8 * w \<Longrightarrow> bit x t \<longleftrightarrow> (if bit M t then bit v t else outside (update_rule c) (bit (datum s j) t))"
    using write_with_rule [OF assms(1-3)] by blast
  have "stream_bit (8 * w) (datum (put j x s)) m \<longleftrightarrow>
     (if m < 8 * w * Suc j then merged_bit b s0 m else stream_bit (8 * w) (datum s0) m)" if m: "m < 8 * w * N" for m
  proof -
    define k t where "k = m div (8 * w)" and "t = m mod (8 * w)"
    have mk: "m = 8 * w * k + t" "t < 8 * w" using w_bounds by (simp_all add: k_def t_def)
    have k: "k < N" using m w_bounds unfolding k_def by (simp add: less_mult_imp_div_less mult.commute)
    have new: "stream_bit (8 * w) (datum (put j x s)) m \<longleftrightarrow> bit (if k = j then x else datum s k) t"
      unfolding stream_bit_def k_def [symmetric] t_def [symmetric] using datum_put [OF assms(1,2) k] mk(2) by simp
    have old: "stream_bit (8 * w) (datum s) m \<longleftrightarrow> bit (datum s k) t"
      unfolding stream_bit_def k_def t_def ..
    have wr: "stream_bit (8 * w) (datum s) m \<longleftrightarrow> (if m < 8 * w * j then merged_bit b s0 m else stream_bit (8 * w) (datum s0) m)"
      using assms(4) m unfolding written_def by blast
    show ?thesis
    proof (cases "k = j")
      case True
      then have "\<not> m < 8 * w * j" "m < 8 * w * Suc j" using mk by auto
      moreover have "bit x t \<longleftrightarrow> merged_bit b s0 m"
        using x(2) [OF mk(2)] assms(5,6) [unfolded field_datum_def] mk True old wr \<open>\<not> m < 8 * w * j\<close>
        unfolding merged_bit_def by auto
      ultimately show ?thesis unfolding new using True by simp
    next
      case False
      have "m < 8 * w * Suc j \<longleftrightarrow> k < Suc j" "m < 8 * w * j \<longleftrightarrow> k < j"
        unfolding k_def using w_bounds by (simp_all only: div_less_iff_less_mult mult.commute)
      then show ?thesis unfolding new using False old wr by auto
    qed
  qed
  then show ?thesis using x(1) good_put [OF assms(1,2)] unfolding written_def by blast
qed


text \<open>The bits that are left over from a datum of the buffer, and what the next one adds.\<close>

lemma next_field_datum:
  assumes "\<And>t. bit raw t \<Longrightarrow> t < 8 * w" "\<And>t. t < 8 * w \<Longrightarrow> 8 * w * j + t < len \<Longrightarrow> bit raw t \<longleftrightarrow> byte_bit b (8 * w * j + t)"
    "\<And>t. t < 8 * w \<Longrightarrow> 8 * w * Suc j + t < len \<Longrightarrow> bit raw' t \<longleftrightarrow> byte_bit b (8 * w * Suc j + t)"
  shows "field_datum b (Suc j) ((if 8 * of_nat w - ucast (StartFieldBitOffset c) < (64 :: u32)
      then drop_bit (unat (8 * of_nat w - ucast (StartFieldBitOffset c) :: u32)) raw else 0) OR push_bit start raw')"
    (is "field_datum b (Suc j) (?l OR ?r)")
  unfolding field_datum_def
proof (intro allI impI, elim conjE)
  fix t assume t: "t < 8 * w" and n: "start \<le> 8 * w * Suc j + t" "8 * w * Suc j + t < start + len"
  have c: "8 * of_nat w - ucast (StartFieldBitOffset c) < (64 :: u32) \<longleftrightarrow> 8 * w - start < 64"
    by (simp add: word_less_nat_alt rest_u32)
  have l: "bit ?l t \<longleftrightarrow> 8 * w - start < 64 \<and> bit raw (8 * w - start + t)"
    unfolding c rest_u32 by (simp add: bit_simps)
  have r: "bit ?r t \<longleftrightarrow> start \<le> t \<and> bit raw' (t - start)" using t w_bounds by (auto simp: bit_simps)
  show "bit (?l OR ?r) t \<longleftrightarrow> byte_bit b (8 * w * Suc j + t - start)"
  proof (cases "start \<le> t")
    case True
    have "\<not> bit ?l t"
    proof
      assume "bit ?l t"
      then have "8 * w - start + t < 8 * w" using l assms(1) by blast
      then show False using True start(2) by linarith
    qed
    moreover have "8 * w * Suc j + t - start = 8 * w * Suc j + (t - start)" using True by simp
    moreover have "bit raw' (t - start) \<longleftrightarrow> byte_bit b (8 * w * Suc j + (t - start))"
      using assms(3) [of "t - start"] t n True by linarith
    ultimately show ?thesis using r True by (simp only: bit_or_iff simp_thms)
  next
    case False
    have s: "8 * w - start < 64" using False w_bounds start(2) by linarith
    have e: "8 * w * Suc j + t - start = 8 * w * j + (8 * w - start + t)" using start(2) by simp
    have "bit raw (8 * w - start + t) \<longleftrightarrow> byte_bit b (8 * w * j + (8 * w - start + t))"
      using n(2) False start(2) by (intro assms(2)) simp_all
    then show ?thesis unfolding e using l r s False by (simp only: bit_or_iff simp_thms)
  qed
qed

lemma rest_field_datum:
  assumes "\<And>t. bit raw t \<Longrightarrow> t < 8 * w" "\<And>t. t < 8 * w \<Longrightarrow> 8 * w * j + t < len \<Longrightarrow> bit raw t \<longleftrightarrow> byte_bit b (8 * w * j + t)"
    "len \<le> 8 * w * Suc j"
  shows "field_datum b (Suc j) (if 8 * of_nat w - ucast (StartFieldBitOffset c) < (64 :: u32)
      then drop_bit (unat (8 * of_nat w - ucast (StartFieldBitOffset c) :: u32)) raw else 0)"
  using next_field_datum [of raw j b 0] assms by simp


definition width_mask :: u64 where
  "width_mask = (if 8 * of_nat w = (64 :: u32) then ACPI_UINT64_MAX else ACPI_MASK_BITS_ABOVE (unat (8 * of_nat w :: u32)))"

lemma width_mask_bit: "t < 8 * w \<Longrightarrow> bit width_mask t"
  using w_bounds mask_above_bit [of "- 1" "8 * w" t] by (auto simp: width_mask_def all_ones unat_width bit_simps)

lemma insert_loop_bits:
  assumes "good s" "written b s0 j s" "j < data_of len" "Suc j + n = data_of (len + start)" "rule_known c"
    "unat bl \<le> length b" "len \<le> 8 * unat bl" "\<And>t. bit raw t \<Longrightarrow> t < 8 * w"
    "\<And>t. t < 8 * w \<Longrightarrow> 8 * w * j + t < len \<Longrightarrow> bit raw t \<longleftrightarrow> byte_bit b (8 * w * j + t)"
    "field_datum b j v" "\<And>t. t < 8 * w \<Longrightarrow> bit M t \<longleftrightarrow> start \<le> 8 * w * j + t"
  shows "\<exists>v' M' s'. insert_loop rd wr c (ACPI_ROUND_UP_TO (BitLength c) (8 * of_nat w)) b bl width_mask n
        (of_nat (Suc j)) (place j) (place j) raw v M s = Ret (Inr (v', M', place (data_of (len + start) - 1)), s')
    \<and> good s' \<and> written b s0 (data_of (len + start) - 1) s' \<and> field_datum b (data_of (len + start) - 1) v'
    \<and> (\<forall>t < 8 * w. bit M' t \<longleftrightarrow> start \<le> 8 * w * (data_of (len + start) - 1) + t)"
  using assms
proof (induction n arbitrary: j s raw v M)
  case 0
  then show ?case by (metis add.right_neutral diff_Suc_1 insert_loop.simps(1))
next
  case (Suc n)
  let ?dc = "ACPI_ROUND_UP_TO (BitLength c) (8 * of_nat w)"
  let ?l = "if 8 * of_nat w - ucast (StartFieldBitOffset c) < (64 :: u32)
      then drop_bit (unat (8 * of_nat w - ucast (StartFieldBitOffset c) :: u32)) raw else 0"
  have j: "Suc j < data_of (len + start)" using Suc.prems(4) by simp
  have N: "j < N" "Suc j < N" using j data_bounds(2) by linarith+
  have in_field: "8 * w * j + t < start + len" if "t < 8 * w" for t
    using data_of_less [of "Suc j" "len + start"] j that by simp
  obtain s1 where s1: "AcpiExWriteWithUpdateRule rd wr c M (v AND M) (place j) s = Ret (AE_OK, s1)" "good s1" "written b s0 (Suc j) s1"
    using write_step [OF Suc.prems(1) N(1) Suc.prems(5) Suc.prems(2) Suc.prems(10), of M] Suc.prems(11) in_field by auto
  have "unat (of_nat (Suc j) :: u32) = Suc j" using counts_small [OF less_imp_le [OF N(2)]] by (intro unat_of_nat_eq) simp
  then have eq: "of_nat (Suc j) = ?dc \<longleftrightarrow> Suc j = data_of len" by (simp only: word_unat_eq_iff unat_counts)
  have i: "of_nat (Suc j) + 1 = (of_nat (Suc (Suc j)) :: u32)" by simp
  have sl: "shift_left x (unat (StartFieldBitOffset c)) = Ret (push_bit start x)" for x
    using start w_bounds by (simp add: shift_left_def)
  have mask: "bit width_mask t \<longleftrightarrow> start \<le> 8 * w * Suc j + t" if "t < 8 * w" for t
    using width_mask_bit [OF that] start(2) by simp
  have step: "insert_loop rd wr c ?dc b bl width_mask (Suc n) (of_nat (Suc j)) (place j) (place j) raw v M s =
    (if Suc j = data_of len then Ret (Inr (?l, width_mask, place (Suc j)), s1)
     else obind (buffer_datum c b bl (place (Suc j)) raw) (\<lambda>raw'.
       insert_loop rd wr c ?dc b bl width_mask n (of_nat (Suc (Suc j))) (place (Suc j)) (place (Suc j)) raw' (?l OR push_bit start raw') width_mask s1))"
    by (simp only: insert_loop.simps Let_def width_u32 next_place s1(1) obind_simps prod.case not_True_eq_False if_False refl eq i sl)
  show ?case
  proof (cases "Suc j = data_of len")
    case True
    then have d: "data_of (len + start) - 1 = Suc j" using j data_bounds(3) by linarith
    have "\<not> 8 * w * Suc j < len" using data_of_less [of "Suc j" len] True by simp
    then have "field_datum b (Suc j) ?l" using Suc.prems(8,9) by (intro rest_field_datum) auto
    then show ?thesis unfolding step d using True s1 mask by simp
  next
    case False
    then have k: "Suc j < data_of len" using Suc.prems(3) by simp
    obtain raw' where raw': "buffer_datum c b bl (place (Suc j)) raw = Ret raw'" "\<And>t. bit raw' t \<Longrightarrow> t < 8 * w"
      "\<And>t. t < 8 * w \<Longrightarrow> 8 * w * Suc j + t < len \<Longrightarrow> bit raw' t \<longleftrightarrow> byte_bit b (8 * w * Suc j + t)"
      using datum_load [OF k Suc.prems(6,7,8)] by blast
    have fd: "field_datum b (Suc j) (?l OR push_bit start raw')"
      by (rule next_field_datum [OF Suc.prems(8,9) raw'(3)])
    have n: "Suc (Suc j) + n = data_of (len + start)" using Suc.prems(4) by simp
    note ih = Suc.IH [OF s1(2,3) k n Suc.prems(5,6,7) raw'(2,3) fd mask]
    show ?thesis unfolding step raw'(1) obind_simps using ih False by (simp only: if_False)
  qed
qed


text \<open>The last datum of the field, its mask cut at the end of the field.\<close>

definition last_mask :: "u64 \<Rightarrow> u64" where
  "last_mask M = (if (BitLength c + ucast (StartFieldBitOffset c)) mod (8 * of_nat w) \<noteq> 0
     then M AND ACPI_MASK_BITS_ABOVE (unat ((BitLength c + ucast (StartFieldBitOffset c)) mod (8 * of_nat w))) else M)"

lemma last_mask_bit:
  assumes "t < 8 * w" "\<And>t. t < 8 * w \<Longrightarrow> bit M t \<longleftrightarrow> start \<le> 8 * w * (data_of (len + start) - 1) + t"
  shows "bit (last_mask M) t \<longleftrightarrow> start \<le> 8 * w * (data_of (len + start) - 1) + t
    \<and> 8 * w * (data_of (len + start) - 1) + t < start + len"
proof -
  let ?d = "data_of (len + start) - 1"
  have pos: "0 < len + start" using len(2) by simp
  have b: "len + start < 4294967296" using limit inside w_bounds by linarith
  have "unat (BitLength c + ucast (StartFieldBitOffset c)) = len + start"
    using b by (subst unat_add_lem [THEN iffD1]) (simp_all add: start_u32 flip: len(1))
  then have u: "unat ((BitLength c + ucast (StartFieldBitOffset c)) mod (8 * of_nat w)) = (len + start) mod (8 * w)"
    by (simp add: unat_mod unat_width)
  then have z: "(BitLength c + ucast (StartFieldBitOffset c)) mod (8 * of_nat w) = 0 \<longleftrightarrow> (len + start) mod (8 * w) = 0"
    by (metis unat_eq_zero)
  show ?thesis
  proof (cases "(len + start) mod (8 * w) = 0")
    case True
    then have "8 * w * ?d + t < start + len" using last_of(4) [OF pos True] assms(1) by linarith
    then show ?thesis using assms True z by (simp add: last_mask_def)
  next
    case False
    have "t < (len + start) mod (8 * w) \<longleftrightarrow> 8 * w * ?d + t < start + len" using last_of(3) [OF pos False] by linarith
    then show ?thesis using False z assms by (auto simp: last_mask_def mask_above_bit u)
  qed
qed

lemma insert_long:
  assumes "good s" "rule_known c" "unat bl \<le> length b" "len \<le> 8 * unat bl"
  shows "\<exists>s'. AcpiExInsertIntoField alloc rd wr c b bl s = Ret (AE_OK, s') \<and> good s' \<and> written b s (data_of (len + start)) s'"
proof -
  have fits: "(bl < ACPI_ROUND_BITS_UP_TO_BYTES (BitLength c)) = False" using buffer_enough assms(4) by (simp add: not_less)
  have ab: "(8 < AccessByteWidth c) = False" using unat_width(3) by (simp add: not_less)
  have "(8 * of_nat w :: u32) \<noteq> 0" using unat_width(2) w_bounds by (metis mult_is_0 not_gr0 unat_0 zero_neq_numeral)
  then have z: "(64 \<le> unat (StartFieldBitOffset c) \<or> (8 * of_nat w :: u32) = 0) = False"
    using start w_bounds by auto
  have sl: "shift_left x (unat (StartFieldBitOffset c)) = Ret (push_bit start x)" for x
    using start w_bounds by (simp add: shift_left_def)
  obtain raw where raw: "buffer_datum c b bl 0 0 = Ret raw" "\<And>t. bit raw t \<Longrightarrow> t < 8 * w"
    "\<And>t. t < 8 * w \<Longrightarrow> 8 * w * 0 + t < len \<Longrightarrow> bit raw t \<longleftrightarrow> byte_bit b (8 * w * 0 + t)"
    using datum_load [OF data_bounds(1) assms(3,4), of 0] by auto
  have fd: "field_datum b 0 (push_bit start raw)"
    unfolding field_datum_def using raw(3) w_bounds by (auto simp: bit_simps)
  let ?M = "width_mask AND ACPI_MASK_BITS_BELOW (unat (StartFieldBitOffset c))"
  have M: "bit ?M t \<longleftrightarrow> start \<le> 8 * w * 0 + t" if "t < 8 * w" for t
    using width_mask_bit [OF that] that w_bounds by (auto simp: ACPI_MASK_BITS_BELOW_def all_ones bit_simps start(1))
  have w0: "written b s 0 s" by (simp add: written_def)
  have n: "Suc 0 + (data_of (len + start) - 1) = data_of (len + start)" using data_bounds by auto
  obtain v' M' s' where l: "insert_loop rd wr c (ACPI_ROUND_UP_TO (BitLength c) (8 * of_nat w)) b bl width_mask (data_of (len + start) - 1)
        (of_nat (Suc 0)) (place 0) (place 0) raw (push_bit start raw) ?M s = Ret (Inr (v', M', place (data_of (len + start) - 1)), s')"
    "good s'" "written b s (data_of (len + start) - 1) s'" "field_datum b (data_of (len + start) - 1) v'"
    "\<And>t. t < 8 * w \<Longrightarrow> bit M' t \<longleftrightarrow> start \<le> 8 * w * (data_of (len + start) - 1) + t"
    using insert_loop_bits [OF assms(1) w0 data_bounds(1) n assms(2,3,4) raw(2,3) fd M] by blast
  have d: "data_of (len + start) - 1 < N" "Suc (data_of (len + start) - 1) = data_of (len + start)"
    using data_bounds by auto
  obtain s2 where s2: "AcpiExWriteWithUpdateRule rd wr c (last_mask M') (v' AND last_mask M') (place (data_of (len + start) - 1)) s' = Ret (AE_OK, s2)"
    "good s2" "written b s (data_of (len + start)) s2"
    using write_step [OF l(2) d(1) assms(2) l(3,4), of "last_mask M'"] last_mask_bit l(5) unfolding d(2) by blast
  have "AcpiExInsertIntoField alloc rd wr c b bl s = Ret (AE_OK, s2)"
    unfolding AcpiExInsertIntoField_def width_u32 Let_def fits ab if_False obind_simps prod.case option.case z unat_counts
      raw(1) sl width_mask_def [symmetric]
    using l(1) s2(1) by (simp add: last_mask_def split: if_splits)
  then show ?thesis using s2 by blast
qed


lemma insert_padded:
  assumes "bl < ACPI_ROUND_BITS_UP_TO_BYTES (BitLength c)" "alloc (ACPI_ROUND_BITS_UP_TO_BYTES (BitLength c)) s = Ret (True, s)"
    "unat bl \<le> length b"
  shows "AcpiExInsertIntoField alloc rd wr c b bl s = AcpiExInsertIntoField alloc rd wr c
    (take (unat bl) b @ replicate (unat (ACPI_ROUND_BITS_UP_TO_BYTES (BitLength c)) - unat bl) 0) (ACPI_ROUND_BITS_UP_TO_BYTES (BitLength c)) s"
proof -
  have "unat bl \<le> unat (ACPI_ROUND_BITS_UP_TO_BYTES (BitLength c))" using assms(1) by (simp add: word_less_nat_alt)
  then show ?thesis using assms by (simp add: AcpiExInsertIntoField_def load_def save_def Let_def)
qed

lemma merged_bit_cong:
  assumes "\<And>k. k < len \<Longrightarrow> byte_bit b k \<longleftrightarrow> byte_bit b' k"
  shows "merged_bit b s m \<longleftrightarrow> merged_bit b' s m"
  using assms by (auto simp: merged_bit_def)

text \<open>
  A write changes the bits of the field to the bits of the buffer, zeros where it is too short, and the other
  bits of the data it touches by the update rule.
\<close>

lemma insert_field:
  assumes "good s" "rule_known c" "unat bl \<le> length b"
    "8 * unat bl < len \<Longrightarrow> alloc (ACPI_ROUND_BITS_UP_TO_BYTES (BitLength c)) s = Ret (True, s)"
  shows "\<exists>s'. AcpiExInsertIntoField alloc rd wr c b bl s = Ret (AE_OK, s') \<and> good s'
    \<and> (\<forall>m < 8 * w * N. stream_bit (8 * w) (datum s') m \<longleftrightarrow>
        (if start \<le> m \<and> m < start + len then byte_bit (take (unat bl) b) (m - start)
         else if m < 8 * w * data_of (len + start) then outside (update_rule c) (stream_bit (8 * w) (datum s) m)
         else stream_bit (8 * w) (datum s) m))"
proof -
  have e: "m < 8 * w * data_of (len + start)" if "m < start + len" for m
    using data_of_less [of "data_of (len + start)" "len + start"] that by linarith
  have goal: ?thesis if "AcpiExInsertIntoField alloc rd wr c b bl s = Ret (AE_OK, s')" "good s'" "written x s (data_of (len + start)) s'"
    "\<And>k. k < len \<Longrightarrow> byte_bit x k \<longleftrightarrow> byte_bit (take (unat bl) b) k" for s' x
  proof -
    have "written (take (unat bl) b) s (data_of (len + start)) s'"
      using that(3) merged_bit_cong [OF that(4)] by (simp add: written_def)
    then show ?thesis using that(1,2) e unfolding written_def merged_bit_def by (intro exI [of _ s']) auto
  qed
  show ?thesis
  proof (cases "len \<le> 8 * unat bl")
    case True
    have "byte_bit b k \<longleftrightarrow> byte_bit (take (unat bl) b) k" if "k < len" for k
    proof -
      have "k div 8 < unat bl" using that True by linarith
      then show ?thesis using assms(3) by (simp add: byte_bit_def)
    qed
    then show ?thesis using insert_long [OF assms(1,2,3) True, of alloc] goal [of _ b] by blast
  next
    case False
    let ?r = "ACPI_ROUND_BITS_UP_TO_BYTES (BitLength c)"
    let ?b = "take (unat bl) b @ replicate (unat ?r - unat bl) 0"
    have short: "bl < ?r" using buffer_enough [of bl] False by (simp add: not_le)
    have len_b: "unat ?r \<le> length ?b" using assms(3) by simp
    have "byte_bit ?b k \<longleftrightarrow> byte_bit (take (unat bl) b) k" for k
      using assms(3) by (auto simp: byte_bit_def nth_append)
    then show ?thesis using insert_long [OF assms(1,2) len_b, of alloc] buffer_enough [of ?r] goal [of _ ?b]
        insert_padded [OF short _ assms(3), of alloc s] assms(4) False by auto
  qed
qed

text \<open>What is written is read back.\<close>

lemma insert_then_extract:
  assumes "good s" "rule_known c" "len \<le> 8 * unat bl" "unat bl \<le> length b" "8 \<le> length x" "unat xl \<le> length x" "len \<le> 8 * unat xl"
  shows "\<exists>s' y. AcpiExInsertIntoField alloc rd wr c b bl s = Ret (AE_OK, s')
    \<and> AcpiExExtractFromField rd c x xl s' = Ret (Inr y, s') \<and> length y = length x
    \<and> (\<forall>k. k < 8 * unat xl \<or> \<not> byte_bit x k \<longrightarrow> (byte_bit y k \<longleftrightarrow> k < len \<and> byte_bit b k))"
proof -
  obtain s' where s': "AcpiExInsertIntoField alloc rd wr c b bl s = Ret (AE_OK, s')" "good s'"
    "\<And>m. m < 8 * w * N \<Longrightarrow> stream_bit (8 * w) (datum s') m \<longleftrightarrow>
        (if start \<le> m \<and> m < start + len then byte_bit (take (unat bl) b) (m - start)
         else if m < 8 * w * data_of (len + start) then outside (update_rule c) (stream_bit (8 * w) (datum s) m)
         else stream_bit (8 * w) (datum s) m)"
    using insert_field [OF assms(1,2,4), of alloc] assms(3) by auto
  obtain y where y: "AcpiExExtractFromField rd c x xl s' = Ret (Inr y, s')" "length y = length x"
    "\<And>k. k < 8 * unat xl \<or> \<not> byte_bit x k \<Longrightarrow> byte_bit y k \<longleftrightarrow> k < len \<and> stream_bit (8 * w) (datum s') (start + k)"
    using extract_field [OF s'(2) assms(6,7,5)] by blast
  have "byte_bit (take (unat bl) b) k \<longleftrightarrow> byte_bit b k" if "k < len" for k
  proof -
    have "k div 8 < unat bl" using that assms(3) by linarith
    then show ?thesis using assms(4) by (simp add: byte_bit_def)
  qed
  then have "byte_bit y k \<longleftrightarrow> k < len \<and> byte_bit b k" if "k < 8 * unat xl \<or> \<not> byte_bit x k" for k
    using y(3) [OF that] s'(3) [of "start + k"] inside that by auto
  then show ?thesis using s' y by blast
qed

end

section \<open>Fields over buffers\<close>

text \<open>The number of data that a field lies in, and where its data start in the buffer.\<close>

definition field_data :: "field \<Rightarrow> nat" where
  "field_data c = (unat (BitLength c) + unat (StartFieldBitOffset c) + (8 * unat (AccessByteWidth c) - 1))
     div (8 * unat (AccessByteWidth c))"

definition in_data :: "field \<Rightarrow> nat \<Rightarrow> bool" where
  "in_data c m \<longleftrightarrow> 8 * unat (BaseByteOffset c) \<le> m \<and> m < 8 * (unat (BaseByteOffset c) + field_data c * unat (AccessByteWidth c))"

text \<open>A field that lies in a buffer of a length, and a memory that keeps what is stored in it.\<close>

definition field_in_buffer :: "field \<Rightarrow> nat \<Rightarrow> bool" where
  "field_in_buffer c L \<longleftrightarrow> unat (AccessByteWidth c) \<in> {1, 2, 4, 8} \<and> unat (StartFieldBitOffset c) < 8 * unat (AccessByteWidth c)
     \<and> BitLength c \<noteq> 0 \<and> L < 268435456 \<and> unat (BaseByteOffset c) + field_data c * unat (AccessByteWidth c) \<le> L"

definition keeps_buffer :: "'s field_env \<Rightarrow> nat \<Rightarrow> bool" where
  "keeps_buffer env b \<longleftrightarrow> (\<forall>x s. buffer_bytes env b (buffer_store env b x s) = x)"

locale buffer_field =
  fixes env :: "'s field_env" and b :: nat and c :: field and B0 :: "u8 list"
  assumes keeps: "keeps_buffer env b" and fits: "field_in_buffer c (length B0)"
begin

definition buffer_good :: "'s \<Rightarrow> bool" where
  "buffer_good s \<longleftrightarrow> length (buffer_bytes env b s) = length B0
     \<and> (\<forall>m. \<not> in_data c m \<longrightarrow> byte_bit (buffer_bytes env b s) m = byte_bit B0 m)"

definition buffer_value :: "'s \<Rightarrow> nat \<Rightarrow> u64" where
  "buffer_value s k = overlay (take (unat (AccessByteWidth c))
     (drop (unat (BaseByteOffset c) + k * unat (AccessByteWidth c)) (buffer_bytes env b s))) 0"

definition buffer_put :: "nat \<Rightarrow> u64 \<Rightarrow> 's \<Rightarrow> 's" where
  "buffer_put k v s = (case save (buffer_bytes env b s) (unat (BaseByteOffset c) + k * unat (AccessByteWidth c))
       (take (unat (AccessByteWidth c)) (integer_bytes v)) of
     Ret x \<Rightarrow> buffer_store env b x s | _ \<Rightarrow> s)"

lemma field_facts:
  defines "w \<equiv> unat (AccessByteWidth c)"
  shows "0 < w" "w \<le> 8" "k < field_data c \<Longrightarrow> unat (BaseByteOffset c) + k * w + w \<le> length B0"
    "k < field_data c \<Longrightarrow> unat (BaseByteOffset c + of_nat (k * w)) = unat (BaseByteOffset c) + k * w"
proof -
  show w: "0 < w" "w \<le> 8" using fits by (auto simp: field_in_buffer_def w_def)
  show le: "unat (BaseByteOffset c) + k * w + w \<le> length B0" if "k < field_data c" for k
  proof -
    have "Suc k * w \<le> field_data c * w" using that by (intro mult_le_mono1) simp
    then show ?thesis using fits by (simp add: field_in_buffer_def w_def)
  qed
  show "unat (BaseByteOffset c + of_nat (k * w)) = unat (BaseByteOffset c) + k * w" if "k < field_data c"
  proof -
    have s: "unat (BaseByteOffset c) + k * w < 4294967296" using le [OF that] fits by (simp add: field_in_buffer_def)
    then have "unat (of_nat (k * w) :: u32) = k * w" by (intro unat_of_nat_eq) simp
    then show ?thesis using s by (subst unat_add_lem [THEN iffD1]) simp_all
  qed
qed

lemma buffer_value_bit:
  assumes "buffer_good s" "k < field_data c"
  shows "bit (buffer_value s k) n \<longleftrightarrow> n < 8 * unat (AccessByteWidth c)
    \<and> byte_bit (buffer_bytes env b s) (8 * (unat (BaseByteOffset c) + k * unat (AccessByteWidth c)) + n)"
proof -
  define p w where "p = unat (BaseByteOffset c) + k * unat (AccessByteWidth c)" and "w = unat (AccessByteWidth c)"
  have pw: "p + w \<le> length (buffer_bytes env b s)" and w: "w \<le> 8"
    using assms field_facts by (simp_all add: buffer_good_def p_def w_def)
  have e: "8 * p + n = n + p * 8" by simp
  have "(8 * p + n) div 8 = n div 8 + p" "(8 * p + n) mod 8 = n mod 8" unfolding e by simp_all
  moreover have "n < 8 * w \<longleftrightarrow> n div 8 < w" by auto
  ultimately have "byte_bit (take w (drop p (buffer_bytes env b s))) n \<longleftrightarrow> n < 8 * w \<and> byte_bit (buffer_bytes env b s) (8 * p + n)"
    using pw by (auto simp: byte_bit_def add.commute)
  then show ?thesis using pw w unfolding buffer_value_def p_def [symmetric] unfolding w_def [symmetric] by (simp add: overlay_bit)
qed

lemma buffer_put_bytes:
  assumes "buffer_good s" "k < field_data c"
  defines "p \<equiv> unat (BaseByteOffset c) + k * unat (AccessByteWidth c)" and "w \<equiv> unat (AccessByteWidth c)"
  shows "\<exists>x. save (buffer_bytes env b s) p (take w (integer_bytes v)) = Ret x \<and> buffer_put k v s = buffer_store env b x s
    \<and> length x = length B0 \<and> buffer_bytes env b (buffer_put k v s) = x
    \<and> (\<forall>m. byte_bit x m \<longleftrightarrow> (if 8 * p \<le> m \<and> m < 8 * (p + w) then bit v (m - 8 * p) else byte_bit (buffer_bytes env b s) m))"
proof -
  have w: "w \<le> 8" "p + w \<le> length (buffer_bytes env b s)"
    using assms field_facts by (simp_all add: buffer_good_def p_def w_def)
  then obtain x where x: "save (buffer_bytes env b s) p (take w (integer_bytes v)) = Ret x" "length x = length (buffer_bytes env b s)"
    "\<And>m. byte_bit x m \<longleftrightarrow> (if 8 * p \<le> m \<and> m < 8 * (p + w) then byte_bit (take w (integer_bytes v)) (m - 8 * p) else byte_bit (buffer_bytes env b s) m)"
    using save_bits [of p "take w (integer_bytes v)" "buffer_bytes env b s"] by auto
  have "buffer_put k v s = buffer_store env b x s" using x(1) unfolding buffer_put_def p_def w_def by simp
  then show ?thesis using x keeps assms(1) by (auto simp: integer_bytes_bit keeps_buffer_def buffer_good_def)
qed


end

text \<open>The data of the field in the buffer are such a store.\<close>

sublocale buffer_field \<subseteq> field: datum_store c "datum_io_read env (Buffer_Field c b)" "datum_io_write env (Buffer_Field c b)"
  "unat (AccessByteWidth c)" "field_data c" "unat (StartFieldBitOffset c)" "unat (BitLength c)" buffer_good buffer_value buffer_put
proof
  let ?w = "unat (AccessByteWidth c)"
  note f = field_facts
  show "unat (AccessByteWidth c) \<in> {1, 2, 4, 8}" "unat (StartFieldBitOffset c) < 8 * ?w" "0 < unat (BitLength c)"
    using fits by (auto simp: field_in_buffer_def word_neq_0_conv word_less_nat_alt)
  have "field_data c * ?w \<le> length B0" "length B0 < 268435456" using fits by (auto simp: field_in_buffer_def)
  moreover have "8 * ?w * field_data c = 8 * (field_data c * ?w)" by simp
  ultimately show "8 * ?w * field_data c + 8 * ?w < 4294967296" using f(2) by linarith
  show "unat (StartFieldBitOffset c) + unat (BitLength c) \<le> 8 * ?w * field_data c"
  proof -
    define n where "n = unat (BitLength c) + unat (StartFieldBitOffset c)"
    have "n + (8 * ?w - 1) = 8 * ?w * field_data c + (n + (8 * ?w - 1)) mod (8 * ?w)"
      unfolding field_data_def n_def by simp
    moreover have "(n + (8 * ?w - 1)) mod (8 * ?w) < 8 * ?w" using f(1) by simp
    ultimately show ?thesis unfolding n_def by linarith
  qed
  fix s k n v j assume g: "buffer_good s" and k: "k < field_data c"
  have len: "length (buffer_bytes env b s) = length B0" using g by (simp add: buffer_good_def)
  have w8: "AccessByteWidth c \<le> 8" using f(2) by (simp add: word_le_nat_alt)
  show "datum_io_read env (Buffer_Field c b) c (of_nat (k * ?w)) s = Ret (Inr (buffer_value s k), s)"
    using f(2,3,4) k len by (simp add: buffer_value_def Let_def del: of_nat_mult)
  show "bit (buffer_value s k) n \<Longrightarrow> n < 8 * ?w" using buffer_value_bit [OF g k] by simp
  obtain x where x: "save (buffer_bytes env b s) (unat (BaseByteOffset c) + k * ?w) (take ?w (integer_bytes v)) = Ret x"
    "buffer_put k v s = buffer_store env b x s" "length x = length B0" "buffer_bytes env b (buffer_put k v s) = x"
    "\<And>m. byte_bit x m \<longleftrightarrow> (if 8 * (unat (BaseByteOffset c) + k * ?w) \<le> m \<and> m < 8 * (unat (BaseByteOffset c) + k * ?w + ?w)
       then bit v (m - 8 * (unat (BaseByteOffset c) + k * ?w)) else byte_bit (buffer_bytes env b s) m)"
    using buffer_put_bytes [OF g k, of v] by blast
  show "datum_io_write env (Buffer_Field c b) c (of_nat (k * ?w)) v s = Ret (AE_OK, buffer_put k v s)"
    using f(2,4) k x(1,2) by (simp add: Let_def del: of_nat_mult)
  have "k * ?w + ?w \<le> field_data c * ?w" using mult_le_mono1 [of "Suc k" "field_data c" ?w] k by simp
  then show gp: "buffer_good (buffer_put k v s)"
    using g x by (auto simp: buffer_good_def in_data_def)
  show "bit (buffer_value (buffer_put k v s) j) n \<longleftrightarrow> n < 8 * ?w \<and> bit (if j = k then v else buffer_value s j) n" if j: "j < field_data c"
  proof (cases "j = k")
    case True
    then show ?thesis using buffer_value_bit [OF gp j] x(4,5) by auto
  next
    case False
    then have "j < k \<or> k < j" by linarith
    then have "Suc j * ?w \<le> k * ?w \<or> Suc k * ?w \<le> j * ?w" using mult_le_mono1 [of "Suc j" k ?w] mult_le_mono1 [of "Suc k" j ?w] by auto
    then show ?thesis using False buffer_value_bit [OF gp j] buffer_value_bit [OF g j] x(4,5) by auto
  qed
qed auto

lemma bytes_bit_eq:
  assumes "length x = length y" "\<And>k. k < 8 * length x \<Longrightarrow> byte_bit x k \<longleftrightarrow> byte_bit y k"
  shows "x = y"
proof (rule nth_equalityI)
  fix i assume i: "i < length x"
  show "x ! i = y ! i"
  proof (rule bit_word_eqI)
    fix n assume n: "n < LENGTH(8)"
    have "(n + i * 8) div 8 = i" "(n + i * 8) mod 8 = n" using n by auto
    then show "bit (x ! i) n \<longleftrightarrow> bit (y ! i) n" using assms(2) [of "n + i * 8"] i n assms(1) by (simp add: byte_bit_def)
  qed
qed (rule assms(1))

context buffer_field
begin

lemma stream_buffer:
  assumes "buffer_good s" "in_data c m"
  shows "stream_bit (8 * unat (AccessByteWidth c)) (buffer_value s) (m - 8 * unat (BaseByteOffset c)) \<longleftrightarrow> byte_bit (buffer_bytes env b s) m"
proof -
  define w i where "w = unat (AccessByteWidth c)" and "i = m - 8 * unat (BaseByteOffset c)"
  have i: "m = 8 * unat (BaseByteOffset c) + i" "i < field_data c * (8 * w)" using assms(2) by (auto simp: in_data_def i_def w_def)
  then have k: "i div (8 * w) < field_data c" by (simp add: less_mult_imp_div_less)
  have "i div (8 * w) * (8 * w) + i mod (8 * w) = i" by (rule div_mult_mod_eq)
  then have "8 * (unat (BaseByteOffset c) + i div (8 * w) * w) + i mod (8 * w) = m" unfolding i(1) by (simp add: algebra_simps)
  moreover have "i mod (8 * w) < 8 * w" using field_facts(1) by (simp add: w_def)
  ultimately show ?thesis using buffer_value_bit [OF assms(1) k, of "i mod (8 * w)"]
    by (simp add: stream_bit_def i_def [symmetric] w_def [symmetric])
qed

lemma in_data_field:
  assumes "i < 8 * unat (AccessByteWidth c) * field_data c"
  shows "in_data c (8 * unat (BaseByteOffset c) + i)"
  using assms by (simp add: in_data_def algebra_simps)

lemma write_buffer_field:
  assumes "length (buffer_bytes env b s) = length B0" "buffer_bytes env b s = B0" "rule_known c" "unat bl \<le> length src"
    "8 * unat bl < unat (BitLength c) \<Longrightarrow> field_alloc env (ACPI_ROUND_BITS_UP_TO_BYTES (BitLength c)) s = Ret (True, s)"
  defines "first \<equiv> 8 * unat (BaseByteOffset c) + unat (StartFieldBitOffset c)"
  shows "\<exists>s'. AcpiExInsertIntoField (field_alloc env) (datum_io_read env (Buffer_Field c b)) (datum_io_write env (Buffer_Field c b))
        c src bl s = Ret (AE_OK, s')
    \<and> length (buffer_bytes env b s') = length B0
    \<and> (\<forall>m. byte_bit (buffer_bytes env b s') m \<longleftrightarrow>
        (if first \<le> m \<and> m < first + unat (BitLength c) then byte_bit (take (unat bl) src) (m - first)
         else if in_data c m then outside (update_rule c) (byte_bit B0 m) else byte_bit B0 m))"
proof -
  let ?w = "unat (AccessByteWidth c)" and ?base = "8 * unat (BaseByteOffset c)"
  have g: "buffer_good s" using assms(2) by (simp add: buffer_good_def)
  have d: "field.data_of (unat (BitLength c) + unat (StartFieldBitOffset c)) = field_data c"
    by (simp add: field.data_of_def field_data_def)
  obtain s' where s': "AcpiExInsertIntoField (field_alloc env) (datum_io_read env (Buffer_Field c b)) (datum_io_write env (Buffer_Field c b))
        c src bl s = Ret (AE_OK, s')" "buffer_good s'"
    "\<And>m. m < 8 * ?w * field_data c \<Longrightarrow> stream_bit (8 * ?w) (buffer_value s') m \<longleftrightarrow>
       (if unat (StartFieldBitOffset c) \<le> m \<and> m < unat (StartFieldBitOffset c) + unat (BitLength c)
        then byte_bit (take (unat bl) src) (m - unat (StartFieldBitOffset c))
        else outside (update_rule c) (stream_bit (8 * ?w) (buffer_value s) m))"
    using field.insert_field [OF g assms(3,4), of "field_alloc env"] assms(5) unfolding d by auto
  have inside: "in_data c m" if "first \<le> m" "m < first + unat (BitLength c)" for m
    using in_data_field [of "m - ?base"] field.inside that by (simp add: first_def)
  have "byte_bit (buffer_bytes env b s') m \<longleftrightarrow>
        (if first \<le> m \<and> m < first + unat (BitLength c) then byte_bit (take (unat bl) src) (m - first)
         else if in_data c m then outside (update_rule c) (byte_bit B0 m) else byte_bit B0 m)" for m
  proof (cases "in_data c m")
    case True
    have "m - ?base < 8 * ?w * field_data c" "?base \<le> m" using True by (auto simp: in_data_def algebra_simps)
    then show ?thesis using s'(3) [of "m - ?base"] stream_buffer [OF s'(2) True] stream_buffer [OF g True] assms(2) True
      by (auto simp: first_def)
  next
    case False
    then show ?thesis using s'(2) inside by (auto simp: buffer_good_def)
  qed
  then show ?thesis using s'(1,2) by (auto simp: buffer_good_def)
qed

lemma read_buffer_field:
  assumes "buffer_bytes env b s = B0" "unat bl \<le> length x" "unat (BitLength c) \<le> 8 * unat bl" "8 \<le> length x"
  defines "first \<equiv> 8 * unat (BaseByteOffset c) + unat (StartFieldBitOffset c)"
  shows "\<exists>y. AcpiExExtractFromField (datum_io_read env (Buffer_Field c b)) c x bl s = Ret (Inr y, s) \<and> length y = length x
    \<and> (\<forall>k. k < 8 * unat bl \<or> \<not> byte_bit x k \<longrightarrow> (byte_bit y k \<longleftrightarrow> k < unat (BitLength c) \<and> byte_bit B0 (first + k)))"
proof -
  have g: "buffer_good s" using assms(1) by (simp add: buffer_good_def)
  have "stream_bit (8 * unat (AccessByteWidth c)) (buffer_value s) (unat (StartFieldBitOffset c) + k) \<longleftrightarrow> byte_bit B0 (first + k)"
    if "k < unat (BitLength c)" for k
    using stream_buffer [OF g in_data_field, of "unat (StartFieldBitOffset c) + k"] that field.inside assms(1)
    by (simp add: first_def add.assoc)
  then show ?thesis using field.extract_field [OF g assms(2,3,4)] by auto
qed

end

context buffer_field
begin

lemma write_read_value:
  assumes "buffer_bytes env b s = B0" "rule_known c" "unat (BitLength c) \<le> 8 * unat xl" "unat xl \<le> 8"
  shows "\<exists>s'. AcpiExInsertIntoField (field_alloc env) (datum_io_read env (Buffer_Field c b)) (datum_io_write env (Buffer_Field c b))
        c (integer_bytes v) 8 s = Ret (AE_OK, s')
    \<and> AcpiExExtractFromField (datum_io_read env (Buffer_Field c b)) c (integer_bytes 0) xl s'
        = Ret (Inr (integer_bytes (take_bit (unat (BitLength c)) v)), s')"
proof -
  have g: "buffer_good s" using assms(1) by (simp add: buffer_good_def)
  have z: "\<not> byte_bit (integer_bytes 0) k" for k using integer_bytes_bit [of 8 0 k] by simp
  obtain s' y where r: "AcpiExInsertIntoField (field_alloc env) (datum_io_read env (Buffer_Field c b)) (datum_io_write env (Buffer_Field c b))
        c (integer_bytes v) 8 s = Ret (AE_OK, s')"
    "AcpiExExtractFromField (datum_io_read env (Buffer_Field c b)) c (integer_bytes 0) xl s' = Ret (Inr y, s')"
    "length y = 8" "\<And>k. byte_bit y k \<longleftrightarrow> k < unat (BitLength c) \<and> byte_bit (integer_bytes v) k"
    using field.insert_then_extract [OF g assms(2), of 8 "integer_bytes v" "integer_bytes 0" xl "field_alloc env"] assms(3,4) z by auto
  have i: "byte_bit (integer_bytes x) k \<longleftrightarrow> k < 64 \<and> bit x k" for x k using integer_bytes_bit [of 8 x k] by simp
  have "y = integer_bytes (take_bit (unat (BitLength c)) v)"
    using r(3,4) by (intro bytes_bit_eq) (auto simp: i bit_take_bit_iff)
  then show ?thesis using r(1,2) by blast
qed

end

text \<open>One buffer as the whole memory, an example of a memory that keeps what is stored.\<close>

definition buffer_memory :: "u8 list field_env" where
  "buffer_memory = \<lparr>EnableInterpreterSlack = False,
     region_of = (\<lambda>r s. \<lparr>RegionType = ACPI_TYPE_REGION, RegionSpaceId = 0, RegionValid = True, RegionLength = of_nat (length s)\<rparr>),
     region_arguments = (\<lambda>r s. Ret (AE_OK, s)),
     dispatch_read = (\<lambda>r c p n s. Ret (Inr (overlay (take (unat n div 8) (drop (unat p) s)) 0), s)),
     dispatch_write = (\<lambda>r c p n v s. obind (save s (unat p) (take (unat n div 8) (integer_bytes v))) (\<lambda>s. Ret (AE_OK, s))),
     dispatch_serial = (\<lambda>r c f p n x s. Ret ((AE_OK, x), s)),
     buffer_bytes = (\<lambda>b s. s), buffer_store = (\<lambda>b x s. x), field_alloc = (\<lambda>n s. Ret (True, s)),
     lock_global = Ret, unlock_global = Ret\<rparr>"

definition example_field :: field where
  "example_field = \<lparr>FieldFlags = 0, Attribute = 0, AccessByteWidth = 2, BitLength = 13, BaseByteOffset = 1, StartFieldBitOffset = 5\<rparr>"

definition example_buffer :: "u8 list" where "example_buffer = [0, 0xFF, 0xFF, 0xFF, 0xFF, 0]"

lemma example_fits: "field_in_buffer example_field (length example_buffer)" "keeps_buffer buffer_memory b" "rule_known example_field"
  by (simp_all add: field_in_buffer_def field_data_def example_field_def keeps_buffer_def buffer_memory_def
      rule_known_def update_rule_def update_rules example_buffer_def)

lemma buffer_memory_simps: "buffer_bytes buffer_memory b s = s" "field_alloc buffer_memory n s = Ret (True, s)"
  by (simp_all add: buffer_memory_def)

interpretation example: buffer_field buffer_memory 0 example_field example_buffer
  using example_fits by unfold_locales simp_all

section \<open>What a write to a field of a buffer leaves\<close>

text \<open>
  C21. A write to a field over a buffer returns AE_OK and sets exactly the bits of the field to the bits of the source, zeros
  where the source is too short. Of the other bits of the buffer those in the data that the field touches keep
  their value, become ones or become zeros by the update rule of the field; all others stay.
\<close>

theorem buffer_field_written:
  assumes "keeps_buffer env b" "field_in_buffer c (length (buffer_bytes env b s))" "rule_known c" "unat bl \<le> length src"
    "8 * unat bl < unat (BitLength c) \<longrightarrow> field_alloc env (ACPI_ROUND_BITS_UP_TO_BYTES (BitLength c)) s = Ret (True, s)"
  shows "\<exists>s'. AcpiExInsertIntoField (field_alloc env) (datum_io_read env (Buffer_Field c b)) (datum_io_write env (Buffer_Field c b))
        c src bl s = Ret (AE_OK, s')
    \<and> length (buffer_bytes env b s') = length (buffer_bytes env b s)
    \<and> (\<forall>m. byte_bit (buffer_bytes env b s') m \<longleftrightarrow>
        (let first = 8 * unat (BaseByteOffset c) + unat (StartFieldBitOffset c)
         in if first \<le> m \<and> m < first + unat (BitLength c) then byte_bit (take (unat bl) src) (m - first)
            else if in_data c m then outside (update_rule c) (byte_bit (buffer_bytes env b s) m)
            else byte_bit (buffer_bytes env b s) m))"
  using buffer_field.write_buffer_field [OF buffer_field.intro [OF assms(1,2)] refl refl assms(3,4)] assms(5)
  by (auto simp: Let_def)

theorem buffer_field_written_witness:
  "\<exists>s'. AcpiExInsertIntoField (field_alloc buffer_memory) (datum_io_read buffer_memory (Buffer_Field example_field 0))
      (datum_io_write buffer_memory (Buffer_Field example_field 0)) example_field [0x34] 1 example_buffer = Ret (AE_OK, s')
    \<and> byte_bit s' 15"
proof -
  have "AcpiExInsertIntoField (field_alloc buffer_memory) (datum_io_read buffer_memory (Buffer_Field example_field 0))
      (datum_io_write buffer_memory (Buffer_Field example_field 0)) example_field [0x34] 1 example_buffer
    = Ret (AE_OK, [0, 0x9F, 0x06, 0xFC, 0xFF, 0])" by code_simp
  then show ?thesis
    using buffer_field_written [of buffer_memory 0 example_field example_buffer 1 "[0x34]"] example_fits
    by (auto simp: buffer_memory_simps byte_bit_def bit_iff_odd)
qed

text \<open>
  A value written to a field of at most 64 bits over a buffer is read back, modulo 2 to the length of the field,
  whatever the width of the accesses and the update rule, and reading changes nothing.
\<close>

theorem buffer_field_reads_back:
  assumes "keeps_buffer env b" "field_in_buffer c (length (buffer_bytes env b s))" "rule_known c" "unat (BitLength c) \<le> 64"
  shows "\<exists>s'. AcpiExInsertIntoField (field_alloc env) (datum_io_read env (Buffer_Field c b)) (datum_io_write env (Buffer_Field c b))
        c (integer_bytes v) 8 s = Ret (AE_OK, s')
    \<and> AcpiExExtractFromField (datum_io_read env (Buffer_Field c b)) c (integer_bytes 0) 8 s'
        = Ret (Inr (integer_bytes (take_bit (unat (BitLength c)) v)), s')"
  using buffer_field.write_read_value [OF buffer_field.intro [OF assms(1,2)] refl assms(3), of 8] assms(4) by simp

theorem buffer_field_reads_back_witness:
  "\<exists>s'. AcpiExInsertIntoField (field_alloc buffer_memory) (datum_io_read buffer_memory (Buffer_Field example_field 0))
      (datum_io_write buffer_memory (Buffer_Field example_field 0)) example_field (integer_bytes 0x12345) 8 example_buffer = Ret (AE_OK, s')
    \<and> AcpiExExtractFromField (datum_io_read buffer_memory (Buffer_Field example_field 0)) example_field (integer_bytes 0) 8 s'
      = Ret (Inr (integer_bytes 0x345), s')"
proof -
  have "take_bit 13 (0x12345 :: u64) = 0x345" by (simp add: take_bit_eq_mod)
  then show ?thesis
    using buffer_field_reads_back [of buffer_memory 0 example_field example_buffer "0x12345"] example_fits
    by (simp add: buffer_memory_simps) (simp add: example_field_def)
qed

section \<open>Accesses to regions\<close>

lemma setup_region_returns:
  "returns (\<lambda>(Status, s'). Status = AE_OK \<longrightarrow> serial_space (RegionSpaceId (region_of env r s))
     \<or> BaseByteOffset c + ofs + ucast (AccessByteWidth c) \<le> RegionLength (region_of env r s')
     \<or> EnableInterpreterSlack env) (AcpiExSetupRegion env r c ofs s)"
  unfolding AcpiExSetupRegion_def Let_def
  by (auto simp: AE_OK_def AE_AML_OPERAND_TYPE_def AE_AML_INVALID_SPACE_ID_def AE_AML_REGION_LIMIT_def not_less
      intro!: returns_intros split: if_splits)

text \<open>
  C23. The handler of a region is called with an offset and a width that lie inside the length of the region, unless the
  region is one of the serial buses, provided that the interpreter is not in its slack mode and the sum of the
  three offsets does not pass 32 bits; every other access ends with a status and without a call of the handler.
\<close>

theorem region_access_inside:
  assumes "\<not> EnableInterpreterSlack env" "\<not> serial_space (RegionSpaceId (region_of env r s))"
    "unat (BaseByteOffset c) + unat ofs + unat (AccessByteWidth c) < 2 ^ 32"
    "AcpiExAccessRegion env r c ofs dispatch fail s = Ret (x, s2)"
  shows "(\<exists>Status. Status \<noteq> AE_OK \<and> x = fail Status)
    \<or> (\<exists>s1. dispatch (BaseByteOffset c + ofs) (8 * ucast (AccessByteWidth c)) s1 = Ret (x, s2)
        \<and> unat (BaseByteOffset c + ofs) + unat (AccessByteWidth c) \<le> unat (RegionLength (region_of env r s1)))"
proof -
  obtain Status s1 where st: "AcpiExSetupRegion env r c ofs s = Ret (Status, s1)"
    and rest: "(if Status \<noteq> AE_OK then Ret (fail Status, s1)
      else dispatch (BaseByteOffset c + ofs) (8 * ucast (AccessByteWidth c)) s1) = Ret (x, s2)"
    using assms(4) by (auto simp: AcpiExAccessRegion_def obind_eq_Ret)
  show ?thesis
  proof (cases "Status = AE_OK")
    case True
    have "BaseByteOffset c + ofs + ucast (AccessByteWidth c) \<le> RegionLength (region_of env r s1)"
      using returnsD [OF setup_region_returns st] True assms(1,2) by simp
    moreover have "unat (BaseByteOffset c + ofs) = unat (BaseByteOffset c) + unat ofs"
      using assms(3) by (subst unat_add_lem [THEN iffD1]) simp_all
    moreover have "unat (BaseByteOffset c + ofs + ucast (AccessByteWidth c)) = unat (BaseByteOffset c) + unat ofs + unat (AccessByteWidth c)"
      using assms(3) calculation(2) unsigned_less [of "AccessByteWidth c"]
      by (subst unat_add_lem [THEN iffD1]) (simp_all add: unsigned_ucast_eq take_bit_nat_eq_self)
    ultimately show ?thesis using rest True by (auto simp: word_le_nat_alt)
  qed (use rest in auto)
qed

theorem region_access_inside_witness:
  "(\<exists>Status. Status \<noteq> AE_OK \<and> Inr 0x0201 = (Inl Status :: ACPI_STATUS + u64))
    \<or> (\<exists>s1. dispatch_read buffer_memory 0 example_field (1 + 0) (8 * ucast (2 :: u8)) s1 = Ret (Inr 0x0201, [0, 1, 2, 3])
        \<and> unat (1 + 0 :: u32) + unat (2 :: u8) \<le> unat (RegionLength (region_of buffer_memory 0 s1)))"
proof -
  have r: "AcpiExAccessRegion buffer_memory 0 example_field 0 (dispatch_read buffer_memory 0 example_field) Inl [0, 1, 2, 3]
      = Ret (Inr 0x0201, [0, 1, 2, 3])" by code_simp
  have e: "BaseByteOffset example_field = 1" "AccessByteWidth example_field = 2" by (simp_all add: example_field_def)
  show ?thesis
    using region_access_inside [OF _ _ _ r, unfolded e]
    by (simp add: buffer_memory_def serial_space_def ACPI_ADR_SPACE_SMBUS_def ACPI_ADR_SPACE_GSBUS_def ACPI_ADR_SPACE_IPMI_def)
qed

text \<open>When the sum passes 32 bits the check does not see it: an access far behind a region of 16 bytes is let through.\<close>

lemma region_check_wraps:
  "AcpiExSetupRegion env 0 (example_field\<lparr>BaseByteOffset := 0xFFFFFFFC, AccessByteWidth := 4\<rparr>) 0 s = Ret (AE_OK, s)"
  if "region_of env 0 s = \<lparr>RegionType = ACPI_TYPE_REGION, RegionSpaceId = 0, RegionValid = True, RegionLength = 16\<rparr>"
  using that by (simp add: AcpiExSetupRegion_def AcpiIsValidSpaceId_def Let_def)

lemma register_overflow_iff: "AcpiExRegisterOverflow c v \<longleftrightarrow> unat v \<ge> 2 ^ unat (BitLength c)"
proof (cases "BitLength c < 64")
  case True
  then have l: "unat (BitLength c) < 64" by (simp add: word_less_nat_alt)
  then have "(2 :: nat) ^ unat (BitLength c) < 2 ^ 64" by (rule power_strict_increasing) simp
  then have "unat (push_bit (unat (BitLength c)) 1 :: u64) = 2 ^ unat (BitLength c)"
    unfolding push_bit_of_1 using unat_of_nat_eq [where 'a = 64, of "2 ^ unat (BitLength c)"] by simp
  then show ?thesis using True by (simp only: AcpiExRegisterOverflow_def word_le_nat_alt simp_thms)
next
  case False
  then have "64 \<le> unat (BitLength c)" by (simp add: word_less_nat_alt)
  then have "(2 :: nat) ^ 64 \<le> 2 ^ unat (BitLength c)" by (intro power_increasing) auto
  then have "\<not> 2 ^ unat (BitLength c) \<le> unat v" using unat_u64_less [of v] by simp
  then show ?thesis using False by (simp add: AcpiExRegisterOverflow_def)
qed

end
