(* ===== verification/AcpiFieldUnit.thy ===== *)
theory AcpiFieldUnit
  imports AcpiField
begin

text \<open>
  Fields as AML sees them: their layout from a bit position (executer/exprep.c), their creation over a buffer
  (\<^verbatim>\<open>AcpiDsInitBufferField\<close> of dispatcher/dsopcode.c), and reading and writing them as objects
  (executer/exfield.c) under the global lock (exutils.c). A NULL argument is \<open>None\<close>.
\<close>

definition AE_AML_NO_OPERAND :: ACPI_STATUS where "AE_AML_NO_OPERAND = 0x3002"
definition AE_AML_BAD_OPCODE :: ACPI_STATUS where "AE_AML_BAD_OPCODE = 0x3001"

definition AML_FIELD_ACCESS_TYPE_MASK :: u8 where "AML_FIELD_ACCESS_TYPE_MASK = 0x0F"
definition AML_FIELD_LOCK_RULE_MASK :: u8 where "AML_FIELD_LOCK_RULE_MASK = 0x10"
definition AML_FIELD_ACCESS_ANY :: u8 where "AML_FIELD_ACCESS_ANY = 0"
definition AML_FIELD_ACCESS_BYTE :: u8 where "AML_FIELD_ACCESS_BYTE = 1"
definition AML_FIELD_ACCESS_WORD :: u8 where "AML_FIELD_ACCESS_WORD = 2"
definition AML_FIELD_ACCESS_DWORD :: u8 where "AML_FIELD_ACCESS_DWORD = 3"
definition AML_FIELD_ACCESS_QWORD :: u8 where "AML_FIELD_ACCESS_QWORD = 4"
definition AML_FIELD_ACCESS_BUFFER :: u8 where "AML_FIELD_ACCESS_BUFFER = 5"

lemmas access_types = AML_FIELD_ACCESS_ANY_def AML_FIELD_ACCESS_BYTE_def AML_FIELD_ACCESS_WORD_def
  AML_FIELD_ACCESS_DWORD_def AML_FIELD_ACCESS_QWORD_def AML_FIELD_ACCESS_BUFFER_def

definition AML_CREATE_DWORD_FIELD_OP :: u16 where "AML_CREATE_DWORD_FIELD_OP = 0x8a"
definition AML_CREATE_WORD_FIELD_OP :: u16 where "AML_CREATE_WORD_FIELD_OP = 0x8b"
definition AML_CREATE_BYTE_FIELD_OP :: u16 where "AML_CREATE_BYTE_FIELD_OP = 0x8c"
definition AML_CREATE_BIT_FIELD_OP :: u16 where "AML_CREATE_BIT_FIELD_OP = 0x8d"
definition AML_CREATE_QWORD_FIELD_OP :: u16 where "AML_CREATE_QWORD_FIELD_OP = 0x8f"
definition AML_CREATE_FIELD_OP :: u16 where "AML_CREATE_FIELD_OP = 0x5b13"

lemmas create_opcodes = AML_CREATE_DWORD_FIELD_OP_def AML_CREATE_WORD_FIELD_OP_def AML_CREATE_BYTE_FIELD_OP_def
  AML_CREATE_BIT_FIELD_OP_def AML_CREATE_QWORD_FIELD_OP_def AML_CREATE_FIELD_OP_def

definition ACPI_ROUND_DOWN :: "u32 \<Rightarrow> u32 \<Rightarrow> u32" where "ACPI_ROUND_DOWN v b = v AND NOT (b - 1)"

section \<open>The layout of a field\<close>

text \<open>The width of an access in bits, 0 for an unknown type, and the alignment in bytes.\<close>

definition AcpiExDecodeFieldAccess :: "u32 \<Rightarrow> u8 \<Rightarrow> u32 \<times> u32" where
  "AcpiExDecodeFieldAccess Ty Flags =
     (let Access = Flags AND AML_FIELD_ACCESS_TYPE_MASK;
          (BitLen, ByteAlignment) =
            (if Access = AML_FIELD_ACCESS_ANY then (8, 1)
             else if Access = AML_FIELD_ACCESS_BYTE \<or> Access = AML_FIELD_ACCESS_BUFFER then (8, 1)
             else if Access = AML_FIELD_ACCESS_WORD then (16, 2)
             else if Access = AML_FIELD_ACCESS_DWORD then (32, 4)
             else if Access = AML_FIELD_ACCESS_QWORD then (64, 8)
             else (0, 0))
      in (BitLen, if Ty = ACPI_TYPE_BUFFER_FIELD then 1 else ByteAlignment))"

definition AcpiExPrepCommonFieldObject :: "u32 \<Rightarrow> field \<Rightarrow> u8 \<Rightarrow> u8 \<Rightarrow> u32 \<Rightarrow> u32 \<Rightarrow> ACPI_STATUS \<times> field" where
  "AcpiExPrepCommonFieldObject Ty c Flags FieldAttribute FieldBitPosition FieldBitLength =
     (let c = c\<lparr>FieldFlags := Flags, Attribute := FieldAttribute, BitLength := FieldBitLength\<rparr>;
          (AccessBitWidth, ByteAlignment) = AcpiExDecodeFieldAccess Ty Flags
      in if AccessBitWidth = 0 then (AE_AML_OPERAND_VALUE, c)
         else
           let NearestByteAddress = drop_bit 3 FieldBitPosition;
               base = ACPI_ROUND_DOWN NearestByteAddress ByteAlignment
           in (AE_OK, c\<lparr>AccessByteWidth := ucast (drop_bit 3 AccessBitWidth), BaseByteOffset := base,
                 StartFieldBitOffset := ucast (FieldBitPosition - 8 * base)\<rparr>))"

section \<open>Fields over buffers\<close>

text \<open>The flags, the bit offset and the bit count of a field, from the opcode that creates it.\<close>

definition create_layout :: "u16 \<Rightarrow> u32 \<Rightarrow> u32 \<Rightarrow> ACPI_STATUS + u8 \<times> u32 \<times> u32" where
  "create_layout AmlOpcode Offset Length =
     (if AmlOpcode = AML_CREATE_FIELD_OP then
        if Length = 0 then Inl AE_AML_OPERAND_VALUE else Inr (AML_FIELD_ACCESS_BYTE, Offset, Length)
      else if AmlOpcode = AML_CREATE_BIT_FIELD_OP then Inr (AML_FIELD_ACCESS_BYTE, Offset, 1)
      else if AmlOpcode = AML_CREATE_BYTE_FIELD_OP then Inr (AML_FIELD_ACCESS_BYTE, 8 * Offset, 8)
      else if AmlOpcode = AML_CREATE_WORD_FIELD_OP then Inr (AML_FIELD_ACCESS_WORD, 8 * Offset, 16)
      else if AmlOpcode = AML_CREATE_DWORD_FIELD_OP then Inr (AML_FIELD_ACCESS_DWORD, 8 * Offset, 32)
      else if AmlOpcode = AML_CREATE_QWORD_FIELD_OP then Inr (AML_FIELD_ACCESS_QWORD, 8 * Offset, 64)
      else Inl AE_AML_BAD_OPCODE)"

text \<open>
  The operands are given back at the end; \<open>rem\<close> is \<^verbatim>\<open>AcpiUtRemoveReference\<close> on one of them. The last component of
  the result is the field when it has become valid; the additional references that the buffer gets are left out.
\<close>

datatype create_operand = Offset_Operand | Buffer_Operand | Length_Operand | Result_Operand

definition AcpiDsInitBufferField ::
  "(create_operand \<Rightarrow> 's \<Rightarrow> 's outcome) \<Rightarrow> u16 \<Rightarrow> field \<Rightarrow> acpi_object \<Rightarrow> u64 \<Rightarrow> u64 \<Rightarrow> bool \<Rightarrow> 's \<Rightarrow> ((ACPI_STATUS + field) \<times> 's) outcome" where
  "AcpiDsInitBufferField rem AmlOpcode c BufferDesc OffsetValue LengthValue ResultIsNode s =
     (let r = (case BufferDesc of
         Buf_Obj BufferLength _ \<Rightarrow>
           if \<not> ResultIsNode then Inl AE_AML_OPERAND_TYPE
           else (case create_layout AmlOpcode (ucast OffsetValue) (ucast LengthValue) of
               Inl Status \<Rightarrow> Inl Status
             | Inr (Flags, FirstBit, BitCount) \<Rightarrow>
                 if FirstBit + BitCount > 8 * BufferLength then Inl AE_AML_BUFFER_LIMIT
                 else (case AcpiExPrepCommonFieldObject ACPI_TYPE_BUFFER_FIELD c Flags 0 FirstBit BitCount of
                     (Status, c) \<Rightarrow> if Status \<noteq> AE_OK then Inl Status else Inr c))
       | _ \<Rightarrow> Inl AE_AML_OPERAND_TYPE)
      in obind (rem Offset_Operand s) (\<lambda>s.
         obind (rem Buffer_Operand s) (\<lambda>s.
         obind (if AmlOpcode = AML_CREATE_FIELD_OP then rem Length_Operand s else Ret s) (\<lambda>s.
         obind (case r of Inl _ \<Rightarrow> rem Result_Operand s | Inr _ \<Rightarrow> Ret s) (\<lambda>s. Ret (r, s))))))"

section \<open>Reading and writing a field\<close>

definition ACPI_SMBUS_BUFFER_SIZE :: u32 where "ACPI_SMBUS_BUFFER_SIZE = 34"
definition ACPI_GSBUS_BUFFER_SIZE :: u32 where "ACPI_GSBUS_BUFFER_SIZE = 34"
definition ACPI_IPMI_BUFFER_SIZE :: u32 where "ACPI_IPMI_BUFFER_SIZE = 66"

definition AcpiExAcquireGlobalLock :: "'s field_env \<Rightarrow> u8 \<Rightarrow> 's \<Rightarrow> 's outcome" where
  "AcpiExAcquireGlobalLock env Flags s = (if Flags AND AML_FIELD_LOCK_RULE_MASK = 0 then Ret s else lock_global env s)"

definition AcpiExReleaseGlobalLock :: "'s field_env \<Rightarrow> u8 \<Rightarrow> 's \<Rightarrow> 's outcome" where
  "AcpiExReleaseGlobalLock env Flags s = (if Flags AND AML_FIELD_LOCK_RULE_MASK = 0 then Ret s else unlock_global env s)"

text \<open>
  \<open>args\<close> is \<^verbatim>\<open>AcpiDsGetBufferFieldArguments\<close> for a field over a buffer whose arguments have not been evaluated, and
  returns other fields over buffers as they are. The serial regions get their data as one buffer; the size of it
  and the function that the handler is called with depend on the bus.
\<close>

type_synonym 's field_arguments = "field_object \<Rightarrow> 's \<Rightarrow> ((ACPI_STATUS + field_object) \<times> 's) outcome"

definition serial_transfer :: "u8 \<Rightarrow> u8 \<Rightarrow> u32 \<Rightarrow> u32 \<times> u32" where
  "serial_transfer Space Attr Direction =
     (if Space = ACPI_ADR_SPACE_SMBUS then (ACPI_SMBUS_BUFFER_SIZE, Direction OR push_bit 16 (ucast Attr))
      else if Space = ACPI_ADR_SPACE_GSBUS then (ACPI_GSBUS_BUFFER_SIZE, Direction OR push_bit 16 (ucast Attr))
      else (ACPI_IPMI_BUFFER_SIZE, Direction))"

definition serial_access ::
  "'s field_env \<Rightarrow> nat \<Rightarrow> field \<Rightarrow> u32 \<Rightarrow> u8 list \<Rightarrow> 's \<Rightarrow> ((ACPI_STATUS \<times> u8 list) \<times> 's) outcome" where
  "serial_access env r c Function Buffer s =
     obind (AcpiExAcquireGlobalLock env (FieldFlags c) s) (\<lambda>s.
     obind (AcpiExAccessRegion env r c 0 (\<lambda>p w. dispatch_serial env r c Function p w Buffer) (\<lambda>Status. (Status, Buffer)) s) (\<lambda>(x, s).
     obind (AcpiExReleaseGlobalLock env (FieldFlags c) s) (\<lambda>s. Ret (x, s))))"

definition is_serial :: "'s field_env \<Rightarrow> field_object \<Rightarrow> 's \<Rightarrow> bool" where
  "is_serial env ob s \<longleftrightarrow> (case ob of Region_Field c r \<Rightarrow> serial_space (RegionSpaceId (region_of env r s)) | _ \<Rightarrow> False)"

definition prepare_field :: "'s field_arguments \<Rightarrow> field_object \<Rightarrow> 's \<Rightarrow> ((ACPI_STATUS + field_object) \<times> 's) outcome" where
  "prepare_field args ob s = (case ob of Buffer_Field c b \<Rightarrow> args ob s | _ \<Rightarrow> Ret (Inr ob, s))"

text \<open>A field that fits an integer is read into one, wider fields into a buffer; \<open>iw\<close> is the width of integers in bytes.\<close>

definition read_target :: "'s object_memory \<Rightarrow> u8 \<Rightarrow> u32 \<Rightarrow> 's \<Rightarrow> (acpi_object option \<times> 's) outcome" where
  "read_target os iw Length s =
     (if Length > ucast iw then AcpiUtCreateBufferObject os Length s else AcpiUtCreateIntegerObject os 0 s)"

definition AcpiExReadDataFromField ::
  "'s object_memory \<Rightarrow> 's field_env \<Rightarrow> 's field_arguments \<Rightarrow> u8 \<Rightarrow> field_object option \<Rightarrow> bool \<Rightarrow> 's \<Rightarrow> ((ACPI_STATUS + acpi_object) \<times> 's) outcome" where
  "AcpiExReadDataFromField os env args iw ObjDesc RetBufferDesc s =
     (case ObjDesc of None \<Rightarrow> Ret (Inl AE_AML_NO_OPERAND, s)
      | Some ob \<Rightarrow>
        if \<not> RetBufferDesc then Ret (Inl AE_BAD_PARAMETER, s)
        else obind (prepare_field args ob s) (\<lambda>(r, s). case r of
            Inl Status \<Rightarrow> Ret (Inl Status, s)
          | Inr ob \<Rightarrow>
            let c = CommonField ob in
            if is_serial env ob s then
              (case ob of Region_Field c r \<Rightarrow>
                 let (Length, Function) = serial_transfer (RegionSpaceId (region_of env r s)) (Attribute c) 0
                 in obind (AcpiUtCreateBufferObject os Length s) (\<lambda>(BufferDesc, s). case BufferDesc of
                        None \<Rightarrow> Ret (Inl AE_NO_MEMORY, s)
                      | Some bd \<Rightarrow> obind (serial_access env r c Function (replicate (unat Length) 0) s) (\<lambda>((Status, x), s).
                          if Status \<noteq> AE_OK then obind (drop_object os s) (\<lambda>s. Ret (Inl Status, s))
                          else Ret (Inr (Buf_Obj Length x), s)))
               | _ \<Rightarrow> Trap)
            else
              let Length = ACPI_ROUND_BITS_UP_TO_BYTES (BitLength c) in
              obind (read_target os iw Length s) (\<lambda>(BufferDesc, s). case BufferDesc of
                  None \<Rightarrow> Ret (Inl AE_NO_MEMORY, s)
                | Some bd \<Rightarrow>
                  obind (AcpiExAcquireGlobalLock env (FieldFlags c) s) (\<lambda>s.
                  obind (case bd of Buf_Obj n x \<Rightarrow> AcpiExExtractFromField (datum_io_read env ob) c x n s
                                  | _ \<Rightarrow> AcpiExExtractFromField (datum_io_read env ob) c (integer_bytes 0) (ucast iw) s) (\<lambda>(r, s).
                  obind (AcpiExReleaseGlobalLock env (FieldFlags c) s) (\<lambda>s.
                  case r of
                    Inl Status \<Rightarrow> obind (drop_object os s) (\<lambda>s. Ret (Inl Status, s))
                  | Inr y \<Rightarrow> Ret (Inr (case bd of Buf_Obj n x \<Rightarrow> Buf_Obj n y | _ \<Rightarrow> Int_Obj (collect_bytes y 0 0)), s)))))))"

text \<open>The bytes that are written, and their number.\<close>

definition write_source :: "acpi_object \<Rightarrow> (u8 list \<times> u32) option" where
  "write_source src = (case src of
     Int_Obj v \<Rightarrow> Some (integer_bytes v, 8) | Buf_Obj n b \<Rightarrow> Some (b, n) | Str_Obj n b \<Rightarrow> Some (b, n) | _ \<Rightarrow> None)"

text \<open>The result is the status, and the buffer that a serial region gave back.\<close>

definition AcpiExWriteDataToField ::
  "'s object_memory \<Rightarrow> 's field_env \<Rightarrow> 's field_arguments \<Rightarrow> acpi_object option \<Rightarrow> field_object option \<Rightarrow> 's \<Rightarrow> ((ACPI_STATUS \<times> acpi_object option) \<times> 's) outcome" where
  "AcpiExWriteDataToField os env args SourceDesc ObjDesc s =
     (case (SourceDesc, ObjDesc) of
        (Some src, Some ob) \<Rightarrow>
          obind (prepare_field args ob s) (\<lambda>(r, s). case r of
            Inl Status \<Rightarrow> Ret ((Status, None), s)
          | Inr ob \<Rightarrow>
            let c = CommonField ob in
            if is_serial env ob s then
              (case (src, ob) of
                 (Buf_Obj n b, Region_Field c r) \<Rightarrow>
                   let (Length, Function) = serial_transfer (RegionSpaceId (region_of env r s)) (Attribute c) 1
                   in if n < Length then Ret ((AE_AML_BUFFER_LIMIT, None), s)
                      else obind (AcpiUtCreateBufferObject os Length s) (\<lambda>(BufferDesc, s). case BufferDesc of
                          None \<Rightarrow> Ret ((AE_NO_MEMORY, None), s)
                        | Some bd \<Rightarrow>
                          obind (load (unat Length) b) (\<lambda>x.
                          obind (serial_access env r c Function x s) (\<lambda>((Status, x), s).
                          Ret ((Status, Some (Buf_Obj Length x)), s))))
               | _ \<Rightarrow> Ret ((AE_AML_OPERAND_TYPE, None), s))
            else (case write_source src of
                None \<Rightarrow> Ret ((AE_AML_OPERAND_TYPE, None), s)
              | Some (Buffer, Length) \<Rightarrow>
                  obind (AcpiExAcquireGlobalLock env (FieldFlags c) s) (\<lambda>s.
                  obind (AcpiExInsertIntoField (field_alloc env) (datum_io_read env ob) (datum_io_write env ob) c Buffer Length s) (\<lambda>(Status, s).
                  obind (AcpiExReleaseGlobalLock env (FieldFlags c) s) (\<lambda>s. Ret ((Status, None), s))))))
      | _ \<Rightarrow> Ret ((AE_AML_NO_OPERAND, None), s))"

section \<open>Where a field lies\<close>

lemma unat_round_down: "k < 32 \<Longrightarrow> unat (ACPI_ROUND_DOWN v (2 ^ k)) = unat v div 2 ^ k * 2 ^ k"
proof -
  assume k: "k < 32"
  have "(2 :: u32) ^ k - 1 = mask k" by (simp add: mask_eq_exp_minus_1)
  then have "ACPI_ROUND_DOWN v (2 ^ k) = push_bit k (drop_bit k v)"
    unfolding ACPI_ROUND_DOWN_def by (auto intro!: bit_word_eqI simp: bit_simps)
  moreover have "unat (push_bit k (drop_bit k v)) = take_bit 32 (push_bit k (drop_bit k (unat v)))"
    by (simp only: unsigned_push_bit_eq unat_drop_bit_eq) simp
  moreover have "push_bit k (drop_bit k (unat v)) = unat v div 2 ^ k * 2 ^ k"
    by (simp add: push_bit_eq_mult drop_bit_eq_div)
  moreover have "unat v div 2 ^ k * 2 ^ k < 2 ^ 32"
    using unat_u32_less [of v] by (auto intro: le_less_trans [OF div_times_less_eq_dividend])
  ultimately show ?thesis by (simp only: take_bit_nat_eq_self)
qed

definition known_access :: "u8 \<Rightarrow> bool" where
  "known_access Flags \<longleftrightarrow> Flags AND AML_FIELD_ACCESS_TYPE_MASK \<le> 5"

lemma decode_access:
  assumes "known_access Flags"
  shows "\<exists>k j. AcpiExDecodeFieldAccess Ty Flags = (8 * 2 ^ k, 2 ^ j) \<and> k \<le> 3 \<and> j \<le> k
    \<and> (Ty = ACPI_TYPE_BUFFER_FIELD \<longrightarrow> j = 0) \<and> (Ty \<noteq> ACPI_TYPE_BUFFER_FIELD \<longrightarrow> j = k)"
proof -
  let ?a = "Flags AND AML_FIELD_ACCESS_TYPE_MASK"
  have "unat ?a \<le> 5" using assms by (simp add: known_access_def word_le_nat_alt)
  then have "unat ?a = 0 \<or> unat ?a = 1 \<or> unat ?a = 2 \<or> unat ?a = 3 \<or> unat ?a = 4 \<or> unat ?a = 5" by linarith
  then have "?a = 0 \<or> ?a = 1 \<or> ?a = 2 \<or> ?a = 3 \<or> ?a = 4 \<or> ?a = 5"
    by (elim disjE) (simp_all add: word_unat_eq_iff)
  then show ?thesis
  proof (elim disjE)
    assume "?a = 2" then show ?thesis
      by (intro exI [of _ 1] exI [of _ "if Ty = ACPI_TYPE_BUFFER_FIELD then 0 else 1"]) (simp add: AcpiExDecodeFieldAccess_def access_types)
  next
    assume "?a = 3" then show ?thesis
      by (intro exI [of _ 2] exI [of _ "if Ty = ACPI_TYPE_BUFFER_FIELD then 0 else 2"]) (simp add: AcpiExDecodeFieldAccess_def access_types)
  next
    assume "?a = 4" then show ?thesis
      by (intro exI [of _ 3] exI [of _ "if Ty = ACPI_TYPE_BUFFER_FIELD then 0 else 3"]) (simp add: AcpiExDecodeFieldAccess_def access_types)
  qed (intro exI [of _ 0], simp add: AcpiExDecodeFieldAccess_def access_types)+
qed

text \<open>
  A field of a known access type is laid out so that its first datum contains its first bit: the base offset in bytes and
  the bit offset in the datum make up the bit position it was given, the width is 1, 2, 4 or 8 bytes,
  the base offset is a multiple of it for a field of a region, and a field over a buffer starts in its first byte.
\<close>

theorem field_layout:
  assumes "known_access Flags"
  shows "\<exists>f. AcpiExPrepCommonFieldObject Ty c Flags attr pos len = (AE_OK, f)
    \<and> FieldFlags f = Flags \<and> BitLength f = len
    \<and> unat (AccessByteWidth f) \<in> {1, 2, 4, 8}
    \<and> 8 * unat (BaseByteOffset f) + unat (StartFieldBitOffset f) = unat pos
    \<and> unat (StartFieldBitOffset f) < 8 * unat (AccessByteWidth f)
    \<and> (Ty \<noteq> ACPI_TYPE_BUFFER_FIELD \<longrightarrow> unat (AccessByteWidth f) dvd unat (BaseByteOffset f))
    \<and> (Ty = ACPI_TYPE_BUFFER_FIELD \<longrightarrow> unat (StartFieldBitOffset f) < 8)"
proof -
  obtain k j where d: "AcpiExDecodeFieldAccess Ty Flags = (8 * 2 ^ k, 2 ^ j)" "k \<le> 3" "j \<le> k"
    "Ty = ACPI_TYPE_BUFFER_FIELD \<longrightarrow> j = 0" "Ty \<noteq> ACPI_TYPE_BUFFER_FIELD \<longrightarrow> j = k"
    using decode_access [OF assms] by blast
  have k: "k = 0 \<or> k = 1 \<or> k = 2 \<or> k = 3" using d(2) by linarith
  define base where "base = ACPI_ROUND_DOWN (drop_bit 3 pos) (2 ^ j)"
  have b: "unat base = unat pos div 8 div 2 ^ j * 2 ^ j"
    unfolding base_def using d unat_round_down [of j "drop_bit 3 pos"] unfolding unat_drop_bit_eq by (simp add: drop_bit_eq_div)
  have split: "unat pos = 8 * unat base + unat pos mod (8 * 2 ^ j)"
  proof -
    have "unat pos div (8 * 2 ^ j) * (8 * 2 ^ j) + unat pos mod (8 * 2 ^ j) = unat pos" by (rule div_mult_mod_eq)
    then show ?thesis unfolding b div_mult2_eq by simp
  qed
  have small: "unat pos mod (8 * 2 ^ j) < 8 * 2 ^ j" "(2 :: nat) ^ j \<le> 2 ^ k" "(2 :: nat) ^ k \<le> 8"
    using d(3) k by (auto intro: power_increasing)
  have "unat (8 * base) = 8 * unat base"
    using split unat_u32_less [of pos] by (subst unat_mult_lem [THEN iffD1]) auto
  then have u: "unat (pos - 8 * base) = unat pos mod (8 * 2 ^ j)"
    using split by (subst unat_sub) (auto simp: word_le_nat_alt)
  have st: "unat (ucast (pos - 8 * base) :: u8) = unat pos mod (8 * 2 ^ j)"
  proof -
    have "unat pos mod (8 * 2 ^ j) < 256" using small by linarith
    then show ?thesis using u by (simp add: unsigned_ucast_eq take_bit_nat_eq_self)
  qed
  have w: "unat (ucast (drop_bit 3 (8 * 2 ^ k :: u32)) :: u8) = 2 ^ k" "(8 * 2 ^ k :: u32) \<noteq> 0"
    using k by (elim disjE; simp)+
  define f where "f = c\<lparr>FieldFlags := Flags, Attribute := attr, BitLength := len, AccessByteWidth := ucast (drop_bit 3 (8 * 2 ^ k :: u32)),
      BaseByteOffset := base, StartFieldBitOffset := ucast (pos - 8 * base)\<rparr>"
  have "AcpiExPrepCommonFieldObject Ty c Flags attr pos len = (AE_OK, f)"
    using d(1) w(2) by (simp add: AcpiExPrepCommonFieldObject_def Let_def f_def base_def)
  moreover have "unat (AccessByteWidth f) = 2 ^ k" "unat (StartFieldBitOffset f) = unat pos mod (8 * 2 ^ j)"
    "BaseByteOffset f = base" "FieldFlags f = Flags" "BitLength f = len"
    using w(1) st by (simp_all add: f_def)
  moreover have "(2 :: nat) ^ k \<in> {1, 2, 4, 8}" using k by auto
  moreover have "2 ^ j dvd unat base" unfolding b by simp
  ultimately show ?thesis using split small d(4,5) by auto
qed

theorem field_layout_witness:
  "\<exists>f. AcpiExPrepCommonFieldObject ACPI_TYPE_LOCAL_REGION_FIELD example_field 0x42 0 100 5 = (AE_OK, f)
    \<and> unat (AccessByteWidth f) dvd unat (BaseByteOffset f) \<and> 8 * unat (BaseByteOffset f) + unat (StartFieldBitOffset f) = 100"
  using field_layout [where Flags = "0x42" and Ty = ACPI_TYPE_LOCAL_REGION_FIELD and c = example_field and attr = 0 and pos = 100 and len = 5]
  by (auto simp: known_access_def AML_FIELD_ACCESS_TYPE_MASK_def type_codes)

section \<open>Fields that AML creates over a buffer\<close>

text \<open>The bit position and the length of a field, without the 32 bits of the code.\<close>

definition created_bits :: "u16 \<Rightarrow> u64 \<Rightarrow> u64 \<Rightarrow> nat \<times> nat" where
  "created_bits AmlOpcode OffsetValue LengthValue =
     (let p = unat OffsetValue mod 2 ^ 32 in
      if AmlOpcode = AML_CREATE_FIELD_OP then (p, unat LengthValue mod 2 ^ 32)
      else if AmlOpcode = AML_CREATE_BIT_FIELD_OP then (p, 1)
      else if AmlOpcode = AML_CREATE_BYTE_FIELD_OP then (8 * p, 8)
      else if AmlOpcode = AML_CREATE_WORD_FIELD_OP then (8 * p, 16)
      else if AmlOpcode = AML_CREATE_DWORD_FIELD_OP then (8 * p, 32)
      else (8 * p, 64))"

lemma unat_low_half: "unat (ucast (v :: u64) :: u32) = unat v mod 2 ^ 32"
  by (simp add: unsigned_ucast_eq take_bit_eq_mod)

lemma create_layout_bits:
  assumes "create_layout op (ucast offs) (ucast n) = Inr (Flags, first, count)"
    "created_bits op offs n = (p, l)" "p + l < 2 ^ 32"
  shows "unat first = p \<and> unat count = l \<and> 0 < l \<and> known_access Flags \<and> Flags AND AML_FIELD_UPDATE_RULE_MASK = AML_FIELD_UPDATE_PRESERVE
    \<and> Flags AND AML_FIELD_LOCK_RULE_MASK = 0
    \<and> (\<exists>k. AcpiExDecodeFieldAccess ACPI_TYPE_BUFFER_FIELD Flags = (8 * 2 ^ k, 1) \<and> k \<le> 3 \<and> (k = 0 \<or> 8 dvd p \<and> l = 8 * 2 ^ k))"
proof -
  have m: "unat (8 * ucast offs :: u32) = 8 * unat (ucast offs :: u32)" if "8 * (unat offs mod 2 ^ 32) < 2 ^ 32"
    using that unat_mult_lem [of "8 :: u32" "ucast offs"] by (simp add: unat_low_half)
  have ex: "\<exists>k. AcpiExDecodeFieldAccess ACPI_TYPE_BUFFER_FIELD Flags = (8 * 2 ^ k, 1) \<and> k \<le> 3 \<and> (k = 0 \<or> 8 dvd p \<and> l = 8 * 2 ^ k)"
    if "AcpiExDecodeFieldAccess ACPI_TYPE_BUFFER_FIELD Flags = (8 * 2 ^ k, 1)" "k \<le> 3" "k = 0 \<or> 8 dvd p \<and> l = 8 * 2 ^ k" for k
    using that by blast
  have d8: "8 dvd p" if "op = AML_CREATE_WORD_FIELD_OP \<or> op = AML_CREATE_DWORD_FIELD_OP \<or> op = AML_CREATE_QWORD_FIELD_OP"
    using that assms(2) by (auto simp: created_bits_def create_opcodes Let_def)
  note d = AcpiExDecodeFieldAccess_def access_types AML_FIELD_ACCESS_TYPE_MASK_def known_access_def update_rules AML_FIELD_LOCK_RULE_MASK_def
  consider "op = AML_CREATE_FIELD_OP" | "op = AML_CREATE_BIT_FIELD_OP" | "op = AML_CREATE_BYTE_FIELD_OP"
    | "op = AML_CREATE_WORD_FIELD_OP" | "op = AML_CREATE_DWORD_FIELD_OP" | "op = AML_CREATE_QWORD_FIELD_OP"
    using assms(1) by (auto simp: create_layout_def split: if_splits)
  then show ?thesis
  proof cases
    case 1
    then have nz: "(ucast n :: u32) \<noteq> 0" using assms(1) by (auto simp: create_layout_def)
    then have "0 < unat (ucast n :: u32)" by (simp add: word_neq_0_conv word_less_nat_alt)
    then show ?thesis using 1 nz assms ex [of 0]
      by (auto simp: create_layout_def created_bits_def create_opcodes unat_low_half d Let_def)
  next
    case 2
    then show ?thesis using assms ex [of 0]
      by (auto simp: create_layout_def created_bits_def create_opcodes unat_low_half d Let_def)
  next
    case 3
    then show ?thesis using assms ex [of 0] m
      by (auto simp: create_layout_def created_bits_def create_opcodes unat_low_half d Let_def)
  next
    case 4
    then show ?thesis using assms ex [of 1] m d8
      by (auto simp: create_layout_def created_bits_def create_opcodes unat_low_half d Let_def)
  next
    case 5
    then show ?thesis using assms ex [of 2] m d8
      by (auto simp: create_layout_def created_bits_def create_opcodes unat_low_half d Let_def)
  next
    case 6
    then show ?thesis using assms ex [of 3] m d8
      by (auto simp: create_layout_def created_bits_def create_opcodes unat_low_half d Let_def)
  qed
qed

text \<open>The four phases of the deletion of the operands never change the result.\<close>

lemma init_buffer_field_result:
  assumes "AcpiDsInitBufferField rem op c BufferDesc offs n node s = Ret (Inr f, s')"
  shows "\<exists>m b Flags first count. BufferDesc = Buf_Obj m b \<and> create_layout op (ucast offs) (ucast n) = Inr (Flags, first, count)
    \<and> first + count \<le> 8 * m \<and> AcpiExPrepCommonFieldObject ACPI_TYPE_BUFFER_FIELD c Flags 0 first count = (AE_OK, f)"
  using assms unfolding AcpiDsInitBufferField_def Let_def
  by (auto simp: obind_eq_Ret not_less split: acpi_object.splits sum.splits prod.splits if_splits)

text \<open>
  A field that CreateField or one of its relatives makes over a buffer lies inside the buffer: every datum that an access
  to it touches does, it starts at the bit that was asked for, keeps the bits around it and needs no lock. This holds
  when the bit offset and the length, computed from the operands' lower 32 bits, do not pass 32 bits together.
\<close>

theorem created_field_inside:
  assumes "AcpiDsInitBufferField rem op c (Buf_Obj m bytes) offs n node s = Ret (Inr f, s')" "m < 2 ^ 28"
    "fst (created_bits op offs n) + snd (created_bits op offs n) < 2 ^ 32"
  shows "field_in_buffer f (unat m) \<and> rule_known f \<and> update_rule f = AML_FIELD_UPDATE_PRESERVE
    \<and> FieldFlags f AND AML_FIELD_LOCK_RULE_MASK = 0
    \<and> 8 * unat (BaseByteOffset f) + unat (StartFieldBitOffset f) = fst (created_bits op offs n)
    \<and> unat (BitLength f) = snd (created_bits op offs n)"
proof -
  obtain p l where pl: "created_bits op offs n = (p, l)" "p + l < 2 ^ 32" using assms(3) by (cases "created_bits op offs n") auto
  obtain Flags first count where r: "create_layout op (ucast offs) (ucast n) = Inr (Flags, first, count)"
    "first + count \<le> 8 * m" "AcpiExPrepCommonFieldObject ACPI_TYPE_BUFFER_FIELD c Flags 0 first count = (AE_OK, f)"
    using init_buffer_field_result [OF assms(1)] by auto
  note lay = create_layout_bits [OF r(1) pl]
  obtain k where k: "AcpiExDecodeFieldAccess ACPI_TYPE_BUFFER_FIELD Flags = (8 * 2 ^ k, 1)" "k \<le> 3" "k = 0 \<or> 8 dvd p \<and> l = 8 * 2 ^ k"
    using lay by blast
  have k4: "k = 0 \<or> k = 1 \<or> k = 2 \<or> k = 3" using k(2) by linarith
  note pos = field_layout [of Flags ACPI_TYPE_BUFFER_FIELD c 0 first count]
  have f: "FieldFlags f = Flags" "BitLength f = count" "8 * unat (BaseByteOffset f) + unat (StartFieldBitOffset f) = p"
    "unat (StartFieldBitOffset f) < 8"
    using pos lay r(3) by auto
  have w: "unat (AccessByteWidth f) = 2 ^ k"
    using r(3) k4 by (auto simp: AcpiExPrepCommonFieldObject_def k(1) Let_def)
  have "unat (first + count) = p + l" using lay pl(2) by (subst unat_add_lem [THEN iffD1]) auto
  moreover have "unat (8 * m) = 8 * unat m" using assms(2) by (subst unat_mult_lem [THEN iffD1]) (auto simp: word_less_nat_alt)
  ultimately have inside: "p + l \<le> 8 * unat m" using r(2) by (simp add: word_le_nat_alt)
  have "unat (BaseByteOffset f) + field_data f * 2 ^ k \<le> unat m"
  proof (cases "k = 0")
    case True
    then have "field_data f = (l + unat (StartFieldBitOffset f) + 7) div 8" using lay f(2) w by (simp add: field_data_def)
    then show ?thesis using True inside f(3) by auto
  next
    case False
    then have e: "8 dvd p" "l = 8 * 2 ^ k" using k(3) by auto
    then have "unat (StartFieldBitOffset f) = 0" using f(3,4) by (metis dvd_add_right_iff dvd_triv_left nat_dvd_not_less neq0_conv)
    moreover have "(8 * 2 ^ k + (8 * 2 ^ k - 1)) div (8 * 2 ^ k) = (1 :: nat)" using k4 by auto
    ultimately have "field_data f = 1" using lay f(2) w e(2) by (simp add: field_data_def)
    then show ?thesis using e(2) inside f(3) \<open>unat (StartFieldBitOffset f) = 0\<close> by simp
  qed
  moreover have "unat (StartFieldBitOffset f) < 8 * 2 ^ k" using f(4) by (auto intro: less_le_trans)
  moreover have "count \<noteq> 0" using lay by auto
  moreover have "(2 :: nat) ^ k \<in> {1, 2, 4, 8}" using k4 by auto
  moreover have "unat m < 268435456" using assms(2) by (simp add: word_less_nat_alt)
  ultimately have "field_in_buffer f (unat m)" unfolding field_in_buffer_def w f(2) by blast
  then show ?thesis using f lay pl(1) by (simp add: rule_known_def update_rule_def)
qed

theorem created_field_inside_witness:
  "\<exists>f. AcpiDsInitBufferField (\<lambda>_. Ret) AML_CREATE_DWORD_FIELD_OP example_field (Buf_Obj 8 (replicate 8 0)) 3 0 True () = Ret (Inr f, ())
    \<and> field_in_buffer f 8 \<and> 8 * unat (BaseByteOffset f) + unat (StartFieldBitOffset f) = 24"
proof -
  obtain f where f: "AcpiDsInitBufferField (\<lambda>_. Ret) AML_CREATE_DWORD_FIELD_OP example_field (Buf_Obj 8 (replicate 8 0)) 3 0 True () = Ret (Inr f, ())"
    by (simp add: AcpiDsInitBufferField_def create_layout_def create_opcodes AcpiExPrepCommonFieldObject_def
        AcpiExDecodeFieldAccess_def access_types AML_FIELD_ACCESS_TYPE_MASK_def Let_def AE_OK_def)
  then show ?thesis using created_field_inside [OF f] by (simp add: created_bits_def create_opcodes)
qed

text \<open>
  When the bit offset and the length pass 32 bits together the check lets the field through: CreateField of 16 bits at the
  bit offset 0xFFFFFFF8 of a buffer of 8 bytes succeeds, and the field lies half a gigabyte behind it.
\<close>

lemma create_field_wraps:
  "\<exists>f. AcpiDsInitBufferField (\<lambda>_. Ret) AML_CREATE_FIELD_OP c (Buf_Obj 8 (replicate 8 0)) 0xFFFFFFF8 16 True () = Ret (Inr f, ())
    \<and> unat (BaseByteOffset f) = 536870911
    \<and> AcpiExExtractFromField (datum_io_read buffer_memory (Buffer_Field f 0)) f (integer_bytes 0) 8 (replicate 8 0) = Trap"
  by (simp add: AcpiDsInitBufferField_def create_layout_def create_opcodes AcpiExPrepCommonFieldObject_def ACPI_ROUND_DOWN_def
      AcpiExDecodeFieldAccess_def access_types AML_FIELD_ACCESS_TYPE_MASK_def Let_def AE_OK_def drop_bit_eq_div
      AcpiExExtractFromField_def ACPI_ROUND_BITS_UP_TO_BYTES_def save_def buffer_memory_def ACPI_ROUND_UP_TO_def)

section \<open>Values of fields\<close>

text \<open>Creating an object does not change a buffer that exists.\<close>

definition spares_buffer :: "'s object_memory \<Rightarrow> 's field_env \<Rightarrow> nat \<Rightarrow> bool" where
  "spares_buffer os env b \<longleftrightarrow>
     (\<forall>s. \<exists>s'. new_descriptor os s = Ret (True, s') \<and> buffer_bytes env b s' = buffer_bytes env b s)"

lemma spared_integer:
  "spares_buffer os env b \<Longrightarrow> \<exists>s'. AcpiUtCreateIntegerObject os v s = Ret (Some (Int_Obj v), s') \<and> buffer_bytes env b s' = buffer_bytes env b s"
  unfolding spares_buffer_def
  by (drule spec [where x = s])
    (auto simp: AcpiUtCreateIntegerObject_def AcpiUtCreateInternalObject_def type_codes)

lemma short_field: "unat (BitLength c) \<le> 8 * unat (iw :: u8) \<Longrightarrow> iw = 4 \<or> iw = 8 \<Longrightarrow>
    \<not> ucast iw < ACPI_ROUND_BITS_UP_TO_BYTES (BitLength c)"
proof -
  assume a: "unat (BitLength c) \<le> 8 * unat iw" "iw = 4 \<or> iw = 8"
  then have "unat (BitLength c + 7) = unat (BitLength c) + 7" by (subst unat_add_lem [THEN iffD1]) auto
  then have "unat (ACPI_ROUND_BITS_UP_TO_BYTES (BitLength c)) = (unat (BitLength c) + 7) div 8"
    unfolding ACPI_ROUND_BITS_UP_TO_BYTES_def unat_drop_bit_eq by (simp add: drop_bit_eq_div)
  moreover have "unat (ucast iw :: u32) = unat iw" using a(2) by auto
  ultimately show ?thesis using a(1) by (simp add: word_less_nat_alt)
qed

lemma buffer_field_value:
  assumes "keeps_buffer env b" "field_in_buffer f (length (buffer_bytes env b s))" "rule_known f"
    "unat (BitLength f) \<le> 8 * unat iw" "iw = 4 \<or> iw = 8"
  shows "\<exists>s'. AcpiExInsertIntoField (field_alloc env) (datum_io_read env (Buffer_Field f b)) (datum_io_write env (Buffer_Field f b))
        f (integer_bytes v) 8 s = Ret (AE_OK, s')
    \<and> (\<forall>s2. buffer_bytes env b s2 = buffer_bytes env b s' \<longrightarrow>
        AcpiExExtractFromField (datum_io_read env (Buffer_Field f b)) f (integer_bytes 0) (ucast (iw :: u8)) s2
          = Ret (Inr (integer_bytes (take_bit (unat (BitLength f)) v)), s2))"
proof -
  have len8: "8 * unat (8 :: u32) < unat (BitLength f) \<Longrightarrow> False" using assms(4,5) by auto
  obtain s' where w: "AcpiExInsertIntoField (field_alloc env) (datum_io_read env (Buffer_Field f b)) (datum_io_write env (Buffer_Field f b))
        f (integer_bytes v) 8 s = Ret (AE_OK, s')" "length (buffer_bytes env b s') = length (buffer_bytes env b s)"
    "\<And>m. byte_bit (buffer_bytes env b s') m \<longleftrightarrow>
        (let first = 8 * unat (BaseByteOffset f) + unat (StartFieldBitOffset f)
         in if first \<le> m \<and> m < first + unat (BitLength f) then byte_bit (take (unat (8 :: u32)) (integer_bytes v)) (m - first)
            else if in_data f m then outside (update_rule f) (byte_bit (buffer_bytes env b s) m)
            else byte_bit (buffer_bytes env b s) m)"
    using buffer_field.write_buffer_field [OF buffer_field.intro [OF assms(1,2)] refl refl assms(3), of 8 "integer_bytes v"] len8
    by (auto simp: Let_def)
  let ?first = "8 * unat (BaseByteOffset f) + unat (StartFieldBitOffset f)"
  have z: "\<not> byte_bit (integer_bytes 0) k" for k using integer_bytes_bit [of 8 0 k] by simp
  have i: "byte_bit (integer_bytes x) k \<longleftrightarrow> k < 64 \<and> bit x k" for x k using integer_bytes_bit [of 8 x k] by simp
  have u: "unat (ucast iw :: u32) = unat iw" "unat iw \<le> 8" using assms(5) by auto
  have "AcpiExExtractFromField (datum_io_read env (Buffer_Field f b)) f (integer_bytes 0) (ucast iw) s2
          = Ret (Inr (integer_bytes (take_bit (unat (BitLength f)) v)), s2)" if s2: "buffer_bytes env b s2 = buffer_bytes env b s'" for s2
  proof -
    have fit: "field_in_buffer f (length (buffer_bytes env b s2))" using assms(2) s2 w(2) by simp
    obtain y where y: "AcpiExExtractFromField (datum_io_read env (Buffer_Field f b)) f (integer_bytes 0) (ucast iw) s2 = Ret (Inr y, s2)"
      "length y = 8" "\<And>k. byte_bit y k \<longleftrightarrow> k < unat (BitLength f) \<and> byte_bit (buffer_bytes env b s2) (?first + k)"
      using buffer_field.read_buffer_field [OF buffer_field.intro [OF assms(1) fit] refl, of "ucast iw" "integer_bytes 0"] z u assms(4) by auto
    have "byte_bit y k \<longleftrightarrow> k < unat (BitLength f) \<and> byte_bit (integer_bytes v) k" for k
      unfolding y(3) s2 w(3) by (auto simp: Let_def)
    then have "y = integer_bytes (take_bit (unat (BitLength f)) v)"
      using y(2) by (intro bytes_bit_eq) (auto simp: i bit_take_bit_iff)
    then show ?thesis using y(1) by simp
  qed
  then show ?thesis using w(1) by blast
qed

lemma integer_bytes_value: "collect_bytes (integer_bytes v) 0 0 = v"
  using integer_bytes_collect [of 8 v] by (simp add: take_bit_word_eq_self)

text \<open>
  C20. An integer stored in a field that AML created over a buffer, and then read as an object, comes back as the integer
  modulo 2 to the length of the field, through the layout of the field, the access to its data and the
  choice of the object that is read into. The field is not longer than an integer of the interpreter, 4 or 8 bytes;
  its bit offset and length add up to less than 2 to the 32, since the check of the code wraps beyond that and lets fields
  through that lie behind the buffer; the buffer has less than 2 to the 28 bytes; the buffer keeps what is stored
  in it; creating the object for the result succeeds and leaves the buffer alone; and the operands of the
  field have been evaluated.
\<close>

theorem created_field_value:
  assumes "AcpiDsInitBufferField rem op c (Buf_Obj m bytes) offs n node t = Ret (Inr f, t')" "m < 2 ^ 28"
    "fst (created_bits op offs n) + snd (created_bits op offs n) < 2 ^ 32"
    "snd (created_bits op offs n) \<le> 8 * unat iw" "iw = 4 \<or> iw = 8"
    "keeps_buffer env b" "spares_buffer os env b" "length (buffer_bytes env b s) = unat m"
    "\<And>s. args (Buffer_Field f b) s = Ret (Inr (Buffer_Field f b), s)"
  shows "\<exists>s1 s2. AcpiExWriteDataToField os env args (Some (Int_Obj v)) (Some (Buffer_Field f b)) s = Ret ((AE_OK, None), s1)
    \<and> AcpiExReadDataFromField os env args iw (Some (Buffer_Field f b)) True s1
        = Ret (Inr (Int_Obj (take_bit (snd (created_bits op offs n)) v)), s2)"
proof -
  have f: "field_in_buffer f (length (buffer_bytes env b s))" "rule_known f" "FieldFlags f AND AML_FIELD_LOCK_RULE_MASK = 0"
    "unat (BitLength f) = snd (created_bits op offs n)"
    using created_field_inside [OF assms(1,2,3)] assms(8) by auto
  have l: "unat (BitLength f) \<le> 8 * unat iw" using f(4) assms(4) by simp
  obtain s1 where s1: "AcpiExInsertIntoField (field_alloc env) (datum_io_read env (Buffer_Field f b)) (datum_io_write env (Buffer_Field f b))
        f (integer_bytes v) 8 s = Ret (AE_OK, s1)"
    "\<And>s2. buffer_bytes env b s2 = buffer_bytes env b s1 \<Longrightarrow>
        AcpiExExtractFromField (datum_io_read env (Buffer_Field f b)) f (integer_bytes 0) (ucast iw) s2
          = Ret (Inr (integer_bytes (take_bit (unat (BitLength f)) v)), s2)"
    using buffer_field_value [OF assms(6) f(1,2) l assms(5), of v] by blast
  obtain s2 where s2: "AcpiUtCreateIntegerObject os 0 s1 = Ret (Some (Int_Obj 0), s2)" "buffer_bytes env b s2 = buffer_bytes env b s1"
    using spared_integer [OF assms(7)] by blast
  have "AcpiExWriteDataToField os env args (Some (Int_Obj v)) (Some (Buffer_Field f b)) s = Ret ((AE_OK, None), s1)"
    by (simp add: AcpiExWriteDataToField_def prepare_field_def assms(9) is_serial_def write_source_def AcpiExAcquireGlobalLock_def
        AcpiExReleaseGlobalLock_def f(3) s1(1) del: datum_io_read.simps datum_io_write.simps)
  moreover have "AcpiExReadDataFromField os env args iw (Some (Buffer_Field f b)) True s1
      = Ret (Inr (Int_Obj (take_bit (unat (BitLength f)) v)), s2)"
    using short_field [OF l assms(5)]
    by (simp add: AcpiExReadDataFromField_def prepare_field_def assms(9) is_serial_def read_target_def s2(1) AcpiExAcquireGlobalLock_def
        AcpiExReleaseGlobalLock_def f(3) s1(2) [OF s2(2)] integer_bytes_value del: datum_io_read.simps datum_io_write.simps)
  ultimately show ?thesis unfolding f(4) by blast
qed

definition plain_memory :: "'s object_memory" where
  "plain_memory = \<lparr>div64 = (\<lambda>h l d. Trap), new_descriptor = (\<lambda>s. Ret (True, s)), new_block = (\<lambda>n s. Ret (True, s)), drop_object = Ret\<rparr>"

theorem created_field_value_witness:
  "\<exists>f s1 s2. AcpiDsInitBufferField (\<lambda>_. Ret) AML_CREATE_DWORD_FIELD_OP example_field (Buf_Obj 8 (replicate 8 0)) 3 0 True () = Ret (Inr f, ())
    \<and> AcpiExWriteDataToField plain_memory buffer_memory (\<lambda>ob s. Ret (Inr ob, s)) (Some (Int_Obj 0x123456789ABCDEF0)) (Some (Buffer_Field f 0)) (replicate 8 0)
        = Ret ((AE_OK, None), s1)
    \<and> AcpiExReadDataFromField plain_memory buffer_memory (\<lambda>ob s. Ret (Inr ob, s)) 8 (Some (Buffer_Field f 0)) True s1
        = Ret (Inr (Int_Obj 0x9ABCDEF0), s2)"
proof -
  obtain f where f: "AcpiDsInitBufferField (\<lambda>_. Ret) AML_CREATE_DWORD_FIELD_OP example_field (Buf_Obj 8 (replicate 8 0)) 3 0 True () = Ret (Inr f, ())"
    by (simp add: AcpiDsInitBufferField_def create_layout_def create_opcodes AcpiExPrepCommonFieldObject_def
        AcpiExDecodeFieldAccess_def access_types AML_FIELD_ACCESS_TYPE_MASK_def Let_def AE_OK_def)
  have bits: "created_bits AML_CREATE_DWORD_FIELD_OP 3 0 = (24, 32)" by (simp add: created_bits_def create_opcodes)
  have "spares_buffer plain_memory buffer_memory 0" by (simp add: spares_buffer_def plain_memory_def)
  moreover have "take_bit 32 (0x123456789ABCDEF0 :: u64) = 0x9ABCDEF0" by (simp add: take_bit_eq_mod)
  ultimately show ?thesis
    using created_field_value [OF f, of 8 buffer_memory 0 plain_memory "replicate 8 0" "\<lambda>ob s. Ret (Inr ob, s)" "0x123456789ABCDEF0"] f bits
      example_fits(2) [of 0] by (simp add: buffer_memory_simps)
qed

end
