(* ===== verification/Spec2Isabelle.thy ===== *)
theory Spec2Isabelle
  imports PageAlloc CString Keyboard Clib Stdlib Vsprintf Vga Descriptors Interrupts Sched Process Sysinfo Bootmem
    FreePages Reports Paging Boot AcpiMath AcpiResource AcpiTables AcpiFadt AcpiName AcpiMutex AcpiUtil AcpiCache AcpiNamespace
    AcpiObject AcpiOperator AcpiField AcpiFieldUnit
begin

text \<open>
  Ganoid: verification of a small i386 kernel.

  The program. Ganoid is loaded by a multiboot loader. \<^verbatim>\<open>kernel_main\<close> (arch/i386/kernel/init.c) starts
  the console, reads the loader's memory map, starts the page allocator, the interrupt dispatcher,
  the interrupt controllers, the keyboard and the timer, with CONFIG_ENABLE_ACPI looks for the ACPI
  tables, starts the scheduler and becomes the idle thread. From then on interrupts drive it: a key
  puts a scan byte into the ring of the keyboard driver, a timer tick asks for a switch of threads,
  and threads call the allocator, the console and read_key. lib/acpi is Intel's ACPI component
  architecture, of which the kernel itself calls the table manager.

  Theories and sources.

    \<^item> \<open>Prelude\<close>: machine words, the outcome of a C call (a return, a fault, an endless loop), shared lemmas.
    \<^item> \<open>Bitmap\<close>: the interface of a page bitmap as a locale, interpreted by the three allocators.
    \<^item> \<open>PageAlloc\<close>: mm/page.c, mm/heap.c. \<open>Bootmem\<close>: mm/bootmem.c. \<open>FreePages\<close>: mm/free-pages.c.
    \<^item> \<open>CString\<close>: lib/libc/string.c. \<open>Stdlib\<close>: lib/libc/stdlib.c, ctype.h. \<open>Vsprintf\<close>: lib/libc/vsprintf.c,
      lib/utils.c. \<open>Clib\<close>: arch/i386/kernel/clib.c.
    \<^item> \<open>Ports\<close>, \<open>Vga\<close>: port writes, arch/i386/kernel/vga.c. \<open>Keyboard\<close>: kbd-handler.c, with the ring
      buffer interface as a locale.
    \<^item> \<open>Descriptors\<close>: gdt.c, idt.c. \<open>Interrupts\<close>: isr.c, apic.c, timer.c. \<open>Paging\<close>: paging.c.
    \<^item> \<open>Sched\<close>: kernel/sched.c, kernel/idle.c, with round robin as a locale. \<open>Process\<close>: kernel/process.c.
    \<^item> \<open>Multiboot\<close>, \<open>Sysinfo\<close>: the loader's records, arch/i386/lib/sysinfo.c. \<open>Reports\<close>: kdebug.c,
      panic.c, cpu.c and the table listings.
    \<^item> \<open>Boot\<close>: kernel_main as the composition of all of these, and the runs of the kernel after it, an
      inductive step relation over interrupts and calls of threads.
    \<^item> \<open>AcpiBase\<close>: status codes, 64-bit halves. \<open>AcpiMath\<close>: utilities/utmath.c. \<open>AcpiResource\<close>:
      utilities/utresrc.c, amlresrc.h. \<open>AcpiTables\<close>: ganoid-acpi.c and tables/tbxfroot.c, tbutils.c,
      tbinstal.c, tbfadt.c, tbxface.c, with the host's services as a locale. \<open>AcpiFadt\<close>: what the
      conversion of the fixed table leaves.
    \<^item> \<open>AcpiName\<close>: the names of the namespace between their external and internal form (namespace/nsutils.c,
      parser/psargs.c, utilities/utmisc.c). \<open>AcpiMutex\<close>: utilities/utmutex.c, utlock.c, with the host's
      locks as a record of functions. \<open>AcpiUtil\<close>: the owner identifiers, byte order and numbers of utmisc.c,
      and utaddress.c. \<open>AcpiCache\<close>: utilities/utcache.c. \<open>AcpiNamespace\<close>: the tree of named nodes
      as a heap of linked records, namespace/nssearch.c, nsalloc.c, nswalk.c, nsnames.c.
    \<^item> \<open>AcpiObject\<close>: integers, strings and buffers of AML and their conversions (executer/exconvrt.c, exutils.c,
      utilities/utobject.c). \<open>AcpiOperator\<close>: the operators on them (executer/exmisc.c, exoparg1.c, exstorob.c).
    \<^item> \<open>AcpiField\<close>: access to fields of any number of bits through data of a fixed width (executer/exfldio.c), with
      the store of data as a locale that fields over buffers interpret. \<open>AcpiFieldUnit\<close>: the layout of fields, their
      creation over buffers, and reading and writing them (executer/exprep.c, exfield.c, dispatcher/dsopcode.c).

  State and operations. The static variables of a file are the fields of a record with their names
  (\<open>kbd\<close>, \<open>vga\<close>, \<open>bootmem\<close>, \<open>acpi\<close>, \<open>kernel\<close>); an operation takes it and returns it changed,
  inside \<open>outcome\<close> when it can fault or loop. Words have the width of the C type. Port output is a
  log. Memory that code reads through pointers is a function from 32-bit addresses to bytes.

  What is shown. Allocators: blocks are fresh, disjoint, inside RAM, apart from the kernel image and
  freed completely; when a request is served and when the search never returns. Scheduler: it
  refines round robin, and every thread gets its turn. Keyboard: the ring refines a queue, the state
  machine decodes the scan codes, and the search is a lookup. Formatting: the output is the rendering of the
  format. Descriptor tables, controllers, paging: what the processor reads back is what was meant.
  Boot: it reaches the idle loop, with and without ACPI, every run afterwards keeps the invariant of the whole
  kernel, and every vector goes through its gate and stub; the exceptions with an error code do not return.
  ACPI: the root pointer search finds the first valid one, the table array is the root table, the
  fixed table is converted field by field, division agrees with the machine's, and the walk over a
  template visits its descriptors. A name survives the way to its internal form and back; the
  subsystem's mutexes exclude each other, never deadlock when their order is kept, which this kernel does not check, and do
  when it is not; identifiers of owners are fresh until
  they run out; the tree of nodes stays a tree when names are entered, its walk visits what lies in it
  in order, and the path of a node spells the names above it. An integer survives its conversion to a buffer and back,
  and to a string and back where the platform divides, which this port's macro does not; conversions give the type they are asked for, and joined resource templates are walked one
  after the other. A write to a field changes its bits and no others than the update rule says, what is written
  to a field is read back, and the handler of a region is called inside its length. Where the code departs from this, a theorem says so.

  Bounds and fuel. No definition uses fuel: a loop that may not end is a
  \<^theory_text>\<open>partial_function (option)\<close> whose \<open>None\<close> becomes \<open>Hang\<close>, and the others are recursions with
  a proved measure. The sizes are those of the source: 2^20 page frames, a ring of 10 bytes, a screen of
  80 by 25 cells, 256 gates, a table array of 16.

  Not modelled. Assembly (boot.S, kbd.S, cpu-id.S, and of vectors.S all but the numbers of the stubs and the order of the
  calls): its results are arguments. Hardware beyond
  the values that ports and control registers get. mm/slab.c, mm/pgfault.c and kernel/debug-mon.c are empty or
  disabled, the range functions of mm/free-pages.c do not compile, testcases/ are test drivers.
  Of lib/acpi the execution of methods, the parser behind names and lengths, the dispatcher except the creation of
  fields over buffers, the events, the hardware layer, the debugger and the disassembler are not modelled, nor is
  the deletion of nodes and of the objects attached to them:
  init_acpi reaches none of it, and in this port every allocation it makes loops. What is modelled
  beyond init_acpi takes the allocator and the host's locks as arguments.
\<close>

end
